(* ===== verification/Clib.thy ===== *)
theory Clib
  imports Main "HOL-Library.Word" "HOL-Library.Signed_Division" "HOL-Library.While_Combinator"
begin

section \<open>Prelude: C integers, bytes and shared lemmas\<close>

text \<open>
  What the component theories share.

  C code that computes with signed 32 and 64 bit integers is modelled over \<open>int\<close>; the functions
  \<open>s8\<close> .. \<open>s64\<close> and \<open>u8\<close> .. \<open>u64\<close> are the conversions to the C types (two's complement, modulo
  \<open>2 ^ w\<close>) and are written wherever the C code converts, assigns to a narrower type or computes
  modulo \<open>2 ^ w\<close>.  Division and remainder of C truncate towards zero: these are \<open>sdiv\<close> and
  \<open>smod\<close> of the library.  Bit-level code (hashes, ciphers, checksums) is modelled over
  \<open>'a word\<close>.

  The collection \<open>crange\<close> holds the facts that remove a conversion from a value already in range.
\<close>

unbundle bit_operations_syntax

named_theorems crange \<open>conversions to a C integer type are the identity on its range\<close>

type_synonym byte = "8 word"

subsection \<open>Conversions to C integer types\<close>

definition u8 :: "int \<Rightarrow> int" where "u8 x = x mod 256"
definition u16 :: "int \<Rightarrow> int" where "u16 x = x mod 65536"
definition u32 :: "int \<Rightarrow> int" where "u32 x = x mod 4294967296"
definition u64 :: "int \<Rightarrow> int" where "u64 x = x mod 18446744073709551616"
definition s8 :: "int \<Rightarrow> int" where "s8 x = (x + 128) mod 256 - 128"
definition s16 :: "int \<Rightarrow> int" where "s16 x = (x + 32768) mod 65536 - 32768"
definition s32 :: "int \<Rightarrow> int" where "s32 x = (x + 2147483648) mod 4294967296 - 2147483648"
definition s64 :: "int \<Rightarrow> int" where
  "s64 x = (x + 9223372036854775808) mod 18446744073709551616 - 9223372036854775808"

abbreviation INT_MAX :: int where "INT_MAX \<equiv> 2147483647"
abbreviation INT_MIN :: int where "INT_MIN \<equiv> - 2147483648"
abbreviation AVERROR_EOF :: int where "AVERROR_EOF \<equiv> - 541478725"
abbreviation INT64_MAX :: int where "INT64_MAX \<equiv> 9223372036854775807"
abbreviation INT64_MIN :: int where "INT64_MIN \<equiv> - 9223372036854775808"

definition int32 :: "int \<Rightarrow> bool" where "int32 x \<longleftrightarrow> INT_MIN \<le> x \<and> x \<le> INT_MAX"
definition int64 :: "int \<Rightarrow> bool" where "int64 x \<longleftrightarrow> INT64_MIN \<le> x \<and> x \<le> INT64_MAX"
definition uint64 :: "int \<Rightarrow> bool" where "uint64 x \<longleftrightarrow> 0 \<le> x \<and> x < 18446744073709551616"

lemma s32_id [crange]: "INT_MIN \<le> x \<Longrightarrow> x \<le> INT_MAX \<Longrightarrow> s32 x = x"
  by (simp add: s32_def)

lemma s64_id [crange]: "INT64_MIN \<le> x \<Longrightarrow> x \<le> INT64_MAX \<Longrightarrow> s64 x = x"
  by (simp add: s64_def)

lemma u8_id [crange]: "0 \<le> x \<Longrightarrow> x < 256 \<Longrightarrow> u8 x = x"
  by (simp add: u8_def)

lemma u16_id [crange]: "0 \<le> x \<Longrightarrow> x < 65536 \<Longrightarrow> u16 x = x"
  by (simp add: u16_def)

lemma u32_id [crange]: "0 \<le> x \<Longrightarrow> x < 4294967296 \<Longrightarrow> u32 x = x"
  by (simp add: u32_def)

lemma u64_id [crange]: "0 \<le> x \<Longrightarrow> x < 18446744073709551616 \<Longrightarrow> u64 x = x"
  by (simp add: u64_def)

lemma u32_neg [crange]: "- 4294967296 \<le> x \<Longrightarrow> x < 0 \<Longrightarrow> u32 x = x + 4294967296"
  using mod_pos_pos_trivial [of "x + 4294967296" 4294967296] by (simp add: u32_def)

lemma u64_neg [crange]:
  "- 18446744073709551616 \<le> x \<Longrightarrow> x < 0 \<Longrightarrow> u64 x = x + 18446744073709551616"
  using mod_pos_pos_trivial [of "x + 18446744073709551616" 18446744073709551616]
  by (simp add: u64_def)

lemma s16_id [crange]: "- 32768 \<le> x \<Longrightarrow> x < 32768 \<Longrightarrow> s16 x = x"
  by (simp add: s16_def)

lemma s8_id [crange]: "- 128 \<le> x \<Longrightarrow> x < 128 \<Longrightarrow> s8 x = x"
  by (simp add: s8_def)

lemma s64_range [simp]: "INT64_MIN \<le> s64 x" "s64 x \<le> INT64_MAX"
  by (simp_all add: s64_def)

lemma int64_s64 [simp]: "int64 (s64 x)"
  by (simp add: int64_def)

lemma s32_range [simp]: "INT_MIN \<le> s32 x" "s32 x \<le> INT_MAX"
  by (simp_all add: s32_def)

lemma u64_range [simp]: "0 \<le> u64 x" "u64 x < 18446744073709551616"
  by (simp_all add: u64_def)

lemma u64_u64 [simp]: "u64 (u64 x) = u64 x"
  by (simp add: u64_def)

lemma u32_range [simp]: "0 \<le> u32 x" "u32 x < 4294967296"
  by (simp_all add: u32_def)

lemma int64_sdiv:
  assumes "int64 a" "0 < c"
  shows "int64 (a sdiv c)"
proof -
  have "\<bar>a\<bar> div \<bar>c\<bar> \<le> \<bar>a\<bar>" 
    using assms(2) by (cases "c = 1") (simp_all add: zdiv_mono2 [of "\<bar>a\<bar>" 1 c, simplified])
  moreover have "0 \<le> \<bar>a\<bar> div \<bar>c\<bar>" using assms(2) by (simp add: pos_imp_zdiv_nonneg_iff)
  ultimately show ?thesis
    using assms by (auto simp: signed_divide_int_def int64_def sgn_if)
qed

lemma sdiv_nonneg: "0 \<le> a \<Longrightarrow> 0 < c \<Longrightarrow> a sdiv c = a div (c::int)"
  by (cases "a = 0") (simp_all add: signed_divide_int_def sgn_if)

lemma smod_nonneg: "0 \<le> a \<Longrightarrow> 0 < c \<Longrightarrow> a smod c = a mod (c::int)"
  by (cases "a = 0") (simp_all add: smod_int_alt_def sgn_if)

lemma le_div_int: "0 < c \<Longrightarrow> q \<le> x div c \<longleftrightarrow> q * c \<le> (x::int)"
proof
  assume c: "0 < c" and "q \<le> x div c"
  then have "q * c \<le> x div c * c" by simp
  also have "\<dots> \<le> x" using c by (simp add: minus_mod_eq_div_mult [symmetric])
  finally show "q * c \<le> x" .
next
  assume c: "0 < c" and "q * c \<le> x"
  then have "q * c div c \<le> x div c" by (intro zdiv_mono1)
  then show "q \<le> x div c" using c by simp
qed

lemma div_less_int: "0 < c \<Longrightarrow> x div c < q \<longleftrightarrow> x < q * (c::int)"
  by (simp add: not_le [symmetric] le_div_int)

lemma mult_bound: "0 \<le> x \<Longrightarrow> x \<le> m \<Longrightarrow> 0 \<le> y \<Longrightarrow> y \<le> n \<Longrightarrow> x * y \<le> m * (n::int)"
  by (rule mult_mono) auto

subsection \<open>Facts about every entry of a table\<close>

text \<open>A statement about every entry of a literal table is evaluated entry by entry, the index
  counted along, so that the simplifier never looks an entry up.\<close>

fun all_from :: "nat \<Rightarrow> (nat \<Rightarrow> 'a \<Rightarrow> bool) \<Rightarrow> 'a list \<Rightarrow> bool" where
  "all_from n P [] \<longleftrightarrow> True"
| "all_from n P (x # xs) \<longleftrightarrow> P n x \<and> all_from (Suc n) P xs"

lemma all_from_nth: "all_from n P xs \<Longrightarrow> i < length xs \<Longrightarrow> P (n + i) (xs ! i)"
proof (induction n P xs arbitrary: i rule: all_from.induct)
  case (1 n P)
  then show ?case by simp
next
  case (2 n P x xs)
  then show ?case by (cases i) auto
qed

lemma all_from_0_nth: "all_from 0 P xs \<Longrightarrow> i < length xs \<Longrightarrow> P i (xs ! i)"
  using all_from_nth [of 0 P xs i] by simp

end
