(* ===== verification/Intmath.thy ===== *)
theory Intmath
  imports Clib
begin

section \<open>Integer helpers: \<open>libavutil/intmath.h\<close> and \<open>libavutil/common.h\<close>\<close>

text \<open>
  Logarithms, trailing-zero counts, clipping, saturation and population counts.  The C versions are
  the portable ones of the source (\<open>ff_log2_c\<close>, \<open>ff_ctz_c\<close>, \<open>ff_ctzll_c\<close>, \<open>av_clip_*_c\<close>, ...).
  Bit-level code is over words, value-level code over \<open>int\<close>.
\<close>

subsection \<open>Count of trailing zeros by a de Bruijn sequence\<close>

definition debruijn_ctz64 :: "nat list" where
  "debruijn_ctz64 =
   [0, 1, 2, 53, 3, 7, 54, 27, 4, 38, 41, 8, 34, 55, 48, 28,
    62, 5, 39, 46, 44, 42, 22, 9, 24, 35, 59, 56, 49, 18, 29, 11,
    63, 52, 6, 26, 37, 40, 33, 47, 61, 45, 43, 21, 23, 58, 17, 10,
    51, 25, 36, 32, 60, 20, 57, 16, 50, 31, 19, 15, 30, 14, 13, 12]"

definition ff_ctzll_c :: "64 word \<Rightarrow> nat" where
  "ff_ctzll_c v = debruijn_ctz64 ! unat (drop_bit 58 ((v AND - v) * 0x022FDD63CC95386D))"

definition debruijn_ctz32 :: "nat list" where
  "debruijn_ctz32 =
   [0, 1, 28, 2, 29, 14, 24, 3, 30, 22, 20, 15, 25, 17, 4, 8,
    31, 27, 13, 23, 21, 19, 16, 7, 26, 12, 18, 6, 11, 5, 10, 9]"

definition ff_ctz_c :: "32 word \<Rightarrow> nat" where
  "ff_ctz_c v = debruijn_ctz32 ! unat (drop_bit 27 ((v AND - v) * 0x077CB531))"

text \<open>What both compute: the exponent of the lowest set bit.\<close>

lemma lowest_bit_split:
  assumes "w \<noteq> (0 :: 'a::len word)"
  obtains k where "k < LENGTH('a)" "bit w k" "\<And>j. j < k \<Longrightarrow> \<not> bit w j"
proof -
  from assms obtain n where n: "bit w n"
    by (metis bit_eqI bit_0_eq bot_apply bot_bool_def)
  define k where "k = (LEAST n. bit w n)"
  have "bit w k" unfolding k_def using n by (rule LeastI)
  moreover have "\<And>j. j < k \<Longrightarrow> \<not> bit w j" unfolding k_def by (rule not_less_Least)
  ultimately show ?thesis using that bit_imp_le_length by blast
qed

lemma neg_lowest_bit:
  fixes w :: "'a::len word"
  assumes "bit w k" and low: "\<And>j. j < k \<Longrightarrow> \<not> bit w j"
  shows "w AND - w = 2 ^ k"
proof (rule bit_word_eqI)
  fix n assume n: "n < LENGTH('a)"
  have tb: "take_bit k w = 0"
    by (rule bit_eqI) (use low in \<open>auto simp: bit_take_bit_iff\<close>)
  have m1: "bit (w - 1) j = (if j < k then True else if j = k then False else bit w j)"
    if j: "j < LENGTH('a)" for j
  proof -
    have k: "k < LENGTH('a)" using assms(1) by (rule bit_imp_le_length)
    define h where "h = w AND NOT (2 ^ k)"
    have w: "w = h OR 2 ^ k"
      by (rule bit_word_eqI) (use assms(1) in \<open>auto simp: h_def bit_simps\<close>)
    have disj: "h AND 2 ^ k = 0"
      by (rule bit_word_eqI) (auto simp: h_def bit_simps)
    have "w = h + 2 ^ k" using w disj by (simp add: disjunctive_add_eq_or)
    then have "w - 1 = h + mask k" by (simp add: mask_eq_exp_minus_1)
    also have "\<dots> = h OR mask k"
    proof -
      have "h AND mask k = 0"
        by (rule bit_word_eqI) (use low in \<open>auto simp: h_def bit_simps\<close>)
      then show ?thesis by (simp add: disjunctive_add_eq_or)
    qed
    finally show ?thesis using j assms(1) low by (auto simp: h_def bit_simps)
  qed
  have "- w = NOT (w - 1)" by (simp add: minus_eq_not_minus_1)
  then have "bit (w AND - w) n = (bit w n \<and> \<not> bit (w - 1) n)"
    using n by (simp add: bit_simps)
  also have "\<dots> = (n = k)" using m1 [OF n] assms by auto
  finally show "bit (w AND - w) n = bit (2 ^ k :: 'a word) n" using n by (auto simp: bit_simps)
qed

text \<open>The multiplier shifted to the left by \<open>k\<close> has, as its top bits, the index of the table entry
  that holds \<open>k\<close>.\<close>

lemma debruijn_ctz64_correct:
  assumes "k < 64"
  shows "debruijn_ctz64 ! unat (drop_bit 58 (2 ^ k * 0x022FDD63CC95386D :: 64 word)) = k"
proof -
  have "all_from 0 (\<lambda>i k. unat (drop_bit 58 (2 ^ k * 0x022FDD63CC95386D :: 64 word)) = i) debruijn_ctz64"
    by (simp add: debruijn_ctz64_def)
  moreover have "sort debruijn_ctz64 = [0..<64]" by code_simp
  then have "k \<in> set debruijn_ctz64" using assms by (metis atLeast0LessThan lessThan_iff set_sort set_upt)
  ultimately show ?thesis by (auto simp: in_set_conv_nth dest: all_from_0_nth)
qed

lemma debruijn_ctz32_correct:
  assumes "k < 32"
  shows "debruijn_ctz32 ! unat (drop_bit 27 (2 ^ k * 0x077CB531 :: 32 word)) = k"
proof -
  have "all_from 0 (\<lambda>i k. unat (drop_bit 27 (2 ^ k * 0x077CB531 :: 32 word)) = i) debruijn_ctz32"
    by (simp add: debruijn_ctz32_def)
  moreover have "sort debruijn_ctz32 = [0..<32]" by code_simp
  then have "k \<in> set debruijn_ctz32" using assms by (metis atLeast0LessThan lessThan_iff set_sort set_upt)
  ultimately show ?thesis by (auto simp: in_set_conv_nth dest: all_from_0_nth)
qed

lemma ff_ctzll_c_eqI:
  assumes "bit v k" "\<And>j. j < k \<Longrightarrow> \<not> bit v j"
  shows "ff_ctzll_c v = k"
proof -
  have "k < 64" using bit_imp_le_length [OF assms(1)] by simp
  then show ?thesis
    using debruijn_ctz64_correct [of k] by (simp add: ff_ctzll_c_def neg_lowest_bit [OF assms])
qed

lemma ff_ctz_c_eqI:
  assumes "bit v k" "\<And>j. j < k \<Longrightarrow> \<not> bit v j"
  shows "ff_ctz_c v = k"
proof -
  have "k < 32" using bit_imp_le_length [OF assms(1)] by simp
  then show ?thesis
    using debruijn_ctz32_correct [of k] by (simp add: ff_ctz_c_def neg_lowest_bit [OF assms])
qed

text \<open>The same on the integers the callers work with: an integer that fits in 64 bits and is not
  zero is \<open>2 ^ k\<close> times an odd number, and the routine returns that \<open>k\<close>.\<close>

lemma ff_ctzll_c_int:
  assumes "odd m" "k < 64"
  shows "ff_ctzll_c (word_of_int (m * 2 ^ k)) = k"
proof (rule ff_ctzll_c_eqI)
  have *: "m * 2 ^ k = push_bit k m" by (simp add: push_bit_eq_mult)
  show "bit (word_of_int (m * 2 ^ k) :: 64 word) k"
    using assms unfolding * by (simp add: bit_simps bit_0)
  show "\<not> bit (word_of_int (m * 2 ^ k) :: 64 word) j" if "j < k" for j
    using that unfolding * by (simp add: bit_simps)
qed

lemma odd_part_exists:
  assumes "n \<noteq> (0::int)"
  obtains m k where "n = m * 2 ^ k" "odd m"
proof -
  have "\<exists>m k. n = m * 2 ^ k \<and> odd m" if "nat \<bar>n\<bar> = N" "n \<noteq> 0" for n N
    using that
  proof (induction N arbitrary: n rule: less_induct)
    case (less N)
    show ?case
    proof (cases "odd n")
      case True then show ?thesis by (metis mult.right_neutral power_0)
    next
      case False
      then obtain h where h: "n = 2 * h" by blast
      with less.prems have "nat \<bar>h\<bar> < N" "h \<noteq> 0" by auto
      with less.IH obtain m k where "h = m * 2 ^ k" "odd m" by blast
      then show ?thesis using h by (metis mult.assoc mult.commute power_Suc)
    qed
  qed
  with assms that show ?thesis by blast
qed

subsection \<open>Integer logarithm\<close>

definition ff_log2_tab :: "nat list" where
  "ff_log2_tab =
   [0,0,1,1,2,2,2,2,3,3,3,3,3,3,3,3,4,4,4,4,4,4,4,4,4,4,4,4,4,4,4,4,
    5,5,5,5,5,5,5,5,5,5,5,5,5,5,5,5,5,5,5,5,5,5,5,5,5,5,5,5,5,5,5,5,
    6,6,6,6,6,6,6,6,6,6,6,6,6,6,6,6,6,6,6,6,6,6,6,6,6,6,6,6,6,6,6,6,
    6,6,6,6,6,6,6,6,6,6,6,6,6,6,6,6,6,6,6,6,6,6,6,6,6,6,6,6,6,6,6,6,
    7,7,7,7,7,7,7,7,7,7,7,7,7,7,7,7,7,7,7,7,7,7,7,7,7,7,7,7,7,7,7,7,
    7,7,7,7,7,7,7,7,7,7,7,7,7,7,7,7,7,7,7,7,7,7,7,7,7,7,7,7,7,7,7,7,
    7,7,7,7,7,7,7,7,7,7,7,7,7,7,7,7,7,7,7,7,7,7,7,7,7,7,7,7,7,7,7,7,
    7,7,7,7,7,7,7,7,7,7,7,7,7,7,7,7,7,7,7,7,7,7,7,7,7,7,7,7,7,7,7,7]"

definition ff_log2_c :: "int \<Rightarrow> nat" where
  "ff_log2_c v =
     (let n = 0;
          (v, n) = (if v AND 0xffff0000 \<noteq> 0 then (drop_bit 16 v, n + 16) else (v, n));
          (v, n) = (if v AND 0xff00 \<noteq> 0 then (drop_bit 8 v, n + 8) else (v, n))
      in n + ff_log2_tab ! nat v)"

definition ff_log2_16bit_c :: "int \<Rightarrow> nat" where
  "ff_log2_16bit_c v =
     (let n = 0;
          (v, n) = (if v AND 0xff00 \<noteq> 0 then (drop_bit 8 v, n + 8) else (v, n))
      in n + ff_log2_tab ! nat v)"

definition av_ceil_log2_c :: "int \<Rightarrow> nat" where
  "av_ceil_log2_c x = ff_log2_c (u32 (push_bit 1 (x - 1)))"

lemma and_field_eq:
  "v AND push_bit n (mask m) = push_bit n (take_bit m (drop_bit n (v::int)))"
  by (rule bit_eqI) (auto simp: bit_simps)

lemma and_hi16:
  assumes "0 \<le> (v::int)" "v < 4294967296"
  shows "v AND 0xffff0000 \<noteq> 0 \<longleftrightarrow> 65536 \<le> v"
proof -
  have "v AND 0xffff0000 = 65536 * (v div 65536 mod 65536)"
    using and_field_eq [of v 16 16]
    by (simp add: mask_eq_exp_minus_1 push_bit_eq_mult take_bit_eq_mod drop_bit_eq_div)
  moreover have "v div 65536 < 65536" using assms by simp
  ultimately show ?thesis using assms by (auto simp: zdiv_eq_0_iff not_less)
qed

lemma and_hi8:
  assumes "0 \<le> (v::int)" "v < 65536"
  shows "v AND 0xff00 \<noteq> 0 \<longleftrightarrow> 256 \<le> v"
proof -
  have "v AND 0xff00 = 256 * (v div 256 mod 256)"
    using and_field_eq [of v 8 8]
    by (simp add: mask_eq_exp_minus_1 push_bit_eq_mult take_bit_eq_mod drop_bit_eq_div)
  moreover have "v div 256 < 256" using assms by simp
  ultimately show ?thesis using assms by (auto simp: zdiv_eq_0_iff not_less)
qed

lemma ff_log2_tab_correct:
  assumes "0 < i" "i < 256"
  shows "2 ^ (ff_log2_tab ! i) \<le> i \<and> i < 2 ^ (ff_log2_tab ! i + 1)"
proof -
  have "all_from 0 (\<lambda>i t. 0 < i \<longrightarrow> 2 ^ t \<le> i \<and> i < 2 ^ (t + 1)) ff_log2_tab"
    by (simp add: ff_log2_tab_def)
  from all_from_0_nth [OF this, of i] show ?thesis using assms by (simp add: ff_log2_tab_def)
qed

lemma log2_tab_int:
  assumes "0 < v" "v < 256"
  shows "2 ^ (ff_log2_tab ! nat v) \<le> v \<and> v < 2 ^ (ff_log2_tab ! nat v + 1)"
proof -
  let ?t = "ff_log2_tab ! nat v"
  have "2 ^ ?t \<le> nat v \<and> nat v < 2 ^ (?t + 1)"
    using ff_log2_tab_correct [of "nat v"] assms by simp
  then have "int (2 ^ ?t) \<le> v \<and> v < int (2 ^ (?t + 1))" using assms by linarith
  then show ?thesis by simp
qed

lemma log2_shift:
  assumes "(2::int) ^ t \<le> v div 2 ^ k" "v div 2 ^ k < 2 ^ (t + 1)" "0 \<le> v"
  shows "2 ^ (k + t) \<le> v \<and> v < 2 ^ (k + t + 1)"
proof
  have "2 ^ t * 2 ^ k \<le> v div 2 ^ k * (2::int) ^ k" using assms(1) by simp
  also have "\<dots> \<le> v" by (simp add: minus_mod_eq_div_mult [symmetric])
  finally show "2 ^ (k + t) \<le> v" by (simp add: power_add mult.commute)
  have "v = v div 2 ^ k * 2 ^ k + v mod 2 ^ k" by (rule div_mult_mod_eq [symmetric])
  moreover have "v mod 2 ^ k < 2 ^ k" by simp
  ultimately have "v < v div 2 ^ k * 2 ^ k + 2 ^ k" by linarith
  also have "\<dots> = (v div 2 ^ k + 1) * 2 ^ k" by (simp add: algebra_simps)
  also have "\<dots> \<le> 2 ^ (t + 1) * 2 ^ k" using assms(2) by simp
  finally show "v < 2 ^ (k + t + 1)" by (simp add: power_add mult.commute)
qed

lemma ff_log2_16bit_c_correct:
  assumes "0 < v" "v < 65536"
  shows "2 ^ ff_log2_16bit_c v \<le> v \<and> v < 2 ^ (ff_log2_16bit_c v + 1)"
proof (cases "256 \<le> v")
  case True
  then have "0 < v div 256" "v div 256 < 256" using assms by (simp_all add: pos_imp_zdiv_pos_iff) 
  from log2_tab_int [OF this] log2_shift [of _ v 8] True assms show ?thesis
    by (simp add: ff_log2_16bit_c_def and_hi8 drop_bit_eq_div)
next
  case False
  with assms log2_tab_int [of v] show ?thesis by (simp add: ff_log2_16bit_c_def and_hi8)
qed

lemma ff_log2_c_correct:
  assumes "0 < v" "v < 4294967296"
  shows "2 ^ ff_log2_c v \<le> v \<and> v < 2 ^ (ff_log2_c v + 1)"
proof (cases "65536 \<le> v")
  case True
  then have r: "0 < v div 65536" "v div 65536 < 65536" using assms by (simp_all add: pos_imp_zdiv_pos_iff)
  have "ff_log2_c v = 16 + ff_log2_16bit_c (v div 65536)"
    using True assms r
    by (simp add: ff_log2_c_def ff_log2_16bit_c_def and_hi16 drop_bit_eq_div Let_def)
  then show ?thesis
    using ff_log2_16bit_c_correct [OF r] log2_shift [of _ v 16] assms by simp
next
  case False
  then have "ff_log2_c v = ff_log2_16bit_c v"
    using assms by (simp add: ff_log2_c_def ff_log2_16bit_c_def and_hi16)
  with False ff_log2_16bit_c_correct assms show ?thesis by simp
qed

subsection \<open>Clipping and saturation\<close>

text \<open>
  Two of these functions leave the range of a signed type for some of their arguments, which C does not define:
  \<open>a + 0x80000000u\<close> of \<open>av_clipl_int32_c\<close> is a sum of \<open>int64_t\<close> and exceeds it within 2147483648 of
  its end, and \<open>(2 << p) - 1\<close> of \<open>av_clip_intp2_c\<close> exceeds \<open>int\<close> for \<open>p = 30\<close>.  They are taken to wrap (\<open>s64\<close>,
  \<open>s32\<close>), as on the machines the program is built for.
\<close>

definition av_clip_c :: "int \<Rightarrow> int \<Rightarrow> int \<Rightarrow> int" where
  "av_clip_c a amin amax = (if a < amin then amin else if a > amax then amax else a)"

definition av_clip64_c :: "int \<Rightarrow> int \<Rightarrow> int \<Rightarrow> int" where
  "av_clip64_c a amin amax = (if a < amin then amin else if a > amax then amax else a)"

definition av_clip_uint8_c :: "int \<Rightarrow> int" where
  "av_clip_uint8_c a = (if a AND NOT 0xFF \<noteq> 0 then u8 (drop_bit 31 (NOT a)) else u8 a)"

definition av_clip_int8_c :: "int \<Rightarrow> int" where
  "av_clip_int8_c a =
     (if u32 (a + 0x80) AND NOT 0xFF \<noteq> 0 then s8 (drop_bit 31 a XOR 0x7F) else s8 a)"

definition av_clip_uint16_c :: "int \<Rightarrow> int" where
  "av_clip_uint16_c a = (if a AND NOT 0xFFFF \<noteq> 0 then u16 (drop_bit 31 (NOT a)) else u16 a)"

definition av_clip_int16_c :: "int \<Rightarrow> int" where
  "av_clip_int16_c a =
     (if u32 (a + 0x8000) AND NOT 0xFFFF \<noteq> 0 then s16 (drop_bit 31 a XOR 0x7FFF) else s16 a)"

definition av_clipl_int32_c :: "int \<Rightarrow> int" where
  "av_clipl_int32_c a =
     (if u64 (s64 (a + 0x80000000)) AND NOT 0xFFFFFFFF \<noteq> 0 then s32 (drop_bit 63 a XOR 0x7FFFFFFF)
      else s32 a)"

definition av_clip_intp2_c :: "int \<Rightarrow> nat \<Rightarrow> int" where
  "av_clip_intp2_c a p =
     (if u32 (a + push_bit p 1) AND NOT (s32 (s32 (push_bit p 2) - 1)) \<noteq> 0
      then drop_bit 31 a XOR (push_bit p 1 - 1) else a)"

definition av_clip_uintp2_c :: "int \<Rightarrow> nat \<Rightarrow> int" where
  "av_clip_uintp2_c a p =
     (if a AND NOT (push_bit p 1 - 1) \<noteq> 0 then drop_bit 31 (NOT a) AND (push_bit p 1 - 1) else a)"

definition av_mod_uintp2_c :: "int \<Rightarrow> nat \<Rightarrow> int" where
  "av_mod_uintp2_c a p = a AND (push_bit p 1 - 1)"

definition av_sat_add32_c :: "int \<Rightarrow> int \<Rightarrow> int" where
  "av_sat_add32_c a b = av_clipl_int32_c (a + b)"

definition av_sat_dadd32_c :: "int \<Rightarrow> int \<Rightarrow> int" where
  "av_sat_dadd32_c a b = av_sat_add32_c a (av_sat_add32_c b b)"

definition av_sat_sub32_c :: "int \<Rightarrow> int \<Rightarrow> int" where
  "av_sat_sub32_c a b = av_clipl_int32_c (a - b)"

definition av_sat_dsub32_c :: "int \<Rightarrow> int \<Rightarrow> int" where
  "av_sat_dsub32_c a b = av_sat_sub32_c a (av_sat_add32_c b b)"

lemma and_not_mask_int: "a AND NOT (mask n) = 2 ^ n * (a div 2 ^ n)" for a :: int
proof -
  have "a AND NOT (mask n) = push_bit n (drop_bit n a)"
    by (rule bit_eqI) (auto simp: bit_simps)
  then show ?thesis by (simp add: push_bit_eq_mult drop_bit_eq_div mult.commute)
qed

lemma outside_mask: "a AND NOT (mask n) \<noteq> 0 \<longleftrightarrow> a < 0 \<or> 2 ^ n \<le> a" for a :: int
proof -
  define P where "P = (2::int) ^ n"
  have "0 < P" by (simp add: P_def)
  then show ?thesis by (auto simp: and_not_mask_int zdiv_eq_0_iff P_def [symmetric])
qed

lemma drop_bit_sign:
  assumes "- (2 ^ n) \<le> a" "a < 2 ^ n"
  shows "drop_bit n a = (if a < 0 then - 1 else (0::int))"
proof (cases "a < 0")
  case True
  have "(a + 2 ^ n) div 2 ^ n = 0" using assms True by (simp add: div_pos_pos_trivial)
  then have "a div 2 ^ n + 1 = 0" using div_add_self2 [of "2 ^ n" a] by simp
  with True show ?thesis by (simp add: drop_bit_eq_div)
next
  case False
  then show ?thesis using assms by (simp add: drop_bit_eq_div div_pos_pos_trivial)
qed

lemmas mask_literals =
  outside_mask [of _ 8, simplified mask_eq_exp_minus_1, simplified]
  outside_mask [of _ 16, simplified mask_eq_exp_minus_1, simplified]
  outside_mask [of _ 32, simplified mask_eq_exp_minus_1, simplified]

lemma not_bounds: "- (n + 1) \<le> NOT a \<longleftrightarrow> a \<le> n" "NOT a < n \<longleftrightarrow> - n - 1 < a" for a n :: int
  by (auto simp: not_int_def)

lemma minus_one_xor: "(- 1) XOR b = NOT b" for b :: int
  by (rule bit_eqI) (auto simp: bit_simps)

lemma av_clip_uint8_c_correct: "int32 a \<Longrightarrow> av_clip_uint8_c a = max 0 (min 255 a)"
  using drop_bit_sign [of 31 "NOT a"]
  by (auto simp: av_clip_uint8_c_def mask_literals int32_def not_int_def u8_def)

lemma av_clip_uint16_c_correct: "int32 a \<Longrightarrow> av_clip_uint16_c a = max 0 (min 65535 a)"
  using drop_bit_sign [of 31 "NOT a"]
  by (auto simp: av_clip_uint16_c_def mask_literals int32_def not_int_def u16_def)

lemma av_clip_int8_c_correct:
  assumes "int32 a"
  shows "av_clip_int8_c a = max (- 128) (min 127 a)"
proof -
  have "256 \<le> u32 (a + 128) \<longleftrightarrow> a < - 128 \<or> 128 \<le> a"
    using assms by (cases "a < - 128") (auto simp: crange int32_def)
  then show ?thesis
    using assms drop_bit_sign [of 31 a]
    by (auto simp: av_clip_int8_c_def mask_literals int32_def minus_one_xor not_int_def crange
             not_less)
qed

lemma av_clip_int16_c_correct:
  assumes "int32 a"
  shows "av_clip_int16_c a = max (- 32768) (min 32767 a)"
proof -
  have "65536 \<le> u32 (a + 32768) \<longleftrightarrow> a < - 32768 \<or> 32768 \<le> a"
    using assms by (cases "a < - 32768") (auto simp: crange int32_def)
  then show ?thesis
    using assms drop_bit_sign [of 31 a]
    by (auto simp: av_clip_int16_c_def mask_literals int32_def minus_one_xor not_int_def crange
             not_less)
qed

lemma av_clipl_int32_c_correct:
  assumes "int64 a"
  shows "av_clipl_int32_c a = max INT_MIN (min INT_MAX a)"
proof -
  have wrap: "u64 (s64 x) = u64 x" for x by (simp add: u64_def s64_def mod_simps)
  have "4294967296 \<le> u64 (a + 2147483648) \<longleftrightarrow> a < - 2147483648 \<or> 2147483648 \<le> a"
    using assms by (cases "a < - 2147483648") (auto simp: crange int64_def)
  then show ?thesis
    using assms drop_bit_sign [of 63 a]
    by (auto simp: av_clipl_int32_c_def wrap mask_literals int64_def minus_one_xor not_int_def crange
             not_less)
qed

lemma av_clip_intp2_c_correct:
  assumes "int32 a" "p < 31"
  shows "av_clip_intp2_c a p = max (- (2 ^ p)) (min (2 ^ p - 1) a)"
proof -
  have p: "0 < (2::int) ^ p" "(2::int) ^ p \<le> 2 ^ 30"
    using assms(2) power_increasing [of p 30 "2::int"] by simp_all
  have "2 * P \<le> 2147483648 \<Longrightarrow> 0 < P \<Longrightarrow> s32 (s32 (2 * P) - 1) = 2 * P - 1" for P
    by (cases "2 * P = 2147483648") (simp_all add: s32_def)
  from this [of "2 ^ p"] p have m: "s32 (s32 (push_bit p 2) - 1) = (mask (Suc p) :: int)"
    by (simp add: mask_eq_exp_minus_1 push_bit_eq_mult)
  have "2 * P \<le> u32 (a + P) \<longleftrightarrow> a < - P \<or> P \<le> a" if "0 < P" "P \<le> 2 ^ 30" for P
    using assms that u32_neg [of "a + P"] u32_id [of "a + P"]
    by (cases "a + P < 0") (auto simp: int32_def)
  from this [OF p] have "2 ^ Suc p \<le> u32 (a + 2 ^ p) \<longleftrightarrow> a < - (2 ^ p) \<or> 2 ^ p \<le> a"
    by simp
  moreover have "\<not> u32 (a + 2 ^ p) < 0" by (simp add: not_less)
  ultimately have out: "(u32 (a + push_bit p 1) AND NOT (s32 (s32 (push_bit p 2) - 1)) \<noteq> 0)
    = (a < - (2 ^ p) \<or> 2 ^ p \<le> a)"
    unfolding m outside_mask by (simp add: push_bit_eq_mult)
  have val: "av_clip_intp2_c a p =
    (if a < - (2 ^ p) \<or> 2 ^ p \<le> a then drop_bit 31 a XOR (push_bit p 1 - 1) else a)"
    by (simp only: av_clip_intp2_c_def out)
  define P where "P = (2::int) ^ p"
  have "0 < P" by (simp add: P_def)
  then show ?thesis
    using assms(1) drop_bit_sign [of 31 a] unfolding val
    by (auto simp: int32_def minus_one_xor not_int_def push_bit_eq_mult P_def [symmetric])
qed

lemma av_clip_uintp2_c_correct:
  assumes "int32 a" "p < 31"
  shows "av_clip_uintp2_c a p = max 0 (min (2 ^ p - 1) a)"
proof -
  have m: "push_bit p 1 - 1 = (mask p :: int)"
    by (simp add: mask_eq_exp_minus_1 push_bit_eq_mult)
  define P where "P = (2::int) ^ p"
  have "0 < P" by (simp add: P_def)
  then show ?thesis
    using assms drop_bit_sign [of 31 "NOT a"]
    unfolding av_clip_uintp2_c_def m outside_mask
    by (auto simp: int32_def not_int_def mask_eq_exp_minus_1 P_def [symmetric])
qed

lemma av_mod_uintp2_c_correct: "av_mod_uintp2_c a p = a mod 2 ^ p"
  by (simp add: av_mod_uintp2_c_def push_bit_eq_mult take_bit_eq_mask [symmetric] take_bit_eq_mod
        mask_eq_exp_minus_1 [symmetric])

lemma av_sat_add32_c_correct:
  "int32 a \<Longrightarrow> int32 b \<Longrightarrow> av_sat_add32_c a b = max INT_MIN (min INT_MAX (a + b))"
  by (simp add: av_sat_add32_c_def av_clipl_int32_c_correct int32_def int64_def)

lemma av_sat_sub32_c_correct:
  "int32 a \<Longrightarrow> int32 b \<Longrightarrow> av_sat_sub32_c a b = max INT_MIN (min INT_MAX (a - b))"
  by (simp add: av_sat_sub32_c_def av_clipl_int32_c_correct int32_def int64_def)

subsection \<open>Properties\<close>

text \<open>C27. The clip functions, which test with masks and select with shifted sign bits, and the
  saturating additions clamp the exact value to their range for every argument of the C type.\<close>

theorem av_clip_functions_clamp:
  assumes "int32 a" "int32 b" "int64 c" "p < 31"
  shows "av_clip_uint8_c a = max 0 (min 255 a) \<and> av_clip_int8_c a = max (- 128) (min 127 a) \<and>
    av_clip_uint16_c a = max 0 (min 65535 a) \<and> av_clip_int16_c a = max (- 32768) (min 32767 a) \<and>
    av_clipl_int32_c c = max INT_MIN (min INT_MAX c) \<and>
    av_clip_intp2_c a p = max (- (2 ^ p)) (min (2 ^ p - 1) a) \<and>
    av_clip_uintp2_c a p = max 0 (min (2 ^ p - 1) a) \<and> av_mod_uintp2_c a p = a mod 2 ^ p \<and>
    av_sat_add32_c a b = max INT_MIN (min INT_MAX (a + b)) \<and>
    av_sat_sub32_c a b = max INT_MIN (min INT_MAX (a - b))"
  using assms
  by (intro conjI av_clip_uint8_c_correct av_clip_int8_c_correct av_clip_uint16_c_correct
      av_clip_int16_c_correct av_clipl_int32_c_correct av_clip_intp2_c_correct av_clip_uintp2_c_correct
      av_mod_uintp2_c_correct av_sat_add32_c_correct av_sat_sub32_c_correct)

theorem av_clip_functions_clamp_witness:
  "av_clip_int8_c 300 = 127 \<and> av_clip_intp2_c 300 4 = 15 \<and> av_sat_add32_c 300 2147483600 = 2147483647"
  using av_clip_functions_clamp [of 300 2147483600 0 4] by (simp add: int32_def int64_def)

text \<open>The table-driven base-2 logarithms are exact: \<open>2 ^ log2 v \<le> v < 2 ^ (log2 v + 1)\<close> for every
  positive 32-bit (16-bit) value, and the count of trailing zeros found by de Bruijn multiplication
  is the exponent of the largest power of two dividing a nonzero 64-bit value.\<close>

theorem ff_log2_ctz_exact:
  assumes "0 < v" "v < 4294967296" "0 < w" "w < 65536" "odd m" "k < 64"
  shows "2 ^ ff_log2_c v \<le> v \<and> v < 2 ^ (ff_log2_c v + 1) \<and>
    2 ^ ff_log2_16bit_c w \<le> w \<and> w < 2 ^ (ff_log2_16bit_c w + 1) \<and>
    ff_ctzll_c (word_of_int (m * 2 ^ k)) = k"
  using ff_log2_c_correct [OF assms(1,2)] ff_log2_16bit_c_correct [OF assms(3,4)] ff_ctzll_c_int [OF assms(5,6)]
  by simp

theorem ff_log2_ctz_exact_witness:
  "2 ^ ff_log2_c 1000000 \<le> (1000000 :: int) \<and> ff_ctzll_c (word_of_int (3 * 2 ^ 40)) = 40"
  using ff_log2_ctz_exact [of 1000000 1 3 40] by simp

end
