(* ===== verification/Mathematics.thy ===== *)
theory Mathematics
  imports Intmath
begin

section \<open>Timestamps and rescaling: \<open>libavutil/mathematics.c\<close>\<close>

text \<open>
  The binary gcd, 64-bit rescaling with the five rounding modes, and comparison of timestamps.
  All arguments are C integers carried as \<open>int\<close>; conversions are written where the C code converts.
  A rounding mode is the number the C enumeration gives it.
\<close>

record AVRational =
  num :: int
  den :: int

abbreviation mk_q :: "int \<Rightarrow> int \<Rightarrow> AVRational" where
  "mk_q n d \<equiv> \<lparr>num = n, den = d\<rparr>"

abbreviation AV_NOPTS_VALUE :: int where "AV_NOPTS_VALUE \<equiv> INT64_MIN"

definition AV_ROUND_ZERO :: int where "AV_ROUND_ZERO = 0"
definition AV_ROUND_INF :: int where "AV_ROUND_INF = 1"
definition AV_ROUND_DOWN :: int where "AV_ROUND_DOWN = 2"
definition AV_ROUND_UP :: int where "AV_ROUND_UP = 3"
definition AV_ROUND_NEAR_INF :: int where "AV_ROUND_NEAR_INF = 5"
definition AV_ROUND_PASS_MINMAX :: int where "AV_ROUND_PASS_MINMAX = 8192"

lemmas round_modes = AV_ROUND_ZERO_def AV_ROUND_INF_def AV_ROUND_DOWN_def AV_ROUND_UP_def
  AV_ROUND_NEAR_INF_def AV_ROUND_PASS_MINMAX_def

subsection \<open>Greatest common divisor\<close>

abbreviation ctzll :: "int \<Rightarrow> nat" where
  "ctzll v \<equiv> ff_ctzll_c (word_of_int v)"

definition gcd_step :: "int \<times> int \<Rightarrow> int \<times> int" where
  "gcd_step = (\<lambda>(u, v).
     let (u, v) = (if u > v then (v, u) else (u, v));
         v = v - u
     in (u, drop_bit (ctzll v) v))"

definition av_gcd :: "int \<Rightarrow> int \<Rightarrow> int" where
  "av_gcd a b =
     (if a = 0 then b
      else if b = 0 then a
      else
        let za = ctzll a; zb = ctzll b; k = min za zb;
            u = \<bar>drop_bit za a\<bar>; v = \<bar>drop_bit zb b\<bar>;
            (u, v) = while (\<lambda>(u, v). u \<noteq> v) gcd_step (u, v)
        in s64 (u64 (push_bit k u)))"

lemma odd_part_int64:
  assumes "int64 a" "a \<noteq> 0"
  obtains m k where "a = m * 2 ^ k" "odd m" "k < 64" "ctzll a = k" "drop_bit (ctzll a) a = m"
proof -
  from assms(2) obtain m k where mk: "a = m * 2 ^ k" "odd m" by (rule odd_part_exists)
  then have "m \<noteq> 0" by auto
  then have "1 \<le> \<bar>m\<bar>" by linarith
  then have "2 ^ k \<le> \<bar>a\<bar>" using mk by (simp add: abs_mult)
  also have "\<dots> < 2 ^ 64" using assms(1) by (auto simp: int64_def)
  finally have k: "k < 64" using power_less_imp_less_exp [of "2::int" k 64] by simp
  from ff_ctzll_c_int [OF mk(2) k] have c: "ctzll a = k" by (simp add: mk)
  then have "drop_bit (ctzll a) a = m" by (simp add: drop_bit_eq_div mk)
  with mk k c show ?thesis by (rule that)
qed

lemma gcd_mult_pow2: "odd u \<Longrightarrow> gcd u (w * 2 ^ k) = gcd u (w :: int)"
  by (simp add: gcd_mult_right_right_cancel)

definition gcd_inv :: "int \<Rightarrow> int \<times> int \<Rightarrow> bool" where
  "gcd_inv g = (\<lambda>(u, v). 0 < u \<and> 0 < v \<and> u \<le> 2 ^ 63 \<and> v \<le> 2 ^ 63 \<and> odd u \<and> odd v \<and> gcd u v = g)"

lemma gcd_step_inv:
  assumes inv: "gcd_inv g (u, v)" and ne: "u \<noteq> v"
  shows "gcd_inv g (gcd_step (u, v)) \<and> fst (gcd_step (u, v)) + snd (gcd_step (u, v)) < u + v"
proof -
  have core: "gcd_inv g (x, drop_bit (ctzll (y - x)) (y - x)) \<and> x + drop_bit (ctzll (y - x)) (y - x) < x + y"
    if "0 < x" "x < y" "y \<le> 2 ^ 63" "odd x" "odd y" "gcd x y = g" for x y
  proof -
    have "int64 (y - x)" "y - x \<noteq> 0" using that by (auto simp: int64_def)
    then obtain m k where mk: "y - x = m * 2 ^ k" "odd m" "drop_bit (ctzll (y - x)) (y - x) = m"
      by (rule odd_part_int64) blast
    have "0 < m" using mk(1) that by (metis diff_gt_0_iff_gt zero_less_mult_pos2 zero_less_numeral zero_less_power)
    have "m \<le> y - x" using mk(1) \<open>0 < m\<close> by simp
    have "gcd x m = gcd x (y - x)" using mk(1) that(4) by (simp add: gcd_mult_pow2)
    also have "\<dots> = g" using that(6) by (metis gcd_diff1 gcd.commute)
    finally show ?thesis
      unfolding mk(3) using that mk(2) \<open>0 < m\<close> \<open>m \<le> y - x\<close> by (auto simp: gcd_inv_def)
  qed
  show ?thesis
  proof (cases "u > v")
    case True
    then show ?thesis
      using core [of v u] inv by (simp add: gcd_step_def gcd_inv_def gcd.commute Let_def)
  next
    case False
    then show ?thesis
      using core [of u v] inv ne by (simp add: gcd_step_def gcd_inv_def Let_def)
  qed
qed

lemma gcd_while:
  assumes "gcd_inv g (u, v)"
  shows "while (\<lambda>(u, v). u \<noteq> v) gcd_step (u, v) = (g, g)"
proof (rule while_rule [where P = "gcd_inv g" and r = "measure (\<lambda>(u, v). nat (u + v))"])
  show "gcd_inv g (u, v)" by (rule assms)
next
  fix s assume "gcd_inv g s" "case s of (u, v) \<Rightarrow> u \<noteq> v"
  then show "gcd_inv g (gcd_step s)" using gcd_step_inv by (cases s) auto
next
  fix s assume "gcd_inv g s" "\<not> (case s of (u, v) \<Rightarrow> u \<noteq> v)"
  then show "s = (g, g)" by (cases s) (auto simp: gcd_inv_def)
next
  show "wf (measure (\<lambda>(u, v). nat (u + v)))" by simp
next
  fix s assume *: "gcd_inv g s" "case s of (u, v) \<Rightarrow> u \<noteq> v"
  obtain u v where s: "s = (u, v)" by (cases s)
  show "(gcd_step s, s) \<in> measure (\<lambda>(u, v). nat (u + v))"
    using gcd_step_inv [of g u v] * by (auto simp: s gcd_inv_def split: prod.splits)
qed

lemma av_gcd_odd_parts:
  assumes "odd m" "odd n" "k \<le> l"
  shows "gcd (m * 2 ^ k) (n * 2 ^ l) = gcd m n * (2 ^ k :: int)"
proof -
  have "n * 2 ^ l = (n * 2 ^ (l - k)) * 2 ^ k" using assms(3) by (simp add: power_add [symmetric])
  moreover have "gcd (m * 2 ^ k) (n * 2 ^ (l - k) * 2 ^ k) = gcd m (n * 2 ^ (l - k)) * 2 ^ k"
    by (simp add: gcd_mult_right gcd.commute)
  ultimately have "gcd (m * 2 ^ k) (n * 2 ^ l) = gcd m (n * 2 ^ (l - k)) * 2 ^ k" by (simp only:)
  then show ?thesis using assms(1) by (simp add: gcd_mult_pow2)
qed

text \<open>The value of the routine on non-zero operands, before the conversion to \<open>int64_t\<close>.\<close>

lemma av_gcd_value:
  assumes "int64 a" "int64 b" "a \<noteq> 0" "b \<noteq> 0"
  shows "av_gcd a b = s64 (gcd a b)"
proof -
  from assms obtain m k where m: "a = m * 2 ^ k" "odd m" "k < 64" "ctzll a = k" "drop_bit (ctzll a) a = m"
    by (blast elim: odd_part_int64)
  from assms obtain n l where n: "b = n * 2 ^ l" "odd n" "l < 64" "ctzll b = l" "drop_bit (ctzll b) b = n"
    by (blast elim: odd_part_int64)
  define g where "g = gcd m n"
  have bnd: "\<bar>x\<bar> \<le> 2 ^ 63" if "x * 2 ^ j = c" "int64 c" for x c :: int and j
  proof -
    have "\<bar>x\<bar> * 1 \<le> \<bar>x\<bar> * 2 ^ j" by (rule mult_left_mono) simp_all
    then have "\<bar>x\<bar> \<le> \<bar>c\<bar>" using that(1) by (auto simp: abs_mult)
    then show ?thesis using that(2) by (auto simp: int64_def)
  qed
  have "gcd_inv g (\<bar>m\<bar>, \<bar>n\<bar>)"
    using m n assms bnd by (auto simp: gcd_inv_def g_def)
  then have w: "while (\<lambda>(u, v). u \<noteq> v) gcd_step (\<bar>m\<bar>, \<bar>n\<bar>) = (g, g)" by (rule gcd_while)
  have G: "gcd a b = g * 2 ^ min k l"
  proof (cases "k \<le> l")
    case True
    then show ?thesis using av_gcd_odd_parts [OF m(2) n(2)] by (simp add: m n g_def min_def)
  next
    case False
    then show ?thesis
      using av_gcd_odd_parts [OF n(2) m(2), of l k] by (simp add: m n g_def min_def gcd.commute)
  qed
  have "gcd a b \<le> \<bar>a\<bar>" using dvd_imp_le_int [of a "gcd a b"] assms(3) by simp
  then have "0 \<le> gcd a b" "gcd a b < 18446744073709551616" using assms(1) by (auto simp: int64_def)
  then have "u64 (gcd a b) = gcd a b" by (rule u64_id)
  moreover have "drop_bit k a = m" "drop_bit l b = n" using m(4,5) n(4,5) by simp_all
  ultimately show ?thesis
    using assms(3,4) by (simp add: av_gcd_def Let_def push_bit_eq_mult m(4) n(4) w G)
qed

lemma av_gcd_nonneg:
  assumes "int64 a" "int64 b" "0 \<le> a" "0 \<le> b"
  shows "av_gcd a b = gcd a b"
proof (cases "a = 0 \<or> b = 0")
  case True
  then show ?thesis using assms by (auto simp: av_gcd_def)
next
  case False
  have "gcd a b \<le> \<bar>a\<bar>" using dvd_imp_le_int [of a "gcd a b"] False by simp
  then have "s64 (gcd a b) = gcd a b"
    using assms(1,3) by (intro s64_id) (auto simp: int64_def intro: order_trans [OF _ gcd_ge_0_int])
  then show ?thesis using av_gcd_value assms False by simp
qed

subsection \<open>Rescaling\<close>

text \<open>The 64 rounds of the shift-and-subtract division of the 128-bit number \<open>a1 * 2 ^ 64 + a0\<close> by
  \<open>c\<close>; \<open>i\<close> counts down as in the C loop and all arithmetic is on \<open>uint64_t\<close>.\<close>

fun rescale_loop :: "nat \<Rightarrow> int \<Rightarrow> int \<Rightarrow> int \<times> int \<Rightarrow> int \<times> int" where
  "rescale_loop 0 a0 c (a1, t1) = (a1, t1)"
| "rescale_loop (Suc i) a0 c (a1, t1) =
     (let a1 = u64 (a1 + (a1 + (drop_bit i a0 AND 1)));
          t1 = u64 (t1 + t1)
      in rescale_loop i a0 c
           (if c \<le> a1 then (u64 (a1 - c), u64 (t1 + 1)) else (a1, t1)))"

definition rescale_wide :: "int \<Rightarrow> int \<Rightarrow> int \<Rightarrow> int \<Rightarrow> int" where
  "rescale_wide a b c r =
     (let a0 = a AND 0xFFFFFFFF; a1 = drop_bit 32 a;
          b0 = b AND 0xFFFFFFFF; b1 = drop_bit 32 b;
          t1 = u64 (a0 * b1 + a1 * b0);
          t1a = u64 (push_bit 32 t1);
          a0 = u64 (a0 * b0 + t1a);
          a1 = u64 (a1 * b1 + drop_bit 32 t1 + of_bool (a0 < t1a));
          a0 = u64 (a0 + r);
          a1 = u64 (a1 + of_bool (a0 < r));
          (a1, t1) = rescale_loop 64 a0 c (a1, t1)
      in if t1 > INT64_MAX then INT64_MIN else t1)"

text \<open>\<open>rnd & ~AV_ROUND_PASS_MINMAX\<close> is written on the \<open>unsigned\<close> value, as the C guard does.\<close>

definition bad_rounding :: "int \<Rightarrow> bool" where
  "bad_rounding rnd \<longleftrightarrow>
     \<not> (u32 (rnd AND NOT AV_ROUND_PASS_MINMAX) \<le> 5 \<and> rnd AND NOT AV_ROUND_PASS_MINMAX \<noteq> 4)"

function av_rescale_rnd :: "int \<Rightarrow> int \<Rightarrow> int \<Rightarrow> int \<Rightarrow> int" where
  "av_rescale_rnd a b c rnd =
     (if c \<le> 0 \<or> b < 0 \<or> bad_rounding rnd then INT64_MIN
      else if rnd AND AV_ROUND_PASS_MINMAX \<noteq> 0 \<and> (a = INT64_MIN \<or> a = INT64_MAX) then a
      else
        let rnd = (if rnd AND AV_ROUND_PASS_MINMAX \<noteq> 0 then rnd - AV_ROUND_PASS_MINMAX else rnd)
        in if a < 0
           then s64 (- av_rescale_rnd (- max a (- INT64_MAX)) b c (rnd XOR (drop_bit 1 rnd AND 1)))
           else
             let r = (if rnd = AV_ROUND_NEAR_INF then c sdiv 2
                      else if rnd AND 1 \<noteq> 0 then c - 1 else 0)
             in if b \<le> INT_MAX \<and> c \<le> INT_MAX
                then if a \<le> INT_MAX then s64 (a * b + r) sdiv c
                     else
                       let ad = a sdiv c; a2 = s64 (a smod c * b + r) sdiv c
                       in if ad \<ge> INT_MAX \<and> b \<noteq> 0 \<and> ad > (INT64_MAX - a2) sdiv b
                          then INT64_MIN else s64 (ad * b + a2)
                else rescale_wide a b c r)"
  by pat_completeness auto
termination
  by (relation "measure (\<lambda>(a, _). if a < 0 then 1 else 0)") auto

declare av_rescale_rnd.simps [simp del]

definition av_rescale :: "int \<Rightarrow> int \<Rightarrow> int \<Rightarrow> int" where
  "av_rescale a b c = av_rescale_rnd a b c AV_ROUND_NEAR_INF"

definition av_rescale_q_rnd :: "int \<Rightarrow> AVRational \<Rightarrow> AVRational \<Rightarrow> int \<Rightarrow> int" where
  "av_rescale_q_rnd a bq cq rnd =
     (let b = num bq * den cq; c = num cq * den bq in av_rescale_rnd a b c rnd)"

definition av_rescale_q :: "int \<Rightarrow> AVRational \<Rightarrow> AVRational \<Rightarrow> int" where
  "av_rescale_q a bq cq = av_rescale_q_rnd a bq cq AV_ROUND_NEAR_INF"

subsubsection \<open>The loop is the division\<close>

lemma bit_int_div: "drop_bit i a AND 1 = (a div 2 ^ i) mod (2::int)"
  by (simp add: drop_bit_eq_div and_one_eq)

lemma split_low_bits: "(a::int) mod 2 ^ Suc i = ((a div 2 ^ i) mod 2) * 2 ^ i + a mod 2 ^ i"
proof -
  have "a mod (2 ^ i * 2) = 2 ^ i * (a div 2 ^ i mod 2) + a mod 2 ^ i"
    by (rule zmod_zmult2_eq) simp
  then show ?thesis by (simp add: mult.commute)
qed

lemma mod_lin: "(x mod m * k + z) mod m = (x * k + z) mod (m::int)"
  by (metis mod_add_left_eq mod_mult_left_eq)

text \<open>Whatever the start value of \<open>t1\<close>, its bits are shifted out: after \<open>i\<close> rounds
  \<open>t1\<close> is the start value times \<open>2 ^ i\<close> plus the \<open>i\<close> quotient bits, modulo \<open>2 ^ 64\<close>.\<close>

lemma rescale_loop_quotient:
  assumes "0 \<le> a1" "a1 < c" "c \<le> 2 ^ 63" "rescale_loop i a0 c (a1, t1) = (a1', t1')"
  shows "t1' mod 2 ^ 64 = (t1 * 2 ^ i + (a1 * 2 ^ i + a0 mod 2 ^ i) div c) mod 2 ^ 64 \<and>
         (i \<noteq> 0 \<longrightarrow> uint64 t1')"
  using assms
proof (induction i arbitrary: a1 t1)
  case 0
  then show ?case by simp
next
  case (Suc i)
  define d where "d = drop_bit i a0 AND 1"
  have d: "d = (a0 div 2 ^ i) mod 2" unfolding d_def by (rule bit_int_div)
  then have d01: "0 \<le> d" "d \<le> 1" by simp_all
  define x where "x = 2 * a1 + d"
  have x: "0 \<le> x" "x < 2 * c" using Suc.prems d01 by (auto simp: x_def)
  have ux: "u64 (2 * a1 + d) = x" using x Suc.prems by (simp add: x_def u64_def)
  define q where "q = x div c"
  have q: "q = (if c \<le> x then 1 else 0)"
    using x Suc.prems by (auto simp: q_def div_pos_geq div_pos_pos_trivial)
  define y where "y = x - q * c"
  have y: "0 \<le> y" "y < c" using x by (auto simp: y_def q)
  define t where "t = u64 (2 * t1 + q)"
  have t: "u64 (u64 (t1 + t1) + 1) = u64 (2 * t1 + 1)" by (simp add: u64_def mod_simps)
  have "c \<le> x \<Longrightarrow> u64 (x - c) = x - c" using x Suc.prems(1-3) by (simp add: u64_id)
  then have step: "rescale_loop (Suc i) a0 c (a1, t1) = rescale_loop i a0 c (y, t)"
    using t by (simp add: Let_def y_def q t_def d_def [symmetric] ux)
  from Suc.IH [OF y Suc.prems(3)] Suc.prems(4)
  have IH: "t1' mod 2 ^ 64 = (t * 2 ^ i + (y * 2 ^ i + a0 mod 2 ^ i) div c) mod 2 ^ 64"
    "i \<noteq> 0 \<longrightarrow> uint64 t1'" unfolding step by auto
  have "a1 * 2 ^ Suc i + a0 mod 2 ^ Suc i = (y + q * c) * 2 ^ i + a0 mod 2 ^ i"
    unfolding split_low_bits d [symmetric] by (simp add: y_def x_def algebra_simps)
  also have "\<dots> = (y * 2 ^ i + a0 mod 2 ^ i) + (q * 2 ^ i) * c" by (simp add: algebra_simps)
  finally have "(a1 * 2 ^ Suc i + a0 mod 2 ^ Suc i) div c = (y * 2 ^ i + a0 mod 2 ^ i) div c + q * 2 ^ i"
    using y by simp
  then have sum: "t1 * 2 ^ Suc i + (a1 * 2 ^ Suc i + a0 mod 2 ^ Suc i) div c
      = (2 * t1 + q) * 2 ^ i + (y * 2 ^ i + a0 mod 2 ^ i) div c" by (simp add: algebra_simps)
  have wrap: "(t * 2 ^ i + z) mod 2 ^ 64 = ((2 * t1 + q) * 2 ^ i + z) mod 2 ^ 64" for z
    using mod_lin [of "2 * t1 + q" "2 ^ 64" "2 ^ i" z] by (simp add: t_def u64_def)
  have "uint64 t1'"
  proof (cases "i = 0")
    case True
    then have "t1' = t" using Suc.prems(4) unfolding step by simp
    then show ?thesis by (simp add: t_def uint64_def)
  next
    case False
    with IH(2) show ?thesis by simp
  qed
  then show ?case by (simp only: IH(1) wrap sum) simp
qed

lemma rescale_loop_shift:
  assumes "rescale_loop i a0 c (a1, t1) = (a1', t1')"
  shows "\<exists>s. 0 \<le> s \<and> s < 2 ^ i \<and> t1' mod 2 ^ 64 = (t1 * 2 ^ i + s) mod 2 ^ 64"
  using assms
proof (induction i arbitrary: a1 t1)
  case 0
  then show ?case by (intro exI [of _ 0]) simp
next
  case (Suc i)
  then obtain y e where e: "e = 0 \<or> e = 1"
    and run: "rescale_loop i a0 c (y, u64 (u64 (t1 + t1) + e)) = (a1', t1')"
    by (cases "c \<le> u64 (a1 + (a1 + (drop_bit i a0 AND 1)))")
       (auto simp: Let_def dest: meta_spec [of _ 0])
  from Suc.IH [OF run] obtain s where s: "0 \<le> s" "s < 2 ^ i"
    "t1' mod 2 ^ 64 = (u64 (u64 (t1 + t1) + e) * 2 ^ i + s) mod 2 ^ 64" by blast
  have "u64 (u64 (t1 + t1) + e) = (2 * t1 + e) mod 2 ^ 64" by (simp add: u64_def mod_simps)
  then have "t1' mod 2 ^ 64 = ((2 * t1 + e) * 2 ^ i + s) mod 2 ^ 64" using s(3) by (simp only: mod_lin)
  also have "(2 * t1 + e) * 2 ^ i + s = t1 * 2 ^ Suc i + (e * 2 ^ i + s)" by (simp add: algebra_simps)
  finally show ?case using s e by (intro exI [of _ "e * 2 ^ i + s"]) auto
qed

lemma rescale_loop_uint64:
  "rescale_loop i a0 c (a1, t1) = (a1', t1') \<Longrightarrow> i \<noteq> 0 \<Longrightarrow> uint64 t1'"
proof (induction i arbitrary: a1 t1)
  case 0
  then show ?case by simp
next
  case (Suc i)
  then show ?case by (cases "i = 0") (auto simp: Let_def uint64_def split: if_splits)
qed

text \<open>When the high word is not below the divisor, the quotient does not fit and the first round
  already sets the bit that becomes bit 63.\<close>

lemma rescale_loop_overflow:
  assumes "0 \<le> a1" "c \<le> a1" "a1 < 2 ^ 63" "0 \<le> t1" "rescale_loop 64 a0 c (a1, t1) = (a1', t1')"
    "0 < c"
  shows "2 ^ 63 \<le> t1' mod 2 ^ 64"
proof -
  define d where "d = drop_bit 63 a0 AND 1"
  have d: "0 \<le> d" "d \<le> 1" unfolding d_def bit_int_div by simp_all
  have u: "u64 (2 * a1 + d) = 2 * a1 + d" using assms d by (simp add: u64_id)
  have ge: "(c \<le> 2 * a1 + d) = True" using assms d by simp
  have dbl: "a1 + (a1 + d) = 2 * a1 + d" "t1 + t1 = 2 * t1" by simp_all
  have "(64::nat) = Suc 63" by simp
  with assms(5) have "rescale_loop (Suc 63) a0 c (a1, t1) = (a1', t1')" by (simp only:)
  then have "rescale_loop 63 a0 c (u64 (2 * a1 + d - c), u64 (u64 (2 * t1) + 1)) = (a1', t1')"
    by (simp only: rescale_loop.simps Let_def d_def [symmetric] dbl u ge if_True)
  from rescale_loop_shift [OF this] obtain s where s: "0 \<le> s" "s < 2 ^ 63"
    "t1' mod 2 ^ 64 = (u64 (u64 (2 * t1) + 1) * 2 ^ 63 + s) mod 2 ^ 64" by blast
  have "u64 (u64 (2 * t1) + 1) = (2 * t1 + 1) mod 2 ^ 64" by (simp add: u64_def mod_simps)
  then have "t1' mod 2 ^ 64 = ((2 * t1 + 1) * 2 ^ 63 + s) mod 2 ^ 64" using s(3) by (simp only: mod_lin)
  also have "(2 * t1 + 1) * 2 ^ 63 + s = (2 ^ 63 + s) + t1 * 2 ^ 64" by simp
  also have "\<dots> mod 2 ^ 64 = (2 ^ 63 + s) mod 2 ^ 64" by (simp only: mod_mult_self1)
  also have "\<dots> = 2 ^ 63 + s" using s by simp
  finally show ?thesis using s by simp
qed

lemma add_carry:
  assumes "0 \<le> x" "x < 18446744073709551616" "0 \<le> y" "y < 18446744073709551616"
  shows "u64 (x + y) + 18446744073709551616 * of_bool (u64 (x + y) < y) = x + y"
proof (cases "x + y < 18446744073709551616")
  case True
  then show ?thesis using assms by (simp add: u64_id)
next
  case False
  then have "u64 (x + y) = x + y - 18446744073709551616"
    using assms mod_pos_pos_trivial [of "x + y - 18446744073709551616" 18446744073709551616]
    by (simp add: u64_def)
  then show ?thesis using assms False by simp
qed

text \<open>The two 64-bit halves the code multiplies out are those of the exact product plus \<open>r\<close>.\<close>

definition wide_halves :: "int \<Rightarrow> int \<Rightarrow> int \<Rightarrow> int \<times> int \<times> int" where
  "wide_halves a b r =
     (let a0 = a AND 0xFFFFFFFF; a1 = drop_bit 32 a;
          b0 = b AND 0xFFFFFFFF; b1 = drop_bit 32 b;
          t1 = u64 (a0 * b1 + a1 * b0);
          t1a = u64 (push_bit 32 t1);
          a0 = u64 (a0 * b0 + t1a);
          a1 = u64 (a1 * b1 + drop_bit 32 t1 + of_bool (a0 < t1a));
          a0 = u64 (a0 + r)
      in (u64 (a1 + of_bool (a0 < r)), a0, t1))"

lemma rescale_wide_halves:
  "rescale_wide a b c r =
     (let (a1, a0, t1) = wide_halves a b r; (a1, t1) = rescale_loop 64 a0 c (a1, t1)
      in if t1 > INT64_MAX then INT64_MIN else t1)"
  by (simp add: rescale_wide_def wide_halves_def Let_def)

lemma split_word32: "a = 4294967296 * drop_bit 32 a + (a AND 0xFFFFFFFF)" for a :: int
proof -
  have "a AND 0xFFFFFFFF = a mod 4294967296"
    using take_bit_eq_mask [of 32 a, symmetric] by (simp add: mask_eq_exp_minus_1 take_bit_eq_mod)
  then show ?thesis by (simp add: drop_bit_eq_div)
qed

lemma word32_bounds:
  assumes "0 \<le> a" "a \<le> INT64_MAX"
  shows "0 \<le> drop_bit 32 a" "drop_bit 32 a < 2147483648"
    "0 \<le> a AND 0xFFFFFFFF" "a AND 0xFFFFFFFF < 4294967296"
proof -
  have "a AND 0xFFFFFFFF = a mod 4294967296"
    using take_bit_eq_mask [of 32 a, symmetric] by (simp add: mask_eq_exp_minus_1 take_bit_eq_mod)
  then show "0 \<le> a AND 0xFFFFFFFF" "a AND 0xFFFFFFFF < 4294967296" by simp_all
  show "0 \<le> drop_bit 32 a" "drop_bit 32 a < 2147483648" using assms by (simp_all add: drop_bit_eq_div)
qed

lemma wide_halves_value:
  assumes a: "0 \<le> a" "a \<le> INT64_MAX" and b: "0 \<le> b" "b \<le> INT64_MAX" and r: "0 \<le> r" "r \<le> INT64_MAX"
    and halves: "wide_halves a b r = (hi, lo, t1)"
  shows "hi * 18446744073709551616 + lo = a * b + r" "uint64 lo" "0 \<le> hi" "hi < 2 ^ 63" "0 \<le> t1"
proof -
  define a0 a1 b0 b1 where d: "a0 = a AND 0xFFFFFFFF" "a1 = drop_bit 32 a"
    "b0 = b AND 0xFFFFFFFF" "b1 = drop_bit 32 b"
  have av: "a = 4294967296 * a1 + a0" and bv: "b = 4294967296 * b1 + b0"
    unfolding d by (rule split_word32)+
  note ab = word32_bounds [OF a, folded d] word32_bounds [OF b, folded d]
  have p01: "a0 * b1 \<le> 4294967295 * 2147483647" and p10: "a1 * b0 \<le> 2147483647 * 4294967295"
    and p00: "a0 * b0 \<le> 4294967295 * 4294967295" and p11: "a1 * b1 \<le> 2147483647 * 2147483647"
    by (rule mult_bound; use ab in simp)+
  have n: "0 \<le> a0 * b1" "0 \<le> a1 * b0" "0 \<le> a0 * b0" "0 \<le> a1 * b1" using ab by simp_all
  define t where "t = a0 * b1 + a1 * b0"
  have t: "0 \<le> t" "t < 18446744073709551616" using n p01 p10 by (simp_all add: t_def)
  define ta where "ta = u64 (push_bit 32 t)"
  have ta: "ta = (t mod 4294967296) * 4294967296"
    using mult_mod_left [of t 4294967296 4294967296] by (simp add: ta_def push_bit_eq_mult u64_def)
  then have ta_b: "0 \<le> ta" "ta < 18446744073709551616" unfolding ta_def by simp_all
  define l where "l = u64 (a0 * b0 + ta)"
  define k :: int where "k = of_bool (l < ta)"
  have lk: "l + 18446744073709551616 * k = a0 * b0 + ta"
    unfolding l_def k_def by (rule add_carry) (use n p00 ta_b in simp_all)
  have l: "0 \<le> l" "l < 18446744073709551616" unfolding l_def by simp_all
  have k: "0 \<le> k" "k \<le> 1" unfolding k_def by simp_all
  define h where "h = u64 (a1 * b1 + drop_bit 32 t + k)"
  have td: "0 \<le> t div 4294967296" "t div 4294967296 < 4294967296" using t by simp_all
  have h: "h = a1 * b1 + t div 4294967296 + k"
    unfolding h_def drop_bit_eq_div using n p11 td k by (simp add: u64_id)
  define lo' where "lo' = u64 (l + r)"
  define k' :: int where "k' = of_bool (lo' < r)"
  have lk': "lo' + 18446744073709551616 * k' = l + r"
    unfolding lo'_def k'_def by (rule add_carry) (use l r in simp_all)
  have k': "0 \<le> k'" "k' \<le> 1" unfolding k'_def by simp_all
  have hb: "0 \<le> h" "h < 9223372036854775807" using n p11 td k by (simp_all add: h)
  have "wide_halves a b r = (u64 (h + k'), lo', t)"
    by (simp add: wide_halves_def Let_def d [symmetric] t_def [symmetric] u64_id [OF t]
        ta_def [symmetric] l_def [symmetric] k_def [symmetric] h_def [symmetric]
        lo'_def [symmetric] k'_def [symmetric])
  then have res: "hi = h + k'" "lo = lo'" "t1 = t" using halves hb k' by (simp_all add: u64_id)
  show "uint64 lo" by (simp add: res lo'_def uint64_def)
  show "0 \<le> hi" "hi < 2 ^ 63" "0 \<le> t1" using hb k' t by (simp_all add: res)
  have "a * b = a1 * b1 * 18446744073709551616 + t * 4294967296 + a0 * b0"
    unfolding av bv t_def by (simp add: algebra_simps)
  also have "t * 4294967296 = (t div 4294967296 * 4294967296 + t mod 4294967296) * 4294967296"
    by (simp only: div_mult_mod_eq)
  also have "\<dots> = (t div 4294967296) * 18446744073709551616 + ta"
    by (simp only: distrib_right ta mult.assoc)
  finally show "hi * 18446744073709551616 + lo = a * b + r"
    using lk lk' by (simp add: res h algebra_simps)
qed

lemma rescale_wide_value:
  assumes a: "0 \<le> a" "a \<le> INT64_MAX" and b: "0 \<le> b" "b \<le> INT64_MAX"
    and c: "0 < c" "c \<le> INT64_MAX" and r: "0 \<le> r" "r \<le> INT64_MAX"
  shows "rescale_wide a b c r = (let q = (a * b + r) div c in if q \<le> INT64_MAX then q else INT64_MIN)"
proof -
  obtain hi lo t1 where h: "wide_halves a b r = (hi, lo, t1)" by (cases "wide_halves a b r")
  note hv = wide_halves_value [OF a b r h]
  obtain a1' t1' where l: "rescale_loop 64 lo c (hi, t1) = (a1', t1')"
    by (cases "rescale_loop 64 lo c (hi, t1)")
  have val: "rescale_wide a b c r = (if t1' > INT64_MAX then INT64_MIN else t1')"
    by (simp add: rescale_wide_halves h l)
  have lo: "0 \<le> lo" "lo < 18446744073709551616" using hv(2) by (simp_all add: uint64_def)
  have q0: "0 \<le> (a * b + r) div c" using a b r c by (simp add: pos_imp_zdiv_nonneg_iff)
  show ?thesis
  proof (cases "hi < c")
    case True
    from rescale_loop_quotient [OF hv(3) True _ l] c
    have t: "t1' mod 2 ^ 64 = (t1 * 2 ^ 64 + (hi * 2 ^ 64 + lo mod 2 ^ 64) div c) mod 2 ^ 64" "uint64 t1'"
      by auto
    have "hi * 2 ^ 64 + lo mod 2 ^ 64 = a * b + r" using hv(1) lo by simp
    then have "t1' = ((a * b + r) div c) mod 18446744073709551616" using t by (simp add: uint64_def)
    moreover have "(a * b + r) div c < 18446744073709551616"
    proof -
      have "a * b + r < (hi + 1) * 18446744073709551616" using hv(1) lo by (simp add: algebra_simps)
      also have "\<dots> \<le> c * 18446744073709551616" using True by simp
      finally show ?thesis using c by (simp add: div_less_int mult.commute)
    qed
    ultimately show ?thesis using val q0 by (simp add: Let_def)
  next
    case False
    then have "2 ^ 63 \<le> t1' mod 2 ^ 64"
      using rescale_loop_overflow [OF hv(3) _ hv(4,5) l] c by simp
    moreover have "uint64 t1'"
      using rescale_loop_uint64 [OF l] by simp
    ultimately have "INT64_MAX < t1'" by (simp add: uint64_def)
    moreover have "INT64_MAX < (a * b + r) div c"
    proof -
      have "c * 18446744073709551616 \<le> a * b + r" using hv(1) lo False by simp
      then have "18446744073709551616 \<le> (a * b + r) div c" using c
        by (simp add: le_div_int mult.commute)
      then show ?thesis by simp
    qed
    ultimately show ?thesis using val by (simp add: Let_def)
  qed
qed

subsubsection \<open>What each rounding mode promises\<close>

text \<open>The exact quotient \<open>n / d\<close> rounded: towards zero, away from zero, down, up, or to the nearest
  integer with halves away from zero.\<close>

definition round_div :: "int \<Rightarrow> int \<Rightarrow> int \<Rightarrow> int" where
  "round_div rnd n d =
     (if rnd = AV_ROUND_ZERO then sgn n * (\<bar>n\<bar> div d)
      else if rnd = AV_ROUND_INF then sgn n * (- (- \<bar>n\<bar> div d))
      else if rnd = AV_ROUND_DOWN then n div d
      else if rnd = AV_ROUND_UP then - (- n div d)
      else sgn n * ((2 * \<bar>n\<bar> + d) div (2 * d)))"

definition fits64 :: "int \<Rightarrow> int" where
  "fits64 q = (if - INT64_MAX \<le> q \<and> q \<le> INT64_MAX then q else INT64_MIN)"

definition rounding_mode :: "int \<Rightarrow> bool" where
  "rounding_mode rnd \<longleftrightarrow> rnd \<in> {AV_ROUND_ZERO, AV_ROUND_INF, AV_ROUND_DOWN, AV_ROUND_UP, AV_ROUND_NEAR_INF}"

lemma ceil_div:
  assumes c: "0 < c"
  shows "(n + (c - 1)) div c = - (- n div (c::int))"
proof -
  define q s where "q = - (- n div c)" and "s = c - 1 - (- n) mod c"
  have "- n = - n div c * c + (- n) mod c" by (simp only: div_mult_mod_eq)
  then have n: "n + (c - 1) = s + q * c" unfolding q_def s_def by linarith
  have "0 \<le> s" "s < c" 
    using pos_mod_bound [OF c, of "- n"] pos_mod_sign [OF c, of "- n"] unfolding s_def by linarith+
  then have "(s + q * c) div c = q" using c by simp
  then show ?thesis by (simp only: n q_def)
qed

lemma near_div: "0 < c \<Longrightarrow> (n + c div 2) div c = (2 * n + c) div (2 * (c::int))"
proof -
  assume c: "0 < c"
  have "(2 * n + c) div (2 * c) = (2 * n + c) div 2 div c"
    using zdiv_zmult2_eq [of c "2 * n + c" 2] c by simp
  also have "(2 * n + c) div 2 = n + c div 2" by simp
  finally show ?thesis by simp
qed

subsubsection \<open>Correctness of \<open>av_rescale_rnd\<close>\<close>

text \<open>The part of the routine after the sign has been dealt with.\<close>

definition rescale_nonneg :: "int \<Rightarrow> int \<Rightarrow> int \<Rightarrow> int \<Rightarrow> int" where
  "rescale_nonneg a b c r =
     (if b \<le> INT_MAX \<and> c \<le> INT_MAX
      then if a \<le> INT_MAX then s64 (a * b + r) sdiv c
           else
             let ad = a sdiv c; a2 = s64 (a smod c * b + r) sdiv c
             in if ad \<ge> INT_MAX \<and> b \<noteq> 0 \<and> ad > (INT64_MAX - a2) sdiv b
                then INT64_MIN else s64 (ad * b + a2)
      else rescale_wide a b c r)"

lemma rescale_nonneg_value:
  assumes a: "0 \<le> a" "a \<le> INT64_MAX" and b: "0 \<le> b" "b \<le> INT64_MAX"
    and c: "0 < c" "c \<le> INT64_MAX" and r: "0 \<le> r" "r < c"
  shows "rescale_nonneg a b c r = (let q = (a * b + r) div c in if q \<le> INT64_MAX then q else INT64_MIN)"
proof (cases "b \<le> INT_MAX \<and> c \<le> INT_MAX")
  case False
  then show ?thesis using rescale_wide_value [OF a b c r(1)] r c by (auto simp: rescale_nonneg_def)
next
  case small: True
  show ?thesis
  proof (cases "a \<le> INT_MAX")
    case True
    have ab: "0 \<le> a * b" "a * b \<le> INT_MAX * INT_MAX" using a b small True mult_bound [of a INT_MAX b INT_MAX] by simp_all
    then have bnd: "0 \<le> a * b + r" "a * b + r \<le> INT64_MAX" using r small by auto
    have "(a * b + r) div c \<le> a * b + r"
      using bnd(1) c by (cases "c = 1") (auto intro: order_trans [OF zdiv_mono2 [of _ 1]])
    then show ?thesis
      using small True bnd c by (simp add: rescale_nonneg_def s64_id sdiv_nonneg Let_def)
  next
    case False
    define ad am where "ad = a div c" and "am = a mod c"
    have am: "0 \<le> am" "am < c" using c by (simp_all add: am_def)
    have ad0: "0 \<le> ad" using a c by (simp add: ad_def pos_imp_zdiv_nonneg_iff)
    have a_eq: "a = ad * c + am" by (simp add: ad_def am_def)
    have amb: "0 \<le> am * b" "am * b \<le> (c - 1) * b" using am b by (auto intro: mult_right_mono)
    define a2 where "a2 = (am * b + r) div c"
    have a2_0: "0 \<le> a2" using amb r c by (simp add: a2_def pos_imp_zdiv_nonneg_iff)
    have "am * b + r < (b + 1) * c" using amb r b by (simp add: algebra_simps)
    then have "a2 < b + 1" unfolding a2_def using c(1) by (simp only: div_less_int)
    then have a2_b: "a2 \<le> b" by simp
    have mm: "(c - 1) * b \<le> INT_MAX * INT_MAX"
      using b c small mult_bound [of "c - 1" INT_MAX b INT_MAX] by simp
    have s2: "s64 (am * b + r) = am * b + r" using amb mm r small by (intro s64_id) simp_all
    have q: "(a * b + r) div c = ad * b + a2"
    proof -
      have "a * b + r = (am * b + r) + ad * b * c" by (simp add: a_eq algebra_simps)
      moreover have "((am * b + r) + ad * b * c) div c = ad * b + (am * b + r) div c"
        using c by (intro div_mult_self1) simp
      ultimately show ?thesis by (simp only: a2_def)
    qed
    have "rescale_nonneg a b c r =
        (if ad \<ge> INT_MAX \<and> b \<noteq> 0 \<and> ad > (INT64_MAX - a2) sdiv b then INT64_MIN else s64 (ad * b + a2))"
      using small False a c am amb r by (simp add: rescale_nonneg_def Let_def sdiv_nonneg smod_nonneg
        ad_def [symmetric] am_def [symmetric] s2 a2_def [symmetric])
    also have "(ad \<ge> INT_MAX \<and> b \<noteq> 0 \<and> ad > (INT64_MAX - a2) sdiv b) = (INT64_MAX < ad * b + a2)"
    proof (cases "b = 0")
      case True
      then show ?thesis using a2_b by simp
    next
      case False
      then have b0: "0 < b" using b by simp
      have "(INT64_MAX - a2) sdiv b = (INT64_MAX - a2) div b"
        using a2_b small b0 by (simp add: sdiv_nonneg)
      moreover have "(ad > (INT64_MAX - a2) div b) = (INT64_MAX - a2 < ad * b)"
        using b0 by (simp add: div_less_int)
      moreover have "INT64_MAX - a2 < ad * b \<Longrightarrow> INT_MAX \<le> ad"
      proof (rule ccontr)
        assume "\<not> INT_MAX \<le> ad"
        then have "ad * b \<le> INT_MAX * INT_MAX"
          using ad0 b small mult_bound [of ad INT_MAX b INT_MAX] by simp
        then show "INT64_MAX - a2 < ad * b \<Longrightarrow> False" using a2_b small by simp
      qed
      ultimately show ?thesis using False by auto
    qed
    also have "s64 (ad * b + a2) = ad * b + a2" if "\<not> INT64_MAX < ad * b + a2"
      using that ad0 b a2_0 by (intro s64_id) (auto intro: order_trans [of _ 0])
    ultimately show ?thesis by (simp add: q Let_def)
  qed
qed

definition round_add :: "int \<Rightarrow> int \<Rightarrow> int" where
  "round_add rnd c = (if rnd = AV_ROUND_NEAR_INF then c div 2 else if odd rnd then c - 1 else 0)"

lemma good_rounding:
  assumes "rounding_mode rnd"
  shows "\<not> bad_rounding rnd" "rnd AND AV_ROUND_PASS_MINMAX = 0"
  using assms by (auto simp: rounding_mode_def bad_rounding_def round_modes u32_def)

lemma minmax_rounding:
  assumes "rounding_mode rnd"
  shows "\<not> bad_rounding (rnd + AV_ROUND_PASS_MINMAX)"
    "(rnd + AV_ROUND_PASS_MINMAX) AND AV_ROUND_PASS_MINMAX \<noteq> 0"
  using assms by (auto simp: rounding_mode_def bad_rounding_def round_modes u32_def)

lemma mirrored_mode:
  assumes "rounding_mode rnd"
  shows "rounding_mode (rnd XOR (drop_bit 1 rnd AND 1))"
    "round_div (rnd XOR (drop_bit 1 rnd AND 1)) (- n) d = - round_div rnd n d"
  using assms
  by (auto simp: rounding_mode_def round_modes round_div_def drop_bit_eq_div and_one_eq)

lemma round_add_code:
  "0 < c \<Longrightarrow> (if rnd = AV_ROUND_NEAR_INF then c sdiv 2 else if rnd AND 1 \<noteq> 0 then c - 1 else 0)
    = round_add rnd c"
  by (simp add: round_add_def sdiv_nonneg and_one_eq odd_iff_mod_2_eq_one)

lemma rescale_rnd_nonneg:
  assumes "rounding_mode rnd" "0 \<le> a" "0 \<le> b" "0 < c"
  shows "av_rescale_rnd a b c rnd = rescale_nonneg a b c (round_add rnd c)"
  using assms good_rounding [OF assms(1)]
  by (subst av_rescale_rnd.simps)
     (simp add: rescale_nonneg_def Let_def round_add_code split del: if_split)

lemma round_div_nonneg:
  assumes "rounding_mode rnd" "0 \<le> n" "0 < d"
  shows "(n + round_add rnd d) div d = round_div rnd n d"
  using assms ceil_div [of d n] near_div [of d n]
  by (cases "n = 0") (auto simp: rounding_mode_def round_modes round_add_def round_div_def sgn_if)

lemma round_add_range: "rounding_mode rnd \<Longrightarrow> 0 < c \<Longrightarrow> 0 \<le> round_add rnd c \<and> round_add rnd c < c"
  by (auto simp: rounding_mode_def round_modes round_add_def)

lemma rescale_rnd_value_nonneg:
  assumes "rounding_mode rnd" and a: "0 \<le> a" "a \<le> INT64_MAX" and b: "0 \<le> b" "b \<le> INT64_MAX"
    and c: "0 < c" "c \<le> INT64_MAX"
  shows "av_rescale_rnd a b c rnd = fits64 (round_div rnd (a * b) c)"
proof -
  note r = round_add_range [OF assms(1) c(1)]
  have q: "(a * b + round_add rnd c) div c = round_div rnd (a * b) c"
    using assms by (intro round_div_nonneg) auto
  have "0 \<le> (a * b + round_add rnd c) div c" using a b c r by (simp add: pos_imp_zdiv_nonneg_iff)
  then have "0 \<le> round_div rnd (a * b) c" by (simp only: q)
  then show ?thesis
    using rescale_nonneg_value [OF a b c] r rescale_rnd_nonneg [OF assms(1) a(1) b(1) c(1)]
    by (simp add: q fits64_def Let_def)
qed

lemma rescale_rnd_value:
  assumes "rounding_mode rnd" and a: "int64 a" and b: "0 \<le> b" "b \<le> INT64_MAX"
    and c: "0 < c" "c \<le> INT64_MAX"
  shows "av_rescale_rnd a b c rnd = fits64 (round_div rnd (max a (- INT64_MAX) * b) c)"
proof (cases "a < 0")
  case False
  then show ?thesis using rescale_rnd_value_nonneg [OF assms(1) _ _ b c] a by (simp add: int64_def)
next
  case True
  define m rnd' where "m = - max a (- INT64_MAX)" and "rnd' = rnd XOR (drop_bit 1 rnd AND 1)"
  have m: "0 \<le> m" "m \<le> INT64_MAX" using True by (auto simp: m_def)
  have "av_rescale_rnd a b c rnd = s64 (- av_rescale_rnd m b c rnd')"
    using True b c good_rounding [OF assms(1)]
    by (subst av_rescale_rnd.simps) (simp add: m_def rnd'_def Let_def)
  also have "\<dots> = s64 (- fits64 (round_div rnd' (m * b) c))"
    using rescale_rnd_value_nonneg [OF _ m b c] mirrored_mode [OF assms(1)] by (simp add: rnd'_def)
  also have "round_div rnd' (m * b) c = - round_div rnd (max a (- INT64_MAX) * b) c"
    using mirrored_mode(2) [OF assms(1), of "max a (- INT64_MAX) * b" c] by (simp add: m_def rnd'_def)
  also have "s64 (- fits64 (- q)) = fits64 q" for q
    by (auto simp: fits64_def s64_id s64_def [of 9223372036854775808])
  finally show ?thesis .
qed

subsection \<open>Comparing timestamps\<close>

definition FFABS :: "int \<Rightarrow> int" where
  "FFABS a = (if a \<ge> 0 then a else - a)"

definition av_compare_ts :: "int \<Rightarrow> AVRational \<Rightarrow> int \<Rightarrow> AVRational \<Rightarrow> int" where
  "av_compare_ts ts_a tb_a ts_b tb_b =
     (let a = num tb_a * den tb_b; b = num tb_b * den tb_a
      in if (FFABS ts_a OR a OR FFABS ts_b OR b) \<le> INT_MAX
         then of_bool (s64 (ts_a * a) > s64 (ts_b * b)) - of_bool (s64 (ts_a * a) < s64 (ts_b * b))
         else if av_rescale_rnd ts_a a b AV_ROUND_DOWN < ts_b then - 1
         else if av_rescale_rnd ts_b b a AV_ROUND_DOWN < ts_a then 1
         else 0)"

definition av_compare_mod :: "int \<Rightarrow> int \<Rightarrow> int \<Rightarrow> int" where
  "av_compare_mod a b md =
     (let c = s64 (u64 (a - b) AND u64 (md - 1))
      in if u64 c > drop_bit 1 md then s64 (c - md) else c)"

text \<open>A time base as the libraries use it: both parts positive C \<open>int\<close>s.\<close>

definition time_base :: "AVRational \<Rightarrow> bool" where
  "time_base q \<longleftrightarrow> 0 < num q \<and> num q \<le> INT_MAX \<and> 0 < den q \<and> den q \<le> INT_MAX"

lemma time_base_product:
  assumes "time_base p" "time_base q"
  shows "0 < num p * den q" "num p * den q \<le> INT64_MAX"
  using assms mult_bound [of "num p" INT_MAX "den q" INT_MAX] by (auto simp: time_base_def)

lemma rescale_down:
  assumes "int64 a" "a \<noteq> INT64_MIN" "0 < b" "b \<le> INT64_MAX" "0 < c" "c \<le> INT64_MAX"
  shows "av_rescale_rnd a b c AV_ROUND_DOWN = fits64 (a * b div c)"
proof -
  have "max a (- INT64_MAX) = a" using assms by (auto simp: int64_def)
  then show ?thesis
    using rescale_rnd_value [of AV_ROUND_DOWN a b c] assms
    by (simp add: rounding_mode_def round_div_def round_modes)
qed

lemma or_all_le:
  assumes "(x OR a OR y OR b) \<le> n" "0 \<le> x" "0 \<le> a" "0 \<le> y" "0 \<le> (b::int)"
  shows "x \<le> n" "a \<le> n" "y \<le> n" "b \<le> n"
proof -
  have ge: "u \<le> u OR v" "v \<le> u OR v" if "0 \<le> u" "0 \<le> v" for u v :: int
    using or_greater_eq [OF that(2), of u] or_greater_eq [OF that(1), of v] by (simp_all add: or.commute)
  have nn: "0 \<le> y OR b" "0 \<le> a OR y OR b" using assms by simp_all
  show "x \<le> n" "a \<le> n" "y \<le> n" "b \<le> n"
    using assms ge [of x "a OR y OR b"] ge [of a "y OR b"] ge [of y b] nn by linarith+
qed

lemma av_compare_ts_value:
  assumes tb: "time_base tb_a" "time_base tb_b"
    and ts: "- INT64_MAX \<le> ts_a" "ts_a \<le> INT64_MAX" "- INT64_MAX \<le> ts_b" "ts_b \<le> INT64_MAX"
    and fit: "\<bar>ts_a * (num tb_a * den tb_b) div (num tb_b * den tb_a)\<bar> \<le> INT64_MAX"
      "\<bar>ts_b * (num tb_b * den tb_a) div (num tb_a * den tb_b)\<bar> \<le> INT64_MAX"
  shows "av_compare_ts ts_a tb_a ts_b tb_b =
    sgn (ts_a * (num tb_a * den tb_b) - ts_b * (num tb_b * den tb_a))"
proof -
  define a b where "a = num tb_a * den tb_b" and "b = num tb_b * den tb_a"
  note ab = time_base_product [OF tb, folded a_def] time_base_product [OF tb(2,1), folded b_def]
  have "av_rescale_rnd ts_a a b AV_ROUND_DOWN = ts_a * a div b"
    using rescale_down [of ts_a a b] ab ts fit by (simp add: int64_def fits64_def a_def b_def abs_le_iff)
  moreover have "av_rescale_rnd ts_b b a AV_ROUND_DOWN = ts_b * b div a"
    using rescale_down [of ts_b b a] ab ts fit by (simp add: int64_def fits64_def a_def b_def abs_le_iff)
  moreover have "s64 (ts_a * a) = ts_a * a \<and> s64 (ts_b * b) = ts_b * b"
    if small: "(FFABS ts_a OR a OR FFABS ts_b OR b) \<le> INT_MAX"
  proof -
    have "0 \<le> FFABS ts_a" "0 \<le> FFABS ts_b" by (simp_all add: FFABS_def)
    then have le: "FFABS ts_a \<le> INT_MAX" "a \<le> INT_MAX" "FFABS ts_b \<le> INT_MAX" "b \<le> INT_MAX"
      using or_all_le [OF small] ab by simp_all
    have "\<bar>x * y\<bar> \<le> INT_MAX * INT_MAX" if "FFABS x \<le> INT_MAX" "0 < y" "y \<le> INT_MAX" for x y
      unfolding abs_mult by (rule mult_bound) (use that in \<open>auto simp: FFABS_def split: if_splits\<close>)
    from this [OF le(1) ab(1) le(2)] this [OF le(3) ab(3) le(4)] show ?thesis
      by (simp add: s64_id abs_le_iff)
  qed
  ultimately show ?thesis
    using ab div_less_int [of b "ts_a * a" ts_b] div_less_int [of a "ts_b * b" ts_a]
    unfolding a_def [symmetric] b_def [symmetric]
    by (auto simp: av_compare_ts_def a_def [symmetric] b_def [symmetric] sgn_if Let_def)
qed

text \<open>With a power of two as modulus, the comparison is the signed distance of the two counters,
  taken in the half-open window around zero.\<close>

lemma av_compare_mod_value:
  assumes "k < 63" "uint64 a" "uint64 b"
  shows "av_compare_mod a b (2 ^ k) =
    (let d = (a - b) mod 2 ^ k in if d > 2 ^ k div 2 then d - 2 ^ k else d)"
proof -
  have P: "0 < (2::int) ^ k" "(2::int) ^ k \<le> 2 ^ 62"
    using assms(1) power_increasing [of k 62 "2::int"] by simp_all
  have u: "u64 (2 ^ k - 1) = mask k"
    using P by (simp add: u64_id mask_eq_exp_minus_1)
  have "u64 (a - b) AND mask k = u64 (a - b) mod 2 ^ k"
    by (simp add: take_bit_eq_mask [symmetric] take_bit_eq_mod)
  also have "\<dots> = (a - b) mod 2 ^ k"
  proof -
    have "(2::int) ^ k dvd 2 ^ 64" using assms(1) by (intro le_imp_power_dvd) simp
    then show ?thesis by (simp add: u64_def mod_mod_cancel)
  qed
  finally have c: "u64 (a - b) AND u64 (2 ^ k - 1) = (a - b) mod 2 ^ k" by (simp only: u)
  have d: "0 \<le> (a - b) mod 2 ^ k" "(a - b) mod 2 ^ k < 2 ^ k" using P by simp_all
  define PP where "PP = (2::int) ^ k"
  define dd where "dd = (a - b) mod PP"
  have b: "0 \<le> dd" "dd < PP" "0 < PP" "PP \<le> 4611686018427387904"
    using d P by (simp_all add: dd_def PP_def)
  have "s64 dd = dd" "u64 dd = dd" "s64 (dd - PP) = dd - PP"
    using b by (simp_all add: s64_id u64_id)
  then show ?thesis
    unfolding av_compare_mod_def Let_def c [folded PP_def dd_def] PP_def [symmetric] dd_def [symmetric]
    by (simp add: drop_bit_eq_div dd_def PP_def)
qed

subsection \<open>Jitter-free timestamps for packets of known duration\<close>

text \<open>\<open>av_rescale_delta\<close> updates the sample counter \<open>*last\<close>: the model returns it beside the
  result.  \<open>None\<close> is a failed \<open>av_assert0\<close>, which aborts the program.\<close>

definition delta_simple :: "AVRational \<Rightarrow> int \<Rightarrow> AVRational \<Rightarrow> int \<Rightarrow> AVRational \<Rightarrow> int \<times> int" where
  "delta_simple in_tb in_ts fs_tb duration out_tb =
     (av_rescale_q in_ts in_tb out_tb, s64 (av_rescale_q in_ts in_tb fs_tb + duration))"

definition av_rescale_delta ::
    "AVRational \<Rightarrow> int \<Rightarrow> AVRational \<Rightarrow> int \<Rightarrow> int \<Rightarrow> AVRational \<Rightarrow> (int \<times> int) option" where
  "av_rescale_delta in_tb in_ts fs_tb duration lst out_tb =
     (if in_ts = AV_NOPTS_VALUE \<or> duration < 0 then None
      else if lst = AV_NOPTS_VALUE \<or> duration = 0
              \<or> num in_tb * den out_tb \<le> num out_tb * den in_tb
      then Some (delta_simple in_tb in_ts fs_tb duration out_tb)
      else
        let a = drop_bit 1 (av_rescale_q_rnd (s64 (2 * in_ts - 1)) in_tb fs_tb AV_ROUND_DOWN);
            b = drop_bit 1 (s64 (av_rescale_q_rnd (s64 (2 * in_ts + 1)) in_tb fs_tb AV_ROUND_UP + 1))
        in if lst < s64 (2 * a - b) \<or> lst > s64 (2 * b - a)
           then Some (delta_simple in_tb in_ts fs_tb duration out_tb)
           else let this = av_clip64_c lst a b
                in Some (av_rescale_q this fs_tb out_tb, s64 (this + duration)))"

text \<open>A run over the packets of a stream, the counter threaded through.\<close>

fun rescale_delta_run ::
    "AVRational \<Rightarrow> AVRational \<Rightarrow> AVRational \<Rightarrow> int \<Rightarrow> (int \<times> int) list \<Rightarrow> int list option" where
  "rescale_delta_run in_tb fs_tb out_tb lst [] = Some []"
| "rescale_delta_run in_tb fs_tb out_tb lst ((in_ts, duration) # pkts) =
     (case av_rescale_delta in_tb in_ts fs_tb duration lst out_tb of
        None \<Rightarrow> None
      | Some (ts, lst) \<Rightarrow> map_option ((#) ts) (rescale_delta_run in_tb fs_tb out_tb lst pkts))"

text \<open>The timestamp \<open>in_ts\<close> is within half a tick of \<open>in_tb\<close> of the sample counter \<open>lst\<close>.\<close>

definition within_half_tick :: "AVRational \<Rightarrow> AVRational \<Rightarrow> int \<Rightarrow> int \<Rightarrow> bool" where
  "within_half_tick in_tb fs_tb in_ts lst \<longleftrightarrow>
     (let B = num in_tb * den fs_tb; C = num fs_tb * den in_tb
      in (2 * in_ts - 1) * B \<le> 2 * lst * C \<and> 2 * lst * C \<le> (2 * in_ts + 1) * B)"

text \<open>Bounds under which no intermediate value of the packet leaves 62 bits.\<close>

definition delta_in_range :: "AVRational \<Rightarrow> AVRational \<Rightarrow> int \<Rightarrow> int \<Rightarrow> int \<Rightarrow> bool" where
  "delta_in_range in_tb fs_tb in_ts duration lst \<longleftrightarrow>
     \<bar>in_ts\<bar> < 2 ^ 61 \<and> \<bar>lst\<bar> < 2 ^ 59 \<and> 0 < duration \<and> duration \<le> INT_MAX \<and>
     num in_tb * den fs_tb \<le> 2 ^ 58 * (num fs_tb * den in_tb)"

lemma fits64_small: "\<bar>q\<bar> \<le> INT64_MAX \<Longrightarrow> fits64 q = q"
  by (simp add: fits64_def abs_le_iff)

lemma rescale_up:
  assumes "- INT64_MAX \<le> a" "a \<le> INT64_MAX" "0 < b" "b \<le> INT64_MAX" "0 < c" "c \<le> INT64_MAX"
  shows "av_rescale_rnd a b c AV_ROUND_UP = fits64 (- (- (a * b) div c))"
proof -
  have "max a (- INT64_MAX) = a" using assms by auto
  then show ?thesis
    using rescale_rnd_value [of AV_ROUND_UP a b c] assms
    by (simp add: rounding_mode_def round_div_def round_modes int64_def)
qed

lemma av_rescale_delta_in_tick:
  assumes tb: "time_base in_tb" "time_base fs_tb" "time_base out_tb"
    and coarse: "num out_tb * den in_tb < num in_tb * den out_tb"
    and rng: "delta_in_range in_tb fs_tb in_ts duration lst"
    and tick: "within_half_tick in_tb fs_tb in_ts lst"
  shows "av_rescale_delta in_tb in_ts fs_tb duration lst out_tb =
    Some (av_rescale_q lst fs_tb out_tb, lst + duration)"
proof -
  define B C where BC: "B = num in_tb * den fs_tb" "C = num fs_tb * den in_tb"
  note pos = time_base_product [OF tb(1,2), folded BC] time_base_product [OF tb(2,1), folded BC]
  have r: "\<bar>in_ts\<bar> < 2 ^ 61" "\<bar>lst\<bar> < 2 ^ 59" "0 < duration" "duration \<le> INT_MAX" "B \<le> 2 ^ 58 * C"
    using rng by (simp_all add: delta_in_range_def BC)
  have t: "(2 * in_ts - 1) * B \<le> 2 * lst * C" "2 * lst * C \<le> (2 * in_ts + 1) * B"
    using tick by (simp_all add: within_half_tick_def BC Let_def)
  define lo hi where lh: "lo = (2 * in_ts - 1) * B div C" "hi = - (- ((2 * in_ts + 1) * B) div C)"
  have lo: "lo \<le> 2 * lst"
  proof -
    have "lo \<le> 2 * lst * C div C" unfolding lh using t pos by (intro zdiv_mono1) auto
    then show ?thesis using pos by simp
  qed
  have hi: "2 * lst \<le> hi"
  proof -
    have "- ((2 * in_ts + 1) * B) div C \<le> - (2 * lst * C) div C" using t pos by (intro zdiv_mono1) auto
    also have "\<dots> = (- (2 * lst)) * C div C" by simp
    also have "\<dots> = - (2 * lst)" by (rule nonzero_mult_div_cancel_right) (use pos in simp)
    finally show ?thesis by (simp add: lh)
  qed
  have step: "(2 * in_ts + 1) * B = (2 * in_ts - 1) * B + 2 * B" by (simp add: algebra_simps)
  have lo_b: "2 * lst - 2 ^ 60 \<le> lo"
  proof -
    have "(2 * lst - 2 ^ 60) * C \<le> (2 * in_ts - 1) * B" using t(2) step r(5) pos by (simp add: algebra_simps)
    then show ?thesis using pos by (simp add: lh le_div_int)
  qed
  have hi_b: "hi \<le> 2 * lst + 2 ^ 60"
  proof -
    have "(- (2 * lst) - 2 ^ 60) * C \<le> - ((2 * in_ts + 1) * B)" using t(1) step r(5) pos by (simp add: algebra_simps)
    then have "- (2 * lst) - 2 ^ 60 \<le> - ((2 * in_ts + 1) * B) div C" using pos by (simp only: le_div_int)
    then show ?thesis by (simp add: lh)
  qed
  have A: "av_rescale_q_rnd (s64 (2 * in_ts - 1)) in_tb fs_tb AV_ROUND_DOWN = lo"
  proof -
    have "av_rescale_rnd (2 * in_ts - 1) B C AV_ROUND_DOWN = fits64 lo"
      unfolding lh using r(1) pos by (intro rescale_down) (auto simp: int64_def)
    moreover have "fits64 lo = lo" using lo lo_b r(2) by (intro fits64_small) auto
    ultimately show ?thesis using r(1) by (simp add: av_rescale_q_rnd_def BC Let_def s64_id)
  qed
  have Bv: "av_rescale_q_rnd (s64 (2 * in_ts + 1)) in_tb fs_tb AV_ROUND_UP = hi"
  proof -
    have "av_rescale_rnd (2 * in_ts + 1) B C AV_ROUND_UP = fits64 hi"
      unfolding lh using r(1) pos by (intro rescale_up) auto
    moreover have "fits64 hi = hi" using hi hi_b r(2) by (intro fits64_small) auto
    ultimately show ?thesis using r(1) by (simp add: av_rescale_q_rnd_def BC Let_def s64_id)
  qed
  define a b where ab: "a = lo div 2" "b = (hi + 1) div 2"
  have a: "a \<le> lst" "lst - 2 ^ 60 \<le> a" and b: "lst \<le> b" "b \<le> lst + 2 ^ 60"
    using lo lo_b hi hi_b by (auto simp: ab)
  have "drop_bit 1 lo = a" "drop_bit 1 (s64 (hi + 1)) = b"
    using hi hi_b r(2) by (simp_all add: ab drop_bit_eq_div s64_id)
  moreover have "s64 (2 * a - b) = 2 * a - b" "s64 (2 * b - a) = 2 * b - a"
    using a b r(2) by (auto intro!: s64_id)
  moreover have "s64 (lst + duration) = lst + duration" using r by (intro s64_id) auto
  moreover have "lst \<noteq> AV_NOPTS_VALUE" "in_ts \<noteq> AV_NOPTS_VALUE" using r by auto
  ultimately show ?thesis
    using a b r coarse by (simp add: av_rescale_delta_def A Bv Let_def av_clip64_c_def)
qed

text \<open>The sample counter before each packet: the start value plus the durations so far.\<close>

fun sample_clock :: "int \<Rightarrow> (int \<times> int) list \<Rightarrow> int list" where
  "sample_clock s [] = []"
| "sample_clock s ((_, duration) # pkts) = s # sample_clock (s + duration) pkts"

fun packets_in_tick :: "AVRational \<Rightarrow> AVRational \<Rightarrow> int \<Rightarrow> (int \<times> int) list \<Rightarrow> bool" where
  "packets_in_tick in_tb fs_tb s [] \<longleftrightarrow> True"
| "packets_in_tick in_tb fs_tb s ((in_ts, duration) # pkts) \<longleftrightarrow>
     within_half_tick in_tb fs_tb in_ts s \<and> delta_in_range in_tb fs_tb in_ts duration s \<and>
     packets_in_tick in_tb fs_tb (s + duration) pkts"

lemma rescale_delta_run_clock:
  assumes "time_base in_tb" "time_base fs_tb" "time_base out_tb"
    and "num out_tb * den in_tb < num in_tb * den out_tb"
    and "packets_in_tick in_tb fs_tb s pkts"
  shows "rescale_delta_run in_tb fs_tb out_tb s pkts =
    Some (map (\<lambda>s. av_rescale_q s fs_tb out_tb) (sample_clock s pkts))"
  using assms(5)
proof (induction pkts arbitrary: s)
  case Nil
  then show ?case by simp
next
  case (Cons p pkts)
  obtain in_ts duration where p: "p = (in_ts, duration)" by (cases p)
  with Cons.prems av_rescale_delta_in_tick [OF assms(1-4), of in_ts duration s] Cons.IH [of "s + duration"]
  show ?case by simp
qed

subsection \<open>Properties\<close>

text \<open>For all 64-bit operands \<open>av_gcd\<close> is the greatest common divisor up to sign, and it is not
  negative when neither operand is.\<close>

theorem av_gcd_correct:
  assumes "int64 a" "int64 b"
  shows "\<bar>av_gcd a b\<bar> = gcd a b \<and> (0 \<le> a \<longrightarrow> 0 \<le> b \<longrightarrow> 0 \<le> av_gcd a b)"
proof (cases "a = 0 \<or> b = 0")
  case True
  then show ?thesis by (auto simp: av_gcd_def)
next
  case False
  then have g: "av_gcd a b = s64 (gcd a b)" using av_gcd_value assms by blast
  have "gcd a b \<le> \<bar>a\<bar>" using dvd_imp_le_int [of a "gcd a b"] False by simp
  then have "gcd a b \<le> 9223372036854775808" "0 \<le> a \<Longrightarrow> gcd a b \<le> INT64_MAX"
    using assms by (auto simp: int64_def)
  moreover have "s64 (gcd a b) = gcd a b" if "gcd a b \<le> INT64_MAX"
    using that by (intro s64_id) (auto intro: order_trans [OF _ gcd_ge_0_int])
  ultimately show ?thesis
    by (cases "gcd a b = 9223372036854775808") (auto simp: g s64_def [of 9223372036854775808])
qed

theorem av_gcd_correct_witness:
  "int64 (-48) \<and> int64 36 \<and> \<bar>av_gcd (-48) 36\<bar> = 12"
proof -
  have "gcd (-48) 36 = (12::int)" by code_simp
  then show ?thesis using av_gcd_correct [of "-48" 36] by (simp add: int64_def)
qed

text \<open>C23. \<open>av_rescale_rnd\<close> returns the exact quotient \<open>a * b / c\<close> rounded as the mode says, for every
  64-bit \<open>a\<close> (clamped to \<open>-INT64_MAX\<close>), every non-negative \<open>b\<close> and positive \<open>c\<close>; it returns
  \<open>INT64_MIN\<close> exactly when the rounded quotient does not fit.\<close>

theorem av_rescale_rnd_correct:
  assumes "rounding_mode rnd" "int64 a" "0 \<le> b" "b \<le> INT64_MAX" "0 < c" "c \<le> INT64_MAX"
  shows "av_rescale_rnd a b c rnd =
    (let q = round_div rnd (max a (- INT64_MAX) * b) c
     in if - INT64_MAX \<le> q \<and> q \<le> INT64_MAX then q else INT64_MIN)"
  using rescale_rnd_value [OF assms] by (simp add: fits64_def Let_def)

theorem av_rescale_rnd_correct_witness:
  "av_rescale_rnd 9000000000000000000 90000 1000000 AV_ROUND_NEAR_INF = 810000000000000000"
  using av_rescale_rnd_correct [of AV_ROUND_NEAR_INF 9000000000000000000 90000 1000000]
  by (simp add: rounding_mode_def int64_def round_div_def round_modes)

text \<open>With \<open>AV_ROUND_PASS_MINMAX\<close> the two extreme timestamps (\<open>INT64_MIN\<close> is "no timestamp")
  pass through unchanged, and all others are rescaled as without the flag.\<close>

theorem av_rescale_rnd_pass_minmax:
  assumes "rounding_mode rnd" "0 \<le> b" "0 < c"
  shows "av_rescale_rnd a b c (rnd + AV_ROUND_PASS_MINMAX) =
    (if a = INT64_MIN \<or> a = INT64_MAX then a else av_rescale_rnd a b c rnd)"
  using assms minmax_rounding [OF assms(1)] good_rounding [OF assms(1)]
  by (subst (1 2) av_rescale_rnd.simps) (simp add: Let_def split del: if_split cong: if_cong)

theorem av_rescale_rnd_pass_minmax_witness:
  "av_rescale_rnd AV_NOPTS_VALUE 90000 48000 (AV_ROUND_UP + AV_ROUND_PASS_MINMAX) = AV_NOPTS_VALUE"
  using av_rescale_rnd_pass_minmax [of AV_ROUND_UP 90000 48000 AV_NOPTS_VALUE]
  by (simp add: rounding_mode_def)

text \<open>C26. \<open>av_compare_ts\<close> orders two timestamps by the instants they denote, whenever each is
  representable in the other's time base (the documented condition).\<close>

theorem av_compare_ts_correct:
  assumes "time_base tb_a" "time_base tb_b"
    and "- INT64_MAX \<le> ts_a" "ts_a \<le> INT64_MAX" "- INT64_MAX \<le> ts_b" "ts_b \<le> INT64_MAX"
    and "\<bar>ts_a * (num tb_a * den tb_b) div (num tb_b * den tb_a)\<bar> \<le> INT64_MAX"
    and "\<bar>ts_b * (num tb_b * den tb_a) div (num tb_a * den tb_b)\<bar> \<le> INT64_MAX"
  shows "av_compare_ts ts_a tb_a ts_b tb_b =
    sgn (ts_a * (num tb_a * den tb_b) - ts_b * (num tb_b * den tb_a))"
  using assms by (rule av_compare_ts_value)

theorem av_compare_ts_correct_witness:
  "av_compare_ts 900000000001 (mk_q 1 90000) 10000000 (mk_q 1 1) = 1"
  using av_compare_ts_correct [of "mk_q 1 90000" "mk_q 1 1" 900000000001 10000000]
  by (simp add: time_base_def)

text \<open>C25. For packets whose coarse input timestamps are the sample clock rounded to within half a
  tick, \<open>av_rescale_delta\<close> puts out exactly the rescaled sample clock: the input's jitter is
  removed and the counter advances by the durations.\<close>

theorem av_rescale_delta_follows_clock:
  assumes "time_base in_tb" "time_base fs_tb" "time_base out_tb"
    and "num out_tb * den in_tb < num in_tb * den out_tb"
    and "packets_in_tick in_tb fs_tb s pkts"
  shows "rescale_delta_run in_tb fs_tb out_tb s pkts =
    Some (map (\<lambda>s. av_rescale_q s fs_tb out_tb) (sample_clock s pkts))"
  using assms by (rule rescale_delta_run_clock)

theorem av_rescale_delta_follows_clock_witness:
  "rescale_delta_run (mk_q 1 1000) (mk_q 1 48000) (mk_q 1 90000) 1024 [(21, 1024), (43, 1024)] =
    Some (map (\<lambda>s. av_rescale_q s (mk_q 1 48000) (mk_q 1 90000)) [1024, 2048])"
  using av_rescale_delta_follows_clock
    [of "mk_q 1 1000" "mk_q 1 48000" "mk_q 1 90000" 1024 "[(21, 1024), (43, 1024)]"]
  by (simp add: time_base_def within_half_tick_def delta_in_range_def)

end
