(* ===== verification/Rational.thy ===== *)
theory Rational
  imports Complex_Main Mathematics
begin

section \<open>Rational numbers: \<open>libavutil/rational.c\<close> and \<open>rational.h\<close>\<close>

text \<open>
  \<open>AVRational\<close> is a pair of C \<open>int\<close>s.  \<open>av_reduce\<close> reduces a 64-bit fraction, or approximates it by
  continued fractions when the reduced fraction does not fit; the loop is kept as a \<open>while\<close> over
  the C variables, with a flag for the \<open>break\<close>.  The functions with \<open>double\<close> arguments or results
  (\<open>av_d2q\<close>, \<open>av_q2d\<close>) are not modelled.
\<close>

subsection \<open>Definitions\<close>

record reduce_state =
  r_a0 :: AVRational
  r_a1 :: AVRational
  r_num :: int
  r_den :: int
  r_break :: bool

definition reduce_step :: "int \<Rightarrow> reduce_state \<Rightarrow> reduce_state" where
  "reduce_step mx st =
     (let a0 = r_a0 st; a1 = r_a1 st; n = r_num st; d = r_den st;
          x = u64 (n sdiv d);
          next_den = s64 (u64 (n - d * x));
          a2n = s64 (u64 (x * num a1 + num a0));
          a2d = s64 (u64 (x * den a1 + den a0))
      in if a2n > mx \<or> a2d > mx
         then
           let x = (if num a1 \<noteq> 0 then u64 ((mx - num a0) sdiv num a1) else x);
               x = (if den a1 \<noteq> 0
                    then let m = u64 ((mx - den a0) sdiv den a1) in if x > m then m else x
                    else x);
               a1' = (if u64 (d * (2 * x * den a1 + den a0)) > u64 (n * den a1)
                      then mk_q (s32 (x * num a1 + num a0)) (s32 (x * den a1 + den a0)) else a1)
           in st\<lparr>r_a1 := a1', r_break := True\<rparr>
         else st\<lparr>r_a0 := a1, r_a1 := mk_q (s32 a2n) (s32 a2d), r_num := d, r_den := next_den\<rparr>)"

text \<open>The result is \<open>(*dst_num, *dst_den, return value)\<close>.\<close>

definition av_reduce :: "int \<Rightarrow> int \<Rightarrow> int \<Rightarrow> int \<times> int \<times> int" where
  "av_reduce n d mx =
     (let sign = ((n < 0) \<noteq> (d < 0));
          g = av_gcd (FFABS n) (FFABS d);
          (n, d) = (if g \<noteq> 0 then (FFABS n sdiv g, FFABS d sdiv g) else (n, d));
          (a1, d) = (if n \<le> mx \<and> d \<le> mx then (mk_q (s32 n) (s32 d), 0) else (mk_q 1 0, d));
          st = while (\<lambda>st. r_den st \<noteq> 0 \<and> \<not> r_break st) (reduce_step mx)
                 \<lparr>r_a0 = mk_q 0 1, r_a1 = a1, r_num = n, r_den = d, r_break = False\<rparr>;
          a1 = r_a1 st
      in (if sign then s32 (- num a1) else num a1, den a1, of_bool (r_den st = 0)))"

definition av_make_q :: "int \<Rightarrow> int \<Rightarrow> AVRational" where
  "av_make_q n d = mk_q n d"

definition av_cmp_q :: "AVRational \<Rightarrow> AVRational \<Rightarrow> int" where
  "av_cmp_q a b =
     (let tmp = s64 (num a * den b - num b * den a)
      in if tmp \<noteq> 0 then drop_bit 63 (tmp XOR den a XOR den b) OR 1
         else if den b \<noteq> 0 \<and> den a \<noteq> 0 then 0
         else if num a \<noteq> 0 \<and> num b \<noteq> 0 then drop_bit 31 (num a) - drop_bit 31 (num b)
         else INT_MIN)"

definition av_mul_q :: "AVRational \<Rightarrow> AVRational \<Rightarrow> AVRational" where
  "av_mul_q b c =
     (case av_reduce (num b * num c) (den b * den c) INT_MAX of (n, d, _) \<Rightarrow> mk_q n d)"

definition av_div_q :: "AVRational \<Rightarrow> AVRational \<Rightarrow> AVRational" where
  "av_div_q b c = av_mul_q b (mk_q (den c) (num c))"

definition av_add_q :: "AVRational \<Rightarrow> AVRational \<Rightarrow> AVRational" where
  "av_add_q b c =
     (case av_reduce (s64 (num b * den c + num c * den b)) (den b * den c) INT_MAX of
        (n, d, _) \<Rightarrow> mk_q n d)"

definition av_sub_q :: "AVRational \<Rightarrow> AVRational \<Rightarrow> AVRational" where
  "av_sub_q b c = av_add_q b (mk_q (s32 (- num c)) (den c))"

definition av_inv_q :: "AVRational \<Rightarrow> AVRational" where
  "av_inv_q q = mk_q (den q) (num q)"

definition av_nearer_q :: "AVRational \<Rightarrow> AVRational \<Rightarrow> AVRational \<Rightarrow> int" where
  "av_nearer_q q q1 q2 =
     (let a = s64 (num q1 * den q2 + num q2 * den q1);
          b = s64 (2 * den q1 * den q2);
          x_up = av_rescale_rnd a (den q) b AV_ROUND_UP;
          x_down = av_rescale_rnd a (den q) b AV_ROUND_DOWN
      in (of_bool (x_up > num q) - of_bool (x_down < num q)) * av_cmp_q q2 q1)"

text \<open>The list ends at the first entry with denominator 0; \<open>None\<close> is a read past an array that
  lacks this terminator.\<close>

function find_nearest_loop :: "AVRational \<Rightarrow> AVRational list \<Rightarrow> nat \<Rightarrow> nat \<Rightarrow> nat option" where
  "find_nearest_loop q q_list i nearest =
     (if i < length q_list
      then if den (q_list ! i) \<noteq> 0
           then find_nearest_loop q q_list (Suc i)
                  (if av_nearer_q q (q_list ! i) (q_list ! nearest) > 0 then i else nearest)
           else Some nearest
      else None)"
  by pat_completeness auto
termination
  by (relation "measure (\<lambda>(q, q_list, i, nearest). length q_list - i)") auto

definition av_find_nearest_q_idx :: "AVRational \<Rightarrow> AVRational list \<Rightarrow> nat option" where
  "av_find_nearest_q_idx q q_list = find_nearest_loop q q_list 0 0"

definition av_add_stable :: "AVRational \<Rightarrow> int \<Rightarrow> AVRational \<Rightarrow> int \<Rightarrow> int" where
  "av_add_stable ts_tb ts inc_tb inc =
     (let inc_tb = (if inc \<noteq> 1 then av_mul_q inc_tb (mk_q (s32 inc) 1) else inc_tb);
          m = num inc_tb * den ts_tb;
          d = den inc_tb * num ts_tb
      in if m smod d = 0 then s64 (ts + m sdiv d)
         else if m < d then ts
         else
           let old = av_rescale_q ts ts_tb inc_tb;
               old_ts = av_rescale_q old inc_tb ts_tb
           in s64 (av_rescale_q (s64 (old + 1)) inc_tb ts_tb + s64 (ts - old_ts)))"

definition q2intfloat_scale :: "AVRational \<Rightarrow> int \<Rightarrow> int" where
  "q2intfloat_scale q shift =
     (if shift \<ge> 0 then av_rescale (num q) (push_bit (nat shift) 1) (den q)
      else av_rescale (num q) 1 (push_bit (nat (- shift)) (den q)))"

definition av_q2intfloat :: "AVRational \<Rightarrow> int" where
  "av_q2intfloat q =
     (let q = (if den q < 0 then mk_q (s32 (num q * - 1)) (s32 (den q * - 1)) else q);
          (q, sign) = (if num q < 0 then (mk_q (s32 (num q * - 1)) (den q), 1) else (q, 0))
      in if num q = 0 \<and> den q = 0 then 0xFFC00000
         else if num q = 0 then 0
         else if den q = 0 then u32 (0x7F800000 OR (num q AND 0x80000000))
         else
           let shift = 23 + int (ff_log2_c (den q)) - int (ff_log2_c (num q));
               n = q2intfloat_scale q shift;
               shift = shift - of_bool (n \<ge> 16777216);
               shift = shift + of_bool (n < 8388608);
               n = q2intfloat_scale q shift
           in u32 (push_bit 31 sign OR push_bit 23 (150 - shift) OR (n - 8388608)))"

declare find_nearest_loop.simps [simp del]

subsection \<open>The continued-fraction loop\<close>

definition reduce_inv :: "int \<Rightarrow> int \<Rightarrow> int \<Rightarrow> reduce_state \<Rightarrow> bool" where
  "reduce_inv mx N D st \<longleftrightarrow>
     0 \<le> num (r_a1 st) \<and> num (r_a1 st) \<le> mx \<and> 0 \<le> den (r_a1 st) \<and> den (r_a1 st) \<le> mx \<and>
     gcd (num (r_a1 st)) (den (r_a1 st)) = 1 \<and>
     (r_break st \<longrightarrow> r_den st \<noteq> 0) \<and>
     (\<not> r_break st \<longrightarrow>
        0 \<le> num (r_a0 st) \<and> num (r_a0 st) \<le> mx \<and> 0 \<le> den (r_a0 st) \<and> den (r_a0 st) \<le> mx \<and>
        0 \<le> r_den st \<and> 0 < r_num st \<and> gcd (r_num st) (r_den st) = 1 \<and>
        num (r_a1 st) * r_num st + num (r_a0 st) * r_den st = N \<and>
        den (r_a1 st) * r_num st + den (r_a0 st) * r_den st = D \<and>
        \<bar>num (r_a1 st) * den (r_a0 st) - den (r_a1 st) * num (r_a0 st)\<bar> = 1)"

lemma det_coprime:
  assumes "\<bar>p * s - q * r\<bar> = (1::int)"
  shows "gcd p q = 1"
proof -
  have "gcd p q dvd p * s - q * r" by (intro dvd_diff dvd_mult2) simp_all
  then have "gcd p q dvd 1" using assms by (metis dvd_abs_iff)
  then show ?thesis by simp
qed

lemma det_combine: "\<bar>(x * p + r) * q - (x * q + s) * (p::int)\<bar> = \<bar>p * s - q * r\<bar>"
proof -
  have "(x * p + r) * q - (x * q + s) * p = - (p * s - q * r)" by (simp add: algebra_simps)
  then show ?thesis by (metis abs_minus_cancel)
qed

lemma convergent_bound:
  assumes "p * n + r * d = (N::int)" "0 \<le> p" "0 \<le> r" "0 < d" "0 \<le> n"
  shows "(n div d) * p + r \<le> N"
proof -
  have "(n div d) * d \<le> n" using assms by (simp add: minus_mod_eq_div_mult [symmetric])
  then have "p * ((n div d) * d) \<le> p * n" using assms by (intro mult_left_mono)
  then have "((n div d) * p + r) * d \<le> N" using assms by (simp add: algebra_simps)
  moreover have "0 \<le> (n div d) * p + r" using assms by (simp add: pos_imp_zdiv_nonneg_iff)
  then have "((n div d) * p + r) * 1 \<le> ((n div d) * p + r) * d" using assms by (intro mult_left_mono) auto
  ultimately show ?thesis by simp
qed

lemma semiconvergent_range:
  assumes p: "0 \<le> p" "0 \<le> q" "p \<le> mx" "q \<le> mx" and rs: "0 \<le> r" "0 \<le> s" "r \<le> mx" "s \<le> mx"
    and x: "0 \<le> x" and mx: "mx \<le> INT_MAX" and over: "x * p + r > mx \<or> x * q + s > mx"
    and y: "y = (let x = (if p \<noteq> 0 then u64 ((mx - r) sdiv p) else x)
                 in if q \<noteq> 0 then let m = u64 ((mx - s) sdiv q) in if x > m then m else x else x)"
  shows "0 \<le> y" "y * p + r \<le> mx" "y * q + s \<le> mx"
proof -
  have q1: "u64 ((mx - t) sdiv z) = (mx - t) div z" "0 \<le> (mx - t) div z" if "0 < z" "0 \<le> t" "t \<le> mx" for z t
  proof -
    show *: "0 \<le> (mx - t) div z" using that by (simp add: pos_imp_zdiv_nonneg_iff)
    have "(mx - t) div z \<le> mx" using that * by (cases "z = 1")
        (auto intro: order_trans [OF zdiv_mono2 [of "mx - t" 1 z]])
    with * show "u64 ((mx - t) sdiv z) = (mx - t) div z" using that mx by (simp add: sdiv_nonneg u64_id)
  qed
  have le: "y * z + t \<le> mx" if "0 < z" "y \<le> (mx - t) div z" for z t
    using that by (simp add: le_div_int)
  note yp = q1 [of p r] and yq = q1 [of q s]
  show "0 \<le> y" using y x p q1(2) [of p r] q1(2) [of q s] rs yp(1) yq(1) by (auto simp: Let_def)
  show "y * p + r \<le> mx"
    using y p rs yp(1) yq(1) le [of p r] by (cases "p = 0") (auto simp: Let_def split: if_splits)
  show "y * q + s \<le> mx"
    using y p rs yp(1) yq(1) le [of q s] by (cases "q = 0") (auto simp: Let_def split: if_splits)
qed

lemma reduce_step_inv:
  assumes inv: "reduce_inv mx N D st" and go: "r_den st \<noteq> 0" "\<not> r_break st"
    and mx: "1 \<le> mx" "mx \<le> INT_MAX" and ND: "0 \<le> N" "N \<le> INT64_MAX" "0 \<le> D" "D \<le> INT64_MAX"
  shows "reduce_inv mx N D (reduce_step mx st) \<and>
    nat (r_den (reduce_step mx st)) + of_bool (\<not> r_break (reduce_step mx st)) < nat (r_den st) + 1"
proof -
  obtain p q r s n d where st: "r_a1 st = mk_q p q" "r_a0 st = mk_q r s" "r_num st = n" "r_den st = d"
    by (metis AVRational.cases_scheme AVRational.surjective old.unit.exhaust)
  from inv go have I: "0 \<le> p" "p \<le> mx" "0 \<le> q" "q \<le> mx" "0 \<le> r" "r \<le> mx" "0 \<le> s" "s \<le> mx"
    "0 < n" "0 < d" "gcd n d = 1" "p * n + r * d = N" "q * n + s * d = D" "\<bar>p * s - q * r\<bar> = 1" "gcd p q = 1"
    by (auto simp: reduce_inv_def st)
  define x where "x = n div d"
  have x0: "0 \<le> x" using I by (simp add: x_def pos_imp_zdiv_nonneg_iff)
  have a2n: "x * p + r \<le> N" and a2d: "x * q + s \<le> D"
    using convergent_bound [of p n r d N] convergent_bound [of q n s d D] I by (simp_all add: x_def)
  have pos: "0 \<le> x * p + r" "0 \<le> x * q + s" using I x0 by simp_all
  have pq: "1 \<le> p \<or> 1 \<le> q" using I(1,3,15) by (cases "p = 0"; cases "q = 0") auto
  have n64: "n \<le> INT64_MAX"
    using pq
  proof
    assume "1 \<le> p"
    then have "1 * n \<le> p * n" using I by (intro mult_right_mono) auto
    moreover have "0 \<le> r * d" using I by simp
    ultimately show ?thesis using I(12) ND(2) by linarith
  next
    assume "1 \<le> q"
    then have "1 * n \<le> q * n" using I by (intro mult_right_mono) auto
    moreover have "0 \<le> s * d" using I by simp
    ultimately show ?thesis using I(13) ND(4) by linarith
  qed
  have xn: "x \<le> n" using I by (cases "d = 1") (auto simp: x_def intro: order_trans [OF zdiv_mono2 [of n 1 d]])
  have ux: "u64 (n sdiv d) = x" using I x0 xn n64 by (simp add: sdiv_nonneg x_def u64_id)
  have nd: "n - d * x = n mod d" by (simp add: x_def minus_mult_div_eq_mod)
  have mod: "0 \<le> n mod d" "n mod d < d" "n mod d \<le> n" using I by (simp_all add: zmod_le_nonneg_dividend)
  have und: "s64 (u64 (n - d * x)) = n mod d" unfolding nd using mod n64 by (simp add: u64_id s64_id)
  have un: "s64 (u64 (x * p + r)) = x * p + r" and ud: "s64 (u64 (x * q + s)) = x * q + s"
    using a2n a2d pos ND by (simp_all add: u64_id s64_id)
  show ?thesis
  proof (cases "x * p + r > mx \<or> x * q + s > mx")
    case False
    have step: "reduce_step mx st = st\<lparr>r_a0 := mk_q p q, r_a1 := mk_q (x * p + r) (x * q + s),
        r_num := d, r_den := n mod d\<rparr>"
      using False pos mx by (simp add: reduce_step_def Let_def st ux und un ud s32_id)
    have "gcd (x * p + r) (x * q + s) = 1"
      by (rule det_coprime [of _ q _ p]) (use det_combine [of x p r q s] I in \<open>simp add: algebra_simps\<close>)
    moreover have "gcd d (n mod d) = 1" using I(11) by (metis gcd.commute gcd_red_int)
    moreover have "(x * p + r) * d + p * (n mod d) = N" "(x * q + s) * d + q * (n mod d) = D"
      using I(12,13) by (simp_all add: nd [symmetric] algebra_simps)
    moreover have "\<bar>(x * p + r) * q - (x * q + s) * p\<bar> = 1" using det_combine [of x p r q s] I by simp
    ultimately show ?thesis
      using I False pos mod go by (auto simp: reduce_inv_def step st)
  next
    case True
    define y where "y = (let x = (if p \<noteq> 0 then u64 ((mx - r) sdiv p) else x)
                 in if q \<noteq> 0 then let m = u64 ((mx - s) sdiv q) in if x > m then m else x else x)"
    note yr = semiconvergent_range [OF I(1,3,2,4,5,7,6,8) x0 mx(2) True y_def]
    have y0: "0 \<le> y * p + r" "0 \<le> y * q + s" using yr(1) I by simp_all
    have y32: "s32 (y * p + r) = y * p + r" "s32 (y * q + s) = y * q + s"
      using yr(2,3) y0 mx(2) by (simp_all add: s32_id)
    have yx: "(if q \<noteq> 0
          then let m = u64 ((mx - s) sdiv q)
            in if m < (if p \<noteq> 0 then u64 ((mx - r) sdiv p) else x) then m
               else if p \<noteq> 0 then u64 ((mx - r) sdiv p) else x
          else if p \<noteq> 0 then u64 ((mx - r) sdiv p) else x) = y"
      by (simp only: y_def Let_def)
    have "gcd (y * p + r) (y * q + s) = 1"
      by (rule det_coprime [of _ q _ p]) (use det_combine [of y p r q s] I in \<open>simp add: algebra_simps\<close>)
    moreover have "reduce_step mx st = st\<lparr>r_a1 := (if u64 (d * (2 * y * q + s)) > u64 (n * q)
        then mk_q (y * p + r) (y * q + s) else mk_q p q), r_break := True\<rparr>"
      using True by (simp only: reduce_step_def Let_def st AVRational.select_convs ux und un ud if_True
          yx [unfolded Let_def] y32)
    ultimately show ?thesis using I yr go by (auto simp: reduce_inv_def st)
  qed
qed

lemma reduce_loop:
  assumes mx: "1 \<le> mx" "mx \<le> INT_MAX" and ND: "0 \<le> N" "N \<le> INT64_MAX" "0 \<le> D" "D \<le> INT64_MAX"
    and co: "gcd N D = 1" and big: "mx < N \<or> mx < D"
    and st: "st = while (\<lambda>st. r_den st \<noteq> 0 \<and> \<not> r_break st) (reduce_step mx)
                 \<lparr>r_a0 = mk_q 0 1, r_a1 = mk_q 1 0, r_num = N, r_den = D, r_break = False\<rparr>"
  shows "r_den st \<noteq> 0 \<and> 0 \<le> num (r_a1 st) \<and> num (r_a1 st) \<le> mx \<and> 0 \<le> den (r_a1 st) \<and>
    den (r_a1 st) \<le> mx \<and> gcd (num (r_a1 st)) (den (r_a1 st)) = 1"
proof -
  have "N \<noteq> 0" using co big mx by auto
  define s0 where "s0 = \<lparr>r_a0 = mk_q 0 1, r_a1 = mk_q 1 0, r_num = N, r_den = D, r_break = False\<rparr>"
  have init: "reduce_inv mx N D s0"
    using mx ND co \<open>N \<noteq> 0\<close> by (simp add: reduce_inv_def s0_def)
  have "reduce_inv mx N D st \<and> r_break st"
    unfolding st s0_def [symmetric]
  proof (rule while_rule [where P = "reduce_inv mx N D"
        and r = "measure (\<lambda>st. nat (r_den st) + of_bool (\<not> r_break st))"])
    show "reduce_inv mx N D s0" by (rule init)
  next
    fix s assume "reduce_inv mx N D s" "r_den s \<noteq> 0 \<and> \<not> r_break s"
    then show "reduce_inv mx N D (reduce_step mx s)" using reduce_step_inv mx ND by blast
  next
    fix s assume *: "reduce_inv mx N D s" "\<not> (r_den s \<noteq> 0 \<and> \<not> r_break s)"
    have "r_break s"
    proof (rule ccontr)
      assume nb: "\<not> r_break s"
      then have "r_den s = 0" using * by simp
      moreover from this have "r_num s = 1" using * nb by (auto simp: reduce_inv_def)
      ultimately have "num (r_a1 s) = N" "den (r_a1 s) = D" using * nb by (auto simp: reduce_inv_def)
      then show False using * big by (simp add: reduce_inv_def)
    qed
    with * show "reduce_inv mx N D s \<and> r_break s" by simp
  next
    show "wf (measure (\<lambda>st. nat (r_den st) + of_bool (\<not> r_break st)))" by simp
  next
    fix s assume "reduce_inv mx N D s" "r_den s \<noteq> 0 \<and> \<not> r_break s"
    then show "(reduce_step mx s, s) \<in> measure (\<lambda>st. nat (r_den st) + of_bool (\<not> r_break st))"
      using reduce_step_inv [of mx N D s] mx ND by simp
  qed
  then show ?thesis by (simp add: reduce_inv_def)
qed

lemma av_reduce_start:
  assumes n: "\<bar>n\<bar> \<le> INT64_MAX" "\<bar>d\<bar> \<le> INT64_MAX"
    and g: "g = gcd n d" "N = (if g = 0 then 0 else \<bar>n\<bar> div g)" "D = (if g = 0 then 0 else \<bar>d\<bar> div g)"
  shows "av_reduce n d mx =
     (let sign = ((n < 0) \<noteq> (d < 0));
          (a1, d) = (if N \<le> mx \<and> D \<le> mx then (mk_q (s32 N) (s32 D), 0) else (mk_q 1 0, D));
          st = while (\<lambda>st. r_den st \<noteq> 0 \<and> \<not> r_break st) (reduce_step mx)
                 \<lparr>r_a0 = mk_q 0 1, r_a1 = a1, r_num = N, r_den = d, r_break = False\<rparr>;
          a1 = r_a1 st
      in (if sign then s32 (- num a1) else num a1, den a1, of_bool (r_den st = 0)))"
proof -
  have F: "FFABS x = \<bar>x\<bar>" for x by (simp add: FFABS_def)
  have i: "int64 \<bar>n\<bar>" "int64 \<bar>d\<bar>" using n by (auto simp: int64_def)
  have "av_gcd \<bar>n\<bar> \<bar>d\<bar> = gcd \<bar>n\<bar> \<bar>d\<bar>"
    using av_gcd_nonneg [OF i] by simp
  then have G: "av_gcd \<bar>n\<bar> \<bar>d\<bar> = g" by (simp add: g(1))
  have g0: "0 \<le> g" by (simp add: g(1))
  show ?thesis
  proof (cases "g = 0")
    case True
    then show ?thesis using g by (simp add: av_reduce_def F G Let_def)
  next
    case False
    then have "\<bar>n\<bar> sdiv g = N" "\<bar>d\<bar> sdiv g = D" using g g0 by (simp_all add: sdiv_nonneg)
    with False show ?thesis by (simp only: av_reduce_def F G Let_def if_True split prod.case) simp
  qed
qed

lemma reduced_parts:
  fixes n d :: int
  assumes "g = gcd n d" "N = (if g = 0 then 0 else \<bar>n\<bar> div g)" "D = (if g = 0 then 0 else \<bar>d\<bar> div g)"
  shows "0 \<le> N" "0 \<le> D" "N \<le> \<bar>n\<bar>" "D \<le> \<bar>d\<bar>" "\<bar>n\<bar> = N * g" "\<bar>d\<bar> = D * g"
    "g \<noteq> 0 \<Longrightarrow> gcd N D = 1" "0 \<le> g"
proof -
  have g0: "0 \<le> g" by (simp only: assms(1) gcd_ge_0_int)
  then show "0 \<le> g" .
  show n0: "0 \<le> N" using g0 by (simp add: assms(2) pos_imp_zdiv_nonneg_iff)
  show d0: "0 \<le> D" using g0 by (simp add: assms(3) pos_imp_zdiv_nonneg_iff)
  have dv: "g dvd \<bar>n\<bar>" "g dvd \<bar>d\<bar>" by (simp_all only: assms(1) dvd_abs_iff gcd_dvd1 gcd_dvd2)
  show en: "\<bar>n\<bar> = N * g" using dv(1) by (cases "g = 0") (simp_all add: assms(2) del: dvd_abs_iff)
  show ed: "\<bar>d\<bar> = D * g" using dv(2) by (cases "g = 0") (simp_all add: assms(3) del: dvd_abs_iff)
  have le: "x \<le> x * g" if "0 \<le> x" "g = 0 \<longrightarrow> x = 0" for x
  proof (cases "g = 0")
    case False
    then show ?thesis using that g0 mult_left_mono [of 1 g x] by simp
  qed (use that in simp)
  show "N \<le> \<bar>n\<bar>" unfolding en using n0 by (intro le) (simp_all add: assms(2))
  show "D \<le> \<bar>d\<bar>" unfolding ed using d0 by (intro le) (simp_all add: assms(3))
  assume g: "g \<noteq> 0"
  have "gcd (N * g) (D * g) = g" by (simp only: en [symmetric] ed [symmetric] gcd_abs1_int gcd_abs2_int) (rule assms(1) [symmetric])
  moreover have "gcd (N * g) (D * g) = gcd N D * g"
    using g0 gcd_mult_distrib_int [of g N D] by (simp add: mult.commute)
  ultimately show "gcd N D = 1" using g by simp
qed

text \<open>The value of \<open>av_reduce\<close> when the reduced fraction fits, and what holds of it otherwise.\<close>

lemma av_reduce_fits:
  assumes n: "\<bar>n\<bar> \<le> INT64_MAX" "\<bar>d\<bar> \<le> INT64_MAX" and mx: "mx \<le> INT_MAX"
    and g: "g = gcd n d" "N = (if g = 0 then 0 else \<bar>n\<bar> div g)" "D = (if g = 0 then 0 else \<bar>d\<bar> div g)"
    and fits: "N \<le> mx" "D \<le> mx"
  shows "av_reduce n d mx = (if (n < 0) \<noteq> (d < 0) then - N else N, D, 1)"
  using fits mx reduced_parts [OF g]
  by (simp add: av_reduce_start [OF n g] Let_def while_unfold s32_id)

lemma av_reduce_approx:
  assumes n: "\<bar>n\<bar> \<le> INT64_MAX" "\<bar>d\<bar> \<le> INT64_MAX" and mx: "1 \<le> mx" "mx \<le> INT_MAX"
    and g: "g = gcd n d" "N = (if g = 0 then 0 else \<bar>n\<bar> div g)" "D = (if g = 0 then 0 else \<bar>d\<bar> div g)"
    and big: "mx < N \<or> mx < D"
  shows "\<exists>p q. av_reduce n d mx = (if (n < 0) \<noteq> (d < 0) then - p else p, q, 0) \<and>
    0 \<le> p \<and> p \<le> mx \<and> 0 \<le> q \<and> q \<le> mx \<and> gcd p q = 1"
proof -
  note r = reduced_parts [OF g]
  have "g \<noteq> 0" using big mx g by auto
  define st where "st = while (\<lambda>st. r_den st \<noteq> 0 \<and> \<not> r_break st) (reduce_step mx)
                 \<lparr>r_a0 = mk_q 0 1, r_a1 = mk_q 1 0, r_num = N, r_den = D, r_break = False\<rparr>"
  have "N \<le> INT64_MAX" "D \<le> INT64_MAX" using r n by auto
  from reduce_loop [OF mx r(1) this(1) r(2) this(2) r(7) big st_def] \<open>g \<noteq> 0\<close>
  have L: "r_den st \<noteq> 0" "0 \<le> num (r_a1 st)" "num (r_a1 st) \<le> mx" "0 \<le> den (r_a1 st)"
    "den (r_a1 st) \<le> mx" "gcd (num (r_a1 st)) (den (r_a1 st)) = 1" by auto
  have "av_reduce n d mx = (if (n < 0) \<noteq> (d < 0) then - num (r_a1 st) else num (r_a1 st), den (r_a1 st), 0)"
    using big L mx by (auto simp: av_reduce_start [OF n g] Let_def st_def [symmetric] s32_id)
  with L show ?thesis by (intro exI [of _ "num (r_a1 st)"] exI [of _ "den (r_a1 st)"] conjI)
qed

subsection \<open>What the operations compute\<close>

definition q_representable :: "int \<Rightarrow> int \<Rightarrow> int \<Rightarrow> bool" where
  "q_representable n d mx \<longleftrightarrow>
     (\<exists>p q. \<bar>p\<bar> \<le> mx \<and> 0 \<le> q \<and> q \<le> mx \<and> (p, q) \<noteq> (0, 0) \<and> p * d = n * q)"

definition reduce_spec :: "int \<Rightarrow> int \<Rightarrow> int \<Rightarrow> int \<times> int \<times> int \<Rightarrow> bool" where
  "reduce_spec n d mx = (\<lambda>(p, q, exact).
     \<bar>p\<bar> \<le> mx \<and> 0 \<le> q \<and> q \<le> mx \<and> ((n, d) \<noteq> (0, 0) \<longrightarrow> gcd p q = 1) \<and>
     (if q_representable n d mx then exact = 1 \<and> p * d = n * q else exact = 0))"

lemma representable_reduced:
  fixes n d :: int
  assumes g: "g = gcd n d" "N = (if g = 0 then 0 else \<bar>n\<bar> div g)" "D = (if g = 0 then 0 else \<bar>d\<bar> div g)"
    and mx: "1 \<le> mx"
  shows "q_representable n d mx \<longleftrightarrow> N \<le> mx \<and> D \<le> mx"
proof
  note r = reduced_parts [OF g]
  assume "q_representable n d mx"
  then obtain p q where pq: "\<bar>p\<bar> \<le> mx" "0 \<le> q" "q \<le> mx" "(p, q) \<noteq> (0, 0)" "p * d = n * q"
    by (auto simp: q_representable_def)
  show "N \<le> mx \<and> D \<le> mx"
  proof (cases "g = 0")
    case True
    then show ?thesis using g mx by simp
  next
    case False
    have "\<bar>p\<bar> * \<bar>d\<bar> = \<bar>n\<bar> * q" using pq by (metis abs_mult abs_of_nonneg)
    then have "\<bar>p\<bar> * D * g = N * q * g" by (simp only: r(5,6) mult.assoc mult.left_commute mult.commute)
    then have e: "\<bar>p\<bar> * D = N * q" using False by simp
    have co: "coprime N D" using r(7) False by (simp add: coprime_iff_gcd_eq_1)
    have "N dvd \<bar>p\<bar>" using e co by (metis coprime_dvd_mult_left_iff dvd_triv_left)
    then obtain k where k: "\<bar>p\<bar> = N * k" ..
    have "D dvd q" using e co by (metis coprime_commute coprime_dvd_mult_right_iff dvd_triv_right)
    then obtain l where l: "q = D * l" ..
    have "N \<noteq> 0 \<or> D \<noteq> 0" using co by auto
    have "1 \<le> k \<or> N = 0 \<and> 1 \<le> l"
    proof (cases "N = 0")
      case True
      then have "q \<noteq> 0" using k pq(4) by auto
      then show ?thesis using l pq(2) r(2) True by (metis linorder_not_less mult_eq_0_iff mult_le_0_iff order_less_le zless_imp_add1_zle add_0)
    next
      case False
      have "k \<noteq> 0"
      proof
        assume "k = 0"
        then have "p = 0" using k by simp
        then have "q = 0" using e False by simp
        with \<open>p = 0\<close> pq(4) show False by simp
      qed
      moreover have "0 \<le> N * k" using k by (metis abs_ge_zero)
      then have "0 \<le> k" using False r(1) by (simp add: zero_le_mult_iff)
      ultimately show ?thesis by simp
    qed
    then show ?thesis
    proof
      assume k1: "1 \<le> k"
      have "N * 1 \<le> N * k" using k1 r(1) by (intro mult_left_mono) auto
      moreover have "D \<le> mx"
      proof (cases "N = 0")
        case True
        then have "D = 1" using r(2) co by simp
        then show ?thesis using mx by simp
      next
        case False
        have "N * (k * D) = N * (D * l)" using e k l by (simp add: mult.assoc)
        then have "q = D * k" using False l by auto
        moreover have "D * 1 \<le> D * k" using k1 r(2) by (intro mult_left_mono) auto
        ultimately show ?thesis using pq(3) by simp
      qed
      ultimately show ?thesis using k pq(1) by simp
    next
      assume "N = 0 \<and> 1 \<le> l"
      moreover have "D * 1 \<le> D * l" using calculation r(2) by (intro mult_left_mono) auto
      ultimately show ?thesis using l pq(3) mx by simp
    qed
  qed
next
  note r = reduced_parts [OF g]
  assume le: "N \<le> mx \<and> D \<le> mx"
  show "q_representable n d mx"
  proof (cases "g = 0")
    case True
    then have "n = 0 \<and> d = 0" using g by simp
    then show ?thesis using mx by (auto simp: q_representable_def intro!: exI [of _ 1])
  next
    case False
    have "(N, D) \<noteq> (0, 0)" using r(7) False by auto
    define s where "s = (if d < 0 then - 1 else 1 :: int)"
    have "s * (sgn n * N) * d = n * D"
    proof -
      have "n = sgn n * (N * g)" by (simp only: r(5) [symmetric] sgn_mult_abs)
      have "s * d = D * g" by (simp only: r(6) [symmetric] s_def) simp
      then have "s * (sgn n * N) * d = sgn n * N * (D * g)" by (simp add: mult.commute mult.left_commute)
      also have "\<dots> = sgn n * (N * g) * D" by (simp only: ac_simps)
      finally show ?thesis using \<open>n = sgn n * (N * g)\<close> by simp
    qed
    moreover have "\<bar>s * (sgn n * N)\<bar> \<le> mx" using le r(1) by (simp add: abs_mult abs_sgn_eq s_def)
    moreover have "(s * (sgn n * N), D) \<noteq> (0, 0)"
      using \<open>(N, D) \<noteq> (0, 0)\<close> r(5) False by (auto simp: sgn_eq_0_iff s_def split: if_splits)
    ultimately show ?thesis unfolding q_representable_def using le r(2)
      by (intro exI [of _ "s * (sgn n * N)"] exI [of _ D]) simp
  qed
qed

lemma av_reduce_value:
  assumes n: "\<bar>n\<bar> \<le> INT64_MAX" "\<bar>d\<bar> \<le> INT64_MAX" and mx: "1 \<le> mx" "mx \<le> INT_MAX"
  shows "reduce_spec n d mx (av_reduce n d mx)"
proof -
  define g N D where g: "g = gcd n d" "N = (if g = 0 then 0 else \<bar>n\<bar> div g)" "D = (if g = 0 then 0 else \<bar>d\<bar> div g)"
  note r = reduced_parts [OF g]
  show ?thesis
  proof (cases "N \<le> mx \<and> D \<le> mx")
    case True
    have e: "(if (n < 0) \<noteq> (d < 0) then - N else N) * d = n * D"
    proof -
      have "N * \<bar>d\<bar> = \<bar>n\<bar> * D" unfolding r(5,6) by simp
      then show ?thesis by (auto simp: abs_if split: if_splits)
    qed
    have "gcd (if (n < 0) \<noteq> (d < 0) then - N else N) D = 1" if "(n, d) \<noteq> (0, 0)"
      using r(7) that g(1) by (auto split: if_splits)
    then show ?thesis
      using True r(1,2) e representable_reduced [OF g mx(1)] av_reduce_fits [OF n mx(2) g]
      by (auto simp: reduce_spec_def)
  next
    case False
    then have "mx < N \<or> mx < D" by auto
    from av_reduce_approx [OF n mx g this] representable_reduced [OF g mx(1)] False
    show ?thesis by (auto simp: reduce_spec_def)
  qed
qed

text \<open>The number a fraction denotes.\<close>

definition qval :: "AVRational \<Rightarrow> real" where
  "qval q = of_int (num q) / of_int (den q)"

text \<open>An ordinary fraction: a positive denominator and components within \<open>INT_MAX\<close>.\<close>

definition q_ok :: "AVRational \<Rightarrow> bool" where
  "q_ok q \<longleftrightarrow> \<bar>num q\<bar> \<le> INT_MAX \<and> 0 < den q \<and> den q \<le> INT_MAX"

definition q_exists :: "real \<Rightarrow> bool" where
  "q_exists x \<longleftrightarrow> (\<exists>r. q_ok r \<and> qval r = x)"

lemma qval_reduced:
  assumes spec: "reduce_spec n d INT_MAX (p, q, e)" and d: "0 < d"
    and ex: "q_exists (of_int n / of_int d)"
  shows "q_ok (mk_q p q) \<and> qval (mk_q p q) = of_int n / of_int d \<and> gcd p q = 1"
proof -
  from ex obtain r where r: "q_ok r" "qval r = of_int n / of_int d" by (auto simp: q_exists_def)
  have "(of_int (num r * d) :: real) = of_int (n * den r)"
    using r d by (simp add: qval_def q_ok_def field_simps)
  then have "num r * d = n * den r" by (simp only: of_int_eq_iff)
  then have "q_representable n d INT_MAX"
    unfolding q_representable_def using r(1) by (intro exI [of _ "num r"] exI [of _ "den r"]) (simp add: q_ok_def)
  then have s: "\<bar>p\<bar> \<le> INT_MAX" "0 \<le> q" "q \<le> INT_MAX" "p * d = n * q" "gcd p q = 1"
    using spec d by (auto simp: reduce_spec_def)
  have "q \<noteq> 0" using s d by auto
  then have "0 < q" using s by simp
  moreover have "(of_int (p * d) :: real) = of_int (n * q)" using s by (simp only:)
  ultimately show ?thesis using s d by (simp add: q_ok_def qval_def field_simps)
qed

lemma q_ok_product_bound:
  assumes "\<bar>x\<bar> \<le> INT_MAX" "\<bar>y\<bar> \<le> INT_MAX"
  shows "\<bar>x * y\<bar> \<le> INT_MAX * INT_MAX"
  using assms by (simp only: abs_mult) (intro mult_mono; simp)

lemma av_mul_q_value:
  assumes b: "q_ok b" and c: "q_ok c" and ex: "q_exists (qval b * qval c)"
  shows "q_ok (av_mul_q b c) \<and> qval (av_mul_q b c) = qval b * qval c"
proof -
  obtain p q e where r: "av_reduce (num b * num c) (den b * den c) INT_MAX = (p, q, e)" by (metis prod_cases3)
  have "\<bar>num b * num c\<bar> \<le> INT64_MAX" "\<bar>den b * den c\<bar> \<le> INT64_MAX"
    using q_ok_product_bound [of "num b" "num c"] q_ok_product_bound [of "den b" "den c"] b c by (simp_all add: q_ok_def)
  then have s: "reduce_spec (num b * num c) (den b * den c) INT_MAX (p, q, e)"
    using av_reduce_value [of "num b * num c" "den b * den c" INT_MAX] r by simp
  have "0 < den b * den c" using b c by (simp add: q_ok_def)
  from qval_reduced [OF s this] ex show ?thesis
    by (simp add: av_mul_q_def r) (simp add: qval_def)
qed

lemma av_div_q_value:
  assumes b: "q_ok b" and c: "q_ok c" "0 < num c" and ex: "q_exists (qval b / qval c)"
  shows "q_ok (av_div_q b c) \<and> qval (av_div_q b c) = qval b / qval c"
proof -
  have i: "q_ok (mk_q (den c) (num c))" "qval b / qval c = qval b * qval (mk_q (den c) (num c))"
    using c by (auto simp: q_ok_def qval_def)
  show ?thesis using ex unfolding av_div_q_def i(2) by (intro av_mul_q_value b i(1))
qed

lemma av_add_q_value:
  assumes b: "q_ok b" and c: "q_ok c" and ex: "q_exists (qval b + qval c)"
  shows "q_ok (av_add_q b c) \<and> qval (av_add_q b c) = qval b + qval c"
proof -
  define n where "n = num b * den c + num c * den b"
  have bn: "\<bar>num b * den c\<bar> \<le> INT_MAX * INT_MAX" "\<bar>num c * den b\<bar> \<le> INT_MAX * INT_MAX"
    "\<bar>den b * den c\<bar> \<le> INT64_MAX"
    using q_ok_product_bound [of "num b" "den c"] q_ok_product_bound [of "num c" "den b"]
      q_ok_product_bound [of "den b" "den c"] b c by (simp_all add: q_ok_def)
  then have n: "\<bar>n\<bar> \<le> INT64_MAX" unfolding n_def by linarith
  then have s64n: "s64 n = n" by (simp add: s64_id)
  obtain p q e where r: "av_reduce n (den b * den c) INT_MAX = (p, q, e)" by (metis prod_cases3)
  have s: "reduce_spec n (den b * den c) INT_MAX (p, q, e)"
    using av_reduce_value [OF n bn(3), of INT_MAX] r by simp
  have pos: "0 < den b * den c" using b c by (simp add: q_ok_def)
  have v: "of_int n / of_int (den b * den c) = qval b + qval c"
    using b c by (simp add: n_def qval_def q_ok_def field_simps)
  from qval_reduced [OF s pos] ex v show ?thesis
    by (simp add: av_add_q_def r n_def [symmetric] s64n)
qed

lemma av_sub_q_value:
  assumes b: "q_ok b" and c: "q_ok c" and ex: "q_exists (qval b - qval c)"
  shows "q_ok (av_sub_q b c) \<and> qval (av_sub_q b c) = qval b - qval c"
proof -
  have "s32 (- num c) = - num c" using c by (simp add: q_ok_def abs_le_iff s32_id)
  then have i: "q_ok (mk_q (s32 (- num c)) (den c))"
    "qval b - qval c = qval b + qval (mk_q (s32 (- num c)) (den c))"
    using c by (auto simp: q_ok_def qval_def)
  show ?thesis using ex unfolding av_sub_q_def i(2) by (intro av_add_q_value b i(1))
qed

subsection \<open>Comparison\<close>

lemma div_neg_one:
  assumes "0 < c" "- c \<le> x" "x < (0::int)"
  shows "x div c = - 1"
proof -
  have "- 1 \<le> x div c" "x div c < 0"
    using assms le_div_int [of c "- 1" x] div_less_int [of c x 0] by simp_all
  then show ?thesis by simp
qed

lemma drop_bit_top:
  assumes "int64 x"
  shows "drop_bit 63 x OR 1 = (if x < 0 then - 1 else 1)"
proof -
  have "drop_bit 63 x = (if x < 0 then - 1 else 0)"
    using assms by (simp add: drop_bit_eq_div int64_def div_neg_one zdiv_eq_0_iff)
  then show ?thesis by simp
qed

lemma int32_sign: "int32 x \<Longrightarrow> drop_bit 31 x = (if x < 0 then - 1 else 0)"
  by (simp add: drop_bit_eq_div int32_def div_neg_one zdiv_eq_0_iff)

lemma int64_xor:
  assumes "int64 x" "int64 y"
  shows "int64 (x XOR y)"
proof -
  have s: "signed_take_bit 63 z = z \<longleftrightarrow> int64 z" for z :: int
    by (simp add: signed_take_bit_int_eq_self_iff int64_def) linarith
  have "signed_take_bit 63 (x XOR y) = signed_take_bit 63 x XOR signed_take_bit 63 y"
    by (rule bit_eqI) (simp add: bit_signed_take_bit_iff bit_xor_iff)
  then show ?thesis using assms s by metis
qed

definition cross :: "AVRational \<Rightarrow> AVRational \<Rightarrow> int" where
  "cross a b = num a * den b - num b * den a"

lemma int32_product: "int32 x \<Longrightarrow> int32 y \<Longrightarrow> \<bar>x * y\<bar> \<le> 4611686018427387904"
  using mult_mono [of "\<bar>x\<bar>" 2147483648 "\<bar>y\<bar>" 2147483648]
  by (simp only: int32_def abs_mult) (simp add: abs_le_iff)

lemma av_cmp_q_value:
  assumes r: "int32 (num a)" "int32 (den a)" "int32 (num b)" "int32 (den b)"
    and a: "\<bar>num a\<bar> \<le> INT_MAX"
  shows "av_cmp_q a b =
    (if cross a b \<noteq> 0 then sgn (cross a b) * (if (den a < 0) \<noteq> (den b < 0) then - 1 else 1)
     else if den a \<noteq> 0 \<and> den b \<noteq> 0 then 0
     else if num a \<noteq> 0 \<and> num b \<noteq> 0 then of_bool (num b < 0) - of_bool (num a < 0)
     else INT_MIN)"
proof -
  have b1: "\<bar>num a * den b\<bar> \<le> 4611686016279904256"
    using r(4) a mult_mono [of "\<bar>num a\<bar>" INT_MAX "\<bar>den b\<bar>" 2147483648]
    by (simp only: int32_def abs_mult) (simp add: abs_le_iff)
  have b2: "\<bar>num b * den a\<bar> \<le> 4611686018427387904" by (rule int32_product) (use r in auto)
  have c: "s64 (cross a b) = cross a b" "int64 (cross a b)"
    using b1 b2 by (simp_all add: cross_def s64_id int64_def abs_le_iff)
  have "int64 (den a)" "int64 (den b)" using r by (auto simp: int32_def int64_def)
  then have x: "int64 (cross a b XOR den a XOR den b)" using c by (simp add: int64_xor)
  have d31: "drop_bit 31 (num a) = - of_bool (num a < 0)" "drop_bit 31 (num b) = - of_bool (num b < 0)"
    using r by (simp_all add: int32_sign)
  have sg: "(cross a b XOR den a XOR den b < 0) = ((cross a b < 0) \<noteq> ((den a < 0) \<noteq> (den b < 0)))"
    by (auto simp: xor_negative_int_iff)
  show ?thesis
    unfolding av_cmp_q_def Let_def cross_def [symmetric] c(1) drop_bit_top [OF x] sg d31
    by (auto simp: sgn_if)
qed

subsection \<open>The nearest fraction of a list\<close>

lemma midpoint_bound:
  assumes "q_ok q1" "q_ok q2"
  defines "a \<equiv> num q1 * den q2 + num q2 * den q1" and "b \<equiv> 2 * den q1 * den q2"
  shows "\<bar>a\<bar> \<le> INT_MAX * b" "\<bar>a\<bar> \<le> INT64_MAX" "0 < b" "b \<le> INT64_MAX"
proof -
  have le: "\<bar>num x * den y\<bar> \<le> INT_MAX * (den x * den y)" if "q_ok x" "q_ok y" for x y
  proof -
    have "\<bar>num x\<bar> * den y \<le> INT_MAX * den y" using that by (intro mult_right_mono) (auto simp: q_ok_def)
    also have "\<dots> \<le> INT_MAX * (den x * den y)"
      using that mult_right_mono [of 1 "den x" "den y"] by (simp add: q_ok_def)
    finally show ?thesis using that by (simp add: abs_mult q_ok_def)
  qed
  show "\<bar>a\<bar> \<le> INT_MAX * b"
    using le [OF assms(1,2)] le [OF assms(2,1)] unfolding a_def b_def
    by (simp only: mult.commute [of "den q2"] mult.assoc)
  show "\<bar>a\<bar> \<le> INT64_MAX"
    using q_ok_product_bound [of "num q1" "den q2"] q_ok_product_bound [of "num q2" "den q1"] assms(1,2)
    unfolding a_def q_ok_def by (simp add: abs_le_iff)
  show "0 < b" using assms(1,2) by (simp add: b_def q_ok_def)
  show "b \<le> INT64_MAX"
    using q_ok_product_bound [of "den q1" "den q2"] assms(1,2) by (simp add: b_def q_ok_def)
qed

lemma av_nearer_q_sign:
  assumes q: "q_ok q" and q1: "q_ok q1" and q2: "q_ok q2"
  defines "a \<equiv> num q1 * den q2 + num q2 * den q1" and "b \<equiv> 2 * den q1 * den q2"
  shows "av_nearer_q q q1 q2 = sgn (a * den q - num q * b) * sgn (cross q2 q1)"
proof -
  note B = midpoint_bound [OF q1 q2, folded a_def b_def]
  have dq: "0 < den q" "den q \<le> INT_MAX" using q by (simp_all add: q_ok_def)
  have "\<bar>a * den q\<bar> \<le> (INT_MAX * b) * INT_MAX"
    unfolding abs_mult using B dq by (intro mult_mono) auto
  then have ad: "- (INT_MAX * INT_MAX * b) \<le> a * den q" "a * den q \<le> INT_MAX * INT_MAX * b"
    by (simp_all add: abs_le_iff)
  define m where "m = a * den q"
  have lo: "- 4611686014132420609 \<le> z div b \<and> z div b \<le> 4611686014132420609" if "z = m \<or> z = - m" for z
  proof
    show "- 4611686014132420609 \<le> z div b" using ad that B(3) by (auto simp: le_div_int m_def)
    have "z < 4611686014132420610 * b" using ad that B(3) by (auto simp: m_def)
    then have "z div b < 4611686014132420610" using B(3) by (simp only: div_less_int)
    then show "z div b \<le> 4611686014132420609" by simp
  qed
  have mx: "max a (- INT64_MAX) = a" using B(2) by (simp add: abs_le_iff)
  have i: "int64 a" using B(2) by (simp add: int64_def abs_le_iff)
  have up: "av_rescale_rnd a (den q) b AV_ROUND_UP = - (- m div b)"
    using rescale_rnd_value [of AV_ROUND_UP a "den q" b] i dq B lo [of "- m"] mx
    by (simp add: rounding_mode_def round_div_def round_modes m_def fits64_def)
  have down: "av_rescale_rnd a (den q) b AV_ROUND_DOWN = m div b"
    using rescale_rnd_value [of AV_ROUND_DOWN a "den q" b] i dq B lo [of m] mx
    by (simp add: rounding_mode_def round_div_def round_modes m_def fits64_def)
  have "- (- m div b) > num q \<longleftrightarrow> m > num q * b"
    using div_less_int [OF B(3), of "- m" "- num q"] by auto
  moreover have "m div b < num q \<longleftrightarrow> m < num q * b" using div_less_int [OF B(3)] by simp
  moreover have "s64 a = a" "s64 b = b" using B by (simp_all add: s64_id abs_le_iff)
  moreover have "av_cmp_q q2 q1 = sgn (cross q2 q1)"
    using av_cmp_q_value [of q2 q1] q1 q2 by (simp add: q_ok_def int32_def abs_le_iff)
  ultimately show ?thesis
    by (auto simp: av_nearer_q_def Let_def a_def [symmetric] b_def [symmetric] up down m_def sgn_if)
qed

definition q_dist :: "AVRational \<Rightarrow> AVRational \<Rightarrow> real" where
  "q_dist q x = \<bar>qval q - qval x\<bar>"

lemma nearer_reals: "sgn ((x + y) / 2 - z) * sgn (y - x) = sgn (\<bar>z - y\<bar> - \<bar>z - x\<bar>)" for x y z :: real
  by (auto simp: sgn_if abs_if field_simps)

lemma sgn_of_int_real: "real_of_int (sgn x) = sgn (of_int x)"
  by (simp add: sgn_if)

lemma av_nearer_q_value:
  assumes q: "q_ok q" and q1: "q_ok q1" and q2: "q_ok q2"
  shows "av_nearer_q q q1 q2 > 0 \<longleftrightarrow> q_dist q q1 < q_dist q q2"
    and "av_nearer_q q q1 q2 < 0 \<longleftrightarrow> q_dist q q2 < q_dist q q1"
proof -
  have p: "0 < den q" "0 < den q1" "0 < den q2" using q q1 q2 by (simp_all add: q_ok_def)
  define a b where "a = num q1 * den q2 + num q2 * den q1" and "b = 2 * den q1 * den q2"
  have "real_of_int (a * den q - num q * b) = ((qval q1 + qval q2) / 2 - qval q) * (of_int (den q * b))"
    using p by (simp add: a_def b_def qval_def field_simps)
  then have s1: "real_of_int (sgn (a * den q - num q * b)) = sgn ((qval q1 + qval q2) / 2 - qval q)"
    using p by (simp only: sgn_of_int_real sgn_mult) (simp add: b_def sgn_if)
  have "real_of_int (cross q2 q1) = (qval q2 - qval q1) * (of_int (den q1 * den q2))"
    using p by (simp add: cross_def qval_def field_simps)
  then have s2: "real_of_int (sgn (cross q2 q1)) = sgn (qval q2 - qval q1)"
    using p by (simp only: sgn_of_int_real sgn_mult) (simp add: sgn_if)
  have "real_of_int (av_nearer_q q q1 q2) = sgn (q_dist q q2 - q_dist q q1)"
    unfolding av_nearer_q_sign [OF q q1 q2, folded a_def b_def] of_int_mult s1 s2 nearer_reals q_dist_def ..
  then show "av_nearer_q q q1 q2 > 0 \<longleftrightarrow> q_dist q q1 < q_dist q q2"
    and "av_nearer_q q q1 q2 < 0 \<longleftrightarrow> q_dist q q2 < q_dist q q1"
    by (simp_all add: sgn_if split: if_splits)
qed

lemma find_nearest_loop_value:
  assumes q: "q_ok q" and xs: "\<forall>x \<in> set xs. q_ok x" and t: "den t = 0"
    and i: "i \<le> length xs" "k < length xs" and k: "k < i \<or> i = 0 \<and> k = 0"
    and inv: "\<forall>j < i. q_dist q (xs ! k) \<le> q_dist q (xs ! j)" "\<forall>j < k. q_dist q (xs ! k) < q_dist q (xs ! j)"
  shows "\<exists>m. find_nearest_loop q (xs @ t # rest) i k = Some m \<and> m < length xs \<and>
    (\<forall>j < length xs. q_dist q (xs ! m) \<le> q_dist q (xs ! j)) \<and> (\<forall>j < m. q_dist q (xs ! m) < q_dist q (xs ! j))"
  using i k inv
proof (induction "length xs - i" arbitrary: i k)
  case 0
  then have "i = length xs" by simp
  with 0 t show ?case by (subst find_nearest_loop.simps) simp
next
  case (Suc l)
  then have il: "i < length xs" by simp
  then have ok: "q_ok (xs ! i)" "q_ok (xs ! k)" using xs Suc.prems by simp_all
  define k' where "k' = (if av_nearer_q q (xs ! i) (xs ! k) > 0 then i else k)"
  have step: "find_nearest_loop q (xs @ t # rest) i k = find_nearest_loop q (xs @ t # rest) (Suc i) k'"
    using il ok Suc.prems by (subst find_nearest_loop.simps) (simp add: nth_append k'_def q_ok_def)
  have near: "av_nearer_q q (xs ! i) (xs ! k) > 0 \<longleftrightarrow> q_dist q (xs ! i) < q_dist q (xs ! k)"
    by (rule av_nearer_q_value(1) [OF q ok])
  have "\<forall>j < Suc i. q_dist q (xs ! k') \<le> q_dist q (xs ! j)"
    using Suc.prems near by (auto simp: k'_def less_Suc_eq)
  moreover have "\<forall>j < k'. q_dist q (xs ! k') < q_dist q (xs ! j)"
    using Suc.prems near by (auto simp: k'_def)
  ultimately show ?case
    unfolding step using Suc il by (intro Suc.hyps(1)) (auto simp: k'_def)
qed

subsection \<open>Conversion to a single-precision bit pattern\<close>

lemma push_bit_or_low:
  assumes "0 \<le> y" "y < 2 ^ k"
  shows "push_bit k x OR y = x * 2 ^ k + (y :: int)"
proof -
  have y: "y = take_bit k y" using assms by (simp add: take_bit_int_eq_self)
  have "push_bit k x AND take_bit k y = 0"
    by (rule bit_eqI) (auto simp: bit_and_iff bit_push_bit_iff bit_take_bit_iff)
  then have "push_bit k x AND y = 0" by (simp only: y [symmetric])
  then show ?thesis using plus_and_or [of "push_bit k x" y] by (simp add: push_bit_eq_mult)
qed

definition scaled :: "AVRational \<Rightarrow> int \<Rightarrow> real" where
  "scaled q s = of_int (num q) / of_int (den q) * 2 powi s"

lemma floor_half_div:
  assumes "0 < (c::int)"
  shows "(2 * m + c) div (2 * c) = \<lfloor>of_int m / of_int c + (1 / 2 :: real)\<rfloor>"
proof -
  have "of_int m / of_int c + 1 / 2 = (of_int (2 * m + c) / of_int (2 * c) :: real)"
    using assms by (simp add: field_simps)
  then show ?thesis by (simp only: floor_divide_of_int_eq)
qed

lemma rescale_near_value:
  assumes "0 < a" "a \<le> INT_MAX" "0 \<le> b" "b \<le> INT64_MAX" "0 < c" "c \<le> INT64_MAX"
    and v: "v = of_int a * of_int b / (of_int c :: real)" and small: "v < 33554432"
  shows "av_rescale a b c = \<lfloor>v + 1 / 2\<rfloor>"
proof -
  have "round_div AV_ROUND_NEAR_INF (a * b) c = \<lfloor>v + 1 / 2\<rfloor>"
  proof (cases "b = 0")
    case True
    then show ?thesis using assms by (simp add: round_div_def round_modes)
  next
    case False
    then show ?thesis using assms floor_half_div [of c "a * b"]
      by (simp add: round_div_def round_modes sgn_if)
  qed
  moreover have "0 \<le> v" using v assms(1,3,5) by simp
  then have "0 \<le> \<lfloor>v + 1 / 2\<rfloor>" "\<lfloor>v + 1 / 2\<rfloor> \<le> 33554433" using small by linarith+
  then have "fits64 \<lfloor>v + 1 / 2\<rfloor> = \<lfloor>v + 1 / 2\<rfloor>" by (intro fits64_small) linarith
  ultimately show ?thesis
    using rescale_rnd_value [of AV_ROUND_NEAR_INF a b c] assms(1-6)
    by (simp add: av_rescale_def rounding_mode_def int64_def)
qed

lemma powi_nat: "0 \<le> s \<Longrightarrow> (2 :: real) powi s = of_int (2 ^ nat s)"
  by (metis of_int_numeral of_int_power power_int_of_nat nat_0_le)

lemma q2intfloat_scale_value:
  assumes q: "q_ok q" "0 < num q" and s: "- 30 \<le> s" "s \<le> 62" and small: "scaled q s < 33554432"
  shows "q2intfloat_scale q s = \<lfloor>scaled q s + 1 / 2\<rfloor>"
proof (cases "s \<ge> 0")
  case True
  have "(2::int) ^ nat s \<le> 2 ^ 62" using s by (intro power_increasing) auto
  then show ?thesis
    using True q rescale_near_value [of "num q" "2 ^ nat s" "den q" "scaled q s"] small
    by (simp add: q2intfloat_scale_def push_bit_eq_mult q_ok_def scaled_def powi_nat)
next
  case False
  have "(2::int) ^ nat (- s) \<le> 2 ^ 30" using s by (intro power_increasing) auto
  moreover then have "den q * 2 ^ nat (- s) \<le> INT_MAX * 2 ^ 30"
    using q by (intro mult_mono) (auto simp: q_ok_def)
  moreover have "2 powi s = 1 / real_of_int (2 ^ nat (- s))"
    using False powi_nat [of "- s"] by (simp add: power_int_minus inverse_eq_divide [symmetric])
      (metis inverse_inverse_eq)
  ultimately show ?thesis
    using False q rescale_near_value [of "num q" 1 "den q * 2 ^ nat (- s)" "scaled q s"] small
    by (simp add: q2intfloat_scale_def push_bit_eq_mult q_ok_def scaled_def mult.commute)
qed

lemma scaled_Suc: "scaled q (s + 1) = 2 * scaled q s"
  by (simp add: scaled_def power_int_add_1)

lemma scaled_first:
  assumes q: "q_ok q" "0 < num q"
  defines "s \<equiv> 23 + int (ff_log2_c (den q)) - int (ff_log2_c (num q))"
  shows "4194304 < scaled q s" "scaled q s < 16777216" "- 8 \<le> s" "s \<le> 54"
proof -
  have r: "0 < num q" "num q < 2 ^ 31" "0 < den q" "den q < 2 ^ 31" using q by (auto simp: q_ok_def)
  define i j where "i = ff_log2_c (den q)" and "j = ff_log2_c (num q)"
  have L: "2 ^ i \<le> den q" "den q < 2 ^ (i + 1)" "2 ^ j \<le> num q" "num q < 2 ^ (j + 1)"
    using ff_log2_c_correct [of "den q"] ff_log2_c_correct [of "num q"] r by (simp_all add: i_def j_def)
  have "(2::int) ^ i < 2 ^ 31" "(2::int) ^ j < 2 ^ 31" using L r by linarith+
  then have "i < 31" "j < 31" using power_less_imp_less_exp [of "2::int"] by (metis one_less_numeral_iff semiring_norm(76))+
  then show "- 8 \<le> s" "s \<le> 54" by (simp_all add: s_def i_def [symmetric] j_def [symmetric])
  have p: "2 powi s = 8388608 * 2 ^ i / (2 ^ j :: real)"
    by (simp add: s_def i_def [symmetric] j_def [symmetric] power_int_add power_int_diff)
  have R: "(2::real) ^ i \<le> of_int (den q)" "of_int (den q) < (2::real) * 2 ^ i"
    "(2::real) ^ j \<le> of_int (num q)" "of_int (num q) < (2::real) * 2 ^ j"
    using L(1)[folded of_int_le_iff [where 'a = real]] L(2)[folded of_int_less_iff [where 'a = real]]
      L(3)[folded of_int_le_iff [where 'a = real]] L(4)[folded of_int_less_iff [where 'a = real]] by simp_all
  have pos: "0 < (2::real) ^ i" "0 < (2::real) ^ j" "0 < real_of_int (den q)" "0 < real_of_int (num q)" using r by simp_all
  have "of_int (den q) * (2::real) ^ j < 2 * (of_int (num q) * 2 ^ i)"
    using mult_strict_mono [OF R(2) , of "2 ^ j" "of_int (num q)"] R(3) pos
      mult_less_le_imp_less [OF R(2) R(3)] by (simp add: mult.commute mult.left_commute)
  then show "4194304 < scaled q s" using pos by (simp add: scaled_def p field_simps)
  have "of_int (num q) * (2::real) ^ i < 2 * (of_int (den q) * 2 ^ j)"
    using mult_less_le_imp_less [OF R(4) R(1)] pos by (simp add: mult.commute mult.left_commute)
  then show "scaled q s < 16777216" using pos by (simp add: scaled_def p field_simps)
qed

definition q2intfloat_shift :: "AVRational \<Rightarrow> int" where
  "q2intfloat_shift q =
     (let shift = 23 + int (ff_log2_c (den q)) - int (ff_log2_c (num q));
          n = q2intfloat_scale q shift;
          shift = shift - of_bool (n \<ge> 16777216)
      in shift + of_bool (n < 8388608))"

lemma q2intfloat_mantissa:
  assumes q: "q_ok q" "0 < num q"
  defines "s \<equiv> q2intfloat_shift q"
  shows "- 9 \<le> s" "s \<le> 55" "8388608 \<le> q2intfloat_scale q s" "q2intfloat_scale q s < 16777216"
    "\<bar>of_int (q2intfloat_scale q s) - scaled q s\<bar> \<le> 1 / 2"
proof -
  define s0 where "s0 = 23 + int (ff_log2_c (den q)) - int (ff_log2_c (num q))"
  note F = scaled_first [OF q, folded s0_def]
  have n0: "q2intfloat_scale q s0 = \<lfloor>scaled q s0 + 1 / 2\<rfloor>"
    using q F by (intro q2intfloat_scale_value) auto
  have s: "s = s0 - of_bool (q2intfloat_scale q s0 \<ge> 16777216) + of_bool (q2intfloat_scale q s0 < 8388608)"
    by (simp add: s_def q2intfloat_shift_def Let_def s0_def)
  then show r: "- 9 \<le> s" "s \<le> 55" using F by auto
  have sc: "8388608 \<le> scaled q s + 1 / 2 \<and> scaled q s + 1 / 2 < 16777216"
  proof -
    consider "16777216 \<le> q2intfloat_scale q s0" | "q2intfloat_scale q s0 < 8388608"
      | "8388608 \<le> q2intfloat_scale q s0" "q2intfloat_scale q s0 < 16777216" by linarith
    then show ?thesis
    proof cases
      case 1
      then have "s = s0 - 1" by (simp add: s)
      then have "scaled q s0 = 2 * scaled q s" using scaled_Suc [of q "s0 - 1"] by simp
      moreover have "16777216 \<le> scaled q s0 + 1 / 2" using 1 n0 by linarith
      ultimately show ?thesis using F(2) by linarith
    next
      case 2
      then have "s = s0 + 1" by (simp add: s)
      then have "scaled q s = 2 * scaled q s0" using scaled_Suc [of q s0] by simp
      moreover have "scaled q s0 + 1 / 2 < 8388608" using 2 n0 by linarith
      ultimately show ?thesis using F(1) by linarith
    next
      case 3
      then have "s = s0" by (simp add: s)
      moreover have "8388608 \<le> scaled q s0 + 1 / 2" "scaled q s0 + 1 / 2 < 16777216"
        using 3 n0 by linarith+
      ultimately show ?thesis by simp
    qed
  qed
  have n: "q2intfloat_scale q s = \<lfloor>scaled q s + 1 / 2\<rfloor>"
    using q r sc by (intro q2intfloat_scale_value) auto
  show "8388608 \<le> q2intfloat_scale q s" "q2intfloat_scale q s < 16777216"
    using sc unfolding n by linarith+
  show "\<bar>of_int (q2intfloat_scale q s) - scaled q s\<bar> \<le> 1 / 2"
    unfolding n by linarith
qed

text \<open>The number a bit pattern of a normal single-precision value denotes.\<close>

definition intfloat_exp :: "int \<Rightarrow> int" where
  "intfloat_exp w = drop_bit 23 w mod 256"

definition intfloat_val :: "int \<Rightarrow> real" where
  "intfloat_val w = (if drop_bit 31 w mod 2 = 1 then - 1 else 1) * of_int (w mod 8388608 + 8388608) *
     2 powi (intfloat_exp w - 150)"

definition q_flip :: "AVRational \<Rightarrow> AVRational" where
  "q_flip q = mk_q \<bar>num q\<bar> \<bar>den q\<bar>"

lemma q2intfloat_bits:
  assumes q: "\<bar>num q\<bar> \<le> INT_MAX" "\<bar>den q\<bar> \<le> INT_MAX" "num q \<noteq> 0" "den q \<noteq> 0"
  defines "s \<equiv> q2intfloat_shift (q_flip q)"
  shows "av_q2intfloat q = (if (num q < 0) \<noteq> (den q < 0) then 2147483648 else 0) + (150 - s) * 8388608 +
    (q2intfloat_scale (q_flip q) s - 8388608)"
proof -
  have f: "q_ok (q_flip q)" "0 < num (q_flip q)" using q by (auto simp: q_ok_def q_flip_def)
  note M = q2intfloat_mantissa [OF f, folded s_def]
  define m where "m = q2intfloat_scale (q_flip q) s - 8388608"
  have m: "0 \<le> m" "m < 2 ^ 23" using M by (simp_all add: m_def)
  define sg :: int where "sg = of_bool ((num q < 0) \<noteq> (den q < 0))"
  have e: "0 \<le> (150 - s) * 8388608" "(150 - s) * 8388608 + m < 2147483648" using M m by simp_all
  obtain n d where nd: "q = mk_q n d" by (cases q) auto
  have "av_q2intfloat q = u32 (push_bit 31 sg OR push_bit 23 (150 - s) OR m)"
    using q by (auto simp: nd av_q2intfloat_def Let_def s_def q2intfloat_shift_def q_flip_def m_def sg_def
        s32_id abs_le_iff split: if_splits)
  also have "push_bit 31 sg OR push_bit 23 (150 - s) OR m = sg * 2 ^ 31 + ((150 - s) * 2 ^ 23 + m)"
    unfolding or.assoc push_bit_or_low [OF m] using e m by (intro push_bit_or_low) auto
  also have "u32 \<dots> = \<dots>" using e m by (intro u32_id) (auto simp: sg_def)
  finally show ?thesis by (simp add: m_def sg_def)
qed

lemma pow2_digits:
  fixes e m sg :: int
  assumes "0 \<le> m" "m < 8388608" "0 \<le> e" "e < 256" "sg = 0 \<or> sg = 1"
  defines "w \<equiv> sg * 2147483648 + e * 8388608 + m"
  shows "intfloat_exp w = e" "w mod 8388608 = m" "drop_bit 31 w mod 2 = sg"
proof -
  have w: "w = m + (sg * 256 + e) * 8388608" by (simp add: w_def)
  have d: "w div 8388608 = sg * 256 + e" using assms(1,2) unfolding w by simp
  show "w mod 8388608 = m" using assms(1,2) unfolding w mod_mult_self1 by simp
  show "intfloat_exp w = e" using assms(3,4) d by (simp add: intfloat_exp_def drop_bit_eq_div)
  have "w div 2147483648 = (w div 8388608) div 256" by (simp add: zdiv_zmult2_eq [symmetric])
  also have "\<dots> = sg" using assms(3,4) unfolding d by simp
  finally show "drop_bit 31 w mod 2 = sg" using assms(5) by (auto simp: drop_bit_eq_div)
qed

lemma av_q2intfloat_nearest:
  assumes q: "\<bar>num q\<bar> \<le> INT_MAX" "\<bar>den q\<bar> \<le> INT_MAX" "num q \<noteq> 0" "den q \<noteq> 0"
  shows "0 < intfloat_exp (av_q2intfloat q) \<and> intfloat_exp (av_q2intfloat q) < 255 \<and>
    \<bar>intfloat_val (av_q2intfloat q) - qval q\<bar> \<le> 2 powi (intfloat_exp (av_q2intfloat q) - 151)"
proof -
  define s where "s = q2intfloat_shift (q_flip q)"
  define n where "n = q2intfloat_scale (q_flip q) s"
  define sg :: int where "sg = of_bool ((num q < 0) \<noteq> (den q < 0))"
  have f: "q_ok (q_flip q)" "0 < num (q_flip q)" using q by (auto simp: q_ok_def q_flip_def)
  note M = q2intfloat_mantissa [OF f, folded s_def, folded n_def]
  have w: "av_q2intfloat q = sg * 2147483648 + (150 - s) * 8388608 + (n - 8388608)"
    using q2intfloat_bits [OF q] by (simp add: s_def n_def sg_def)
  have D: "intfloat_exp (av_q2intfloat q) = 150 - s" "av_q2intfloat q mod 8388608 = n - 8388608"
    "drop_bit 31 (av_q2intfloat q) mod 2 = sg"
    unfolding w using M by (intro pow2_digits; auto simp: sg_def)+
  define sn :: real where "sn = (if sg = 1 then - 1 else 1)"
  have v: "intfloat_val (av_q2intfloat q) = sn * (of_int n * 2 powi (- s))"
    by (simp add: intfloat_val_def D sn_def)
  have qv: "qval q = sn * (scaled (q_flip q) s * 2 powi (- s))"
  proof -
    have "scaled (q_flip q) s * 2 powi (- s) = \<bar>of_int (num q)\<bar> / \<bar>of_int (den q)\<bar>"
      by (simp add: scaled_def q_flip_def power_int_minus)
    then show ?thesis using q by (auto simp: qval_def sn_def sg_def abs_if field_simps)
  qed
  have e: "150 - s - 151 = - s - 1" by simp
  have sa: "\<bar>sn\<bar> = 1" by (simp add: sn_def)
  have "\<bar>intfloat_val (av_q2intfloat q) - qval q\<bar> = \<bar>of_int n - scaled (q_flip q) s\<bar> * 2 powi (- s)"
    unfolding v qv right_diff_distrib [symmetric] left_diff_distrib [symmetric] abs_mult sa by simp
  also have "\<dots> \<le> 1 / 2 * 2 powi (- s)" by (intro mult_right_mono M(5)) simp
  also have "\<dots> = 2 powi (- s - 1)" by (simp add: power_int_diff)
  finally show ?thesis using M(1,2) unfolding D e by (intro conjI) linarith+
qed

subsection \<open>Properties\<close>

text \<open>C24. \<open>av_reduce\<close> returns a fraction in lowest terms with both parts within \<open>max\<close>; it reports
  exactness (result 1) precisely when the input equals some fraction within those bounds, and then
  returns that fraction; otherwise it reports an approximation (result 0).\<close>

theorem av_reduce_correct:
  assumes "\<bar>n\<bar> \<le> INT64_MAX" "\<bar>d\<bar> \<le> INT64_MAX" "1 \<le> mx" "mx \<le> INT_MAX"
  shows "case av_reduce n d mx of (p, q, exact) \<Rightarrow>
     \<bar>p\<bar> \<le> mx \<and> 0 \<le> q \<and> q \<le> mx \<and> ((n, d) \<noteq> (0, 0) \<longrightarrow> gcd p q = 1) \<and>
     (if q_representable n d mx then exact = 1 \<and> p * d = n * q else exact = 0)"
  using av_reduce_value [OF assms] by (simp add: reduce_spec_def)

theorem av_reduce_correct_witness:
  "case av_reduce (- 9000000000) 6000000000 100 of (p, q, exact) \<Rightarrow> \<bar>p\<bar> \<le> 100 \<and> 0 \<le> q \<and> q \<le> 100 \<and> gcd p q = 1"
  using av_reduce_correct [of "- 9000000000" 6000000000 100] by (simp add: case_prod_unfold)

text \<open>Addition, subtraction and multiplication of fractions are exact whenever the exact result
  is a fraction of two C integers, and the result is again an ordinary fraction.\<close>

theorem av_q_arithmetic_exact:
  assumes "q_ok b" "q_ok c"
  shows "(q_exists (qval b * qval c) \<longrightarrow> q_ok (av_mul_q b c) \<and> qval (av_mul_q b c) = qval b * qval c) \<and>
    (q_exists (qval b + qval c) \<longrightarrow> q_ok (av_add_q b c) \<and> qval (av_add_q b c) = qval b + qval c) \<and>
    (q_exists (qval b - qval c) \<longrightarrow> q_ok (av_sub_q b c) \<and> qval (av_sub_q b c) = qval b - qval c) \<and>
    (0 < num c \<and> q_exists (qval b / qval c) \<longrightarrow> q_ok (av_div_q b c) \<and> qval (av_div_q b c) = qval b / qval c)"
  using av_mul_q_value [OF assms] av_add_q_value [OF assms] av_sub_q_value [OF assms] av_div_q_value [OF assms]
  by blast

theorem av_q_arithmetic_exact_witness:
  "qval (av_add_q (mk_q 1 2) (mk_q 1 3)) = 5 / 6 \<and> qval (av_mul_q (mk_q 2 3) (mk_q 3 4)) = 1 / 2"
proof -
  have "q_exists (5 / 6)" unfolding q_exists_def
    by (rule exI [of _ "mk_q 5 6"]) (simp add: q_ok_def qval_def)
  moreover have "q_exists (1 / 2)" unfolding q_exists_def
    by (rule exI [of _ "mk_q 1 2"]) (simp add: q_ok_def qval_def)
  ultimately show ?thesis
    using av_q_arithmetic_exact [of "mk_q 1 2" "mk_q 1 3"] av_q_arithmetic_exact [of "mk_q 2 3" "mk_q 3 4"]
    by (simp add: q_ok_def qval_def)
qed

text \<open>\<open>av_find_nearest_q_idx\<close> returns the first index at which the distance to \<open>q\<close> is minimal
  over the entries before the terminator.\<close>

theorem av_find_nearest_q_idx_minimal:
  assumes "q_ok q" "\<forall>x \<in> set xs. q_ok x" "xs \<noteq> []" "den t = 0"
  shows "\<exists>m. av_find_nearest_q_idx q (xs @ t # rest) = Some m \<and> m < length xs \<and>
    (\<forall>j < length xs. q_dist q (xs ! m) \<le> q_dist q (xs ! j)) \<and> (\<forall>j < m. q_dist q (xs ! m) < q_dist q (xs ! j))"
  unfolding av_find_nearest_q_idx_def using assms by (intro find_nearest_loop_value) auto

theorem av_find_nearest_q_idx_minimal_witness:
  "\<exists>m. av_find_nearest_q_idx (mk_q 24 1) [mk_q 24000 1001, mk_q 25 1, mk_q 0 0] = Some m \<and> m < 2"
  using av_find_nearest_q_idx_minimal [of "mk_q 24 1" "[mk_q 24000 1001, mk_q 25 1]" "mk_q 0 0" "[]"]
  by (auto simp: q_ok_def)

text \<open>For a fraction with nonzero parts \<open>av_q2intfloat\<close> builds the bit pattern of a normal single
  precision number within half a unit of its last place of the fraction, the sign included.\<close>

theorem av_q2intfloat_half_ulp:
  assumes "\<bar>num q\<bar> \<le> INT_MAX" "\<bar>den q\<bar> \<le> INT_MAX" "num q \<noteq> 0" "den q \<noteq> 0"
  shows "0 < intfloat_exp (av_q2intfloat q) \<and> intfloat_exp (av_q2intfloat q) < 255 \<and>
    \<bar>intfloat_val (av_q2intfloat q) - qval q\<bar> \<le> 2 powi (intfloat_exp (av_q2intfloat q) - 151)"
  by (rule av_q2intfloat_nearest [OF assms])

theorem av_q2intfloat_half_ulp_witness:
  "0 < intfloat_exp (av_q2intfloat (mk_q (- 1) 3)) \<and> intfloat_exp (av_q2intfloat (mk_q (- 1) 3)) < 255"
  using av_q2intfloat_half_ulp [of "mk_q (- 1) 3"] by simp

text \<open>Minus infinity, the fraction \<open>-1/0\<close>, is converted to the bit pattern of plus infinity: the
  sign is removed before the branch that would read it.\<close>

theorem av_q2intfloat_minus_infinity:
  "av_q2intfloat (mk_q (- 1) 0) = 0x7F800000 \<and> av_q2intfloat (mk_q 1 0) = 0x7F800000"
  by (simp add: av_q2intfloat_def s32_def u32_def)

end
