(* ===== verification/Bytes.thy ===== *)
theory Bytes
  imports Clib
begin

section \<open>Byte access and block chaining\<close>

text \<open>
  The fixed-width reads and writes of \<open>libavutil/intreadwrite.h\<close>, big and little endian.  A pointer
  into a buffer is the list of bytes from there on, so a read looks at the first bytes of a list and
  a write gives the bytes it stores.

  The locale \<open>block_mode\<close> is the contract the block ciphers share: one block can be decrypted again,
  and the buffer function processes block after block, in CBC mode when it is given an
  initialisation vector.  What follows for whole buffers is proved once here and obtained by each
  cipher from an interpretation on its own model.
\<close>

definition AV_RB16 :: "byte list \<Rightarrow> 16 word" where
  "AV_RB16 p = push_bit 8 (ucast (p ! 0)) OR ucast (p ! 1)"

definition AV_WB16 :: "16 word \<Rightarrow> byte list" where
  "AV_WB16 d = [ucast (drop_bit 8 d), ucast d]"

definition AV_RL16 :: "byte list \<Rightarrow> 16 word" where
  "AV_RL16 p = push_bit 8 (ucast (p ! 1)) OR ucast (p ! 0)"

definition AV_WL16 :: "16 word \<Rightarrow> byte list" where
  "AV_WL16 d = [ucast d, ucast (drop_bit 8 d)]"

definition AV_RB32 :: "byte list \<Rightarrow> 32 word" where
  "AV_RB32 p = push_bit 24 (ucast (p ! 0)) OR push_bit 16 (ucast (p ! 1)) OR
     push_bit 8 (ucast (p ! 2)) OR ucast (p ! 3)"

definition AV_WB32 :: "32 word \<Rightarrow> byte list" where
  "AV_WB32 d = [ucast (drop_bit 24 d), ucast (drop_bit 16 d), ucast (drop_bit 8 d), ucast d]"

definition AV_RL32 :: "byte list \<Rightarrow> 32 word" where
  "AV_RL32 p = push_bit 24 (ucast (p ! 3)) OR push_bit 16 (ucast (p ! 2)) OR
     push_bit 8 (ucast (p ! 1)) OR ucast (p ! 0)"

definition AV_WL32 :: "32 word \<Rightarrow> byte list" where
  "AV_WL32 d = [ucast d, ucast (drop_bit 8 d), ucast (drop_bit 16 d), ucast (drop_bit 24 d)]"

definition AV_RB64 :: "byte list \<Rightarrow> 64 word" where
  "AV_RB64 p = push_bit 56 (ucast (p ! 0)) OR push_bit 48 (ucast (p ! 1)) OR
     push_bit 40 (ucast (p ! 2)) OR push_bit 32 (ucast (p ! 3)) OR
     push_bit 24 (ucast (p ! 4)) OR push_bit 16 (ucast (p ! 5)) OR
     push_bit 8 (ucast (p ! 6)) OR ucast (p ! 7)"

definition AV_WB64 :: "64 word \<Rightarrow> byte list" where
  "AV_WB64 d = [ucast (drop_bit 56 d), ucast (drop_bit 48 d), ucast (drop_bit 40 d),
     ucast (drop_bit 32 d), ucast (drop_bit 24 d), ucast (drop_bit 16 d), ucast (drop_bit 8 d), ucast d]"

definition AV_RL64 :: "byte list \<Rightarrow> 64 word" where
  "AV_RL64 p = push_bit 56 (ucast (p ! 7)) OR push_bit 48 (ucast (p ! 6)) OR
     push_bit 40 (ucast (p ! 5)) OR push_bit 32 (ucast (p ! 4)) OR
     push_bit 24 (ucast (p ! 3)) OR push_bit 16 (ucast (p ! 2)) OR
     push_bit 8 (ucast (p ! 1)) OR ucast (p ! 0)"

definition AV_WL64 :: "64 word \<Rightarrow> byte list" where
  "AV_WL64 d = [ucast d, ucast (drop_bit 8 d), ucast (drop_bit 16 d), ucast (drop_bit 24 d),
     ucast (drop_bit 32 d), ucast (drop_bit 40 d), ucast (drop_bit 48 d), ucast (drop_bit 56 d)]"

definition xor_bytes :: "byte list \<Rightarrow> byte list \<Rightarrow> byte list" where
  "xor_bytes xs ys = map2 (XOR) xs ys"

subsection \<open>Reading back what was written\<close>

named_theorems bytes_rw \<open>reads and writes of integers are inverse\<close>

lemma bit_ucast_byte: "bit (ucast (b :: byte) :: 'a::len word) n \<longleftrightarrow> n < LENGTH('a) \<and> n < 8 \<and> bit b n"
  by (auto simp: bit_simps dest: bit_imp_le_length)

lemma length_W [simp]:
  "length (AV_WB16 d) = 2" "length (AV_WL16 d) = 2" "length (AV_WB32 e) = 4" "length (AV_WL32 e) = 4"
  "length (AV_WB64 f) = 8" "length (AV_WL64 f) = 8"
  by (simp_all add: AV_WB16_def AV_WL16_def AV_WB32_def AV_WL32_def AV_WB64_def AV_WL64_def)

lemma bit_byte_high [simp]: "8 \<le> n \<Longrightarrow> \<not> bit (b :: byte) n"
  by (auto dest: bit_imp_le_length)

lemma byte_position:
  fixes n k :: nat
  assumes "n < 8 * k"
  obtains i m where "n = 8 * i + m" "m < 8" "i < k"
  by (rule that [of "n div 8" "n mod 8"]) (use assms in auto)

lemma less_4_cases: "i < 4 \<longleftrightarrow> i = 0 \<or> i = 1 \<or> i = 2 \<or> i = (3 :: nat)"
  by auto

lemma less_8_cases: "i < 8 \<longleftrightarrow> i = 0 \<or> i = 1 \<or> i = 2 \<or> i = 3 \<or> i = 4 \<or> i = 5 \<or> i = 6 \<or> i = (7 :: nat)"
  by auto

lemma bit_eqI_bytes:
  fixes v w :: "'a::len word"
  assumes "LENGTH('a) = 8 * k" "\<And>i m. i < k \<Longrightarrow> m < 8 \<Longrightarrow> bit v (8 * i + m) = bit w (8 * i + m)"
  shows "v = w"
proof (rule bit_word_eqI)
  fix n assume "n < LENGTH('a)"
  then have "n < 8 * k" using assms(1) by simp
  then show "bit v n = bit w n" by (rule byte_position) (use assms(2) in simp)
qed

lemma bit_eqI_16:
  fixes v w :: "16 word"
  assumes "\<And>m. m < 8 \<Longrightarrow> bit v m = bit w m" "\<And>m. m < 8 \<Longrightarrow> bit v (8 + m) = bit w (8 + m)"
  shows "v = w"
  by (rule bit_eqI_bytes [of 2]) (use assms in \<open>auto simp: numeral_2_eq_2 less_Suc_eq\<close>)

lemma bit_eqI_32:
  fixes v w :: "32 word"
  assumes "\<And>m. m < 8 \<Longrightarrow> bit v m = bit w m" "\<And>m. m < 8 \<Longrightarrow> bit v (8 + m) = bit w (8 + m)"
    "\<And>m. m < 8 \<Longrightarrow> bit v (16 + m) = bit w (16 + m)" "\<And>m. m < 8 \<Longrightarrow> bit v (24 + m) = bit w (24 + m)"
  shows "v = w"
  by (rule bit_eqI_bytes [of 4]) (use assms in \<open>auto simp: less_4_cases\<close>)

lemma bit_eqI_64:
  fixes v w :: "64 word"
  assumes "\<And>m. m < 8 \<Longrightarrow> bit v m = bit w m" "\<And>m. m < 8 \<Longrightarrow> bit v (8 + m) = bit w (8 + m)"
    "\<And>m. m < 8 \<Longrightarrow> bit v (16 + m) = bit w (16 + m)" "\<And>m. m < 8 \<Longrightarrow> bit v (24 + m) = bit w (24 + m)"
    "\<And>m. m < 8 \<Longrightarrow> bit v (32 + m) = bit w (32 + m)" "\<And>m. m < 8 \<Longrightarrow> bit v (40 + m) = bit w (40 + m)"
    "\<And>m. m < 8 \<Longrightarrow> bit v (48 + m) = bit w (48 + m)" "\<And>m. m < 8 \<Longrightarrow> bit v (56 + m) = bit w (56 + m)"
  shows "v = w"
proof (rule bit_eqI_bytes [of 8])
  fix i m :: nat assume "i < 8" "m < 8"
  then show "bit v (8 * i + m) = bit w (8 * i + m)"
    unfolding less_8_cases [of i] by (elim disjE) (simp_all add: assms)
qed simp

lemma rw16 [bytes_rw]: "AV_RB16 (AV_WB16 d @ r) = d" "AV_RL16 (AV_WL16 d @ r) = d"
  by (rule bit_eqI_16; simp add: AV_RB16_def AV_WB16_def AV_RL16_def AV_WL16_def bit_simps)+

lemma rw32 [bytes_rw]: "AV_RB32 (AV_WB32 d @ r) = d" "AV_RL32 (AV_WL32 d @ r) = d"
  by (rule bit_eqI_32; simp add: AV_RB32_def AV_WB32_def AV_RL32_def AV_WL32_def bit_simps)+

lemma byte_bits [simp]:
  "m < 8 \<Longrightarrow> bit (ucast (drop_bit k (d :: 'a::len word)) :: byte) m \<longleftrightarrow> bit d (k + m)"
  "m < 8 \<Longrightarrow> bit (ucast (d :: 'a::len word) :: byte) m \<longleftrightarrow> bit d m"
  by (auto simp: bit_simps dest: bit_imp_le_length)

lemma bit_push_byte:
  "j < 64 \<Longrightarrow> bit (push_bit i (ucast (b :: byte)) :: 64 word) j \<longleftrightarrow> i \<le> j \<and> j - i < 8 \<and> bit b (j - i)"
  "j < 64 \<Longrightarrow> bit (ucast (b :: byte) :: 64 word) j \<longleftrightarrow> j < 8 \<and> bit b j"
  by (auto simp: bit_simps dest: bit_imp_le_length)

lemma rw64 [bytes_rw]: "AV_RB64 (AV_WB64 d @ r) = d" "AV_RL64 (AV_WL64 d @ r) = d"
  by (rule bit_eqI_64; simp add: AV_RB64_def AV_WB64_def AV_RL64_def AV_WL64_def bit_or_iff bit_push_byte bit_drop_bit_eq
      del: bit_byte_high)+

lemma list_of_length4: "4 \<le> length p \<Longrightarrow> take 4 p = [p ! 0, p ! 1, p ! 2, p ! 3]"
  by (rule nth_equalityI) (auto simp: less_4_cases)

lemma list_of_length8: "8 \<le> length p \<Longrightarrow> take 8 p = [p ! 0, p ! 1, p ! 2, p ! 3, p ! 4, p ! 5, p ! 6, p ! 7]"
  by (rule nth_equalityI) (auto simp: less_8_cases)

lemma wr32 [bytes_rw]:
  "4 \<le> length p \<Longrightarrow> AV_WB32 (AV_RB32 p) = take 4 p" "4 \<le> length p \<Longrightarrow> AV_WL32 (AV_RL32 p) = take 4 p"
  by (simp_all add: list_of_length4 AV_RB32_def AV_WB32_def AV_RL32_def AV_WL32_def)
    (intro conjI bit_word_eqI; simp add: bit_simps; fail)+

lemma wr64 [bytes_rw]:
  "8 \<le> length p \<Longrightarrow> AV_WB64 (AV_RB64 p) = take 8 p" "8 \<le> length p \<Longrightarrow> AV_WL64 (AV_RL64 p) = take 8 p"
  by (simp_all add: list_of_length8 AV_RB64_def AV_WB64_def AV_RL64_def AV_WL64_def)
    (intro conjI bit_word_eqI; simp add: bit_simps; fail)+

lemma length_xor_bytes [simp]: "length (xor_bytes xs ys) = min (length xs) (length ys)"
  by (simp add: xor_bytes_def)

lemma nth_xor_bytes [simp]:
  "i < length xs \<Longrightarrow> i < length ys \<Longrightarrow> xor_bytes xs ys ! i = xs ! i XOR ys ! i"
  by (simp add: xor_bytes_def)

lemma xor_bytes_cancel: "length xs \<le> length ys \<Longrightarrow> xor_bytes (xor_bytes xs ys) ys = xs"
  by (rule nth_equalityI) (simp_all add: xor.assoc)

lemma xor_bytes_append:
  "length a = length c \<Longrightarrow> xor_bytes (a @ b) (c @ d) = xor_bytes a c @ xor_bytes b d"
  by (simp add: xor_bytes_def)

lemma W32_xor:
  "AV_WB32 (x XOR y) = xor_bytes (AV_WB32 x) (AV_WB32 y)"
  "AV_WL32 (x XOR y) = xor_bytes (AV_WL32 x) (AV_WL32 y)"
  by (simp_all add: AV_WB32_def AV_WL32_def xor_bytes_def drop_bit_xor unsigned_xor_eq)

lemma xor_W32 [bytes_rw]:
  "4 \<le> length p \<Longrightarrow> AV_WB32 (x XOR AV_RB32 p) = xor_bytes (AV_WB32 x) (take 4 p)"
  "4 \<le> length p \<Longrightarrow> AV_WL32 (x XOR AV_RL32 p) = xor_bytes (AV_WL32 x) (take 4 p)"
  by (simp_all add: W32_xor wr32)

text \<open>Blocks of two 32-bit words.\<close>

lemma block_words [bytes_rw]:
  "AV_RB32 (drop 4 (AV_WB32 x @ r)) = AV_RB32 r" "AV_RL32 (drop 4 (AV_WL32 x @ r)) = AV_RL32 r"
  "AV_RB32 (AV_WB32 x) = x" "AV_RL32 (AV_WL32 x) = x"
  using rw32 [of x "[]"] by simp_all

lemma words_block [bytes_rw]:
  "length b = 8 \<Longrightarrow> AV_WB32 (AV_RB32 b) @ AV_WB32 (AV_RB32 (drop 4 b)) = b"
  "length b = 8 \<Longrightarrow> AV_WL32 (AV_RL32 b) @ AV_WL32 (AV_RL32 (drop 4 b)) = b"
  by (simp_all add: wr32)

lemma R32_take8: "AV_RB32 (take 8 p) = AV_RB32 p" "AV_RL32 (take 8 p) = AV_RL32 p"
  "AV_RB32 (drop 4 (take 8 p)) = AV_RB32 (drop 4 p)" "AV_RL32 (drop 4 (take 8 p)) = AV_RL32 (drop 4 p)"
  by (simp_all add: AV_RB32_def AV_RL32_def drop_take)

lemma xor_block:
  assumes "length v = 8"
  shows "AV_WB32 (x XOR AV_RB32 v) @ AV_WB32 (y XOR AV_RB32 (drop 4 v)) = xor_bytes (AV_WB32 x @ AV_WB32 y) v"
    "AV_WL32 (x XOR AV_RL32 v) @ AV_WL32 (y XOR AV_RL32 (drop 4 v)) = xor_bytes (AV_WL32 x @ AV_WL32 y) v"
  using assms xor_bytes_append [of "AV_WB32 x" "take 4 v" "AV_WB32 y" "drop 4 v"]
    xor_bytes_append [of "AV_WL32 x" "take 4 v" "AV_WL32 y" "drop 4 v"]
  by (simp_all add: xor_W32)

subsection \<open>Iterated steps\<close>

lemma funpow_inverse:
  fixes f g :: "'a \<Rightarrow> 'a"
  assumes "\<And>x. g (f x) = x"
  shows "(g ^^ n) ((f ^^ n) x) = x"
proof (induction n arbitrary: x)
  case (Suc n)
  have "(g ^^ Suc n) ((f ^^ Suc n) x) = (g ^^ n) (g (f ((f ^^ n) x)))" by (simp add: funpow_swap1)
  also have "\<dots> = x" by (simp add: assms Suc)
  finally show ?case .
qed simp

lemma fold_rev_inverse:
  assumes "\<And>a x. a \<in> set as \<Longrightarrow> g a (f a x) = x"
  shows "fold g (rev as) (fold f as x) = x"
  using assms by (induction as arbitrary: x) simp_all

subsection \<open>Buffers of blocks\<close>

text \<open>\<open>crypt n src iv decrypt\<close> is the call on \<open>n\<close> blocks; its result is what is stored at \<open>dst\<close> and
  the vector left in \<open>iv\<close>, \<open>None\<close> for a null pointer.\<close>

definition iv_ok :: "nat \<Rightarrow> byte list option \<Rightarrow> bool" where
  "iv_ok bs iv \<longleftrightarrow> (case iv of None \<Rightarrow> True | Some v \<Rightarrow> length v = bs)"

locale block_mode =
  fixes bs :: nat
    and enc dec :: "byte list \<Rightarrow> byte list"
    and crypt :: "nat \<Rightarrow> byte list \<Rightarrow> byte list option \<Rightarrow> bool \<Rightarrow> byte list \<times> byte list option"
  assumes enc_length: "length b = bs \<Longrightarrow> length (enc b) = bs"
    and dec_enc: "length b = bs \<Longrightarrow> dec (enc b) = b"
    and crypt_0: "crypt 0 src iv d = ([], iv)"
    and crypt_enc: "(n + 1) * bs \<le> length src \<Longrightarrow> crypt (Suc n) src None False =
      (let (r, iv') = crypt n (drop bs src) None False in (enc (take bs src) @ r, iv'))"
    and crypt_enc_cbc: "(n + 1) * bs \<le> length src \<Longrightarrow> length v = bs \<Longrightarrow> crypt (Suc n) src (Some v) False =
      (let c = enc (xor_bytes (take bs src) v); (r, iv') = crypt n (drop bs src) (Some c) False
       in (c @ r, iv'))"
    and crypt_dec: "(n + 1) * bs \<le> length src \<Longrightarrow> crypt (Suc n) src None True =
      (let (r, iv') = crypt n (drop bs src) None True in (dec (take bs src) @ r, iv'))"
    and crypt_dec_cbc: "(n + 1) * bs \<le> length src \<Longrightarrow> length v = bs \<Longrightarrow> crypt (Suc n) src (Some v) True =
      (let (r, iv') = crypt n (drop bs src) (Some (take bs src)) True
       in (xor_bytes (dec (take bs src)) v @ r, iv'))"
begin

lemma roundtrip:
  assumes "n * bs \<le> length src" "iv_ok bs iv" "crypt n src iv False = (dst, iv')"
  shows "length dst = n * bs \<and> iv_ok bs iv' \<and> crypt n (dst @ r) iv True = (take (n * bs) src, iv')"
  using assms
proof (induction n arbitrary: src iv dst)
  case 0
  then show ?case by (simp add: crypt_0)
next
  case (Suc n)
  have len: "(n + 1) * bs \<le> length src" "length (take bs src) = bs" "n * bs \<le> length (drop bs src)"
    using Suc.prems(1) by (auto simp: min_def)
  show ?case
  proof (cases iv)
    case None
    define d where "d = fst (crypt n (drop bs src) None False)"
    have d: "crypt n (drop bs src) None False = (d, iv')" "dst = enc (take bs src) @ d"
      using Suc.prems(3) None crypt_enc [OF len(1)] by (auto simp: split_beta d_def)
    have I: "length d = n * bs" "iv_ok bs iv'" "crypt n (d @ r) None True = (take (n * bs) (drop bs src), iv')"
      using Suc.IH [OF len(3) _ d(1)] by (simp_all add: iv_ok_def)
    have e: "length (enc (take bs src)) = bs" by (rule enc_length [OF len(2)])
    have "crypt (Suc n) (dst @ r) None True = (take bs src @ take (n * bs) (drop bs src), iv')"
      by (subst crypt_dec) (simp_all add: d I e dec_enc [OF len(2)])
    then show ?thesis using I d e None by (simp add: take_add)
  next
    case (Some v)
    then have v: "length v = bs" using Suc.prems(2) by (simp add: iv_ok_def)
    define c where "c = enc (xor_bytes (take bs src) v)"
    have x: "length (xor_bytes (take bs src) v) = bs" using len v by simp
    define d where "d = fst (crypt n (drop bs src) (Some c) False)"
    have d: "crypt n (drop bs src) (Some c) False = (d, iv')" "dst = c @ d"
      using Suc.prems(3) Some crypt_enc_cbc [OF len(1) v] by (auto simp: split_beta c_def d_def Let_def)
    have c: "length c = bs" "dec c = xor_bytes (take bs src) v"
      by (simp_all only: c_def enc_length [OF x] dec_enc [OF x])
    have I: "length d = n * bs" "iv_ok bs iv'" "crypt n (d @ r) (Some c) True = (take (n * bs) (drop bs src), iv')"
      using Suc.IH [OF len(3) _ d(1)] c(1) by (simp_all add: iv_ok_def)
    have "crypt (Suc n) (dst @ r) (Some v) True = (take bs src @ take (n * bs) (drop bs src), iv')"
      by (subst crypt_dec_cbc) (simp_all add: v d I c xor_bytes_cancel)
    then show ?thesis using I d c Some by (simp add: take_add)
  qed
qed

text \<open>A buffer may be processed in pieces, the vector carried from one call to the next.\<close>

lemma enc_append:
  assumes "m * bs = length a" "n * bs \<le> length b" "iv_ok bs iv"
  shows "crypt (m + n) (a @ b) iv False =
    (let (r, iv1) = crypt m a iv False; (s, iv2) = crypt n b iv1 False in (r @ s, iv2))"
  using assms
proof (induction m arbitrary: a iv)
  case 0
  then show ?case by (simp add: crypt_0)
next
  case (Suc m)
  have len: "(m + 1) * bs \<le> length a" "(m + n + 1) * bs \<le> length (a @ b)" "bs \<le> length a"
    "m * bs = length (drop bs a)" "length (take bs a) = bs"
    using Suc.prems by (simp_all add: algebra_simps)
  show ?case
  proof (cases iv)
    case None
    then show ?thesis
      using Suc.IH [OF len(4) Suc.prems(2), of None] crypt_enc [OF len(1)] crypt_enc [OF len(2)] len(3)
      by (simp add: split_beta iv_ok_def Let_def)
  next
    case (Some v)
    then have v: "length v = bs" using Suc.prems(3) by (simp add: iv_ok_def)
    have "length (enc (xor_bytes (take bs a) v)) = bs" by (rule enc_length) (use len v in simp)
    then show ?thesis
      using Suc.IH [OF len(4) Suc.prems(2), of "Some (enc (xor_bytes (take bs a) v))"] Some
        crypt_enc_cbc [OF len(1) v] crypt_enc_cbc [OF len(2) v] len(3)
      by (simp add: split_beta iv_ok_def Let_def)
  qed
qed

end

end
