(* ===== verification/Backptr.thy ===== *)
theory Backptr
  imports Bytes "HOL-Library.Monad_Syntax"
begin

section \<open>Copying from the output: \<open>av_memcpy_backptr\<close> of \<open>libavutil/mem.c\<close>\<close>

text \<open>
  Memory is a list of bytes with bounds: a load or store that leaves it, and a \<open>memcpy\<close> of overlapping
  regions, is \<open>None\<close>.  \<open>av_memcpy_backptr\<close> repeats the last \<open>back\<close> bytes before a position; the code writes
  words for the short periods and doubles the block it copies for the long ones.  The reference is \<open>lz_copy\<close>,
  which appends one byte after another.  Words are stored in little endian order, as on the machines the code
  is built for.
\<close>

definition load :: "byte list \<Rightarrow> nat \<Rightarrow> nat \<Rightarrow> byte list option" where
  "load mem p n = (if p + n \<le> length mem then Some (take n (drop p mem)) else None)"

definition store :: "byte list \<Rightarrow> nat \<Rightarrow> byte list \<Rightarrow> byte list option" where
  "store mem p bs =
     (if p + length bs \<le> length mem then Some (take p mem @ bs @ drop (p + length bs) mem) else None)"

definition copy_bytes :: "byte list \<Rightarrow> nat \<Rightarrow> nat \<Rightarrow> nat \<Rightarrow> byte list option" where
  "copy_bytes mem dst src n = do { bs \<leftarrow> load mem src n; store mem dst bs }"

definition memcpy :: "byte list \<Rightarrow> nat \<Rightarrow> nat \<Rightarrow> nat \<Rightarrow> byte list option" where
  "memcpy mem dst src n = (if src + n \<le> dst \<or> dst + n \<le> src then copy_bytes mem dst src n else None)"

definition AV_RL24 :: "byte list \<Rightarrow> 32 word" where
  "AV_RL24 p = push_bit 16 (ucast (p ! 2)) OR push_bit 8 (ucast (p ! 1)) OR ucast (p ! 0)"

definition AV_COPY32U :: "byte list \<Rightarrow> nat \<Rightarrow> nat \<Rightarrow> byte list option" where
  "AV_COPY32U mem dst src = do { bs \<leftarrow> load mem src 4; store mem dst (AV_WL32 (AV_RL32 bs)) }"

definition AV_COPY16U :: "byte list \<Rightarrow> nat \<Rightarrow> nat \<Rightarrow> byte list option" where
  "AV_COPY16U mem dst src = do { bs \<leftarrow> load mem src 2; store mem dst (AV_WL16 (AV_RL16 bs)) }"

subsection \<open>The code\<close>

text \<open>\<open>while (len--) { *dst = dst[-k]; dst++; }\<close>\<close>

primrec fill_bytes :: "nat \<Rightarrow> byte list \<Rightarrow> nat \<Rightarrow> nat \<Rightarrow> byte list option" where
  "fill_bytes k mem dst 0 = Some mem"
| "fill_bytes k mem dst (Suc len) = do { mem \<leftarrow> copy_bytes mem dst (dst - k) 1; fill_bytes k mem (dst + 1) len }"

text \<open>\<open>while (len >= n)\<close> a group of words of \<open>n\<close> bytes is stored.\<close>

function fill_words :: "byte list \<Rightarrow> byte list \<Rightarrow> nat \<Rightarrow> nat \<Rightarrow> (byte list \<times> nat \<times> nat) option" where
  "fill_words w mem dst len =
     (if w \<noteq> [] \<and> len \<ge> length w
      then do { mem \<leftarrow> store mem dst w; fill_words w mem (dst + length w) (len - length w) }
      else Some (mem, dst, len))"
  by pat_completeness auto
termination by (relation "measure (\<lambda>(w, mem, dst, len). len)") (auto simp: neq_Nil_conv)

declare fill_words.simps [simp del]

definition fill16 :: "byte list \<Rightarrow> nat \<Rightarrow> nat \<Rightarrow> byte list option" where
  "fill16 mem dst len = do {
     p \<leftarrow> load mem (dst - 2) 2;
     let v = (ucast (AV_RL16 p) :: 32 word);
     let v = v OR push_bit 16 v;
     (mem, dst, len) \<leftarrow> fill_words (AV_WL32 v) mem dst len;
     fill_bytes 2 mem dst len }"

definition fill24 :: "byte list \<Rightarrow> nat \<Rightarrow> nat \<Rightarrow> byte list option" where
  "fill24 mem dst len = do {
     p \<leftarrow> load mem (dst - 3) 3;
     let v = AV_RL24 p;
     let a = v OR push_bit 24 v;
     let b = drop_bit 8 v OR push_bit 16 v;
     let c = drop_bit 16 v OR push_bit 8 v;
     (mem, dst, len) \<leftarrow> fill_words (AV_WL32 a @ AV_WL32 b @ AV_WL32 c) mem dst len;
     (mem, dst, len) \<leftarrow> (if len \<ge> 4 then do { mem \<leftarrow> store mem dst (AV_WL32 a); Some (mem, dst + 4, len - 4) }
                         else Some (mem, dst, len));
     (mem, dst, len) \<leftarrow> (if len \<ge> 4 then do { mem \<leftarrow> store mem dst (AV_WL32 b); Some (mem, dst + 4, len - 4) }
                         else Some (mem, dst, len));
     fill_bytes 3 mem dst len }"

definition fill32 :: "byte list \<Rightarrow> nat \<Rightarrow> nat \<Rightarrow> byte list option" where
  "fill32 mem dst len = do {
     p \<leftarrow> load mem (dst - 4) 4;
     let v = AV_RL32 p;
     let v2 = (ucast v + push_bit 32 (ucast v) :: 64 word);
     (mem, dst, len) \<leftarrow> fill_words (AV_WL64 v2 @ AV_WL64 v2 @ AV_WL64 v2 @ AV_WL64 v2) mem dst len;
     (mem, dst, len) \<leftarrow> fill_words (AV_WL32 v) mem dst len;
     fill_bytes 4 mem dst len }"

text \<open>The block copied doubles with every turn.\<close>

function copy_blocks :: "byte list \<Rightarrow> nat \<Rightarrow> nat \<Rightarrow> nat \<Rightarrow> nat \<Rightarrow> byte list option" where
  "copy_blocks mem dst src cnt blocklen =
     (if cnt > blocklen \<and> blocklen > 0
      then do { mem \<leftarrow> memcpy mem dst src blocklen; copy_blocks mem (dst + blocklen) src (cnt - blocklen) (blocklen * 2) }
      else memcpy mem dst src cnt)"
  by pat_completeness auto
termination by (relation "measure (\<lambda>(mem, dst, src, cnt, blocklen). cnt)") auto

declare copy_blocks.simps [simp del]

text \<open>Fewer than 16 bytes: eight, four, two and one.\<close>

definition copy_tail :: "byte list \<Rightarrow> nat \<Rightarrow> nat \<Rightarrow> nat \<Rightarrow> byte list option" where
  "copy_tail mem dst src cnt = do {
     (mem, dst, src, cnt) \<leftarrow>
       (if cnt \<ge> 8 then do { mem \<leftarrow> AV_COPY32U mem dst src; mem \<leftarrow> AV_COPY32U mem (dst + 4) (src + 4);
                             Some (mem, dst + 8, src + 8, cnt - 8) }
        else Some (mem, dst, src, cnt));
     (mem, dst, src, cnt) \<leftarrow>
       (if cnt \<ge> 4 then do { mem \<leftarrow> AV_COPY32U mem dst src; Some (mem, dst + 4, src + 4, cnt - 4) }
        else Some (mem, dst, src, cnt));
     (mem, dst, src, cnt) \<leftarrow>
       (if cnt \<ge> 2 then do { mem \<leftarrow> AV_COPY16U mem dst src; Some (mem, dst + 2, src + 2, cnt - 2) }
        else Some (mem, dst, src, cnt));
     if cnt \<noteq> 0 then copy_bytes mem dst src 1 else Some mem }"

definition av_memcpy_backptr :: "byte list \<Rightarrow> nat \<Rightarrow> nat \<Rightarrow> nat \<Rightarrow> byte list option" where
  "av_memcpy_backptr mem dst back cnt =
     (let src = dst - back
      in if back > dst then None
         else if back = 0 then Some mem
         else if back = 1 then do { b \<leftarrow> load mem src 1; store mem dst (replicate cnt (hd b)) }
         else if back = 2 then fill16 mem dst cnt
         else if back = 3 then fill24 mem dst cnt
         else if back = 4 then fill32 mem dst cnt
         else if cnt \<ge> 16 then copy_blocks mem dst src cnt back
         else copy_tail mem dst src cnt)"

subsection \<open>The reference\<close>

primrec lz_copy :: "nat \<Rightarrow> byte list \<Rightarrow> nat \<Rightarrow> byte list" where
  "lz_copy back out 0 = out"
| "lz_copy back out (Suc n) = lz_copy back (out @ [out ! (length out - back)]) n"

lemma length_lz_copy [simp]: "length (lz_copy back out n) = length out + n"
  by (induction n arbitrary: out) simp_all

lemma lz_copy_add: "lz_copy back out (m + n) = lz_copy back (lz_copy back out m) n"
  by (induction m arbitrary: out) simp_all

lemma take_lz_copy: "take (length out) (lz_copy back out n) = out"
proof (induction n arbitrary: out)
  case (Suc n)
  have "take (length out) (take (Suc (length out)) (lz_copy back out (Suc n))) = take (length out) (out @ [out ! (length out - back)])"
    using Suc [of "out @ [out ! (length out - back)]"] by simp
  then show ?case by simp
qed simp

lemma lz_copy_prefix: "i < length out + m \<Longrightarrow> lz_copy back out (m + n) ! i = lz_copy back out m ! i"
  using take_lz_copy [of "lz_copy back out m" "back" n] by (metis length_lz_copy lz_copy_add nth_take)

text \<open>What was appended has the period \<open>back\<close>.\<close>

lemma nth_lz_copy:
  assumes "0 < back" "back \<le> length out"
  shows "t < back + n \<Longrightarrow> lz_copy back out n ! (length out - back + t) = out ! (length out - back + t mod back)"
proof (induction n arbitrary: t)
  case 0
  then show ?case by simp
next
  case (Suc n)
  let ?q = "lz_copy back out n"
  have q: "lz_copy back out (Suc n) = ?q @ [?q ! (length ?q - back)]"
    using lz_copy_add [of "back" out n 1] by simp
  show ?case
  proof (cases "t < back + n")
    case True
    then have "length out - back + t < length ?q" using assms by simp
    then show ?thesis using Suc.IH [OF True] by (simp add: q nth_append del: lz_copy.simps)
  next
    case False
    then have t: "t = back + n" using Suc.prems by simp
    then have i: "length out - back + t = length ?q" "length ?q - back = length out - back + n" using assms by simp_all
    have "lz_copy back out (Suc n) ! (length out - back + t) = ?q ! (length out - back + n)"
      by (simp only: q i nth_append_length)
    also have "\<dots> = out ! (length out - back + n mod back)" using Suc.IH [of n] assms by simp
    also have "n mod back = t mod back" by (simp add: t)
    finally show ?thesis .
  qed
qed

subsection \<open>Stores that extend the copy\<close>

text \<open>The memory after \<open>m\<close> bytes of the copy, which starts after \<open>pre\<close>.\<close>

definition copied :: "nat \<Rightarrow> byte list \<Rightarrow> byte list \<Rightarrow> nat \<Rightarrow> byte list" where
  "copied back pre rest m = lz_copy back pre m @ drop m rest"

lemma store_copied:
  assumes "0 < back" "back \<le> length pre" "m + length bs \<le> length rest"
    and "\<And>j. j < length bs \<Longrightarrow> bs ! j = pre ! (length pre - back + (m + j) mod back)"
  shows "store (copied back pre rest m) (length pre + m) bs = Some (copied back pre rest (m + length bs))"
proof -
  have "lz_copy back pre m @ bs = lz_copy back pre (m + length bs)"
  proof (rule nth_equalityI)
    fix i assume i: "i < length (lz_copy back pre m @ bs)"
    show "(lz_copy back pre m @ bs) ! i = lz_copy back pre (m + length bs) ! i"
    proof (cases "i < length pre + m")
      case True
      then show ?thesis by (simp add: nth_append lz_copy_prefix)
    next
      case False
      define j where "j = i - (length pre + m)"
      have j: "j < length bs" "i = length pre - back + (back + m + j)" using i False assms(2) by (simp_all add: j_def)
      have "lz_copy back pre (m + length bs) ! i = pre ! (length pre - back + (back + m + j) mod back)"
        using nth_lz_copy [OF assms(1,2), of "back + m + j" "m + length bs"] j by simp
      also have "\<dots> = bs ! j" using assms(4) [OF j(1)] by (simp add: add.assoc)
      finally show ?thesis using False by (simp add: nth_append j_def)
    qed
  qed simp
  then show ?thesis using assms(3) by (simp add: store_def copied_def add.commute)
qed

lemma load_copied:
  assumes "0 < back" "back \<le> length pre" "t + n \<le> back + m" "m \<le> length rest"
  obtains bs where "load (copied back pre rest m) (length pre - back + t) n = Some bs" "length bs = n"
    "\<And>j. j < n \<Longrightarrow> bs ! j = pre ! (length pre - back + (t + j) mod back)"
proof
  let ?M = "copied back pre rest m" and ?p = "length pre - back + t"
  have le: "?p + n \<le> length pre + m" using assms by simp
  then show "load ?M ?p n = Some (take n (drop ?p ?M))" by (simp add: load_def copied_def)
  show "length (take n (drop ?p ?M)) = n" using le by (simp add: copied_def)
  fix j assume "j < n"
  then have "take n (drop ?p ?M) ! j = lz_copy back pre m ! (length pre - back + (t + j))"
    using le by (simp add: copied_def nth_append add.assoc)
  then show "take n (drop ?p ?M) ! j = pre ! (length pre - back + (t + j) mod back)"
    using nth_lz_copy [OF assms(1,2), of "t + j" m] assms(3) \<open>j < n\<close> by simp
qed

text \<open>A copy within the memory, from a place that differs from the target by whole periods.\<close>

lemma copy_bytes_copied:
  assumes "0 < back" "back \<le> length pre" "t + n \<le> back + m" "t mod back = m mod back" "m + n \<le> length rest"
  shows "copy_bytes (copied back pre rest m) (length pre + m) (length pre - back + t) n = Some (copied back pre rest (m + n))"
proof -
  have m: "m \<le> length rest" using assms(5) by simp
  obtain bs where bs: "load (copied back pre rest m) (length pre - back + t) n = Some bs" "length bs = n"
    "\<And>j. j < n \<Longrightarrow> bs ! j = pre ! (length pre - back + (t + j) mod back)"
    by (rule load_copied [OF assms(1,2,3) m]) blast
  have j: "(t + j) mod back = (m + j) mod back" for j by (rule mod_add_cong [OF assms(4) refl])
  have "store (copied back pre rest m) (length pre + m) bs = Some (copied back pre rest (m + length bs))"
    by (rule store_copied [OF assms(1,2)]) (use assms(5) bs j in simp_all)
  then show ?thesis by (simp add: copy_bytes_def bs)
qed

lemma fill_bytes_copied:
  assumes "0 < back" "back \<le> length pre"
  shows "m + len \<le> length rest \<Longrightarrow>
    fill_bytes back (copied back pre rest m) (length pre + m) len = Some (copied back pre rest (m + len))"
proof (induction len arbitrary: m)
  case (Suc len)
  have "copy_bytes (copied back pre rest m) (length pre + m) (length pre - back + m) 1 = Some (copied back pre rest (m + 1))"
    by (rule copy_bytes_copied [OF assms]) (use assms Suc.prems in simp_all)
  moreover have "length pre + m - back = length pre - back + m" using assms by simp
  ultimately show ?case using Suc.IH [of "m + 1"] Suc.prems by simp
qed simp

text \<open>Storing groups of words that hold whole periods.\<close>

lemma fill_words_copied:
  assumes "0 < back" "back \<le> length pre" "w \<noteq> []" "length w mod back = 0"
    and "\<And>j. j < length w \<Longrightarrow> w ! j = pre ! (length pre - back + j mod back)"
  shows "m + len \<le> length rest \<Longrightarrow> m mod back = 0 \<Longrightarrow>
    \<exists>k. fill_words w (copied back pre rest m) (length pre + m) len =
      Some (copied back pre rest (m + k), length pre + (m + k), len - k) \<and> k \<le> len \<and> (m + k) mod back = 0 \<and> len - k < length w"
proof (induction len arbitrary: m rule: less_induct)
  case (less len)
  show ?case
  proof (cases "len \<ge> length w")
    case False
    then show ?thesis using less.prems assms(3) by (intro exI [of _ 0]) (simp add: fill_words.simps [of w])
  next
    case True
    have "(m + j) mod back = j mod back" for j using less.prems(2) by (metis add_0 mod_add_left_eq)
    then have st: "store (copied back pre rest m) (length pre + m) w = Some (copied back pre rest (m + length w))"
      using True less.prems assms by (intro store_copied) simp_all
    have "0 < length w" using assms(3) by simp
    then have w: "len - length w < len" using True by linarith
    have "(m + length w) mod back = 0" using less.prems(2) assms(4) by (simp add: mod_eq_0_iff_dvd)
    then have "\<exists>k. fill_words w (copied back pre rest (m + length w)) (length pre + (m + length w)) (len - length w) =
        Some (copied back pre rest (m + length w + k), length pre + (m + length w + k), len - length w - k) \<and>
      k \<le> len - length w \<and> (m + length w + k) mod back = 0 \<and> len - length w - k < length w"
      by (intro less.IH [OF w]) (use True less.prems(1) in simp_all)
    then obtain k where k: "fill_words w (copied back pre rest (m + length w)) (length pre + (m + length w)) (len - length w) =
        Some (copied back pre rest (m + length w + k), length pre + (m + length w + k), len - length w - k)"
      "k \<le> len - length w" "(m + length w + k) mod back = 0" "len - length w - k < length w"
      by (elim exE conjE) (rule that)
    have "fill_words w (copied back pre rest m) (length pre + m) len =
        Some (copied back pre rest (m + (length w + k)), length pre + (m + (length w + k)), len - (length w + k))"
      using True assms(3) k(1) by (subst fill_words.simps) (simp add: st add.assoc)
    then show ?thesis
      using k(2-4) True by (intro exI [of _ "length w + k"]) (simp add: add.assoc)
  qed
qed

lemma copy_blocks_copied:
  assumes "0 < back" "back \<le> length pre"
  shows "m + cnt \<le> length rest \<Longrightarrow> m mod back = 0 \<Longrightarrow> blocklen = back + m \<Longrightarrow>
    copy_blocks (copied back pre rest m) (length pre + m) (length pre - back) cnt blocklen = Some (copied back pre rest (m + cnt))"
proof (induction cnt arbitrary: m blocklen rule: less_induct)
  case (less cnt)
  have cp: "memcpy (copied back pre rest m) (length pre + m) (length pre - back) n = Some (copied back pre rest (m + n))"
    if "n \<le> blocklen" "n \<le> cnt" for n
  proof -
    have "length pre - back + n \<le> length pre + m" using that less.prems(3) assms(2) by linarith
    then show ?thesis using copy_bytes_copied [OF assms, of 0 n m rest] that less.prems assms by (simp add: memcpy_def)
  qed
  show ?case
  proof (cases "cnt > blocklen")
    case False
    then show ?thesis using cp [of cnt] by (simp add: copy_blocks.simps [of "copied back pre rest m"])
  next
    case True
    have bl: "0 < blocklen" using less.prems assms by simp
    have "(m + blocklen) mod back = 0" using less.prems(2,3) by (metis add_0 mod_add_self1 mod_add_eq mod_0 add.commute)
    then have "copy_blocks (copied back pre rest (m + blocklen)) (length pre + (m + blocklen)) (length pre - back) (cnt - blocklen) (blocklen * 2) =
        Some (copied back pre rest (m + blocklen + (cnt - blocklen)))"
      using True bl less.prems by (intro less.IH) simp_all
    then show ?thesis using cp [of blocklen] True bl
      by (simp add: copy_blocks.simps [of "copied back pre rest m"] add.assoc)
  qed
qed

subsection \<open>Each case of the code\<close>

lemma load_length: "load mem p n = Some bs \<Longrightarrow> length bs = n"
  by (auto simp: load_def split: if_splits)

lemma copy_words: "AV_COPY32U mem d s = copy_bytes mem d s 4" "AV_COPY16U mem d s = copy_bytes mem d s 2"
proof -
  have "AV_WL32 (AV_RL32 bs) = bs" if "length bs = 4" for bs using wr32(2) [of bs] that by simp
  moreover have "AV_WL16 (AV_RL16 bs) = bs" if two: "length bs = 2" for bs
  proof -
    obtain x y where "bs = [x, y]" using two by (auto simp: numeral_2_eq_2 length_Suc_conv)
    then show ?thesis by (simp add: AV_WL16_def AV_RL16_def) (intro conjI bit_word_eqI; simp add: bit_simps; fail)
  qed
  ultimately show "AV_COPY32U mem d s = copy_bytes mem d s 4" "AV_COPY16U mem d s = copy_bytes mem d s 2"
    by (auto simp: AV_COPY32U_def AV_COPY16U_def copy_bytes_def load_length cong: Option.bind_cong)
qed

lemma WL32_eqI: "AV_RL32 bs = v \<Longrightarrow> length bs = 4 \<Longrightarrow> AV_WL32 v = bs"
  using wr32(2) [of bs] by simp

lemma word_pattern2: "AV_WL32 (ucast (AV_RL16 [x, y]) OR push_bit 16 (ucast (AV_RL16 [x, y]))) = [x, y, x, y]"
  by (rule WL32_eqI; (rule bit_eqI_32)?; simp add: AV_RL32_def AV_RL16_def bit_simps)

lemma word_pattern3:
  "AV_WL32 (AV_RL24 [x, y, z] OR push_bit 24 (AV_RL24 [x, y, z])) = [x, y, z, x]"
  "AV_WL32 (drop_bit 8 (AV_RL24 [x, y, z]) OR push_bit 16 (AV_RL24 [x, y, z])) = [y, z, x, y]"
  "AV_WL32 (drop_bit 16 (AV_RL24 [x, y, z]) OR push_bit 8 (AV_RL24 [x, y, z])) = [z, x, y, z]"
  by (rule WL32_eqI; (rule bit_eqI_32)?; simp add: AV_RL32_def AV_RL24_def bit_simps)+

lemma word_pattern4:
  fixes v :: "32 word"
  shows "AV_WL64 (ucast v + push_bit 32 (ucast v)) = AV_WL32 v @ AV_WL32 v"
proof -
  have "(ucast v :: 64 word) + push_bit 32 (ucast v) = ucast v OR push_bit 32 (ucast v)"
    by (rule disjunctive_add_eq_or, rule bit_word_eqI) (auto simp: bit_simps dest: bit_imp_le_length)
  then show ?thesis
    by (simp add: AV_WL64_def AV_WL32_def) (intro conjI bit_word_eqI; auto simp: bit_simps dest: bit_imp_le_length)
qed

text \<open>Before the copy: what the last \<open>back\<close> bytes are.\<close>

lemma copied_start: "copied back pre rest 0 = pre @ rest"
  by (simp add: copied_def)

lemma load_period:
  assumes "0 < back" "back \<le> length pre"
  obtains bs where "load (pre @ rest) (length pre - back) back = Some bs" "length bs = back"
    "\<And>j. j < back \<Longrightarrow> bs ! j = pre ! (length pre - back + j)"
proof -
  have start: "0 + back \<le> back + 0" "0 \<le> length rest" by simp_all
  obtain bs where "load (copied back pre rest 0) (length pre - back + 0) back = Some bs" "length bs = back"
    "\<And>j. j < back \<Longrightarrow> bs ! j = pre ! (length pre - back + (0 + j) mod back)"
    by (rule load_copied [OF assms start]) blast
  then show thesis using that [of bs] by (simp add: copied_start)
qed

lemma backptr_1:
  assumes "1 \<le> length pre" "cnt \<le> length rest"
  shows "av_memcpy_backptr (pre @ rest) (length pre) 1 cnt = Some (lz_copy 1 pre cnt @ drop cnt rest)"
proof -
  obtain bs where bs: "load (pre @ rest) (length pre - 1) 1 = Some bs" "length bs = 1" "bs ! 0 = pre ! (length pre - 1)"
    by (rule load_period [of 1 pre rest]) (use assms in auto)
  have hd: "hd bs = pre ! (length pre - 1)" using bs(2,3) by (cases bs) simp_all
  have "store (copied 1 pre rest 0) (length pre + 0) (replicate cnt (hd bs)) = Some (copied 1 pre rest (0 + length (replicate cnt (hd bs))))"
    by (rule store_copied) (use assms bs hd in simp_all)
  moreover have "pre \<noteq> []" using assms(1) by auto
  ultimately show ?thesis using bs(1) by (simp add: av_memcpy_backptr_def copied_start) (simp add: copied_def)
qed

text \<open>A group of words that holds whole periods, then the rest.\<close>

lemma fill_group:
  assumes "0 < back" "back \<le> length pre" "m + len \<le> length rest" "m mod back = 0"
    and "w \<noteq> []" "length w mod back = 0" "\<forall>j < length w. w ! j = pre ! (length pre - back + j mod back)"
  obtains k where "fill_words w (copied back pre rest m) (length pre + m) len =
      Some (copied back pre rest (m + k), length pre + (m + k), len - k)" "k \<le> len" "(m + k) mod back = 0" "len - k < length w"
proof -
  have "\<exists>k. fill_words w (copied back pre rest m) (length pre + m) len =
      Some (copied back pre rest (m + k), length pre + (m + k), len - k) \<and> k \<le> len \<and> (m + k) mod back = 0 \<and> len - k < length w"
    by (rule fill_words_copied [OF assms(1,2,5,6) _ assms(3,4)]) (use assms(7) in blast)
  then show thesis by (elim exE conjE) (rule that)
qed

lemma fill16_copies:
  assumes "2 \<le> length pre" "cnt \<le> length rest"
  shows "fill16 (pre @ rest) (length pre) cnt = Some (lz_copy 2 pre cnt @ drop cnt rest)"
proof -
  have two: "(0 :: nat) < 2" by simp
  obtain bs where bs: "load (pre @ rest) (length pre - 2) 2 = Some bs" "length bs = 2" "\<And>j. j < 2 \<Longrightarrow> bs ! j = pre ! (length pre - 2 + j)"
    by (rule load_period [OF two assms(1), of rest]) blast
  then obtain x y where xy: "bs = [x, y]" by (auto simp: numeral_2_eq_2 length_Suc_conv)
  define w where "w = [x, y, x, y]"
  have w: "\<forall>j < length w. w ! j = pre ! (length pre - 2 + j mod 2)"
    using bs(3) [of 0] bs(3) [of 1] by (simp add: w_def xy All_less_Suc2)
  obtain k where k: "fill_words w (copied 2 pre rest 0) (length pre + 0) cnt =
      Some (copied 2 pre rest (0 + k), length pre + (0 + k), cnt - k)" "k \<le> cnt"
    by (rule fill_group [OF two assms(1) _ _ _ _ w, of 0 cnt rest]) (use assms in \<open>simp_all add: w_def\<close>)
  have "fill_bytes 2 (copied 2 pre rest k) (length pre + k) (cnt - k) = Some (copied 2 pre rest (k + (cnt - k)))"
    by (rule fill_bytes_copied [OF two assms(1)]) (use assms k(2) in simp)
  then show ?thesis
    using k bs(1) by (simp add: fill16_def Let_def xy word_pattern2 w_def copied_start) (simp add: copied_def)
qed

lemma store_period:
  assumes "0 < back" "back \<le> length pre" "m + length w \<le> length rest" "m mod back = i mod back"
    and "\<forall>j < length w. w ! j = pre ! (length pre - back + (i + j) mod back)"
  shows "store (copied back pre rest m) (length pre + m) w = Some (copied back pre rest (m + length w))"
proof (rule store_copied [OF assms(1-3)])
  fix j assume "j < length w"
  moreover have "(m + j) mod back = (i + j) mod back" by (rule mod_add_cong [OF assms(4) refl])
  ultimately show "w ! j = pre ! (length pre - back + (m + j) mod back)" using assms(5) by simp
qed

lemma fill24_copies:
  assumes "3 \<le> length pre" "cnt \<le> length rest"
  shows "fill24 (pre @ rest) (length pre) cnt = Some (lz_copy 3 pre cnt @ drop cnt rest)"
proof -
  have three: "(0 :: nat) < 3" by simp
  obtain bs where bs: "load (pre @ rest) (length pre - 3) 3 = Some bs" "length bs = 3" "\<And>j. j < 3 \<Longrightarrow> bs ! j = pre ! (length pre - 3 + j)"
    by (rule load_period [OF three assms(1), of rest]) blast
  then obtain x y z where xyz: "bs = [x, y, z]" by (auto simp: numeral_3_eq_3 length_Suc_conv)
  define a where "a = [x, y, z, x]"
  define b where "b = [y, z, x, y]"
  define w where "w = a @ b @ [z, x, y, z]"
  have at: "x = pre ! (length pre - 3)" "y = pre ! Suc (length pre - 3)" "z = pre ! Suc (Suc (length pre - 3))"
    using bs(3) [of 0] bs(3) [of 1] bs(3) [of 2] by (simp_all add: xyz)
  have w: "\<forall>j < length w. w ! j = pre ! (length pre - 3 + j mod 3)" by (simp add: w_def a_def b_def All_less_Suc2 at)
  obtain k where k: "fill_words w (copied 3 pre rest 0) (length pre + 0) cnt =
      Some (copied 3 pre rest (0 + k), length pre + (0 + k), cnt - k)" "k \<le> cnt" "(0 + k) mod 3 = 0" "cnt - k < length w"
    by (rule fill_group [OF three assms(1) _ _ _ _ w, of 0 cnt rest]) (use assms in \<open>simp_all add: w_def a_def b_def\<close>)
  have a: "store (copied 3 pre rest k) (length pre + k) a = Some (copied 3 pre rest (k + 4))" if "cnt - k \<ge> 4"
  proof -
    have "store (copied 3 pre rest k) (length pre + k) a = Some (copied 3 pre rest (k + length a))"
      by (rule store_period [OF three assms(1), of _ _ _ 0]) (use that k(3) assms(2) in \<open>simp_all add: a_def All_less_Suc2 at\<close>)
    moreover have "length a = 4" by (simp add: a_def)
    ultimately show ?thesis by (simp only:)
  qed
  have b: "store (copied 3 pre rest (k + 4)) (length pre + (k + 4)) b = Some (copied 3 pre rest (k + 4 + 4))" if "cnt - (k + 4) \<ge> 4"
  proof -
    have "(k + 4) mod 3 = 1 mod 3" using k(3) by presburger
    then have "store (copied 3 pre rest (k + 4)) (length pre + (k + 4)) b = Some (copied 3 pre rest (k + 4 + length b))"
      by (intro store_period [OF three assms(1), of _ _ _ 1]) (use that assms(2) in \<open>simp_all add: b_def All_less_Suc2 at\<close>)
    moreover have "length b = 4" by (simp add: b_def)
    ultimately show ?thesis by (simp only:)
  qed
  have f: "fill_bytes 3 (copied 3 pre rest m) (length pre + m) (cnt - m) = Some (copied 3 pre rest cnt)" if "m \<le> cnt" for m
    using fill_bytes_copied [OF three assms(1), of m "cnt - m" rest] that assms(2) by simp
  have "fill24 (pre @ rest) (length pre) cnt = Some (copied 3 pre rest cnt)"
    using k(1,2) bs(1) a b f [of k] f [of "k + 4"] f [of "k + 4 + 4"]
    by (simp add: fill24_def Let_def xyz word_pattern3 w_def a_def b_def copied_start add.assoc)
  then show ?thesis by (simp add: copied_def)
qed

lemma fill32_copies:
  assumes "4 \<le> length pre" "cnt \<le> length rest"
  shows "fill32 (pre @ rest) (length pre) cnt = Some (lz_copy 4 pre cnt @ drop cnt rest)"
proof -
  have four: "(0 :: nat) < 4" by simp
  obtain bs where bs: "load (pre @ rest) (length pre - 4) 4 = Some bs" "length bs = 4" "\<And>j. j < 4 \<Longrightarrow> bs ! j = pre ! (length pre - 4 + j)"
    by (rule load_period [OF four assms(1), of rest]) blast
  have v: "AV_WL32 (AV_RL32 bs) = bs" using bs(2) by (intro WL32_eqI) simp_all
  define w where "w = (bs @ bs) @ (bs @ bs) @ (bs @ bs) @ (bs @ bs)"
  obtain x y z u where xs: "bs = [x, y, z, u]" using bs(2) by (auto simp: numeral_eq_Suc length_Suc_conv)
  have Suc3: "n + 3 = Suc (Suc (Suc n))" for n by simp
  have at: "x = pre ! (length pre - 4)" "y = pre ! Suc (length pre - 4)" "z = pre ! Suc (Suc (length pre - 4))"
    "u = pre ! (length pre - 4 + 3)"
    using bs(3) [of 0] bs(3) [of 1] bs(3) [of 2] bs(3) [of 3] by (simp_all add: xs)
  have w: "\<forall>j < length w. w ! j = pre ! (length pre - 4 + j mod 4)" by (simp add: w_def All_less_Suc2 xs at Suc3)
  have w1: "\<forall>j < length bs. bs ! j = pre ! (length pre - 4 + j mod 4)" by (simp add: All_less_Suc2 xs at Suc3)
  have first: "0 + cnt \<le> length rest" "(0 :: nat) mod 4 = 0" "w \<noteq> []" "length w mod 4 = 0"
    using assms(2) by (simp_all add: w_def xs)
  obtain k where k: "fill_words w (copied 4 pre rest 0) (length pre + 0) cnt =
      Some (copied 4 pre rest (0 + k), length pre + (0 + k), cnt - k)" "k \<le> cnt" "(0 + k) mod 4 = 0" "cnt - k < length w"
    by (rule fill_group [OF four assms(1) first w])
  have kk: "k + (cnt - k) \<le> length rest" "k mod 4 = 0" "bs \<noteq> []" "length bs mod 4 = 0" using k(2,3) assms(2) bs(2) by auto
  obtain l where l: "fill_words bs (copied 4 pre rest k) (length pre + k) (cnt - k) =
      Some (copied 4 pre rest (k + l), length pre + (k + l), cnt - k - l)" "l \<le> cnt - k" "(k + l) mod 4 = 0" "cnt - k - l < length bs"
    by (rule fill_group [OF four assms(1) kk w1])
  have "fill_bytes 4 (copied 4 pre rest (k + l)) (length pre + (k + l)) (cnt - k - l) = Some (copied 4 pre rest (k + l + (cnt - k - l)))"
    by (rule fill_bytes_copied [OF four assms(1)]) (use assms k(2) l(2) in simp)
  then have "fill32 (pre @ rest) (length pre) cnt = Some (copied 4 pre rest cnt)"
    using k(1,2) l bs(1) by (simp add: fill32_def Let_def word_pattern4 v w_def copied_start)
  then show ?thesis by (simp add: copied_def)
qed

lemma copy_tail_copies:
  assumes "4 < back" "back \<le> length pre" "cnt \<le> length rest" "cnt < 16"
  shows "copy_tail (pre @ rest) (length pre) (length pre - back) cnt = Some (lz_copy back pre cnt @ drop cnt rest)"
proof -
  have pos: "0 < back" using assms(1) by simp
  define L S where "L = length pre" "S = length pre - back"
  note LS = this
  have c: "copy_bytes (copied back pre rest m) (L + m) (S + m) n = Some (copied back pre rest (m + n))"
    if "m + n \<le> cnt" "n \<le> back" for m n
    unfolding LS by (rule copy_bytes_copied [OF pos assms(2)]) (use that assms(3) in simp_all)
  have s: "(if cnt - m \<ge> n then do { mem \<leftarrow> copy_bytes (copied back pre rest m) (L + m) (S + m) n; Some (mem, L + m + n, S + m + n, cnt - m - n) }
        else Some (copied back pre rest m, L + m, S + m, cnt - m)) = Some (copied back pre rest m', L + m', S + m', cnt - m')"
    if "m' = (if cnt - m \<ge> n then m + n else m)" "0 < n" "n \<le> 4" for m n m'
    using that c [of m n] assms(1) by (simp add: add.assoc)
  define m1 where "m1 = (if cnt \<ge> 8 then 8 else 0 :: nat)"
  define m2 where "m2 = (if cnt - m1 \<ge> 4 then m1 + 4 else m1)"
  define m3 where "m3 = (if cnt - m2 \<ge> 2 then m2 + 2 else m2)"
  have s1: "(if cnt \<ge> 8 then do { mem \<leftarrow> copy_bytes (copied back pre rest 0) L S 4; mem \<leftarrow> copy_bytes mem (L + 4) (S + 4) 4;
                             Some (mem, L + 8, S + 8, cnt - 8) }
        else Some (copied back pre rest 0, L, S, cnt)) = Some (copied back pre rest m1, L + m1, S + m1, cnt - m1)"
    using c [of 0 4] c [of 4 4] assms(1) by (simp add: m1_def)
  have "m1 \<le> cnt" "cnt - m1 < 8" using assms(4) by (auto simp: m1_def)
  then have "m2 \<le> cnt" "cnt - m2 < 4" by (auto simp: m2_def)
  then have "m3 \<le> cnt" "cnt - m3 < 2" by (auto simp: m3_def)
  then have "cnt = m3 \<or> cnt = m3 + 1" by linarith
  then have e: "(if cnt - m3 \<noteq> 0 then copy_bytes (copied back pre rest m3) (L + m3) (S + m3) 1 else Some (copied back pre rest m3)) =
      Some (copied back pre rest cnt)"
    using c [of m3 1] assms(1) by auto
  have "copy_tail (copied back pre rest 0) L S cnt = Some (copied back pre rest cnt)"
    unfolding copy_tail_def copy_words s1 Option.bind.bind_lunit prod.case s [OF m2_def, simplified]
      s [OF m3_def, simplified] e
    by (rule refl)
  then show ?thesis by (simp add: copied_start LS) (simp add: copied_def)
qed

lemma memcpy_backptr_value:
  assumes "0 < back" "back \<le> length pre" "cnt \<le> length rest"
  shows "av_memcpy_backptr (pre @ rest) (length pre) back cnt = Some (lz_copy back pre cnt @ drop cnt rest)"
proof -
  have period: "back = 1 \<or> back = 2 \<or> back = 3 \<or> back = 4 \<or> 4 < back" using assms(1) by linarith
  have blocks: "copy_blocks (pre @ rest) (length pre) (length pre - back) cnt back = Some (lz_copy back pre cnt @ drop cnt rest)"
    using copy_blocks_copied [OF assms(1,2), of 0 cnt rest "back"] assms(3) by (simp add: copied_def)
  from period show ?thesis
    using backptr_1 [of pre cnt rest] fill16_copies [of pre cnt rest] fill24_copies [of pre cnt rest]
      fill32_copies [of pre cnt rest] copy_tail_copies [of "back" pre cnt rest] blocks assms
    by (elim disjE) (simp_all add: av_memcpy_backptr_def Let_def)
qed

text \<open>C22. Whatever the distance and the number of bytes, \<open>av_memcpy_backptr\<close> - by words for the periods 1 to 4, by
  blocks that double for long copies, by words of decreasing size for short ones - has the effect of copying byte
  after byte from \<open>back\<close> bytes before: the last \<open>back\<close> bytes are repeated, nothing else is written, nothing before
  them is read, and no \<open>memcpy\<close> overlaps.\<close>

theorem av_memcpy_backptr_repeats:
  assumes "0 < back" "back \<le> length pre" "cnt \<le> length rest"
  shows "av_memcpy_backptr (pre @ rest) (length pre) back cnt = Some (lz_copy back pre cnt @ drop cnt rest)"
  using assms by (rule memcpy_backptr_value)

theorem av_memcpy_backptr_repeats_witness:
  "av_memcpy_backptr ([1, 2, 3, 4, 5] @ replicate 20 0) (length [1, 2, 3, 4, 5 :: byte]) 5 20 =
     Some (lz_copy 5 [1, 2, 3, 4, 5] 20 @ drop 20 (replicate 20 0)) \<and>
   lz_copy 5 [1, 2, 3, 4, 5] 7 = [1, 2, 3, 4, 5, 1, 2, 3, 4, 5, 1, 2 :: byte]"
proof
  show "av_memcpy_backptr ([1, 2, 3, 4, 5] @ replicate 20 0) (length [1, 2, 3, 4, 5 :: byte]) 5 20 =
     Some (lz_copy 5 [1, 2, 3, 4, 5] 20 @ drop 20 (replicate 20 0))"
    by (rule av_memcpy_backptr_repeats) simp_all
  show "lz_copy 5 [1, 2, 3, 4, 5] 7 = [1, 2, 3, 4, 5, 1, 2, 3, 4, 5, 1, 2 :: byte]" by (simp add: eval_nat_numeral)
qed

end
