(* ===== verification/Lzo.thy ===== *)
theory Lzo
  imports Backptr
begin

section \<open>LZO decompression: \<open>libavutil/lzo.c\<close>\<close>

text \<open>
  The decoder reads from and writes to buffers with padding: it may read up to 8 bytes after the end of the input
  and write up to 12 after the end of the output, and uses this to leave out checks.  The model keeps the buffers
  with their bounds: an access outside the padded buffers, a failed assertion and a signed overflow are \<open>None\<close>,
  and so is a loop that does not end (\<open>partial_function\<close>).  Pointers are positions.
\<close>

unbundle bit_operations_syntax

abbreviation (input) AV_LZO_INPUT_DEPLETED :: nat where "AV_LZO_INPUT_DEPLETED \<equiv> 1"
abbreviation (input) AV_LZO_OUTPUT_FULL :: nat where "AV_LZO_OUTPUT_FULL \<equiv> 2"
abbreviation (input) AV_LZO_INVALID_BACKPTR :: nat where "AV_LZO_INVALID_BACKPTR \<equiv> 4"
abbreviation (input) AV_LZO_ERROR :: nat where "AV_LZO_ERROR \<equiv> 8"
abbreviation (input) AV_LZO_INPUT_PADDING :: nat where "AV_LZO_INPUT_PADDING \<equiv> 8"
abbreviation (input) AV_LZO_OUTPUT_PADDING :: nat where "AV_LZO_OUTPUT_PADDING \<equiv> 12"

record LZOContext =
  in_buf :: "byte list"
  in_pos :: nat
  in_end :: nat
  out_buf :: "byte list"
  out_pos :: nat
  out_end :: nat
  lzo_error :: nat

definition set_error :: "nat \<Rightarrow> LZOContext \<Rightarrow> LZOContext" where
  "set_error e c = c\<lparr>lzo_error := lzo_error c OR e\<rparr>"

text \<open>The value of a signed expression.\<close>

definition cint :: "int \<Rightarrow> int option" where
  "cint n = (if INT_MIN \<le> n \<and> n \<le> INT_MAX then Some n else None)"

definition get_byte :: "LZOContext \<Rightarrow> (int \<times> LZOContext) option" where
  "get_byte c =
     (if in_pos c < in_end c
      then do { b \<leftarrow> load (in_buf c) (in_pos c) 1; Some (uint (hd b), c\<lparr>in_pos := in_pos c + 1\<rparr>) }
      else Some (1, set_error AV_LZO_INPUT_DEPLETED c))"

definition GETB :: "LZOContext \<Rightarrow> (int \<times> LZOContext) option" where
  "GETB c = do { b \<leftarrow> load (in_buf c) (in_pos c) 1; Some (uint (hd b), c\<lparr>in_pos := in_pos c + 1\<rparr>) }"

text \<open>\<open>while (!(x = get_byte(c)))\<close> of \<open>get_len\<close>.\<close>

partial_function (option) get_len_loop :: "int \<Rightarrow> LZOContext \<Rightarrow> int \<Rightarrow> (int \<times> LZOContext) option" where
  "get_len_loop msk c cnt = do {
     (x, c) \<leftarrow> get_byte c;
     if x \<noteq> 0 then do { n \<leftarrow> cint (cnt + msk + x); Some (n, c) }
     else if cnt \<ge> INT_MAX - 1000 then do { n \<leftarrow> cint (cnt + msk + x); Some (n, set_error AV_LZO_ERROR c) }
     else do { cnt \<leftarrow> cint (cnt + 255); get_len_loop msk c cnt } }"

definition get_len :: "LZOContext \<Rightarrow> int \<Rightarrow> int \<Rightarrow> (int \<times> LZOContext) option" where
  "get_len c x msk = (let cnt = x AND msk in if cnt = 0 then get_len_loop msk c cnt else Some (cnt, c))"

text \<open>A count is cut to the room that is left, with an error.\<close>

definition clamp :: "nat \<Rightarrow> int \<Rightarrow> int \<Rightarrow> LZOContext \<Rightarrow> int \<times> LZOContext" where
  "clamp e cnt room c = (if cnt > room then (max room 0, set_error e c) else (cnt, c))"

definition lzo_copy :: "LZOContext \<Rightarrow> int \<Rightarrow> LZOContext option" where
  "lzo_copy c cnt =
     (if \<not> cnt \<ge> 0 then None
      else
        let src = in_pos c; dst = out_pos c;
            (cnt, c) = clamp AV_LZO_INPUT_DEPLETED cnt (int (in_end c) - int src) c;
            (cnt, c) = clamp AV_LZO_OUTPUT_FULL cnt (int (out_end c) - int dst) c
        in do {
          p \<leftarrow> load (in_buf c) src 4;
          out \<leftarrow> store (out_buf c) dst (AV_WL32 (AV_RL32 p));
          out \<leftarrow> (if cnt - 4 > 0
                 then do { p \<leftarrow> load (in_buf c) (src + 4) (nat (cnt - 4)); store out (dst + 4) p }
                 else Some out);
          Some (c\<lparr>out_buf := out, in_pos := src + nat cnt, out_pos := dst + nat cnt\<rparr>) })"

definition copy_backptr :: "LZOContext \<Rightarrow> int \<Rightarrow> int \<Rightarrow> LZOContext option" where
  "copy_backptr c bk cnt =
     (let dst = out_pos c
      in if \<not> cnt > 0 then None
         else if int dst < bk then Some (set_error AV_LZO_INVALID_BACKPTR c)
         else
           let (cnt, c) = clamp AV_LZO_OUTPUT_FULL cnt (int (out_end c) - int dst) c
           in do {
             out \<leftarrow> av_memcpy_backptr (out_buf c) dst (nat bk) (nat cnt);
             Some (c\<lparr>out_buf := out, out_pos := dst + nat cnt\<rparr>) })"

text \<open>One turn of the decoder's loop ends with the next instruction byte and state, or with the end marker.\<close>

datatype lzo_turn = Turn LZOContext int int | Done LZOContext

definition end_turn :: "LZOContext \<Rightarrow> int \<Rightarrow> int \<Rightarrow> int \<Rightarrow> lzo_turn option" where
  "end_turn c x bk cnt = do {
     n \<leftarrow> cint (cnt + 2);
     c \<leftarrow> copy_backptr c bk n;
     let state = x AND 3;
     c \<leftarrow> lzo_copy c state;
     (x, c) \<leftarrow> GETB c;
     Some (Turn c x state) }"

definition turn :: "LZOContext \<Rightarrow> int \<Rightarrow> int \<Rightarrow> lzo_turn option" where
  "turn c x state =
     (if x > 63 then do {
        let cnt = drop_bit 5 x - 1;
        (b, c) \<leftarrow> GETB c;
        end_turn c x (push_bit 3 b + (drop_bit 2 x AND 7) + 1) cnt }
      else if x > 31 then do {
        (cnt, c) \<leftarrow> get_len c x 31;
        (x, c) \<leftarrow> GETB c;
        (b, c) \<leftarrow> GETB c;
        end_turn c x (push_bit 6 b + drop_bit 2 x + 1) cnt }
      else if x > 15 then do {
        (cnt, c) \<leftarrow> get_len c x 7;
        let bk = 2 ^ 14 + push_bit 11 (x AND 8);
        (x, c) \<leftarrow> GETB c;
        (b, c) \<leftarrow> GETB c;
        let bk = bk + (push_bit 6 b + drop_bit 2 x);
        if bk = 2 ^ 14 then Some (Done (if cnt \<noteq> 1 then set_error AV_LZO_ERROR c else c))
        else end_turn c x bk cnt }
      else if state = 0 then do {
        (cnt, c) \<leftarrow> get_len c x 15;
        n \<leftarrow> cint (cnt + 3);
        c \<leftarrow> lzo_copy c n;
        (x, c) \<leftarrow> GETB c;
        if x > 15 then Some (Turn c x state)
        else do {
          (b, c) \<leftarrow> GETB c;
          end_turn c x (2 ^ 11 + push_bit 2 b + drop_bit 2 x + 1) 1 } }
      else do {
        (b, c) \<leftarrow> GETB c;
        end_turn c x (push_bit 2 b + drop_bit 2 x + 1) 0 })"

partial_function (option) decode_loop :: "LZOContext \<Rightarrow> int \<Rightarrow> int \<Rightarrow> LZOContext option" where
  "decode_loop c x state =
     (if lzo_error c \<noteq> 0 then Some c
      else do { t \<leftarrow> turn c x state;
                case t of Done c \<Rightarrow> Some c | Turn c x state \<Rightarrow> decode_loop c x state })"

definition decode_start :: "LZOContext \<Rightarrow> (int \<times> LZOContext) option" where
  "decode_start c = do {
     (x, c) \<leftarrow> GETB c;
     (x, c) \<leftarrow> (if x > 17 then do { c \<leftarrow> lzo_copy c (x - 17); (x, c) \<leftarrow> GETB c;
                                     Some (x, if x < 16 then set_error AV_LZO_ERROR c else c) }
               else Some (x, c));
     Some (x, if in_pos c > in_end c then set_error AV_LZO_INPUT_DEPLETED c else c) }"

text \<open>The return value, the bytes left in the output and in the input, the output buffer.\<close>

definition av_lzo1x_decode :: "byte list \<Rightarrow> int \<Rightarrow> byte list \<Rightarrow> int \<Rightarrow> (nat \<times> int \<times> int \<times> byte list) option" where
  "av_lzo1x_decode out outlen inp inlen =
     (if outlen \<le> 0 \<or> inlen \<le> 0
      then
        let res = 0;
            res = (if outlen \<le> 0 then res OR AV_LZO_OUTPUT_FULL else res);
            res = (if inlen \<le> 0 then res OR AV_LZO_INPUT_DEPLETED else res)
        in Some (res, outlen, inlen, out)
      else do {
        let c = \<lparr>in_buf = inp, in_pos = 0, in_end = nat inlen, out_buf = out, out_pos = 0, out_end = nat outlen, lzo_error = 0\<rparr>;
        (x, c) \<leftarrow> decode_start c;
        c \<leftarrow> decode_loop c x 0;
        Some (lzo_error c, int (out_end c) - int (out_pos c),
              if in_pos c > in_end c then 0 else int (in_end c) - int (in_pos c), out_buf c) })"

subsection \<open>The format\<close>

text \<open>The instructions of LZO1X, read from the bytes of the stream.  The state is the number of literals the
  instruction before has put out, 4 after a run of more; it tells what an instruction byte below 16 means.\<close>

datatype instr = Copy nat nat nat | Literals nat | Stop

fun long_length :: "nat \<Rightarrow> byte list \<Rightarrow> (nat \<times> byte list) option" where
  "long_length n [] = None"
| "long_length n (b # bs) = (if b = 0 then long_length (n + 255) bs else Some (n + unat b, bs))"

definition length_of :: "nat \<Rightarrow> nat \<Rightarrow> byte list \<Rightarrow> (nat \<times> byte list) option" where
  "length_of m n bs = (if n = 0 then long_length m bs else Some (n, bs))"

definition next_instr :: "nat \<Rightarrow> byte list \<Rightarrow> (instr \<times> byte list) option" where
  "next_instr S bs = (case bs of [] \<Rightarrow> None | b # r \<Rightarrow>
     let x = unat b
     in if x \<ge> 64
        then (case r of h # r \<Rightarrow> Some (Copy (8 * unat h + x div 4 mod 8 + 1) (x div 32 + 1) (x mod 4), r) | _ \<Rightarrow> None)
        else if x \<ge> 32
        then (case length_of 31 (x mod 32) r of
                Some (n, d # h # r) \<Rightarrow> Some (Copy (64 * unat h + unat d div 4 + 1) (n + 2) (unat d mod 4), r) | _ \<Rightarrow> None)
        else if x \<ge> 16
        then (case length_of 7 (x mod 8) r of
                Some (n, d # h # r) \<Rightarrow>
                  let dist = 16384 + 16384 * (x div 8 mod 2) + 64 * unat h + unat d div 4
                  in if dist \<noteq> 16384 then Some (Copy dist (n + 2) (unat d mod 4), r)
                     else if n = 1 then Some (Stop, r) else None
              | _ \<Rightarrow> None)
        else if S = 0
        then (case length_of 15 x r of Some (n, r) \<Rightarrow> Some (Literals (n + 3), r) | None \<Rightarrow> None)
        else (case r of h # r \<Rightarrow>
                if S = 4 then Some (Copy (4 * unat h + x div 4 + 2049) 3 (x mod 4), r)
                else Some (Copy (4 * unat h + x div 4 + 1) 2 (x mod 4), r)
              | [] \<Rightarrow> None))"

text \<open>What a stream decompresses to: the state, the input from the next instruction on, the output so far; the
  output at the end marker and what is left of the input then.\<close>

inductive lzo1x :: "nat \<Rightarrow> byte list \<Rightarrow> byte list \<Rightarrow> byte list \<Rightarrow> byte list \<Rightarrow> bool" where
  stop: "next_instr S bs = Some (Stop, r) \<Longrightarrow> lzo1x S bs out out r"
| copy: "next_instr S bs = Some (Copy d n l, r) \<Longrightarrow> d \<le> length out \<Longrightarrow> l \<le> length r \<Longrightarrow>
    lzo1x l (drop l r) (lz_copy d out n @ take l r) fin left \<Longrightarrow> lzo1x S bs out fin left"
| literals: "next_instr S bs = Some (Literals n, r) \<Longrightarrow> n \<le> length r \<Longrightarrow>
    lzo1x 4 (drop n r) (out @ take n r) fin left \<Longrightarrow> lzo1x S bs out fin left"

text \<open>A stream may begin with a literal run of \<open>x - 17\<close> bytes, which no instruction below 16 may follow.\<close>

definition lzo1x_stream :: "byte list \<Rightarrow> byte list \<Rightarrow> byte list \<Rightarrow> bool" where
  "lzo1x_stream bs fin left =
     (case bs of [] \<Rightarrow> False
      | b # r \<Rightarrow>
          if unat b > 17
          then let n = unat b - 17 in n < length r \<and> unat (r ! n) \<ge> 16 \<and> lzo1x 0 (drop n r) (take n r) fin left
          else lzo1x 0 bs [] fin left)"

subsection \<open>Reading\<close>

definition lzo_ok :: "LZOContext \<Rightarrow> bool" where
  "lzo_ok c \<longleftrightarrow> in_end c + AV_LZO_INPUT_PADDING \<le> length (in_buf c) \<and>
     out_end c + AV_LZO_OUTPUT_PADDING \<le> length (out_buf c) \<and> out_pos c \<le> out_end c"

definition moved :: "LZOContext \<Rightarrow> LZOContext \<Rightarrow> bool" where
  "moved c c' \<longleftrightarrow> in_buf c' = in_buf c \<and> in_end c' = in_end c \<and> out_end c' = out_end c \<and>
     length (out_buf c') = length (out_buf c) \<and> in_pos c \<le> in_pos c' \<and> (lzo_error c' = 0 \<longrightarrow> lzo_error c = 0)"

abbreviation to_read :: "LZOContext \<Rightarrow> byte list" where
  "to_read c \<equiv> drop (in_pos c) (in_buf c)"

abbreviation written :: "LZOContext \<Rightarrow> byte list" where
  "written c \<equiv> take (out_pos c) (out_buf c)"

lemma moved_refl [simp]: "moved c c"
  by (simp add: moved_def)

lemma moved_trans: "moved a b \<Longrightarrow> moved b c \<Longrightarrow> moved a c"
  by (simp add: moved_def)

lemma lzo_error_set [simp]: "lzo_error (set_error e c) = lzo_error c OR e"
  by (simp add: set_error_def)

lemma set_error_simps [simp]:
  "in_buf (set_error e c) = in_buf c" "in_pos (set_error e c) = in_pos c" "in_end (set_error e c) = in_end c"
  "out_buf (set_error e c) = out_buf c" "out_pos (set_error e c) = out_pos c" "out_end (set_error e c) = out_end c"
  by (simp_all add: set_error_def)

lemma error_or [simp]: "(a :: nat) OR b = 0 \<longleftrightarrow> a = 0 \<and> b = 0"
  by (auto simp: bit_eq_iff bit_or_iff)

lemma set_error_moved: "moved c (set_error e c)" "lzo_ok (set_error e c) = lzo_ok c"
  by (simp_all add: moved_def lzo_ok_def)

lemma load_1: "p < length buf \<Longrightarrow> load buf p 1 = Some [buf ! p]"
  by (simp add: load_def take_Suc_conv_app_nth hd_drop_conv_nth take_Suc)

text \<open>A byte read without a check.\<close>

lemma GETB_value:
  assumes "in_pos c < length (in_buf c)"
  obtains b where "GETB c = Some (uint (b :: byte), c\<lparr>in_pos := in_pos c + 1\<rparr>)" "to_read c = b # drop (in_pos c + 1) (in_buf c)"
  using that [of "in_buf c ! in_pos c"] assms by (simp add: GETB_def load_1 [OF assms, unfolded One_nat_def] Cons_nth_drop_Suc)

lemma get_byte_value:
  assumes "lzo_ok c" "in_pos c < in_end c"
  obtains b where "get_byte c = Some (uint (b :: byte), c\<lparr>in_pos := in_pos c + 1\<rparr>)" "to_read c = b # drop (in_pos c + 1) (in_buf c)"
proof -
  have "in_pos c < length (in_buf c)" using assms by (simp add: lzo_ok_def)
  note l = load_1 [OF this]
  show thesis
    using that [of "in_buf c ! in_pos c"] assms l \<open>in_pos c < length (in_buf c)\<close>
    by (simp add: get_byte_def Cons_nth_drop_Suc)
qed

lemma unat_byte_le: "unat (b :: byte) \<le> 255"
proof -
  have "int (unat b) \<le> 255" using uint_bounded [of b] by simp
  then show ?thesis by linarith
qed

lemma byte_range: "0 \<le> uint (b :: byte)" "uint (b :: byte) \<le> 255"
  using uint_bounded [of b] by simp_all

text \<open>A length is read from the input; at its end the decoder stops with an error.\<close>

definition length_read :: "LZOContext \<Rightarrow> LZOContext \<Rightarrow> bool" where
  "length_read c c' \<longleftrightarrow> moved c c' \<and> out_buf c' = out_buf c \<and> out_pos c' = out_pos c \<and> in_pos c' \<le> max (in_pos c) (in_end c)"

lemma length_read_ok: "length_read c c' \<Longrightarrow> lzo_ok c \<Longrightarrow> lzo_ok c'"
  by (simp add: length_read_def lzo_ok_def moved_def)

lemma length_read_trans:
  "length_read a b \<Longrightarrow> length_read b c \<Longrightarrow> length_read a c"
  by (auto simp: length_read_def moved_def)

lemma get_len_loop_value:
  assumes "0 < m" "m \<le> 31"
  shows "lzo_ok c \<Longrightarrow> int n < INT_MAX - 745 \<Longrightarrow>
    \<exists>k c'. get_len_loop (int m) c (int n) = Some (int k, c') \<and> 0 < k \<and> int k \<le> INT_MAX - 3 \<and> length_read c c' \<and>
      (lzo_error c' = 0 \<longrightarrow> long_length (n + m) (to_read c) = Some (k, to_read c'))"
proof (induction "in_end c - in_pos c" arbitrary: c n rule: less_induct)
  case less
  note step = get_len_loop.simps [of "int m" c "int n"]
  have sum: "cint (int n + int m + int j) = Some (int (n + m + j))" if "j \<le> 255" for j
    using less.prems(2) assms that by (simp add: cint_def)
  have bound: "0 < n + m + j" "int (n + m + j) \<le> INT_MAX - 3" if "j \<le> 255" for j
    using less.prems(2) assms that by simp_all
  show ?case
  proof (cases "in_pos c < in_end c")
    case False
    then have g: "get_byte c = Some (1, set_error AV_LZO_INPUT_DEPLETED c)" by (simp add: get_byte_def)
    have "get_len_loop (int m) c (int n) = Some (int (n + m + 1), set_error AV_LZO_INPUT_DEPLETED c)"
      unfolding step g using sum [of 1] by simp
    moreover have "length_read c (set_error AV_LZO_INPUT_DEPLETED c)" by (simp add: length_read_def moved_def)
    ultimately show ?thesis using bound [of 1] by (intro exI [of _ "n + m + 1"] exI [of _ "set_error AV_LZO_INPUT_DEPLETED c"]) simp
  next
    case True
    let ?c = "c\<lparr>in_pos := in_pos c + 1\<rparr>"
    obtain b where b: "get_byte c = Some (uint (b :: byte), ?c)" "to_read c = b # drop (in_pos c + 1) (in_buf c)"
      by (rule get_byte_value [OF less.prems(1) True])
    have ok: "lzo_ok ?c" using less.prems(1) by (simp add: lzo_ok_def)
    have r: "length_read c ?c" using True by (simp add: length_read_def moved_def)
    have ub: "uint b = int (unat b)" "unat b \<le> 255" using unat_byte_le by simp_all
    show ?thesis
    proof (cases "b = 0")
      case False
      then have nz: "uint b \<noteq> 0" by (simp add: uint_0_iff)
      have "cint (int n + int m + uint b) = Some (int (n + m + unat b))" unfolding ub(1) by (rule sum [OF ub(2)])
      then have "get_len_loop (int m) c (int n) = Some (int (n + m + unat b), ?c)"
        unfolding step b(1) using nz by simp
      then show ?thesis
        using bound [OF ub(2)] r b(2) False by (intro exI [of _ "n + m + unat b"] exI [of _ ?c]) simp
    next
      case zero: True
      show ?thesis
      proof (cases "int n \<ge> INT_MAX - 1000")
        case True
        then have "get_len_loop (int m) c (int n) = Some (int (n + m + 0), set_error AV_LZO_ERROR ?c)"
          unfolding step b(1) using sum [of 0] zero by simp
        moreover have "length_read c (set_error AV_LZO_ERROR ?c)" using r by (simp add: length_read_def moved_def)
        ultimately show ?thesis using bound [of 0] by (intro exI [of _ "n + m + 0"] exI [of _ "set_error AV_LZO_ERROR ?c"]) simp
      next
        case False
        have e: "get_len_loop (int m) c (int n) = get_len_loop (int m) ?c (int (n + 255))"
          unfolding step b(1) using False zero by (simp add: cint_def)
        have "in_end ?c - in_pos ?c < in_end c - in_pos c" using \<open>in_pos c < in_end c\<close> by simp
        then have "\<exists>k c'. get_len_loop (int m) ?c (int (n + 255)) = Some (int k, c') \<and> 0 < k \<and> int k \<le> INT_MAX - 3 \<and> length_read ?c c' \<and>
            (lzo_error c' = 0 \<longrightarrow> long_length (n + 255 + m) (to_read ?c) = Some (k, to_read c'))"
          using False by (intro less.hyps [OF _ ok]) simp_all
        then obtain k c' where k: "get_len_loop (int m) ?c (int (n + 255)) = Some (int k, c')" "0 < k" "int k \<le> INT_MAX - 3"
          "length_read ?c c'" "lzo_error c' = 0 \<longrightarrow> long_length (n + 255 + m) (to_read ?c) = Some (k, to_read c')"
          by (elim exE conjE) (rule that)
        have "lzo_error c' = 0 \<longrightarrow> long_length (n + m) (to_read c) = Some (k, to_read c')"
          using k(5) b(2) zero by (simp add: ac_simps)
        then show ?thesis using k(1-3) e length_read_trans [OF r k(4)] by (intro exI [of _ k] exI [of _ c']) simp
      qed
    qed
  qed
qed

lemma get_len_value:
  assumes "lzo_ok c" "0 < m" "m \<le> 31" "x AND int m = int n" "n \<le> 31"
  obtains k c' where "get_len c x (int m) = Some (int k, c')" "0 < k" "int k \<le> INT_MAX - 3" "length_read c c'"
    "lzo_error c' = 0 \<Longrightarrow> length_of m n (to_read c) = Some (k, to_read c')"
proof (cases "n = 0")
  case True
  have "int 0 < INT_MAX - 745" by simp
  from get_len_loop_value [OF assms(2,3,1) this]
  obtain k c' where "get_len_loop (int m) c (int 0) = Some (int k, c')" "0 < k" "int k \<le> INT_MAX - 3" "length_read c c'"
    "lzo_error c' = 0 \<longrightarrow> long_length (0 + m) (to_read c) = Some (k, to_read c')"
    by (elim exE conjE) (rule that)
  then show thesis using that [of k c'] True assms(4) by (simp add: get_len_def length_of_def)
next
  case False
  then show thesis using that [of n c] assms(4,5) by (simp add: get_len_def length_of_def length_read_def)
qed

subsection \<open>Copying\<close>

text \<open>The count that is left of \<open>cnt\<close> when the room is \<open>room\<close>.\<close>

lemma clamp_value:
  assumes "0 \<le> cnt"
  obtains k e where "clamp f cnt room c = (int k, c\<lparr>lzo_error := e\<rparr>)" "int k \<le> cnt" "int k \<le> max room 0"
    "e = 0 \<and> f \<noteq> 0 \<Longrightarrow> int k = cnt \<and> cnt \<le> room \<and> lzo_error c = 0" "e = 0 \<Longrightarrow> lzo_error c = 0"
proof (cases "cnt > room")
  case True
  show thesis
    by (rule that [of "nat (max room 0)" "lzo_error c OR f"]) (use True assms in \<open>simp_all add: clamp_def set_error_def\<close>)
next
  case False
  show thesis by (rule that [of "nat cnt" "lzo_error c"]) (use False assms in \<open>simp_all add: clamp_def\<close>)
qed

lemma take_store:
  "store buf p bs = Some buf' \<Longrightarrow> take (p + length bs) buf' = take p buf @ bs \<and> length buf' = length buf"
  by (auto simp: store_def split: if_splits)

lemma store_fits: "p + length bs \<le> length buf \<Longrightarrow> \<exists>buf'. store buf p bs = Some buf'"
  by (simp add: store_def)

text \<open>Four bytes at once, then the rest: the first \<open>k\<close> bytes stored are those read.\<close>

lemma copy_in_two:
  assumes "src + max 4 k \<le> length inp" "dst + max 4 k \<le> length out"
  obtains out1 out2 where "store out dst (AV_WL32 (AV_RL32 (take 4 (drop src inp)))) = Some out1"
    "(if int k - 4 > 0 then do { p \<leftarrow> load inp (src + 4) (nat (int k - 4)); store out1 (dst + 4) p } else Some out1) = Some out2"
    "take (dst + k) out2 = take dst out @ take k (drop src inp)" "length out2 = length out"
proof -
  let ?p = "take 4 (drop src inp)"
  have p: "AV_WL32 (AV_RL32 ?p) = ?p" "length ?p = 4" using assms(1) by (simp_all add: wr32)
  have "dst + length ?p \<le> length out" using assms(2) p(2) by simp
  then obtain out1 where o: "store out dst ?p = Some out1" using store_fits by blast
  have o1: "take (dst + 4) out1 = take dst out @ ?p" "length out1 = length out" using take_store [OF o] p(2) by simp_all
  show thesis
  proof (cases "k > 4")
    case False
    have "take (dst + k) out1 = take (dst + k) (take (dst + 4) out1)" using False by (simp add: min_def)
    also have "\<dots> = take dst out @ take k (drop src inp)" unfolding o1 using assms False by (simp add: min_def)
    finally show thesis using that [of out1 out1] o o1(2) False p(1) by simp
  next
    case True
    let ?q = "take (k - 4) (drop (src + 4) inp)"
    have n: "nat (int k - 4) = k - 4" using True by simp
    have q: "load inp (src + 4) (k - 4) = Some ?q" "length ?q = k - 4" using assms(1) True by (simp_all add: load_def)
    have "dst + 4 + length ?q \<le> length out1" using assms(2) True q(2) o1(2) by simp
    then obtain out2 where o': "store out1 (dst + 4) ?q = Some out2" using store_fits by blast
    have "take (dst + k) out2 = take (dst + 4) out1 @ ?q" "length out2 = length out1"
      using take_store [OF o'] q(2) True by simp_all
    moreover have "?p @ ?q = take k (drop src inp)"
      using True take_add [of 4 "k - 4" "drop src inp"] by (simp add: add.commute)
    ultimately show thesis using that [of out1 out2] o o1 o' q(1) n p(1) True by simp
  qed
qed

lemma lzo_copy_value:
  assumes "lzo_ok c" "in_pos c \<le> in_end c + 4" "0 \<le> cnt"
  obtains c' where "lzo_copy c cnt = Some c'" "lzo_ok c'" "moved c c'" "in_pos c' \<le> max (in_pos c) (in_end c)"
    "lzo_error c' = 0 \<Longrightarrow> in_pos c' \<le> in_end c \<and> nat cnt \<le> length (to_read c) \<and> to_read c' = drop (nat cnt) (to_read c) \<and>
       written c' = written c @ take (nat cnt) (to_read c)"
proof -
  obtain j e1 where j: "clamp AV_LZO_INPUT_DEPLETED cnt (int (in_end c) - int (in_pos c)) c = (int j, c\<lparr>lzo_error := e1\<rparr>)"
    "int j \<le> max (int (in_end c) - int (in_pos c)) 0"
    "e1 = 0 \<Longrightarrow> int j = cnt \<and> cnt \<le> int (in_end c) - int (in_pos c) \<and> lzo_error c = 0"
    by (rule clamp_value [OF assms(3), of AV_LZO_INPUT_DEPLETED "int (in_end c) - int (in_pos c)" c]) simp
  let ?c = "c\<lparr>lzo_error := e1\<rparr>"
  obtain k e where k: "clamp AV_LZO_OUTPUT_FULL (int j) (int (out_end c) - int (out_pos c)) ?c = (int k, ?c\<lparr>lzo_error := e\<rparr>)"
    "k \<le> j" "int k \<le> max (int (out_end c) - int (out_pos c)) 0" "e = 0 \<Longrightarrow> int k = int j \<and> e1 = 0"
    by (rule clamp_value [of "int j" AV_LZO_OUTPUT_FULL "int (out_end c) - int (out_pos c)" ?c]) simp_all
  have ok: "in_end c + 8 \<le> length (in_buf c)" "out_end c + 12 \<le> length (out_buf c)" "out_pos c \<le> out_end c"
    using assms(1) by (simp_all add: lzo_ok_def)
  have "in_pos c + max 4 k \<le> length (in_buf c)" "out_pos c + max 4 k \<le> length (out_buf c)"
    using j(2) k(2,3) ok assms(2) by auto
  then obtain out1 out2 where out: "store (out_buf c) (out_pos c) (AV_WL32 (AV_RL32 (take 4 (drop (in_pos c) (in_buf c))))) = Some out1"
    "(if int k - 4 > 0 then do { p \<leftarrow> load (in_buf c) (in_pos c + 4) (nat (int k - 4)); store out1 (out_pos c + 4) p } else Some out1) = Some out2"
    "take (out_pos c + k) out2 = take (out_pos c) (out_buf c) @ take k (drop (in_pos c) (in_buf c))" "length out2 = length (out_buf c)"
    by (rule copy_in_two)
  let ?r = "c\<lparr>lzo_error := e, out_buf := out2, in_pos := in_pos c + k, out_pos := out_pos c + k\<rparr>"
  have l: "load (in_buf c) (in_pos c) 4 = Some (take 4 (drop (in_pos c) (in_buf c)))"
    using ok(1) assms(2) by (simp add: load_def)
  have "lzo_copy c cnt = Some ?r"
    using assms(3) j(1) k(1) l out(1,2) by (simp add: lzo_copy_def Let_def split del: if_split cong: if_cong)
  moreover have "lzo_ok ?r" using ok out(4) k(3) by (simp add: lzo_ok_def)
  moreover have "moved c ?r" using out(4) j(3) k(4) by (simp add: moved_def)
  moreover have "in_pos ?r \<le> max (in_pos c) (in_end c)" using j(2) k(2) by simp
  moreover have "in_pos ?r \<le> in_end c \<and> nat cnt \<le> length (to_read c) \<and> to_read ?r = drop (nat cnt) (to_read c) \<and>
       written ?r = written c @ take (nat cnt) (to_read c)" if "lzo_error ?r = 0"
  proof -
    have "e = 0" using that by simp
    then have "int k = cnt" "cnt \<le> int (in_end c) - int (in_pos c)" using k(4) j(3) by simp_all
    then have "nat cnt = k" "in_pos c + k \<le> in_end c" by linarith+
    then show ?thesis using out(3) ok(1) by (simp add: add.commute)
  qed
  ultimately show thesis by (rule that)
qed

lemma lzo_copy_nat:
  assumes "lzo_ok c" "in_pos c \<le> in_end c + 4"
  obtains c' where "lzo_copy c (int n) = Some c'" "lzo_ok c'" "moved c c'" "in_pos c' \<le> max (in_pos c) (in_end c)"
    "lzo_error c' = 0 \<longrightarrow> in_pos c' \<le> in_end c \<and> n \<le> length (to_read c) \<and> to_read c' = drop n (to_read c) \<and>
       written c' = written c @ take n (to_read c)"
proof -
  have "0 \<le> int n" by simp
  from lzo_copy_value [OF assms this, unfolded nat_int] show thesis using that by metis
qed

lemma length_written: "lzo_ok c \<Longrightarrow> length (written c) = out_pos c"
  by (simp add: lzo_ok_def)

lemma copy_backptr_value:
  assumes "lzo_ok c" "0 < bk" "0 < cnt"
  obtains c' where "copy_backptr c bk cnt = Some c'" "lzo_ok c'" "moved c c'" "in_pos c' = in_pos c"
    "lzo_error c' = 0 \<Longrightarrow> nat bk \<le> length (written c) \<and> written c' = lz_copy (nat bk) (written c) (nat cnt)"
proof (cases "int (out_pos c) < bk")
  case True
  show thesis
    by (rule that [of "set_error AV_LZO_INVALID_BACKPTR c"])
      (use assms True in \<open>simp_all add: copy_backptr_def set_error_moved\<close>)
next
  case False
  obtain k e where k: "clamp AV_LZO_OUTPUT_FULL cnt (int (out_end c) - int (out_pos c)) c = (int k, c\<lparr>lzo_error := e\<rparr>)"
    "int k \<le> max (int (out_end c) - int (out_pos c)) 0" "e = 0 \<Longrightarrow> int k = cnt \<and> lzo_error c = 0"
    by (rule clamp_value [of cnt AV_LZO_OUTPUT_FULL "int (out_end c) - int (out_pos c)" c]) (use assms(3) in simp_all)
  let ?pre = "written c" and ?rest = "drop (out_pos c) (out_buf c)"
  have ok: "in_end c + 8 \<le> length (in_buf c)" "out_end c + 12 \<le> length (out_buf c)" "out_pos c \<le> out_end c"
    using assms(1) by (simp_all add: lzo_ok_def)
  have len: "length ?pre = out_pos c" by (rule length_written [OF assms(1)])
  have room: "k \<le> out_end c - out_pos c" using k(2) ok(3) by auto
  have m: "av_memcpy_backptr (?pre @ ?rest) (length ?pre) (nat bk) k = Some (lz_copy (nat bk) ?pre k @ drop k ?rest)"
    by (rule memcpy_backptr_value) (use assms(2) False len room ok in simp_all)
  let ?r = "c\<lparr>lzo_error := e, out_buf := lz_copy (nat bk) ?pre k @ drop k ?rest, out_pos := out_pos c + k\<rparr>"
  have "copy_backptr c bk cnt = Some ?r"
    using assms(3) False k(1) m len by (simp add: copy_backptr_def Let_def)
  moreover have "length (out_buf ?r) = length (out_buf c)" using len ok room by simp
  then have "lzo_ok ?r" "moved c ?r" using ok room k(3) by (simp_all add: lzo_ok_def moved_def)
  moreover have "in_pos ?r = in_pos c" by simp
  moreover have "nat bk \<le> length ?pre \<and> written ?r = lz_copy (nat bk) ?pre (nat cnt)" if "lzo_error ?r = 0"
    using that k(3) False len by auto
  ultimately show thesis by (rule that)
qed

lemma end_turn_value:
  assumes "lzo_ok c" "in_pos c \<le> in_end c + 3" "0 < bk" "0 \<le> cnt" "cnt \<le> INT_MAX - 2" "x AND 3 = int l"
  obtains c' b where "end_turn c x bk cnt = Some (Turn c' (uint (b :: byte)) (int l))" "lzo_ok c'" "moved c c'" "in_pos c < in_pos c'"
    "lzo_error c' = 0 \<longrightarrow> in_pos c' \<le> in_end c' + 1 \<and> nat bk \<le> length (written c) \<and> l \<le> length (to_read c) \<and>
       b # to_read c' = drop l (to_read c) \<and> written c' = lz_copy (nat bk) (written c) (nat cnt + 2) @ take l (to_read c)"
proof -
  have n: "cint (cnt + 2) = Some (cnt + 2)" "0 < cnt + 2" using assms(4,5) by (simp_all add: cint_def)
  obtain c1 where c1: "copy_backptr c bk (cnt + 2) = Some c1" "lzo_ok c1" "moved c c1" "in_pos c1 = in_pos c"
    "lzo_error c1 = 0 \<Longrightarrow> nat bk \<le> length (written c) \<and> written c1 = lz_copy (nat bk) (written c) (nat (cnt + 2))"
    using copy_backptr_value [OF assms(1,3) n(2)] by metis
  have e: "in_end c1 = in_end c" "in_buf c1 = in_buf c" using c1(3) by (simp_all add: moved_def)
  have i1: "in_pos c1 \<le> in_end c1 + 4" using assms(2) c1(4) e by simp
  obtain c2 where c2: "lzo_copy c1 (int l) = Some c2" "lzo_ok c2" "moved c1 c2" "in_pos c2 \<le> max (in_pos c1) (in_end c1)"
    "lzo_error c2 = 0 \<Longrightarrow> in_pos c2 \<le> in_end c1 \<and> nat (int l) \<le> length (to_read c1) \<and> to_read c2 = drop (nat (int l)) (to_read c1) \<and>
       written c2 = written c1 @ take (nat (int l)) (to_read c1)"
    by (rule lzo_copy_value [OF c1(2) i1, of "int l"]) simp_all
  have e2: "in_end c2 = in_end c" "in_pos c \<le> in_pos c2" using c2(3) c1(4) e by (simp_all add: moved_def)
  have "in_pos c2 < length (in_buf c2)" using c2(2,4) i1 assms(2) c1(4) e e2 by (auto simp: lzo_ok_def)
  then obtain b where b: "GETB c2 = Some (uint (b :: byte), c2\<lparr>in_pos := in_pos c2 + 1\<rparr>)" "to_read c2 = b # drop (in_pos c2 + 1) (in_buf c2)"
    by (rule GETB_value)
  let ?r = "c2\<lparr>in_pos := in_pos c2 + 1\<rparr>"
  have "end_turn c x bk cnt = Some (Turn ?r (uint b) (int l))"
    by (simp add: end_turn_def n(1) c1(1) assms(6) c2(1) b(1))
  moreover have "lzo_ok ?r" using c2(2) by (simp add: lzo_ok_def)
  moreover have "moved c ?r" using moved_trans [OF c1(3) c2(3)] by (simp add: moved_def)
  moreover have "in_pos c < in_pos ?r" using e2 by simp
  moreover
  have "in_pos ?r \<le> in_end ?r + 1 \<and> nat bk \<le> length (written c) \<and> l \<le> length (to_read c) \<and>
       b # to_read ?r = drop l (to_read c) \<and> written ?r = lz_copy (nat bk) (written c) (nat cnt + 2) @ take l (to_read c)"
    if r0: "lzo_error ?r = 0"
  proof -
    have z: "lzo_error c2 = 0" using r0 by simp
    then have z1: "lzo_error c1 = 0" using c2(3) by (simp add: moved_def)
    have "nat (cnt + 2) = nat cnt + 2" using assms(4) by simp
    then show ?thesis using c2(5) [OF z] c1(4) c1(5) [OF z1] b(2) e e2 by simp
  qed
  then have "lzo_error ?r = 0 \<longrightarrow> in_pos ?r \<le> in_end ?r + 1 \<and> nat bk \<le> length (written c) \<and> l \<le> length (to_read c) \<and>
       b # to_read ?r = drop l (to_read c) \<and> written ?r = lz_copy (nat bk) (written c) (nat cnt + 2) @ take l (to_read c)"
    by (rule impI)
  ultimately show thesis by (rule that)
qed

subsection \<open>A turn of the loop\<close>

lemma next_instr_state: "unat b \<ge> 16 \<Longrightarrow> next_instr S (b # r) = next_instr S' (b # r)"
  by (simp add: next_instr_def Let_def)

lemma lzo1x_state:
  assumes "lzo1x S (b # r) out fin left" "unat b \<ge> 16"
  shows "lzo1x S' (b # r) out fin left"
proof -
  have eq: "next_instr S' (b # r) = next_instr S (b # r)" by (rule next_instr_state [OF assms(2)])
  show ?thesis using assms(1) by (cases rule: lzo1x.cases) (use eq in \<open>auto intro: lzo1x.intros\<close>)
qed

text \<open>What a turn from the instruction byte \<open>b\<close> on has to do, in the state \<open>S\<close> of the format.\<close>

definition resumes :: "nat \<Rightarrow> byte \<Rightarrow> LZOContext \<Rightarrow> nat \<Rightarrow> byte \<Rightarrow> LZOContext \<Rightarrow> bool" where
  "resumes S b c S' b' c' \<longleftrightarrow>
     (\<forall>fin left. lzo1x S' (b' # to_read c') (written c') fin left \<longrightarrow> lzo1x S (b # to_read c) (written c) fin left)"

fun turn_ok :: "nat \<Rightarrow> byte \<Rightarrow> LZOContext \<Rightarrow> lzo_turn \<Rightarrow> bool" where
  "turn_ok S b c (Done c') \<longleftrightarrow> lzo_ok c' \<and> moved c c' \<and>
     (lzo_error c' = 0 \<longrightarrow> next_instr S (b # to_read c) = Some (Stop, to_read c') \<and> written c' = written c)"
| "turn_ok S b c (Turn c' x st) \<longleftrightarrow> lzo_ok c' \<and> moved c c' \<and> in_pos c < in_pos c' \<and>
     (\<exists>b' S'. x = uint b' \<and> st = int S' \<and> S' \<le> 3 \<and>
        (lzo_error c' = 0 \<longrightarrow> in_pos c' \<le> in_end c' + 1 \<and> resumes S b c S' b' c'))"

lemma turn_copy:
  assumes "lzo_ok c1" "moved c c1" "in_pos c1 \<le> in_end c1 + 3" "written c1 = written c" "0 < bk" "cnt \<le> INT_MAX - 2"
    "x AND 3 = int l" "l \<le> 3"
    and "lzo_error c1 = 0 \<Longrightarrow> next_instr S (b # to_read c) = Some (Copy (nat bk) (nat cnt + 2) l, to_read c1)" "0 \<le> cnt"
  shows "\<exists>c' b'. end_turn c1 x bk cnt = Some (Turn c' (uint (b' :: byte)) (int l)) \<and> turn_ok S b c (Turn c' (uint b') (int l))"
proof -
  obtain c' b' where t: "end_turn c1 x bk cnt = Some (Turn c' (uint (b' :: byte)) (int l))" "lzo_ok c'" "moved c1 c'" "in_pos c1 < in_pos c'"
    "lzo_error c' = 0 \<longrightarrow> in_pos c' \<le> in_end c' + 1 \<and> nat bk \<le> length (written c1) \<and> l \<le> length (to_read c1) \<and>
       b' # to_read c' = drop l (to_read c1) \<and> written c' = lz_copy (nat bk) (written c1) (nat cnt + 2) @ take l (to_read c1)"
    by (rule end_turn_value [OF assms(1,3,5,10,6,7)])
  have step: "resumes S b c l b' c'" if z: "lzo_error c' = 0"
    unfolding resumes_def
  proof (intro allI impI)
    fix fin left assume r: "lzo1x l (b' # to_read c') (written c') fin left"
    have "lzo_error c1 = 0" using t(3) z by (simp add: moved_def)
    from lzo1x.copy [OF assms(9) [OF this]] show "lzo1x S (b # to_read c) (written c) fin left" using t(5) z r assms(4) by simp
  qed
  have "in_pos c < in_pos c'" using t(4) assms(2) by (simp add: moved_def)
  then have "turn_ok S b c (Turn c' (uint b') (int l))"
    unfolding turn_ok.simps using t(2,5) moved_trans [OF assms(2) t(3)] assms(8) step
    by (auto intro!: exI [of _ b'] exI [of _ l])
  then show ?thesis using t(1) by blast
qed

lemma resumes_literals:
  assumes "resumes 4 b' c3 S' b'' c'" "next_instr 0 (b # to_read c) = Some (Literals n, r)" "n \<le> length r"
    "drop n r = b' # to_read c3" "written c3 = written c @ take n r"
  shows "resumes 0 b c S' b'' c'"
proof -
  have "lzo1x 4 (b' # to_read c3) (written c3) fin left \<Longrightarrow> lzo1x 0 (b # to_read c) (written c) fin left" for fin left
    using lzo1x.literals [OF assms(2,3), of "written c" fin left] assms(4,5) by simp
  then show ?thesis using assms(1) unfolding resumes_def by blast
qed

lemma turn_literals:
  assumes "turn_ok 4 b' c3 (Turn c' x st)" "moved c c3" "in_pos c < in_pos c3"
    and "lzo_error c3 = 0 \<Longrightarrow> next_instr 0 (b # to_read c) = Some (Literals n, r) \<and> n \<le> length r \<and>
      drop n r = b' # to_read c3 \<and> written c3 = written c @ take n r"
  shows "turn_ok 0 b c (Turn c' x st)"
proof -
  obtain b'' S' where s: "lzo_ok c'" "moved c3 c'" "in_pos c3 < in_pos c'" "x = uint b''" "st = int S'" "S' \<le> 3"
    "lzo_error c' = 0 \<longrightarrow> in_pos c' \<le> in_end c' + 1 \<and> resumes 4 b' c3 S' b'' c'"
    using assms(1) unfolding turn_ok.simps by (elim conjE exE) (rule that)
  have "resumes 0 b c S' b'' c'" if z: "lzo_error c' = 0"
  proof -
    have "lzo_error c3 = 0" using s(2) z by (simp add: moved_def)
    then show ?thesis using resumes_literals [of b' c3 S' b'' c' b c n r] assms(4) s(7) z by blast
  qed
  moreover have "in_pos c < in_pos c'" using s(3) assms(3) by simp
  ultimately show ?thesis unfolding turn_ok.simps using s(1,4-7) moved_trans [OF assms(2) s(2)]
    by (auto intro!: exI [of _ b''] exI [of _ S'])
qed

subsection \<open>Shifts and masks of a byte\<close>

lemma and_masks: "int n AND 3 = int (n mod 4)" "int n AND 7 = int (n mod 8)" "int n AND 15 = int (n mod 16)" "int n AND 31 = int (n mod 32)"
proof -
  have "int n AND int (2 ^ k - 1) = int (n mod 2 ^ k)" for k
    by (simp add: take_bit_eq_mask [symmetric] mask_eq_exp_minus_1 [symmetric] take_bit_eq_mod zmod_int of_nat_diff)
  from this [of 2] this [of 3] this [of 4] this [of 5]
  show "int n AND 3 = int (n mod 4)" "int n AND 7 = int (n mod 8)" "int n AND 15 = int (n mod 16)" "int n AND 31 = int (n mod 32)"
    by simp_all
qed

lemma shifts: "drop_bit k (int n) = int (n div 2 ^ k)" "push_bit k (int n) = int (n * 2 ^ k)"
  by (simp_all add: drop_bit_eq_div push_bit_eq_mult zdiv_int)

lemma and_8:
  assumes "16 \<le> n" "n < 32"
  shows "push_bit 11 (int n AND 8) = int (16384 * (n div 8 mod 2))"
proof -
  have "n = 16 \<or> n = 17 \<or> n = 18 \<or> n = 19 \<or> n = 20 \<or> n = 21 \<or> n = 22 \<or> n = 23 \<or> n = 24 \<or> n = 25 \<or> n = 26 \<or> n = 27 \<or>
      n = 28 \<or> n = 29 \<or> n = 30 \<or> n = 31"
    using assms by presburger
  then show ?thesis by (elim disjE) simp_all
qed

text \<open>An unchecked read; the byte as a number.\<close>

lemma GETB_step:
  assumes "lzo_ok c1" "in_pos c1 \<le> in_end c1 + 7"
  obtains b n where "GETB c1 = Some (int n, c1\<lparr>in_pos := in_pos c1 + 1\<rparr>)" "to_read c1 = b # drop (in_pos c1 + 1) (in_buf c1)"
    "lzo_ok (c1\<lparr>in_pos := in_pos c1 + 1\<rparr>)" "moved c1 (c1\<lparr>in_pos := in_pos c1 + 1\<rparr>)"
    "n = unat (b :: byte)" "n \<le> 255" "uint b = int n"
proof -
  have "in_pos c1 < length (in_buf c1)" using assms by (simp add: lzo_ok_def)
  then obtain b where b: "GETB c1 = Some (uint (b :: byte), c1\<lparr>in_pos := in_pos c1 + 1\<rparr>)" "to_read c1 = b # drop (in_pos c1 + 1) (in_buf c1)"
    by (rule GETB_value)
  have ub: "uint b = int (unat b)" by simp
  have "lzo_ok (c1\<lparr>in_pos := in_pos c1 + 1\<rparr>)" "moved c1 (c1\<lparr>in_pos := in_pos c1 + 1\<rparr>)"
    using assms(1) by (simp_all add: lzo_ok_def moved_def)
  then show thesis by (rule that [OF b(1) [unfolded ub] b(2) _ _ refl unat_byte_le ub])
qed

definition instr_ok :: "nat \<Rightarrow> byte \<Rightarrow> int \<Rightarrow> int \<Rightarrow> LZOContext \<Rightarrow> bool" where
  "instr_ok S b x st c \<longleftrightarrow> (\<exists>t. turn c x st = Some t \<and> turn_ok S b c t)"

lemma instr_okI:
  assumes "\<exists>c' b'. end_turn c1 x' bk cnt = Some (Turn c' (uint (b' :: byte)) (int l)) \<and> turn_ok S b c (Turn c' (uint b') (int l))"
    "turn c x st = end_turn c1 x' bk cnt"
  shows "instr_ok S b x st c"
  using assms by (auto simp: instr_ok_def)

lemma turn_m2:
  assumes "lzo_ok c" "in_pos c \<le> in_end c + 1" "unat b = n" "64 \<le> n"
  shows "instr_ok S b (int n) st c"
proof -
  have i7: "in_pos c \<le> in_end c + 7" using assms(2) by simp
  obtain h k where h: "GETB c = Some (int k, c\<lparr>in_pos := in_pos c + 1\<rparr>)" "to_read c = h # drop (in_pos c + 1) (in_buf c)"
    "lzo_ok (c\<lparr>in_pos := in_pos c + 1\<rparr>)" "moved c (c\<lparr>in_pos := in_pos c + 1\<rparr>)" "k = unat (h :: byte)" "k \<le> 255" "uint h = int k"
    by (rule GETB_step [OF assms(1) i7])
  let ?c = "c\<lparr>in_pos := in_pos c + 1\<rparr>" and ?bk = "int (8 * k + n div 4 mod 8 + 1)" and ?cnt = "int (n div 32 - 1)"
  have n: "n \<le> 255" using unat_byte_le [of b] assms(3) by simp
  have cnt: "n div 32 - 1 + 2 = n div 32 + 1" "?cnt \<le> INT_MAX - 2" "drop_bit 5 (int n) - 1 = ?cnt"
    using assms(4) n by (simp_all add: shifts of_nat_diff)
  have bk: "push_bit 3 (int k) + (drop_bit 2 (int n) AND 7) + 1 = ?bk" by (simp add: shifts and_masks)
  have "next_instr S (b # to_read c) = Some (Copy (8 * k + n div 4 mod 8 + 1) (n div 32 + 1) (n mod 4), to_read ?c)"
    unfolding h(2,5) using assms(3,4) by (simp add: next_instr_def Let_def)
  then have "next_instr S (b # to_read c) = Some (Copy (nat ?bk) (nat ?cnt + 2) (n mod 4), to_read ?c)"
    unfolding nat_int cnt(1) .
  then have "\<exists>c' b'. end_turn ?c (int n) ?bk ?cnt = Some (Turn c' (uint (b' :: byte)) (int (n mod 4))) \<and> turn_ok S b c (Turn c' (uint b') (int (n mod 4)))"
    by (intro turn_copy [OF h(3,4)]) (use assms(2) cnt(2) in \<open>simp_all add: and_masks\<close>)
  moreover have "turn c (int n) st = end_turn ?c (int n) ?bk ?cnt"
    unfolding turn_def bk [symmetric] cnt(3) [symmetric] using assms(4) h(1) by (simp add: Let_def)
  ultimately show ?thesis by (rule instr_okI)
qed

text \<open>A length, then the two bytes of a distance.\<close>

lemma read_distance:
  assumes "lzo_ok c" "in_pos c \<le> in_end c + 1" "0 < m" "m \<le> 31" "int n AND int m = int f" "f \<le> 31"
  obtains k c1 d h where "get_len c (int n) (int m) = Some (int k, c1)" "0 < k" "int k \<le> INT_MAX - 3"
    "GETB c1 = Some (int (unat (d :: byte)), c1\<lparr>in_pos := in_pos c1 + 1\<rparr>)"
    "GETB (c1\<lparr>in_pos := in_pos c1 + 1\<rparr>) = Some (int (unat (h :: byte)), c1\<lparr>in_pos := in_pos c1 + 2\<rparr>)"
    "lzo_ok (c1\<lparr>in_pos := in_pos c1 + 2\<rparr>)" "moved c (c1\<lparr>in_pos := in_pos c1 + 2\<rparr>)" "in_pos c1 \<le> in_end c1 + 1"
    "written c1 = written c"
    "lzo_error c1 = 0 \<Longrightarrow> length_of m f (to_read c) = Some (k, d # h # to_read (c1\<lparr>in_pos := in_pos c1 + 2\<rparr>))"
proof -
  obtain k c1 where k: "get_len c (int n) (int m) = Some (int k, c1)" "0 < k" "int k \<le> INT_MAX - 3" "length_read c c1"
    "lzo_error c1 = 0 \<Longrightarrow> length_of m f (to_read c) = Some (k, to_read c1)"
    using get_len_value [OF assms(1,3,4,5,6)] by metis
  have ok1: "lzo_ok c1" by (rule length_read_ok [OF k(4) assms(1)])
  have r: "moved c c1" "written c1 = written c" "in_pos c1 \<le> in_end c1 + 1"
    using k(4) assms(2) by (auto simp: length_read_def moved_def)
  let ?c2 = "c1\<lparr>in_pos := in_pos c1 + 1\<rparr>"
  have i1: "in_pos c1 \<le> in_end c1 + 7" and i2: "in_pos ?c2 \<le> in_end ?c2 + 7" using r(3) by simp_all
  obtain d nd where d: "GETB c1 = Some (int nd, ?c2)" "to_read c1 = d # drop (in_pos c1 + 1) (in_buf c1)" "lzo_ok ?c2" "moved c1 ?c2"
    "nd = unat (d :: byte)" "nd \<le> 255" "uint d = int nd"
    by (rule GETB_step [OF ok1 i1])
  obtain h nh where h: "GETB ?c2 = Some (int nh, ?c2\<lparr>in_pos := in_pos ?c2 + 1\<rparr>)" "to_read ?c2 = h # drop (in_pos ?c2 + 1) (in_buf ?c2)"
    "lzo_ok (?c2\<lparr>in_pos := in_pos ?c2 + 1\<rparr>)" "moved ?c2 (?c2\<lparr>in_pos := in_pos ?c2 + 1\<rparr>)" "nh = unat (h :: byte)" "nh \<le> 255" "uint h = int nh"
    by (rule GETB_step [OF d(3) i2])
  have c3: "?c2\<lparr>in_pos := in_pos ?c2 + 1\<rparr> = c1\<lparr>in_pos := in_pos c1 + 2\<rparr>" by simp
  have m: "moved c (c1\<lparr>in_pos := in_pos c1 + 2\<rparr>)" using moved_trans [OF moved_trans [OF r(1) d(4)] h(4)] unfolding c3 .
  have "length_of m f (to_read c) = Some (k, d # h # to_read (c1\<lparr>in_pos := in_pos c1 + 2\<rparr>))" if "lzo_error c1 = 0"
    using k(5) [OF that] d(2) h(2) by simp
  then show thesis
    by (rule that [OF k(1-3) d(1) [unfolded d(5)] h(1) [unfolded h(5) c3] h(3) [unfolded c3] m r(3,2)])
qed

lemma turn_m3:
  assumes "lzo_ok c" "in_pos c \<le> in_end c + 1" "unat b = n" "32 \<le> n" "n < 64"
  shows "instr_ok S b (int n) st c"
proof -
  have m: "int n AND int 31 = int (n mod 32)" "n mod 32 \<le> 31" by (simp_all add: and_masks)
  obtain k c1 d h where r: "get_len c (int n) (int 31) = Some (int k, c1)" "0 < k" "int k \<le> INT_MAX - 3"
    "GETB c1 = Some (int (unat (d :: byte)), c1\<lparr>in_pos := in_pos c1 + 1\<rparr>)"
    "GETB (c1\<lparr>in_pos := in_pos c1 + 1\<rparr>) = Some (int (unat (h :: byte)), c1\<lparr>in_pos := in_pos c1 + 2\<rparr>)"
    "lzo_ok (c1\<lparr>in_pos := in_pos c1 + 2\<rparr>)" "moved c (c1\<lparr>in_pos := in_pos c1 + 2\<rparr>)" "in_pos c1 \<le> in_end c1 + 1"
    "written c1 = written c"
    "lzo_error c1 = 0 \<Longrightarrow> length_of 31 (n mod 32) (to_read c) = Some (k, d # h # to_read (c1\<lparr>in_pos := in_pos c1 + 2\<rparr>))"
    by (rule read_distance [OF assms(1,2) _ _ m]) simp_all
  define i j where "i = unat d" "j = unat h"
  note ij = this
  let ?c = "c1\<lparr>in_pos := in_pos c1 + 2\<rparr>" and ?bk = "int (64 * j + i div 4 + 1)" and ?cnt = "int k"
  have bk: "push_bit 6 (int j) + drop_bit 2 (int i) + 1 = ?bk" by (simp add: shifts)
  have "next_instr S (b # to_read c) = Some (Copy (64 * j + i div 4 + 1) (k + 2) (i mod 4), to_read ?c)" if "lzo_error c1 = 0"
    using r(10) [OF that] assms(3-5) by (simp add: next_instr_def Let_def ij)
  then have "next_instr S (b # to_read c) = Some (Copy (nat ?bk) (nat ?cnt + 2) (i mod 4), to_read ?c)" if "lzo_error ?c = 0"
    using that unfolding nat_int by simp
  then have "\<exists>c' b'. end_turn ?c (int i) ?bk ?cnt = Some (Turn c' (uint (b' :: byte)) (int (i mod 4))) \<and> turn_ok S b c (Turn c' (uint b') (int (i mod 4)))"
    by (intro turn_copy [OF r(6,7)]) (use r(3,8,9) in \<open>simp_all add: and_masks\<close>)
  moreover have "turn c (int n) st = end_turn ?c (int i) ?bk ?cnt"
    unfolding turn_def bk [symmetric] using assms(4,5) r(1,4,5) by (simp add: Let_def ij [symmetric])
  ultimately show ?thesis by (rule instr_okI)
qed

lemma turn_m4:
  assumes "lzo_ok c" "in_pos c \<le> in_end c + 1" "unat b = n" "16 \<le> n" "n < 32"
  shows "instr_ok S b (int n) st c"
proof -
  have m: "int n AND int 7 = int (n mod 8)" "n mod 8 \<le> 31"
    using and_masks(2) [of n] mod_less_divisor [of 8 n] by (simp, linarith)
  obtain k c1 d h where r: "get_len c (int n) (int 7) = Some (int k, c1)" "0 < k" "int k \<le> INT_MAX - 3"
    "GETB c1 = Some (int (unat (d :: byte)), c1\<lparr>in_pos := in_pos c1 + 1\<rparr>)"
    "GETB (c1\<lparr>in_pos := in_pos c1 + 1\<rparr>) = Some (int (unat (h :: byte)), c1\<lparr>in_pos := in_pos c1 + 2\<rparr>)"
    "lzo_ok (c1\<lparr>in_pos := in_pos c1 + 2\<rparr>)" "moved c (c1\<lparr>in_pos := in_pos c1 + 2\<rparr>)" "in_pos c1 \<le> in_end c1 + 1"
    "written c1 = written c"
    "lzo_error c1 = 0 \<Longrightarrow> length_of 7 (n mod 8) (to_read c) = Some (k, d # h # to_read (c1\<lparr>in_pos := in_pos c1 + 2\<rparr>))"
    by (rule read_distance [OF assms(1,2) _ _ m]) simp_all
  define i j where "i = unat d" "j = unat h"
  note ij = this
  let ?c = "c1\<lparr>in_pos := in_pos c1 + 2\<rparr>" and ?cnt = "int k"
  define q where "q = 16384 + 16384 * (n div 8 mod 2) + 64 * j + i div 4"
  have bk: "2 ^ 14 + push_bit 11 (int n AND 8) + (push_bit 6 (int j) + drop_bit 2 (int i)) = int q"
    unfolding and_8 [OF assms(4,5)] by (simp add: shifts q_def)
  have ni: "next_instr S (b # to_read c) =
      (if q \<noteq> 16384 then Some (Copy q (k + 2) (i mod 4), to_read ?c) else if k = 1 then Some (Stop, to_read ?c) else None)"
    if "lzo_error c1 = 0"
    using r(10) [OF that] assms(3-5) by (simp add: next_instr_def Let_def ij q_def)
  have t: "turn c (int n) st = (if int q = 2 ^ 14 then Some (Done (if int k \<noteq> 1 then set_error AV_LZO_ERROR ?c else ?c)) else end_turn ?c (int i) (int q) ?cnt)"
    unfolding turn_def bk [symmetric] using assms(4,5) r(1,4,5) by (simp add: Let_def ij [symmetric])
  show ?thesis
  proof (cases "q = 16384")
    case True
    have d: "turn c (int n) st = Some (Done (if k \<noteq> 1 then set_error AV_LZO_ERROR ?c else ?c))" using t True by simp
    have mm: "moved c (set_error AV_LZO_ERROR ?c)" by (rule moved_trans [OF r(7) set_error_moved(1)])
    have "turn_ok S b c (Done (if k \<noteq> 1 then set_error AV_LZO_ERROR ?c else ?c))"
      using r(6,7,9) ni True mm by (auto simp: set_error_moved)
    then show ?thesis using d by (simp add: instr_ok_def)
  next
    case False
    then have "next_instr S (b # to_read c) = Some (Copy (nat (int q)) (nat ?cnt + 2) (i mod 4), to_read ?c)" if "lzo_error ?c = 0"
      using that ni unfolding nat_int by simp
    moreover have "0 < int q" by (simp add: q_def)
    ultimately have "\<exists>c' b'. end_turn ?c (int i) (int q) ?cnt = Some (Turn c' (uint (b' :: byte)) (int (i mod 4))) \<and> turn_ok S b c (Turn c' (uint b') (int (i mod 4)))"
      by (intro turn_copy [OF r(6,7)]) (use r(3,8,9) in \<open>simp_all add: and_masks\<close>)
    moreover have "turn c (int n) st = end_turn ?c (int i) (int q) ?cnt" using t False by simp
    ultimately show ?thesis by (rule instr_okI)
  qed
qed

text \<open>A distance of one byte after the instruction.\<close>

lemma read_near:
  assumes "lzo_ok c1" "moved c c1" "in_pos c1 \<le> in_end c1 + 2" "written c1 = written c" "n \<le> 255"
    and "\<And>h r. lzo_error c1 = 0 \<Longrightarrow> to_read c1 = h # r \<Longrightarrow>
      next_instr S (b # to_read c) = Some (Copy (4 * unat h + n div 4 + 1 + base) (cnt + 2) (n mod 4), r)" "cnt \<le> 1"
  obtains h where "GETB c1 = Some (int (unat (h :: byte)), c1\<lparr>in_pos := in_pos c1 + 1\<rparr>)"
    "\<exists>c' b'. end_turn (c1\<lparr>in_pos := in_pos c1 + 1\<rparr>) (int n) (int (4 * unat h + n div 4 + 1 + base)) (int cnt) =
      Some (Turn c' (uint (b' :: byte)) (int (n mod 4))) \<and> turn_ok S b c (Turn c' (uint b') (int (n mod 4)))"
proof -
  have i: "in_pos c1 \<le> in_end c1 + 7" using assms(3) by simp
  obtain h k where h: "GETB c1 = Some (int k, c1\<lparr>in_pos := in_pos c1 + 1\<rparr>)" "to_read c1 = h # drop (in_pos c1 + 1) (in_buf c1)"
    "lzo_ok (c1\<lparr>in_pos := in_pos c1 + 1\<rparr>)" "moved c1 (c1\<lparr>in_pos := in_pos c1 + 1\<rparr>)" "k = unat (h :: byte)" "k \<le> 255" "uint h = int k"
    by (rule GETB_step [OF assms(1) i])
  let ?c = "c1\<lparr>in_pos := in_pos c1 + 1\<rparr>"
  have m: "moved c ?c" by (rule moved_trans [OF assms(2) h(4)])
  have pos: "0 < int (4 * unat h + n div 4 + 1 + base)" by (simp only: of_nat_0_less_iff)
  have "next_instr S (b # to_read c) = Some (Copy (nat (int (4 * unat h + n div 4 + 1 + base))) (nat (int cnt) + 2) (n mod 4), to_read ?c)"
    if "lzo_error ?c = 0"
    using assms(6) [OF _ h(2)] that unfolding nat_int by simp
  then have "\<exists>c' b'. end_turn ?c (int n) (int (4 * unat h + n div 4 + 1 + base)) (int cnt) =
      Some (Turn c' (uint (b' :: byte)) (int (n mod 4))) \<and> turn_ok S b c (Turn c' (uint b') (int (n mod 4)))"
    by (intro turn_copy [OF h(3) m _ _ pos]) (use assms(3,4,7) in \<open>simp_all add: and_masks\<close>)
  then show thesis by (rule that [OF h(1) [unfolded h(5)]])
qed

lemma turn_near:
  assumes "lzo_ok c" "in_pos c \<le> in_end c + 1" "unat b = n" "n < 16" "st = int S" "S \<noteq> 0" "S \<le> 3"
  shows "instr_ok S b (int n) st c"
proof -
  have i: "in_pos c \<le> in_end c + 2" "n \<le> 255" using assms(2,4) by simp_all
  have ni: "next_instr S (b # to_read c) = Some (Copy (4 * unat h + n div 4 + 1 + 0) (0 + 2) (n mod 4), r)"
    if "to_read c = h # r" for h r
    using assms(3-7) that by (simp add: next_instr_def Let_def)
  obtain h where h: "GETB c = Some (int (unat (h :: byte)), c\<lparr>in_pos := in_pos c + 1\<rparr>)"
    "\<exists>c' b'. end_turn (c\<lparr>in_pos := in_pos c + 1\<rparr>) (int n) (int (4 * unat h + n div 4 + 1 + 0)) (int 0) =
      Some (Turn c' (uint (b' :: byte)) (int (n mod 4))) \<and> turn_ok S b c (Turn c' (uint b') (int (n mod 4)))"
    by (rule read_near [OF assms(1) moved_refl i(1) refl i(2) ni]) simp_all
  define j where "j = unat h"
  have bk: "push_bit 2 (int j) + drop_bit 2 (int n) + 1 = int (4 * j + n div 4 + 1 + 0)" by (simp add: shifts)
  have "turn c (int n) st = end_turn (c\<lparr>in_pos := in_pos c + 1\<rparr>) (int n) (int (4 * j + n div 4 + 1 + 0)) (int 0)"
    unfolding turn_def bk [symmetric] using assms(4-6) h(1) by (simp add: j_def [symmetric])
  then show ?thesis by (intro instr_okI [OF h(2)]) (simp only: j_def)
qed

lemma turn_literal_run:
  assumes "lzo_ok c" "in_pos c \<le> in_end c + 1" "unat b = n" "n < 16"
  shows "instr_ok 0 b (int n) 0 c"
proof -
  have m: "int n AND int 15 = int n" "n \<le> 31" using assms(4) and_masks(3) [of n] by simp_all
  obtain k c1 where k: "get_len c (int n) (int 15) = Some (int k, c1)" "0 < k" "int k \<le> INT_MAX - 3" "length_read c c1"
    "lzo_error c1 = 0 \<longrightarrow> length_of 15 n (to_read c) = Some (k, to_read c1)"
    using get_len_value [OF assms(1) _ _ m] by auto
  have ok1: "lzo_ok c1" by (rule length_read_ok [OF k(4) assms(1)])
  have r: "moved c c1" "written c1 = written c" "in_pos c1 \<le> in_end c1 + 4" "in_pos c1 \<le> in_end c + 1" "in_end c1 = in_end c"
    using k(4) assms(2) by (auto simp: length_read_def moved_def)
  have n3: "cint (int k + 3) = Some (int (k + 3))" "0 \<le> int (k + 3)" using k(3) by (simp_all add: cint_def)
  obtain c2 where c2: "lzo_copy c1 (int (k + 3)) = Some c2" "lzo_ok c2" "moved c1 c2" "in_pos c2 \<le> max (in_pos c1) (in_end c1)"
    "lzo_error c2 = 0 \<longrightarrow> in_pos c2 \<le> in_end c1 \<and> k + 3 \<le> length (to_read c1) \<and>
       to_read c2 = drop (k + 3) (to_read c1) \<and> written c2 = written c1 @ take (k + 3) (to_read c1)"
    by (rule lzo_copy_nat [OF ok1 r(3)])
  have e2: "in_end c2 = in_end c" "in_pos c2 \<le> in_end c + 1" "in_pos c \<le> in_pos c2"
    using c2(3,4) r by (auto simp: moved_def)
  have i2: "in_pos c2 \<le> in_end c2 + 7" using e2 by simp
  let ?c3 = "c2\<lparr>in_pos := in_pos c2 + 1\<rparr>"
  obtain b' n' where b': "GETB c2 = Some (int n', ?c3)" "to_read c2 = b' # drop (in_pos c2 + 1) (in_buf c2)" "lzo_ok ?c3" "moved c2 ?c3"
    "n' = unat (b' :: byte)" "n' \<le> 255" "uint b' = int n'"
    by (rule GETB_step [OF c2(2) i2])
  have m3: "moved c ?c3" by (rule moved_trans [OF moved_trans [OF r(1) c2(3)] b'(4)])
  have lt: "in_pos c < in_pos ?c3" using e2 by simp
  have lit: "next_instr 0 (b # to_read c) = Some (Literals (k + 3), to_read c1) \<and> k + 3 \<le> length (to_read c1) \<and>
      drop (k + 3) (to_read c1) = b' # to_read ?c3 \<and> written ?c3 = written c @ take (k + 3) (to_read c1)"
    if z: "lzo_error ?c3 = 0"
  proof -
    have z2: "lzo_error c2 = 0" using z by simp
    then have z1: "lzo_error c1 = 0" using c2(3) by (simp add: moved_def)
    have "next_instr 0 (b # to_read c) = Some (Literals (k + 3), to_read c1)"
      using k(5) z1 assms(3,4) by (simp add: next_instr_def Let_def)
    then show ?thesis using c2(5) z2 b'(2) r(2) by simp
  qed
  have t: "turn c (int n) 0 = (if int n' > 15 then Some (Turn ?c3 (int n') 0)
      else do { (b, c) \<leftarrow> GETB ?c3; end_turn c (int n') (2 ^ 11 + push_bit 2 b + drop_bit 2 (int n') + 1) 1 })"
    using assms(4) k(1) n3(1) c2(1) b'(1) by (simp add: turn_def)
  show ?thesis
  proof (cases "n' \<ge> 16")
    case True
    have "resumes 0 b c 0 b' ?c3" if "lzo_error ?c3 = 0"
    proof (rule resumes_literals)
      show "resumes 4 b' ?c3 0 b' ?c3" using lzo1x_state True b'(5) unfolding resumes_def by blast
    qed (use lit [OF that] in blast)+
    moreover have "in_pos ?c3 \<le> in_end ?c3 + 1" if "lzo_error ?c3 = 0" using c2(5) that r(5) e2(1) by simp
    ultimately have "turn_ok 0 b c (Turn ?c3 (int n') 0)"
      unfolding turn_ok.simps using b'(3,7) m3 lt by (intro conjI exI [of _ b'] exI [of _ 0]) simp_all
    then show ?thesis using t True by (simp add: instr_ok_def)
  next
    case False
    have i3: "in_pos ?c3 \<le> in_end ?c3 + 2" using e2 by simp
    have ni: "next_instr 4 (b' # to_read ?c3) = Some (Copy (4 * unat h + n' div 4 + 1 + 2048) (1 + 2) (n' mod 4), q)"
      if "to_read ?c3 = h # q" for h q
      using False b'(5) that by (simp add: next_instr_def Let_def)
    obtain h where h: "GETB ?c3 = Some (int (unat (h :: byte)), ?c3\<lparr>in_pos := in_pos ?c3 + 1\<rparr>)"
      "\<exists>c' b''. end_turn (?c3\<lparr>in_pos := in_pos ?c3 + 1\<rparr>) (int n') (int (4 * unat h + n' div 4 + 1 + 2048)) (int 1) =
        Some (Turn c' (uint (b'' :: byte)) (int (n' mod 4))) \<and> turn_ok 4 b' ?c3 (Turn c' (uint b'') (int (n' mod 4)))"
      by (rule read_near [OF b'(3) moved_refl i3 refl b'(6) ni]) simp_all
    define j where "j = unat h"
    have bk: "2 ^ 11 + push_bit 2 (int j) + drop_bit 2 (int n') + 1 = int (4 * j + n' div 4 + 1 + 2048)" by (simp add: shifts)
    have e: "turn c (int n) 0 = end_turn (?c3\<lparr>in_pos := in_pos ?c3 + 1\<rparr>) (int n') (int (4 * j + n' div 4 + 1 + 2048)) (int 1)"
      unfolding t bk [symmetric] using False h(1) by (simp add: j_def [symmetric])
    obtain c' b'' where f: "end_turn (?c3\<lparr>in_pos := in_pos ?c3 + 1\<rparr>) (int n') (int (4 * j + n' div 4 + 1 + 2048)) (int 1) =
        Some (Turn c' (uint (b'' :: byte)) (int (n' mod 4)))" "turn_ok 4 b' ?c3 (Turn c' (uint b'') (int (n' mod 4)))"
      using h(2) unfolding j_def by blast
    have "turn_ok 0 b c (Turn c' (uint b'') (int (n' mod 4)))" by (rule turn_literals [OF f(2) m3 lt lit])
    then show ?thesis using e f(1) by (auto simp: instr_ok_def)
  qed
qed

lemma turn_value:
  assumes "lzo_ok c" "in_pos c \<le> in_end c + 1" "st = int S" "S \<le> 3"
  shows "instr_ok S b (uint b) st c"
proof -
  have u: "uint b = int (unat b)" by simp
  consider "unat b \<ge> 64" | "32 \<le> unat b" "unat b < 64" | "16 \<le> unat b" "unat b < 32" | "unat b < 16" "S = 0" | "unat b < 16" "S \<noteq> 0"
    by linarith
  then have "instr_ok S b (int (unat b)) st c"
  proof cases
    case 1
    then show ?thesis by (rule turn_m2 [OF assms(1,2) refl])
  next
    case 2
    then show ?thesis by (rule turn_m3 [OF assms(1,2) refl])
  next
    case 3
    then show ?thesis by (rule turn_m4 [OF assms(1,2) refl])
  next
    case 4
    then show ?thesis using turn_literal_run [OF assms(1,2) refl] assms(3) by simp
  next
    case 5
    then show ?thesis by (intro turn_near [OF assms(1,2) refl _ assms(3) _ assms(4)])
  qed
  then show ?thesis unfolding u .
qed

subsection \<open>The loop\<close>

lemma decode_loop_value:
  "lzo_ok c \<Longrightarrow> (lzo_error c = 0 \<longrightarrow> in_pos c \<le> in_end c + 1) \<Longrightarrow> S \<le> 3 \<Longrightarrow>
    \<exists>c'. decode_loop c (uint b) (int S) = Some c' \<and> lzo_ok c' \<and> moved c c' \<and>
      (lzo_error c' = 0 \<longrightarrow> lzo1x S (b # to_read c) (written c) (written c') (to_read c'))"
proof (induction "in_end c + 2 - in_pos c" arbitrary: c b S rule: less_induct)
  case less
  note step = decode_loop.simps [of c "uint b" "int S"]
  show ?case
  proof (cases "lzo_error c = 0")
    case False
    then show ?thesis using step less.prems(1) by simp
  next
    case True
    then have pos: "in_pos c \<le> in_end c + 1" using less.prems(2) by simp
    have "instr_ok S b (uint b) (int S) c" by (rule turn_value [OF less.prems(1) pos refl less.prems(3)])
    then obtain t where t: "turn c (uint b) (int S) = Some t" "turn_ok S b c t" by (auto simp: instr_ok_def)
    show ?thesis
    proof (cases t)
      case (Done c')
      then have "decode_loop c (uint b) (int S) = Some c'" using step True t(1) by simp
      then show ?thesis using t(2) Done lzo1x.stop by auto
    next
      case (Turn c1 x st)
      obtain b1 S1 where n: "lzo_ok c1" "moved c c1" "in_pos c < in_pos c1" "x = uint b1" "st = int S1" "S1 \<le> 3"
        "lzo_error c1 = 0 \<longrightarrow> in_pos c1 \<le> in_end c1 + 1 \<and> resumes S b c S1 b1 c1"
        using t(2) unfolding Turn turn_ok.simps by (elim conjE exE) (rule that)
      have e: "decode_loop c (uint b) (int S) = decode_loop c1 (uint b1) (int S1)"
        using step True t(1) n(4,5) Turn by simp
      have i1: "lzo_error c1 = 0 \<longrightarrow> in_pos c1 \<le> in_end c1 + 1" using n(7) by simp
      have less_measure: "in_end c1 + 2 - in_pos c1 < in_end c + 2 - in_pos c" using n(2,3) pos by (simp add: moved_def)
      obtain c' where c': "decode_loop c1 (uint b1) (int S1) = Some c'" "lzo_ok c'" "moved c1 c'"
        "lzo_error c' = 0 \<longrightarrow> lzo1x S1 (b1 # to_read c1) (written c1) (written c') (to_read c')"
        using less.hyps [OF less_measure n(1) i1 n(6), of b1] by (elim exE conjE) (rule that)
      have "lzo1x S (b # to_read c) (written c) (written c') (to_read c')" if z: "lzo_error c' = 0"
      proof -
        have "lzo_error c1 = 0" using c'(3) z by (simp add: moved_def)
        then show ?thesis using n(7) c'(4) z by (simp add: resumes_def)
      qed
      then show ?thesis using e c'(1,2) moved_trans [OF n(2) c'(3)] by auto
    qed
  qed
qed

lemma decode_start_value:
  assumes "lzo_ok c" "in_pos c = 0" "out_pos c = 0" "0 < in_end c"
  obtains b c' where "decode_start c = Some (uint (b :: byte), c')" "lzo_ok c'" "moved c c'"
    "lzo_error c' = 0 \<longrightarrow> in_pos c' \<le> in_end c' + 1 \<and>
       (\<forall>fin left. lzo1x 0 (b # to_read c') (written c') fin left \<longrightarrow> lzo1x_stream (in_buf c) fin left)"
proof -
  have i0: "in_pos c \<le> in_end c + 7" using assms(2) by simp
  obtain b n where b: "GETB c = Some (int n, c\<lparr>in_pos := in_pos c + 1\<rparr>)" "to_read c = b # drop (in_pos c + 1) (in_buf c)"
    "lzo_ok (c\<lparr>in_pos := in_pos c + 1\<rparr>)" "moved c (c\<lparr>in_pos := in_pos c + 1\<rparr>)" "n = unat (b :: byte)" "n \<le> 255" "uint b = int n"
    by (rule GETB_step [OF assms(1) i0])
  let ?c = "c\<lparr>in_pos := in_pos c + 1\<rparr>"
  have buf: "in_buf c = b # to_read ?c" using b(2) assms(2) by simp
  show thesis
  proof (cases "n > 17")
    case False
    have "decode_start c = Some (uint b, ?c)" using False b(1,7) assms(2,4) by (simp add: decode_start_def)
    moreover have "lzo1x_stream (in_buf c) fin left" if "lzo1x 0 (b # to_read ?c) (written ?c) fin left" for fin left
      using that False b(5) assms(3) unfolding buf by (simp add: lzo1x_stream_def)
    moreover have "in_pos ?c \<le> in_end ?c + 1" using assms(2) by simp
    ultimately show thesis using b(3,4) that [of b ?c] by blast
  next
    case True
    have i4: "in_pos ?c \<le> in_end ?c + 4" using assms(2) by simp
    obtain c2 where c2: "lzo_copy ?c (int (n - 17)) = Some c2" "lzo_ok c2" "moved ?c c2" "in_pos c2 \<le> max (in_pos ?c) (in_end ?c)"
      "lzo_error c2 = 0 \<longrightarrow> in_pos c2 \<le> in_end ?c \<and> n - 17 \<le> length (to_read ?c) \<and> to_read c2 = drop (n - 17) (to_read ?c) \<and>
         written c2 = written ?c @ take (n - 17) (to_read ?c)"
      by (rule lzo_copy_nat [OF b(3) i4])
    have e2: "in_end c2 = in_end c" "in_pos c2 \<le> in_end c" using c2(3,4) assms(2,4) by (auto simp: moved_def)
    have i7: "in_pos c2 \<le> in_end c2 + 7" using e2 by simp
    let ?c3 = "c2\<lparr>in_pos := in_pos c2 + 1\<rparr>"
    obtain b' n' where b': "GETB c2 = Some (int n', ?c3)" "to_read c2 = b' # drop (in_pos c2 + 1) (in_buf c2)" "lzo_ok ?c3" "moved c2 ?c3"
      "n' = unat (b' :: byte)" "n' \<le> 255" "uint b' = int n'"
      by (rule GETB_step [OF c2(2) i7])
    define c4 where "c4 = (if n' < 16 then set_error AV_LZO_ERROR ?c3 else ?c3)"
    define c5 where "c5 = (if in_pos c4 > in_end c4 then set_error AV_LZO_INPUT_DEPLETED c4 else c4)"
    have n17: "int n - 17 = int (n - 17)" using True by (simp add: of_nat_diff)
    have d: "decode_start c = Some (uint b', c5)"
      unfolding decode_start_def c5_def c4_def using b(1) n17 True c2(1) b'(1,7) by simp
    have m3: "moved c ?c3" by (rule moved_trans [OF moved_trans [OF b(4) c2(3)] b'(4)])
    then have m5: "lzo_ok c5" "moved c c5" using b'(3) by (auto simp: c5_def c4_def moved_def lzo_ok_def)
    have p5: "in_pos c5 = in_pos c2 + 1" "in_end c5 = in_end c2" by (simp_all add: c5_def c4_def)
    have "lzo1x_stream (in_buf c) fin left"
      if z: "lzo_error c5 = 0" and r: "lzo1x 0 (b' # to_read c5) (written c5) fin left" for fin left
    proof -
      have c5: "c5 = ?c3" "n' \<ge> 16" "lzo_error c2 = 0" using z by (auto simp: c5_def c4_def split: if_splits)
      have l: "n - 17 \<le> length (to_read ?c)" "to_read c2 = drop (n - 17) (to_read ?c)" "written c2 = take (n - 17) (to_read ?c)"
        using c2(5) c5(3) assms(3) by simp_all
      have dr: "drop (n - 17) (to_read ?c) = b' # to_read ?c3" using l(2) b'(2) by simp
      then have lt: "n - 17 < length (to_read ?c)" by (metis drop_all linorder_not_less list.distinct(1))
      then have "to_read ?c ! (n - 17) = b'" using dr by (metis hd_drop_conv_nth list.sel(1))
      then show ?thesis
        using lt r dr l(3) True c5(1,2) b(5) b'(5) unfolding buf by (simp add: lzo1x_stream_def Let_def)
    qed
    moreover have "in_pos c5 \<le> in_end c5 + 1" using p5 e2 by simp
    ultimately have "lzo_error c5 = 0 \<longrightarrow> in_pos c5 \<le> in_end c5 + 1 \<and>
       (\<forall>fin left. lzo1x 0 (b' # to_read c5) (written c5) fin left \<longrightarrow> lzo1x_stream (in_buf c) fin left)"
      by blast
    then show thesis by (rule that [OF d m5])
  qed
qed

lemma decode_value:
  assumes "0 < outlen" "0 < inlen" "nat inlen + AV_LZO_INPUT_PADDING \<le> length inp" "nat outlen + AV_LZO_OUTPUT_PADDING \<le> length out"
  obtains err lo li out' where "av_lzo1x_decode out outlen inp inlen = Some (err, lo, li, out')" "length out' = length out"
    "0 \<le> lo" "lo \<le> outlen" "0 \<le> li" "li \<le> inlen"
    "err = 0 \<longrightarrow> (\<exists>left. lzo1x_stream inp (take (nat (outlen - lo)) out') left \<and> (0 < li \<longrightarrow> left = drop (nat (inlen - li)) inp))"
proof -
  define c where "c = \<lparr>in_buf = inp, in_pos = 0, in_end = nat inlen, out_buf = out, out_pos = 0, out_end = nat outlen, lzo_error = 0\<rparr>"
  have ok: "lzo_ok c" "in_pos c = 0" "out_pos c = 0" "0 < in_end c" using assms by (simp_all add: c_def lzo_ok_def)
  obtain b c1 where s: "decode_start c = Some (uint (b :: byte), c1)" "lzo_ok c1" "moved c c1"
    "lzo_error c1 = 0 \<longrightarrow> in_pos c1 \<le> in_end c1 + 1 \<and>
       (\<forall>fin left. lzo1x 0 (b # to_read c1) (written c1) fin left \<longrightarrow> lzo1x_stream (in_buf c) fin left)"
    by (rule decode_start_value [OF ok])
  have i1: "lzo_error c1 = 0 \<longrightarrow> in_pos c1 \<le> in_end c1 + 1" using s(4) by blast
  have "(0 :: nat) \<le> 3" by simp
  from decode_loop_value [OF s(2) i1 this, of b]
  obtain c2 where l: "decode_loop c1 (uint b) (int 0) = Some c2" "lzo_ok c2" "moved c1 c2"
    "lzo_error c2 = 0 \<longrightarrow> lzo1x 0 (b # to_read c1) (written c1) (written c2) (to_read c2)"
    by (elim exE conjE) (rule that)
  let ?lo = "int (out_end c2) - int (out_pos c2)"
  let ?li = "if in_pos c2 > in_end c2 then 0 else int (in_end c2) - int (in_pos c2)"
  have d: "av_lzo1x_decode out outlen inp inlen = Some (lzo_error c2, ?lo, ?li, out_buf c2)"
    using assms(1,2) s(1) l(1) by (simp add: av_lzo1x_decode_def Let_def c_def [symmetric])
  have m: "moved c c2" by (rule moved_trans [OF s(3) l(3)])
  then have e: "in_end c2 = nat inlen" "out_end c2 = nat outlen" "length (out_buf c2) = length out" "in_buf c2 = inp"
    by (simp_all add: moved_def c_def)
  have o: "out_pos c2 \<le> out_end c2" using l(2) by (simp add: lzo_ok_def)
  have lo: "0 \<le> ?lo" "?lo \<le> outlen" using o e assms(1) by simp_all
  have li: "0 \<le> ?li" "?li \<le> inlen" using e assms(2) by auto
  have "\<exists>left. lzo1x_stream inp (take (nat (outlen - ?lo)) (out_buf c2)) left \<and> (0 < ?li \<longrightarrow> left = drop (nat (inlen - ?li)) inp)"
    if z: "lzo_error c2 = 0"
  proof (intro exI conjI)
    have "lzo_error c1 = 0" using l(3) z by (simp add: moved_def)
    then have "lzo1x_stream (in_buf c) (written c2) (to_read c2)" using s(4) l(4) z by blast
    moreover have "nat (outlen - ?lo) = out_pos c2" using o e assms(1) by simp
    ultimately show "lzo1x_stream inp (take (nat (outlen - ?lo)) (out_buf c2)) (to_read c2)" by (simp add: c_def)
    show "0 < ?li \<longrightarrow> to_read c2 = drop (nat (inlen - ?li)) inp" using e assms(2) by auto
  qed
  then show thesis by (intro that [OF d e(3) lo li]) blast
qed

subsection \<open>Properties\<close>

text \<open>C20. With the padding the header demands, \<open>av_lzo1x_decode\<close> returns on every input, valid or not: its loops end,
  no access leaves the padded buffers although most reads are unchecked, no assertion fails, no length overflows,
  and the numbers of bytes left that it stores are in range.\<close>

theorem av_lzo1x_decode_returns:
  assumes "nat inlen + AV_LZO_INPUT_PADDING \<le> length inp" "nat outlen + AV_LZO_OUTPUT_PADDING \<le> length out"
    "0 \<le> inlen" "0 \<le> outlen"
  shows "\<exists>err lo li out'. av_lzo1x_decode out outlen inp inlen = Some (err, lo, li, out') \<and> length out' = length out \<and>
    0 \<le> lo \<and> lo \<le> outlen \<and> 0 \<le> li \<and> li \<le> inlen"
proof (cases "0 < outlen \<and> 0 < inlen")
  case True
  then show ?thesis using decode_value [OF _ _ assms(1,2)] by metis
next
  case False
  then show ?thesis using assms(3,4) by (auto simp: av_lzo1x_decode_def Let_def)
qed

theorem av_lzo1x_decode_returns_witness:
  "\<exists>err lo li out'. av_lzo1x_decode (replicate 20 0) 8 (replicate 12 0xFF) 4 = Some (err, lo, li, out') \<and>
    length out' = length (replicate 20 (0 :: byte)) \<and> 0 \<le> lo \<and> lo \<le> 8 \<and> 0 \<le> li \<and> li \<le> 4"
  by (rule av_lzo1x_decode_returns) simp_all

text \<open>C21. When it returns 0, the bytes it has put out are what the LZO1X stream in the input decompresses to by the
  format, instruction by instruction, and what it reports as left is what follows the end marker.\<close>

theorem av_lzo1x_decode_sound:
  assumes "av_lzo1x_decode out outlen inp inlen = Some (0, lo, li, out')"
    "nat inlen + AV_LZO_INPUT_PADDING \<le> length inp" "nat outlen + AV_LZO_OUTPUT_PADDING \<le> length out"
  shows "\<exists>left. lzo1x_stream inp (take (nat (outlen - lo)) out') left \<and> (0 < li \<longrightarrow> left = drop (nat (inlen - li)) inp)"
proof -
  have "0 < outlen \<and> 0 < inlen" using assms(1) by (auto simp: av_lzo1x_decode_def Let_def split: if_splits)
  then show ?thesis using decode_value [OF _ _ assms(2,3)] assms(1) by (metis Pair_inject option.inject)
qed

text \<open>Six literals, the last five repeated, the end marker.\<close>

definition demo_stream :: "byte list" where
  "demo_stream = [23, 1, 2, 3, 4, 5, 6, 144, 0, 17, 0, 0] @ replicate 8 0"

definition demo_lzo :: "nat \<Rightarrow> nat \<Rightarrow> byte list \<Rightarrow> LZOContext" where
  "demo_lzo i j bs = \<lparr>in_buf = demo_stream, in_pos = i, in_end = 12, out_buf = bs @ replicate (24 - length bs) 0, out_pos = j,
     out_end = 12, lzo_error = 0\<rparr>"

lemma demo_lzo_start: "decode_start (demo_lzo 0 0 []) = Some (144, demo_lzo 8 6 [1, 2, 3, 4, 5, 6])"
  by code_simp

lemma demo_lzo_turn:
  "turn (demo_lzo 8 6 [1, 2, 3, 4, 5, 6]) 144 0 = Some (Turn (demo_lzo 10 11 [1, 2, 3, 4, 5, 6, 2, 3, 4, 5, 6, 17]) 17 0)"
  by code_simp

lemma demo_lzo_end:
  "turn (demo_lzo 10 11 [1, 2, 3, 4, 5, 6, 2, 3, 4, 5, 6, 17]) 17 0 = Some (Done (demo_lzo 12 11 [1, 2, 3, 4, 5, 6, 2, 3, 4, 5, 6, 17]))"
  by code_simp

lemma demo_lzo_decode:
  "av_lzo1x_decode (replicate 24 0) 12 demo_stream 12 = Some (0, 1, 0, [1, 2, 3, 4, 5, 6, 2, 3, 4, 5, 6, 17] @ replicate 12 0)"
proof -
  have e: "lzo_error (demo_lzo i j bs) = 0" for i j bs by (simp add: demo_lzo_def)
  have "decode_loop (demo_lzo 8 6 [1, 2, 3, 4, 5, 6]) 144 0 = Some (demo_lzo 12 11 [1, 2, 3, 4, 5, 6, 2, 3, 4, 5, 6, 17])"
    using demo_lzo_turn demo_lzo_end e
    by (simp add: decode_loop.simps [of "demo_lzo 8 6 [1, 2, 3, 4, 5, 6]"]
      decode_loop.simps [of "demo_lzo 10 11 [1, 2, 3, 4, 5, 6, 2, 3, 4, 5, 6, 17]"])
  moreover have "\<lparr>in_buf = demo_stream, in_pos = 0, in_end = 12, out_buf = replicate 24 0, out_pos = 0, out_end = 12, lzo_error = 0\<rparr> =
      demo_lzo 0 0 []"
    by (simp add: demo_lzo_def)
  ultimately show ?thesis using demo_lzo_start by (simp add: av_lzo1x_decode_def Let_def) (simp add: demo_lzo_def)
qed

theorem av_lzo1x_decode_sound_witness:
  "\<exists>left. lzo1x_stream demo_stream (take (nat (12 - 1)) ([1, 2, 3, 4, 5, 6, 2, 3, 4, 5, 6, 17] @ replicate 12 0)) left"
  using av_lzo1x_decode_sound [OF demo_lzo_decode] by (auto simp: demo_stream_def)

end
