(* ===== verification/AvTree.thy ===== *)
theory AvTree
  imports Clib "HOL-Library.Monad_Syntax"
begin

section \<open>Balanced trees: \<open>libavutil/tree.c\<close>\<close>

text \<open>
  The AVL trees of \<open>libavutil\<close>.  One function inserts and deletes: \<open>av_tree_insert\<close> inserts when it is given a
  spare node (\<open>*next\<close>) and otherwise deletes and gives the node back.  A node keeps the difference of the heights
  of its subtrees in \<open>state\<close>; the height itself is not stored.  A pointer to a tree is the tree, \<open>NULL\<close> the empty
  one; the model is \<open>None\<close> where the code would follow a null pointer or use an element that was not set.
\<close>

datatype 'a AVTreeNode = NULL | AVTreeNode (child0: "'a AVTreeNode") (elem: 'a) (state: int) (child1: "'a AVTreeNode")

type_synonym 'a next_elems = "'a option \<times> 'a option"

definition set_next :: "bool \<Rightarrow> 'a \<Rightarrow> 'a next_elems \<Rightarrow> 'a next_elems" where
  "set_next i e n = (if i then (fst n, Some e) else (Some e, snd n))"

text \<open>The element found, and the nearest elements below and above the key if they are asked for.\<close>

fun av_tree_find :: "('k \<Rightarrow> 'a \<Rightarrow> int) \<Rightarrow> 'a AVTreeNode \<Rightarrow> 'k \<Rightarrow> 'a next_elems option \<Rightarrow> 'a option \<times> 'a next_elems option" where
  "av_tree_find cmp NULL key next = (None, next)"
| "av_tree_find cmp (AVTreeNode l e s r) key next =
     (let v = cmp key e
      in if v \<noteq> 0
         then let next = map_option (set_next (v < 0) e) next
              in if v < 0 then av_tree_find cmp l key next else av_tree_find cmp r key next
         else (Some e,
               case next of None \<Rightarrow> None
               | Some n \<Rightarrow> snd (av_tree_find cmp r key (snd (av_tree_find cmp l key (Some n))))))"

text \<open>The rotations at a node whose child \<open>i\<close> is too high.\<close>

fun rotate_twice :: "bool \<Rightarrow> 'a AVTreeNode \<Rightarrow> 'a AVTreeNode option" where
  "rotate_twice True (AVTreeNode a x s (AVTreeNode (AVTreeNode b z u c) y t d)) =
     Some (AVTreeNode (AVTreeNode a x (if u > 0 then - 1 else 0) b) z 0 (AVTreeNode c y (if u < 0 then 1 else 0) d))"
| "rotate_twice False (AVTreeNode (AVTreeNode a y t (AVTreeNode b z u c)) x s d) =
     Some (AVTreeNode (AVTreeNode a y (if u > 0 then - 1 else 0) b) z 0 (AVTreeNode c x (if u < 0 then 1 else 0) d))"
| "rotate_twice i t = None"

fun rotate_once :: "bool \<Rightarrow> 'a AVTreeNode \<Rightarrow> 'a AVTreeNode option" where
  "rotate_once True (AVTreeNode a x s (AVTreeNode b y t c)) =
     (let s = (if t \<noteq> 0 then 0 else drop_bit 1 s) in Some (AVTreeNode (AVTreeNode a x s b) y (- s) c))"
| "rotate_once False (AVTreeNode (AVTreeNode a y t b) x s c) =
     (let s = (if t \<noteq> 0 then 0 else drop_bit 1 s) in Some (AVTreeNode a y (- s) (AVTreeNode b x s c)))"
| "rotate_once i t = None"

definition child :: "bool \<Rightarrow> 'a AVTreeNode \<Rightarrow> 'a AVTreeNode" where
  "child i t = (if i then child1 t else child0 t)"

definition rotate_node :: "bool \<Rightarrow> 'a AVTreeNode \<Rightarrow> 'a AVTreeNode option" where
  "rotate_node i t =
     (if child i t = NULL then None
      else if state (child i t) * 2 = - state t then rotate_twice i t else rotate_once i t)"

text \<open>After the subtree \<open>side\<close> has changed its height: the new state, the rotation, and whether the height of this
  tree has changed too (the result is null).\<close>

definition rebalance :: "bool \<Rightarrow> 'a \<Rightarrow> 'a AVTreeNode option \<Rightarrow> 'a AVTreeNode \<Rightarrow> 'a \<Rightarrow> int \<Rightarrow> 'a AVTreeNode \<Rightarrow>
    ('a option \<times> 'a AVTreeNode \<times> 'a AVTreeNode option) option" where
  "rebalance side key next l e s r =
     (let i = (side \<noteq> (next \<noteq> None));
          s = s + (if i then 1 else - 1)
      in do {
        t \<leftarrow> (if even s \<and> s \<noteq> 0 then rotate_node i (AVTreeNode l e s r) else Some (AVTreeNode l e s r));
        Some (if (state t = 0) \<noteq> (next \<noteq> None) then Some key else None, t, next) })"

text \<open>The result is the return value, the tree and the spare node.\<close>

fun av_tree_insert :: "('a \<Rightarrow> 'a \<Rightarrow> int) \<Rightarrow> 'a AVTreeNode \<Rightarrow> 'a \<Rightarrow> 'a AVTreeNode option \<Rightarrow>
    ('a option \<times> 'a AVTreeNode \<times> 'a AVTreeNode option) option" where
  "av_tree_insert cmp NULL key next =
     (case next of
        Some (AVTreeNode l e s r) \<Rightarrow> Some (None, AVTreeNode l key s r, None)
      | Some NULL \<Rightarrow> None
      | None \<Rightarrow> Some (Some key, NULL, None))"
| "av_tree_insert cmp (AVTreeNode l e s r) key next =
     (let v = cmp e key
      in if v = 0 \<and> next \<noteq> None then Some (Some e, AVTreeNode l e s r, next)
         else if v = 0 \<and> l = NULL \<and> r = NULL then Some (None, NULL, Some (AVTreeNode l e s r))
         else do {
           (key, e, side) \<leftarrow>
             (if v = 0
              then
                let i = (l = NULL)
                in do {
                  next_elem \<leftarrow> snd (av_tree_find cmp (if i then r else l) key (Some (None, None)));
                  x \<leftarrow> (if i then snd next_elem else fst next_elem);
                  Some (x, x, i) }
              else Some (key, e, v < 0));
           (ret, l, r, next) \<leftarrow>
             (if side
              then do { (ret, r, next) \<leftarrow> av_tree_insert cmp r key next; Some (ret, l, r, next) }
              else do { (ret, l, next) \<leftarrow> av_tree_insert cmp l key next; Some (ret, l, r, next) });
           if ret = None then rebalance side key next l e s r else Some (ret, AVTreeNode l e s r, next) })"

text \<open>The elements \<open>enu\<close> is called for, in order.\<close>

fun av_tree_enumerate :: "('a \<Rightarrow> int) option \<Rightarrow> 'a AVTreeNode \<Rightarrow> 'a list" where
  "av_tree_enumerate cmp NULL = []"
| "av_tree_enumerate cmp (AVTreeNode l e s r) =
     (let v = (case cmp of Some c \<Rightarrow> c e | None \<Rightarrow> 0)
      in (if v \<ge> 0 then av_tree_enumerate cmp l else []) @ (if v = 0 then [e] else []) @
         (if v \<le> 0 then av_tree_enumerate cmp r else []))"

subsection \<open>Well-formed trees\<close>

abbreviation elems :: "'a AVTreeNode \<Rightarrow> 'a set" where
  "elems \<equiv> set_AVTreeNode"

fun height :: "'a AVTreeNode \<Rightarrow> nat" where
  "height NULL = 0"
| "height (AVTreeNode l e s r) = 1 + max (height l) (height r)"

fun ordered :: "'a::linorder AVTreeNode \<Rightarrow> bool" where
  "ordered NULL = True"
| "ordered (AVTreeNode l e s r) \<longleftrightarrow> ordered l \<and> ordered r \<and> (\<forall>x \<in> elems l. x < e) \<and> (\<forall>x \<in> elems r. e < x)"

fun balanced :: "'a AVTreeNode \<Rightarrow> bool" where
  "balanced NULL = True"
| "balanced (AVTreeNode l e s r) \<longleftrightarrow> balanced l \<and> balanced r \<and> s = int (height r) - int (height l) \<and> \<bar>s\<bar> \<le> 1"

definition compares :: "('a::linorder \<Rightarrow> 'a \<Rightarrow> int) \<Rightarrow> bool" where
  "compares cmp \<longleftrightarrow> (\<forall>a b. (cmp a b < 0 \<longleftrightarrow> a < b) \<and> (cmp a b = 0 \<longleftrightarrow> a = b))"

lemma comparesD: "compares cmp \<Longrightarrow> cmp a b < 0 \<longleftrightarrow> a < b" "compares cmp \<Longrightarrow> cmp a b = 0 \<longleftrightarrow> a = b"
  by (simp_all add: compares_def)

lemma height_0: "height t = 0 \<longleftrightarrow> t = NULL"
  by (cases t) simp_all

text \<open>The least and the greatest element.\<close>

fun least :: "'a AVTreeNode \<Rightarrow> 'a option" where
  "least NULL = None"
| "least (AVTreeNode l e s r) = (if l = NULL then Some e else least l)"

fun greatest :: "'a AVTreeNode \<Rightarrow> 'a option" where
  "greatest NULL = None"
| "greatest (AVTreeNode l e s r) = (if r = NULL then Some e else greatest r)"

lemma least_value:
  "ordered t \<Longrightarrow> t \<noteq> NULL \<Longrightarrow> \<exists>x. least t = Some x \<and> x \<in> elems t \<and> (\<forall>y \<in> elems t. x \<le> y)"
proof (induction t)
  case (AVTreeNode l e s r)
  show ?case
  proof (cases "l = NULL")
    case True
    then show ?thesis using AVTreeNode.prems by (auto intro: less_imp_le)
  next
    case False
    then obtain x where x: "least l = Some x" "x \<in> elems l" "\<forall>y \<in> elems l. x \<le> y" using AVTreeNode by auto
    then have "x < e" "\<forall>y \<in> elems r. e < y" using AVTreeNode.prems by auto
    then show ?thesis using x False by (auto intro: less_imp_le less_trans)
  qed
qed simp

lemma greatest_value:
  "ordered t \<Longrightarrow> t \<noteq> NULL \<Longrightarrow> \<exists>x. greatest t = Some x \<and> x \<in> elems t \<and> (\<forall>y \<in> elems t. y \<le> x)"
proof (induction t)
  case (AVTreeNode l e s r)
  show ?case
  proof (cases "r = NULL")
    case True
    then show ?thesis using AVTreeNode.prems by (auto intro: less_imp_le)
  next
    case False
    then obtain x where x: "greatest r = Some x" "x \<in> elems r" "\<forall>y \<in> elems r. y \<le> x" using AVTreeNode by auto
    then have "e < x" "\<forall>y \<in> elems l. y < e" using AVTreeNode.prems by auto
    then show ?thesis using x False by (auto intro: less_imp_le less_trans)
  qed
qed simp

lemma find_above:
  "compares cmp \<Longrightarrow> \<forall>x \<in> elems t. key < x \<Longrightarrow>
    av_tree_find cmp t key (Some n) = (None, Some (if t = NULL then n else (fst n, least t)))"
  by (induction t arbitrary: n) (auto simp: comparesD set_next_def Let_def)

lemma find_below:
  "compares cmp \<Longrightarrow> \<forall>x \<in> elems t. x < key \<Longrightarrow>
    av_tree_find cmp t key (Some n) = (None, Some (if t = NULL then n else (greatest t, snd n)))"
  by (induction t arbitrary: n) (auto simp: comparesD set_next_def Let_def not_less_iff_gr_or_eq)

subsection \<open>Rotations\<close>

definition same_elems :: "'a::linorder AVTreeNode \<Rightarrow> 'a AVTreeNode \<Rightarrow> bool" where
  "same_elems t t' \<longleftrightarrow> elems t' = elems t \<and> (ordered t \<longrightarrow> ordered t')"

lemma rotate_node_ok:
  assumes "balanced l" "balanced r" "if i then height r = height l + 2 else height l = height r + 2"
    and "s = (if i then 2 else - 2)"
  shows "\<exists>t'. rotate_node i (AVTreeNode l e s r) = Some t' \<and> t' \<noteq> NULL \<and> balanced t' \<and> same_elems (AVTreeNode l e s r) t' \<and>
    (if state (if i then r else l) = 0 then state t' \<noteq> 0 \<and> height t' = max (height l) (height r) + 1
     else state t' = 0 \<and> height t' = max (height l) (height r))"
proof (cases i)
  case True
  obtain b y t c where r: "r = AVTreeNode b y t c" using assms(3) True by (cases r) auto
  show ?thesis
  proof (cases "t = - 1")
    case t: True
    then obtain b1 z u b2 where b: "b = AVTreeNode b1 z u b2" using assms(2) r by (cases b) auto
    show ?thesis using assms True t
      by (auto simp: r b rotate_node_def child_def same_elems_def)
  next
    case False
    show ?thesis using assms True False
      by (auto simp: r rotate_node_def child_def same_elems_def)
  qed
next
  case False
  obtain b y t c where l: "l = AVTreeNode b y t c" using assms(3) False by (cases l) auto
  show ?thesis
  proof (cases "t = 1")
    case t: True
    then obtain c1 z u c2 where c: "c = AVTreeNode c1 z u c2" using assms(1) l by (cases c) auto
    show ?thesis using assms False t
      by (auto simp: l c rotate_node_def child_def same_elems_def)
  next
    case t: False
    show ?thesis using assms False t
      by (auto simp: l rotate_node_def child_def same_elems_def)
  qed
qed

subsection \<open>Inserting\<close>

definition fresh_node :: "'a \<Rightarrow> 'a AVTreeNode" where
  "fresh_node x = AVTreeNode NULL x 0 NULL"

text \<open>What inserting does to a tree without the key; the result is null when the tree has become higher.\<close>

definition inserted :: "'a::linorder \<Rightarrow> 'a AVTreeNode \<Rightarrow> 'a option \<times> 'a AVTreeNode \<times> 'a AVTreeNode option \<Rightarrow> bool" where
  "inserted key t = (\<lambda>(ret, t', next). next = None \<and> t' \<noteq> NULL \<and> ordered t' \<and> balanced t' \<and> elems t' = Set.insert key (elems t) \<and>
     (if ret = None then height t' = height t + 1 \<and> (t = NULL \<or> state t' \<noteq> 0) else ret = Some key \<and> height t' = height t))"

lemma rebalance_stay:
  assumes "i = (side \<noteq> (nx \<noteq> None))" "s' = s + (if i then 1 else - 1)" "\<not> (even s' \<and> s' \<noteq> 0)"
  shows "rebalance side key nx l e s r =
    Some (if (s' = 0) \<noteq> (nx \<noteq> None) then Some key else None, AVTreeNode l e s' r, nx)"
  unfolding rebalance_def Let_def assms(1) [symmetric] assms(2) [symmetric] if_not_P [OF assms(3)]
  by (simp only: Option.bind.bind_lunit AVTreeNode.sel)

lemma rebalance_rotate:
  assumes "i = (side \<noteq> (nx \<noteq> None))" "s' = s + (if i then 1 else - 1)" "even s' \<and> s' \<noteq> 0"
    and "rotate_node i (AVTreeNode l e s' r) = Some t"
  shows "rebalance side key nx l e s r = Some (if (state t = 0) \<noteq> (nx \<noteq> None) then Some key else None, t, nx)"
  unfolding rebalance_def Let_def assms(1) [symmetric] assms(2) [symmetric] if_P [OF assms(3)] assms(4)
  by (simp only: Option.bind.bind_lunit)

lemma rebalance_stuck:
  assumes "i = (side \<noteq> (nx \<noteq> None))" "s' = s + (if i then 1 else - 1)" "even s' \<and> s' \<noteq> 0"
    and "rotate_node i (AVTreeNode l e s' r) = None"
  shows "rebalance side key nx l e s r = None"
  unfolding rebalance_def Let_def assms(1) [symmetric] assms(2) [symmetric] if_P [OF assms(3)] assms(4)
  by (simp only: Option.bind.bind_lzero)

lemma rebalance_inserted:
  assumes "balanced l" "balanced r" "s = int (height r) - int (height l)" "\<bar>s\<bar> \<le> 1"
    and "ordered (AVTreeNode l e s r)"
    and "if side then balanced r' \<and> height r' = height r + 1 \<and> (r = NULL \<or> state r' \<noteq> 0) \<and> r' \<noteq> NULL \<and> ordered r' \<and>
           elems r' = Set.insert key (elems r) \<and> l' = l \<and> e < key
         else balanced l' \<and> height l' = height l + 1 \<and> (l = NULL \<or> state l' \<noteq> 0) \<and> l' \<noteq> NULL \<and> ordered l' \<and>
           elems l' = Set.insert key (elems l) \<and> r' = r \<and> key < e"
  shows "\<exists>x. rebalance side key None l' e s r' = Some x \<and> inserted key (AVTreeNode l e s r) x"
proof -
  define s' where "s' = s + (if side then 1 else - 1)"
  have o: "ordered (AVTreeNode l' e s' r')" using assms(5,6) by (auto split: if_splits)
  have el: "elems (AVTreeNode l' e s' r') = Set.insert key (elems (AVTreeNode l e s r))" using assms(6) by (auto split: if_splits)
  show ?thesis
  proof (cases "even s' \<and> s' \<noteq> 0")
    case False
    moreover have "s = - 1 \<or> s = 0 \<or> s = 1" using assms(4) by linarith
    ultimately have sm: "\<bar>s'\<bar> \<le> 1" by (auto simp: s'_def split: if_splits)
    have b: "balanced (AVTreeNode l' e s' r')" using assms(1-3,6) sm by (auto simp: s'_def split: if_splits)
    have h: "if s' = 0 then height (AVTreeNode l' e s' r') = height (AVTreeNode l e s r)
        else height (AVTreeNode l' e s' r') = height (AVTreeNode l e s r) + 1"
      using assms(3,4,6) sm by (auto simp: s'_def split: if_splits)
    have "rebalance side key None l' e s r' = Some (if s' = 0 then Some key else None, AVTreeNode l' e s' r', None)"
      using rebalance_stay [OF _ s'_def False, where nx = None and key = key and l = l' and e = e and r = r'] by simp
    then show ?thesis using b h o el by (auto simp: inserted_def split: if_splits)
  next
    case True
    moreover have "s = - 1 \<or> s = 0 \<or> s = 1" using assms(4) by linarith
    ultimately have two: "s' = (if side then 2 else - 2)" by (auto simp: s'_def split: if_splits)
    have h: "balanced l'" "balanced r'" "if side then height r' = height l' + 2 else height l' = height r' + 2"
      using assms two by (auto simp: s'_def split: if_splits)
    obtain t' where t': "rotate_node side (AVTreeNode l' e s' r') = Some t'" "t' \<noteq> NULL" "balanced t'" "same_elems (AVTreeNode l' e s' r') t'"
      "if state (if side then r' else l') = 0 then state t' \<noteq> 0 \<and> height t' = max (height l') (height r') + 1
       else state t' = 0 \<and> height t' = max (height l') (height r')"
      using rotate_node_ok [OF h two, of e] by blast
    have "state (if side then r' else l') \<noteq> 0" using assms(3,6) h(3) two by (auto simp: s'_def split: if_splits)
    then have z: "state t' = 0" "height t' = height (AVTreeNode l e s r)"
      using t'(5) assms(3,6) h(3) two by (auto simp: s'_def split: if_splits)
    have "rebalance side key None l' e s r' = Some (Some key, t', None)"
      using rebalance_rotate [OF _ s'_def True t'(1), where nx = None and key = key] z(1) by simp
    then show ?thesis using t'(2-4) z(2) o el by (auto simp: inserted_def same_elems_def)
  qed
qed

lemma insert_value:
  assumes "compares cmp"
  shows "ordered t \<Longrightarrow> balanced t \<Longrightarrow>
    (if key \<in> elems t then av_tree_insert cmp t key (Some (fresh_node x)) = Some (Some key, t, Some (fresh_node x))
     else \<exists>y. av_tree_insert cmp t key (Some (fresh_node x)) = Some y \<and> inserted key t y)"
proof (induction t)
  case NULL
  then show ?case by (simp add: fresh_node_def inserted_def)
next
  case (AVTreeNode l e s r)
  let ?n = "Some (fresh_node x)"
  have wf: "ordered l" "ordered r" "balanced l" "balanced r" "s = int (height r) - int (height l)" "\<bar>s\<bar> \<le> 1"
    using AVTreeNode.prems unfolding ordered.simps balanced.simps by blast+
  have c: "cmp e key < 0 \<longleftrightarrow> e < key" "cmp e key = 0 \<longleftrightarrow> e = key" using assms by (simp_all add: comparesD)
  consider (same) "e = key" | (right) "e < key" | (left) "key < e" by (metis not_less_iff_gr_or_eq)
  then show ?case
  proof cases
    case same
    then show ?thesis using c by simp
  next
    case right
    have notl: "key \<in> elems (AVTreeNode l e s r) \<longleftrightarrow> key \<in> elems r" using right AVTreeNode.prems(1) by auto
    have e: "av_tree_insert cmp (AVTreeNode l e s r) key ?n =
        do { (ret, r', n) \<leftarrow> av_tree_insert cmp r key ?n;
             if ret = None then rebalance True key n l e s r' else Some (ret, AVTreeNode l e s r', n) }"
      using right c by (cases "av_tree_insert cmp r key ?n") auto
    show ?thesis
    proof (cases "key \<in> elems r")
      case True
      then show ?thesis using AVTreeNode.IH(2) [OF wf(2,4)] notl unfolding e by simp
    next
      case False
      then obtain ret r' n where y: "av_tree_insert cmp r key ?n = Some (ret, r', n)" "inserted key r (ret, r', n)"
        using AVTreeNode.IH(2) [OF wf(2,4)] by (auto split: if_splits)
      show ?thesis
      proof (cases "ret = None")
        case none: True
        have "\<exists>x. rebalance True key None l e s r' = Some x \<and> inserted key (AVTreeNode l e s r) x"
          by (rule rebalance_inserted [OF wf(3-6) AVTreeNode.prems(1)]) (use y(2) none right in \<open>auto simp: inserted_def\<close>)
        then show ?thesis unfolding e using y none False notl by (simp add: inserted_def)
      next
        case ret: False
        then have "inserted key (AVTreeNode l e s r) (ret, AVTreeNode l e s r', n)"
          using y(2) AVTreeNode.prems right by (auto simp: inserted_def)
        then show ?thesis unfolding e using y ret False notl by auto
      qed
    qed
  next
    case left
    have notr: "key \<in> elems (AVTreeNode l e s r) \<longleftrightarrow> key \<in> elems l" using left AVTreeNode.prems(1) by auto
    have e: "av_tree_insert cmp (AVTreeNode l e s r) key ?n =
        do { (ret, l', n) \<leftarrow> av_tree_insert cmp l key ?n;
             if ret = None then rebalance False key n l' e s r else Some (ret, AVTreeNode l' e s r, n) }"
      using left c by (cases "av_tree_insert cmp l key ?n") auto
    show ?thesis
    proof (cases "key \<in> elems l")
      case True
      then show ?thesis using AVTreeNode.IH(1) [OF wf(1,3)] notr unfolding e by simp
    next
      case False
      then obtain ret l' n where y: "av_tree_insert cmp l key ?n = Some (ret, l', n)" "inserted key l (ret, l', n)"
        using AVTreeNode.IH(1) [OF wf(1,3)] by (auto split: if_splits)
      show ?thesis
      proof (cases "ret = None")
        case none: True
        have "\<exists>x. rebalance False key None l' e s r = Some x \<and> inserted key (AVTreeNode l e s r) x"
          by (rule rebalance_inserted [OF wf(3-6) AVTreeNode.prems(1)]) (use y(2) none left in \<open>auto simp: inserted_def\<close>)
        then show ?thesis unfolding e using y none False notr by (simp add: inserted_def)
      next
        case ret: False
        then have "inserted key (AVTreeNode l e s r) (ret, AVTreeNode l' e s r, n)"
          using y(2) AVTreeNode.prems left by (auto simp: inserted_def)
        then show ?thesis unfolding e using y ret False notr by auto
      qed
    qed
  qed
qed

subsection \<open>Deleting\<close>

text \<open>The tree \<open>t\<close> has become \<open>t'\<close> with the elements \<open>A\<close>; the result is null when it is lower now.\<close>

definition shrunk :: "'a::linorder set \<Rightarrow> 'a AVTreeNode \<Rightarrow> 'a option \<times> 'a AVTreeNode \<times> 'a AVTreeNode option \<Rightarrow> bool" where
  "shrunk A t = (\<lambda>(ret, t', next). (\<exists>y. next = Some (fresh_node y)) \<and> ordered t' \<and> balanced t' \<and> elems t' = A \<and>
     height t = height t' + (if ret = None then 1 else 0))"

lemma rebalance_shrunk:
  assumes "balanced l" "balanced r" "s = int (height r) - int (height l)" "\<bar>s\<bar> \<le> 1" "nx = Some (fresh_node y)"
    and "ordered (AVTreeNode l' e' s r')" "balanced l'" "balanced r'"
    and "if side then height r = height r' + 1 \<and> l' = l else height l = height l' + 1 \<and> r' = r"
  shows "\<exists>x. rebalance side key nx l' e' s r' = Some x \<and> shrunk (Set.insert e' (elems l' \<union> elems r')) (AVTreeNode l e s r) x"
proof -
  define s' where "s' = s + (if \<not> side then 1 else - 1)"
  have i: "(\<not> side) = (side \<noteq> (nx \<noteq> None))" using assms(5) by simp
  have o: "ordered (AVTreeNode l' e' s' r')" using assms(6) by simp
  have sc: "s = - 1 \<or> s = 0 \<or> s = 1" using assms(4) by linarith
  show ?thesis
  proof (cases "even s' \<and> s' \<noteq> 0")
    case False
    then have sm: "\<bar>s'\<bar> \<le> 1" using sc by (auto simp: s'_def split: if_splits)
    have b: "balanced (AVTreeNode l' e' s' r')" using assms(3,7-9) sm by (auto simp: s'_def split: if_splits)
    have h: "height (AVTreeNode l e s r) = height (AVTreeNode l' e' s' r') + (if s' = 0 then 1 else 0)"
      using assms(3,4,9) sm by (auto simp: s'_def split: if_splits)
    have "rebalance side key nx l' e' s r' = Some (if (s' = 0) \<noteq> (nx \<noteq> None) then Some key else None, AVTreeNode l' e' s' r', nx)"
      by (rule rebalance_stay [OF i s'_def False])
    then show ?thesis using b h o assms(5) by (auto simp: shrunk_def split: if_splits)
  next
    case True
    then have two: "s' = (if \<not> side then 2 else - 2)" using sc by (auto simp: s'_def split: if_splits)
    have h: "if \<not> side then height r' = height l' + 2 else height l' = height r' + 2"
      using assms(3,9) two by (auto simp: s'_def split: if_splits)
    obtain t' where t': "rotate_node (\<not> side) (AVTreeNode l' e' s' r') = Some t'" "t' \<noteq> NULL" "balanced t'" "same_elems (AVTreeNode l' e' s' r') t'"
      "if state (if \<not> side then r' else l') = 0 then state t' \<noteq> 0 \<and> height t' = max (height l') (height r') + 1
       else state t' = 0 \<and> height t' = max (height l') (height r')"
      using rotate_node_ok [OF assms(7,8) h two, of e'] by blast
    have z: "height (AVTreeNode l e s r) = height t' + (if state t' = 0 then 1 else 0)"
      using t'(5) assms(3,9) h two by (auto simp: s'_def split: if_splits)
    have "rebalance side key nx l' e' s r' = Some (if (state t' = 0) \<noteq> (nx \<noteq> None) then Some key else None, t', nx)"
      by (rule rebalance_rotate [OF i s'_def True t'(1)])
    then show ?thesis using t'(2-4) z o assms(5) by (auto simp: shrunk_def same_elems_def)
  qed
qed

text \<open>The rest of the function after the subtree \<open>side\<close> has shrunk.\<close>

definition continue_at :: "bool \<Rightarrow> 'a \<Rightarrow> 'a \<Rightarrow> int \<Rightarrow> 'a AVTreeNode \<Rightarrow> 'a option \<times> 'a AVTreeNode \<times> 'a AVTreeNode option \<Rightarrow>
    ('a option \<times> 'a AVTreeNode \<times> 'a AVTreeNode option) option" where
  "continue_at side key e s other = (\<lambda>(ret, t, next).
     let (l, r) = (if side then (other, t) else (t, other))
     in if ret = None then rebalance side key next l e s r else Some (ret, AVTreeNode l e s r, next))"

lemma continue_shrunk:
  assumes "ordered l" "ordered r" "balanced l" "balanced r" "s = int (height r) - int (height l)" "\<bar>s\<bar> \<le> 1"
    and "if side then shrunk A r x \<and> (\<forall>z \<in> A. e' < z) \<and> (\<forall>z \<in> elems l. z < e') \<and> other = l \<and> B = elems l \<union> A
      else shrunk A l x \<and> (\<forall>z \<in> A. z < e') \<and> (\<forall>z \<in> elems r. e' < z) \<and> other = r \<and> B = A \<union> elems r"
  shows "\<exists>y. continue_at side key e' s other x = Some y \<and> shrunk (Set.insert e' B) (AVTreeNode l e s r) y"
proof -
  obtain ret t nx where x: "x = (ret, t, nx)" by (metis prod_cases3)
  define l' r' where "l' = (if side then l else t)" and "r' = (if side then t else r)"
  have t: "shrunk A (if side then r else l) (ret, t, nx)" using assms(7) by (simp add: x split: if_splits)
  obtain y where y: "nx = Some (fresh_node y)" using t by (auto simp: shrunk_def)
  have o: "ordered (AVTreeNode l' e' s r')" "balanced l'" "balanced r'" "elems l' \<union> elems r' = B"
    using t assms(1-4,7) by (auto simp: shrunk_def l'_def r'_def split: if_splits)
  have c: "continue_at side key e' s other x = (if ret = None then rebalance side key nx l' e' s r' else Some (ret, AVTreeNode l' e' s r', nx))"
    using assms(7) by (auto simp: continue_at_def x l'_def r'_def)
  show ?thesis
  proof (cases "ret = None")
    case True
    have "if side then height r = height r' + 1 \<and> l' = l else height l = height l' + 1 \<and> r' = r"
      using t True by (auto simp: shrunk_def l'_def r'_def)
    from rebalance_shrunk [OF assms(3-6) y o(1-3) this, of key e] show ?thesis unfolding c o(4) using True by simp
  next
    case False
    then have "shrunk (Set.insert e' B) (AVTreeNode l e s r) (ret, AVTreeNode l' e' s r', nx)"
      using t o y assms(5,6) by (auto simp: shrunk_def l'_def r'_def split: if_splits)
    then show ?thesis unfolding c using False by auto
  qed
qed

lemma delete_step:
  assumes "compares cmp" "e \<noteq> key"
  shows "av_tree_insert cmp (AVTreeNode l e s r) key None =
    av_tree_insert cmp (if e < key then r else l) key None \<bind> continue_at (e < key) key e s (if e < key then l else r)"
proof -
  have c: "cmp e key \<noteq> 0" "cmp e key < 0 \<longleftrightarrow> e < key" using assms by (simp_all add: comparesD)
  show ?thesis
    by (cases "av_tree_insert cmp (if e < key then r else l) key None")
      (use c in \<open>auto simp: continue_at_def split: if_splits\<close>)
qed

lemma delete_here:
  assumes "compares cmp" "ordered (AVTreeNode l e s r)" "l \<noteq> NULL \<or> r \<noteq> NULL"
    and "(if l = NULL then least r else greatest l) = Some x"
  shows "av_tree_insert cmp (AVTreeNode l e s r) e None =
    av_tree_insert cmp (if l = NULL then r else l) x None \<bind> continue_at (l = NULL) x x s (if l = NULL then l else r)"
proof -
  have c: "cmp e e = 0" using assms(1) by (simp add: comparesD)
  have f: "snd (av_tree_find cmp (if l = NULL then r else l) e (Some (None, None))) =
      Some (if l = NULL then (None, least r) else (greatest l, None))"
    using find_above [OF assms(1), of r e "(None, None)"] find_below [OF assms(1), of l e "(None, None)"] assms(2,3) by auto
  show ?thesis
    by (cases "av_tree_insert cmp (if l = NULL then r else l) x None")
      (use c f assms(3,4) in \<open>auto simp: continue_at_def Let_def split: if_splits\<close>)
qed

lemma delete_value:
  assumes "compares cmp"
  shows "ordered t \<Longrightarrow> balanced t \<Longrightarrow>
    (if key \<in> elems t then \<exists>y. av_tree_insert cmp t key None = Some y \<and> shrunk (elems t - {key}) t y
     else av_tree_insert cmp t key None = Some (Some key, t, None))"
proof (induction t arbitrary: key)
  case NULL
  then show ?case by simp
next
  case (AVTreeNode l e s r)
  have wf: "ordered l" "ordered r" "balanced l" "balanced r" "s = int (height r) - int (height l)" "\<bar>s\<bar> \<le> 1"
    and o: "\<forall>z \<in> elems l. z < e" "\<forall>z \<in> elems r. e < z"
    using AVTreeNode.prems unfolding ordered.simps balanced.simps by blast+
  show ?case
  proof (cases "e = key")
    case same: True
    show ?thesis
    proof (cases "l = NULL \<and> r = NULL")
      case True
      then have "av_tree_insert cmp (AVTreeNode l e s r) key None = Some (None, NULL, Some (AVTreeNode NULL e 0 NULL))"
        using same assms wf(5) by (simp add: comparesD)
      moreover have "shrunk (elems (AVTreeNode l e s r) - {key}) (AVTreeNode l e s r) (None, NULL, Some (AVTreeNode NULL e 0 NULL))"
        using same True by (auto simp: shrunk_def fresh_node_def)
      ultimately show ?thesis using same by (simp del: av_tree_insert.simps)
    next
      case False
      let ?sub = "if l = NULL then r else l"
      have "\<exists>x. (if l = NULL then least r else greatest l) = Some x \<and> x \<in> elems ?sub \<and>
        (if l = NULL then \<forall>y \<in> elems r. x \<le> y else \<forall>y \<in> elems l. y \<le> x)"
        using least_value [OF wf(2)] greatest_value [OF wf(1)] False by (cases "l = NULL") simp_all
      then obtain x where x: "(if l = NULL then least r else greatest l) = Some x" "x \<in> elems ?sub"
        "if l = NULL then \<forall>y \<in> elems r. x \<le> y else \<forall>y \<in> elems l. y \<le> x"
        by blast
      have "\<exists>y. av_tree_insert cmp ?sub x None = Some y \<and> shrunk (elems ?sub - {x}) ?sub y"
        using AVTreeNode.IH(1) [OF wf(1,3), of x] AVTreeNode.IH(2) [OF wf(2,4), of x] x(2) by (auto split: if_splits)
      then obtain y where y: "av_tree_insert cmp ?sub x None = Some y" "shrunk (elems ?sub - {x}) ?sub y" by blast
      have e: "av_tree_insert cmp (AVTreeNode l e s r) key None = continue_at (l = NULL) x x s (if l = NULL then l else r) y"
        using delete_here [OF assms AVTreeNode.prems(1) _ x(1)] False same y(1) by simp
      let ?B = "(elems ?sub - {x}) \<union> elems (if l = NULL then l else r)"
      have tr: "\<forall>z \<in> elems r. x < z" if "l \<noteq> NULL" using x(2) o that by (auto intro: less_trans)
      have "\<exists>z. continue_at (l = NULL) x x s (if l = NULL then l else r) y = Some z \<and> shrunk (Set.insert x ?B) (AVTreeNode l e s r) z"
        by (rule continue_shrunk [OF wf, where A = "elems ?sub - {x}"])
          (use y(2) x(2,3) o tr in \<open>auto simp: order.order_iff_strict\<close>)
      moreover have "Set.insert x ?B = elems (AVTreeNode l e s r) - {key}"
        using x(2) o same by (auto split: if_splits)
      ultimately show ?thesis using e same by simp
    qed
  next
    case False
    let ?right = "e < key" and ?sub = "if e < key then r else l"
    have mem: "key \<in> elems (AVTreeNode l e s r) \<longleftrightarrow> key \<in> elems ?sub" using o False by auto
    have IH: "if key \<in> elems ?sub then \<exists>y. av_tree_insert cmp ?sub key None = Some y \<and> shrunk (elems ?sub - {key}) ?sub y
       else av_tree_insert cmp ?sub key None = Some (Some key, ?sub, None)"
      using AVTreeNode.IH(1) [OF wf(1,3), of key] AVTreeNode.IH(2) [OF wf(2,4), of key]
      by (cases "e < key") (simp_all only: if_True if_False simp_thms)
    show ?thesis
    proof (cases "key \<in> elems ?sub")
      case True
      then obtain y where y: "av_tree_insert cmp ?sub key None = Some y" "shrunk (elems ?sub - {key}) ?sub y" using IH by auto
      let ?B = "(elems ?sub - {key}) \<union> elems (if e < key then l else r)"
      have "\<exists>z. continue_at ?right key e s (if e < key then l else r) y = Some z \<and> shrunk (Set.insert e ?B) (AVTreeNode l e s r) z"
        by (rule continue_shrunk [OF wf, where A = "elems ?sub - {key}"]) (use y(2) o in auto)
      moreover have "Set.insert e ?B = elems (AVTreeNode l e s r) - {key}" using o False by auto
      ultimately show ?thesis unfolding delete_step [OF assms False] y(1) using mem True by simp
    next
      case no: False
      then have "av_tree_insert cmp ?sub key None = Some (Some key, ?sub, None)" using IH by simp
      then show ?thesis unfolding delete_step [OF assms False] using mem no by (simp add: continue_at_def split: if_splits)
    qed
  qed
qed

subsection \<open>Finding and enumerating\<close>

lemma find_value:
  assumes "compares cmp"
  shows "ordered t \<Longrightarrow> fst (av_tree_find cmp t key n) = (if key \<in> elems t then Some key else None)"
proof (induction t arbitrary: n)
  case (AVTreeNode l e s r)
  have c: "cmp key e < 0 \<longleftrightarrow> key < e" "cmp key e = 0 \<longleftrightarrow> key = e" using assms by (simp_all add: comparesD)
  show ?case using AVTreeNode c by (auto simp: Let_def)
qed simp

text \<open>The greatest element below the key and the least above it, where there is one.\<close>

definition neighbours :: "'a::linorder \<Rightarrow> 'a set \<Rightarrow> 'a next_elems \<Rightarrow> 'a next_elems" where
  "neighbours key A n =
     (let B = {y \<in> A. y < key}; C = {y \<in> A. key < y}
      in (if B = {} then fst n else Some (Max B), if C = {} then snd n else Some (Min C)))"

lemma finite_elems: "finite (elems t)"
  by (induction t) simp_all

lemma neighbours_all_above:
  assumes "ordered t" "\<forall>x \<in> elems t. key < x"
  shows "neighbours key (elems t) n = (if t = NULL then n else (fst n, least t))"
proof -
  have e: "{y \<in> elems t. y < key} = {}" "{y \<in> elems t. key < y} = elems t" using assms(2) by auto
  show ?thesis
  proof (cases "t = NULL")
    case False
    then obtain x where "least t = Some x" "x \<in> elems t" "\<forall>y \<in> elems t. x \<le> y" using least_value [OF assms(1)] by blast
    moreover from this have "Min (elems t) = x" using finite_elems by (intro Min_eqI) auto
    ultimately show ?thesis using False e by (auto simp: neighbours_def Let_def)
  qed (simp add: neighbours_def)
qed

lemma neighbours_all_below:
  assumes "ordered t" "\<forall>x \<in> elems t. x < key"
  shows "neighbours key (elems t) n = (if t = NULL then n else (greatest t, snd n))"
proof -
  have e: "{y \<in> elems t. key < y} = {}" "{y \<in> elems t. y < key} = elems t" using assms(2) by auto
  show ?thesis
  proof (cases "t = NULL")
    case False
    then obtain x where "greatest t = Some x" "x \<in> elems t" "\<forall>y \<in> elems t. y \<le> x" using greatest_value [OF assms(1)] by blast
    moreover from this have "Max (elems t) = x" using finite_elems by (intro Max_eqI) auto
    ultimately show ?thesis using False e by (auto simp: neighbours_def Let_def)
  qed (simp add: neighbours_def)
qed

text \<open>Elements beyond an element on the other side do not matter.\<close>

lemma neighbours_left:
  assumes "key < e" "finite A" "finite B" "\<forall>x \<in> A. x < e" "\<forall>x \<in> B. e < x"
  shows "neighbours key (Set.insert e (A \<union> B)) n = neighbours key A (fst n, Some e)"
proof -
  let ?C = "{y \<in> A. key < y}"
  have b: "{y \<in> Set.insert e (A \<union> B). y < key} = {y \<in> A. y < key}" using assms(1,5) by (auto dest: less_trans)
  have c: "{y \<in> Set.insert e (A \<union> B). key < y} = Set.insert e (?C \<union> B)" using assms(1,5) by (auto dest: less_trans)
  have "Min (Set.insert e (?C \<union> B)) = (if ?C = {} then e else Min ?C)"
  proof (rule Min_eqI)
    show "finite (Set.insert e (?C \<union> B))" using assms(2,3) by simp
    have m: "Min ?C \<in> ?C" if "?C \<noteq> {}" using Min_in [OF _ that] assms(2) by simp
    then show "(if ?C = {} then e else Min ?C) \<in> Set.insert e (?C \<union> B)" by auto
    fix y assume y: "y \<in> Set.insert e (?C \<union> B)"
    show "(if ?C = {} then e else Min ?C) \<le> y"
    proof (cases "?C = {}")
      case True
      then show ?thesis using y assms(5) by (auto intro: less_imp_le)
    next
      case False
      then have "Min ?C < e" using m assms(4) by auto
      moreover have "Min ?C \<le> z" if "z \<in> ?C" for z using Min_le [of ?C z] that assms(2) by simp
      ultimately show ?thesis using y assms(5) False by (auto intro: less_imp_le less_trans)
    qed
  qed
  then show ?thesis unfolding neighbours_def Let_def b c by auto
qed

lemma neighbours_right:
  assumes "e < key" "finite A" "finite B" "\<forall>x \<in> A. x < e" "\<forall>x \<in> B. e < x"
  shows "neighbours key (Set.insert e (A \<union> B)) n = neighbours key B (Some e, snd n)"
proof -
  let ?C = "{y \<in> B. y < key}"
  have b: "{y \<in> Set.insert e (A \<union> B). key < y} = {y \<in> B. key < y}" using assms(1,4) by (auto dest: less_trans)
  have c: "{y \<in> Set.insert e (A \<union> B). y < key} = Set.insert e (?C \<union> A)" using assms(1,4) by (auto dest: less_trans)
  have "Max (Set.insert e (?C \<union> A)) = (if ?C = {} then e else Max ?C)"
  proof (rule Max_eqI)
    show "finite (Set.insert e (?C \<union> A))" using assms(2,3) by simp
    have m: "Max ?C \<in> ?C" if "?C \<noteq> {}" using Max_in [OF _ that] assms(3) by simp
    then show "(if ?C = {} then e else Max ?C) \<in> Set.insert e (?C \<union> A)" by auto
    fix y assume y: "y \<in> Set.insert e (?C \<union> A)"
    show "y \<le> (if ?C = {} then e else Max ?C)"
    proof (cases "?C = {}")
      case True
      then show ?thesis using y assms(4) by (auto intro: less_imp_le)
    next
      case False
      then have "e < Max ?C" using m assms(5) by auto
      moreover have "z \<le> Max ?C" if "z \<in> ?C" for z using Max_ge [of ?C z] that assms(3) by simp
      ultimately show ?thesis using y assms(4) False by (auto intro: less_imp_le less_trans)
    qed
  qed
  then show ?thesis unfolding neighbours_def Let_def b c by auto
qed

lemma find_next:
  assumes "compares cmp"
  shows "ordered t \<Longrightarrow> snd (av_tree_find cmp t key (Some n)) = Some (neighbours key (elems t) n)"
proof (induction t arbitrary: n)
  case NULL
  then show ?case by (simp add: neighbours_def)
next
  case (AVTreeNode l e s r)
  have wf: "ordered l" "ordered r" "\<forall>z \<in> elems l. z < e" "\<forall>z \<in> elems r. e < z" using AVTreeNode.prems by simp_all
  have c: "cmp key e < 0 \<longleftrightarrow> key < e" "cmp key e = 0 \<longleftrightarrow> key = e" using assms by (simp_all add: comparesD)
  have el: "elems (AVTreeNode l e s r) = Set.insert e (elems l \<union> elems r)" by simp
  consider "key < e" | "key = e" | "e < key" by (metis not_less_iff_gr_or_eq)
  then show ?case
  proof cases
    case 1
    have "neighbours key (elems (AVTreeNode l e s r)) n = neighbours key (elems l) (fst n, Some e)"
      unfolding el by (rule neighbours_left [OF 1 finite_elems finite_elems wf(3,4)])
    then show ?thesis using AVTreeNode.IH(1) [OF wf(1)] 1 c by (simp add: Let_def set_next_def)
  next
    case 2
    have "{y \<in> Set.insert e (elems l \<union> elems r). y < e} = {y \<in> elems l. y < e}"
      "{y \<in> Set.insert e (elems l \<union> elems r). e < y} = {y \<in> elems r. e < y}"
      using wf(3,4) by auto
    then have "neighbours e (elems (AVTreeNode l e s r)) n = (fst (neighbours e (elems l) n), snd (neighbours e (elems r) n))"
      unfolding el by (simp add: neighbours_def Let_def)
    also have "\<dots> = (if l = NULL then fst n else greatest l, if r = NULL then snd n else least r)"
      by (simp add: neighbours_all_below [OF wf(1,3)] neighbours_all_above [OF wf(2,4)])
    finally show ?thesis
      using 2 c find_below [OF assms wf(3)] find_above [OF assms wf(4)] by simp
  next
    case 3
    have "neighbours key (elems (AVTreeNode l e s r)) n = neighbours key (elems r) (Some e, snd n)"
      unfolding el by (rule neighbours_right [OF 3 finite_elems finite_elems wf(3,4)])
    then show ?thesis using AVTreeNode.IH(2) [OF wf(2)] 3 c by (auto simp: Let_def set_next_def)
  qed
qed

text \<open>All elements are passed to \<open>enu\<close> in order; a comparison function restricts them to a range.\<close>

abbreviation inorder :: "'a AVTreeNode \<Rightarrow> 'a list" where
  "inorder \<equiv> av_tree_enumerate None"

lemma set_inorder: "set (inorder t) = elems t"
  by (induction t) auto

lemma inorder_sorted: "ordered t \<Longrightarrow> sorted_wrt (<) (inorder t)"
  by (induction t) (auto simp: sorted_wrt_append set_inorder intro: less_trans)

lemma enumerate_range:
  assumes "\<And>a b. c a < 0 \<Longrightarrow> b \<le> a \<Longrightarrow> c b < 0" "\<And>a b. 0 < c a \<Longrightarrow> a \<le> b \<Longrightarrow> 0 < c b"
  shows "ordered t \<Longrightarrow> av_tree_enumerate (Some c) t = filter (\<lambda>e. c e = 0) (inorder t)"
proof (induction t)
  case (AVTreeNode l e s r)
  have "c x < 0" if "x \<in> elems l" "c e < 0" for x
    using assms(1) [OF that(2), of x] AVTreeNode.prems that(1) by (auto intro: less_imp_le)
  then have "filter (\<lambda>e. c e = 0) (inorder l) = []" if "c e < 0"
    using that by (force simp: filter_empty_conv set_inorder)
  moreover have "0 < c x" if "x \<in> elems r" "0 < c e" for x
    using assms(2) [OF that(2), of x] AVTreeNode.prems that(1) by (auto intro: less_imp_le)
  then have "filter (\<lambda>e. c e = 0) (inorder r) = []" if "0 < c e"
    using that by (force simp: filter_empty_conv set_inorder)
  ultimately show ?case using AVTreeNode by (auto simp: Let_def)
qed simp

text \<open>A tree of height \<open>h\<close> has at least \<open>2 ^ (h div 2) - 1\<close> elements.\<close>

lemma height_bound: "balanced t \<Longrightarrow> 2 ^ (height t div 2) \<le> length (inorder t) + 1"
proof (induction "height t" arbitrary: t rule: less_induct)
  case less
  show ?case
  proof (cases t)
    case (AVTreeNode l e s r)
    have b: "balanced l" "balanced r" "\<bar>int (height r) - int (height l)\<bar> \<le> 1" using less.prems AVTreeNode by auto
    have IH: "2 ^ (height l div 2) \<le> length (inorder l) + 1" "2 ^ (height r div 2) \<le> length (inorder r) + 1"
      using less.hyps b AVTreeNode by simp_all
    have h: "height t - 2 \<le> height l" "height t - 2 \<le> height r" using b(3) AVTreeNode by auto
    have "(2::nat) ^ ((height t - 2) div 2) \<le> 2 ^ (height l div 2)" "(2::nat) ^ ((height t - 2) div 2) \<le> 2 ^ (height r div 2)"
      using h by (auto intro: power_increasing div_le_mono)
    then have "2 ^ ((height t - 2) div 2) + 2 ^ ((height t - 2) div 2) \<le> (length (inorder l) + 1) + (length (inorder r) + 1)"
      using IH by (intro add_mono) (rule le_trans, assumption+)+
    then have "2 * 2 ^ ((height t - 2) div 2) \<le> length (inorder t) + 1" using AVTreeNode by (simp del: height.simps)
    moreover have "height t div 2 = Suc ((height t - 2) div 2)" if "2 \<le> height t" using that by presburger
    ultimately show ?thesis by (cases "2 \<le> height t") auto
  qed simp
qed

subsection \<open>Trees ordered by a key\<close>

text \<open>
  The callers keep pointers to their own structures in the tree and compare one of the fields.  The operations look at
  the sign of a comparison only, so that a tree of structures and the tree of their keys change in the same way.
\<close>

definition key_cmp :: "'k::linorder \<Rightarrow> 'k \<Rightarrow> int" where
  "key_cmp a b = (if a < b then - 1 else if a = b then 0 else 1)"

definition compares_keys :: "('x \<Rightarrow> 'k::linorder) \<Rightarrow> ('a \<Rightarrow> 'k) \<Rightarrow> ('x \<Rightarrow> 'a \<Rightarrow> int) \<Rightarrow> bool" where
  "compares_keys f k cmp \<longleftrightarrow> (\<forall>x a. sgn (cmp x a) = key_cmp (f x) (k a))"

abbreviation keys :: "('a \<Rightarrow> 'k) \<Rightarrow> 'a AVTreeNode \<Rightarrow> 'k AVTreeNode" where
  "keys \<equiv> map_AVTreeNode"

abbreviation next_keys :: "('a \<Rightarrow> 'k) \<Rightarrow> 'a next_elems \<Rightarrow> 'k next_elems" where
  "next_keys k \<equiv> map_prod (map_option k) (map_option k)"

lemma compares_key_cmp: "compares key_cmp"
  by (simp add: compares_def key_cmp_def)

lemma compares_keysD:
  assumes "compares_keys f k cmp"
  shows "cmp x a = 0 \<longleftrightarrow> key_cmp (f x) (k a) = 0" "cmp x a < 0 \<longleftrightarrow> key_cmp (f x) (k a) < 0"
proof -
  have "sgn (cmp x a) = key_cmp (f x) (k a)" using assms by (simp add: compares_keys_def)
  then show "cmp x a = 0 \<longleftrightarrow> key_cmp (f x) (k a) = 0" "cmp x a < 0 \<longleftrightarrow> key_cmp (f x) (k a) < 0"
    by (auto simp: sgn_if split: if_splits)
qed

lemma find_keys:
  assumes "compares_keys f k cmp"
  shows "av_tree_find key_cmp (keys k t) (f x) (map_option (next_keys k) n) =
    map_prod (map_option k) (map_option (next_keys k)) (av_tree_find cmp t x n)"
proof (induction t arbitrary: n)
  case (AVTreeNode l e s r)
  note c = compares_keysD [OF assms, of x e]
  have sn: "map_option (set_next i (k e)) (map_option (next_keys k) n) = map_option (next_keys k) (map_option (set_next i e) n)" for i
    by (cases n) (auto simp: set_next_def)
  consider "cmp x e < 0" | "cmp x e = 0" | "0 < cmp x e" by linarith
  then show ?case
  proof cases
    case 1
    then show ?thesis using c AVTreeNode.IH(1) sn by (simp add: Let_def)
  next
    case 2
    show ?thesis
    proof (cases n)
      case (Some m)
      have "snd (av_tree_find key_cmp (keys k l) (f x) (Some (next_keys k m))) =
          map_option (next_keys k) (snd (av_tree_find cmp l x (Some m)))"
        using AVTreeNode.IH(1) [of "Some m"] by simp
      then show ?thesis using 2 c AVTreeNode.IH(2) Some by simp
    qed (use 2 c in simp)
  next
    case 3
    then show ?thesis using c AVTreeNode.IH(2) sn by (simp add: Let_def)
  qed
qed simp

lemma keys_NULL: "keys k t = NULL \<longleftrightarrow> t = NULL" "NULL = keys k t \<longleftrightarrow> t = NULL"
  by (cases t; simp)+

lemma rotate_keys:
  "rotate_twice i (keys k t) = map_option (keys k) (rotate_twice i t)"
  "rotate_once i (keys k t) = map_option (keys k) (rotate_once i t)"
  by (cases "(i, t)" rule: rotate_twice.cases, auto, cases "(i, t)" rule: rotate_once.cases, auto simp: Let_def)

lemma rotate_node_keys:
  fixes k :: "'b \<Rightarrow> 'k"
  shows "rotate_node i (AVTreeNode (keys k l) (k e) s (keys k r)) = map_option (keys k) (rotate_node i (AVTreeNode l e s r))"
proof -
  have "state (keys k t) = state t" if "t \<noteq> NULL" for t :: "'b AVTreeNode"
    using that by (cases t) simp_all
  then show ?thesis
    using rotate_keys [of i k "AVTreeNode l e s r"] by (auto simp: rotate_node_def child_def keys_NULL)
qed

lemma rotated_node: "rotate_node i (AVTreeNode l e s r) = Some t \<Longrightarrow> t \<noteq> NULL"
  by (cases "(i, AVTreeNode l e s r)" rule: rotate_twice.cases; cases "(i, AVTreeNode l e s r)" rule: rotate_once.cases)
    (auto simp: rotate_node_def Let_def child_def split: if_splits)

abbreviation result_keys :: "('a \<Rightarrow> 'k) \<Rightarrow> 'a option \<times> 'a AVTreeNode \<times> 'a AVTreeNode option \<Rightarrow>
    'k option \<times> 'k AVTreeNode \<times> 'k AVTreeNode option" where
  "result_keys k \<equiv> map_prod (map_option k) (map_prod (keys k) (map_option (keys k)))"

lemma rebalance_keys:
  "rebalance side (k key) (map_option (keys k) nx) (keys k l) (k e) s (keys k r) = map_option (result_keys k) (rebalance side key nx l e s r)"
proof -
  define i where "i = (side \<noteq> (nx \<noteq> None))"
  define s' where "s' = s + (if i then 1 else - 1)"
  have i': "i = (side \<noteq> (map_option (keys k) nx \<noteq> None))" by (simp add: i_def)
  show ?thesis
  proof (cases "even s' \<and> s' \<noteq> 0")
    case False
    then show ?thesis
      unfolding rebalance_stay [OF i_def s'_def False] rebalance_stay [OF i' s'_def False] by (cases nx) simp_all
  next
    case True
    show ?thesis
    proof (cases "rotate_node i (AVTreeNode l e s' r)")
      case None
      then have none: "rotate_node i (AVTreeNode (keys k l) (k e) s' (keys k r)) = None"
        using rotate_node_keys [of i k l e s' r] by simp
      then show ?thesis
        unfolding rebalance_stuck [OF i_def s'_def True None] rebalance_stuck [OF i' s'_def True none] by simp
    next
      case (Some t)
      then obtain l2 e2 s2 r2 where t: "t = AVTreeNode l2 e2 s2 r2" using rotated_node [OF Some] by (cases t) auto
      have "rotate_node i (AVTreeNode (keys k l) (k e) s' (keys k r)) = Some (keys k t)"
        using Some rotate_node_keys [of i k l e s' r] by simp
      then show ?thesis
        unfolding rebalance_rotate [OF i_def s'_def True Some] rebalance_rotate [OF i' s'_def True \<open>_ = Some (keys k t)\<close>]
        by (cases nx) (simp_all add: t)
    qed
  qed
qed

lemma continue_keys:
  "continue_at i (k key) (k e) s (keys k other) (result_keys k x) = map_option (result_keys k) (continue_at i key e s other x)"
  by (cases x) (auto simp: continue_at_def rebalance_keys)

lemma insert_turn:
  assumes "cmp e key \<noteq> 0"
  shows "av_tree_insert cmp (AVTreeNode l e s r) key nx =
    av_tree_insert cmp (if cmp e key < 0 then r else l) key nx \<bind> continue_at (cmp e key < 0) key e s (if cmp e key < 0 then l else r)"
  by (cases "av_tree_insert cmp (if cmp e key < 0 then r else l) key nx")
    (use assms in \<open>auto simp: continue_at_def split: if_splits\<close>)

lemma insert_swap:
  assumes "cmp e key = 0" "l \<noteq> NULL \<or> r \<noteq> NULL"
  shows "av_tree_insert cmp (AVTreeNode l e s r) key None =
    snd (av_tree_find cmp (if l = NULL then r else l) key (Some (None, None))) \<bind> (\<lambda>n. (if l = NULL then snd n else fst n) \<bind>
      (\<lambda>x. av_tree_insert cmp (if l = NULL then r else l) x None \<bind> continue_at (l = NULL) x x s (if l = NULL then l else r)))"
proof -
  let ?f = "snd (av_tree_find cmp (if l = NULL then r else l) key (Some (None, None)))"
  show ?thesis
  proof (cases ?f)
    case None
    then show ?thesis using assms by (auto simp: Let_def split: if_splits)
  next
    case (Some n)
    then show ?thesis using assms
      by (auto simp: Let_def continue_at_def split: if_splits intro!: Option.bind_cong)
  qed
qed

lemma bind_keys:
  "(\<And>x. g (h x) = map_option h' (f x)) \<Longrightarrow> map_option h y \<bind> g = map_option h' (y \<bind> f)"
  by (cases y) simp_all

lemma insert_keys:
  assumes "compares_keys k k cmp"
  shows "av_tree_insert key_cmp (keys k t) (k key) (map_option (keys k) nx) = map_option (result_keys k) (av_tree_insert cmp t key nx)"
proof (induction t arbitrary: key)
  case NULL
  show ?case by (cases nx; cases "the nx") simp_all
next
  case (AVTreeNode l e s r)
  note c = compares_keysD [OF assms]
  let ?insert = "\<lambda>i key. av_tree_insert key_cmp (if i then keys k r else keys k l) (k key) (map_option (keys k) nx)"
  have IH: "?insert i key = map_option (result_keys k) (av_tree_insert cmp (if i then r else l) key nx)" for i key
    using AVTreeNode.IH by simp
  have go: "?insert i key \<bind> continue_at i (k key) (k e') s (if i then keys k l else keys k r) =
      map_option (result_keys k) (av_tree_insert cmp (if i then r else l) key nx \<bind> continue_at i key e' s (if i then l else r))"
    for i key e'
    unfolding IH using continue_keys by (intro bind_keys) (simp only: if_distrib [of "keys k", symmetric])
  show ?case
  proof (cases "cmp e key = 0")
    case False
    then show ?thesis
      using insert_turn [of cmp e key l s r nx] insert_turn [of key_cmp "k e" "k key" "keys k l" s "keys k r" "map_option (keys k) nx"]
        go [of "cmp e key < 0" key e] c by simp
  next
    case same: True
    consider "nx \<noteq> None" | "nx = None" "l = NULL" "r = NULL" | (swap) "nx = None" "l \<noteq> NULL \<or> r \<noteq> NULL" by blast
    then show ?thesis
    proof cases
      case swap
      have f: "snd (av_tree_find key_cmp (if l = NULL then keys k r else keys k l) (k key) (Some (None, None))) =
          map_option (next_keys k) (snd (av_tree_find cmp (if l = NULL then r else l) key (Some (None, None))))"
        using find_keys [OF assms, of "if l = NULL then r else l" key "Some (None, None)"] by auto
      let ?i = "l = NULL"
      have "key_cmp (k e) (k key) = 0" "keys k l \<noteq> NULL \<or> keys k r \<noteq> NULL" using same c swap(2) by (simp_all add: keys_NULL)
      from insert_swap [of key_cmp, OF this, of s] have step: "av_tree_insert key_cmp (keys k (AVTreeNode l e s r)) (k key) None =
          map_option (next_keys k) (snd (av_tree_find cmp (if ?i then r else l) key (Some (None, None)))) \<bind>
            (\<lambda>n. (if ?i then snd n else fst n) \<bind> (\<lambda>x.
              av_tree_insert key_cmp (if ?i then keys k r else keys k l) x None \<bind> continue_at ?i x x s (if ?i then keys k l else keys k r)))"
        unfolding f keys_NULL by (simp only: AVTreeNode.map)
      have go': "av_tree_insert key_cmp (if ?i then keys k r else keys k l) (k x) None \<bind> continue_at ?i (k x) (k x) s (if ?i then keys k l else keys k r) =
          map_option (result_keys k) (av_tree_insert cmp (if ?i then r else l) x None \<bind> continue_at ?i x x s (if ?i then l else r))" for x
        using go [of ?i x x] swap(1) by (simp only: option.map)
      have "av_tree_insert key_cmp (keys k (AVTreeNode l e s r)) (k key) None =
          map_option (result_keys k) (av_tree_insert cmp (AVTreeNode l e s r) key None)"
        unfolding step insert_swap [of cmp, OF same swap(2)]
      proof (rule bind_keys)
        fix n
        have n: "(if ?i then snd (next_keys k n) else fst (next_keys k n)) = map_option k (if ?i then snd n else fst n)" by simp
        show "(if ?i then snd (next_keys k n) else fst (next_keys k n)) \<bind> (\<lambda>x.
              av_tree_insert key_cmp (if ?i then keys k r else keys k l) x None \<bind> continue_at ?i x x s (if ?i then keys k l else keys k r)) =
            map_option (result_keys k) ((if ?i then snd n else fst n) \<bind>
              (\<lambda>x. av_tree_insert cmp (if ?i then r else l) x None \<bind> continue_at ?i x x s (if ?i then l else r)))"
          unfolding n by (rule bind_keys) (rule go')
      qed
      then show ?thesis using swap(1) by (simp only: option.map)
    qed (use same c in auto)
  qed
qed

subsection \<open>The elements after an operation\<close>

lemma rotate_node_elems: "rotate_node i (AVTreeNode l e s r) = Some t \<Longrightarrow> elems t = elems (AVTreeNode l e s r)"
  by (cases "(i, AVTreeNode l e s r)" rule: rotate_twice.cases; cases "(i, AVTreeNode l e s r)" rule: rotate_once.cases)
    (auto simp: rotate_node_def Let_def child_def split: if_splits)

lemma rebalance_elems:
  assumes "rebalance side key nx l e s r = Some (ret, t, nx')"
  shows "elems t = Set.insert e (elems l \<union> elems r)" "nx' = nx"
proof -
  define i where "i = (side \<noteq> (nx \<noteq> None))"
  define s' where "s' = s + (if i then 1 else - 1)"
  have "elems t = Set.insert e (elems l \<union> elems r) \<and> nx' = nx"
  proof (cases "even s' \<and> s' \<noteq> 0")
    case False
    then show ?thesis using assms rebalance_stay [OF i_def s'_def False, of key l e r] by auto
  next
    case True
    obtain t1 where t1: "rotate_node i (AVTreeNode l e s' r) = Some t1"
      using assms rebalance_stuck [OF i_def s'_def True, of l e r key] by (cases "rotate_node i (AVTreeNode l e s' r)") auto
    show ?thesis using assms rebalance_rotate [OF i_def s'_def True t1, of key] rotate_node_elems [OF t1] by auto
  qed
  then show "elems t = Set.insert e (elems l \<union> elems r)" "nx' = nx" by simp_all
qed

lemma continue_elems:
  assumes "continue_at i key e s other (ret, t, nx) = Some (ret', t', nx')"
  shows "elems t' = Set.insert e (elems other \<union> elems t)" "nx' = nx" "nx \<noteq> None \<or> ret = None \<or> (ret' = ret)"
  using assms rebalance_elems by (auto simp: continue_at_def split: if_splits dest: rebalance_elems)

lemma find_some: "\<exists>m. snd (av_tree_find cmp t x (Some n)) = Some m"
proof (induction t arbitrary: n)
  case (AVTreeNode l e s r)
  show ?case
  proof (cases "cmp x e = 0")
    case True
    obtain m where "snd (av_tree_find cmp l x (Some n)) = Some m" using AVTreeNode.IH(1) [of n] by (elim exE) (rule that)
    then show ?thesis using AVTreeNode.IH(2) [of m] True by simp
  next
    case False
    then show ?thesis using AVTreeNode.IH by (simp add: Let_def)
  qed
qed simp

lemma find_elems:
  assumes "snd (av_tree_find cmp t x (Some n)) = Some n'"
  shows "fst n' = fst n \<or> fst n' \<in> Some ` elems t" "snd n' = snd n \<or> snd n' \<in> Some ` elems t"
proof -
  have "(fst n' = fst n \<or> fst n' \<in> Some ` elems t) \<and> (snd n' = snd n \<or> snd n' \<in> Some ` elems t)" using assms
  proof (induction t arbitrary: n n')
    case (AVTreeNode l e s r)
    show ?case
    proof (cases "cmp x e = 0")
      case True
      obtain m where m: "snd (av_tree_find cmp l x (Some n)) = Some m" using find_some [of cmp l x n] by (elim exE) (rule that)
      then have m': "snd (av_tree_find cmp r x (Some m)) = Some n'" using AVTreeNode.prems True by simp
      show ?thesis using AVTreeNode.IH(1) [OF m] AVTreeNode.IH(2) [OF m'] by auto
    next
      case False
      then have "snd (av_tree_find cmp (if cmp x e < 0 then l else r) x (Some (set_next (cmp x e < 0) e n))) = Some n'"
        using AVTreeNode.prems by (simp add: Let_def split: if_splits)
      then show ?thesis using AVTreeNode.IH(1) [of "set_next True e n" n'] AVTreeNode.IH(2) [of "set_next False e n" n']
        by (cases "cmp x e < 0") (auto simp: set_next_def)
    qed
  qed simp
  then show "fst n' = fst n \<or> fst n' \<in> Some ` elems t" "snd n' = snd n \<or> snd n' \<in> Some ` elems t" by simp_all
qed

lemma delete_elems:
  "av_tree_insert cmp t key None = Some (ret, t', nx') \<Longrightarrow> elems t' \<subseteq> elems t"
proof (induction t arbitrary: key ret t' nx')
  case (AVTreeNode l e s r)
  let ?sub = "\<lambda>i. if i then r else l" and ?other = "\<lambda>i. if i then l else r"
  have go: "elems t' \<subseteq> elems (AVTreeNode l e s r)"
    if "av_tree_insert cmp (?sub i) key' None \<bind> continue_at i key' e' s (?other i) = Some (ret, t', nx')"
      "e' \<in> elems (AVTreeNode l e s r)" for i key' e'
  proof -
    note bind = that(1) and mem = that(2)
    obtain y where y: "av_tree_insert cmp (?sub i) key' None = Some y" "continue_at i key' e' s (?other i) y = Some (ret, t', nx')"
      using bind [unfolded Option.bind_eq_Some_conv] by (elim exE conjE) (rule that)
    obtain ret1 t1 nx1 where "y = (ret1, t1, nx1)" by (metis prod_cases3)
    note 1 = y [unfolded this]
    have "elems t1 \<subseteq> elems (?sub i)" using AVTreeNode.IH 1(1) by (cases i) auto
    then show ?thesis using continue_elems(1) [OF 1(2)] mem by (cases i) auto
  qed
  show ?case
  proof (cases "cmp e key = 0")
    case False
    then show ?thesis using go [of "cmp e key < 0" key e] AVTreeNode.prems insert_turn [of cmp e key l s r None] by simp
  next
    case same: True
    show ?thesis
    proof (cases "l = NULL \<and> r = NULL")
      case True
      then show ?thesis using same AVTreeNode.prems by simp
    next
      case False
      then have f: "l \<noteq> NULL \<or> r \<noteq> NULL" by blast
      obtain n x where n: "snd (av_tree_find cmp (if l = NULL then r else l) key (Some (None, None))) = Some n"
        "(if l = NULL then snd n else fst n) = Some x"
        "av_tree_insert cmp (?sub (l = NULL)) x None \<bind> continue_at (l = NULL) x x s (?other (l = NULL)) = Some (ret, t', nx')"
        using AVTreeNode.prems unfolding insert_swap [of cmp, OF same f] by (auto simp only: bind_eq_Some_conv)
      have "x \<in> elems (AVTreeNode l e s r)" using find_elems [OF n(1)] n(2) by (auto split: if_splits)
      then show ?thesis using go [OF n(3)] by simp
    qed
  qed
qed simp

lemma insert_elems:
  assumes nx: "nx = Some (fresh_node y)"
  shows "av_tree_insert cmp t key nx = Some (ret, t', nx') \<Longrightarrow>
    elems t' = Set.insert key (elems t) \<and> nx' = None \<and> (ret = None \<or> ret = Some key) \<or>
    t' = t \<and> nx' = nx \<and> ret \<in> Some ` elems t"
proof (induction t arbitrary: ret t' nx')
  case NULL
  then show ?case using assms by (auto simp: fresh_node_def)
next
  case (AVTreeNode l e s r)
  show ?case
  proof (cases "cmp e key = 0")
    case False
    let ?i = "cmp e key < 0"
    let ?sub = "if ?i then r else l" and ?other = "if ?i then l else r"
    obtain y where y: "av_tree_insert cmp ?sub key nx = Some y" "continue_at ?i key e s ?other y = Some (ret, t', nx')"
      using AVTreeNode.prems [unfolded insert_turn [of cmp, OF False] Option.bind_eq_Some_conv] by (elim exE conjE) (rule that)
    obtain ret1 t1 nx1 where "y = (ret1, t1, nx1)" by (metis prod_cases3)
    note 1 = y [unfolded this]
    have IH: "elems t1 = Set.insert key (elems ?sub) \<and> nx1 = None \<and> (ret1 = None \<or> ret1 = Some key) \<or>
        t1 = ?sub \<and> nx1 = nx \<and> ret1 \<in> Some ` elems ?sub"
      using AVTreeNode.IH 1(1) by (cases ?i) auto
    show ?thesis
    proof (cases "ret1 = None")
      case True
      then have "rebalance ?i key None (if ?i then l else t1) e s (if ?i then t1 else r) = Some (ret, t', nx')"
        using 1(2) IH by (auto simp: continue_at_def split: if_splits)
      from rebalance_elems [OF this] this show ?thesis using IH True by (auto simp: rebalance_def Let_def bind_eq_Some_conv split: if_splits)
    next
      case False
      then have "ret = ret1" "nx' = nx1" "t' = AVTreeNode (if ?i then l else t1) e s (if ?i then t1 else r)"
        using 1(2) by (auto simp: continue_at_def split: if_splits)
      then show ?thesis using IH False by (cases ?i) auto
    qed
  next
    case True
    then have "ret = Some e" "t' = AVTreeNode l e s r" "nx' = nx" using AVTreeNode.prems assms by simp_all
    then show ?thesis by simp
  qed
qed

subsection \<open>Well-formed trees of a key\<close>

definition well_formed :: "('a \<Rightarrow> 'k::linorder) \<Rightarrow> 'a AVTreeNode \<Rightarrow> bool" where
  "well_formed k t \<longleftrightarrow> ordered (keys k t) \<and> balanced t"

lemma height_keys: "height (keys k t) = height t"
  by (induction t) simp_all

lemma balanced_keys: "balanced (keys k t) \<longleftrightarrow> balanced t"
  by (induction t) (simp_all add: height_keys)

lemma inorder_keys: "inorder (keys k t) = map k (inorder t)"
  by (induction t) simp_all

lemma well_formed_NULL [simp]: "well_formed k NULL"
  by (simp add: well_formed_def)

lemma well_formed_keys: "well_formed k t \<Longrightarrow> ordered (keys k t) \<and> balanced (keys k t)"
  by (simp add: well_formed_def balanced_keys)

lemma inj_keys: "ordered (keys k t) \<Longrightarrow> inj_on k (elems t)"
proof -
  assume "ordered (keys k t)"
  then have "sorted_wrt (<) (map k (inorder t))" using inorder_sorted [of "keys k t"] by (simp add: inorder_keys)
  then have "distinct (map k (inorder t))" by (simp add: strict_sorted_iff)
  then show ?thesis by (simp add: distinct_map set_inorder)
qed

lemma tree_insert_ok:
  assumes "compares_keys k k cmp" "well_formed k t"
  shows "\<exists>ret t' nx. av_tree_insert cmp t x (Some (fresh_node y)) = Some (ret, t', nx) \<and> well_formed k t' \<and>
    (if k x \<in> k ` elems t then t' = t \<and> nx = Some (fresh_node y) \<and> (\<exists>z \<in> elems t. k z = k x \<and> ret = Some z)
     else elems t' = Set.insert x (elems t) \<and> nx = None \<and> (ret = None \<or> ret = Some x))"
proof -
  note wf = well_formed_keys [OF assms(2)]
  have e: "elems (keys k t) = k ` elems t" for t by (rule AVTreeNode.set_map)
  have n: "map_option (keys k) (Some (fresh_node y)) = Some (fresh_node (k y))" by (simp add: fresh_node_def)
  note kv = insert_value [OF compares_key_cmp conjunct1 [OF wf] conjunct2 [OF wf], of "k x" "k y", unfolded e,
      folded n, unfolded insert_keys [OF assms(1)], unfolded n]
  obtain ret t' nx where r: "av_tree_insert cmp t x (Some (fresh_node y)) = Some (ret, t', nx)"
    using kv by (cases "av_tree_insert cmp t x (Some (fresh_node y))") (auto split: if_splits)
  note ie = insert_elems [OF refl r]
  show ?thesis
  proof (cases "k x \<in> k ` elems t")
    case True
    then have v: "map_option k ret = Some (k x)" "map_option (keys k) nx = Some (fresh_node (k y))" using kv r by simp_all
    then have "t' = t" "nx = Some (fresh_node y)" "ret \<in> Some ` elems t" using ie by auto
    then show ?thesis using True v r assms(2) by auto
  next
    case False
    then have v: "inserted (k x) (keys k t) (map_option k ret, keys k t', map_option (keys k) nx)" using kv r by simp
    then have "well_formed k t'" "nx = None" by (simp_all add: inserted_def well_formed_def balanced_keys)
    then show ?thesis using False r ie by auto
  qed
qed

lemma tree_delete_ok:
  assumes "compares_keys k k cmp" "well_formed k t"
  shows "\<exists>ret t' nx. av_tree_insert cmp t x None = Some (ret, t', nx) \<and> well_formed k t' \<and>
    elems t' = {z \<in> elems t. k z \<noteq> k x} \<and> (nx \<noteq> None \<longleftrightarrow> k x \<in> k ` elems t)"
proof -
  note wf = well_formed_keys [OF assms(2)]
  have e: "elems (keys k t) = k ` elems t" for t by (rule AVTreeNode.set_map)
  have n: "map_option (keys k) None = None" by simp
  note kv = delete_value [OF compares_key_cmp conjunct1 [OF wf] conjunct2 [OF wf], of "k x", unfolded e,
      folded n, unfolded insert_keys [OF assms(1)], unfolded n]
  obtain ret t' nx where r: "av_tree_insert cmp t x None = Some (ret, t', nx)"
    using kv by (cases "av_tree_insert cmp t x None") (auto split: if_splits)
  have sub: "elems t' \<subseteq> elems t" by (rule delete_elems [OF r])
  have v: "well_formed k t' \<and> k ` elems t' = k ` elems t - {k x} \<and> (nx \<noteq> None \<longleftrightarrow> k x \<in> k ` elems t)"
  proof (cases "k x \<in> k ` elems t")
    case True
    then have "shrunk (k ` elems t - {k x}) (keys k t) (map_option k ret, keys k t', map_option (keys k) nx)" using kv r by simp
    then show ?thesis using True by (auto simp: shrunk_def well_formed_def balanced_keys e)
  next
    case False
    then have "keys k t' = keys k t" "nx = None" using kv r by simp_all
    then show ?thesis using False assms(2) balanced_keys e by (metis Diff_empty Diff_insert0 well_formed_def)
  qed
  have "elems t' = {z \<in> elems t. k z \<noteq> k x}"
  proof (rule inj_on_image_eq_iff [THEN iffD1])
    show "inj_on k (elems t)" using inj_keys wf by blast
    show "k ` elems t' = k ` {z \<in> elems t. k z \<noteq> k x}" using v by auto
  qed (use sub in auto)
  then show ?thesis using r v by blast
qed

lemma tree_find_ok:
  assumes "compares_keys f k cmp" "well_formed k t"
  shows "case fst (av_tree_find cmp t x n) of Some e \<Rightarrow> e \<in> elems t \<and> k e = f x | None \<Rightarrow> f x \<notin> k ` elems t"
proof -
  have v: "map_option k (fst (av_tree_find cmp t x n)) = (if f x \<in> k ` elems t then Some (f x) else None)"
    using find_value [OF compares_key_cmp, of "keys k t" "f x" "map_option (next_keys k) n"] well_formed_keys [OF assms(2)]
    by (simp add: find_keys [OF assms(1)] AVTreeNode.set_map)
  have "fst (av_tree_find cmp t x n) = Some e \<Longrightarrow> e \<in> elems t" for e
    by (induction cmp t x n rule: av_tree_find.induct) (auto simp: Let_def split: if_splits)
  then show ?thesis using v by (auto split: option.splits if_splits)
qed

lemma tree_neighbours_ok:
  assumes "compares_keys f k cmp" "well_formed k t"
  shows "\<exists>n. snd (av_tree_find cmp t x (Some (None, None))) = Some n \<and>
    (case fst n of Some e \<Rightarrow> e \<in> elems t \<and> k e < f x \<and> (\<forall>y \<in> elems t. k y < f x \<longrightarrow> k y \<le> k e) | None \<Rightarrow> \<forall>y \<in> elems t. \<not> k y < f x) \<and>
    (case snd n of Some e \<Rightarrow> e \<in> elems t \<and> f x < k e \<and> (\<forall>y \<in> elems t. f x < k y \<longrightarrow> k e \<le> k y) | None \<Rightarrow> \<forall>y \<in> elems t. \<not> f x < k y)"
proof -
  obtain n where n: "snd (av_tree_find cmp t x (Some (None, None))) = Some n" using find_some [of cmp t x "(None, None)"] by blast
  have v: "next_keys k n = neighbours (f x) (k ` elems t) (None, None)"
    using find_next [OF compares_key_cmp, of "keys k t" "f x" "(None, None)"] well_formed_keys [OF assms(2)] find_keys [OF assms(1), of t x "Some (None, None)"] n
    by (simp add: AVTreeNode.set_map)
  have f: "finite {y \<in> k ` elems t. P y}" for P using finite_elems [of t] by simp
  note fst_snd = neighbours_def Let_def fst_map_prod snd_map_prod fst_conv snd_conv
  have below: "case fst n of Some e \<Rightarrow> k e = Max {y \<in> k ` elems t. y < f x} \<and> {y \<in> k ` elems t. y < f x} \<noteq> {} | None \<Rightarrow> {y \<in> k ` elems t. y < f x} = {}"
    using arg_cong [OF v, of fst] unfolding fst_snd by (cases "fst n") (simp_all only: option.simps split: if_splits, simp_all)
  have above: "case snd n of Some e \<Rightarrow> k e = Min {y \<in> k ` elems t. f x < y} \<and> {y \<in> k ` elems t. f x < y} \<noteq> {} | None \<Rightarrow> {y \<in> k ` elems t. f x < y} = {}"
    using arg_cong [OF v, of snd] unfolding fst_snd by (cases "snd n") (simp_all only: option.simps split: if_splits, simp_all)
  have "case fst n of Some e \<Rightarrow> e \<in> elems t \<and> k e < f x \<and> (\<forall>y \<in> elems t. k y < f x \<longrightarrow> k y \<le> k e) | None \<Rightarrow> \<forall>y \<in> elems t. \<not> k y < f x"
  proof (cases "fst n")
    case (Some e)
    then have "k e = Max {y \<in> k ` elems t. y < f x}" "{y \<in> k ` elems t. y < f x} \<noteq> {}" using below by simp_all
    then have "k e \<in> {y \<in> k ` elems t. y < f x}" "\<forall>y \<in> {y \<in> k ` elems t. y < f x}. y \<le> k e" using Max_in [OF f] Max_ge [OF f] by simp_all
    then show ?thesis using find_elems(1) [OF n] Some by auto
  qed (use below in auto)
  moreover have "case snd n of Some e \<Rightarrow> e \<in> elems t \<and> f x < k e \<and> (\<forall>y \<in> elems t. f x < k y \<longrightarrow> k e \<le> k y) | None \<Rightarrow> \<forall>y \<in> elems t. \<not> f x < k y"
  proof (cases "snd n")
    case (Some e)
    then have "k e = Min {y \<in> k ` elems t. f x < y}" "{y \<in> k ` elems t. f x < y} \<noteq> {}" using above by simp_all
    then have "k e \<in> {y \<in> k ` elems t. f x < y}" "\<forall>y \<in> {y \<in> k ` elems t. f x < y}. k e \<le> y" using Min_in [OF f] Min_le [OF f] by simp_all
    then show ?thesis using find_elems(2) [OF n] Some by auto
  qed (use above in auto)
  ultimately show ?thesis using n by blast
qed

subsection \<open>Sequences of operations\<close>

text \<open>What a caller does: an element is entered with a node it has just allocated, or the element with the key of a
  given one is taken out.\<close>

datatype 'a tree_request = Enter 'a | Remove 'a

fun tree_op :: "('a \<Rightarrow> 'a \<Rightarrow> int) \<Rightarrow> 'a tree_request \<Rightarrow> 'a AVTreeNode \<Rightarrow> 'a AVTreeNode option" where
  "tree_op cmp (Enter x) t = do { (ret, t, next) \<leftarrow> av_tree_insert cmp t x (Some (fresh_node x)); Some t }"
| "tree_op cmp (Remove x) t = do { (ret, t, next) \<leftarrow> av_tree_insert cmp t x None; Some t }"

fun tree_ops :: "('a \<Rightarrow> 'a \<Rightarrow> int) \<Rightarrow> 'a tree_request list \<Rightarrow> 'a AVTreeNode \<Rightarrow> 'a AVTreeNode option" where
  "tree_ops cmp [] t = Some t"
| "tree_ops cmp (op # ops) t = tree_op cmp op t \<bind> tree_ops cmp ops"

fun set_op :: "('a \<Rightarrow> 'k) \<Rightarrow> 'a tree_request \<Rightarrow> 'a set \<Rightarrow> 'a set" where
  "set_op k (Enter x) A = (if k x \<in> k ` A then A else Set.insert x A)"
| "set_op k (Remove x) A = {y \<in> A. k y \<noteq> k x}"

lemma tree_op_ok:
  assumes "compares_keys k k cmp" "well_formed k t"
  shows "\<exists>t'. tree_op cmp op t = Some t' \<and> well_formed k t' \<and> elems t' = set_op k op (elems t)"
proof (cases op)
  case (Enter x)
  then show ?thesis using tree_insert_ok [OF assms, of x x] by (cases "k x \<in> k ` elems t") auto
next
  case (Remove x)
  then show ?thesis using tree_delete_ok [OF assms, of x] by auto
qed

lemma tree_ops_ok:
  assumes "compares_keys k k cmp"
  shows "well_formed k t \<Longrightarrow> \<exists>t'. tree_ops cmp ops t = Some t' \<and> well_formed k t' \<and> elems t' = fold (set_op k) ops (elems t)"
proof (induction ops arbitrary: t)
  case (Cons op ops)
  obtain t1 where "tree_op cmp op t = Some t1" "well_formed k t1" "elems t1 = set_op k op (elems t)"
    using tree_op_ok [OF assms Cons.prems] by blast
  then show ?case using Cons.IH [of t1] by simp
qed simp

lemma well_formed_inorder:
  assumes "well_formed k t"
  shows "sorted_wrt (<) (map k (inorder t))" "length (inorder t) = card (elems t)"
proof -
  show s: "sorted_wrt (<) (map k (inorder t))"
    using inorder_sorted [of "keys k t"] well_formed_keys [OF assms] by (simp add: inorder_keys)
  then have "distinct (inorder t)" by (simp add: strict_sorted_iff distinct_map)
  then show "length (inorder t) = card (elems t)" using distinct_card set_inorder by metis
qed

text \<open>C19. Whatever elements are entered into an empty tree and taken out of it, in any order, with a comparison that
  looks at one ordered field, the operations of \<open>av_tree_insert\<close> never follow a null pointer and leave a search tree
  with the right balance in every node, whose elements are those of the same operations on a set (the first of several
  with one key stays).  Enumerating lists them in ascending order of the key, the height is logarithmic in their number,
  and \<open>av_tree_find\<close> finds the element with the key, if there is one, and gives the nearest elements on both sides.\<close>

theorem av_tree_operations:
  assumes "\<And>x y. sgn (cmp x y) = (if k x < k y then - 1 else if k x = k y then 0 else 1)"
  shows "\<exists>t. tree_ops cmp ops NULL = Some t \<and> well_formed k t \<and> elems t = fold (set_op k) ops {} \<and>
    set (av_tree_enumerate None t) = elems t \<and> sorted_wrt (<) (map k (av_tree_enumerate None t)) \<and>
    2 ^ (height t div 2) \<le> card (elems t) + 1 \<and>
    (\<forall>x. \<exists>found below above. av_tree_find cmp t x (Some (None, None)) = (found, Some (below, above)) \<and>
      (case found of Some e \<Rightarrow> e \<in> elems t \<and> k e = k x | None \<Rightarrow> k x \<notin> k ` elems t) \<and>
      (case below of Some e \<Rightarrow> e \<in> elems t \<and> k e < k x \<and> (\<forall>y \<in> elems t. k y < k x \<longrightarrow> k y \<le> k e) | None \<Rightarrow> \<forall>y \<in> elems t. \<not> k y < k x) \<and>
      (case above of Some e \<Rightarrow> e \<in> elems t \<and> k x < k e \<and> (\<forall>y \<in> elems t. k x < k y \<longrightarrow> k e \<le> k y) | None \<Rightarrow> \<forall>y \<in> elems t. \<not> k x < k y))"
proof -
  have c: "compares_keys k k cmp" using assms by (simp add: compares_keys_def key_cmp_def)
  obtain t where t: "tree_ops cmp ops NULL = Some t" "well_formed k t" "elems t = fold (set_op k) ops {}"
    using tree_ops_ok [OF c well_formed_NULL] by auto
  have h: "2 ^ (height t div 2) \<le> card (elems t) + 1"
    using height_bound [of t] well_formed_inorder(2) [OF t(2)] well_formed_def t(2) by metis
  have f: "\<exists>found below above. av_tree_find cmp t x (Some (None, None)) = (found, Some (below, above)) \<and>
      (case found of Some e \<Rightarrow> e \<in> elems t \<and> k e = k x | None \<Rightarrow> k x \<notin> k ` elems t) \<and>
      (case below of Some e \<Rightarrow> e \<in> elems t \<and> k e < k x \<and> (\<forall>y \<in> elems t. k y < k x \<longrightarrow> k y \<le> k e) | None \<Rightarrow> \<forall>y \<in> elems t. \<not> k y < k x) \<and>
      (case above of Some e \<Rightarrow> e \<in> elems t \<and> k x < k e \<and> (\<forall>y \<in> elems t. k x < k y \<longrightarrow> k e \<le> k y) | None \<Rightarrow> \<forall>y \<in> elems t. \<not> k x < k y)" for x
  proof -
    obtain n where n: "snd (av_tree_find cmp t x (Some (None, None))) = Some n"
      "case fst n of Some e \<Rightarrow> e \<in> elems t \<and> k e < k x \<and> (\<forall>y \<in> elems t. k y < k x \<longrightarrow> k y \<le> k e) | None \<Rightarrow> \<forall>y \<in> elems t. \<not> k y < k x"
      "case snd n of Some e \<Rightarrow> e \<in> elems t \<and> k x < k e \<and> (\<forall>y \<in> elems t. k x < k y \<longrightarrow> k e \<le> k y) | None \<Rightarrow> \<forall>y \<in> elems t. \<not> k x < k y"
      using tree_neighbours_ok [OF c t(2), of x] by (elim exE conjE) (rule that)
    have "av_tree_find cmp t x (Some (None, None)) = (fst (av_tree_find cmp t x (Some (None, None))), Some (fst n, snd n))"
      using n(1) by (metis prod.collapse)
    then show ?thesis using n(2,3) tree_find_ok [OF c t(2), of x "Some (None, None)"] by (intro exI conjI)
  qed
  show ?thesis using t h f well_formed_inorder(1) [OF t(2)] set_inorder [of t] by blast
qed

theorem av_tree_operations_witness:
  "\<exists>t. tree_ops (\<lambda>a b. fst a - fst b) [Enter (5, 50), Enter (3, 30), Enter (4, 40), Enter (5, 51), Remove (3, 0)] NULL = Some t \<and>
    elems t = {(5 :: int, 50 :: int), (4, 40)}"
proof -
  have s: "sgn (fst x - fst y) = (if fst x < fst y then - 1 else if fst x = fst y then 0 else (1 :: int))" for x y :: "int \<times> int"
    by simp
  have "fold (set_op fst) [Enter (5, 50), Enter (3, 30), Enter (4, 40), Enter (5, 51), Remove (3, 0)] {} = {(5 :: int, 50 :: int), (4, 40)}"
    by auto
  then show ?thesis
    using av_tree_operations [where cmp = "\<lambda>a b. fst a - fst b" and k = fst and
        ops = "[Enter (5, 50), Enter (3, 30), Enter (4, 40), Enter (5, 51), Remove (3, 0)]", OF s]
    by metis
qed

end
