(* ===== verification/Descriptor.thy ===== *)
theory Descriptor
  imports Clib
begin

section \<open>Files of the operating system\<close>

text \<open>
  What the protocols use of POSIX: \<open>read\<close>, \<open>write\<close>, \<open>lseek\<close> and the size given by \<open>fstat\<close> on an open file.  A
  call may fail with any \<open>errno\<close>, and a transfer may be shorter than asked: which calls do is the list
  \<open>replies\<close>, one element for each call, and every call after that is served in full.  The result is \<open>Inl errno\<close> for
  \<open>-1\<close>.
\<close>

datatype sys_reply = Fails int | Transfers nat

record descriptor =
  file_bytes :: "byte list"
  file_offset :: nat
  replies :: "sys_reply list"

abbreviation (input) SEEK_SET :: int where "SEEK_SET \<equiv> 0"
abbreviation (input) SEEK_CUR :: int where "SEEK_CUR \<equiv> 1"
abbreviation (input) SEEK_END :: int where "SEEK_END \<equiv> 2"

text \<open>The error of the call, if it fails, and how many bytes it may transfer of the number asked.\<close>

definition sys_error :: "descriptor \<Rightarrow> int option" where
  "sys_error d = (case replies d of Fails e # rs \<Rightarrow> Some e | _ \<Rightarrow> None)"

definition served :: "descriptor \<Rightarrow> nat \<Rightarrow> nat" where
  "served d n = (case replies d of Transfers k # rs \<Rightarrow> min n (Suc k) | _ \<Rightarrow> n)"

definition next_call :: "descriptor \<Rightarrow> descriptor" where
  "next_call d = d\<lparr>replies := List.tl (replies d)\<rparr>"

definition sys_read :: "descriptor \<Rightarrow> nat \<Rightarrow> (int + byte list) \<times> descriptor" where
  "sys_read d n =
     (case sys_error d of Some e \<Rightarrow> (Inl e, next_call d)
      | None \<Rightarrow>
          let bs = take (served d n) (drop (file_offset d) (file_bytes d))
          in (Inr bs, (next_call d)\<lparr>file_offset := file_offset d + length bs\<rparr>))"

definition written :: "byte list \<Rightarrow> nat \<Rightarrow> byte list \<Rightarrow> byte list" where
  "written xs off bs = take off (xs @ replicate (off - length xs) 0) @ bs @ drop (off + length bs) xs"

definition sys_write :: "descriptor \<Rightarrow> byte list \<Rightarrow> (int + nat) \<times> descriptor" where
  "sys_write d bs =
     (case sys_error d of Some e \<Rightarrow> (Inl e, next_call d)
      | None \<Rightarrow>
          let n = served d (length bs)
          in (Inr n, (next_call d)\<lparr>file_bytes := written (file_bytes d) (file_offset d) (take n bs), file_offset := file_offset d + n\<rparr>))"

definition sys_lseek :: "descriptor \<Rightarrow> int \<Rightarrow> int \<Rightarrow> (int + int) \<times> descriptor" where
  "sys_lseek d pos whence =
     (case sys_error d of Some e \<Rightarrow> (Inl e, next_call d)
      | None \<Rightarrow>
          let target = pos + (if whence = SEEK_SET then 0 else if whence = SEEK_CUR then int (file_offset d) else int (length (file_bytes d)))
          in if whence \<notin> {SEEK_SET, SEEK_CUR, SEEK_END} \<or> target < 0 then (Inl 22, next_call d)
             else (Inr target, (next_call d)\<lparr>file_offset := nat target\<rparr>))"

definition sys_size :: "descriptor \<Rightarrow> (int + int) \<times> descriptor" where
  "sys_size d = (case sys_error d of Some e \<Rightarrow> (Inl e, next_call d) | None \<Rightarrow> (Inr (int (length (file_bytes d))), next_call d))"

text \<open>\<open>errno\<close> is positive.\<close>

definition errors_positive :: "descriptor \<Rightarrow> bool" where
  "errors_positive d \<longleftrightarrow> (\<forall>r \<in> set (replies d). case r of Fails e \<Rightarrow> 0 < e \<and> e < 4096 | Transfers k \<Rightarrow> True)"

lemma next_call_simps [simp]:
  "file_bytes (next_call d) = file_bytes d" "file_offset (next_call d) = file_offset d" "replies (next_call d) = List.tl (replies d)"
  by (simp_all add: next_call_def)

lemma errors_positive_next [simp]:
  assumes "errors_positive d" "replies d' = List.tl (replies d)"
  shows "errors_positive d'"
  using assms by (cases "replies d") (simp_all add: errors_positive_def)

lemma sys_error_positive: "errors_positive d \<Longrightarrow> sys_error d = Some e \<Longrightarrow> 0 < e \<and> e < 4096 \<and> replies d \<noteq> []"
  by (cases "replies d") (auto simp: errors_positive_def sys_error_def split: sys_reply.splits)

lemma served_bounds: "served d n \<le> n" "0 < n \<Longrightarrow> 0 < served d n"
  by (auto simp: served_def split: list.splits sys_reply.splits)

lemma written_end: "written xs (length xs) bs = xs @ bs"
  by (simp add: written_def)

end
