(* ===== verification/Avio.thy ===== *)
theory Avio
  imports Descriptor "HOL-Library.Monad_Syntax"
begin

section \<open>Protocols and their transfers: \<open>libavformat/avio.c\<close>, \<open>file.c\<close>\<close>

text \<open>
  A protocol reads the next bytes of a resource and seeks in it.  \<open>ffurl_read\<close> and its relatives call it again while
  it is interrupted or not ready; that loop may never end, so that their results are options, \<open>None\<close> for not
  returning.  The locale \<open>url_protocol\<close> is the contract of a protocol; \<open>file\<close> has it, and \<open>ffurl_read\<close> over
  a protocol that has it has it again.
\<close>

abbreviation AVERROR :: "int \<Rightarrow> int" where "AVERROR e \<equiv> - e"
abbreviation (input) EINTR :: int where "EINTR \<equiv> 4"
abbreviation (input) EIO :: int where "EIO \<equiv> 5"
abbreviation (input) EAGAIN :: int where "EAGAIN \<equiv> 11"
abbreviation (input) AVERROR_EXIT :: int where "AVERROR_EXIT \<equiv> - 1414092869"
abbreviation (input) AVIO_FLAG_READ :: int where "AVIO_FLAG_READ \<equiv> 1"
abbreviation (input) AVIO_FLAG_WRITE :: int where "AVIO_FLAG_WRITE \<equiv> 2"
abbreviation (input) AVIO_FLAG_NONBLOCK :: int where "AVIO_FLAG_NONBLOCK \<equiv> 8"
abbreviation (input) AVSEEK_SIZE :: int where "AVSEEK_SIZE \<equiv> 65536"
abbreviation (input) AVSEEK_FORCE :: int where "AVSEEK_FORCE \<equiv> 131072"

text \<open>What the callback for interrupts answers and what the clock shows are lists, read one by one.\<close>

record 's URLContext =
  priv_data :: 's
  url_flags :: int
  max_packet_size :: int
  rw_timeout :: int
  interrupts :: "bool list"
  clock :: "int list"

definition ff_check_interrupt :: "'s URLContext \<Rightarrow> bool \<times> 's URLContext" where
  "ff_check_interrupt h = (case interrupts h of [] \<Rightarrow> (False, h) | b # bs \<Rightarrow> (b, h\<lparr>interrupts := bs\<rparr>))"

definition av_gettime_relative :: "'s URLContext \<Rightarrow> int \<times> 's URLContext" where
  "av_gettime_relative h = (case clock h of [] \<Rightarrow> (0, h) | t # ts \<Rightarrow> (t, h\<lparr>clock := ts\<rparr>))"

text \<open>The wait when the transfer is not ready: whether it has taken too long, and since when it lasts.\<close>

definition timed_out :: "'s URLContext \<Rightarrow> int \<Rightarrow> bool \<times> int \<times> 's URLContext" where
  "timed_out h wait_since =
     (if rw_timeout h = 0 then (False, wait_since, h)
      else let (now, h) = av_gettime_relative h
           in if wait_since = 0 then (False, now, h) else (now > wait_since + rw_timeout h, wait_since, h))"

text \<open>\<open>buf\<close> holds the bytes transferred so far.  A transfer takes the bytes from \<open>len\<close> on (writing) or gives some.\<close>

type_synonym 's transfer = "'s \<Rightarrow> nat \<Rightarrow> int \<Rightarrow> (int \<times> byte list \<times> 's) option"

datatype 's loop_turn = Return int "byte list" "'s URLContext" | Again "'s URLContext" "byte list" int int int

definition after_transfer :: "'s URLContext \<Rightarrow> byte list \<Rightarrow> int \<Rightarrow> int \<Rightarrow> int \<Rightarrow> int \<Rightarrow> 's loop_turn" where
  "after_transfer h buf len fast_retries wait_since ret =
     (if ret = AVERROR EINTR then Again h buf len fast_retries wait_since
      else if url_flags h AND AVIO_FLAG_NONBLOCK \<noteq> 0 then Return ret buf h
      else if ret = AVERROR EAGAIN then
        (if fast_retries \<noteq> 0 then Again h buf len (fast_retries - 1) wait_since
         else let (late, wait_since, h) = timed_out h wait_since
              in if late then Return (AVERROR EIO) buf h else Again h buf len fast_retries wait_since)
      else if ret = AVERROR_EOF then Return (if len > 0 then len else AVERROR_EOF) buf h
      else if ret < 0 then Return ret buf h
      else if ret \<noteq> 0 then Again h buf (len + ret) (max fast_retries 2) 0
      else Again h buf len fast_retries wait_since)"

definition transfer_turn :: "'s transfer \<Rightarrow> int \<Rightarrow> 's URLContext \<Rightarrow> byte list \<Rightarrow> int \<Rightarrow> int \<Rightarrow> int \<Rightarrow> 's loop_turn option" where
  "transfer_turn transfer amount h buf len fast_retries wait_since =
     (let (stop, h) = ff_check_interrupt h
      in if stop then Some (Return AVERROR_EXIT buf h)
         else do {
           (ret, bs, s) \<leftarrow> transfer (priv_data h) (nat len) (amount - len);
           Some (after_transfer (h\<lparr>priv_data := s\<rparr>) (buf @ bs) len fast_retries wait_since ret) })"

partial_function (option) retry_loop ::
  "'s transfer \<Rightarrow> int \<Rightarrow> int \<Rightarrow> 's URLContext \<Rightarrow> byte list \<Rightarrow> int \<Rightarrow> int \<Rightarrow> int \<Rightarrow> (int \<times> byte list \<times> 's URLContext) option" where
  "retry_loop transfer amount size_min h buf len fast_retries wait_since =
     (if \<not> len < size_min then Some (len, buf, h)
      else do {
        t \<leftarrow> transfer_turn transfer amount h buf len fast_retries wait_since;
        case t of Return ret buf h \<Rightarrow> Some (ret, buf, h)
        | Again h buf len fast_retries wait_since \<Rightarrow> retry_loop transfer amount size_min h buf len fast_retries wait_since })"

declare retry_loop.simps [code]

definition retry_transfer_wrapper :: "'s transfer \<Rightarrow> 's URLContext \<Rightarrow> int \<Rightarrow> int \<Rightarrow> (int \<times> byte list \<times> 's URLContext) option" where
  "retry_transfer_wrapper transfer h amount size_min = retry_loop transfer amount size_min h [] 0 5 0"

type_synonym 's reader = "'s \<Rightarrow> int \<Rightarrow> (int \<times> byte list \<times> 's) option"
type_synonym 's writer = "'s \<Rightarrow> byte list \<Rightarrow> (int \<times> 's) option"
type_synonym 's seeker = "'s \<Rightarrow> int \<Rightarrow> int \<Rightarrow> int \<times> 's"

definition ffurl_read :: "'s reader \<Rightarrow> 's URLContext reader" where
  "ffurl_read url_read h amount =
     (if url_flags h AND AVIO_FLAG_READ = 0 then Some (AVERROR EIO, [], h)
      else retry_transfer_wrapper (\<lambda>s len. url_read s) h amount 1)"

definition ffurl_read_complete :: "'s reader \<Rightarrow> 's URLContext reader" where
  "ffurl_read_complete url_read h amount =
     (if url_flags h AND AVIO_FLAG_READ = 0 then Some (AVERROR EIO, [], h)
      else retry_transfer_wrapper (\<lambda>s len. url_read s) h amount amount)"

definition ffurl_write :: "'s writer \<Rightarrow> 's URLContext writer" where
  "ffurl_write url_write h bs =
     (if url_flags h AND AVIO_FLAG_WRITE = 0 then Some (AVERROR EIO, h)
      else if max_packet_size h \<noteq> 0 \<and> int (length bs) > max_packet_size h then Some (AVERROR EIO, h)
      else do {
        (ret, buf, h) \<leftarrow> retry_transfer_wrapper
           (\<lambda>s len amount. do { (ret, s) \<leftarrow> url_write s (take (nat amount) (drop len bs)); Some (ret, [], s) }) h (int (length bs)) (int (length bs));
        Some (ret, h) })"

text \<open>The protocol has a seek function, or none.\<close>

definition ffurl_seek :: "'s seeker option \<Rightarrow> 's URLContext seeker" where
  "ffurl_seek url_seek h pos whence =
     (case url_seek of
        None \<Rightarrow> (AVERROR 38, h)
      | Some seek \<Rightarrow> let (ret, s) = seek (priv_data h) pos (whence AND NOT AVSEEK_FORCE) in (ret, h\<lparr>priv_data := s\<rparr>))"

subsection \<open>Local files\<close>

record FileContext =
  file_fd :: descriptor
  blocksize :: int
  follow :: bool
  is_fifo :: bool

definition file_read :: "FileContext \<Rightarrow> int \<Rightarrow> int \<times> byte list \<times> FileContext" where
  "file_read c amount =
     (let amount = min amount (blocksize c);
          (ret, fd) = sys_read (file_fd c) (nat amount);
          c = c\<lparr>file_fd := fd\<rparr>
      in case ret of
           Inl e \<Rightarrow> (AVERROR e, [], c)
         | Inr bs \<Rightarrow> if bs = [] \<and> follow c then (AVERROR EAGAIN, [], c)
                     else if bs = [] then (AVERROR_EOF, [], c)
                     else (int (length bs), bs, c))"

definition file_write :: "FileContext \<Rightarrow> byte list \<Rightarrow> int \<times> FileContext" where
  "file_write c bs =
     (let amount = min (int (length bs)) (blocksize c);
          (ret, fd) = sys_write (file_fd c) (take (nat amount) bs)
      in (case ret of Inl e \<Rightarrow> AVERROR e | Inr n \<Rightarrow> int n, c\<lparr>file_fd := fd\<rparr>))"

definition file_seek :: "FileContext seeker" where
  "file_seek c pos whence =
     (if whence = AVSEEK_SIZE then
        let (ret, fd) = sys_size (file_fd c)
        in (case ret of Inl e \<Rightarrow> AVERROR e | Inr n \<Rightarrow> if is_fifo c then 0 else n, c\<lparr>file_fd := fd\<rparr>)
      else
        let (ret, fd) = sys_lseek (file_fd c) pos whence
        in (case ret of Inl e \<Rightarrow> AVERROR e | Inr n \<Rightarrow> n, c\<lparr>file_fd := fd\<rparr>))"

subsection \<open>The contract of a protocol\<close>

text \<open>
  What a reader relies on: the next bytes are delivered in order, at most as many as asked, an error moves nothing, and
  the end is reported at the end only.  \<open>tries\<close> bounds how often the protocol asks to be called again in a row.
\<close>

locale url_protocol =
  fixes url_read :: "'s reader" and url_seek :: "'s seeker" and valid :: "'s \<Rightarrow> bool"
    and resource :: "'s \<Rightarrow> byte list" and position :: "'s \<Rightarrow> int" and tries :: "'s \<Rightarrow> nat"
  assumes read_returns: "valid s \<Longrightarrow> 0 < n \<Longrightarrow> \<exists>r bs s'. url_read s n = Some (r, bs, s')"
    and read_keeps: "valid s \<Longrightarrow> 0 < n \<Longrightarrow> url_read s n = Some (r, bs, s') \<Longrightarrow> valid s' \<and> resource s' = resource s"
    and read_bytes: "valid s \<Longrightarrow> 0 < n \<Longrightarrow> url_read s n = Some (r, bs, s') \<Longrightarrow> 0 < r \<Longrightarrow>
      r \<le> n \<and> position s + r \<le> int (length (resource s)) \<and> bs = take (nat r) (drop (nat (position s)) (resource s)) \<and>
      position s' = position s + r"
    and read_stays: "valid s \<Longrightarrow> 0 < n \<Longrightarrow> url_read s n = Some (r, bs, s') \<Longrightarrow> r \<le> 0 \<Longrightarrow> bs = [] \<and> position s' = position s"
    and read_end: "valid s \<Longrightarrow> 0 < n \<Longrightarrow> url_read s n = Some (AVERROR_EOF, bs, s') \<Longrightarrow> int (length (resource s)) \<le> position s"
    and read_tries: "valid s \<Longrightarrow> 0 < n \<Longrightarrow> url_read s n = Some (r, bs, s') \<Longrightarrow> r \<in> {AVERROR EINTR, AVERROR EAGAIN, 0} \<Longrightarrow> tries s' < tries s"
    and seek_keeps: "valid s \<Longrightarrow> url_seek s pos whence = (r, s') \<Longrightarrow> valid s' \<and> resource s' = resource s"
    and seek_fails: "valid s \<Longrightarrow> url_seek s pos whence = (r, s') \<Longrightarrow> r < 0 \<or> whence = AVSEEK_SIZE \<Longrightarrow> position s' = position s"
    and seek_moves: "valid s \<Longrightarrow> url_seek s pos whence = (r, s') \<Longrightarrow> 0 \<le> r \<Longrightarrow> whence \<in> {SEEK_SET, SEEK_CUR, SEEK_END} \<Longrightarrow>
      position s' = r \<and> (whence = SEEK_SET \<longrightarrow> r = pos)"
    and seek_error: "valid s \<Longrightarrow> url_seek s pos whence = (r, s') \<Longrightarrow> r \<noteq> AVERROR_EOF"
    and position_nonneg: "valid s \<Longrightarrow> 0 \<le> position s"

text \<open>Local files that are not followed while they grow.\<close>

definition file_ok :: "FileContext \<Rightarrow> bool" where
  "file_ok c \<longleftrightarrow> errors_positive (file_fd c) \<and> 1 \<le> blocksize c \<and> \<not> follow c"

lemma sys_read_cases:
  assumes "sys_read d n = (x, d')" "errors_positive d"
  shows "file_bytes d' = file_bytes d \<and> errors_positive d' \<and>
    (case x of Inl e \<Rightarrow> 0 < e \<and> e < 4096 \<and> file_offset d' = file_offset d \<and> length (replies d') < length (replies d)
     | Inr bs \<Rightarrow> bs = take (length bs) (drop (file_offset d) (file_bytes d)) \<and> length bs \<le> n \<and>
         file_offset d' = file_offset d + length bs \<and> (0 < n \<longrightarrow> bs = [] \<longrightarrow> length (file_bytes d) \<le> file_offset d))"
proof (cases "sys_error d")
  case None
  have "served d n \<le> n" "0 < n \<longrightarrow> 0 < served d n" using served_bounds by auto
  then show ?thesis using assms None by (auto simp: sys_read_def Let_def min_def)
next
  case (Some e)
  then show ?thesis using assms sys_error_positive [OF assms(2) Some] by (auto simp: sys_read_def)
qed

lemma file_read_cases:
  assumes "file_ok c" "0 < n" "file_read c n = (r, bs, c')"
  shows "file_ok c' \<and> file_bytes (file_fd c') = file_bytes (file_fd c) \<and>
    (if 0 < r then r \<le> n \<and> int (length bs) = r \<and> bs = take (length bs) (drop (file_offset (file_fd c)) (file_bytes (file_fd c))) \<and>
       file_offset (file_fd c') = file_offset (file_fd c) + length bs
     else bs = [] \<and> file_offset (file_fd c') = file_offset (file_fd c) \<and> r \<noteq> 0 \<and>
       (if r = AVERROR_EOF then length (file_bytes (file_fd c)) \<le> file_offset (file_fd c) else length (replies (file_fd c')) < length (replies (file_fd c))))"
proof -
  obtain x d where x: "sys_read (file_fd c) (nat (min n (blocksize c))) = (x, d)" by fastforce
  have ok: "errors_positive (file_fd c)" "\<not> follow c" "0 < nat (min n (blocksize c))" "int (nat (min n (blocksize c))) \<le> n"
    using assms(1,2) by (auto simp: file_ok_def)
  note c = sys_read_cases [OF x ok(1)]
  show ?thesis
  proof (cases x)
    case (Inl e)
    then show ?thesis using assms(1,3) c x by (auto simp: file_read_def file_ok_def)
  next
    case (Inr b)
    show ?thesis
    proof (cases "b = []")
      case True
      then show ?thesis using assms(1,3) c x ok(2,3) Inr by (auto simp: file_read_def file_ok_def)
    next
      case False
      then have "r = int (length b)" "bs = b" "c' = c\<lparr>file_fd := d\<rparr>" using assms(3) x Inr by (auto simp: file_read_def Let_def)
      moreover have "length b \<le> nat (min n (blocksize c))" using c Inr by simp
      then have "int (length b) \<le> n" using ok(4) by linarith
      ultimately show ?thesis using assms(1) c Inr False by (auto simp: file_ok_def)
    qed
  qed
qed

lemma sys_lseek_cases:
  assumes "sys_lseek d pos whence = (x, d')" "errors_positive d"
  shows "file_bytes d' = file_bytes d \<and> errors_positive d' \<and>
    (case x of Inl e \<Rightarrow> 0 < e \<and> e < 4096 \<and> file_offset d' = file_offset d
     | Inr r \<Rightarrow> 0 \<le> r \<and> int (file_offset d') = r \<and> (whence = SEEK_SET \<longrightarrow> r = pos))"
proof (cases "sys_error d")
  case None
  then show ?thesis using assms by (auto simp: sys_lseek_def Let_def split: if_splits)
next
  case (Some e)
  then show ?thesis using assms sys_error_positive [OF assms(2) Some] by (auto simp: sys_lseek_def)
qed

lemma file_seek_cases:
  assumes "file_ok c" "file_seek c pos whence = (r, c')"
  shows "file_ok c' \<and> file_bytes (file_fd c') = file_bytes (file_fd c) \<and> - 4096 < r \<and>
    (if r < 0 \<or> whence = AVSEEK_SIZE then file_offset (file_fd c') = file_offset (file_fd c)
     else int (file_offset (file_fd c')) = r \<and> (whence = SEEK_SET \<longrightarrow> r = pos))"
proof (cases "whence = AVSEEK_SIZE")
  case True
  have ok: "errors_positive (file_fd c)" using assms(1) by (simp add: file_ok_def)
  then have "errors_positive (next_call (file_fd c))" by (rule errors_positive_next) simp
  then show ?thesis using assms True sys_error_positive [OF ok]
    by (auto simp: file_seek_def sys_size_def file_ok_def split: option.splits)
next
  case False
  obtain x d where x: "sys_lseek (file_fd c) pos whence = (x, d)" by fastforce
  show ?thesis using assms False x sys_lseek_cases [OF x] by (cases x) (auto simp: file_seek_def file_ok_def)
qed

interpretation local_file: url_protocol "\<lambda>c n. Some (file_read c n)" file_seek file_ok
  "\<lambda>c. file_bytes (file_fd c)" "\<lambda>c. int (file_offset (file_fd c))" "\<lambda>c. length (replies (file_fd c))"
proof unfold_locales
  fix s :: FileContext and n r :: int and bs s'
  assume ok: "file_ok s" "0 < n"
  show "\<exists>r bs s'. Some (file_read s n) = Some (r, bs, s')" by (metis prod_cases3)
  assume "Some (file_read s n) = Some (r, bs, s')"
  then have r: "file_read s n = (r, bs, s')" by simp
  note c = file_read_cases [OF ok r]
  show "file_ok s' \<and> file_bytes (file_fd s') = file_bytes (file_fd s)" using c by simp
  show "bs = [] \<and> int (file_offset (file_fd s')) = int (file_offset (file_fd s))" if "r \<le> 0" using c that by auto
  show "length (replies (file_fd s')) < length (replies (file_fd s))" if "r \<in> {AVERROR EINTR, AVERROR EAGAIN, 0}"
    using c that by auto
  show "r \<le> n \<and> int (file_offset (file_fd s)) + r \<le> int (length (file_bytes (file_fd s))) \<and>
      bs = take (nat r) (drop (nat (int (file_offset (file_fd s)))) (file_bytes (file_fd s))) \<and>
      int (file_offset (file_fd s')) = int (file_offset (file_fd s)) + r" if "0 < r"
  proof -
    have b: "r \<le> n" "int (length bs) = r" "bs = take (length bs) (drop (file_offset (file_fd s)) (file_bytes (file_fd s)))"
      "file_offset (file_fd s') = file_offset (file_fd s) + length bs"
      using c that by simp_all
    have "length bs \<le> length (file_bytes (file_fd s)) - file_offset (file_fd s)" using arg_cong [OF b(3), of length] by simp
    moreover have "bs \<noteq> []" using b(2) that by auto
    ultimately have "file_offset (file_fd s) + length bs \<le> length (file_bytes (file_fd s))" by (cases bs) auto
    then show ?thesis using b that by auto
  qed
next
  fix s :: FileContext and n bs s'
  assume "file_ok s" "0 < n" "Some (file_read s n) = Some (AVERROR_EOF, bs, s')"
  then show "int (length (file_bytes (file_fd s))) \<le> int (file_offset (file_fd s))"
    using file_read_cases [of s n AVERROR_EOF bs s'] by simp
next
  fix s s' :: FileContext and pos whence r
  assume "file_ok s" and s: "file_seek s pos whence = (r, s')"
  note c = file_seek_cases [OF this]
  show "file_ok s' \<and> file_bytes (file_fd s') = file_bytes (file_fd s)" using c by simp
  show "int (file_offset (file_fd s')) = int (file_offset (file_fd s))" if "r < 0 \<or> whence = AVSEEK_SIZE" using c that by simp
  show "int (file_offset (file_fd s')) = r \<and> (whence = SEEK_SET \<longrightarrow> r = pos)" if "0 \<le> r" "whence \<in> {SEEK_SET, SEEK_CUR, SEEK_END}"
    using c that by auto
  show "r \<noteq> AVERROR_EOF" using c by auto
qed simp

text \<open>Reading through \<open>ffurl_read\<close>: blocking, with the flag for reading.\<close>

context url_protocol
begin

definition ffurl_ok :: "'s URLContext \<Rightarrow> bool" where
  "ffurl_ok h \<longleftrightarrow> valid (priv_data h) \<and> url_flags h AND AVIO_FLAG_READ \<noteq> 0 \<and> url_flags h AND AVIO_FLAG_NONBLOCK = 0"

lemma interrupt_keeps: "ff_check_interrupt h = (stop, h') \<Longrightarrow> priv_data h' = priv_data h \<and> url_flags h' = url_flags h"
  by (auto simp: ff_check_interrupt_def split: list.splits)

lemma timed_out_keeps: "timed_out h w = (late, w', h') \<Longrightarrow> priv_data h' = priv_data h \<and> url_flags h' = url_flags h"
  by (auto simp: timed_out_def av_gettime_relative_def Let_def split: list.splits if_splits)

text \<open>What one reading through the loop gives.\<close>

definition read_result :: "'s URLContext \<Rightarrow> int \<Rightarrow> int \<times> byte list \<times> 's URLContext \<Rightarrow> bool" where
  "read_result h n = (\<lambda>(r, bs, h'). ffurl_ok h' \<and> resource (priv_data h') = resource (priv_data h) \<and> r \<notin> {AVERROR EINTR, AVERROR EAGAIN, 0} \<and>
     (r = AVERROR_EOF \<longrightarrow> int (length (resource (priv_data h))) \<le> position (priv_data h)) \<and>
     (if 0 < r then r \<le> n \<and> position (priv_data h) + r \<le> int (length (resource (priv_data h))) \<and>
        bs = take (nat r) (drop (nat (position (priv_data h))) (resource (priv_data h))) \<and> position (priv_data h') = position (priv_data h) + r
      else bs = [] \<and> position (priv_data h') = position (priv_data h)))"

lemma retry_reads:
  assumes "0 < n"
  shows "ffurl_ok h \<Longrightarrow> \<exists>x. retry_loop (\<lambda>s len. url_read s) n 1 h [] 0 fast wait = Some x \<and> read_result h n x"
proof (induction "tries (priv_data h)" arbitrary: h fast wait rule: less_induct)
  case less
  let ?turn = "transfer_turn (\<lambda>s len. url_read s) n h [] 0 fast wait"
  have loop: "retry_loop (\<lambda>s len. url_read s) n 1 h [] 0 fast wait =
      ?turn \<bind> (\<lambda>t. case t of Return ret buf h \<Rightarrow> Some (ret, buf, h)
        | Again h buf len fast wait \<Rightarrow> retry_loop (\<lambda>s len. url_read s) n 1 h buf len fast wait)"
    by (subst retry_loop.simps) simp
  obtain stop h1 where h1: "ff_check_interrupt h = (stop, h1)" by fastforce
  note k1 = interrupt_keeps [OF h1]
  show ?case
  proof (cases stop)
    case True
    then have "?turn = Some (Return AVERROR_EXIT [] h1)" by (simp add: transfer_turn_def h1)
    then show ?thesis using less.prems k1 by (simp add: loop read_result_def ffurl_ok_def)
  next
    case False
    have v: "valid (priv_data h)" using less.prems by (simp add: ffurl_ok_def)
    obtain r bs s where r: "url_read (priv_data h) n = Some (r, bs, s)" using read_returns [OF v assms] by blast
    define h2 where "h2 = h1\<lparr>priv_data := s\<rparr>"
    have turn: "?turn = Some (after_transfer h2 bs 0 fast wait r)"
      using False k1 r by (simp add: transfer_turn_def h1 h2_def)
    have ok: "ffurl_ok h2" "priv_data h2 = s" "resource s = resource (priv_data h)"
      using less.prems k1 read_keeps [OF v assms r] by (simp_all add: h2_def ffurl_ok_def)
    have again: "\<exists>x. retry_loop (\<lambda>s len. url_read s) n 1 h3 bs 0 fast' wait' = Some x \<and> read_result h n x"
      if "priv_data h3 = s" "url_flags h3 = url_flags h2" "r \<in> {AVERROR EINTR, AVERROR EAGAIN, 0}" for h3 fast' wait'
    proof -
      have st: "bs = []" "position s = position (priv_data h)" "tries s < tries (priv_data h)"
        using read_stays [OF v assms r] read_tries [OF v assms r] that(3) by auto
      have "ffurl_ok h3" using ok(1,2) that(1,2) by (simp add: ffurl_ok_def)
      moreover have "read_result h3 n x = read_result h n x" for x using that(1) st ok by (simp add: read_result_def)
      ultimately show ?thesis using less.hyps [of h3 fast' wait'] that(1) st by simp
    qed
    have nb: "url_flags h2 AND AVIO_FLAG_NONBLOCK = 0" using ok(1) by (simp add: ffurl_ok_def)
    consider "r \<in> {AVERROR EINTR, AVERROR EAGAIN, 0}" | "r = AVERROR_EOF" | "r < 0" "r \<notin> {AVERROR EINTR, AVERROR EAGAIN, AVERROR_EOF}" | "0 < r"
      by fastforce
    then show ?thesis
    proof cases
      case 1
      obtain late w h3 where t: "timed_out h2 wait = (late, w, h3)" by (metis prod_cases3)
      have s: "bs = []" "position s = position (priv_data h)" using read_stays [OF v assms r] 1 by auto
      have "ffurl_ok h3" "priv_data h3 = s" using timed_out_keeps [OF t] ok by (simp_all add: ffurl_ok_def)
      then have late: "read_result h n (AVERROR EIO, bs, h3)" using s ok by (simp add: read_result_def)
      show ?thesis
      proof (cases "r = AVERROR EAGAIN")
        case True
        then show ?thesis using again [of h2] again [of h3] timed_out_keeps [OF t] ok nb 1 late t
          by (auto simp: loop turn after_transfer_def)
      next
        case False
        then have "after_transfer h2 bs 0 fast wait r = Again h2 bs 0 fast wait" using 1 nb by (auto simp: after_transfer_def)
        then show ?thesis using again [OF ok(2) refl 1] by (simp add: loop turn)
      qed
    next
      case 2
      then have "after_transfer h2 bs 0 fast wait r = Return AVERROR_EOF bs h2" using nb by (simp add: after_transfer_def)
      then show ?thesis using 2 read_end [OF v assms r [unfolded 2]] read_stays [OF v assms r] ok by (simp add: loop turn read_result_def)
    next
      case 3
      then have "after_transfer h2 bs 0 fast wait r = Return r bs h2" using nb by (simp add: after_transfer_def)
      then show ?thesis using 3 read_stays [OF v assms r] ok by (auto simp: loop turn read_result_def)
    next
      case 4
      then have "after_transfer h2 bs 0 fast wait r = Again h2 bs r (max fast 2) 0" using nb by (simp add: after_transfer_def)
      then have "retry_loop (\<lambda>s len. url_read s) n 1 h [] 0 fast wait = Some (r, bs, h2)"
        using 4 by (simp add: loop turn) (subst retry_loop.simps, simp)
      then show ?thesis using 4 read_bytes [OF v assms r] ok by (simp add: read_result_def)
    qed
  qed
qed

lemma whence_force:
  "(0 :: int) AND NOT AVSEEK_FORCE = 0" "(1 :: int) AND NOT AVSEEK_FORCE = 1" "(2 :: int) AND NOT AVSEEK_FORCE = 2"
  "AVSEEK_SIZE AND NOT AVSEEK_FORCE = AVSEEK_SIZE"
  by simp_all

lemma ffurl_read_result:
  assumes "ffurl_ok h" "0 < n"
  shows "\<exists>x. ffurl_read url_read h n = Some x \<and> read_result h n x"
  using retry_reads [OF assms(2,1)] assms(1) by (simp add: ffurl_read_def retry_transfer_wrapper_def ffurl_ok_def)

lemma ffurl_protocol:
  "url_protocol (ffurl_read url_read) (ffurl_seek (Some url_seek)) ffurl_ok (\<lambda>h. resource (priv_data h)) (\<lambda>h. position (priv_data h)) (\<lambda>h. 0)"
proof unfold_locales
  fix s :: "'s URLContext" and n :: int
  assume ok: "ffurl_ok s" "0 < n"
  then show "\<exists>r bs s'. ffurl_read url_read s n = Some (r, bs, s')" using ffurl_read_result by (metis prod_cases3)
  fix r bs s' assume "ffurl_read url_read s n = Some (r, bs, s')"
  then have r: "read_result s n (r, bs, s')" using ffurl_read_result [OF ok] by auto
  show "ffurl_ok s' \<and> resource (priv_data s') = resource (priv_data s)" using r by (simp add: read_result_def)
  show "r \<le> n \<and> position (priv_data s) + r \<le> int (length (resource (priv_data s))) \<and>
      bs = take (nat r) (drop (nat (position (priv_data s))) (resource (priv_data s))) \<and> position (priv_data s') = position (priv_data s) + r"
    if "0 < r" using r that by (simp add: read_result_def)
  show "bs = [] \<and> position (priv_data s') = position (priv_data s)" if "r \<le> 0" using r that by (simp add: read_result_def)
  show "0 < (0 :: nat)" if "r \<in> {AVERROR EINTR, AVERROR EAGAIN, 0}" using r that by (auto simp: read_result_def)
next
  fix s :: "'s URLContext" and n :: int and bs s'
  assume ok: "ffurl_ok s" "0 < n" and "ffurl_read url_read s n = Some (AVERROR_EOF, bs, s')"
  then have r: "read_result s n (AVERROR_EOF, bs, s')" using ffurl_read_result [OF ok] by auto
  then show "int (length (resource (priv_data s))) \<le> position (priv_data s)" by (simp add: read_result_def)
next
  fix s :: "'s URLContext" and pos whence r s'
  assume ok: "ffurl_ok s" and "ffurl_seek (Some url_seek) s pos whence = (r, s')"
  then obtain t where t: "url_seek (priv_data s) pos (whence AND NOT AVSEEK_FORCE) = (r, t)" "s' = s\<lparr>priv_data := t\<rparr>"
    by (auto simp: ffurl_seek_def split: prod.splits)
  have v: "valid (priv_data s)" using ok by (simp add: ffurl_ok_def)
  show "ffurl_ok s' \<and> resource (priv_data s') = resource (priv_data s)" using seek_keeps [OF v t(1)] ok t(2) by (simp add: ffurl_ok_def)
  show "position (priv_data s') = position (priv_data s)" if "r < 0 \<or> whence = AVSEEK_SIZE"
  proof -
    have "r < 0 \<or> whence AND NOT AVSEEK_FORCE = AVSEEK_SIZE" using that whence_force(4) by blast
    then show ?thesis using seek_fails [OF v t(1)] t(2) by simp
  qed
  show "position (priv_data s') = r \<and> (whence = SEEK_SET \<longrightarrow> r = pos)" if "0 \<le> r" "whence \<in> {SEEK_SET, SEEK_CUR, SEEK_END}"
  proof -
    have "whence AND NOT AVSEEK_FORCE = whence" using that(2) whence_force(1-3) by fastforce
    then show ?thesis using seek_moves [OF v t(1) that(1)] that(2) t(2) by simp
  qed
  show "r \<noteq> AVERROR_EOF" by (rule seek_error [OF v t(1)])
next
  fix s :: "'s URLContext" assume "ffurl_ok s"
  then show "0 \<le> position (priv_data s)" using position_nonneg by (simp add: ffurl_ok_def)
qed

end

interpretation file_url: url_protocol "ffurl_read (\<lambda>c n. Some (file_read c n))" "ffurl_seek (Some file_seek)" local_file.ffurl_ok
  "\<lambda>h. file_bytes (file_fd (priv_data h))" "\<lambda>h. int (file_offset (file_fd (priv_data h)))" "\<lambda>h. 0"
  by (rule local_file.ffurl_protocol)

end
