(* ===== verification/Cache.thy ===== *)
theory Cache
  imports AvTree Avio
begin

section \<open>The caching protocol: \<open>libavformat/cache.c\<close>\<close>

text \<open>
  \<open>cache:\<close> keeps what it has read of another resource in a temporary file, so that a reader can go back in a resource
  that cannot seek.  An \<open>AVTreeNode\<close> tree of entries, ordered by their position in the resource, tells where in the
  temporary file its pieces are.  The tree holds addresses of entries: the last entry grows in place while the resource
  is read in sequence.  A failed assertion (\<open>av_assert0\<close>) is \<open>None\<close>, as is a transfer that does not return.

  The model counts positions without bound (they are 64 bit integers of bytes); the \<open>int\<close> size of an entry wraps.
\<close>

record CacheEntry =
  entry_logical_pos :: int
  entry_physical_pos :: int
  entry_size :: int

record 's cache =
  cache_fd :: descriptor
  cache_entries :: "CacheEntry list"
  root :: "nat AVTreeNode"
  logical_pos :: int
  cache_pos :: int
  inner_pos :: int
  end_pos :: int
  is_true_eof :: bool
  inner :: 's
  cache_hit :: int
  cache_miss :: int
  read_ahead_limit :: int
  mallocs :: "bool list"

definition FFDIFFSIGN :: "int \<Rightarrow> int \<Rightarrow> int" where
  "FFDIFFSIGN x y = (if x > y then 1 else 0) - (if x < y then 1 else 0)"

definition entry_cmp :: "CacheEntry list \<Rightarrow> int \<Rightarrow> nat \<Rightarrow> int" where
  "entry_cmp es key a = FFDIFFSIGN key (entry_logical_pos (es ! a))"

text \<open>The entry at the position, or else the nearest one before it.\<close>

definition find_entry :: "'s cache \<Rightarrow> nat option" where
  "find_entry c =
     (case av_tree_find (entry_cmp (cache_entries c)) (root c) (logical_pos c) (Some (None, None)) of
        (Some a, next) \<Rightarrow> Some a
      | (None, next) \<Rightarrow> next \<bind> fst)"

definition av_malloc :: "'s cache \<Rightarrow> bool \<times> 's cache" where
  "av_malloc c = (case mallocs c of [] \<Rightarrow> (True, c) | b # bs \<Rightarrow> (b, c\<lparr>mallocs := bs\<rparr>))"

text \<open>\<open>ret\<close> bytes have been written at \<open>pos\<close>: the entry before the position grows, or there is a new one.\<close>

definition extends :: "'s cache \<Rightarrow> int \<Rightarrow> nat \<Rightarrow> bool" where
  "extends c pos a \<longleftrightarrow>
     (let e = cache_entries c ! a
      in entry_logical_pos e + entry_size e = logical_pos c \<and> entry_physical_pos e + entry_size e = pos)"

definition new_entry :: "'s cache \<Rightarrow> int \<Rightarrow> int \<Rightarrow> (int \<times> 's cache) option" where
  "new_entry c pos ret =
     (let (entry_ok, c) = av_malloc c;
          (node_ok, c) = av_malloc c
      in if \<not> entry_ok \<or> \<not> node_ok then Some (AVERROR 12, c)
         else
           let a = length (cache_entries c);
               es = cache_entries c @ [\<lparr>entry_logical_pos = logical_pos c, entry_physical_pos = pos, entry_size = ret\<rparr>]
           in do {
             (entry_ret, t, node) \<leftarrow>
               av_tree_insert (\<lambda>b. entry_cmp es (entry_logical_pos (es ! b))) (root c) a (Some (fresh_node a));
             Some (if entry_ret \<noteq> None \<and> entry_ret \<noteq> Some a then - 1 else 0, c\<lparr>cache_entries := es, root := t\<rparr>) })"

definition record_entry :: "'s cache \<Rightarrow> int \<Rightarrow> int \<Rightarrow> (int \<times> 's cache) option" where
  "record_entry c pos ret =
     (case find_entry c of
        None \<Rightarrow> new_entry c pos ret
      | Some a \<Rightarrow>
          if \<not> extends c pos a then new_entry c pos ret
          else
            let e = cache_entries c ! a
            in Some (0, c\<lparr>cache_entries := (cache_entries c)[a := e\<lparr>entry_size := s32 (entry_size e + ret)\<rparr>]\<rparr>))"

definition add_entry :: "'s cache \<Rightarrow> byte list \<Rightarrow> (int \<times> 's cache) option" where
  "add_entry c buf =
     (case sys_lseek (cache_fd c) 0 SEEK_END of
        (Inl e, fd) \<Rightarrow> Some (AVERROR e, c\<lparr>cache_fd := fd\<rparr>)
      | (Inr pos, fd) \<Rightarrow>
          (case sys_write fd buf of
             (Inl e, fd) \<Rightarrow> Some (AVERROR e, c\<lparr>cache_fd := fd, cache_pos := pos\<rparr>)
           | (Inr ret, fd) \<Rightarrow> record_entry (c\<lparr>cache_fd := fd, cache_pos := pos + int ret\<rparr>) pos (int ret)))"

text \<open>Reading from the temporary file; a result that is not positive is a miss.\<close>

definition goto_physical :: "'s cache \<Rightarrow> int \<Rightarrow> int \<times> 's cache" where
  "goto_physical c target =
     (if cache_pos c \<noteq> target then
        (case sys_lseek (cache_fd c) target SEEK_SET of
           (Inl e, fd) \<Rightarrow> (- 1, c\<lparr>cache_fd := fd\<rparr>)
         | (Inr r, fd) \<Rightarrow> (r, c\<lparr>cache_fd := fd, cache_pos := r\<rparr>))
      else (cache_pos c, c))"

definition read_physical :: "'s cache \<Rightarrow> int \<Rightarrow> int \<times> byte list \<times> 's cache" where
  "read_physical c amount =
     (case sys_read (cache_fd c) (nat amount) of
        (Inl e, fd) \<Rightarrow> (- 1, [], c\<lparr>cache_fd := fd\<rparr>)
      | (Inr bs, fd) \<Rightarrow> (int (length bs), bs, c\<lparr>cache_fd := fd\<rparr>))"

definition read_cached :: "'s cache \<Rightarrow> nat \<Rightarrow> int \<Rightarrow> (int \<times> byte list \<times> 's cache) option" where
  "read_cached c a amount =
     (let e = cache_entries c ! a;
          in_block_pos = logical_pos c - entry_logical_pos e
      in if \<not> entry_logical_pos e \<le> logical_pos c then None
         else if \<not> in_block_pos < entry_size e then Some (0, [], c)
         else
           let (r, c) = goto_physical c (entry_physical_pos e + in_block_pos);
               (r, bs, c) = (if r \<ge> 0 then read_physical c (min amount (entry_size e - in_block_pos)) else (r, [], c))
           in Some (r, bs,
                if r > 0 then c\<lparr>cache_pos := cache_pos c + r, logical_pos := logical_pos c + r, cache_hit := cache_hit c + 1\<rparr>
                else c))"

text \<open>Reading from the resource and keeping what was read.\<close>

definition seek_inner :: "'s seeker \<Rightarrow> 's cache \<Rightarrow> int \<times> 's cache" where
  "seek_inner inner_seek c =
     (if logical_pos c \<noteq> inner_pos c then
        let (r, s) = inner_seek (inner c) (logical_pos c) SEEK_SET
        in (r, if r < 0 then c\<lparr>inner := s\<rparr> else c\<lparr>inner := s, inner_pos := r\<rparr>)
      else (0, c))"

definition read_inner :: "'s reader \<Rightarrow> 's seeker \<Rightarrow> 's cache \<Rightarrow> int \<Rightarrow> (int \<times> byte list \<times> 's cache) option" where
  "read_inner inner_read inner_seek c amount =
     (let (r, c) = seek_inner inner_seek c
      in if r < 0 then Some (r, [], c)
         else do {
           (r, bs, s) \<leftarrow> inner_read (inner c) amount;
           let c = c\<lparr>inner := s\<rparr>;
           if r = AVERROR_EOF \<and> amount > 0 \<and> \<not> end_pos c \<ge> logical_pos c then None
           else
             let c = (if r = AVERROR_EOF \<and> amount > 0 then c\<lparr>is_true_eof := True\<rparr> else c)
             in if r \<le> 0 then Some (r, bs, c)
                else do {
                  (ret, c) \<leftarrow> add_entry (c\<lparr>inner_pos := inner_pos c + r, cache_miss := cache_miss c + 1\<rparr>) bs;
                  Some (r, bs, c\<lparr>logical_pos := logical_pos c + r, end_pos := max (end_pos c) (logical_pos c + r)\<rparr>) } })"

definition cache_read :: "'s reader \<Rightarrow> 's seeker \<Rightarrow> 's cache reader" where
  "cache_read inner_read inner_seek c amount =
     (case find_entry c of
        None \<Rightarrow> read_inner inner_read inner_seek c amount
      | Some a \<Rightarrow> do {
          (r, bs, c) \<leftarrow> read_cached c a amount;
          if r > 0 then Some (r, bs, c) else read_inner inner_read inner_seek c amount })"

text \<open>Seeking.\<close>

definition cache_size :: "'s seeker \<Rightarrow> 's cache \<Rightarrow> int \<Rightarrow> int \<times> 's cache" where
  "cache_size inner_seek c pos =
     (let (pos, s) = inner_seek (inner c) pos AVSEEK_SIZE;
          (pos, s) = (if pos \<le> 0
                      then let (pos, s) = inner_seek s (- 1) SEEK_END
                           in (pos, snd (inner_seek s (inner_pos c) SEEK_SET))
                      else (pos, s))
      in (pos, c\<lparr>inner := s, is_true_eof := is_true_eof c \<or> pos > 0, end_pos := max (end_pos c) pos\<rparr>))"

text \<open>The loop that reads ahead to a position, where the resource cannot seek.\<close>

partial_function (option) read_ahead :: "'s reader \<Rightarrow> 's seeker \<Rightarrow> 's cache \<Rightarrow> int \<Rightarrow> (int \<times> 's cache) option" where
  "read_ahead inner_read inner_seek c pos =
     (if logical_pos c < pos then do {
        (ret, bs, c) \<leftarrow> cache_read inner_read inner_seek c (min 32768 (pos - logical_pos c));
        if ret < 0 then Some (ret, c) else read_ahead inner_read inner_seek c pos }
      else Some (logical_pos c, c))"

declare read_ahead.simps [code]

text \<open>The end of \<open>cache_seek\<close>: the result of seeking in the resource.\<close>

definition seek_done :: "int \<Rightarrow> 's cache \<Rightarrow> int \<times> 's cache" where
  "seek_done ret c = (ret, if ret \<ge> 0 then c\<lparr>logical_pos := ret, end_pos := max (end_pos c) ret\<rparr> else c)"

definition seek_set :: "'s reader \<Rightarrow> 's seeker \<Rightarrow> 's cache \<Rightarrow> int \<Rightarrow> (int \<times> 's cache) option" where
  "seek_set inner_read inner_seek c pos =
     (if pos \<ge> 0 \<and> pos < end_pos c then Some (pos, c\<lparr>logical_pos := pos\<rparr>)
      else
        let (ret, s) = inner_seek (inner c) pos SEEK_SET;
            c = c\<lparr>inner := s\<rparr>
        in if pos \<ge> logical_pos c \<and> ret < 0 \<and> (read_ahead_limit c \<ge> pos - logical_pos c \<or> read_ahead_limit c < 0)
           then read_ahead inner_read inner_seek c pos
           else Some (seek_done ret c))"

partial_function (option) read_to_end :: "'s reader \<Rightarrow> 's seeker \<Rightarrow> 's cache \<Rightarrow> int \<Rightarrow> (int \<times> 's cache) option" where
  "read_to_end inner_read inner_seek c pos = do {
     (ret, bs, c) \<leftarrow> cache_read inner_read inner_seek c 32768;
     if ret = AVERROR_EOF then (if \<not> is_true_eof c then None else seek_set inner_read inner_seek c (pos + end_pos c))
     else if ret < 0 then Some (ret, c)
     else read_to_end inner_read inner_seek c pos }"

declare read_to_end.simps [code]

definition cache_seek :: "'s reader \<Rightarrow> 's seeker \<Rightarrow> 's cache \<Rightarrow> int \<Rightarrow> int \<Rightarrow> (int \<times> 's cache) option" where
  "cache_seek inner_read inner_seek c pos whence =
     (if whence = AVSEEK_SIZE then Some (cache_size inner_seek c pos)
      else if whence = SEEK_CUR then seek_set inner_read inner_seek c (pos + logical_pos c)
      else if whence = SEEK_END \<and> is_true_eof c then seek_set inner_read inner_seek c (pos + end_pos c)
      else if whence = SEEK_SET then seek_set inner_read inner_seek c pos
      else
        let (ret, s) = inner_seek (inner c) pos whence;
            c = c\<lparr>inner := s\<rparr>
        in if whence = SEEK_END \<and> pos \<le> 0 \<and> ret < 0 \<and> read_ahead_limit c < 0
           then read_to_end inner_read inner_seek c pos
           else Some (seek_done ret c))"

text \<open>What \<open>cache_open\<close> sets up, with the temporary file and the resource opened.\<close>

definition cache_open :: "descriptor \<Rightarrow> 's \<Rightarrow> int \<Rightarrow> bool list \<Rightarrow> 's cache" where
  "cache_open fd s limit memory =
     \<lparr>cache_fd = fd, cache_entries = [], root = NULL, logical_pos = 0, cache_pos = 0, inner_pos = 0, end_pos = 0,
      is_true_eof = False, inner = s, cache_hit = 0, cache_miss = 0, read_ahead_limit = limit, mallocs = memory\<rparr>"

subsection \<open>The cached pieces\<close>

text \<open>An entry with a positive size says where bytes of the resource \<open>X\<close>, before \<open>E\<close>, are in the file \<open>F\<close>.\<close>

definition entry_ok :: "byte list \<Rightarrow> byte list \<Rightarrow> int \<Rightarrow> CacheEntry \<Rightarrow> bool" where
  "entry_ok F X E e \<longleftrightarrow>
     (let l = entry_logical_pos e; p = entry_physical_pos e; n = entry_size e
      in int32 n \<and> 0 \<le> l \<and> 0 \<le> p \<and> p \<le> int (length F) \<and>
         (0 < n \<longrightarrow> p + n \<le> int (length F) \<and> l + n \<le> int (length X) \<and> l + n \<le> E \<and>
            take (nat n) (drop (nat p) F) = take (nat n) (drop (nat l) X)))"

definition store_ok :: "byte list \<Rightarrow> int \<Rightarrow> 's cache \<Rightarrow> bool" where
  "store_ok X E c \<longleftrightarrow>
     errors_positive (cache_fd c) \<and> cache_pos c = int (file_offset (cache_fd c)) \<and>
     well_formed (\<lambda>a. entry_logical_pos (cache_entries c ! a)) (root c) \<and>
     (\<forall>a \<in> elems (root c). a < length (cache_entries c) \<and> entry_ok (file_bytes (cache_fd c)) X E (cache_entries c ! a))"

text \<open>What storing a piece does not touch.\<close>

definition outside :: "'s cache \<Rightarrow> int \<times> int \<times> int \<times> bool \<times> 's \<times> int \<times> int \<times> int" where
  "outside c = (logical_pos c, inner_pos c, end_pos c, is_true_eof c, inner c, cache_hit c, cache_miss c, read_ahead_limit c)"

lemma compares_entries: "compares_keys (\<lambda>x. x) (\<lambda>a. entry_logical_pos (es ! a)) (entry_cmp es)"
  by (simp add: compares_keys_def entry_cmp_def FFDIFFSIGN_def key_cmp_def)

lemma compares_addresses:
  "compares_keys (\<lambda>a. entry_logical_pos (es ! a)) (\<lambda>a. entry_logical_pos (es ! a)) (\<lambda>b. entry_cmp es (entry_logical_pos (es ! b)))"
  by (simp add: compares_keys_def entry_cmp_def FFDIFFSIGN_def key_cmp_def)

lemma find_entry_cases:
  assumes "store_ok X E c" "find_entry c = Some a"
  shows "a \<in> elems (root c)" "entry_logical_pos (cache_entries c ! a) \<le> logical_pos c"
proof -
  let ?cmp = "entry_cmp (cache_entries c)"
  have wf: "well_formed (\<lambda>a. entry_logical_pos (cache_entries c ! a)) (root c)" using assms(1) by (simp add: store_ok_def)
  note f = tree_find_ok [OF compares_entries wf, of "logical_pos c" "Some (None, None)"]
  note n = tree_neighbours_ok [OF compares_entries wf, of "logical_pos c"]
  obtain found nx where fd: "av_tree_find ?cmp (root c) (logical_pos c) (Some (None, None)) = (found, nx)" by fastforce
  have "a \<in> elems (root c) \<and> entry_logical_pos (cache_entries c ! a) \<le> logical_pos c"
  proof (cases found)
    case None
    then obtain m where "nx = Some m" "fst m = Some a" using assms(2) fd by (auto simp: find_entry_def bind_eq_Some_conv)
    then show ?thesis using n fd by auto
  next
    case (Some b)
    then show ?thesis using f fd assms(2) by (simp add: find_entry_def)
  qed
  then show "a \<in> elems (root c)" "entry_logical_pos (cache_entries c ! a) \<le> logical_pos c" by simp_all
qed

lemma malloc_keeps: "av_malloc c = (b, c') \<Longrightarrow> \<exists>m. c' = c\<lparr>mallocs := m\<rparr>"
  by (auto simp: av_malloc_def split: list.splits intro: exI [of _ "mallocs c"])

lemma keys_cong: "(\<And>a. a \<in> elems t \<Longrightarrow> k a = k' a) \<Longrightarrow> well_formed k t = well_formed k' t"
  using AVTreeNode.map_cong [of t t k k'] by (simp add: well_formed_def)

lemma new_entry_ok:
  assumes "store_ok X E c" "entry_ok (file_bytes (cache_fd c)) X E \<lparr>entry_logical_pos = logical_pos c, entry_physical_pos = pos, entry_size = n\<rparr>"
  shows "\<exists>ret c'. new_entry c pos n = Some (ret, c') \<and> store_ok X E c' \<and> outside c' = outside c"
proof -
  obtain b1 c1 where m1: "av_malloc c = (b1, c1)" by fastforce
  obtain b2 c2 where m2: "av_malloc c1 = (b2, c2)" by fastforce
  obtain m where c2: "c2 = c\<lparr>mallocs := m\<rparr>" using malloc_keeps [OF m1] malloc_keeps [OF m2] by auto
  show ?thesis
  proof (cases "b1 \<and> b2")
    case False
    then show ?thesis using assms(1) by (auto simp: new_entry_def m1 m2 c2 store_ok_def outside_def)
  next
    case True
    define a where "a = length (cache_entries c)"
    define e where "e = \<lparr>entry_logical_pos = logical_pos c, entry_physical_pos = pos, entry_size = n\<rparr>"
    define es where "es = cache_entries c @ [e]"
    define k where "k = (\<lambda>a. entry_logical_pos (es ! a))"
    have old: "b < a \<and> es ! b = cache_entries c ! b" if "b \<in> elems (root c)" for b
      using assms(1) that by (simp add: store_ok_def a_def es_def nth_append)
    then have wf: "well_formed k (root c)"
      using assms(1) keys_cong [of "root c" k "\<lambda>a. entry_logical_pos (cache_entries c ! a)"] by (simp add: store_ok_def k_def)
    obtain ret t node where t: "av_tree_insert (\<lambda>b. entry_cmp es (entry_logical_pos (es ! b))) (root c) a (Some (fresh_node a)) = Some (ret, t, node)"
      "well_formed k t" "elems t \<subseteq> Set.insert a (elems (root c))"
      using tree_insert_ok [OF compares_addresses wf [unfolded k_def], of a a] unfolding k_def [symmetric] by (auto split: if_splits)
    have "new_entry c pos n = Some (if ret \<noteq> None \<and> ret \<noteq> Some a then - 1 else 0, c\<lparr>mallocs := m, cache_entries := es, root := t\<rparr>)"
      using True t(1) by (simp add: new_entry_def m1 m2 c2 e_def es_def a_def)
    moreover have "b < length es \<and> entry_ok (file_bytes (cache_fd c)) X E (es ! b)" if "b \<in> elems t" for b
    proof (cases "b = a")
      case True
      then show ?thesis using assms(2) by (simp add: es_def a_def e_def)
    next
      case False
      then have "b \<in> elems (root c)" using t(3) that by blast
      then show ?thesis using assms(1) old [of b] by (auto simp: store_ok_def es_def a_def intro: less_SucI)
    qed
    then have "store_ok X E (c\<lparr>mallocs := m, cache_entries := es, root := t\<rparr>)"
      using assms(1) t(2) by (simp add: store_ok_def k_def)
    ultimately show ?thesis by (auto simp: outside_def)
  qed
qed

lemma s32_sum_positive:
  assumes "int32 x" "0 \<le> n" "n \<le> INT_MAX" "0 < s32 (x + n)"
  shows "s32 (x + n) = x + n"
proof -
  have "x + n \<le> INT_MAX"
  proof (rule ccontr)
    assume "\<not> x + n \<le> INT_MAX"
    moreover from this have "s32 (x + n) = x + n - 4294967296"
      using assms(1-3) by (simp add: s32_def int32_def) (subst mod_pos_geq, simp_all)
    ultimately show False using assms by (simp add: int32_def)
  qed
  then show ?thesis using assms(1-3) by (simp add: int32_def s32_id)
qed

text \<open>An entry that ends where the new piece begins may take it in.\<close>

lemma entry_grows:
  assumes "entry_ok F X E e" "entry_logical_pos e + entry_size e = l" "entry_physical_pos e + entry_size e = int q"
    and "entry_physical_pos e \<le> int q" "q + m = length F" "int m \<le> INT_MAX"
    and "l + int m \<le> int (length X)" "l + int m \<le> E" "take m (drop q F) = take m (drop (nat l) X)"
  shows "entry_ok F X E (e\<lparr>entry_size := s32 (entry_size e + int m)\<rparr>)"
proof -
  have i: "int32 (entry_size e)" using assms(1) by (simp add: entry_ok_def Let_def)
  have "0 \<le> entry_logical_pos e" "0 \<le> entry_physical_pos e" using assms(1) by (simp_all add: entry_ok_def Let_def)
  then obtain L P where lp: "entry_logical_pos e = int L" "entry_physical_pos e = int P" by (metis zero_le_imp_eq_int)
  obtain k where k: "entry_size e = int k" using assms(3,4) zero_le_imp_eq_int [of "entry_size e"] by auto
  have q: "q = P + k" "nat l = L + k" using assms(2,3) lp k by auto
  have old: "take k (drop P F) = take k (drop L X)"
    using assms(1) lp k by (cases "k = 0") (simp_all add: entry_ok_def Let_def)
  have new: "take (k + m) (drop P F) = take (k + m) (drop L X)"
    using old assms(9) by (simp add: take_add q add.commute)
  show ?thesis
  proof (cases "0 < s32 (entry_size e + int m)")
    case True
    then have "s32 (entry_size e + int m) = int (k + m)" using s32_sum_positive [OF i _ assms(6)] k by simp
    then show ?thesis using new lp q assms(1,2,5,7,8) k s32_range [of "entry_size e + int m"]
      by (simp add: entry_ok_def Let_def int32_def nat_add_distrib)
  next
    case False
    then show ?thesis using assms(1) s32_range [of "entry_size e + int m"] by (simp add: entry_ok_def Let_def int32_def)
  qed
qed

lemma record_entry_ok:
  assumes "store_ok X E c" "\<forall>a \<in> elems (root c). entry_physical_pos (cache_entries c ! a) \<le> int q"
    and "q + m = length (file_bytes (cache_fd c))" "int m \<le> INT_MAX" "0 \<le> logical_pos c"
    and "logical_pos c + int m \<le> int (length X)" "logical_pos c + int m \<le> E"
    and "take m (drop q (file_bytes (cache_fd c))) = take m (drop (nat (logical_pos c)) X)"
  shows "\<exists>ret c'. record_entry c (int q) (int m) = Some (ret, c') \<and> store_ok X E c' \<and> outside c' = outside c"
proof -
  let ?F = "file_bytes (cache_fd c)"
  have "entry_ok ?F X E \<lparr>entry_logical_pos = logical_pos c, entry_physical_pos = int q, entry_size = int m\<rparr>"
    using assms(3-8) by (simp add: entry_ok_def Let_def int32_def)
  note new = new_entry_ok [OF assms(1) this]
  show ?thesis
  proof (cases "\<exists>a. find_entry c = Some a \<and> extends c (int q) a")
    case False
    then show ?thesis using new by (auto simp: record_entry_def split: option.splits)
  next
    case True
    then obtain a where a: "find_entry c = Some a" "extends c (int q) a" by blast
    let ?e = "cache_entries c ! a"
    let ?e' = "?e\<lparr>entry_size := s32 (entry_size ?e + int m)\<rparr>"
    let ?c' = "c\<lparr>cache_entries := (cache_entries c)[a := ?e']\<rparr>"
    have mem: "a \<in> elems (root c)" by (rule find_entry_cases(1) [OF assms(1) a(1)])
    then have old: "entry_ok ?F X E ?e" using assms(1) by (simp add: store_ok_def)
    have grown: "entry_ok ?F X E ?e'"
      by (rule entry_grows [OF old]) (use a(2) mem assms in \<open>auto simp: extends_def Let_def\<close>)
    have key: "entry_logical_pos ((cache_entries c)[a := ?e'] ! b) = entry_logical_pos (cache_entries c ! b)" for b
      by (cases "a < length (cache_entries c)") (auto simp: nth_list_update not_less list_update_beyond)
    have "entry_ok ?F X E ((cache_entries c)[a := ?e'] ! b)" if "b \<in> elems (root c)" for b
      using that assms(1) grown by (cases "b = a") (auto simp: store_ok_def)
    then have "store_ok X E ?c'" using assms(1) key by (simp add: store_ok_def)
    moreover have "record_entry c (int q) (int m) = Some (0, ?c')" using a by (simp add: record_entry_def Let_def)
    ultimately show ?thesis by (simp add: outside_def)
  qed
qed

text \<open>Bytes appended to the file leave the entries right, and more of the resource may be covered.\<close>

lemma entry_ok_mono:
  assumes "entry_ok F X E e" "E \<le> E'"
  shows "entry_ok (F @ bs) X E' e"
proof -
  have "nat (entry_physical_pos e) + nat (entry_size e) \<le> length F" if "0 < entry_size e"
    using assms(1) that by (auto simp: entry_ok_def Let_def)
  then show ?thesis using assms by (auto simp: entry_ok_def Let_def)
qed

lemma lseek_end:
  assumes "sys_lseek d 0 SEEK_END = (x, d')"
  shows "x = Inr (int (length (file_bytes d))) \<and> d' = (next_call d)\<lparr>file_offset := length (file_bytes d)\<rparr> \<or> (\<exists>e. x = Inl e \<and> d' = next_call d)"
  using assms by (auto simp: sys_lseek_def Let_def split: option.splits)

lemma write_end:
  assumes "sys_write d bs = (x, d')" "file_offset d = length (file_bytes d)"
  shows "(\<exists>n \<le> length bs. x = Inr n \<and> d' = (next_call d)\<lparr>file_bytes := file_bytes d @ take n bs, file_offset := length (file_bytes d) + n\<rparr>) \<or>
    (\<exists>e. x = Inl e \<and> d' = next_call d)"
  using assms served_bounds(1) by (auto simp: sys_write_def Let_def written_end split: option.splits)

lemma add_entry_ok:
  assumes "store_ok X E c" "0 \<le> logical_pos c" "logical_pos c + int (length bs) \<le> int (length X)" "int (length bs) \<le> INT_MAX"
    and "bs = take (length bs) (drop (nat (logical_pos c)) X)"
  shows "\<exists>ret c'. add_entry c bs = Some (ret, c') \<and> store_ok X (max E (logical_pos c + int (length bs))) c' \<and> outside c' = outside c"
proof -
  let ?E = "max E (logical_pos c + int (length bs))" and ?F = "file_bytes (cache_fd c)"
  have errs: "errors_positive (cache_fd c)" using assms(1) by (simp add: store_ok_def)
  have wider: "store_ok X ?E (c\<lparr>cache_fd := d, cache_pos := int (file_offset d)\<rparr>)"
    if "errors_positive d" "file_bytes d = ?F @ ys" for d ys
    using assms(1) that entry_ok_mono [of ?F X E _ ?E ys] by (auto simp: store_ok_def)
  obtain x d where x: "sys_lseek (cache_fd c) 0 SEEK_END = (x, d)" by fastforce
  have d: "errors_positive d" "file_bytes d = ?F" using lseek_end [OF x] errors_positive_next [OF errs, of d] by auto
  consider (bad) e where "x = Inl e" "d = next_call (cache_fd c)" | (ok) "x = Inr (int (length ?F))" "file_offset d = length ?F"
    using lseek_end [OF x] by auto
  then show ?thesis
  proof cases
    case bad
    then have "add_entry c bs = Some (AVERROR e, c\<lparr>cache_fd := d\<rparr>)" by (simp add: add_entry_def x)
    moreover have "store_ok X ?E (c\<lparr>cache_fd := d\<rparr>)" using wider [OF d(1), of "[]"] d(2) assms(1) bad by (simp add: store_ok_def)
    ultimately show ?thesis by (simp add: outside_def)
  next
    case ok
    obtain y d1 where y: "sys_write d bs = (y, d1)" by fastforce
    have "file_offset d = length (file_bytes d)" using ok(2) d(2) by simp
    note w = write_end [OF y this]
    show ?thesis
    proof (cases y)
      case (Inl e)
      then have d1: "d1 = next_call d" using w by auto
      have "errors_positive d1" using errors_positive_next [OF d(1), of d1] d1 by simp
      then have "store_ok X ?E (c\<lparr>cache_fd := d1, cache_pos := int (length ?F)\<rparr>)" using wider [of d1 "[]"] d1 d(2) ok(2) by simp
      then show ?thesis using x ok y Inl by (simp add: add_entry_def outside_def)
    next
      case (Inr n)
      then have n: "n \<le> length bs" "d1 = (next_call d)\<lparr>file_bytes := ?F @ take n bs, file_offset := length ?F + n\<rparr>" using w d(2) by auto
      let ?c = "c\<lparr>cache_fd := d1, cache_pos := int (length ?F) + int n\<rparr>"
      have "errors_positive d1" using errors_positive_next [OF d(1), of d1] n(2) by simp
      then have st: "store_ok X ?E ?c" using wider [of d1 "take n bs"] n(2) by simp
      have "take n bs = take n (drop (nat (logical_pos c)) X)" using arg_cong [OF assms(5), of "take n"] n(1) by (simp add: min_def)
      then have "\<exists>ret c'. record_entry ?c (int (length ?F)) (int n) = Some (ret, c') \<and> store_ok X ?E c' \<and> outside c' = outside ?c"
        by (intro record_entry_ok [OF st]) (use assms n in \<open>auto simp: store_ok_def entry_ok_def Let_def\<close>)
      then show ?thesis using x ok(1) y Inr by (simp add: add_entry_def outside_def)
    qed
  qed
qed

subsection \<open>Reading through the cache\<close>

lemma entry_bytes:
  assumes "entry_ok F X E e" "entry_logical_pos e \<le> l" "l - entry_logical_pos e < entry_size e"
    and "bs = take (length bs) (drop (nat (entry_physical_pos e + (l - entry_logical_pos e))) F)" "int (length bs) \<le> entry_size e - (l - entry_logical_pos e)"
  shows "bs = take (length bs) (drop (nat l) X)" "l + int (length bs) \<le> E" "l + int (length bs) \<le> int (length X)"
proof -
  have "0 \<le> entry_logical_pos e" "0 \<le> entry_physical_pos e" "0 < entry_size e" using assms(1-3) by (simp_all add: entry_ok_def Let_def)
  then obtain L P k where lpk: "entry_logical_pos e = int L" "entry_physical_pos e = int P" "entry_size e = int k"
    by (metis zero_le_imp_eq_int less_imp_le)
  obtain i where l: "l = int (L + i)" using assms(2) lpk(1) zle_iff_zadd by auto
  have i: "nat l = L + i" "i < k" "i + length bs \<le> k" "nat (entry_physical_pos e + (l - entry_logical_pos e)) = P + i"
    using assms(3,5) lpk l by simp_all
  have eq: "take k (drop P F) = take k (drop L X)" using assms(1) lpk i(2) by (simp add: entry_ok_def Let_def)
  have eq2: "take (k - i) (drop (P + i) F) = take (k - i) (drop (L + i) X)"
    using arg_cong [OF eq, of "drop i"] by (simp add: drop_take add.commute)
  have "take (length bs) (take (k - i) xs) = take (length bs) xs" for xs :: "byte list"
    using i(3) by (simp add: min.absorb1)
  then have "take (length bs) (drop (P + i) F) = take (length bs) (drop (L + i) X)"
    using arg_cong [OF eq2, of "take (length bs)"] by (simp only:)
  then show "bs = take (length bs) (drop (nat l) X)" using assms(4) i by simp
  show "l + int (length bs) \<le> E" "l + int (length bs) \<le> int (length X)"
    using assms(1) lpk l i(2,3) by (auto simp: entry_ok_def Let_def)
qed

lemma goto_physical_cases:
  assumes "goto_physical c p = (r, c')" "store_ok X E c" "0 \<le> p"
  shows "\<exists>d. c' = c\<lparr>cache_fd := d, cache_pos := int (file_offset d)\<rparr> \<and> errors_positive d \<and> file_bytes d = file_bytes (cache_fd c) \<and>
    (r < 0 \<or> r = p \<and> int (file_offset d) = p)"
proof (cases "cache_pos c = p")
  case True
  then show ?thesis using assms by (intro exI [of _ "cache_fd c"]) (auto simp: goto_physical_def store_ok_def)
next
  case False
  obtain x d where x: "sys_lseek (cache_fd c) p SEEK_SET = (x, d)" by fastforce
  have "errors_positive (cache_fd c)" using assms(2) by (simp add: store_ok_def)
  note k = sys_lseek_cases [OF x this]
  show ?thesis using assms False x k by (intro exI [of _ d]) (auto simp: goto_physical_def store_ok_def split: sum.splits)
qed

lemma read_physical_cases:
  assumes "read_physical c m = (r, bs, c')" "errors_positive (cache_fd c)" "0 < m"
  shows "\<exists>d. c' = c\<lparr>cache_fd := d\<rparr> \<and> errors_positive d \<and> file_bytes d = file_bytes (cache_fd c) \<and>
    (if 0 < r then r = int (length bs) \<and> r \<le> m \<and> bs = take (length bs) (drop (file_offset (cache_fd c)) (file_bytes (cache_fd c))) \<and>
       int (file_offset d) = int (file_offset (cache_fd c)) + r
     else file_offset d = file_offset (cache_fd c))"
proof -
  obtain y d where y: "sys_read (cache_fd c) (nat m) = (y, d)" by fastforce
  note k = sys_read_cases [OF y assms(2)]
  show ?thesis
  proof (cases y)
    case (Inl e)
    then show ?thesis using assms(1) k y by (auto simp: read_physical_def)
  next
    case (Inr xs)
    have "length xs \<le> nat m" using k Inr by simp
    then have "int (length xs) \<le> m" using assms(3) by linarith
    moreover have "r = int (length xs)" "bs = xs" "c' = c\<lparr>cache_fd := d\<rparr>" using assms(1) y Inr by (auto simp: read_physical_def)
    ultimately show ?thesis using k Inr by auto
  qed
qed

text \<open>What a hit gives: \<open>r\<close> bytes of the resource at the position.\<close>

definition same_source :: "'s cache \<Rightarrow> 's cache \<Rightarrow> bool" where
  "same_source c c' \<longleftrightarrow> inner c' = inner c \<and> inner_pos c' = inner_pos c \<and> end_pos c' = end_pos c \<and> is_true_eof c' = is_true_eof c \<and>
     read_ahead_limit c' = read_ahead_limit c"

lemma read_cached_ok:
  assumes "store_ok X E c" "find_entry c = Some a" "0 < n"
  shows "\<exists>r bs c'. read_cached c a n = Some (r, bs, c') \<and> store_ok X E c' \<and> same_source c c' \<and>
    (if 0 < r then r \<le> n \<and> bs = take (nat r) (drop (nat (logical_pos c)) X) \<and> logical_pos c + r \<le> E \<and>
       logical_pos c + r \<le> int (length X) \<and> logical_pos c' = logical_pos c + r
     else logical_pos c' = logical_pos c)"
proof -
  let ?e = "cache_entries c ! a" and ?F = "file_bytes (cache_fd c)"
  note le = find_entry_cases [OF assms(1,2)]
  have e: "entry_ok ?F X E ?e" using assms(1) le(1) by (simp add: store_ok_def)
  show ?thesis
  proof (cases "logical_pos c - entry_logical_pos ?e < entry_size ?e")
    case False
    then show ?thesis using assms(1) le(2) by (simp add: read_cached_def Let_def same_source_def)
  next
    case True
    let ?p = "entry_physical_pos ?e + (logical_pos c - entry_logical_pos ?e)" and ?m = "entry_size ?e - (logical_pos c - entry_logical_pos ?e)"
    have p: "0 \<le> ?p" using e le(2) by (simp add: entry_ok_def Let_def)
    obtain r0 c1 where g: "goto_physical c ?p = (r0, c1)" by fastforce
    obtain d where d: "c1 = c\<lparr>cache_fd := d, cache_pos := int (file_offset d)\<rparr>" "errors_positive d" "file_bytes d = ?F"
      "r0 < 0 \<or> r0 = ?p \<and> int (file_offset d) = ?p"
      using goto_physical_cases [OF g assms(1) p] by blast
    have same: "store_ok X E (c\<lparr>cache_fd := d', cache_pos := int (file_offset d'), logical_pos := l, cache_hit := h\<rparr>)"
      if "errors_positive d'" "file_bytes d' = ?F" for d' l h
      using assms(1) that by (simp add: store_ok_def)
    have kept: "store_ok X E (c\<lparr>cache_fd := d', cache_pos := int (file_offset d')\<rparr>)"
      if "errors_positive d'" "file_bytes d' = ?F" for d'
      using assms(1) that by (simp add: store_ok_def)
    obtain r bs c2 where x: "(if r0 \<ge> 0 then read_physical c1 (min n ?m) else (r0, [], c1)) = (r, bs, c2)" by (metis prod_cases3)
    have read: "read_cached c a n = Some (r, bs,
        if r > 0 then c2\<lparr>cache_pos := cache_pos c2 + r, logical_pos := logical_pos c2 + r, cache_hit := cache_hit c2 + 1\<rparr> else c2)"
      using True le(2) g x by (simp add: read_cached_def Let_def)
    show ?thesis
    proof (cases "r0 < 0")
      case neg: True
      then have "c2 = c1" "r < 0" using x by auto
      then show ?thesis using read d(1) kept [OF d(2,3)] by (simp add: same_source_def)
    next
      case False
      then have off: "int (file_offset d) = ?p" "read_physical c1 (min n ?m) = (r, bs, c2)" using d(4) x by simp_all
      have "errors_positive (cache_fd c1)" "0 < min n ?m" using d(1,2) assms(3) True by simp_all
      from read_physical_cases [OF off(2) this] obtain d2 where d2: "c2 = c1\<lparr>cache_fd := d2\<rparr>" "errors_positive d2"
        "file_bytes d2 = file_bytes (cache_fd c1)"
        "if 0 < r then r = int (length bs) \<and> r \<le> min n ?m \<and> bs = take (length bs) (drop (file_offset (cache_fd c1)) (file_bytes (cache_fd c1))) \<and>
           int (file_offset d2) = int (file_offset (cache_fd c1)) + r
         else file_offset d2 = file_offset (cache_fd c1)"
        by (elim exE conjE) (rule that)
      have fd: "cache_fd c1 = d" using d(1) by simp
      note d2 = d2 [unfolded fd d(3) off(1)]
      show ?thesis
      proof (cases "0 < r")
        case pos: True
        then have r: "r = int (length bs)" "r \<le> n" "r \<le> ?m" "bs = take (length bs) (drop (file_offset d) ?F)" "int (file_offset d2) = ?p + r"
          using d2(4) by simp_all
        have "bs = take (length bs) (drop (nat ?p) ?F)" using r(4) off(1) by (metis nat_int)
        note b = entry_bytes [OF e le(2) True this r(3) [unfolded r(1)]]
        have "store_ok X E (c\<lparr>cache_fd := d2, cache_pos := ?p + r, logical_pos := logical_pos c + r, cache_hit := cache_hit c + 1\<rparr>)"
          using same [OF d2(2,3)] r(5) by metis
        then show ?thesis using read pos r(1,2) b d(1) d2(1) off(1) by (simp add: same_source_def)
      next
        case nonpos: False
        then have "file_offset d2 = file_offset d" using d2(4) by simp
        then have "store_ok X E c2" using kept [OF d2(2,3)] d(1) d2(1) by (simp add: store_ok_def)
        then show ?thesis using read nonpos d(1) d2(1) by (simp add: same_source_def)
      qed
    qed
  qed
qed

subsection \<open>The cache over a protocol\<close>

lemma store_ok_frame [simp]:
  "store_ok X E (c\<lparr>inner := s\<rparr>) = store_ok X E c"
  "store_ok X E (c\<lparr>inner_pos := p\<rparr>) = store_ok X E c"
  "store_ok X E (c\<lparr>logical_pos := l\<rparr>) = store_ok X E c"
  "store_ok X E (c\<lparr>end_pos := e\<rparr>) = store_ok X E c"
  "store_ok X E (c\<lparr>is_true_eof := b\<rparr>) = store_ok X E c"
  "store_ok X E (c\<lparr>cache_miss := m\<rparr>) = store_ok X E c"
  by (simp_all add: store_ok_def)

lemma store_ok_wider: "store_ok X E c \<Longrightarrow> E \<le> E' \<Longrightarrow> store_ok X E' c"
  using entry_ok_mono [of _ X E _ E' "[]"] by (auto simp: store_ok_def)

context url_protocol
begin

definition cache_ok :: "'s cache \<Rightarrow> bool" where
  "cache_ok c \<longleftrightarrow> valid (inner c) \<and> store_ok (resource (inner c)) (end_pos c) c \<and> 0 \<le> logical_pos c \<and> logical_pos c \<le> end_pos c"

text \<open>The resource is where \<open>inner_pos\<close> says; or else the position is new, past everything read, and must be sought.\<close>

definition settled :: "'s cache \<Rightarrow> bool" where
  "settled c \<longleftrightarrow> position (inner c) = inner_pos c"

definition ready :: "'s cache \<Rightarrow> bool" where
  "ready c \<longleftrightarrow> settled c \<or> logical_pos c = end_pos c \<and> inner_pos c \<noteq> logical_pos c"

definition same_resource :: "'s cache \<Rightarrow> 's cache \<Rightarrow> bool" where
  "same_resource c c' \<longleftrightarrow> resource (inner c') = resource (inner c)"

definition read_right :: "'s cache \<Rightarrow> int \<Rightarrow> int \<Rightarrow> byte list \<Rightarrow> 's cache \<Rightarrow> bool" where
  "read_right c n r bs c' \<longleftrightarrow> cache_ok c' \<and> ready c' \<and> same_resource c c' \<and> r \<noteq> 0 \<and>
     (r = AVERROR_EOF \<longrightarrow> int (length (resource (inner c))) \<le> logical_pos c) \<and> (0 < r \<or> r = AVERROR_EOF \<longrightarrow> settled c') \<and>
     (if 0 < r then r \<le> n \<and> logical_pos c + r \<le> int (length (resource (inner c))) \<and>
        bs = take (nat r) (drop (nat (logical_pos c)) (resource (inner c))) \<and> logical_pos c' = logical_pos c + r
      else logical_pos c' = logical_pos c)"

lemma seek_inner_ok:
  assumes "cache_ok c" "ready c" "seek_inner url_seek c = (r, c')"
  shows "cache_ok c' \<and> same_resource c c' \<and> logical_pos c' = logical_pos c \<and> end_pos c' = end_pos c \<and> r \<noteq> AVERROR_EOF \<and>
    (if r < 0 then ready c' else settled c' \<and> inner_pos c' = logical_pos c)"
proof (cases "logical_pos c = inner_pos c")
  case True
  then show ?thesis using assms by (auto simp: seek_inner_def ready_def same_resource_def)
next
  case False
  have v: "valid (inner c)" using assms(1) by (simp add: cache_ok_def)
  obtain s where s: "url_seek (inner c) (logical_pos c) SEEK_SET = (r, s)"
    "c' = (if r < 0 then c\<lparr>inner := s\<rparr> else c\<lparr>inner := s, inner_pos := r\<rparr>)"
    using assms(3) False by (auto simp: seek_inner_def split: prod.splits)
  note k = seek_keeps [OF v s(1)] seek_fails [OF v s(1)] seek_moves [OF v s(1)] seek_error [OF v s(1)]
  show ?thesis
  proof (cases "r < 0")
    case True
    then show ?thesis using k s(2) assms(1,2) by (simp add: cache_ok_def same_resource_def ready_def settled_def)
  next
    case r: False
    then show ?thesis using k s(2) assms(1) by (simp add: cache_ok_def same_resource_def settled_def)
  qed
qed

lemma read_inner_ok:
  assumes "\<And>s. tries s = 0" "cache_ok c" "ready c" "0 < n" "n \<le> INT_MAX"
  shows "\<exists>r bs c'. read_inner url_read url_seek c n = Some (r, bs, c') \<and> read_right c n r bs c'"
proof -
  obtain r0 c1 where s: "seek_inner url_seek c = (r0, c1)" by fastforce
  note k = seek_inner_ok [OF assms(2,3) s]
  show ?thesis
  proof (cases "r0 < 0")
    case True
    then show ?thesis using s k by (simp add: read_inner_def read_right_def)
  next
    case False
    then have k: "cache_ok c1" "same_resource c c1" "logical_pos c1 = logical_pos c" "end_pos c1 = end_pos c" "settled c1" "inner_pos c1 = logical_pos c"
      using k by simp_all
    have v: "valid (inner c1)" using k(1) by (simp add: cache_ok_def)
    obtain r bs t where r: "url_read (inner c1) n = Some (r, bs, t)" using read_returns [OF v assms(4)] by blast
    have r0: "r \<notin> {AVERROR EINTR, AVERROR EAGAIN, 0}" using read_tries [OF v assms(4) r] assms(1) by fastforce
    define c2 where "c2 = c1\<lparr>inner := t\<rparr>"
    define c3 where "c3 = (if r = AVERROR_EOF then c2\<lparr>is_true_eof := True\<rparr> else c2)"
    have end_le: "logical_pos c2 \<le> end_pos c2" using k(1) by (simp add: c2_def cache_ok_def)
    have inner3: "inner c3 = t" "logical_pos c3 = logical_pos c" "end_pos c3 = end_pos c" "inner_pos c3 = logical_pos c"
      using k by (simp_all add: c3_def c2_def)
    have t: "valid t" "resource t = resource (inner c)" using read_keeps [OF v assms(4) r] k(2) by (simp_all add: same_resource_def)
    have st: "store_ok (resource (inner c)) (end_pos c) c3"
      using k(1,2,4) by (simp add: cache_ok_def c3_def c2_def same_resource_def)
    have pos: "position (inner c1) = logical_pos c" using k(5,6) by (simp add: settled_def)
    have step: "read_inner url_read url_seek c n =
        (if r \<le> 0 then Some (r, bs, c3)
         else do {
           (ret, c) \<leftarrow> add_entry (c3\<lparr>inner_pos := inner_pos c3 + r, cache_miss := cache_miss c3 + 1\<rparr>) bs;
           Some (r, bs, c\<lparr>logical_pos := logical_pos c + r, end_pos := max (end_pos c) (logical_pos c + r)\<rparr>) })"
      using False r end_le [unfolded c2_def] assms(4) by (simp add: read_inner_def s Let_def c2_def c3_def)
    have l0: "0 \<le> logical_pos c" "logical_pos c \<le> end_pos c" using assms(2) by (simp_all add: cache_ok_def)
    show ?thesis
    proof (cases "r \<le> 0")
      case True
      have "settled c3" using read_stays [OF v assms(4) r True] pos inner3 by (simp add: settled_def)
      moreover have "cache_ok c3" using inner3 t st l0 by (simp add: cache_ok_def)
      moreover have "r = AVERROR_EOF \<Longrightarrow> int (length (resource (inner c))) \<le> logical_pos c"
        using read_end [OF v assms(4)] r pos k(2) by (simp add: same_resource_def)
      ultimately show ?thesis using step True r0 inner3 t by (simp add: read_right_def same_resource_def ready_def)
    next
      case False
      then have b: "r \<le> n" "logical_pos c + r \<le> int (length (resource (inner c)))"
        "bs = take (nat r) (drop (nat (logical_pos c)) (resource (inner c)))" "position t = logical_pos c + r"
        using read_bytes [OF v assms(4) r] pos k(2) by (simp_all add: same_resource_def)
      have "nat r \<le> length (resource (inner c)) - nat (logical_pos c)" using b(2) l0(1) False by linarith
      then have len: "int (length bs) = r" using b(3) False by (simp add: min.absorb2)
      let ?c = "c3\<lparr>inner_pos := inner_pos c3 + r, cache_miss := cache_miss c3 + 1\<rparr>"
      have "store_ok (resource (inner c)) (end_pos c) ?c" using st by simp
      moreover have "bs = take (length bs) (drop (nat (logical_pos ?c)) (resource (inner c)))" using b(3) len inner3(2) by (metis nat_int cache.select_convs(4) cache.surjective cache.update_convs(6) cache.update_convs(11))
      ultimately obtain ret c4 where c4: "add_entry ?c bs = Some (ret, c4)" "store_ok (resource (inner c)) (max (end_pos c) (logical_pos c + r)) c4"
        "outside c4 = outside ?c"
        using add_entry_ok [of "resource (inner c)" "end_pos c" ?c bs] inner3 l0(1) b(1,2) assms(5) len by auto
      have o: "logical_pos c4 = logical_pos c" "inner c4 = t" "end_pos c4 = end_pos c" "inner_pos c4 = logical_pos c + r"
        using c4(3) inner3 by (simp_all add: outside_def)
      let ?c' = "c4\<lparr>logical_pos := logical_pos c4 + r, end_pos := max (end_pos c4) (logical_pos c4 + r)\<rparr>"
      have "settled ?c'" using o b(4) by (simp add: settled_def)
      moreover have "cache_ok ?c'" using o t c4(2) l0 False by (simp add: cache_ok_def)
      ultimately show ?thesis using step False c4(1) b(1,2,3) o t by (simp add: read_right_def same_resource_def ready_def)
    qed
  qed
qed

lemma cache_read_ok:
  assumes "\<And>s. tries s = 0" "cache_ok c" "ready c" "0 < n" "n \<le> INT_MAX"
  shows "\<exists>r bs c'. cache_read url_read url_seek c n = Some (r, bs, c') \<and> read_right c n r bs c'"
proof (cases "find_entry c")
  case None
  then show ?thesis using read_inner_ok [OF assms] by (simp add: cache_read_def)
next
  case (Some a)
  let ?X = "resource (inner c)"
  have st: "store_ok ?X (end_pos c) c" and l0: "0 \<le> logical_pos c" "logical_pos c \<le> end_pos c" "valid (inner c)"
    using assms(2) by (simp_all add: cache_ok_def)
  obtain r bs c1 where x: "read_cached c a n = Some (r, bs, c1)" and k: "store_ok ?X (end_pos c) c1 \<and> same_source c c1 \<and>
    (if 0 < r then r \<le> n \<and> bs = take (nat r) (drop (nat (logical_pos c)) ?X) \<and> logical_pos c + r \<le> end_pos c \<and>
       logical_pos c + r \<le> int (length ?X) \<and> logical_pos c1 = logical_pos c + r
     else logical_pos c1 = logical_pos c)"
    using read_cached_ok [OF st Some assms(4)] by (elim exE conjE) (rule that, assumption, intro conjI)
  have src: "inner c1 = inner c" "inner_pos c1 = inner_pos c" "end_pos c1 = end_pos c" using k by (simp_all add: same_source_def)
  show ?thesis
  proof (cases "0 < r")
    case True
    then have hit: "r \<le> n" "bs = take (nat r) (drop (nat (logical_pos c)) ?X)" "logical_pos c + r \<le> end_pos c"
      "logical_pos c + r \<le> int (length ?X)" "logical_pos c1 = logical_pos c + r"
      using k by simp_all
    have "settled c" using assms(3) hit(3) True by (simp add: ready_def)
    then have "settled c1" using src by (simp add: settled_def)
    moreover have "cache_ok c1" using k src hit(3,5) l0 True by (simp add: cache_ok_def)
    ultimately show ?thesis using True x Some hit src by (simp add: cache_read_def read_right_def ready_def same_resource_def)
  next
    case False
    then have l: "logical_pos c1 = logical_pos c" using k by simp
    have "cache_ok c1" using k src l l0 by (simp add: cache_ok_def)
    moreover have "ready c1" using assms(3) src l by (simp add: ready_def settled_def)
    ultimately obtain r' bs' c2 where "read_inner url_read url_seek c1 n = Some (r', bs', c2)" "read_right c1 n r' bs' c2"
      using read_inner_ok [OF assms(1) _ _ assms(4,5)] by blast
    moreover have "read_right c1 n r' bs' c2 = read_right c n r' bs' c2"
      by (simp add: read_right_def same_resource_def src l)
    ultimately show ?thesis using False x Some by (simp add: cache_read_def)
  qed
qed

text \<open>Seeking to a position: it is reached, or an error leaves a state from which the reader may go on.\<close>

definition sought :: "'s cache \<Rightarrow> int \<Rightarrow> int \<Rightarrow> 's cache \<Rightarrow> bool" where
  "sought c pos ret c' \<longleftrightarrow> cache_ok c' \<and> ready c' \<and> same_resource c c' \<and> (0 \<le> ret \<longrightarrow> ret = pos \<and> logical_pos c' = pos)"

lemma read_ahead_ok:
  assumes "\<And>s. tries s = 0"
  shows "cache_ok c \<Longrightarrow> ready c \<Longrightarrow> logical_pos c \<le> pos \<Longrightarrow> \<exists>ret c'. read_ahead url_read url_seek c pos = Some (ret, c') \<and> sought c pos ret c'"
proof (induction "nat (pos - logical_pos c)" arbitrary: c rule: less_induct)
  case less
  show ?case
  proof (cases "logical_pos c < pos")
    case False
    then show ?thesis using less.prems by (subst read_ahead.simps) (simp add: sought_def same_resource_def)
  next
    case True
    let ?n = "min 32768 (pos - logical_pos c)"
    obtain r bs c1 where r: "cache_read url_read url_seek c ?n = Some (r, bs, c1)" "read_right c ?n r bs c1"
      using cache_read_ok [OF assms less.prems(1,2), of ?n] True by fastforce
    show ?thesis
    proof (cases "r < 0")
      case neg: True
      then show ?thesis using True r by (subst read_ahead.simps) (simp add: read_right_def sought_def)
    next
      case False
      then have k: "cache_ok c1" "ready c1" "same_resource c c1" "0 < r" "r \<le> pos - logical_pos c" "logical_pos c1 = logical_pos c + r"
        using r(2) by (auto simp: read_right_def)
      then have "nat (pos - logical_pos c1) < nat (pos - logical_pos c)" "logical_pos c1 \<le> pos" using True by simp_all
      then obtain ret c2 where "read_ahead url_read url_seek c1 pos = Some (ret, c2)" "sought c1 pos ret c2" using less.hyps k(1,2) by blast
      then show ?thesis using True False r(1) k(3) by (subst read_ahead.simps) (simp add: sought_def same_resource_def)
    qed
  qed
qed

lemma seek_set_ok:
  assumes "\<And>s. tries s = 0" "cache_ok c" "settled c"
  shows "\<exists>ret c'. seek_set url_read url_seek c pos = Some (ret, c') \<and> sought c pos ret c'"
proof (cases "0 \<le> pos \<and> pos < end_pos c")
  case True
  then show ?thesis using assms(2,3)
    by (simp add: seek_set_def sought_def cache_ok_def ready_def settled_def same_resource_def)
next
  case False
  have v: "valid (inner c)" using assms(2) by (simp add: cache_ok_def)
  obtain ret s where s: "url_seek (inner c) pos SEEK_SET = (ret, s)" by fastforce
  let ?c = "c\<lparr>inner := s\<rparr>"
  note k = seek_keeps [OF v s] seek_fails [OF v s] seek_moves [OF v s]
  have ok: "cache_ok ?c" "same_resource c ?c" using assms(2) k(1) by (simp_all add: cache_ok_def same_resource_def)
  show ?thesis
  proof (cases "ret < 0")
    case True
    then have "settled ?c" using assms(3) k(2) by (simp add: settled_def)
    then have r: "ready ?c" by (simp add: ready_def)
    have step: "seek_set url_read url_seek c pos =
        (if logical_pos c \<le> pos \<and> (pos - logical_pos c \<le> read_ahead_limit c \<or> read_ahead_limit c < 0)
         then read_ahead url_read url_seek ?c pos else Some (ret, ?c))"
      using False True s by (auto simp: seek_set_def seek_done_def)
    have same: "sought ?c pos x c' = sought c pos x c'" for x c'
      using ok(2) by (simp add: sought_def same_resource_def)
    show ?thesis
    proof (cases "logical_pos c \<le> pos \<and> (pos - logical_pos c \<le> read_ahead_limit c \<or> read_ahead_limit c < 0)")
      case True
      then show ?thesis using step read_ahead_ok [OF assms(1) ok(1) r, of pos] same by simp
    next
      case False
      then have "seek_set url_read url_seek c pos = Some (ret, ?c)" using step by argo
      then show ?thesis using \<open>ret < 0\<close> ok r by (simp add: sought_def)
    qed
  next
    case nonneg: False
    then have r: "ret = pos" "position s = pos" using k(3) by simp_all
    let ?c' = "?c\<lparr>logical_pos := pos, end_pos := max (end_pos c) pos\<rparr>"
    have "end_pos c \<le> pos" using False nonneg r(1) by simp
    then have "cache_ok ?c'" using assms(2) k(1) r nonneg store_ok_wider [of "resource (inner c)" "end_pos c" ?c' pos]
      by (simp add: cache_ok_def max_def)
    moreover have "ready ?c'" using r \<open>end_pos c \<le> pos\<close> by (auto simp: ready_def settled_def)
    moreover have "seek_set url_read url_seek c pos = Some (pos, ?c')"
      using False nonneg s r(1) by (simp add: seek_set_def seek_done_def)
    ultimately show ?thesis using k(1) by (simp add: sought_def same_resource_def)
  qed
qed

end

subsection \<open>A reader that seeks and reads\<close>

text \<open>Each request is a position to seek first, if any, and the number of bytes to read there; an error ends the run.\<close>

datatype cache_reply = Got "byte list" | At_end | Failed int

fun cache_reader :: "'s reader \<Rightarrow> 's seeker \<Rightarrow> 's cache \<Rightarrow> (int option \<times> int) list \<Rightarrow> cache_reply list option" where
  "cache_reader inner_read inner_seek c [] = Some []"
| "cache_reader inner_read inner_seek c ((go, n) # reqs) = do {
     (ret, c) \<leftarrow> (case go of None \<Rightarrow> Some (0, c) | Some pos \<Rightarrow> cache_seek inner_read inner_seek c pos SEEK_SET);
     if ret < 0 then Some [Failed ret]
     else do {
       (r, bs, c) \<leftarrow> cache_read inner_read inner_seek c n;
       if r < 0 \<and> r \<noteq> AVERROR_EOF then Some [Failed r]
       else do {
         rs \<leftarrow> cache_reader inner_read inner_seek c reqs;
         Some ((if r < 0 then At_end else Got bs) # rs) } } }"

text \<open>The right replies for the bytes \<open>X\<close>: what is read are the bytes at the position, the end is reported at the end only.\<close>

fun right_replies :: "byte list \<Rightarrow> int \<Rightarrow> (int option \<times> int) list \<Rightarrow> cache_reply list \<Rightarrow> bool" where
  "right_replies X p [] rs \<longleftrightarrow> rs = []"
| "right_replies X p (req # reqs) [] \<longleftrightarrow> False"
| "right_replies X p ((go, n) # reqs) (Got bs # rs) \<longleftrightarrow>
     (let q = (case go of None \<Rightarrow> p | Some q \<Rightarrow> q)
      in 0 \<le> q \<and> bs \<noteq> [] \<and> int (length bs) \<le> n \<and> q + int (length bs) \<le> int (length X) \<and>
         bs = take (length bs) (drop (nat q) X) \<and> right_replies X (q + int (length bs)) reqs rs)"
| "right_replies X p ((go, n) # reqs) (At_end # rs) \<longleftrightarrow>
     (let q = (case go of None \<Rightarrow> p | Some q \<Rightarrow> q) in int (length X) \<le> q \<and> right_replies X q reqs rs)"
| "right_replies X p (req # reqs) (Failed e # rs) \<longleftrightarrow> e < 0 \<and> rs = []"

context url_protocol
begin

lemma reader_right:
  assumes "\<And>s. tries s = 0"
  shows "cache_ok c \<Longrightarrow> settled c \<Longrightarrow> \<forall>req \<in> set reqs. 0 < snd req \<and> snd req \<le> INT_MAX \<Longrightarrow>
    \<exists>rs. cache_reader url_read url_seek c reqs = Some rs \<and> right_replies (resource (inner c)) (logical_pos c) reqs rs"
proof (induction reqs arbitrary: c)
  case Nil
  then show ?case by simp
next
  case (Cons req reqs)
  obtain go n where req: "req = (go, n)" by fastforce
  let ?q = "case go of None \<Rightarrow> logical_pos c | Some q \<Rightarrow> q" and ?X = "resource (inner c)"
  have n: "0 < n" "n \<le> INT_MAX" using Cons.prems(3) req by auto
  have rest: "\<forall>req \<in> set reqs. 0 < snd req \<and> snd req \<le> INT_MAX" using Cons.prems(3) by simp
  have "\<exists>ret c1. (case go of None \<Rightarrow> Some (0, c) | Some pos \<Rightarrow> cache_seek url_read url_seek c pos SEEK_SET) = Some (ret, c1) \<and>
      cache_ok c1 \<and> ready c1 \<and> resource (inner c1) = ?X \<and> (0 \<le> ret \<longrightarrow> logical_pos c1 = ?q)"
  proof (cases go)
    case None
    then show ?thesis using Cons.prems(1,2) by (simp add: ready_def)
  next
    case (Some pos)
    obtain ret c1 where "seek_set url_read url_seek c pos = Some (ret, c1)" "sought c pos ret c1"
      using seek_set_ok [OF assms Cons.prems(1,2)] by blast
    then show ?thesis using Some by (simp add: cache_seek_def sought_def same_resource_def)
  qed
  then obtain ret c1 where s: "(case go of None \<Rightarrow> Some (0, c) | Some pos \<Rightarrow> cache_seek url_read url_seek c pos SEEK_SET) = Some (ret, c1)"
    "cache_ok c1" "ready c1" "resource (inner c1) = ?X" "0 \<le> ret \<longrightarrow> logical_pos c1 = ?q"
    by blast
  obtain r bs c2 where r: "cache_read url_read url_seek c1 n = Some (r, bs, c2)" "read_right c1 n r bs c2"
    using cache_read_ok [OF assms s(2,3) n] by blast
  consider "ret < 0" | "0 \<le> ret" "r < 0" "r \<noteq> AVERROR_EOF" | "0 \<le> ret" "r = AVERROR_EOF \<or> 0 < r"
    using r(2) by (fastforce simp: read_right_def)
  then show ?case
  proof cases
    case 3
    then have k: "cache_ok c2" "settled c2" "resource (inner c2) = ?X" "logical_pos c1 = ?q" "0 \<le> ?q"
      using r(2) s(2,4,5) by (auto simp: read_right_def same_resource_def cache_ok_def)
    obtain rs where rs: "cache_reader url_read url_seek c2 reqs = Some rs" "right_replies ?X (logical_pos c2) reqs rs"
      using Cons.IH [OF k(1,2) rest] k(3) by auto
    have run: "cache_reader url_read url_seek c (req # reqs) = Some ((if r < 0 then At_end else Got bs) # rs)"
      using s(1) r(1) rs(1) 3 by (auto simp: req)
    show ?thesis
    proof (cases "r = AVERROR_EOF")
      case True
      then have "int (length ?X) \<le> ?q" "logical_pos c2 = ?q" using r(2) s(4) k(4) by (simp_all add: read_right_def)
      then show ?thesis using run rs(2) True by (simp add: req Let_def)
    next
      case False
      then have b: "0 < r" "r \<le> n" "?q + r \<le> int (length ?X)" "bs = take (nat r) (drop (nat ?q) ?X)" "logical_pos c2 = ?q + r"
        using 3(2) r(2) s(4) k(4) by (simp_all add: read_right_def)
      have "nat r \<le> length ?X - nat ?q" using b(1,3) k(5) by linarith
      then have len: "length bs = nat r" using b(4) by (simp add: min.absorb2)
      then have "bs \<noteq> []" using b(1) by auto
      then show ?thesis using run rs(2) b len k(5) by (simp add: req Let_def)
    qed
  qed (use s(1) r(1) in \<open>auto simp: req\<close>)
qed

end

subsection \<open>Properties\<close>

abbreviation read_file :: "FileContext URLContext reader" where
  "read_file \<equiv> ffurl_read (\<lambda>c n. Some (file_read c n))"

abbreviation seek_file :: "FileContext URLContext seeker" where
  "seek_file \<equiv> ffurl_seek (Some file_seek)"

text \<open>C17. A reader of \<open>cache:\<close> over a local file that seeks to a position, if it likes, before each read gets what it would
  get from the file itself: every read returns, no assertion fails, the bytes are those of the file at the position asked
  for, and the end is reported at the end only.  This holds whatever system calls on either file fail or transfer
  less than asked, whatever allocations fail, and although entries overlap, grow and wrap.\<close>

theorem cache_reads_the_file:
  assumes "file_ok (priv_data h)" "file_offset (file_fd (priv_data h)) = 0" "url_flags h AND AVIO_FLAG_READ \<noteq> 0"
    and "url_flags h AND AVIO_FLAG_NONBLOCK = 0" "errors_positive fd" "file_offset fd = 0"
    and "\<forall>req \<in> set reqs. 0 < snd req \<and> snd req \<le> INT_MAX"
  shows "\<exists>rs. cache_reader read_file seek_file (cache_open fd h limit memory) reqs = Some rs \<and>
    right_replies (file_bytes (file_fd (priv_data h))) 0 reqs rs"
proof -
  let ?c = "cache_open fd h limit memory"
  have "local_file.ffurl_ok h" using assms(1,3,4) by (simp add: local_file.ffurl_ok_def)
  then have "file_url.cache_ok ?c"
    using assms(5,6) by (simp add: file_url.cache_ok_def store_ok_def cache_open_def)
  moreover have "file_url.settled ?c" using assms(2) by (simp add: file_url.settled_def cache_open_def)
  ultimately show ?thesis
    using file_url.reader_right [OF refl _ _ assms(7), of ?c] by (simp add: cache_open_def)
qed

definition demo_url :: "sys_reply list \<Rightarrow> FileContext URLContext" where
  "demo_url rs = \<lparr>priv_data = \<lparr>file_fd = \<lparr>file_bytes = [1, 2, 3, 4, 5, 6], file_offset = 0, replies = rs\<rparr>, blocksize = 4, follow = False, is_fifo = False\<rparr>,
     url_flags = AVIO_FLAG_READ, max_packet_size = 0, rw_timeout = 0, interrupts = [], clock = []\<rparr>"

definition demo_tmp :: descriptor where
  "demo_tmp = \<lparr>file_bytes = [], file_offset = 0, replies = [Transfers 0, Transfers 1]\<rparr>"

theorem cache_reads_the_file_witness:
  "\<exists>rs. cache_reader read_file seek_file (cache_open demo_tmp (demo_url [Fails EINTR, Transfers 1]) 0 []) [(None, 3), (Some 1, 3), (Some 5, 2)] = Some rs \<and>
    right_replies [1, 2, 3, 4, 5, 6] 0 [(None, 3), (Some 1, 3), (Some 5, 2)] rs"
  using cache_reads_the_file [of "demo_url [Fails EINTR, Transfers 1]" demo_tmp "[(None, 3), (Some 1, 3), (Some 5, 2)]" 0 "[]"]
  by (simp add: demo_url_def demo_tmp_def file_ok_def errors_positive_def del: cache_reader.simps right_replies.simps)

text \<open>A seek to \<open>q\<close>, then one back to where the cache last left the resource, then a read.\<close>

definition there_and_back :: "'s reader \<Rightarrow> 's seeker \<Rightarrow> 's cache \<Rightarrow> int \<Rightarrow> int \<Rightarrow> (int \<times> int \<times> int \<times> byte list \<times> 's cache) option" where
  "there_and_back inner_read inner_seek c q n = do {
     (there, c1) \<leftarrow> cache_seek inner_read inner_seek c q SEEK_SET;
     (again, c2) \<leftarrow> cache_seek inner_read inner_seek c1 (inner_pos c) SEEK_SET;
     (r, bs, c3) \<leftarrow> cache_read inner_read inner_seek c2 n;
     Some (there, again, r, bs, c3) }"

text \<open>No piece of the cache holds the byte at the position.\<close>

definition uncovered :: "'s cache \<Rightarrow> int \<Rightarrow> bool" where
  "uncovered c p \<longleftrightarrow>
     (\<forall>a \<in> elems (root c). let e = cache_entries c ! a in \<not> (entry_logical_pos e \<le> p \<and> p < entry_logical_pos e + entry_size e))"

text \<open>Storing a piece returns, whatever its bytes are.\<close>

definition tree_ok :: "'s cache \<Rightarrow> bool" where
  "tree_ok c \<longleftrightarrow> well_formed (\<lambda>a. entry_logical_pos (cache_entries c ! a)) (root c) \<and> (\<forall>a \<in> elems (root c). a < length (cache_entries c))"

lemma store_ok_tree: "store_ok X E c \<Longrightarrow> tree_ok c"
  by (simp add: store_ok_def tree_ok_def)

lemma new_entry_returns:
  assumes "tree_ok c"
  shows "\<exists>ret c'. new_entry c pos n = Some (ret, c') \<and> outside c' = outside c"
proof -
  obtain b1 c1 where m1: "av_malloc c = (b1, c1)" by fastforce
  obtain b2 c2 where m2: "av_malloc c1 = (b2, c2)" by fastforce
  obtain m where c2: "c2 = c\<lparr>mallocs := m\<rparr>" using malloc_keeps [OF m1] malloc_keeps [OF m2] by auto
  define a where "a = length (cache_entries c)"
  define es where "es = cache_entries c @ [\<lparr>entry_logical_pos = logical_pos c, entry_physical_pos = pos, entry_size = n\<rparr>]"
  define k where "k = (\<lambda>a. entry_logical_pos (es ! a))"
  have "es ! b = cache_entries c ! b" if "b \<in> elems (root c)" for b
    using assms that by (simp add: tree_ok_def es_def nth_append)
  then have wf: "well_formed k (root c)"
    using assms keys_cong [of "root c" k "\<lambda>a. entry_logical_pos (cache_entries c ! a)"] by (simp add: tree_ok_def k_def)
  obtain ret t node where "av_tree_insert (\<lambda>b. entry_cmp es (entry_logical_pos (es ! b))) (root c) a (Some (fresh_node a)) = Some (ret, t, node)"
    using tree_insert_ok [OF compares_addresses wf [unfolded k_def], of a a] by (auto split: if_splits)
  then show ?thesis by (auto simp: new_entry_def m1 m2 c2 es_def a_def outside_def)
qed

lemma record_entry_returns:
  assumes "tree_ok c"
  shows "\<exists>ret c'. record_entry c pos n = Some (ret, c') \<and> outside c' = outside c"
  using new_entry_returns [OF assms, of pos n]
  by (cases "find_entry c") (auto simp: record_entry_def Let_def outside_def)

lemma add_entry_returns:
  assumes "tree_ok c"
  shows "\<exists>ret c'. add_entry c bs = Some (ret, c') \<and> outside c' = outside c"
proof -
  obtain x d where x: "sys_lseek (cache_fd c) 0 SEEK_END = (x, d)" by fastforce
  obtain y d1 where y: "sys_write d bs = (y, d1)" by fastforce
  show ?thesis
  proof (cases "\<exists>pos m. x = Inr pos \<and> y = Inr m")
    case True
    then obtain pos m where pm: "x = Inr pos" "y = Inr m" by blast
    let ?c = "c\<lparr>cache_fd := d1, cache_pos := pos + int m\<rparr>"
    have "tree_ok ?c" using assms by (simp add: tree_ok_def)
    from record_entry_returns [OF this, of pos "int m"] show ?thesis
      by (auto simp: add_entry_def x y pm outside_def)
  next
    case False
    then show ?thesis using x y by (cases x; cases y) (auto simp: add_entry_def outside_def)
  qed
qed

context url_protocol
begin

text \<open>A miss where the cache takes the resource to stand: it delivers the next bytes of the resource, wherever that is.\<close>

lemma miss_reads_next:
  assumes "valid (inner c)" "tree_ok c" "logical_pos c = inner_pos c" "logical_pos c \<le> end_pos c" "0 < n"
  shows "\<exists>r bs c'. read_inner url_read url_seek c n = Some (r, bs, c') \<and>
    (0 < r \<longrightarrow> position (inner c) + r \<le> int (length (resource (inner c))) \<and>
       bs = take (nat r) (drop (nat (position (inner c))) (resource (inner c))) \<and> logical_pos c' = logical_pos c + r)"
proof -
  have s: "seek_inner url_seek c = (0, c)" using assms(3) by (simp add: seek_inner_def)
  obtain r bs s where r: "url_read (inner c) n = Some (r, bs, s)" using read_returns [OF assms(1,5)] by blast
  show ?thesis
  proof (cases "0 < r")
    case True
    let ?c = "c\<lparr>inner := s, inner_pos := inner_pos c + r, cache_miss := cache_miss c + 1\<rparr>"
    have "tree_ok ?c" using assms(2) by (simp add: tree_ok_def)
    then obtain ret c1 where a: "add_entry ?c bs = Some (ret, c1)" "outside c1 = outside ?c" using add_entry_returns by blast
    have "logical_pos c1 = logical_pos c" using a(2) by (simp add: outside_def)
    then show ?thesis using True a(1) s r read_bytes [OF assms(1,5) r True] by (simp add: read_inner_def)
  next
    case False
    then show ?thesis using s r assms(4) by (auto simp: read_inner_def Let_def)
  qed
qed

lemma stale_read:
  assumes "cache_ok c" "settled c" "uncovered c (inner_pos c)" "0 < n"
    and "end_pos c \<le> q" "inner_pos c < q" "fst (url_seek (inner c) q SEEK_SET) = q"
  shows "\<exists>r bs c'. there_and_back url_read url_seek c q n = Some (q, inner_pos c, r, bs, c') \<and>
    (0 < r \<longrightarrow> q + r \<le> int (length (resource (inner c))) \<and> bs = take (nat r) (drop (nat q) (resource (inner c))) \<and>
       logical_pos c' = inner_pos c + r)"
proof -
  let ?p = "inner_pos c" and ?X = "resource (inner c)"
  have v: "valid (inner c)" using assms(1) by (simp add: cache_ok_def)
  have p: "0 \<le> ?p" using position_nonneg [OF v] assms(2) by (simp add: settled_def)
  obtain s where s: "url_seek (inner c) q SEEK_SET = (q, s)" using assms(7) by (metis prod.collapse)
  have ks: "valid s" "resource s = ?X" "position s = q"
    using seek_keeps [OF v s] seek_moves [OF v s] assms(6) p by simp_all
  define c1 where "c1 = c\<lparr>inner := s, logical_pos := q, end_pos := q\<rparr>"
  define c2 where "c2 = c1\<lparr>logical_pos := ?p\<rparr>"
  have first: "cache_seek url_read url_seek c q SEEK_SET = Some (q, c1)"
    using s assms(5,6) p by (simp add: cache_seek_def seek_set_def seek_done_def c1_def)
  have again: "cache_seek url_read url_seek c1 ?p SEEK_SET = Some (?p, c2)"
    using assms(6) p by (simp add: cache_seek_def seek_set_def c1_def c2_def)
  have st: "store_ok ?X q c2" using assms(1,5) store_ok_wider [of ?X "end_pos c" c q] by (simp add: cache_ok_def c1_def c2_def)
  have miss: "\<exists>r bs c'. read_inner url_read url_seek c2 n = Some (r, bs, c') \<and>
      (0 < r \<longrightarrow> q + r \<le> int (length ?X) \<and> bs = take (nat r) (drop (nat q) ?X) \<and> logical_pos c' = ?p + r)"
    using miss_reads_next [of c2 n] store_ok_tree [OF st] ks assms(4,6) by (simp add: c1_def c2_def)
  have "cache_read url_read url_seek c2 n = read_inner url_read url_seek c2 n"
  proof (cases "find_entry c2")
    case (Some a)
    note a = find_entry_cases [OF st Some]
    then have "\<not> ?p < entry_logical_pos (cache_entries c2 ! a) + entry_size (cache_entries c2 ! a)"
      using assms(3) by (auto simp: uncovered_def Let_def c1_def c2_def)
    then have "read_cached c2 a n = Some (0, [], c2)" using a(2) by (simp add: read_cached_def Let_def c1_def c2_def)
    then show ?thesis using Some by (simp add: cache_read_def)
  qed (simp add: cache_read_def)
  then show ?thesis using miss first again by (auto simp: there_and_back_def)
qed

end

text \<open>The cache loses its place.  Take any state in which \<open>cache:\<close> over a local file knows where the file stands (as after
  \<open>cache_open\<close> and after every successful read), and no piece for that position.  A reader seeks to a new
  position \<open>q\<close>: the resource moves, but \<open>inner_pos\<close> is not set.  When the reader goes back to the old position and
  reads, every byte it gets is one of those at \<open>q\<close> instead, and its position advances as if they were the right ones.\<close>

lemma cache_stale_position:
  assumes "file_url.cache_ok c" "file_url.settled c" "uncovered c (inner_pos c)" "0 < n"
    and "end_pos c \<le> q" "inner_pos c < q" "fst (seek_file (inner c) q SEEK_SET) = q"
  shows "\<exists>r bs c'. there_and_back read_file seek_file c q n = Some (q, inner_pos c, r, bs, c') \<and>
    (0 < r \<longrightarrow> q + r \<le> int (length (file_bytes (file_fd (priv_data (inner c))))) \<and>
       bs = take (nat r) (drop (nat q) (file_bytes (file_fd (priv_data (inner c))))) \<and> logical_pos c' = inner_pos c + r)"
  by (rule file_url.stale_read [OF assms])

text \<open>From the start of a file of six bytes to its position 4 and back: the bytes 5 and 6 are delivered for the position 0.\<close>

lemma cache_stale_position_witness:
  "(\<exists>r bs c'. there_and_back read_file seek_file (cache_open demo_tmp (demo_url []) 0 []) 4 2 = Some (4, 0, r, bs, c') \<and>
      (0 < r \<longrightarrow> bs = take (nat r) (drop 4 [1, 2, 3, 4, 5, 6]) \<and> logical_pos c' = r)) \<and>
   map_option (\<lambda>(there, again, r, bs, c'). (r, bs)) (there_and_back read_file seek_file (cache_open demo_tmp (demo_url []) 0 []) 4 2) =
     Some (2, [5, 6])"
proof -
  let ?c = "cache_open demo_tmp (demo_url []) 0 []"
  have ok: "local_file.ffurl_ok (demo_url [])" by (simp add: local_file.ffurl_ok_def demo_url_def file_ok_def errors_positive_def)
  then have "file_url.cache_ok ?c"
    by (simp add: file_url.cache_ok_def store_ok_def cache_open_def demo_tmp_def errors_positive_def)
  moreover have "file_url.settled ?c" by (simp add: file_url.settled_def cache_open_def demo_url_def)
  moreover have "uncovered ?c (inner_pos ?c)" by (simp add: uncovered_def cache_open_def)
  moreover have "fst (seek_file (inner ?c) 4 SEEK_SET) = 4" by code_simp
  ultimately have "\<exists>r bs c'. there_and_back read_file seek_file ?c 4 2 = Some (4, inner_pos ?c, r, bs, c') \<and>
      (0 < r \<longrightarrow> 4 + r \<le> int (length (file_bytes (file_fd (priv_data (inner ?c))))) \<and>
         bs = take (nat r) (drop (nat 4) (file_bytes (file_fd (priv_data (inner ?c))))) \<and> logical_pos c' = inner_pos ?c + r)"
    using cache_stale_position [of ?c 2 4] by (simp add: cache_open_def)
  then have "\<exists>r bs c'. there_and_back read_file seek_file ?c 4 2 = Some (4, 0, r, bs, c') \<and>
      (0 < r \<longrightarrow> bs = take (nat r) (drop 4 [1, 2, 3, 4, 5, 6]) \<and> logical_pos c' = r)"
    by (auto simp: cache_open_def demo_url_def)
  moreover have "map_option (\<lambda>(there, again, r, bs, c'). (r, bs)) (there_and_back read_file seek_file ?c 4 2) = Some (2, [5, 6])"
    by code_simp
  ultimately show ?thesis by (rule conjI)
qed

end
