(* ===== verification/Aviobuf.thy ===== *)
theory Aviobuf
  imports Avio Bytes
begin

section \<open>Buffered input and output: \<open>libavformat/aviobuf.c\<close>\<close>

text \<open>
  An \<open>AVIOContext\<close> puts a buffer in front of a protocol, for reading or for writing.  The pointers into the buffer are
  offsets from its start; the callbacks are a record, and what they work on is the field \<open>opaque\<close>.  A callback may not
  return, so that results are options.
\<close>

datatype AVIODataMarkerType = AVIO_DATA_MARKER_HEADER | AVIO_DATA_MARKER_SYNC_POINT | AVIO_DATA_MARKER_BOUNDARY_POINT
  | AVIO_DATA_MARKER_UNKNOWN | AVIO_DATA_MARKER_TRAILER | AVIO_DATA_MARKER_FLUSH_POINT

abbreviation (input) IO_BUFFER_SIZE :: nat where "IO_BUFFER_SIZE \<equiv> 32768"
abbreviation (input) SHORT_SEEK_THRESHOLD :: int where "SHORT_SEEK_THRESHOLD \<equiv> 4096"
abbreviation (input) AV_NOPTS_VALUE :: int where "AV_NOPTS_VALUE \<equiv> INT64_MIN"
abbreviation (input) EINVAL :: int where "EINVAL \<equiv> 22"
abbreviation (input) ENOSYS :: int where "ENOSYS \<equiv> 38"
abbreviation (input) EPIPE :: int where "EPIPE \<equiv> 32"

record 's callbacks =
  read_packet :: "'s reader option"
  write_packet :: "'s writer option"
  write_data_type :: "('s \<Rightarrow> byte list \<Rightarrow> AVIODataMarkerType \<Rightarrow> int \<Rightarrow> (int \<times> 's) option) option"
  seek_cb :: "'s seeker option"
  short_seek_get :: "('s \<Rightarrow> int) option"

record 's AVIOContext =
  buffer :: "byte list"
  buf_ptr :: nat
  buf_end :: nat
  buf_ptr_max :: nat
  orig_buffer_size :: nat
  opaque :: 's
  io_pos :: int
  eof_reached :: bool
  write_flag :: bool
  io_max_packet_size :: nat
  io_min_packet_size :: nat
  checksum :: int
  checksum_ptr :: nat
  update_checksum :: "(int \<Rightarrow> byte list \<Rightarrow> int) option"
  io_error :: int
  seekable_normal :: bool
  direct :: bool
  bytes_read :: int
  seek_count :: int
  writeout_count :: int
  short_seek_threshold :: int
  ignore_boundary_point :: bool
  current_type :: AVIODataMarkerType
  last_time :: int
  io_written :: int

abbreviation buffer_size :: "'s AVIOContext \<Rightarrow> nat" where "buffer_size s \<equiv> length (buffer s)"

text \<open>Bytes of the buffer from one pointer to another, and storing some at a pointer.\<close>

definition between :: "nat \<Rightarrow> nat \<Rightarrow> byte list \<Rightarrow> byte list" where
  "between a b xs = take (b - a) (drop a xs)"

definition stored :: "byte list \<Rightarrow> nat \<Rightarrow> byte list \<Rightarrow> byte list" where
  "stored xs off bs = take off xs @ bs @ drop (off + length bs) xs"

subsection \<open>Setting up\<close>

definition url_resetbuf :: "'s AVIOContext \<Rightarrow> bool \<Rightarrow> 's AVIOContext" where
  "url_resetbuf s w = (if w then s\<lparr>buf_end := buffer_size s, write_flag := True\<rparr> else s\<lparr>buf_end := 0, write_flag := False\<rparr>)"

definition ffio_init_context :: "byte list \<Rightarrow> bool \<Rightarrow> 's \<Rightarrow> 's callbacks \<Rightarrow> 's AVIOContext" where
  "ffio_init_context buf w opq cb =
     (let s = \<lparr>buffer = buf, buf_ptr = 0, buf_end = 0, buf_ptr_max = 0, orig_buffer_size = length buf, opaque = opq, io_pos = 0,
            eof_reached = False, write_flag = False, io_max_packet_size = 0, io_min_packet_size = 0, checksum = 0, checksum_ptr = 0,
            update_checksum = None, io_error = 0, seekable_normal = (seek_cb cb \<noteq> None), direct = False, bytes_read = 0,
            seek_count = 0, writeout_count = 0, short_seek_threshold = SHORT_SEEK_THRESHOLD, ignore_boundary_point = False,
            current_type = AVIO_DATA_MARKER_UNKNOWN, last_time = AV_NOPTS_VALUE, io_written = 0\<rparr>;
          s = url_resetbuf s w
      in if read_packet cb = None \<and> \<not> w then s\<lparr>io_pos := int (length buf), buf_end := length buf\<rparr> else s)"

definition ffio_set_buf_size :: "'s AVIOContext \<Rightarrow> byte list \<Rightarrow> 's AVIOContext" where
  "ffio_set_buf_size s buf =
     url_resetbuf (s\<lparr>buffer := buf, orig_buffer_size := length buf, buf_ptr := 0, buf_ptr_max := 0\<rparr>) (write_flag s)"

definition ffio_init_checksum :: "'s AVIOContext \<Rightarrow> (int \<Rightarrow> byte list \<Rightarrow> int) option \<Rightarrow> int \<Rightarrow> 's AVIOContext" where
  "ffio_init_checksum s update c =
     (let s = s\<lparr>update_checksum := update\<rparr>
      in if update \<noteq> None then s\<lparr>checksum := c, checksum_ptr := buf_ptr s\<rparr> else s)"

definition ffio_get_checksum :: "'s AVIOContext \<Rightarrow> int \<times> 's AVIOContext" where
  "ffio_get_checksum s =
     (let c = the (update_checksum s) (checksum s) (between (checksum_ptr s) (buf_ptr s) (buffer s))
      in (c, s\<lparr>checksum := c, update_checksum := None\<rparr>))"

subsection \<open>Handing the buffer to the protocol\<close>

definition write_callback :: "'s callbacks \<Rightarrow> 's AVIOContext \<Rightarrow> byte list \<Rightarrow> (int \<times> 's) option" where
  "write_callback cb s data =
     (case write_data_type cb of
        Some f \<Rightarrow> f (opaque s) data (current_type s) (last_time s)
      | None \<Rightarrow> (case write_packet cb of Some f \<Rightarrow> f (opaque s) data | None \<Rightarrow> Some (0, opaque s)))"

definition writeout :: "'s callbacks \<Rightarrow> 's AVIOContext \<Rightarrow> byte list \<Rightarrow> 's AVIOContext option" where
  "writeout cb s data =
     do {
       s \<leftarrow> (if io_error s \<noteq> 0 then Some s
            else do {
              (ret, opq) \<leftarrow> write_callback cb s data;
              Some (let s = s\<lparr>opaque := opq\<rparr>
                    in if ret < 0 then s\<lparr>io_error := ret\<rparr>
                       else if io_pos s + int (length data) > io_written s then s\<lparr>io_written := io_pos s + int (length data)\<rparr>
                       else s) });
       Some (s\<lparr>current_type := (if current_type s = AVIO_DATA_MARKER_SYNC_POINT \<or> current_type s = AVIO_DATA_MARKER_BOUNDARY_POINT
                                then AVIO_DATA_MARKER_UNKNOWN else current_type s),
               last_time := AV_NOPTS_VALUE, writeout_count := writeout_count s + 1, io_pos := io_pos s + int (length data)\<rparr>) }"

definition flush_buffer :: "'s callbacks \<Rightarrow> 's AVIOContext \<Rightarrow> 's AVIOContext option" where
  "flush_buffer cb s =
     do {
       let s = s\<lparr>buf_ptr_max := max (buf_ptr s) (buf_ptr_max s)\<rparr>;
       s \<leftarrow> (if write_flag s \<and> buf_ptr_max s > 0
            then do {
              s \<leftarrow> writeout cb s (take (buf_ptr_max s) (buffer s));
              Some (case update_checksum s of None \<Rightarrow> s
                    | Some f \<Rightarrow> s\<lparr>checksum := f (checksum s) (between (checksum_ptr s) (buf_ptr_max s) (buffer s)), checksum_ptr := 0\<rparr>) }
            else Some s);
       let s = s\<lparr>buf_ptr := 0, buf_ptr_max := 0\<rparr>;
       Some (if \<not> write_flag s then s\<lparr>buf_end := 0\<rparr> else s) }"

definition flush_full :: "'s callbacks \<Rightarrow> 's AVIOContext \<Rightarrow> 's AVIOContext option" where
  "flush_full cb s = (if buf_ptr s \<ge> buf_end s then flush_buffer cb s else Some s)"

definition avio_w8 :: "'s callbacks \<Rightarrow> 's AVIOContext \<Rightarrow> byte \<Rightarrow> 's AVIOContext option" where
  "avio_w8 cb s b = flush_full cb (s\<lparr>buffer := (buffer s)[buf_ptr s := b], buf_ptr := buf_ptr s + 1\<rparr>)"

partial_function (option) ffio_fill :: "'s callbacks \<Rightarrow> 's AVIOContext \<Rightarrow> byte \<Rightarrow> nat \<Rightarrow> 's AVIOContext option" where
  "ffio_fill cb s b n =
     (if n = 0 then Some s
      else let len = min (buf_end s - buf_ptr s) n
           in do {
             s \<leftarrow> flush_full cb (s\<lparr>buffer := stored (buffer s) (buf_ptr s) (replicate len b), buf_ptr := buf_ptr s + len\<rparr>);
             ffio_fill cb s b (n - len) })"

partial_function (option) write_loop :: "'s callbacks \<Rightarrow> 's AVIOContext \<Rightarrow> byte list \<Rightarrow> 's AVIOContext option" where
  "write_loop cb s buf =
     (if buf = [] then Some s
      else let len = min (buf_end s - buf_ptr s) (length buf)
           in do {
             s \<leftarrow> flush_full cb (s\<lparr>buffer := stored (buffer s) (buf_ptr s) (take len buf), buf_ptr := buf_ptr s + len\<rparr>);
             write_loop cb s (drop len buf) })"

declare ffio_fill.simps [code] write_loop.simps [code]

subsection \<open>Reading into the buffer\<close>

definition read_packet_wrapper :: "'s callbacks \<Rightarrow> 's AVIOContext \<Rightarrow> nat \<Rightarrow> (int \<times> byte list \<times> 's AVIOContext) option" where
  "read_packet_wrapper cb s sz =
     (case read_packet cb of
        None \<Rightarrow> Some (AVERROR EINVAL, [], s)
      | Some f \<Rightarrow>
          do {
            (ret, bs, opq) \<leftarrow> f (opaque s) (int sz);
            Some (if ret = 0 \<and> io_max_packet_size s = 0 then AVERROR_EOF else ret, bs, s\<lparr>opaque := opq\<rparr>) })"

definition fill_checksum :: "'s AVIOContext \<Rightarrow> nat \<Rightarrow> 's AVIOContext" where
  "fill_checksum s dst =
     (case update_checksum s of
        Some f \<Rightarrow>
          if dst = 0 then
            (if buf_end s > checksum_ptr s
             then s\<lparr>checksum := f (checksum s) (between (checksum_ptr s) (buf_end s) (buffer s))\<rparr> else s)\<lparr>checksum_ptr := 0\<rparr>
          else s
      | None \<Rightarrow> s)"

text \<open>A buffer that has grown is made smaller again: the context, where to read to, and how much.\<close>

definition shrink_buffer :: "'s callbacks \<Rightarrow> 's AVIOContext \<Rightarrow> nat \<Rightarrow> nat \<Rightarrow> 's AVIOContext \<times> nat \<times> nat" where
  "shrink_buffer cb s dst len =
     (if read_packet cb \<noteq> None \<and> orig_buffer_size s \<noteq> 0 \<and> buffer_size s > orig_buffer_size s \<and> len \<ge> orig_buffer_size s
      then
        let (s, dst) = (if dst = 0 \<and> buf_ptr s \<noteq> dst
                        then ((ffio_set_buf_size s (replicate (orig_buffer_size s) 0))\<lparr>checksum_ptr := 0\<rparr>, 0) else (s, dst))
        in (s, dst, orig_buffer_size s)
      else (s, dst, len))"

definition fill_buffer :: "'s callbacks \<Rightarrow> 's AVIOContext \<Rightarrow> 's AVIOContext option" where
  "fill_buffer cb s =
     (let max_buffer_size = (if io_max_packet_size s \<noteq> 0 then io_max_packet_size s else IO_BUFFER_SIZE);
          dst = (if buf_end s + max_buffer_size < buffer_size s then buf_end s else 0);
          len = buffer_size s - dst;
          s = (if read_packet cb = None \<and> buf_ptr s \<ge> buf_end s then s\<lparr>eof_reached := True\<rparr> else s)
      in if eof_reached s then Some s
         else
           let (s, dst, len) = shrink_buffer cb (fill_checksum s dst) dst len
           in do {
             (len, bs, s) \<leftarrow> read_packet_wrapper cb s len;
             Some (if len = AVERROR_EOF then s\<lparr>eof_reached := True\<rparr>
                   else if len < 0 then s\<lparr>eof_reached := True, io_error := len\<rparr>
                   else s\<lparr>buffer := stored (buffer s) dst bs, io_pos := io_pos s + len, buf_ptr := dst, buf_end := dst + nat len,
                          bytes_read := bytes_read s + len\<rparr>) })"

subsection \<open>Seeking\<close>

partial_function (option) fill_to :: "'s callbacks \<Rightarrow> 's AVIOContext \<Rightarrow> int \<Rightarrow> 's AVIOContext option" where
  "fill_to cb s offset =
     (if io_pos s < offset \<and> \<not> eof_reached s then do { s \<leftarrow> fill_buffer cb s; fill_to cb s offset } else Some s)"

declare fill_to.simps [code]

definition short_seek :: "'s callbacks \<Rightarrow> 's AVIOContext \<Rightarrow> int" where
  "short_seek cb s =
     (case short_seek_get cb of
        Some f \<Rightarrow> if f (opaque s) \<le> 0 then short_seek_threshold s else f (opaque s)
      | None \<Rightarrow> short_seek_threshold s)"

text \<open>The absolute position the start of the buffer corresponds to, and where the reader or writer is.\<close>

definition buffer_start :: "'s AVIOContext \<Rightarrow> int" where
  "buffer_start s = io_pos s - (if write_flag s then 0 else int (buf_end s))"

definition tell :: "'s AVIOContext \<Rightarrow> int" where
  "tell s = buffer_start s + int (buf_ptr s)"

datatype seek_move = InBuffer | ReadOn | StepBack | SeekBelow

definition seek_choice :: "'s callbacks \<Rightarrow> 's AVIOContext \<Rightarrow> int \<Rightarrow> seek_move" where
  "seek_choice cb s offset =
     (let offset1 = offset - buffer_start s; buffered = (direct s \<longrightarrow> seek_cb cb = None)
      in if buffered \<and> 0 \<le> offset1 \<and> offset1 \<le> (if write_flag s then int (buf_ptr_max s) else int (buf_end s)) then InBuffer
         else if (\<not> seekable_normal s \<or> offset1 \<le> int (buf_end s) + short_seek cb s) \<and> \<not> write_flag s \<and> 0 \<le> offset1 \<and> buffered
         then ReadOn
         else if \<not> write_flag s \<and> offset1 < 0 \<and> - offset1 < int (buf_end s div 2) \<and> seek_cb cb \<noteq> None \<and> offset > 0 then StepBack
         else SeekBelow)"

definition seek_below :: "'s callbacks \<Rightarrow> 's AVIOContext \<Rightarrow> int \<Rightarrow> (int \<times> 's AVIOContext) option" where
  "seek_below cb s offset =
     do {
       s \<leftarrow> (if write_flag s then flush_buffer cb s else Some s);
       case seek_cb cb of
         None \<Rightarrow> Some (AVERROR EPIPE, s)
       | Some f \<Rightarrow>
           let (res, opq) = f (opaque s) offset SEEK_SET; s = s\<lparr>opaque := opq\<rparr>
           in if res < 0 then Some (res, s)
              else
                let s = s\<lparr>seek_count := seek_count s + 1\<rparr>;
                    s = (if \<not> write_flag s then s\<lparr>buf_end := 0\<rparr> else s)
                in Some (offset, s\<lparr>buf_ptr := 0, buf_ptr_max := 0, io_pos := offset, eof_reached := False\<rparr>) }"

text \<open>The second half, where the target is absolute.\<close>

partial_function (option) seek_to :: "'s callbacks \<Rightarrow> 's AVIOContext \<Rightarrow> int \<Rightarrow> (int \<times> 's AVIOContext) option" where
  "seek_to cb s offset =
     (let s = s\<lparr>buf_ptr_max := max (buf_ptr_max s) (buf_ptr s)\<rparr>
      in case seek_choice cb s offset of
           InBuffer \<Rightarrow> Some (offset, s\<lparr>buf_ptr := nat (offset - buffer_start s), eof_reached := False\<rparr>)
         | ReadOn \<Rightarrow>
             do {
               s \<leftarrow> fill_to cb s offset;
               if eof_reached s then Some (AVERROR_EOF, s)
               else Some (offset, s\<lparr>buf_ptr := nat (int (buf_end s) - (io_pos s - offset)), eof_reached := False\<rparr>) }
         | StepBack \<Rightarrow>
             let p = buffer_start s - min (int (buf_end s div 2)) (buffer_start s);
                 (res, opq) = the (seek_cb cb) (opaque s) p SEEK_SET; s = s\<lparr>opaque := opq\<rparr>
             in if res < 0 then Some (res, s)
                else do {
                  s \<leftarrow> fill_buffer cb (s\<lparr>buf_end := 0, buf_ptr := 0, io_pos := p, eof_reached := False\<rparr>);
                  seek_to cb s offset }
         | SeekBelow \<Rightarrow> seek_below cb s offset)"

declare seek_to.simps [code]

definition avio_seek :: "'s callbacks \<Rightarrow> 's AVIOContext \<Rightarrow> int \<Rightarrow> int \<Rightarrow> (int \<times> 's AVIOContext) option" where
  "avio_seek cb s offset whence =
     (let whence = whence AND NOT AVSEEK_FORCE
      in if whence \<noteq> SEEK_CUR \<and> whence \<noteq> SEEK_SET then Some (AVERROR EINVAL, s)
         else if whence = SEEK_CUR \<and> offset = 0 then Some (tell s, s)
         else if whence = SEEK_CUR \<and> offset > INT64_MAX - tell s then Some (AVERROR EINVAL, s)
         else
           let offset = (if whence = SEEK_CUR then offset + tell s else offset)
           in if offset < 0 then Some (AVERROR EINVAL, s) else seek_to cb s offset)"

definition avio_skip :: "'s callbacks \<Rightarrow> 's AVIOContext \<Rightarrow> int \<Rightarrow> (int \<times> 's AVIOContext) option" where
  "avio_skip cb s offset = avio_seek cb s offset SEEK_CUR"

definition avio_tell :: "'s callbacks \<Rightarrow> 's AVIOContext \<Rightarrow> (int \<times> 's AVIOContext) option" where
  "avio_tell cb s = avio_seek cb s 0 SEEK_CUR"

definition avio_size :: "'s callbacks \<Rightarrow> 's AVIOContext \<Rightarrow> int \<times> 's AVIOContext" where
  "avio_size cb s =
     (if io_written s \<noteq> 0 then (io_written s, s)
      else case seek_cb cb of
             None \<Rightarrow> (AVERROR ENOSYS, s)
           | Some f \<Rightarrow>
               let (sz, opq) = f (opaque s) 0 AVSEEK_SIZE
               in if sz < 0 then
                    let (sz, opq) = f opq (- 1) SEEK_END
                    in if sz < 0 then (sz, s\<lparr>opaque := opq\<rparr>)
                       else let (_, opq) = f opq (io_pos s) SEEK_SET in (sz + 1, s\<lparr>opaque := opq\<rparr>)
                  else (sz, s\<lparr>opaque := opq\<rparr>))"

definition avio_feof :: "'s callbacks \<Rightarrow> 's AVIOContext \<Rightarrow> (bool \<times> 's AVIOContext) option" where
  "avio_feof cb s =
     do {
       s \<leftarrow> (if eof_reached s then fill_buffer cb (s\<lparr>eof_reached := False\<rparr>) else Some s);
       Some (eof_reached s, s) }"


subsection \<open>Writing\<close>

definition avio_flush :: "'s callbacks \<Rightarrow> 's AVIOContext \<Rightarrow> 's AVIOContext option" where
  "avio_flush cb s =
     (let seekback = (if write_flag s then min 0 (int (buf_ptr s) - int (buf_ptr_max s)) else 0)
      in do {
        s \<leftarrow> flush_buffer cb s;
        if seekback \<noteq> 0 then do { (_, s) \<leftarrow> avio_seek cb s seekback SEEK_CUR; Some s } else Some s })"

definition avio_write :: "'s callbacks \<Rightarrow> 's AVIOContext \<Rightarrow> byte list \<Rightarrow> 's AVIOContext option" where
  "avio_write cb s buf =
     (if direct s \<and> update_checksum s = None then do { s \<leftarrow> avio_flush cb s; writeout cb s buf }
      else write_loop cb s buf)"

text \<open>Several bytes, one by one.\<close>

fun put_bytes :: "'s callbacks \<Rightarrow> 's AVIOContext \<Rightarrow> byte list \<Rightarrow> 's AVIOContext option" where
  "put_bytes cb s [] = Some s"
| "put_bytes cb s (b # bs) = do { s \<leftarrow> avio_w8 cb s b; put_bytes cb s bs }"

definition avio_wl32 :: "'s callbacks \<Rightarrow> 's AVIOContext \<Rightarrow> 32 word \<Rightarrow> 's AVIOContext option" where
  "avio_wl32 cb s val = put_bytes cb s [ucast val, ucast (drop_bit 8 val), ucast (drop_bit 16 val), ucast (drop_bit 24 val)]"

definition avio_wb32 :: "'s callbacks \<Rightarrow> 's AVIOContext \<Rightarrow> 32 word \<Rightarrow> 's AVIOContext option" where
  "avio_wb32 cb s val = put_bytes cb s [ucast (drop_bit 24 val), ucast (drop_bit 16 val), ucast (drop_bit 8 val), ucast val]"

definition avio_wl64 :: "'s callbacks \<Rightarrow> 's AVIOContext \<Rightarrow> 64 word \<Rightarrow> 's AVIOContext option" where
  "avio_wl64 cb s val = do { s \<leftarrow> avio_wl32 cb s (ucast val); avio_wl32 cb s (ucast (drop_bit 32 val)) }"

definition avio_wb64 :: "'s callbacks \<Rightarrow> 's AVIOContext \<Rightarrow> 64 word \<Rightarrow> 's AVIOContext option" where
  "avio_wb64 cb s val = do { s \<leftarrow> avio_wb32 cb s (ucast (drop_bit 32 val)); avio_wb32 cb s (ucast val) }"

definition avio_wl16 :: "'s callbacks \<Rightarrow> 's AVIOContext \<Rightarrow> 32 word \<Rightarrow> 's AVIOContext option" where
  "avio_wl16 cb s val = put_bytes cb s [ucast val, ucast (drop_bit 8 val)]"

definition avio_wb16 :: "'s callbacks \<Rightarrow> 's AVIOContext \<Rightarrow> 32 word \<Rightarrow> 's AVIOContext option" where
  "avio_wb16 cb s val = put_bytes cb s [ucast (drop_bit 8 val), ucast val]"

definition avio_wl24 :: "'s callbacks \<Rightarrow> 's AVIOContext \<Rightarrow> 32 word \<Rightarrow> 's AVIOContext option" where
  "avio_wl24 cb s val = do { s \<leftarrow> avio_wl16 cb s (val AND 0xffff); avio_w8 cb s (ucast (drop_bit 16 val)) }"

definition avio_wb24 :: "'s callbacks \<Rightarrow> 's AVIOContext \<Rightarrow> 32 word \<Rightarrow> 's AVIOContext option" where
  "avio_wb24 cb s val = do { s \<leftarrow> avio_wb16 cb s (drop_bit 8 val); avio_w8 cb s (ucast val) }"

definition avio_put_str :: "'s callbacks \<Rightarrow> 's AVIOContext \<Rightarrow> byte list option \<Rightarrow> (int \<times> 's AVIOContext) option" where
  "avio_put_str cb s str =
     (case str of
        Some bs \<Rightarrow> do { s \<leftarrow> avio_write cb s (bs @ [0]); Some (1 + int (length bs), s) }
      | None \<Rightarrow> do { s \<leftarrow> avio_w8 cb s 0; Some (1, s) })"

text \<open>Integers of variable length, seven bits a byte.\<close>

function ff_get_v_length :: "64 word \<Rightarrow> nat" where
  "ff_get_v_length val = (if drop_bit 7 val \<noteq> 0 then Suc (ff_get_v_length (drop_bit 7 val)) else 1)"
  by pat_completeness auto
termination
proof (relation "measure unat")
  fix val :: "64 word"
  assume "drop_bit 7 val \<noteq> 0"
  then have "unat val \<noteq> 0" by (metis drop_bit_of_0 unat_eq_zero)
  then show "(drop_bit 7 val, val) \<in> measure unat" by (simp add: drop_bit_eq_div unat_div)
qed simp

declare ff_get_v_length.simps [simp del]

fun put_v_bytes :: "64 word \<Rightarrow> nat \<Rightarrow> byte list" where
  "put_v_bytes val 0 = [ucast (val AND 127)]"
| "put_v_bytes val (Suc i) = (128 OR ucast (drop_bit (7 * Suc i) val)) # put_v_bytes val i"

definition ff_put_v :: "'s callbacks \<Rightarrow> 's AVIOContext \<Rightarrow> 64 word \<Rightarrow> 's AVIOContext option" where
  "ff_put_v cb s val = put_bytes cb s (put_v_bytes val (ff_get_v_length val - 1))"

definition avio_write_marker :: "'s callbacks \<Rightarrow> 's AVIOContext \<Rightarrow> int \<Rightarrow> AVIODataMarkerType \<Rightarrow> 's AVIOContext option" where
  "avio_write_marker cb s time type =
     (if type = AVIO_DATA_MARKER_FLUSH_POINT
      then (if buf_ptr s \<ge> io_min_packet_size s then avio_flush cb s else Some s)
      else if write_data_type cb = None then Some s
      else
        let type = (if type = AVIO_DATA_MARKER_BOUNDARY_POINT \<and> ignore_boundary_point s then AVIO_DATA_MARKER_UNKNOWN else type)
        in if type = AVIO_DATA_MARKER_UNKNOWN \<and> current_type s \<noteq> AVIO_DATA_MARKER_HEADER \<and> current_type s \<noteq> AVIO_DATA_MARKER_TRAILER
           then Some s
           else if type \<in> {AVIO_DATA_MARKER_HEADER, AVIO_DATA_MARKER_TRAILER} \<and> type = current_type s then Some s
           else do { s \<leftarrow> avio_flush cb s; Some (s\<lparr>current_type := type, last_time := time\<rparr>) })"

subsection \<open>Reading\<close>

definition avio_r8 :: "'s callbacks \<Rightarrow> 's AVIOContext \<Rightarrow> (byte \<times> 's AVIOContext) option" where
  "avio_r8 cb s =
     do {
       s \<leftarrow> (if buf_ptr s \<ge> buf_end s then fill_buffer cb s else Some s);
       Some (if buf_ptr s < buf_end s then (buffer s ! buf_ptr s, s\<lparr>buf_ptr := buf_ptr s + 1\<rparr>) else (0, s)) }"

text \<open>A turn of the loop of \<open>avio_read\<close>: go on with what was read, or leave it.\<close>

datatype 's read_step = GoOn "byte list" "'s AVIOContext" | Leave "'s AVIOContext"

definition read_direct :: "'s callbacks \<Rightarrow> 's AVIOContext \<Rightarrow> nat \<Rightarrow> 's read_step option" where
  "read_direct cb s sz =
     do {
       (len, bs, s) \<leftarrow> read_packet_wrapper cb s sz;
       Some (if len = AVERROR_EOF then Leave (s\<lparr>eof_reached := True\<rparr>)
             else if len < 0 then Leave (s\<lparr>eof_reached := True, io_error := len\<rparr>)
             else GoOn bs (s\<lparr>io_pos := io_pos s + len, bytes_read := bytes_read s + len, buf_ptr := 0, buf_end := 0\<rparr>)) }"

definition read_turn :: "'s callbacks \<Rightarrow> 's AVIOContext \<Rightarrow> nat \<Rightarrow> 's read_step option" where
  "read_turn cb s sz =
     (let len = min (buf_end s - buf_ptr s) sz
      in if len = 0 \<or> write_flag s then
           if (direct s \<or> sz > buffer_size s) \<and> update_checksum s = None then read_direct cb s sz
           else do {
             s \<leftarrow> fill_buffer cb s;
             Some (if buf_end s - buf_ptr s = 0 then Leave s else GoOn [] s) }
         else Some (GoOn (between (buf_ptr s) (buf_ptr s + len) (buffer s)) (s\<lparr>buf_ptr := buf_ptr s + len\<rparr>)))"

partial_function (option) read_loop :: "'s callbacks \<Rightarrow> 's AVIOContext \<Rightarrow> nat \<Rightarrow> byte list \<Rightarrow> (byte list \<times> 's AVIOContext) option" where
  "read_loop cb s sz buf =
     (if sz = 0 then Some (buf, s)
      else do {
        t \<leftarrow> read_turn cb s sz;
        case t of Leave s \<Rightarrow> Some (buf, s) | GoOn bs s \<Rightarrow> read_loop cb s (sz - length bs) (buf @ bs) })"

declare read_loop.simps [code]

definition nothing_read :: "'s callbacks \<Rightarrow> 's AVIOContext \<Rightarrow> (int \<times> 's AVIOContext) option" where
  "nothing_read cb s =
     (if io_error s \<noteq> 0 then Some (io_error s, s)
      else do { (eof, s) \<leftarrow> avio_feof cb s; Some (if eof then AVERROR_EOF else 0, s) })"

definition avio_read :: "'s callbacks \<Rightarrow> 's AVIOContext \<Rightarrow> nat \<Rightarrow> (int \<times> byte list \<times> 's AVIOContext) option" where
  "avio_read cb s sz =
     do {
       (buf, s) \<leftarrow> read_loop cb s sz [];
       if buf = [] then do { (r, s) \<leftarrow> nothing_read cb s; Some (r, [], s) } else Some (int (length buf), buf, s) }"

definition ffio_read_size :: "'s callbacks \<Rightarrow> 's AVIOContext \<Rightarrow> nat \<Rightarrow> (int \<times> byte list \<times> 's AVIOContext) option" where
  "ffio_read_size cb s sz =
     do { (ret, buf, s) \<leftarrow> avio_read cb s sz; Some (if ret \<noteq> int sz then - 1094995529 else ret, buf, s) }"

definition avio_read_partial :: "'s callbacks \<Rightarrow> 's AVIOContext \<Rightarrow> nat \<Rightarrow> (int \<times> byte list \<times> 's AVIOContext) option" where
  "avio_read_partial cb s sz =
     (if read_packet cb \<noteq> None \<and> write_flag s then
        do {
          (len, bs, s) \<leftarrow> read_packet_wrapper cb s sz;
          Some (len, bs, if len > 0 then s\<lparr>io_pos := io_pos s + len\<rparr> else s) }
      else do {
        s \<leftarrow> (if buf_end s - buf_ptr s = 0 then fill_buffer cb (s\<lparr>buf_end := 0, buf_ptr := 0\<rparr>) else Some s);
        let len = min (buf_end s - buf_ptr s) sz;
        let bs = between (buf_ptr s) (buf_ptr s + len) (buffer s);
        let s = s\<lparr>buf_ptr := buf_ptr s + len\<rparr>;
        if len = 0 then do { (r, s) \<leftarrow> nothing_read cb s; Some (r, [], s) } else Some (int len, bs, s) })"

definition avio_rl16 :: "'s callbacks \<Rightarrow> 's AVIOContext \<Rightarrow> (32 word \<times> 's AVIOContext) option" where
  "avio_rl16 cb s = do { (a, s) \<leftarrow> avio_r8 cb s; (b, s) \<leftarrow> avio_r8 cb s; Some (ucast a OR push_bit 8 (ucast b), s) }"

definition avio_rl24 :: "'s callbacks \<Rightarrow> 's AVIOContext \<Rightarrow> (32 word \<times> 's AVIOContext) option" where
  "avio_rl24 cb s = do { (a, s) \<leftarrow> avio_rl16 cb s; (b, s) \<leftarrow> avio_r8 cb s; Some (a OR push_bit 16 (ucast b), s) }"

definition avio_rl32 :: "'s callbacks \<Rightarrow> 's AVIOContext \<Rightarrow> (32 word \<times> 's AVIOContext) option" where
  "avio_rl32 cb s = do { (a, s) \<leftarrow> avio_rl16 cb s; (b, s) \<leftarrow> avio_rl16 cb s; Some (a OR push_bit 16 b, s) }"

definition avio_rl64 :: "'s callbacks \<Rightarrow> 's AVIOContext \<Rightarrow> (64 word \<times> 's AVIOContext) option" where
  "avio_rl64 cb s = do { (a, s) \<leftarrow> avio_rl32 cb s; (b, s) \<leftarrow> avio_rl32 cb s; Some (ucast a OR push_bit 32 (ucast b), s) }"

definition avio_rb16 :: "'s callbacks \<Rightarrow> 's AVIOContext \<Rightarrow> (32 word \<times> 's AVIOContext) option" where
  "avio_rb16 cb s = do { (a, s) \<leftarrow> avio_r8 cb s; (b, s) \<leftarrow> avio_r8 cb s; Some (push_bit 8 (ucast a) OR ucast b, s) }"

definition avio_rb24 :: "'s callbacks \<Rightarrow> 's AVIOContext \<Rightarrow> (32 word \<times> 's AVIOContext) option" where
  "avio_rb24 cb s = do { (a, s) \<leftarrow> avio_rb16 cb s; (b, s) \<leftarrow> avio_r8 cb s; Some (push_bit 8 a OR ucast b, s) }"

definition avio_rb32 :: "'s callbacks \<Rightarrow> 's AVIOContext \<Rightarrow> (32 word \<times> 's AVIOContext) option" where
  "avio_rb32 cb s = do { (a, s) \<leftarrow> avio_rb16 cb s; (b, s) \<leftarrow> avio_rb16 cb s; Some (push_bit 16 a OR b, s) }"

definition avio_rb64 :: "'s callbacks \<Rightarrow> 's AVIOContext \<Rightarrow> (64 word \<times> 's AVIOContext) option" where
  "avio_rb64 cb s = do { (a, s) \<leftarrow> avio_rb32 cb s; (b, s) \<leftarrow> avio_rb32 cb s; Some (push_bit 32 (ucast a) OR ucast b, s) }"

partial_function (option) ffio_read_varlen :: "'s callbacks \<Rightarrow> 's AVIOContext \<Rightarrow> 64 word \<Rightarrow> (64 word \<times> 's AVIOContext) option" where
  "ffio_read_varlen cb s val =
     do {
       (tmp, s) \<leftarrow> avio_r8 cb s;
       let val = push_bit 7 val + ucast (tmp AND 127);
       if tmp AND 128 \<noteq> 0 then ffio_read_varlen cb s val else Some (val, s) }"

declare ffio_read_varlen.simps [code]

subsection \<open>Over a protocol\<close>

definition io_callbacks :: "'s reader \<Rightarrow> 's writer \<Rightarrow> 's seeker option \<Rightarrow> ('s \<Rightarrow> int) option \<Rightarrow> 's URLContext callbacks" where
  "io_callbacks url_read url_write url_seek url_short_seek =
     \<lparr>read_packet = Some (ffurl_read url_read), write_packet = Some (ffurl_write url_write), write_data_type = None,
      seek_cb = Some (ffurl_seek url_seek),
      short_seek_get = Some (\<lambda>h. case url_short_seek of None \<Rightarrow> AVERROR ENOSYS | Some f \<Rightarrow> f (priv_data h))\<rparr>"

abbreviation (input) AVIO_FLAG_DIRECT :: int where "AVIO_FLAG_DIRECT \<equiv> 32768"

definition ffio_fdopen :: "'s URLContext callbacks \<Rightarrow> 's URLContext \<Rightarrow> bool \<Rightarrow> nat \<Rightarrow> 's URLContext AVIOContext" where
  "ffio_fdopen cb h is_streamed min_packet_size =
     (let buffer_size = (if max_packet_size h \<noteq> 0 then nat (max_packet_size h) else IO_BUFFER_SIZE);
          s = ffio_init_context (replicate buffer_size 0) (url_flags h AND AVIO_FLAG_WRITE \<noteq> 0) h cb
      in s\<lparr>direct := (url_flags h AND AVIO_FLAG_DIRECT \<noteq> 0), seekable_normal := \<not> is_streamed,
           io_max_packet_size := nat (max_packet_size h), io_min_packet_size := min_packet_size\<rparr>)"

text \<open>What \<open>ffio_fdopen\<close> sets on a local file.\<close>

definition file_callbacks :: "FileContext URLContext callbacks" where
  "file_callbacks = io_callbacks (\<lambda>c n. Some (file_read c n)) (\<lambda>c bs. Some (file_write c bs)) (Some file_seek) None"

subsection \<open>A buffer in memory as the protocol\<close>

text \<open>Memory that has been allocated and not written is 0 here, and allocating it does not fail.\<close>

record DynBuffer =
  dyn_pos :: int
  dyn_size :: int
  allocated_size :: nat
  dyn_buffer :: "byte list"

function grown_size :: "nat \<Rightarrow> nat \<Rightarrow> nat" where
  "grown_size new_size allocated =
     (if new_size > allocated
      then grown_size new_size (if allocated = 0 then new_size else allocated + (allocated div 2 + 1)) else allocated)"
  by pat_completeness auto
termination by (relation "measure (\<lambda>(n, a). n - a)") auto

declare grown_size.simps [simp del]

definition dyn_buf_write :: "DynBuffer writer" where
  "dyn_buf_write d buf =
     (let new_size = u32 (dyn_pos d + int (length buf))
      in if new_size < u32 (dyn_pos d) \<or> new_size > INT_MAX div 2 then Some (- 1, d)
         else
           let new_allocated_size = grown_size (nat new_size) (allocated_size d);
               d = (if new_allocated_size > allocated_size d
                    then d\<lparr>dyn_buffer := dyn_buffer d @ replicate (new_allocated_size - allocated_size d) 0,
                           allocated_size := new_allocated_size\<rparr> else d);
               d = d\<lparr>dyn_buffer := stored (dyn_buffer d) (nat (dyn_pos d)) buf, dyn_pos := new_size\<rparr>
           in Some (int (length buf), if dyn_pos d > dyn_size d then d\<lparr>dyn_size := dyn_pos d\<rparr> else d))"

definition dyn_packet_buf_write :: "DynBuffer writer" where
  "dyn_packet_buf_write d buf =
     do {
       (ret, d) \<leftarrow> dyn_buf_write d (AV_WB32 (word_of_nat (length buf)));
       if ret < 0 then Some (ret, d) else dyn_buf_write d buf }"

definition dyn_buf_seek :: "DynBuffer seeker" where
  "dyn_buf_seek d offset whence =
     (let offset = (if whence = SEEK_CUR then offset + dyn_pos d else if whence = SEEK_END then offset + dyn_size d else offset)
      in if offset < 0 \<or> offset > 2147483647 then (- 1, d) else (0, d\<lparr>dyn_pos := offset\<rparr>))"

definition null_buf_write :: "DynBuffer writer" where
  "null_buf_write d buf =
     (let d = d\<lparr>dyn_pos := s32 (dyn_pos d + int (length buf))\<rparr>
      in Some (int (length buf), if dyn_pos d > dyn_size d then d\<lparr>dyn_size := dyn_pos d\<rparr> else d))"

definition dyn_callbacks :: "nat \<Rightarrow> DynBuffer callbacks" where
  "dyn_callbacks packet_size =
     \<lparr>read_packet = None, write_packet = Some (if packet_size \<noteq> 0 then dyn_packet_buf_write else dyn_buf_write), write_data_type = None,
      seek_cb = (if packet_size \<noteq> 0 then None else Some dyn_buf_seek), short_seek_get = None\<rparr>"

definition null_callbacks :: "DynBuffer callbacks" where
  "null_callbacks = (dyn_callbacks 0)\<lparr>write_packet := Some null_buf_write\<rparr>"

definition url_open_dyn_buf_internal :: "nat \<Rightarrow> DynBuffer AVIOContext" where
  "url_open_dyn_buf_internal packet_size =
     (let io_buffer_size = (if packet_size \<noteq> 0 then packet_size else 1024);
          d = \<lparr>dyn_pos = 0, dyn_size = 0, allocated_size = 0, dyn_buffer = []\<rparr>
      in (ffio_init_context (replicate io_buffer_size 0) True d (dyn_callbacks packet_size))\<lparr>io_max_packet_size := packet_size\<rparr>)"

text \<open>The bytes and their number.\<close>

definition avio_get_dyn_buf :: "DynBuffer callbacks \<Rightarrow> DynBuffer AVIOContext \<Rightarrow> (int \<times> byte list \<times> DynBuffer AVIOContext) option" where
  "avio_get_dyn_buf cb s = do { s \<leftarrow> avio_flush cb s; Some (dyn_size (opaque s), dyn_buffer (opaque s), s) }"

abbreviation (input) AV_INPUT_BUFFER_PADDING_SIZE :: nat where "AV_INPUT_BUFFER_PADDING_SIZE \<equiv> 64"

definition avio_close_dyn_buf :: "DynBuffer callbacks \<Rightarrow> DynBuffer AVIOContext \<Rightarrow> (int \<times> byte list) option" where
  "avio_close_dyn_buf cb s =
     (let padding = (if io_max_packet_size s = 0 then AV_INPUT_BUFFER_PADDING_SIZE else 0)
      in do {
        s \<leftarrow> (if io_max_packet_size s = 0 then avio_write cb s (replicate AV_INPUT_BUFFER_PADDING_SIZE 0) else Some s);
        s \<leftarrow> avio_flush cb s;
        Some (dyn_size (opaque s) - int padding, dyn_buffer (opaque s)) })"

definition ffio_close_null_buf :: "DynBuffer AVIOContext \<Rightarrow> int option" where
  "ffio_close_null_buf s = do { s \<leftarrow> avio_flush null_callbacks s; Some (dyn_size (opaque s)) }"

end
