(* ===== verification/AvioWrite.thy ===== *)
theory AvioWrite
  imports Aviobuf
begin

section \<open>Buffered writing refines writing to a file\<close>

text \<open>
  What is written through an \<open>AVIOContext\<close>, with seeks in between, arrives as if every byte had been written to the
  place where the writer was.  The locale \<open>output_sink\<close> is what the context relies on: writing puts the bytes at the
  place of the sink, which moves behind them, and seeking moves the place.
\<close>

subsection \<open>Bytes written into bytes\<close>

lemma written_simple: "off \<le> length c \<Longrightarrow> written c off bs = take off c @ bs @ drop (off + length bs) c"
  by (simp add: written_def)

lemma written_length: "off \<le> length c \<Longrightarrow> length (written c off bs) = max (length c) (off + length bs)"
  by (auto simp: written_simple max_def)

lemma written_nil [simp]: "off \<le> length c \<Longrightarrow> written c off [] = c"
  by (simp add: written_simple)

lemma written_written:
  assumes "off \<le> length c" "ptr \<le> length x"
  shows "written (written c off x) (off + ptr) bs = written c off (written x ptr bs)"
proof -
  obtain c1 c2 where c: "c = c1 @ c2" "length c1 = off" using assms(1) by (metis append_take_drop_id length_take min.absorb2)
  obtain x1 x2 where x: "x = x1 @ x2" "length x1 = ptr" using assms(2) by (metis append_take_drop_id length_take min.absorb2)
  show ?thesis unfolding c(1) x(1) c(2) [symmetric] x(2) [symmetric]
    by (cases "length bs \<le> length x2") (simp_all add: written_def min_def add.commute)
qed

lemma written_append:
  assumes "off \<le> length c"
  shows "written (written c off a) (off + length a) b = written c off (a @ b)"
  using written_written [OF assms, of "length a" a b] by (simp add: written_simple)

lemma written_take_drop:
  assumes "off \<le> length c"
  shows "written (written c off (take k bs)) (off + length (take k bs)) (drop k bs) = written c off bs"
  using written_append [OF assms, of "take k bs" "drop k bs"] by simp

lemma written_le: "off \<le> length c \<Longrightarrow> length (written c off (take k bs)) \<le> length (written c off bs)"
  by (simp add: written_length)

lemma stored_length [simp]: "off + length bs \<le> length xs \<Longrightarrow> length (stored xs off bs) = length xs"
  by (simp add: stored_def)

lemma stored_pending:
  assumes "ptr \<le> m" "m \<le> length xs" "ptr + length bs \<le> length xs"
  shows "take (max (ptr + length bs) m) (stored xs ptr bs) = written (take m xs) ptr bs"
proof -
  obtain x1 x2 x3 where x: "xs = x1 @ x2 @ x3" "length x1 = ptr" "length (x1 @ x2) = m"
    using assms(1,2) by (metis append_take_drop_id append.assoc length_take min.absorb2 take_take)
  then show ?thesis using assms(3) by (cases "length bs \<le> length x2") (auto simp: stored_def written_def min_def max_def)
qed

lemma list_update_stored: "p < length xs \<Longrightarrow> xs[p := b] = stored xs p [b]"
  by (simp add: stored_def upd_conv_take_nth_drop)

subsection \<open>The contract of the sink\<close>

locale output_sink =
  fixes cb :: "'s callbacks" and wr :: "'s writer" and sk :: "'s seeker" and valid :: "'s \<Rightarrow> bool"
    and content :: "'s \<Rightarrow> byte list" and place :: "'s \<Rightarrow> nat" and limit :: nat
  assumes callbacks: "write_packet cb = Some wr" "write_data_type cb = None" "seek_cb cb = Some sk"
    and sink_write: "valid d \<Longrightarrow> place d \<le> length (content d) \<Longrightarrow> place d + length data \<le> limit \<Longrightarrow>
      \<exists>r d'. wr d data = Some (r, d') \<and> 0 \<le> r \<and> valid d' \<and> content d' = written (content d) (place d) data \<and>
        place d' = place d + length data"
    and sink_seek: "valid d \<Longrightarrow> p \<le> length (content d) \<Longrightarrow> length (content d) \<le> limit \<Longrightarrow>
      \<exists>r d'. sk d (int p) SEEK_SET = (r, d') \<and> 0 \<le> r \<and> valid d' \<and> content d' = content d \<and> place d' = p"
begin

text \<open>What the context stands for: the bytes of the sink with those in the buffer, and the place of the writer.\<close>

definition pending :: "'s AVIOContext \<Rightarrow> byte list" where
  "pending s = take (max (buf_ptr s) (buf_ptr_max s)) (buffer s)"

definition image :: "'s AVIOContext \<Rightarrow> byte list" where
  "image s = written (content (opaque s)) (nat (io_pos s)) (pending s)"

definition point :: "'s AVIOContext \<Rightarrow> nat" where
  "point s = nat (io_pos s) + buf_ptr s"

definition in_place :: "'s AVIOContext \<Rightarrow> bool" where
  "in_place s \<longleftrightarrow> io_error s = 0 \<and> valid (opaque s) \<and> 0 \<le> io_pos s \<and> place (opaque s) = nat (io_pos s) \<and>
     nat (io_pos s) \<le> length (content (opaque s))"

definition loaded :: "'s AVIOContext \<Rightarrow> bool" where
  "loaded s \<longleftrightarrow> write_flag s \<and> in_place s \<and> buf_end s = buffer_size s \<and> 0 < buffer_size s \<and>
     buf_ptr s \<le> buf_end s \<and> buf_ptr_max s < buf_end s"

definition sane :: "'s AVIOContext \<Rightarrow> bool" where
  "sane s \<longleftrightarrow> loaded s \<and> buf_ptr s < buf_end s"

lemma pending_length: "loaded s \<Longrightarrow> length (pending s) = max (buf_ptr s) (buf_ptr_max s)"
  by (auto simp: pending_def loaded_def in_place_def)

lemma image_length: "loaded s \<Longrightarrow> length (image s) = max (length (content (opaque s))) (nat (io_pos s) + max (buf_ptr s) (buf_ptr_max s))"
  unfolding image_def using pending_length [of s] by (subst written_length) (simp_all add: loaded_def in_place_def)

lemma point_image: "loaded s \<Longrightarrow> point s \<le> length (image s)"
  by (simp add: image_length point_def)

lemma writeout_ok:
  assumes "in_place s" "nat (io_pos s) + length data \<le> limit"
  shows "\<exists>s'. writeout cb s data = Some s' \<and> buffer s' = buffer s \<and> buf_ptr s' = buf_ptr s \<and> buf_end s' = buf_end s \<and>
    buf_ptr_max s' = buf_ptr_max s \<and> write_flag s' = write_flag s \<and> io_error s' = 0 \<and> direct s' = direct s \<and>
    update_checksum s' = update_checksum s \<and> io_max_packet_size s' = io_max_packet_size s \<and>
    valid (opaque s') \<and> io_pos s' = io_pos s + int (length data) \<and> place (opaque s') = nat (io_pos s') \<and>
    content (opaque s') = written (content (opaque s)) (nat (io_pos s)) data"
proof -
  have s: "valid (opaque s)" "place (opaque s) = nat (io_pos s)" "0 \<le> io_pos s" "nat (io_pos s) \<le> length (content (opaque s))" "io_error s = 0"
    using assms(1) by (simp_all add: in_place_def)
  obtain r d' where d': "wr (opaque s) data = Some (r, d')" "0 \<le> r" "valid d'"
    "content d' = written (content (opaque s)) (nat (io_pos s)) data" "place d' = nat (io_pos s) + length data"
    using sink_write [of "opaque s" data] s assms(2) by auto
  show ?thesis
    unfolding writeout_def write_callback_def callbacks option.case d'(1)
    using d'(2-5) s(3,5) by (simp add: Let_def nat_add_distrib)
qed

lemma flush_buffer_ok:
  assumes "loaded s" "length (image s) \<le> limit"
  shows "\<exists>s'. flush_buffer cb s = Some s' \<and> sane s' \<and> image s' = image s \<and> buf_ptr s' = 0 \<and> buf_ptr_max s' = 0 \<and>
    io_pos s' = io_pos s + int (max (buf_ptr s) (buf_ptr_max s)) \<and> direct s' = direct s \<and>
    (update_checksum s' = None \<longleftrightarrow> update_checksum s = None) \<and> io_max_packet_size s' = io_max_packet_size s \<and>
    content (opaque s') = image s"
proof -
  let ?s = "s\<lparr>buf_ptr_max := max (buf_ptr s) (buf_ptr_max s)\<rparr>"
  show ?thesis
  proof (cases "max (buf_ptr s) (buf_ptr_max s) = 0")
    case True
    then have "flush_buffer cb s = Some (s\<lparr>buf_ptr_max := 0, buf_ptr := 0\<rparr>)"
      using assms(1) by (simp add: flush_buffer_def loaded_def in_place_def)
    moreover have "image s = content (opaque s)" using True assms(1) by (simp add: image_def pending_def loaded_def in_place_def)
    ultimately show ?thesis using True assms(1) by (auto simp: sane_def loaded_def in_place_def image_def pending_def)
  next
    case False
    define m where "m = max (buf_ptr s) (buf_ptr_max s)"
    have ld: "in_place ?s" "m \<le> buffer_size s" "0 < m" "write_flag s" using assms(1) False by (auto simp: loaded_def in_place_def m_def)
    have fits: "nat (io_pos ?s) + length (take m (buffer s)) \<le> limit"
      using assms(2) ld(2) image_length [OF assms(1)] by (simp add: m_def)
    obtain s1 where s1: "writeout cb ?s (take m (buffer s)) = Some s1" "buffer s1 = buffer s" "buf_ptr s1 = buf_ptr s" "buf_end s1 = buf_end s"
      "write_flag s1" "io_error s1 = 0" "direct s1 = direct s" "update_checksum s1 = update_checksum s" "io_max_packet_size s1 = io_max_packet_size s" "valid (opaque s1)"
      "io_pos s1 = io_pos s + int m" "place (opaque s1) = nat (io_pos s1)"
      "content (opaque s1) = written (content (opaque s)) (nat (io_pos s)) (take m (buffer s))"
      using writeout_ok [OF ld(1) fits] ld(2,4) by (auto simp: min_def)
    define s2 where "s2 = (case update_checksum s1 of None \<Rightarrow> s1
      | Some f \<Rightarrow> s1\<lparr>checksum := f (checksum s1) (between (checksum_ptr s1) (buf_ptr_max s1) (buffer s1)), checksum_ptr := 0\<rparr>)"
    have s2: "buffer s2 = buffer s1" "buf_end s2 = buf_end s1" "write_flag s2 = write_flag s1" "io_error s2 = io_error s1"
      "direct s2 = direct s1" "update_checksum s2 = update_checksum s1" "opaque s2 = opaque s1" "io_pos s2 = io_pos s1"
      "io_max_packet_size s2 = io_max_packet_size s1"
      by (simp_all add: s2_def split: option.splits)
    have fl: "flush_buffer cb s = Some (s2\<lparr>buf_ptr := 0, buf_ptr_max := 0\<rparr>)"
      using ld(3,4) s1(1,5) s2(3) by (simp add: flush_buffer_def m_def [symmetric] s2_def [symmetric])
    have img: "image s = content (opaque s1)" by (simp add: image_def pending_def m_def [symmetric] s1(13))
    have len: "length (content (opaque s1)) = max (length (content (opaque s))) (nat (io_pos s) + m)"
      unfolding s1(13) using assms(1) ld(2) by (subst written_length) (simp_all add: loaded_def in_place_def)
    have "sane (s2\<lparr>buf_ptr := 0, buf_ptr_max := 0\<rparr>)" "image (s2\<lparr>buf_ptr := 0, buf_ptr_max := 0\<rparr>) = content (opaque s1)"
      using assms(1) s1 s2 len by (auto simp: sane_def loaded_def in_place_def image_def pending_def nat_add_distrib)
    then show ?thesis unfolding fl img m_def [symmetric] using s1 s2 by simp
  qed
qed

text \<open>Bytes put into the buffer, which is flushed when it is full.\<close>

definition stays :: "'s AVIOContext \<Rightarrow> 's AVIOContext \<Rightarrow> bool" where
  "stays s s' \<longleftrightarrow> direct s' = direct s \<and> io_max_packet_size s' = io_max_packet_size s \<and> (update_checksum s' = None \<longleftrightarrow> update_checksum s = None)"

lemma stays_refl [simp]: "stays s s"
  by (simp add: stays_def)

lemma stays_trans: "stays s s' \<Longrightarrow> stays s' s'' \<Longrightarrow> stays s s''"
  by (simp add: stays_def)

lemma put_ok:
  assumes "sane s" "buf_ptr s + length bs \<le> buf_end s" "length (written (image s) (point s) bs) \<le> limit"
  shows "\<exists>s'. flush_full cb (s\<lparr>buffer := stored (buffer s) (buf_ptr s) bs, buf_ptr := buf_ptr s + length bs\<rparr>) = Some s' \<and>
    sane s' \<and> image s' = written (image s) (point s) bs \<and> point s' = point s + length bs \<and> stays s s'"
proof -
  define t where "t = s\<lparr>buffer := stored (buffer s) (buf_ptr s) bs, buf_ptr := buf_ptr s + length bs\<rparr>"
  define m where "m = max (buf_ptr s) (buf_ptr_max s)"
  have s: "loaded s" "m \<le> buffer_size s" "buf_ptr s \<le> m" "buf_end s = buffer_size s"
    using assms(1) by (auto simp: sane_def loaded_def in_place_def m_def)
  have t: "loaded t" using assms(1,2) by (simp add: t_def sane_def loaded_def in_place_def)
  have "max (buf_ptr t) (buf_ptr_max t) = max (buf_ptr s + length bs) m" by (auto simp: t_def m_def)
  then have "pending t = written (pending s) (buf_ptr s) bs"
    using stored_pending [OF s(3,2), of bs] assms(2) s(4) by (simp add: pending_def t_def m_def)
  then have img: "image t = written (image s) (point s) bs"
    using written_written [of "nat (io_pos s)" "content (opaque s)" "buf_ptr s" "pending s" bs] s(1) pending_length [OF s(1)]
    by (simp add: image_def point_def t_def loaded_def in_place_def)
  have pt: "point t = point s + length bs" by (simp add: point_def t_def)
  show ?thesis
  proof (cases "buf_ptr t \<ge> buf_end t")
    case False
    then have "flush_full cb t = Some t" "sane t" using t by (simp_all add: flush_full_def sane_def)
    moreover have "stays s t" by (simp add: t_def stays_def)
    ultimately show ?thesis unfolding t_def [symmetric] using img pt by (intro exI [of _ t] conjI)
  next
    case True
    then have full: "max (buf_ptr t) (buf_ptr_max t) = buf_ptr t" using t by (simp add: loaded_def in_place_def)
    have "length (image t) \<le> limit" using assms(3) img by simp
    from flush_buffer_ok [OF t this] obtain s' where s': "flush_buffer cb t = Some s'" "sane s'" "image s' = image t" "buf_ptr s' = 0"
      "io_pos s' = io_pos t + int (buf_ptr t)" "direct s' = direct t" "update_checksum s' = None \<longleftrightarrow> update_checksum t = None"
      "io_max_packet_size s' = io_max_packet_size t"
      unfolding full by (elim exE conjE) (rule that)
    have "point s' = point t" using s'(4,5) t by (simp add: point_def loaded_def in_place_def nat_add_distrib)
    moreover have "stays s s'" using s'(6-8) by (simp add: t_def stays_def)
    moreover have "flush_full cb t = Some s'" using True s'(1) by (simp add: flush_full_def)
    ultimately show ?thesis unfolding t_def [symmetric] using s'(2,3) img pt by (intro exI [of _ s']) simp
  qed
qed

lemma avio_w8_ok:
  assumes "sane s" "length (written (image s) (point s) [b]) \<le> limit"
  shows "\<exists>s'. avio_w8 cb s b = Some s' \<and> sane s' \<and> image s' = written (image s) (point s) [b] \<and> point s' = point s + 1 \<and> stays s s'"
proof -
  have "buf_ptr s < buffer_size s" using assms(1) by (simp add: sane_def loaded_def in_place_def)
  then show ?thesis using put_ok [OF assms(1) _ assms(2)] assms(1) by (simp add: avio_w8_def list_update_stored sane_def)
qed

lemma write_loop_ok:
  assumes "sane s" "length (written (image s) (point s) bs) \<le> limit"
  shows "\<exists>s'. write_loop cb s bs = Some s' \<and> sane s' \<and> image s' = written (image s) (point s) bs \<and> point s' = point s + length bs \<and> stays s s'"
  using assms
proof (induction bs arbitrary: s rule: measure_induct_rule [of length])
  case (less bs)
  have p: "point s \<le> length (image s)" using less.prems(1) point_image by (simp add: sane_def)
  show ?case
  proof (cases "bs = []")
    case True
    then show ?thesis using less.prems(1) p by (subst write_loop.simps) simp
  next
    case False
    define len where "len = min (buf_end s - buf_ptr s) (length bs)"
    have len: "0 < len" "len \<le> length bs" "buf_ptr s + len \<le> buf_end s" using less.prems(1) False by (auto simp: len_def sane_def)
    have takelen: "length (take len bs) = len" using len(2) by simp
    have "length (written (image s) (point s) (take len bs)) \<le> limit" using written_le [OF p] less.prems(2) by (rule order_trans)
    from put_ok [OF less.prems(1) _ this, unfolded takelen, OF len(3)] obtain s1 where s1:
      "flush_full cb (s\<lparr>buffer := stored (buffer s) (buf_ptr s) (take len bs), buf_ptr := buf_ptr s + len\<rparr>) = Some s1" "sane s1"
      "image s1 = written (image s) (point s) (take len bs)" "point s1 = point s + len" "stays s s1"
      by blast
    have rest: "written (image s1) (point s1) (drop len bs) = written (image s) (point s) bs"
      using written_take_drop [OF p, of len bs] len(2) unfolding s1(3,4) takelen by simp
    have "length (drop len bs) < length bs" using len by simp
    from less.IH [OF this s1(2)] rest less.prems(2) obtain s2 where s2: "write_loop cb s1 (drop len bs) = Some s2" "sane s2"
      "image s2 = written (image s) (point s) bs" "point s2 = point s1 + length (drop len bs)" "stays s1 s2" by auto
    have "write_loop cb s bs = Some s2" using False s1(1) s2(1) by (subst write_loop.simps) (simp add: len_def [symmetric] Let_def)
    then show ?thesis using s2 s1(4,5) len(2) stays_trans by auto
  qed
qed

lemma ffio_fill_ok:
  assumes "sane s" "length (written (image s) (point s) (replicate n b)) \<le> limit"
  shows "\<exists>s'. ffio_fill cb s b n = Some s' \<and> sane s' \<and> image s' = written (image s) (point s) (replicate n b) \<and> point s' = point s + n \<and> stays s s'"
  using assms
proof (induction n arbitrary: s rule: less_induct)
  case (less n)
  have p: "point s \<le> length (image s)" using less.prems(1) point_image by (simp add: sane_def)
  show ?case
  proof (cases "n = 0")
    case True
    then show ?thesis using less.prems(1) p by (subst ffio_fill.simps) simp
  next
    case False
    define len where "len = min (buf_end s - buf_ptr s) n"
    have len: "0 < len" "len \<le> n" "buf_ptr s + len \<le> buf_end s" using less.prems(1) False by (auto simp: len_def sane_def)
    have rep: "replicate len b = take len (replicate n b)" "replicate (n - len) b = drop len (replicate n b)" using len(2) by simp_all
    have "length (written (image s) (point s) (replicate len b)) \<le> limit"
      unfolding rep(1) using written_le [OF p] less.prems(2) by (rule order_trans)
    from put_ok [OF less.prems(1) _ this] len obtain s1 where s1:
      "flush_full cb (s\<lparr>buffer := stored (buffer s) (buf_ptr s) (replicate len b), buf_ptr := buf_ptr s + len\<rparr>) = Some s1" "sane s1"
      "image s1 = written (image s) (point s) (replicate len b)" "point s1 = point s + len" "stays s s1"
      by auto
    have rest: "written (image s1) (point s1) (replicate (n - len) b) = written (image s) (point s) (replicate n b)"
      using written_take_drop [OF p, of len "replicate n b"] len(2) unfolding s1(3,4) rep by (simp add: min_def)
    from less.IH [OF _ s1(2), of "n - len"] rest less.prems(2) len False obtain s2 where s2: "ffio_fill cb s1 b (n - len) = Some s2" "sane s2"
      "image s2 = written (image s) (point s) (replicate n b)" "point s2 = point s1 + (n - len)" "stays s1 s2" by auto
    have "ffio_fill cb s b n = Some s2" using False s1(1) s2(1) by (subst ffio_fill.simps) (simp add: len_def [symmetric] Let_def)
    then show ?thesis using s2 s1(4,5) len(2) stays_trans by auto
  qed
qed

lemma put_bytes_ok:
  assumes "sane s" "length (written (image s) (point s) bs) \<le> limit"
  shows "\<exists>s'. put_bytes cb s bs = Some s' \<and> sane s' \<and> image s' = written (image s) (point s) bs \<and> point s' = point s + length bs \<and> stays s s'"
  using assms
proof (induction bs arbitrary: s)
  case Nil
  then show ?case using point_image [of s] by (auto simp: sane_def)
next
  case (Cons b bs)
  have p: "point s \<le> length (image s)" using Cons.prems(1) point_image by (simp add: sane_def)
  have split: "written (written (image s) (point s) [b]) (point s + 1) bs = written (image s) (point s) (b # bs)"
    using written_append [OF p, of "[b]" bs] by simp
  have "length (written (image s) (point s) [b]) \<le> limit" using Cons.prems(2) by (simp add: written_length [OF p])
  from avio_w8_ok [OF Cons.prems(1) this] obtain s1 where s1: "avio_w8 cb s b = Some s1" "sane s1"
    "image s1 = written (image s) (point s) [b]" "point s1 = point s + 1" "stays s s1" by blast
  from Cons.IH [OF s1(2)] Cons.prems(2) split s1(3,4) obtain s2 where s2: "put_bytes cb s1 bs = Some s2" "sane s2"
    "image s2 = written (image s) (point s) (b # bs)" "point s2 = point s1 + length bs" "stays s1 s2" by auto
  show ?case using s1 s2 stays_trans by auto
qed

text \<open>Seeking to a place that has been written.\<close>

lemma seek_to_ok:
  assumes "sane s" "q \<le> length (image s)" "length (image s) \<le> limit"
  shows "\<exists>s'. seek_to cb s (int q) = Some (int q, s') \<and> sane s' \<and> image s' = image s \<and> point s' = q \<and> stays s s' \<and>
    (content (opaque s) = image s \<longrightarrow> content (opaque s') = image s) \<and> (direct s \<longrightarrow> buf_ptr s' = 0 \<and> buf_ptr_max s' = 0)"
proof -
  define t where "t = s\<lparr>buf_ptr_max := max (buf_ptr_max s) (buf_ptr s)\<rparr>"
  have s: "write_flag s" "0 \<le> io_pos s" "buf_ptr s < buf_end s" "buf_ptr_max s < buf_end s" "loaded s"
    using assms(1) by (simp_all add: sane_def loaded_def in_place_def)
  have t: "loaded t" "image t = image s" "write_flag t" "io_pos t = io_pos s" "buf_end t = buf_end s" "stays s t" "buf_ptr t \<le> buf_ptr_max t"
    "buffer_start t = io_pos s"
    using s by (auto simp: t_def loaded_def in_place_def image_def pending_def max.commute stays_def buffer_start_def)
  show ?thesis
  proof (cases "seek_choice cb t (int q) = InBuffer")
    case True
    then have q: "io_pos s \<le> int q" "int q - io_pos s \<le> int (buf_ptr_max t)" "\<not> direct s"
      using t(3,8) by (auto simp: seek_choice_def Let_def callbacks t_def split: if_splits)
    define u where "u = t\<lparr>buf_ptr := nat (int q - io_pos s), eof_reached := False\<rparr>"
    have "nat (int q - io_pos s) \<le> buf_ptr_max t" using q by simp
    then have "sane u" "image u = image s" "point u = q" "stays s u" "opaque u = opaque s"
      using t s q by (auto simp: u_def sane_def loaded_def in_place_def image_def pending_def point_def stays_def max_def t_def)
    moreover have "seek_to cb s (int q) = Some (int q, u)"
      using True by (subst seek_to.simps) (simp add: t_def [symmetric] u_def t(8))
    ultimately show ?thesis using q(3) by (intro exI [of _ u]) simp
  next
    case False
    then have below: "seek_choice cb t (int q) = SeekBelow" using t(3) by (auto simp: seek_choice_def Let_def split: if_splits)
    have "length (image t) \<le> limit" using assms(3) t(2) by simp
    from flush_buffer_ok [OF t(1) this] obtain s1 where s1: "flush_buffer cb t = Some s1" "sane s1" "image s1 = image s"
      "direct s1 = direct t" "update_checksum s1 = None \<longleftrightarrow> update_checksum t = None" "io_max_packet_size s1 = io_max_packet_size t"
      "content (opaque s1) = image s"
      unfolding t(2) by (elim exE conjE) (rule that)
    obtain r d where d: "sk (opaque s1) (int q) SEEK_SET = (r, d)" "0 \<le> r" "valid d" "content d = image s" "place d = q"
      using sink_seek [of "opaque s1" q] s1(2,7) assms(2,3) by (auto simp: sane_def loaded_def in_place_def)
    define u where "u = s1\<lparr>opaque := d, seek_count := seek_count s1 + 1, buf_ptr := 0, buf_ptr_max := 0, io_pos := int q, eof_reached := False\<rparr>"
    have "seek_below cb t (int q) = Some (int q, u)"
      using t(3) s1(1,2) d(1,2) by (simp add: seek_below_def callbacks(3) Let_def u_def sane_def loaded_def)
    then have "seek_to cb s (int q) = Some (int q, u)"
      using below by (subst seek_to.simps) (simp add: t_def [symmetric])
    moreover have "sane u" "image u = image s" "point u = q"
      using s1(2) d assms(2) by (simp_all add: u_def sane_def loaded_def in_place_def image_def pending_def point_def)
    moreover have "stays s u" "content (opaque u) = image s" using s1(4-6) t(6) d(4) by (simp_all add: u_def stays_def)
    ultimately show ?thesis by (intro exI [of _ u]) (simp add: u_def)
  qed
qed

lemma tell_point: "sane s \<Longrightarrow> tell s = int (point s)"
  by (simp add: tell_def buffer_start_def point_def sane_def loaded_def in_place_def)

lemma whence_simps: "SEEK_SET AND NOT AVSEEK_FORCE = 0" "SEEK_CUR AND NOT AVSEEK_FORCE = 1"
  by (simp_all add: and_not_num.simps)

lemma avio_seek_set_ok:
  assumes "sane s" "q \<le> length (image s)" "length (image s) \<le> limit"
  shows "\<exists>s'. avio_seek cb s (int q) SEEK_SET = Some (int q, s') \<and> sane s' \<and> image s' = image s \<and> point s' = q \<and> stays s s' \<and>
    (content (opaque s) = image s \<longrightarrow> content (opaque s') = image s) \<and> (direct s \<longrightarrow> buf_ptr s' = 0 \<and> buf_ptr_max s' = 0)"
  using seek_to_ok [OF assms] unfolding avio_seek_def Let_def whence_simps by simp

lemma avio_seek_cur_ok:
  assumes "sane s" "0 \<le> int (point s) + k" "nat (int (point s) + k) \<le> length (image s)" "length (image s) \<le> limit" "int limit \<le> INT64_MAX"
  shows "\<exists>s'. avio_seek cb s k SEEK_CUR = Some (int (point s) + k, s') \<and> sane s' \<and> image s' = image s \<and>
    point s' = nat (int (point s) + k) \<and> stays s s' \<and> (content (opaque s) = image s \<longrightarrow> content (opaque s') = image s) \<and>
    (direct s \<and> k \<noteq> 0 \<longrightarrow> buf_ptr s' = 0 \<and> buf_ptr_max s' = 0)"
proof (cases "k = 0")
  case True
  then show ?thesis using assms(1) by (simp add: avio_seek_def whence_simps tell_point)
next
  case False
  have "\<not> k > INT64_MAX - tell s" using assms(1,3-5) by (simp add: tell_point)
  then have "avio_seek cb s k SEEK_CUR = seek_to cb s (int (nat (int (point s) + k)))"
    using False assms(1,2) unfolding avio_seek_def Let_def whence_simps by (simp add: tell_point add.commute)
  then show ?thesis using seek_to_ok [OF assms(1,3,4)] assms(2) False by simp
qed

lemma avio_flush_ok:
  assumes "sane s" "length (image s) \<le> limit" "int limit \<le> INT64_MAX"
  shows "\<exists>s'. avio_flush cb s = Some s' \<and> sane s' \<and> image s' = image s \<and> point s' = point s \<and> stays s s' \<and> content (opaque s') = image s \<and>
    (direct s \<longrightarrow> buf_ptr s' = 0 \<and> buf_ptr_max s' = 0)"
proof -
  have s: "loaded s" "write_flag s" "0 \<le> io_pos s" using assms(1) by (simp_all add: sane_def loaded_def in_place_def)
  obtain s1 where s1: "flush_buffer cb s = Some s1" "sane s1" "image s1 = image s" "buf_ptr s1 = 0" "buf_ptr_max s1 = 0"
    "io_pos s1 = io_pos s + int (max (buf_ptr s) (buf_ptr_max s))" "direct s1 = direct s"
    "update_checksum s1 = None \<longleftrightarrow> update_checksum s = None" "io_max_packet_size s1 = io_max_packet_size s" "content (opaque s1) = image s"
    using flush_buffer_ok [OF s(1) assms(2)] by (elim exE conjE) (rule that)
  have st: "stays s s1" using s1(7-9) by (simp add: stays_def)
  define behind where "behind = min 0 (int (buf_ptr s) - int (buf_ptr_max s))"
  show ?thesis
  proof (cases "behind = 0")
    case True
    then have "buf_ptr_max s \<le> buf_ptr s" by (auto simp: behind_def)
    then have "point s1 = point s" using s1(4,6) s(3) by (simp add: point_def nat_add_distrib max_def)
    moreover have "avio_flush cb s = Some s1" using True s1(1) s(2) by (simp add: avio_flush_def behind_def)
    ultimately show ?thesis using s1 st by auto
  next
    case False
    have "int (point s1) = io_pos s + int (max (buf_ptr s) (buf_ptr_max s))" using s1(4,6) s(3) by (simp add: point_def)
    then have p: "int (point s1) + behind = int (point s)" using False s(3) by (auto simp: behind_def point_def)
    have img: "point s \<le> length (image s1)" "length (image s1) \<le> limit" using point_image [OF s(1)] s1(3) assms(2) by simp_all
    have "0 \<le> int (point s1) + behind" "nat (int (point s1) + behind) \<le> length (image s1)" using p img by simp_all
    from avio_seek_cur_ok [OF s1(2) this img(2) assms(3)] obtain s2 where
      s2: "avio_seek cb s1 behind SEEK_CUR = Some (int (point s), s2)" "sane s2" "image s2 = image s" "point s2 = point s" "stays s1 s2" "content (opaque s2) = image s"
      "direct s1 \<longrightarrow> buf_ptr s2 = 0 \<and> buf_ptr_max s2 = 0"
      unfolding p s1(3) using s1(10) False by auto
    have fl: "avio_flush cb s = Some s2" using False s1(1) s2(1) s(2) by (simp add: avio_flush_def behind_def)
    show ?thesis using fl s2(2-4,6,7) s1(7) stays_trans [OF st s2(5)] by (intro exI [of _ s2]) simp
  qed
qed

lemma avio_write_ok:
  assumes "sane s" "length (written (image s) (point s) bs) \<le> limit" "int limit \<le> INT64_MAX"
  shows "\<exists>s'. avio_write cb s bs = Some s' \<and> sane s' \<and> image s' = written (image s) (point s) bs \<and> point s' = point s + length bs \<and> stays s s'"
proof (cases "direct s \<and> update_checksum s = None")
  case False
  then have "avio_write cb s bs = write_loop cb s bs" by (auto simp: avio_write_def)
  then show ?thesis using write_loop_ok [OF assms(1,2)] by simp
next
  case True
  have p: "point s \<le> length (image s)" using point_image assms(1) by (simp add: sane_def)
  have "length (image s) \<le> limit" using assms(2) by (simp add: written_length [OF p])
  from avio_flush_ok [OF assms(1) this assms(3)] True obtain s1 where s1: "avio_flush cb s = Some s1" "sane s1" "image s1 = image s"
    "point s1 = point s" "stays s s1" "content (opaque s1) = image s" "buf_ptr s1 = 0" "buf_ptr_max s1 = 0" by auto
  have s1': "in_place s1" "nat (io_pos s1) = point s" "0 \<le> io_pos s1"
    using s1(2,4,7) by (simp_all add: sane_def loaded_def in_place_def point_def)
  have "nat (io_pos s1) + length bs \<le> limit" using assms(2) s1'(2) by (simp add: written_length [OF p])
  from writeout_ok [OF s1'(1) this] obtain s2 where s2: "writeout cb s1 bs = Some s2" "buffer s2 = buffer s1" "buf_ptr s2 = buf_ptr s1"
    "buf_end s2 = buf_end s1" "buf_ptr_max s2 = buf_ptr_max s1" "write_flag s2 = write_flag s1" "io_error s2 = 0" "direct s2 = direct s1"
    "update_checksum s2 = update_checksum s1" "io_max_packet_size s2 = io_max_packet_size s1" "valid (opaque s2)" "io_pos s2 = io_pos s1 + int (length bs)"
    "place (opaque s2) = nat (io_pos s2)" "content (opaque s2) = written (content (opaque s1)) (nat (io_pos s1)) bs"
    by (elim exE conjE) (rule that)
  have io: "nat (io_pos s2) = point s + length bs" using s2(12) s1'(2,3) by (simp add: nat_add_distrib)
  have len: "point s + length bs \<le> length (content (opaque s2))"
    unfolding s2(14) s1'(2) s1(6) by (simp add: written_length [OF p])
  have "sane s2" using s1(2,7,8) s2 io len s1'(3) by (simp add: sane_def loaded_def in_place_def)
  moreover have "image s2 = written (image s) (point s) bs"
    using s1(6-8) s2(3,5,14) io len s1'(2) by (simp add: image_def pending_def)
  moreover have "point s2 = point s + length bs" using io s1(7) s2(3) by (simp add: point_def)
  moreover have "stays s s2" using s1(5) s2(8-10) by (simp add: stays_def)
  moreover have "avio_write cb s bs = Some s2" using True s1(1) s2(1) by (simp add: avio_write_def)
  ultimately show ?thesis by blast
qed

end

subsection \<open>Sequences of operations\<close>

datatype out_op = PutByte byte | PutBytes "byte list" | PutFill byte nat | SeekTo nat | SkipBy int | FlushOut | TellPlace

fun out_step :: "'s callbacks \<Rightarrow> out_op \<Rightarrow> 's AVIOContext \<Rightarrow> (int \<times> 's AVIOContext) option" where
  "out_step cb (PutByte b) s = do { s \<leftarrow> avio_w8 cb s b; Some (0, s) }"
| "out_step cb (PutBytes bs) s = do { s \<leftarrow> avio_write cb s bs; Some (0, s) }"
| "out_step cb (PutFill b n) s = do { s \<leftarrow> ffio_fill cb s b n; Some (0, s) }"
| "out_step cb (SeekTo q) s = avio_seek cb s (int q) SEEK_SET"
| "out_step cb (SkipBy k) s = avio_skip cb s k"
| "out_step cb FlushOut s = do { s \<leftarrow> avio_flush cb s; Some (0, s) }"
| "out_step cb TellPlace s = avio_tell cb s"

fun out_run :: "'s callbacks \<Rightarrow> out_op list \<Rightarrow> 's AVIOContext \<Rightarrow> (int list \<times> 's AVIOContext) option" where
  "out_run cb [] s = Some ([], s)"
| "out_run cb (op # ops) s = do { (r, s) \<leftarrow> out_step cb op s; (rs, s) \<leftarrow> out_run cb ops s; Some (r # rs, s) }"

text \<open>The same on a plain file: its bytes and the place in it.  Seeks stay within what there is.\<close>

fun plain_step :: "out_op \<Rightarrow> byte list \<times> nat \<Rightarrow> (int \<times> byte list \<times> nat) option" where
  "plain_step (PutByte b) (c, p) = Some (0, written c p [b], p + 1)"
| "plain_step (PutBytes bs) (c, p) = Some (0, written c p bs, p + length bs)"
| "plain_step (PutFill b n) (c, p) = Some (0, written c p (replicate n b), p + n)"
| "plain_step (SeekTo q) (c, p) = (if q \<le> length c then Some (int q, c, q) else None)"
| "plain_step (SkipBy k) (c, p) = (if 0 \<le> int p + k \<and> nat (int p + k) \<le> length c then Some (int p + k, c, nat (int p + k)) else None)"
| "plain_step FlushOut (c, p) = Some (0, c, p)"
| "plain_step TellPlace (c, p) = Some (int p, c, p)"

fun plain_run :: "out_op list \<Rightarrow> byte list \<times> nat \<Rightarrow> (int list \<times> byte list \<times> nat) option" where
  "plain_run [] f = Some ([], f)"
| "plain_run (op # ops) f = do { (r, f) \<leftarrow> plain_step op f; (rs, f) \<leftarrow> plain_run ops f; Some (r # rs, f) }"

lemma plain_step_grows: "plain_step op (c, p) = Some (r, c', p') \<Longrightarrow> p \<le> length c \<Longrightarrow> length c \<le> length c' \<and> p' \<le> length c'"
  by (cases op) (auto simp: written_length split: if_splits)

lemma plain_run_grows: "plain_run ops (c, p) = Some (rs, c', p') \<Longrightarrow> p \<le> length c \<Longrightarrow> length c \<le> length c' \<and> p' \<le> length c'"
proof (induction ops arbitrary: c p rs)
  case (Cons op ops)
  obtain r c1 p1 rs' where st: "plain_step op (c, p) = Some (r, c1, p1)" "plain_run ops (c1, p1) = Some (rs', c', p')"
    using Cons.prems(1) by (auto simp: bind_eq_Some_conv)
  show ?case using plain_step_grows [OF st(1) Cons.prems(2)] Cons.IH [OF st(2)] by linarith
qed simp

context output_sink
begin

lemma out_step_refines:
  assumes "sane s" "plain_step op (image s, point s) = Some (r, c, p)" "length c \<le> limit" "int limit \<le> INT64_MAX"
  shows "\<exists>s'. out_step cb op s = Some (r, s') \<and> sane s' \<and> image s' = c \<and> point s' = p \<and> stays s s'"
proof -
  have l: "length (image s) \<le> limit" using plain_step_grows [OF assms(2)] point_image [of s] assms(1,3) by (simp add: sane_def)
  show ?thesis
  proof (cases op)
    case (PutByte b)
    then show ?thesis using assms avio_w8_ok [OF assms(1), of b] by auto
  next
    case (PutBytes bs)
    then show ?thesis using assms avio_write_ok [OF assms(1), of bs] by auto
  next
    case (PutFill b n)
    then show ?thesis using assms ffio_fill_ok [OF assms(1), of n b] by auto
  next
    case (SeekTo q)
    then show ?thesis using assms avio_seek_set_ok [OF assms(1), of q] l by (auto split: if_splits)
  next
    case (SkipBy k)
    then show ?thesis using assms avio_seek_cur_ok [OF assms(1), of k] l by (auto simp: avio_skip_def split: if_splits)
  next
    case FlushOut
    then show ?thesis using assms avio_flush_ok [OF assms(1) l assms(4)] by auto
  next
    case TellPlace
    then show ?thesis using assms avio_seek_cur_ok [OF assms(1), of 0] point_image [of s] l by (auto simp: avio_tell_def sane_def)
  qed
qed

lemma out_run_refines:
  assumes "sane s" "plain_run ops (image s, point s) = Some (rs, c, p)" "length c \<le> limit" "int limit \<le> INT64_MAX"
  shows "\<exists>s'. out_run cb ops s = Some (rs, s') \<and> sane s' \<and> image s' = c \<and> point s' = p \<and> stays s s'"
  using assms(1,2)
proof (induction ops arbitrary: s rs)
  case Nil
  then show ?case using assms by simp
next
  case (Cons op ops)
  obtain r c1 p1 rs' where st: "plain_step op (image s, point s) = Some (r, c1, p1)" "plain_run ops (c1, p1) = Some (rs', c, p)" "rs = r # rs'"
    using Cons.prems(2) by (auto simp: bind_eq_Some_conv)
  have p0: "point s \<le> length (image s)" using Cons.prems(1) point_image by (simp add: sane_def)
  have "length c1 \<le> limit" using plain_step_grows [OF st(1) p0] plain_run_grows [OF st(2)] assms(3) by linarith
  from out_step_refines [OF Cons.prems(1) st(1) this assms(4)] obtain s1 where s1: "out_step cb op s = Some (r, s1)" "sane s1"
    "image s1 = c1" "point s1 = p1" "stays s s1" by blast
  from Cons.IH [OF s1(2), of rs'] st(2) s1(3,4) obtain s2 where s2: "out_run cb ops s1 = Some (rs', s2)" "sane s2" "image s2 = c"
    "point s2 = p" "stays s1 s2" by auto
  show ?case using s1 s2 st(3) stays_trans by auto
qed

end

text \<open>The arguments that fit the types of the C functions: \<open>int\<close> for a number of bytes, \<open>int64_t\<close> for a place.\<close>

fun out_arguments :: "out_op \<Rightarrow> bool" where
  "out_arguments (PutBytes bs) \<longleftrightarrow> int (length bs) \<le> INT_MAX"
| "out_arguments (PutFill b n) \<longleftrightarrow> int n \<le> INT_MAX"
| "out_arguments (SeekTo q) \<longleftrightarrow> int q \<le> INT64_MAX"
| "out_arguments (SkipBy k) \<longleftrightarrow> int64 k"
| "out_arguments op \<longleftrightarrow> True"

subsection \<open>Into memory\<close>

definition dyn_ok :: "DynBuffer \<Rightarrow> bool" where
  "dyn_ok d \<longleftrightarrow> 0 \<le> dyn_pos d \<and> 0 \<le> dyn_size d \<and> dyn_size d \<le> int (allocated_size d) \<and> allocated_size d = length (dyn_buffer d)"

definition dyn_content :: "DynBuffer \<Rightarrow> byte list" where
  "dyn_content d = take (nat (dyn_size d)) (dyn_buffer d)"

definition dyn_place :: "DynBuffer \<Rightarrow> nat" where
  "dyn_place d = nat (dyn_pos d)"

abbreviation DYN_LIMIT :: nat where "DYN_LIMIT \<equiv> 1073741823"

lemma grown_size_ge: "n \<le> grown_size n a \<and> a \<le> grown_size n a"
proof (induction n a rule: grown_size.induct)
  case (1 n a)
  show ?case
  proof (cases "n > a")
    case True
    then show ?thesis using 1 [OF True] by (subst (1 2) grown_size.simps) (simp split: if_splits)
  next
    case False
    then show ?thesis by (subst (1 2) grown_size.simps) simp
  qed
qed

lemma dyn_buf_write_ok:
  assumes "dyn_ok d" "dyn_place d \<le> length (dyn_content d)" "dyn_place d + length data \<le> DYN_LIMIT"
  shows "\<exists>r d'. dyn_buf_write d data = Some (r, d') \<and> 0 \<le> r \<and> dyn_ok d' \<and>
    dyn_content d' = written (dyn_content d) (dyn_place d) data \<and> dyn_place d' = dyn_place d + length data"
proof -
  define n where "n = nat (dyn_pos d) + length data"
  have d: "0 \<le> dyn_pos d" "0 \<le> dyn_size d" "nat (dyn_size d) \<le> length (dyn_buffer d)" "allocated_size d = length (dyn_buffer d)"
    using assms(1) by (auto simp: dyn_ok_def)
  have place: "nat (dyn_pos d) \<le> nat (dyn_size d)" using assms(2) d by (simp add: dyn_place_def dyn_content_def)
  have n: "n \<le> DYN_LIMIT" using assms(3) by (simp add: n_def dyn_place_def)
  have size: "u32 (dyn_pos d + int (length data)) = int n" "u32 (dyn_pos d) = dyn_pos d"
    using n d(1) by (simp_all add: u32_def n_def)
  define g where "g = grown_size n (allocated_size d)"
  have g: "n \<le> g" "allocated_size d \<le> g" using grown_size_ge by (simp_all add: g_def)
  define e where "e = (if g > allocated_size d
      then d\<lparr>dyn_buffer := dyn_buffer d @ replicate (g - allocated_size d) 0, allocated_size := g\<rparr> else d)"
  have e: "allocated_size e = length (dyn_buffer e)" "length (dyn_buffer e) = g" "dyn_pos e = dyn_pos d" "dyn_size e = dyn_size d"
    "take (nat (dyn_size d)) (dyn_buffer e) = dyn_content d" "nat (dyn_size d) \<le> length (dyn_buffer e)"
    using g(2) d(3,4) by (auto simp: e_def dyn_content_def)
  define f where "f = e\<lparr>dyn_buffer := stored (dyn_buffer e) (nat (dyn_pos d)) data, dyn_pos := int n\<rparr>"
  have len: "length (dyn_buffer f) = g" using e(2) g(1) by (simp add: f_def n_def)
  have below: "(int n < dyn_pos d \<or> int n > INT_MAX div 2) = False" using n d(1) by (simp add: n_def)
  have run: "dyn_buf_write d data = Some (int (length data), if int n > dyn_size d then f\<lparr>dyn_size := int n\<rparr> else f)"
    unfolding dyn_buf_write_def size Let_def
    by (simp only: below if_False nat_int g_def [symmetric] e_def [symmetric] f_def [symmetric]) (simp add: f_def e(3,4))
  have "dyn_content (if int n > dyn_size d then f\<lparr>dyn_size := int n\<rparr> else f) = take (max n (nat (dyn_size d))) (dyn_buffer f)"
    using e(4) by (auto simp: dyn_content_def f_def max_def)
  also have "\<dots> = written (dyn_content d) (dyn_place d) data"
    using stored_pending [OF place e(6), of data] e(2,5) g(1) by (simp add: f_def n_def dyn_place_def)
  finally have "dyn_content (if int n > dyn_size d then f\<lparr>dyn_size := int n\<rparr> else f) = written (dyn_content d) (dyn_place d) data" .
  moreover have "dyn_ok (if int n > dyn_size d then f\<lparr>dyn_size := int n\<rparr> else f)"
    using d(2,3) e(1-4,6) len g by (auto simp: dyn_ok_def f_def)
  moreover have "dyn_place (if int n > dyn_size d then f\<lparr>dyn_size := int n\<rparr> else f) = dyn_place d + length data"
    using d(1) by (simp add: dyn_place_def f_def n_def nat_add_distrib)
  ultimately show ?thesis unfolding run by auto
qed

interpretation dyn_sink: output_sink "dyn_callbacks 0" dyn_buf_write dyn_buf_seek dyn_ok dyn_content dyn_place DYN_LIMIT
proof
  show "\<exists>r d'. dyn_buf_seek d (int p) SEEK_SET = (r, d') \<and> 0 \<le> r \<and> dyn_ok d' \<and> dyn_content d' = dyn_content d \<and> dyn_place d' = p"
    if "dyn_ok d" "p \<le> length (dyn_content d)" "length (dyn_content d) \<le> DYN_LIMIT" for d p
    using that by (auto simp: dyn_buf_seek_def dyn_ok_def dyn_content_def dyn_place_def)
qed (simp_all add: dyn_callbacks_def dyn_buf_write_ok)

lemma dyn_opened:
  "dyn_sink.sane (url_open_dyn_buf_internal 0)" "dyn_sink.image (url_open_dyn_buf_internal 0) = []"
  "dyn_sink.point (url_open_dyn_buf_internal 0) = 0"
  by (simp_all add: url_open_dyn_buf_internal_def ffio_init_context_def Let_def url_resetbuf_def dyn_callbacks_def dyn_sink.sane_def
      dyn_sink.loaded_def dyn_sink.in_place_def dyn_ok_def dyn_content_def dyn_place_def dyn_sink.image_def dyn_sink.pending_def
      dyn_sink.point_def)

lemma dyn_sane_size: "dyn_sink.sane s \<Longrightarrow> dyn_size (opaque s) = int (length (dyn_content (opaque s)))"
  by (auto simp: dyn_sink.sane_def dyn_sink.loaded_def dyn_sink.in_place_def dyn_ok_def dyn_content_def)

text \<open>Any writes, fills, seeks within what is written and flushes on a buffer in memory give the places a plain file gives,
  and what \<open>avio_get_dyn_buf\<close> hands out are the bytes of the plain file.\<close>

theorem avio_dyn_buf_collects:
  assumes "plain_run ops ([], 0) = Some (rs, c, p)" "length c \<le> DYN_LIMIT"
  shows "\<exists>s b s'. out_run (dyn_callbacks 0) ops (url_open_dyn_buf_internal 0) = Some (rs, s) \<and>
    avio_get_dyn_buf (dyn_callbacks 0) s = Some (int (length c), b, s') \<and> take (length c) b = c"
proof -
  obtain s where s: "out_run (dyn_callbacks 0) ops (url_open_dyn_buf_internal 0) = Some (rs, s)" "dyn_sink.sane s" "dyn_sink.image s = c"
    using dyn_sink.out_run_refines [of "url_open_dyn_buf_internal 0" ops rs c p] dyn_opened assms by auto
  obtain s' where s': "avio_flush (dyn_callbacks 0) s = Some s'" "dyn_sink.sane s'" "dyn_content (opaque s') = c"
    using dyn_sink.avio_flush_ok [OF s(2)] s(3) assms(2) by auto
  have sz: "dyn_size (opaque s') = int (length c)" using dyn_sane_size [OF s'(2)] unfolding s'(3) .
  have "avio_get_dyn_buf (dyn_callbacks 0) s = Some (int (length c), dyn_buffer (opaque s'), s')"
    using s'(1) sz by (simp add: avio_get_dyn_buf_def)
  moreover have "take (length c) (dyn_buffer (opaque s')) = c" using s'(3) sz by (simp add: dyn_content_def)
  ultimately show ?thesis using s(1) by blast
qed

lemma avio_dyn_buf_collects_witness:
  "\<exists>s b s'. out_run (dyn_callbacks 0) [PutBytes [1, 2, 3, 4], SeekTo 1, PutByte 9, FlushOut, TellPlace, SkipBy 2, PutFill 7 2]
      (url_open_dyn_buf_internal 0) = Some ([0, 1, 0, 0, 2, 4, 0], s) \<and>
     avio_get_dyn_buf (dyn_callbacks 0) s = Some (6, b, s') \<and> take 6 b = [1, 9, 3, 4, 7, 7]"
proof -
  have "plain_run [PutBytes [1, 2, 3, 4], SeekTo 1, PutByte 9, FlushOut, TellPlace, SkipBy 2, PutFill 7 2] ([], 0) =
      Some ([0, 1, 0, 0, 2, 4, 0], [1, 9, 3, 4, 7, 7], 6)"
    by code_simp
  note run = avio_dyn_buf_collects [OF this]
  have l: "length [1, 9, 3, 4, 7, 7 :: byte] = 6" by simp
  have le: "(6 :: nat) \<le> DYN_LIMIT" by simp
  show ?thesis by (rule run [unfolded l of_nat_numeral, OF le])
qed

text \<open>\<open>avio_close_dyn_buf\<close> writes its 64 bytes of padding at the place of the writer.  After a seek to an earlier place
  they replace bytes that were written, and the size handed out is too small.\<close>

theorem avio_close_dyn_buf_padding:
  assumes "plain_run ops ([], 0) = Some (rs, c, p)" "max (length c) (p + 64) \<le> DYN_LIMIT"
  shows "\<exists>s b. out_run (dyn_callbacks 0) ops (url_open_dyn_buf_internal 0) = Some (rs, s) \<and>
    avio_close_dyn_buf (dyn_callbacks 0) s = Some (int (max (length c) (p + 64)) - 64, b) \<and>
    take (max (length c) (p + 64)) b = written c p (replicate 64 0)"
proof -
  have l: "length c \<le> DYN_LIMIT" using assms(2) by simp
  obtain s where s: "out_run (dyn_callbacks 0) ops (url_open_dyn_buf_internal 0) = Some (rs, s)" "dyn_sink.sane s" "dyn_sink.image s = c"
    "dyn_sink.point s = p" "dyn_sink.stays (url_open_dyn_buf_internal 0) s"
    using dyn_sink.out_run_refines [of "url_open_dyn_buf_internal 0" ops rs c p] dyn_opened assms(1) l by auto
  have pc: "p \<le> length c" using plain_run_grows [OF assms(1)] by simp
  have packets: "io_max_packet_size s = 0" using s(5) by (simp add: dyn_sink.stays_def url_open_dyn_buf_internal_def)
  have w: "length (written c p (replicate 64 0)) = max (length c) (p + 64)" by (simp add: written_length [OF pc])
  obtain s1 where s1: "avio_write (dyn_callbacks 0) s (replicate 64 0) = Some s1" "dyn_sink.sane s1"
    "dyn_sink.image s1 = written c p (replicate 64 0)"
    using dyn_sink.avio_write_ok [OF s(2), of "replicate 64 0"] s(3,4) w assms(2) by auto
  obtain s2 where s2: "avio_flush (dyn_callbacks 0) s1 = Some s2" "dyn_sink.sane s2" "dyn_content (opaque s2) = written c p (replicate 64 0)"
    using dyn_sink.avio_flush_ok [OF s1(2)] s1(3) w assms(2) by auto
  have sz: "dyn_size (opaque s2) = int (max (length c) (p + 64))" using dyn_sane_size [OF s2(2)] unfolding s2(3) w .
  have "avio_close_dyn_buf (dyn_callbacks 0) s = Some (int (max (length c) (p + 64)) - 64, dyn_buffer (opaque s2))"
    using s1(1) s2(1) sz packets by (simp add: avio_close_dyn_buf_def)
  moreover have "take (max (length c) (p + 64)) (dyn_buffer (opaque s2)) = written c p (replicate 64 0)"
    using s2(3) sz by (simp add: dyn_content_def del: of_nat_max)
  ultimately show ?thesis using s(1) by blast
qed


lemma avio_close_dyn_buf_padding_witness:
  "\<exists>s b. out_run (dyn_callbacks 0) [PutBytes [1, 2, 3], SeekTo 1] (url_open_dyn_buf_internal 0) = Some ([0, 1], s) \<and>
     avio_close_dyn_buf (dyn_callbacks 0) s = Some (1, b) \<and> take 65 b = 1 # replicate 64 0"
proof -
  have p: "plain_run [PutBytes [1, 2, 3], SeekTo 1] ([], 0) = Some ([0, 1], [1, 2, 3], 1)" by code_simp
  have m: "max (length [1, 2, 3 :: byte]) (1 + 64) = 65" "int 65 - 64 = 1" by simp_all
  have w: "written [1, 2, 3 :: byte] 1 (replicate 64 0) = 1 # replicate 64 0" by code_simp
  have le: "(65 :: nat) \<le> DYN_LIMIT" by simp
  show ?thesis by (rule avio_close_dyn_buf_padding [OF p, unfolded m w, OF le])
qed


subsection \<open>Into a file\<close>

text \<open>A local file whose writes do not fail, though the system may take fewer bytes than given, opened for writing and
  waiting until all is written.\<close>

definition file_sink :: "FileContext URLContext \<Rightarrow> bool" where
  "file_sink h \<longleftrightarrow> url_flags h AND AVIO_FLAG_WRITE \<noteq> 0 \<and> url_flags h AND AVIO_FLAG_NONBLOCK = 0 \<and> max_packet_size h = 0 \<and>
     True \<notin> set (interrupts h) \<and> 1 \<le> blocksize (priv_data h) \<and>
     (\<forall>r \<in> set (replies (file_fd (priv_data h))). \<exists>k. r = Transfers k)"

abbreviation sink_bytes :: "FileContext URLContext \<Rightarrow> byte list" where "sink_bytes h \<equiv> file_bytes (file_fd (priv_data h))"
abbreviation sink_offset :: "FileContext URLContext \<Rightarrow> nat" where "sink_offset h \<equiv> file_offset (file_fd (priv_data h))"

lemma no_failure: "\<forall>r \<in> set (replies d). \<exists>k. r = Transfers k \<Longrightarrow> sys_error d = None \<and> (\<forall>r \<in> set (List.tl (replies d)). \<exists>k. r = Transfers k)"
  by (cases "replies d") (auto simp: sys_error_def)

lemma file_write_some:
  assumes "\<forall>r \<in> set (replies (file_fd c)). \<exists>k. r = Transfers k" "1 \<le> blocksize c" "bs \<noteq> []"
  shows "\<exists>n c'. file_write c bs = (int n, c') \<and> 0 < n \<and> n \<le> length bs \<and>
    file_bytes (file_fd c') = written (file_bytes (file_fd c)) (file_offset (file_fd c)) (take n bs) \<and>
    file_offset (file_fd c') = file_offset (file_fd c) + n \<and> blocksize c' = blocksize c \<and>
    (\<forall>r \<in> set (replies (file_fd c')). \<exists>k. r = Transfers k)"
proof -
  define a where "a = nat (min (int (length bs)) (blocksize c))"
  have a: "0 < a" "a \<le> length bs" using assms(2,3) by (cases bs; simp add: a_def)+
  define n where "n = served (file_fd c) a"
  have n: "0 < n" "n \<le> a" using served_bounds(1) [of "file_fd c" a] served_bounds(2) [of a "file_fd c"] a(1) by (simp_all add: n_def)
  have "length (take a bs) = a" "take n (take a bs) = take n bs" using a(2) n(2) by (simp_all add: min_def)
  then have "file_write c bs = (int n, c\<lparr>file_fd := (next_call (file_fd c))\<lparr>file_bytes := written (file_bytes (file_fd c)) (file_offset (file_fd c)) (take n bs),
      file_offset := file_offset (file_fd c) + n\<rparr>\<rparr>)"
    using no_failure [OF assms(1)] by (simp add: file_write_def sys_write_def Let_def a_def [symmetric] n_def [symmetric])
  then show ?thesis using n a no_failure [OF assms(1)] by simp
qed

definition write_transfer :: "byte list \<Rightarrow> FileContext transfer" where
  "write_transfer bs = (\<lambda>s len amount. case file_write s (take (nat amount) (drop len bs)) of (ret, s) \<Rightarrow> Some (ret, [], s))"

lemma retry_writes:
  assumes "file_sink h" "len \<le> length bs" "sink_offset h \<le> length (sink_bytes h)"
  shows "\<exists>h'. retry_loop (write_transfer bs) (int (length bs)) (int (length bs)) h [] (int len) fast_retries wait_since =
      Some (int (length bs), [], h') \<and> file_sink h' \<and> sink_bytes h' = written (sink_bytes h) (sink_offset h) (drop len bs) \<and>
      sink_offset h' = sink_offset h + (length bs - len)"
  using assms
proof (induction "length bs - len" arbitrary: h len fast_retries wait_since rule: less_induct)
  case less
  show ?case
  proof (cases "len < length bs")
    case False
    then show ?thesis using less.prems by (subst retry_loop.simps) simp
  next
    case True
    obtain h1 where h1: "ff_check_interrupt h = (False, h1)" "file_sink h1" "priv_data h1 = priv_data h"
    proof (cases "interrupts h")
      case Nil
      then show ?thesis using that [of h] less.prems(1) by (simp add: ff_check_interrupt_def)
    next
      case (Cons b bs')
      then show ?thesis using that [of "h\<lparr>interrupts := bs'\<rparr>"] less.prems(1) by (simp add: ff_check_interrupt_def file_sink_def)
    qed
    have ok: "\<forall>r \<in> set (replies (file_fd (priv_data h1))). \<exists>k. r = Transfers k" "1 \<le> blocksize (priv_data h1)" "drop len bs \<noteq> []"
      using h1(2) True by (simp_all add: file_sink_def)
    obtain n c where c: "file_write (priv_data h) (drop len bs) = (int n, c)" "0 < n" "n \<le> length bs - len"
      "file_bytes (file_fd c) = written (sink_bytes h) (sink_offset h) (take n (drop len bs))"
      "file_offset (file_fd c) = sink_offset h + n" "blocksize c = blocksize (priv_data h)"
      "\<forall>r \<in> set (replies (file_fd c)). \<exists>k. r = Transfers k"
      using file_write_some [OF ok] unfolding h1(3) by auto
    define h2 where "h2 = h1\<lparr>priv_data := c\<rparr>"
    have h2: "file_sink h2" "sink_bytes h2 = written (sink_bytes h) (sink_offset h) (take n (drop len bs))" "sink_offset h2 = sink_offset h + n"
      using h1(2,3) c(4-7) by (simp_all add: h2_def file_sink_def)
    have amount: "take (nat (int (length bs) - int len)) (drop (nat (int len)) bs) = drop len bs" by simp
    have turn: "transfer_turn (write_transfer bs) (int (length bs)) h [] (int len) fast_retries wait_since =
        Some (Again h2 [] (int (len + n)) (max fast_retries 2) 0)"
      using h1(2) c(2) unfolding transfer_turn_def h1(1) prod.case Let_def if_False
      by (simp add: write_transfer_def amount h1(3) c(1) h2_def after_transfer_def file_sink_def)
    have taken: "length (take n (drop len bs)) = n" "drop n (drop len bs) = drop (len + n) bs" using c(3) by (simp_all add: add.commute)
    have rest: "written (sink_bytes h2) (sink_offset h2) (drop (len + n) bs) = written (sink_bytes h) (sink_offset h) (drop len bs)"
      using written_take_drop [OF less.prems(3), of n "drop len bs"] unfolding h2(2,3) taken(1) taken(2) .
    have off: "sink_offset h2 \<le> length (sink_bytes h2)" using c(3) unfolding h2(2,3) by (simp add: written_length [OF less.prems(3)])
    have meas: "length bs - (len + n) < length bs - len" "len + n \<le> length bs" using c(2,3) True by simp_all
    from less.hyps [OF meas(1) h2(1) meas(2) off] obtain h' where h':
      "retry_loop (write_transfer bs) (int (length bs)) (int (length bs)) h2 [] (int (len + n)) (max fast_retries 2) 0 = Some (int (length bs), [], h')"
      "file_sink h'" "sink_bytes h' = written (sink_bytes h) (sink_offset h) (drop len bs)" "sink_offset h' = sink_offset h2 + (length bs - (len + n))"
      unfolding rest by blast
    have "retry_loop (write_transfer bs) (int (length bs)) (int (length bs)) h [] (int len) fast_retries wait_since = Some (int (length bs), [], h')"
      by (subst retry_loop.simps, unfold turn) (use True h'(1) in simp)
    then show ?thesis using h' h2(3) meas by (intro exI [of _ h']) simp
  qed
qed


lemma ffurl_write_file:
  assumes "file_sink h" "sink_offset h \<le> length (sink_bytes h)"
  shows "\<exists>r h'. ffurl_write (\<lambda>c bs. Some (file_write c bs)) h data = Some (r, h') \<and> 0 \<le> r \<and> file_sink h' \<and>
    sink_bytes h' = written (sink_bytes h) (sink_offset h) data \<and> sink_offset h' = sink_offset h + length data"
proof -
  obtain h' where h': "retry_loop (write_transfer data) (int (length data)) (int (length data)) h [] 0 5 0 = Some (int (length data), [], h')"
    "file_sink h'" "sink_bytes h' = written (sink_bytes h) (sink_offset h) data" "sink_offset h' = sink_offset h + length data"
    using retry_writes [OF assms(1) _ assms(2), of 0 data 5 0] by auto
  have t: "(\<lambda>s len amount. Option.bind (Some (file_write s (take (nat amount) (drop len data)))) (\<lambda>(ret, s). Some (ret, [], s))) = write_transfer data"
    by (simp add: write_transfer_def)
  have "ffurl_write (\<lambda>c bs. Some (file_write c bs)) h data = Some (int (length data), h')"
    using assms(1) h'(1) unfolding ffurl_write_def t retry_transfer_wrapper_def by (simp add: file_sink_def)
  then show ?thesis using h' by simp
qed

interpretation file_out: output_sink file_callbacks "ffurl_write (\<lambda>c bs. Some (file_write c bs))" "ffurl_seek (Some file_seek)" file_sink
  sink_bytes sink_offset 9223372036854775807
proof
  show "\<exists>r d'. ffurl_write (\<lambda>c bs. Some (file_write c bs)) d data = Some (r, d') \<and> 0 \<le> r \<and> file_sink d' \<and>
      sink_bytes d' = written (sink_bytes d) (sink_offset d) data \<and> sink_offset d' = sink_offset d + length data"
    if "file_sink d" "sink_offset d \<le> length (sink_bytes d)" for d data
    using ffurl_write_file [OF that] .
  show "\<exists>r d'. ffurl_seek (Some file_seek) d (int p) SEEK_SET = (r, d') \<and> 0 \<le> r \<and> file_sink d' \<and> sink_bytes d' = sink_bytes d \<and> sink_offset d' = p"
    if "file_sink d" for d p
    using that no_failure [of "file_fd (priv_data d)"]
    by (simp add: ffurl_seek_def file_seek_def sys_lseek_def Let_def file_sink_def)
qed (simp_all add: file_callbacks_def io_callbacks_def)

text \<open>C18. Writes, fills, seeks within what is there and flushes through a buffered context on a local file, with or without
  the direct flag, whatever part of each write the system takes: after a flush the file holds what a plain file
  would, and every place reported on the way is right.\<close>

theorem avio_file_written:
  assumes "file_sink h" "sink_offset h = 0" "plain_run ops (sink_bytes h, 0) = Some (rs, c, p)" "length c \<le> 9223372036854775807"
    and "\<forall>op \<in> set ops. out_arguments op"
  shows "\<exists>s s'. out_run file_callbacks ops (ffio_fdopen file_callbacks h False m) = Some (rs, s) \<and>
    avio_flush file_callbacks s = Some s' \<and> sink_bytes (opaque s') = c \<and> tell s' = int p"
proof -
  let ?s = "ffio_fdopen file_callbacks h False m"
  have s: "file_out.sane ?s" "file_out.image ?s = sink_bytes h" "file_out.point ?s = 0"
    using assms(1,2)
    by (simp_all add: ffio_fdopen_def ffio_init_context_def Let_def url_resetbuf_def file_callbacks_def io_callbacks_def file_out.sane_def
        file_out.loaded_def file_out.in_place_def file_out.image_def file_out.pending_def file_out.point_def file_sink_def)
  obtain s1 where s1: "out_run file_callbacks ops ?s = Some (rs, s1)" "file_out.sane s1" "file_out.image s1 = c" "file_out.point s1 = p"
    using file_out.out_run_refines [OF s(1), of ops rs c p] s assms(3,4) by auto
  obtain s2 where s2: "avio_flush file_callbacks s1 = Some s2" "file_out.sane s2" "file_out.point s2 = p" "sink_bytes (opaque s2) = c"
    using file_out.avio_flush_ok [OF s1(2)] s1(3,4) assms(4) by auto
  show ?thesis using s1(1) s2 file_out.tell_point [OF s2(2)] by auto
qed

definition demo_output :: "FileContext URLContext" where
  "demo_output = \<lparr>priv_data = \<lparr>file_fd = \<lparr>file_bytes = [10, 20, 30, 40, 50, 60], file_offset = 0, replies = [Transfers 0, Transfers 1]\<rparr>,
      blocksize = 4, follow = False, is_fifo = False\<rparr>, url_flags = 2, max_packet_size = 0, rw_timeout = 0, interrupts = [], clock = []\<rparr>"

theorem avio_file_written_witness:
  "\<exists>s s'. out_run file_callbacks [PutBytes [1, 2, 3, 4, 5], SeekTo 1, PutByte 9] (ffio_fdopen file_callbacks demo_output False 0) =
       Some ([0, 1, 0], s) \<and>
     avio_flush file_callbacks s = Some s' \<and> sink_bytes (opaque s') = [1, 9, 3, 4, 5, 60] \<and> tell s' = 2"
proof -
  have h: "file_sink demo_output" by (simp add: file_sink_def demo_output_def and_num.simps)
  have p: "plain_run [PutBytes [1, 2, 3, 4, 5], SeekTo 1, PutByte 9] (sink_bytes demo_output, 0) = Some ([0, 1, 0], [1, 9, 3, 4, 5, 60], 2)"
    by code_simp
  have o0: "sink_offset demo_output = 0" by (simp add: demo_output_def)
  have l: "length [1, 9, 3, 4, 5, 60 :: byte] \<le> 9223372036854775807" by simp
  have a: "\<forall>op \<in> set [PutBytes [1, 2, 3, 4, 5], SeekTo 1, PutByte 9]. out_arguments op" by simp
  from avio_file_written [OF h o0 p l a, of 0] show ?thesis by (simp del: out_run.simps)
qed

end
