(* ===== verification/AvioRead.thy ===== *)
theory AvioRead
  imports Aviobuf
begin

section \<open>Buffered reading refines reading the resource\<close>

text \<open>
  What is read through an \<open>AVIOContext\<close>, with seeks in between, are the bytes of the resource at the place of the reader,
  whatever the buffer holds and whichever way a seek is done: in the buffer, by reading on, by going back half a
  buffer or by seeking the protocol.  The protocol has the contract \<open>url_protocol\<close>, and never delivers nothing
  without saying why.
\<close>

locale stream_protocol = url_protocol +
  fixes cb :: "'a callbacks"
  assumes callbacks: "read_packet cb = Some url_read" "seek_cb cb = Some url_seek"
    and read_nonzero: "valid s \<Longrightarrow> 0 < n \<Longrightarrow> url_read s n = Some (r, bs, s') \<Longrightarrow> r \<noteq> 0"
begin

text \<open>The buffer holds the bytes before the place of the protocol.  If the end was met, it is the end or an error is noted.\<close>

definition filled :: "'a AVIOContext \<Rightarrow> bool" where
  "filled s \<longleftrightarrow> \<not> write_flag s \<and> valid (opaque s) \<and> position (opaque s) = io_pos s \<and> buf_ptr s \<le> buf_end s \<and> buf_end s \<le> buffer_size s \<and>
     0 < buffer_size s \<and> int (buf_end s) \<le> io_pos s \<and>
     take (buf_end s) (buffer s) = between (nat (io_pos s) - buf_end s) (nat (io_pos s)) (resource (opaque s)) \<and>
     io_error s \<le> 0 \<and> (eof_reached s \<longrightarrow> io_error s \<noteq> 0 \<or> int (length (resource (opaque s))) \<le> io_pos s)"

abbreviation source :: "'a AVIOContext \<Rightarrow> byte list" where "source s \<equiv> resource (opaque s)"

lemma filled_tell: "filled s \<Longrightarrow> tell s = io_pos s - int (buf_end s) + int (buf_ptr s) \<and> 0 \<le> tell s \<and> tell s \<le> io_pos s"
  by (auto simp: filled_def tell_def buffer_start_def)

text \<open>Reading from the protocol.\<close>

lemma read_wrapper_ok:
  assumes "valid (opaque s)" "0 < n"
  shows "\<exists>r bs d. read_packet_wrapper cb s n = Some (r, bs, s\<lparr>opaque := d\<rparr>) \<and> valid d \<and> resource d = source s \<and> r \<noteq> 0 \<and>
    (0 < r \<longrightarrow> r \<le> int n \<and> position (opaque s) + r \<le> int (length (source s)) \<and>
       bs = take (nat r) (drop (nat (position (opaque s))) (source s)) \<and> length bs = nat r \<and> position d = position (opaque s) + r) \<and>
    (r < 0 \<longrightarrow> position d = position (opaque s)) \<and> (r = AVERROR_EOF \<longrightarrow> int (length (source s)) \<le> position (opaque s))"
proof -
  have n: "0 < int n" using assms(2) by simp
  obtain r bs d where u: "url_read (opaque s) (int n) = Some (r, bs, d)" using read_returns [OF assms(1) n] by blast
  have r: "r \<noteq> 0" using read_nonzero [OF assms(1) n u] .
  have len: "0 < r \<Longrightarrow> length bs = nat r"
  proof -
    assume r: "0 < r"
    have "nat (position (opaque s)) + nat r \<le> length (source s)" using read_bytes [OF assms(1) n u r] position_nonneg [OF assms(1)] r by linarith
    then show ?thesis using read_bytes [OF assms(1) n u r] by simp
  qed
  have "read_packet_wrapper cb s n = Some (r, bs, s\<lparr>opaque := d\<rparr>)"
    using u r by (simp add: read_packet_wrapper_def callbacks)
  then show ?thesis
    using read_keeps [OF assms(1) n u] read_bytes [OF assms(1) n u] read_stays [OF assms(1) n u] read_end [OF assms(1) n, of bs d] u r len
    by (intro exI [of _ r] exI [of _ bs] exI [of _ d]) auto
qed

text \<open>What \<open>fill_buffer\<close> does before it reads keeps the state, or forgets what the buffer holds.\<close>

definition fill_target :: "'a AVIOContext \<Rightarrow> nat" where
  "fill_target s = (let m = (if io_max_packet_size s \<noteq> 0 then io_max_packet_size s else IO_BUFFER_SIZE)
     in if buf_end s + m < buffer_size s then buf_end s else 0)"

lemma fill_checksum_frame [simp]:
  "buffer (fill_checksum s d) = buffer s" "buf_ptr (fill_checksum s d) = buf_ptr s" "buf_end (fill_checksum s d) = buf_end s"
  "orig_buffer_size (fill_checksum s d) = orig_buffer_size s" "opaque (fill_checksum s d) = opaque s"
  "io_pos (fill_checksum s d) = io_pos s" "eof_reached (fill_checksum s d) = eof_reached s"
  "write_flag (fill_checksum s d) = write_flag s" "io_max_packet_size (fill_checksum s d) = io_max_packet_size s"
  "io_error (fill_checksum s d) = io_error s" "direct (fill_checksum s d) = direct s"
  "update_checksum (fill_checksum s d) = update_checksum s"
  by (simp_all add: fill_checksum_def split: option.splits)

lemma shrink_ok:
  assumes "filled s" "shrink_buffer cb (fill_checksum s (fill_target s)) (fill_target s) (buffer_size s - fill_target s) = (t, dst, len)"
  shows "filled t \<and> opaque t = opaque s \<and> io_pos t = io_pos s \<and> eof_reached t = eof_reached s \<and> io_error t = io_error s \<and>
    0 < len \<and> dst + len \<le> buffer_size t \<and> dst \<in> {0, buf_end t} \<and> (buf_ptr s = buf_end s \<longrightarrow> buf_ptr t = buf_end t)"
proof -
  let ?s = "fill_checksum s (fill_target s)"
  have tgt: "fill_target s = 0 \<or> fill_target s = buf_end s \<and> buf_end s < buffer_size s" by (auto simp: fill_target_def Let_def)
  have s: "filled ?s" using assms(1) by (simp add: filled_def)
  show ?thesis
  proof (cases "orig_buffer_size s \<noteq> 0 \<and> buffer_size s > orig_buffer_size s \<and> buffer_size s - fill_target s \<ge> orig_buffer_size s")
    case False
    then have "t = ?s" "dst = fill_target s" "len = buffer_size s - fill_target s"
      using assms(2) by (auto simp: shrink_buffer_def callbacks)
    then show ?thesis using s tgt assms(1) by (auto simp: filled_def)
  next
    case big: True
    show ?thesis
    proof (cases "fill_target s = 0 \<and> buf_ptr s \<noteq> 0")
      case True
      then have "t = (ffio_set_buf_size ?s (replicate (orig_buffer_size s) 0))\<lparr>checksum_ptr := 0\<rparr>" "dst = 0" "len = orig_buffer_size s"
        using assms(2) big by (auto simp: shrink_buffer_def callbacks ffio_set_buf_size_def url_resetbuf_def)
      then show ?thesis using s big by (auto simp: filled_def ffio_set_buf_size_def url_resetbuf_def between_def)
    next
      case False
      then have "t = ?s" "dst = fill_target s" "len = orig_buffer_size s"
        using assms(2) big by (auto simp: shrink_buffer_def callbacks split: if_splits)
      then show ?thesis using s tgt big by auto
    qed
  qed
qed

lemma between_append:
  "a \<le> b \<Longrightarrow> b \<le> c \<Longrightarrow> between a b xs @ between b c xs = between a c xs"
proof -
  assume "a \<le> b" "b \<le> c"
  then obtain i j where "b = a + i" "c = b + j" using le_Suc_ex by metis
  then show ?thesis by (simp add: between_def take_add add.commute)
qed

lemma fill_buffer_ok:
  assumes "filled s" "\<not> eof_reached s"
  shows "\<exists>s'. fill_buffer cb s = Some s' \<and> filled s' \<and> source s' = source s \<and>
    (if eof_reached s' then io_pos s' = io_pos s \<and> (buf_ptr s = buf_end s \<longrightarrow> buf_ptr s' = buf_end s')
     else io_pos s < io_pos s' \<and> io_pos s' \<le> int (length (source s)) \<and> tell s' = io_pos s)"
proof -
  obtain t dst len where sh: "shrink_buffer cb (fill_checksum s (fill_target s)) (fill_target s) (buffer_size s - fill_target s) = (t, dst, len)"
    by (metis prod_cases3)
  note t = shrink_ok [OF assms(1) sh]
  have v: "valid (opaque t)" "0 < len" using t unfolding filled_def by blast+
  obtain r bs d where rd: "read_packet_wrapper cb t len = Some (r, bs, t\<lparr>opaque := d\<rparr>)" "valid d" "resource d = source t" "r \<noteq> 0"
    "0 < r \<longrightarrow> r \<le> int len \<and> position (opaque t) + r \<le> int (length (source t)) \<and>
       bs = take (nat r) (drop (nat (position (opaque t))) (source t)) \<and> length bs = nat r \<and> position d = position (opaque t) + r"
    "r < 0 \<longrightarrow> position d = position (opaque t)" "r = AVERROR_EOF \<longrightarrow> int (length (source t)) \<le> position (opaque t)"
    using read_wrapper_ok [OF v] by (elim exE conjE) (rule that)
  have fb: "fill_buffer cb s = Some (if r = AVERROR_EOF then t\<lparr>opaque := d, eof_reached := True\<rparr>
      else if r < 0 then t\<lparr>opaque := d, eof_reached := True, io_error := r\<rparr>
      else t\<lparr>opaque := d, buffer := stored (buffer t) dst bs, io_pos := io_pos t + r, buf_ptr := dst, buf_end := dst + nat r,
             bytes_read := bytes_read t + r\<rparr>)"
    using assms(2) rd(1) sh unfolding fill_buffer_def Let_def fill_target_def [unfolded Let_def, symmetric]
    by (simp add: callbacks)
  show ?thesis
  proof (cases "r < 0")
    case True
    define s' where "s' = (if r = AVERROR_EOF then t\<lparr>opaque := d, eof_reached := True\<rparr> else t\<lparr>opaque := d, eof_reached := True, io_error := r\<rparr>)"
    have "filled s' \<and> source s' = source s \<and> eof_reached s' \<and> io_pos s' = io_pos s \<and> buf_ptr s' = buf_ptr t \<and> buf_end s' = buf_end t"
      using t rd True by (auto simp: s'_def filled_def)
    moreover have "fill_buffer cb s = Some s'" using fb True by (auto simp: s'_def)
    ultimately show ?thesis using t by (intro exI [of _ s']) auto
  next
    case False
    then have r: "0 < r" "r \<noteq> AVERROR_EOF" using rd(4) by auto
    define s' where "s' = t\<lparr>opaque := d, buffer := stored (buffer t) dst bs, io_pos := io_pos t + r, buf_ptr := dst, buf_end := dst + nat r,
             bytes_read := bytes_read t + r\<rparr>"
    have run: "fill_buffer cb s = Some s'" using fb r by (simp add: s'_def)
    have pos: "position (opaque t) = io_pos t" "0 \<le> io_pos t" "int (buf_end t) \<le> io_pos t" using t by (auto simp: filled_def)
    have bs: "bs = between (nat (io_pos t)) (nat (io_pos t + r)) (source t)" "length bs = nat r" "r \<le> int len"
      using rd(5) r(1) pos by (auto simp: between_def nat_add_distrib)
    have room: "dst + length bs \<le> buffer_size t" using t bs(2,3) by linarith
    have old: "take dst (buffer t) = between (nat (io_pos t) - dst) (nat (io_pos t)) (source t)"
    proof -
      have "dst = 0 \<or> dst = buf_end t" using t by blast
      then show ?thesis using t by (auto simp: filled_def between_def)
    qed
    have dst: "dst \<le> nat (io_pos t)" using t pos(2,3) by auto
    have "take (dst + nat r) (stored (buffer t) dst bs) = take dst (buffer t) @ bs"
      using room bs(2) by (simp add: stored_def min_def)
    also have "\<dots> = between (nat (io_pos t) - dst) (nat (io_pos t + r)) (source t)"
      unfolding old bs(1) by (rule between_append) (use r(1) pos(2) in auto)
    finally have new: "take (dst + nat r) (stored (buffer t) dst bs) = between (nat (io_pos t + r) - (dst + nat r)) (nat (io_pos t + r)) (source t)"
      using dst r(1) pos(2) by (simp add: nat_add_distrib)
    have slen: "length (stored (buffer t) dst bs) = buffer_size t" using room by (simp add: stored_def)
    have "filled s'"
      unfolding filled_def using t rd(2,3,5) r(1) pos room bs(2) new slen dst assms(2) by (auto simp: s'_def filled_def)
    moreover have "\<not> eof_reached s'" "source s' = source s" "io_pos s < io_pos s'" "tell s' = io_pos s"
      using t rd(3) r(1) assms(2) by (auto simp: s'_def tell_def buffer_start_def filled_def)
    moreover have "io_pos s' \<le> int (length (source s))" using rd(5) r(1) pos(1) t by (simp add: s'_def)
    ultimately show ?thesis using run by (intro exI [of _ s']) auto
  qed
qed

lemma fill_any_ok:
  assumes "filled s"
  shows "\<exists>s'. fill_buffer cb s = Some s' \<and> filled s' \<and> source s' = source s \<and>
    (buf_ptr s = buf_end s \<longrightarrow> tell s' = tell s \<and> (eof_reached s' \<and> buf_ptr s' = buf_end s' \<or> \<not> eof_reached s' \<and> buf_ptr s' < buf_end s'))"
proof (cases "eof_reached s")
  case True
  then have "fill_buffer cb s = Some s" by (simp add: fill_buffer_def callbacks)
  then show ?thesis using assms True by auto
next
  case False
  from fill_buffer_ok [OF assms this] obtain s' where s': "fill_buffer cb s = Some s'" "filled s'" "source s' = source s"
    "if eof_reached s' then io_pos s' = io_pos s \<and> (buf_ptr s = buf_end s \<longrightarrow> buf_ptr s' = buf_end s')
     else io_pos s < io_pos s' \<and> io_pos s' \<le> int (length (source s)) \<and> tell s' = io_pos s" by blast
  show ?thesis using s' filled_tell [OF assms] filled_tell [OF s'(2)] by (intro exI [of _ s']) (auto split: if_splits)
qed

text \<open>Reading on until a place.\<close>

lemma fill_to_ok:
  assumes "filled s"
  shows "\<exists>s'. fill_to cb s offset = Some s' \<and> filled s' \<and> source s' = source s \<and>
    (if eof_reached s' then io_pos s < offset \<longrightarrow> io_pos s' < offset
     else offset \<le> io_pos s' \<and> (io_pos s < offset \<longrightarrow> io_pos s' - offset \<le> int (buf_end s')))"
  using assms
proof (induction "nat (offset - io_pos s)" arbitrary: s rule: less_induct)
  case less
  show ?case
  proof (cases "io_pos s < offset \<and> \<not> eof_reached s")
    case False
    then show ?thesis using less.prems by (subst fill_to.simps) auto
  next
    case True
    from fill_buffer_ok [OF less.prems] True obtain s1 where s1: "fill_buffer cb s = Some s1" "filled s1" "source s1 = source s"
      "if eof_reached s1 then io_pos s1 = io_pos s \<and> (buf_ptr s = buf_end s \<longrightarrow> buf_ptr s1 = buf_end s1)
       else io_pos s < io_pos s1 \<and> io_pos s1 \<le> int (length (source s)) \<and> tell s1 = io_pos s" by blast
    have step: "fill_to cb s offset = fill_to cb s1 offset" using True s1(1) by (subst fill_to.simps) simp
    show ?thesis
    proof (cases "eof_reached s1")
      case eof: True
      then have "fill_to cb s1 offset = Some s1" by (subst fill_to.simps) simp
      then show ?thesis using step s1 eof by auto
    next
      case False
      then have "io_pos s < io_pos s1" "tell s1 = io_pos s" using s1(4) by simp_all
      moreover have "io_pos s1 - int (buf_end s1) \<le> tell s1" using filled_tell [OF s1(2)] by simp
      moreover obtain s2 where s2: "fill_to cb s1 offset = Some s2" "filled s2" "source s2 = source s1"
        "if eof_reached s2 then io_pos s1 < offset \<longrightarrow> io_pos s2 < offset
          else offset \<le> io_pos s2 \<and> (io_pos s1 < offset \<longrightarrow> io_pos s2 - offset \<le> int (buf_end s2))"
        using less.hyps [OF _ s1(2)] True calculation(1) by auto
      moreover have "s2 = s1" if "offset \<le> io_pos s1" using that s2(1) by (subst (asm) fill_to.simps) auto
      ultimately show ?thesis using step s1(3) True False by (intro exI [of _ s2]) (cases "io_pos s1 < offset"; auto)
    qed
  qed
qed

text \<open>Seeking.\<close>

definition sought :: "'a AVIOContext \<Rightarrow> int \<Rightarrow> (int \<times> 'a AVIOContext) option \<Rightarrow> bool" where
  "sought s offset x \<longleftrightarrow>
     (\<exists>r s'. x = Some (r, s') \<and> filled s' \<and> source s' = source s \<and> 
       (r < 0 \<and> (r = AVERROR_EOF \<longrightarrow> io_error s' \<noteq> 0 \<or> int (length (source s)) < offset) \<or> r = offset \<and> tell s' = offset))"

lemma filled_max [simp]: "filled (s\<lparr>buf_ptr_max := m\<rparr>) = filled s"
  by (simp add: filled_def)

lemma seek_below_ok:
  assumes "filled s" "0 \<le> offset"
  shows "sought s offset (seek_below cb s offset)"
proof -
  obtain r d where sk: "url_seek (opaque s) offset SEEK_SET = (r, d)" by (cases "url_seek (opaque s) offset SEEK_SET")
  have v: "valid (opaque s)" using assms(1) by (simp add: filled_def)
  note k = seek_keeps [OF v sk] seek_fails [OF v sk] seek_moves [OF v sk] seek_error [OF v sk]
  have w: "\<not> write_flag s" using assms(1) by (simp add: filled_def)
  show ?thesis
  proof (cases "r < 0")
    case True
    then have "seek_below cb s offset = Some (r, s\<lparr>opaque := d\<rparr>)" using w sk by (simp add: seek_below_def callbacks)
    moreover have "filled (s\<lparr>opaque := d\<rparr>)" using assms(1) k True by (simp add: filled_def)
    ultimately show ?thesis using True k(1,4) by (simp add: sought_def)
  next
    case False
    define s' where "s' = s\<lparr>opaque := d, seek_count := seek_count s + 1, buf_end := 0, buf_ptr := 0, buf_ptr_max := 0, io_pos := offset, eof_reached := False\<rparr>"
    have "seek_below cb s offset = Some (offset, s')" using w sk False by (simp add: seek_below_def callbacks s'_def)
    moreover have "filled s'" using assms k False by (simp add: filled_def s'_def between_def)
    moreover have "tell s' = offset" "source s' = source s" using k(1) w by (simp_all add: s'_def tell_def buffer_start_def)
    ultimately show ?thesis by (auto simp: sought_def)
  qed
qed

lemma read_on_ok:
  assumes "filled s" "seek_choice cb s offset = ReadOn"
  shows "sought s offset (do { s \<leftarrow> fill_to cb s offset;
      if eof_reached s then Some (AVERROR_EOF, s)
      else Some (offset, s\<lparr>buf_ptr := nat (int (buf_end s) - (io_pos s - offset)), eof_reached := False\<rparr>) })"
proof -
  have w: "\<not> write_flag s" "buf_end s \<le> buffer_size s" using assms(1) by (simp_all add: filled_def)
  then have start: "buffer_start s = io_pos s - int (buf_end s)" by (simp add: buffer_start_def)
  have beyond: "io_pos s < offset" using assms(2) w(1) start by (auto simp: seek_choice_def Let_def split: if_splits)
  obtain t where t: "fill_to cb s offset = Some t" "filled t" "source t = source s"
    "if eof_reached t then io_pos s < offset \<longrightarrow> io_pos t < offset
     else offset \<le> io_pos t \<and> (io_pos s < offset \<longrightarrow> io_pos t - offset \<le> int (buf_end t))"
    using fill_to_ok [OF assms(1), of offset] by (elim exE conjE) (rule that)
  show ?thesis
  proof (cases "eof_reached t")
    case True
    then have "io_error t \<noteq> 0 \<or> int (length (source t)) < offset" using t(2,4) beyond by (auto simp: filled_def)
    then show ?thesis using True t(1-3) by (simp add: sought_def)
  next
    case False
    then have off: "offset \<le> io_pos t" "io_pos t - offset \<le> int (buf_end t)" using t(4) beyond by auto
    define u where "u = t\<lparr>buf_ptr := nat (int (buf_end t) - (io_pos t - offset)), eof_reached := False\<rparr>"
    have "filled u" using t(2) off by (simp add: u_def filled_def)
    moreover have "tell u = offset" using t(2) off by (simp add: u_def tell_def buffer_start_def filled_def)
    ultimately show ?thesis using False t(1,3) by (simp add: sought_def u_def)
  qed
qed

lemma in_buffer_ok:
  assumes "filled s" "seek_choice cb s offset = InBuffer"
  shows "sought s offset (Some (offset, s\<lparr>buf_ptr := nat (offset - buffer_start s), eof_reached := False\<rparr>))"
proof -
  have w: "\<not> write_flag s" using assms(1) by (simp add: filled_def)
  have "0 \<le> offset - buffer_start s" "offset - buffer_start s \<le> int (buf_end s)"
    using assms(2) w by (auto simp: seek_choice_def Let_def split: if_splits)
  then show ?thesis using assms(1) by (simp add: sought_def filled_def tell_def buffer_start_def)
qed

text \<open>The case without going back; then the target is not before the buffer.\<close>

lemma seek_forward_ok:
  assumes "filled s" "0 \<le> offset" "seek_choice cb (s\<lparr>buf_ptr_max := max (buf_ptr_max s) (buf_ptr s)\<rparr>) offset \<noteq> StepBack"
  shows "sought s offset (seek_to cb s offset)"
proof -
  let ?s = "s\<lparr>buf_ptr_max := max (buf_ptr_max s) (buf_ptr s)\<rparr>"
  have s: "filled ?s" using assms(1) by simp
  have same: "sought ?s offset x = sought s offset x" for x by (simp add: sought_def)
  show ?thesis
  proof (cases "seek_choice cb ?s offset")
    case InBuffer
    then show ?thesis using in_buffer_ok [OF s InBuffer] same by (subst seek_to.simps) (simp add: Let_def)
  next
    case ReadOn
    then show ?thesis using read_on_ok [OF s ReadOn] same by (subst seek_to.simps) (simp add: Let_def)
  next
    case SeekBelow
    then show ?thesis using seek_below_ok [OF s assms(2)] same by (subst seek_to.simps) (simp add: Let_def)
  qed (use assms(3) in simp)
qed

lemma seek_to_ok:
  assumes "filled s" "0 \<le> offset"
  shows "sought s offset (seek_to cb s offset)"
proof (cases "seek_choice cb (s\<lparr>buf_ptr_max := max (buf_ptr_max s) (buf_ptr s)\<rparr>) offset = StepBack")
  case False
  then show ?thesis using seek_forward_ok [OF assms] by simp
next
  case True
  define t where "t = s\<lparr>buf_ptr_max := max (buf_ptr_max s) (buf_ptr s)\<rparr>"
  define p where "p = buffer_start t - min (int (buf_end t div 2)) (buffer_start t)"
  have t: "filled t" "source t = source s" "seek_choice cb t offset = StepBack" "\<not> write_flag t" using assms(1) True by (simp_all add: t_def filled_def)
  have start: "buffer_start t = io_pos t - int (buf_end t)" "0 \<le> buffer_start t" using t(1) by (auto simp: buffer_start_def filled_def)
  have near: "offset - buffer_start t < 0" "- (offset - buffer_start t) < int (buf_end t div 2)" "0 < offset"
    using t(3) by (auto simp: seek_choice_def Let_def split: if_splits)
  then have p: "0 \<le> p" "p \<le> offset" using start(2) by (auto simp: p_def)
  obtain r d where sk: "url_seek (opaque t) p SEEK_SET = (r, d)" by (cases "url_seek (opaque t) p SEEK_SET")
  have v: "valid (opaque t)" using t(1) by (simp add: filled_def)
  note k = seek_keeps [OF v sk] seek_fails [OF v sk] seek_moves [OF v sk] seek_error [OF v sk]
  show ?thesis
  proof (cases "r < 0")
    case True
    then have "seek_to cb s offset = Some (r, t\<lparr>opaque := d\<rparr>)"
      using t(3) sk by (subst seek_to.simps) (simp add: t_def [symmetric] p_def [symmetric] callbacks Let_def)
    moreover have "filled (t\<lparr>opaque := d\<rparr>)" using t(1) k True by (simp add: filled_def)
    ultimately show ?thesis using True k(1,4) t(2) by (simp add: sought_def)
  next
    case False
    define u where "u = t\<lparr>opaque := d, buf_end := 0, buf_ptr := 0, io_pos := p, eof_reached := False\<rparr>"
    have u: "filled u" "source u = source s" using t(1,2) k False p(1) by (simp_all add: u_def filled_def between_def)
    obtain u1 where u1: "fill_buffer cb u = Some u1" "filled u1" "source u1 = source u"
      "buf_ptr u = buf_end u \<longrightarrow> tell u1 = tell u \<and> (eof_reached u1 \<and> buf_ptr u1 = buf_end u1 \<or> \<not> eof_reached u1 \<and> buf_ptr u1 < buf_end u1)"
      using fill_any_ok [OF u(1)] by (elim exE conjE) (rule that)
    have "tell u = p" using t(4) by (simp add: u_def tell_def buffer_start_def)
    then have "tell u1 = p" using u1(4) by (simp add: u_def)
    then have "buffer_start u1 \<le> offset" using p(2) by (simp add: tell_def)
    then have "seek_choice cb (u1\<lparr>buf_ptr_max := max (buf_ptr_max u1) (buf_ptr u1)\<rparr>) offset \<noteq> StepBack"
      by (auto simp: seek_choice_def Let_def buffer_start_def split: if_splits)
    from seek_forward_ok [OF u1(2) assms(2) this] have "sought s offset (seek_to cb u1 offset)"
      using u1(3) u(2) by (simp add: sought_def)
    moreover have "seek_to cb s offset = seek_to cb u1 offset"
      using t(3) sk False u1(1)
      by (subst seek_to.simps) (simp add: t_def [symmetric] p_def [symmetric] callbacks Let_def u_def)
    ultimately show ?thesis by simp
  qed
qed

lemma avio_seek_ok:
  assumes "filled s" "whence = SEEK_SET \<or> whence = SEEK_CUR"
  shows "sought s (offset + (if whence = SEEK_CUR then tell s else 0)) (avio_seek cb s offset whence)"
proof -
  have w: "whence AND NOT AVSEEK_FORCE = whence" using assms(2) by (auto simp: and_not_num.simps)
  have refl: "sought s (tell s) (Some (tell s, s))" using assms(1) by (simp add: sought_def)
  have err: "sought s x (Some (AVERROR EINVAL, s))" for x using assms(1) by (simp add: sought_def)
  show ?thesis
    unfolding avio_seek_def w Let_def
    using assms refl err seek_to_ok [OF assms(1), of offset] seek_to_ok [OF assms(1), of "offset + tell s"]
    by (auto simp: not_less)
qed

text \<open>Bytes delivered: those of the resource at the place of the reader, which moves behind them.  When there is no more, it is the
  end of the resource or an error is noted.\<close>

definition delivered :: "'a AVIOContext \<Rightarrow> byte list \<Rightarrow> 'a AVIOContext \<Rightarrow> bool" where
  "delivered s bs s' \<longleftrightarrow> filled s' \<and> source s' = source s \<and> bs = between (nat (tell s)) (nat (tell s) + length bs) (source s) \<and>
     tell s' = tell s + int (length bs)"

definition ended :: "'a AVIOContext \<Rightarrow> bool" where
  "ended s \<longleftrightarrow> io_error s \<noteq> 0 \<or> int (length (source s)) \<le> tell s"

lemma delivered_nothing: "filled s' \<Longrightarrow> source s' = source s \<Longrightarrow> tell s' = tell s \<Longrightarrow> delivered s [] s'"
  by (simp add: delivered_def between_def)

lemma delivered_more:
  assumes "filled s" "delivered s a s1" "delivered s1 b s2"
  shows "delivered s (a @ b) s2"
proof -
  have p: "0 \<le> tell s" using filled_tell [OF assms(1)] by simp
  have b: "b = between (nat (tell s) + length a) (nat (tell s) + length a + length b) (source s)"
    using assms(2,3) p by (simp add: delivered_def nat_add_distrib)
  have "a @ b = between (nat (tell s)) (nat (tell s) + length a) (source s) @ between (nat (tell s) + length a) (nat (tell s) + length a + length b) (source s)"
    using assms(2) b unfolding delivered_def by simp
  also have "\<dots> = between (nat (tell s)) (nat (tell s) + length a + length b) (source s)" by (rule between_append) simp_all
  finally have eq: "a @ b = between (nat (tell s)) (nat (tell s) + length (a @ b)) (source s)" unfolding length_append add.assoc .
  have "filled s2" "source s2 = source s" "tell s2 = tell s + int (length (a @ b))" using assms(2,3) by (simp_all add: delivered_def)
  then show ?thesis unfolding delivered_def using eq by (intro conjI)
qed

lemma buffered_bytes:
  assumes "filled s" "n \<le> buf_end s - buf_ptr s"
  shows "delivered s (between (buf_ptr s) (buf_ptr s + n) (buffer s)) (s\<lparr>buf_ptr := buf_ptr s + n\<rparr>)"
    and "length (between (buf_ptr s) (buf_ptr s + n) (buffer s)) = n"
proof -
  have s: "buf_ptr s \<le> buf_end s" "buf_end s \<le> buffer_size s" "int (buf_end s) \<le> io_pos s" "\<not> write_flag s"
    "take (buf_end s) (buffer s) = between (nat (io_pos s) - buf_end s) (nat (io_pos s)) (source s)"
    using assms(1) by (simp_all add: filled_def)
  show len: "length (between (buf_ptr s) (buf_ptr s + n) (buffer s)) = n" using s(1,2) assms(2) by (simp add: between_def)
  have t: "nat (tell s) = nat (io_pos s) - buf_end s + buf_ptr s" using s(3,4) by (simp add: tell_def buffer_start_def nat_add_distrib nat_diff_distrib)
  have "between (buf_ptr s) (buf_ptr s + n) (buffer s) = take n (drop (buf_ptr s) (take (buf_end s) (buffer s)))"
    using s(1) assms(2) by (simp add: between_def drop_take min_def)
  also have "\<dots> = take n (drop (nat (tell s)) (source s))"
    unfolding s(5) t using s(1,3) assms(2) by (simp add: between_def drop_take add.commute min_def)
  finally have "between (buf_ptr s) (buf_ptr s + n) (buffer s) = between (nat (tell s)) (nat (tell s) + n) (source s)" by (simp add: between_def)
  moreover have "filled (s\<lparr>buf_ptr := buf_ptr s + n\<rparr>)" using assms s(1) by (simp add: filled_def)
  ultimately show "delivered s (between (buf_ptr s) (buf_ptr s + n) (buffer s)) (s\<lparr>buf_ptr := buf_ptr s + n\<rparr>)"
    using len by (simp add: delivered_def tell_def buffer_start_def)
qed

lemma eof_ended: "filled s \<Longrightarrow> eof_reached s \<Longrightarrow> buf_ptr s = buf_end s \<Longrightarrow> ended s"
  by (auto simp: filled_def ended_def tell_def buffer_start_def)

lemma avio_r8_ok:
  assumes "filled s"
  shows "\<exists>b s'. avio_r8 cb s = Some (b, s') \<and> (delivered s [b] s' \<or> b = 0 \<and> delivered s [] s' \<and> ended s')"
proof -
  have one: "\<exists>b s'. (if buf_ptr t < buf_end t then (buffer t ! buf_ptr t, t\<lparr>buf_ptr := buf_ptr t + 1\<rparr>) else (0, t)) = (b, s') \<and>
      (delivered s [b] s' \<or> b = 0 \<and> delivered s [] s' \<and> ended s')"
    if t: "filled t" "source t = source s" "tell t = tell s" "buf_ptr t < buf_end t \<or> eof_reached t \<and> buf_ptr t = buf_end t" for t
  proof (cases "buf_ptr t < buf_end t")
    case True
    then have sz: "buf_ptr t < buffer_size t" using t(1) by (simp add: filled_def)
    then have "between (buf_ptr t) (buf_ptr t + 1) (buffer t) = [buffer t ! buf_ptr t]" by (simp add: between_def take_Suc_conv_app_nth hd_drop_conv_nth take_Suc)
    then have "delivered t [buffer t ! buf_ptr t] (t\<lparr>buf_ptr := buf_ptr t + 1\<rparr>)" using buffered_bytes(1) [OF t(1), of 1] True by simp
    then show ?thesis using True t(2,3) by (simp add: delivered_def)
  next
    case False
    then show ?thesis using t eof_ended [OF t(1)] delivered_nothing [OF t(1-3)] by auto
  qed
  show ?thesis
  proof (cases "buf_ptr s \<ge> buf_end s")
    case False
    then show ?thesis using one [of s] assms by (simp add: avio_r8_def)
  next
    case True
    then have e: "buf_ptr s = buf_end s" using assms by (simp add: filled_def)
    from fill_any_ok [OF assms] e obtain t where t: "fill_buffer cb s = Some t" "filled t" "source t = source s" "tell t = tell s"
      "eof_reached t \<and> buf_ptr t = buf_end t \<or> \<not> eof_reached t \<and> buf_ptr t < buf_end t" by blast
    then show ?thesis using one [of t] True by (auto simp: avio_r8_def)
  qed
qed

text \<open>One turn of the loop of \<open>avio_read\<close>.\<close>

lemma read_direct_ok:
  assumes "filled s" "0 < n" "buf_ptr s = buf_end s"
  shows "\<exists>t. read_direct cb s n = Some t \<and>
    (case t of Leave s' \<Rightarrow> delivered s [] s' \<and> eof_reached s' \<and> buf_ptr s' = buf_end s'
     | GoOn bs s' \<Rightarrow> delivered s bs s' \<and> bs \<noteq> [] \<and> length bs \<le> n)"
proof -
  have v: "valid (opaque s)" "position (opaque s) = io_pos s" "\<not> write_flag s" "int (buf_end s) \<le> io_pos s" using assms(1) by (simp_all add: filled_def)
  obtain r bs d where rd: "read_packet_wrapper cb s n = Some (r, bs, s\<lparr>opaque := d\<rparr>)" "valid d" "resource d = source s" "r \<noteq> 0"
    "0 < r \<longrightarrow> r \<le> int n \<and> position (opaque s) + r \<le> int (length (source s)) \<and>
       bs = take (nat r) (drop (nat (position (opaque s))) (source s)) \<and> length bs = nat r \<and> position d = position (opaque s) + r"
    "r < 0 \<longrightarrow> position d = position (opaque s)" "r = AVERROR_EOF \<longrightarrow> int (length (source s)) \<le> position (opaque s)"
    using read_wrapper_ok [OF v(1) assms(2)] by (elim exE conjE) (rule that)
  have tell: "tell s = io_pos s" using assms(3) v(3) by (simp add: tell_def buffer_start_def)
  show ?thesis
  proof (cases "r < 0")
    case True
    define s' where "s' = (if r = AVERROR_EOF then s\<lparr>opaque := d, eof_reached := True\<rparr> else s\<lparr>opaque := d, eof_reached := True, io_error := r\<rparr>)"
    have s': "filled s'" "source s' = source s" "tell s' = tell s" "eof_reached s'" "buf_ptr s' = buf_end s'"
      using assms(1,3) rd True by (auto simp: s'_def filled_def tell_def buffer_start_def)
    have "read_direct cb s n = Some (Leave s')" using rd(1) True by (auto simp: read_direct_def s'_def)
    then show ?thesis using s' delivered_nothing [OF s'(1-3)] eof_ended [OF s'(1,4,5)] by simp
  next
    case False
    then have r: "0 < r" "r \<noteq> AVERROR_EOF" using rd(4) by auto
    define s' where "s' = s\<lparr>opaque := d, io_pos := io_pos s + r, bytes_read := bytes_read s + r, buf_ptr := 0, buf_end := 0\<rparr>"
    have b: "r \<le> int n" "bs = take (nat r) (drop (nat (position (opaque s))) (source s))" "length bs = nat r" "position d = position (opaque s) + r"
      using rd(5) r(1) by blast+
    have "filled s'" using assms(1) rd(2,3) b(4) r v by (auto simp: s'_def filled_def between_def)
    moreover have "bs = between (nat (tell s)) (nat (tell s) + length bs) (source s)"
      unfolding between_def tell b(3) using b(2) v(2) by simp
    moreover have "tell s' = tell s + int (length bs)" using tell b(3) r(1) v(3) by (simp add: s'_def tell_def buffer_start_def)
    moreover have "bs \<noteq> []" "length bs \<le> n" using b(1,3) r(1) by auto
    moreover have "read_direct cb s n = Some (GoOn bs s')" using rd(1) r by (simp add: read_direct_def s'_def)
    moreover have "source s' = source s" using rd(3) by (simp add: s'_def)
    ultimately show ?thesis unfolding delivered_def by (intro exI [of _ "GoOn bs s'"]) simp
  qed
qed

lemma read_turn_ok:
  assumes "filled s" "0 < n"
  shows "\<exists>t. read_turn cb s n = Some t \<and>
    (case t of Leave s' \<Rightarrow> delivered s [] s' \<and> eof_reached s' \<and> buf_ptr s' = buf_end s'
     | GoOn bs s' \<Rightarrow> delivered s bs s' \<and> length bs \<le> n \<and> (bs \<noteq> [] \<or> buf_ptr s = buf_end s \<and> buf_ptr s' < buf_end s'))"
proof -
  have w: "\<not> write_flag s" "buf_ptr s \<le> buf_end s" using assms(1) by (simp_all add: filled_def)
  define len where "len = min (buf_end s - buf_ptr s) n"
  show ?thesis
  proof (cases "len = 0")
    case False
    then have "read_turn cb s n = Some (GoOn (between (buf_ptr s) (buf_ptr s + len) (buffer s)) (s\<lparr>buf_ptr := buf_ptr s + len\<rparr>))"
      using w by (simp add: read_turn_def len_def [symmetric] Let_def)
    moreover have "len \<le> buf_end s - buf_ptr s" "len \<le> n" by (simp_all add: len_def)
    ultimately show ?thesis using buffered_bytes [OF assms(1), of len] False by (auto simp del: List.length_0_conv simp: List.length_0_conv [symmetric])
  next
    case True
    then have e: "buf_ptr s = buf_end s" using assms(2) w(2) by (auto simp: len_def)
    show ?thesis
    proof (cases "(direct s \<or> n > buffer_size s) \<and> update_checksum s = None")
      case d: True
      then have "read_turn cb s n = read_direct cb s n" using True by (simp add: read_turn_def len_def [symmetric] Let_def)
      then show ?thesis using read_direct_ok [OF assms e] by (auto split: read_step.splits)
    next
      case False
      from fill_any_ok [OF assms(1)] e obtain t where t: "fill_buffer cb s = Some t" "filled t" "source t = source s" "tell t = tell s"
        "eof_reached t \<and> buf_ptr t = buf_end t \<or> \<not> eof_reached t \<and> buf_ptr t < buf_end t" by blast
      have "read_turn cb s n = Some (if buf_end t - buf_ptr t = 0 then Leave t else GoOn [] t)"
        using True t(1) unfolding read_turn_def len_def [symmetric] Let_def if_not_P [OF False] by simp
      then show ?thesis using t delivered_nothing [OF t(2-4)] eof_ended [OF t(2)] e by auto
    qed
  qed
qed

lemma read_loop_ok:
  assumes "filled s"
  shows "\<exists>bs s'. read_loop cb s n buf = Some (buf @ bs, s') \<and> delivered s bs s' \<and> length bs \<le> n \<and>
    (length bs < n \<longrightarrow> eof_reached s' \<and> buf_ptr s' = buf_end s')"
  using assms
proof (induction "2 * n + (if buf_ptr s < buf_end s then 0 else 1)" arbitrary: s n buf rule: less_induct)
  case less
  show ?case
  proof (cases "n = 0")
    case True
    then show ?thesis using less.prems delivered_nothing [of s s] by (subst read_loop.simps) auto
  next
    case False
    from read_turn_ok [OF less.prems, of n] False obtain t where t: "read_turn cb s n = Some t"
      "case t of Leave s' \<Rightarrow> delivered s [] s' \<and> eof_reached s' \<and> buf_ptr s' = buf_end s'
     | GoOn bs s' \<Rightarrow> delivered s bs s' \<and> length bs \<le> n \<and> (bs \<noteq> [] \<or> buf_ptr s = buf_end s \<and> buf_ptr s' < buf_end s')" by auto
    show ?thesis
    proof (cases t)
      case (Leave s')
      then show ?thesis using False t by (subst read_loop.simps) auto
    next
      case (GoOn a s1)
      then have s1: "delivered s a s1" "length a \<le> n" "a \<noteq> [] \<or> buf_ptr s = buf_end s \<and> buf_ptr s1 < buf_end s1" using t(2) by simp_all
      have m: "2 * (n - length a) + (if buf_ptr s1 < buf_end s1 then 0 else 1) < 2 * n + (if buf_ptr s < buf_end s then 0 else 1)"
        using s1(2,3) False by (cases a) auto
      have f: "filled s1" using s1(1) by (simp add: delivered_def)
      from less.hyps [OF m f, of "buf @ a"] obtain bs s2 where s2: "read_loop cb s1 (n - length a) (buf @ a) = Some ((buf @ a) @ bs, s2)"
        "delivered s1 bs s2" "length bs \<le> n - length a" "length bs < n - length a \<longrightarrow> eof_reached s2 \<and> buf_ptr s2 = buf_end s2" by blast
      have "read_loop cb s n buf = Some (buf @ (a @ bs), s2)" using False t(1) GoOn s2(1) by (subst read_loop.simps) simp
      moreover have "delivered s (a @ bs) s2" using delivered_more [OF less.prems s1(1) s2(2)] .
      ultimately show ?thesis using s2(3,4) s1(2) by (intro exI [of _ "a @ bs"] exI [of _ s2]) auto
    qed
  qed
qed

text \<open>The end of \<open>avio_read\<close> when there was nothing to read.\<close>

lemma nothing_read_ok:
  assumes "filled s" "eof_reached s" "buf_ptr s = buf_end s"
  shows "\<exists>r s'. nothing_read cb s = Some (r, s') \<and> delivered s [] s' \<and> ended s' \<and> r < 0 \<and> (io_error s' = 0 \<longrightarrow> r = AVERROR_EOF)"
proof (cases "io_error s = 0")
  case False
  then have "io_error s < 0" using assms(1) by (simp add: filled_def)
  then show ?thesis using False assms(1) delivered_nothing [of s s] by (simp add: nothing_read_def ended_def)
next
  case True
  let ?s = "s\<lparr>eof_reached := False\<rparr>"
  have s: "filled ?s" "\<not> eof_reached ?s" "int (length (source s)) \<le> io_pos s" using assms True by (auto simp: filled_def)
  obtain t where t: "fill_buffer cb ?s = Some t" "filled t" "source t = source ?s"
    "if eof_reached t then io_pos t = io_pos ?s \<and> (buf_ptr ?s = buf_end ?s \<longrightarrow> buf_ptr t = buf_end t)
     else io_pos ?s < io_pos t \<and> io_pos t \<le> int (length (source ?s)) \<and> tell t = io_pos ?s"
    using fill_buffer_ok [OF s(1,2)] by (elim exE conjE) (rule that)
  have e: "eof_reached t" "io_pos t = io_pos s" "buf_ptr t = buf_end t" using t(4) s(3) assms(3) by (auto split: if_splits)
  have "nothing_read cb s = Some (AVERROR_EOF, t)" using True assms(2) t(1) e(1) by (simp add: nothing_read_def avio_feof_def)
  moreover have "tell t = tell s" using e t(2) assms(1,3) by (simp add: tell_def buffer_start_def filled_def)
  ultimately show ?thesis using delivered_nothing [of t s] t(2,3) eof_ended [OF t(2) e(1,3)] by simp
qed

text \<open>What \<open>avio_read\<close> and \<open>avio_read_partial\<close> promise of the result, the bytes and the state after them.\<close>

definition fetched :: "'a AVIOContext \<Rightarrow> nat \<Rightarrow> (int \<times> byte list \<times> 'a AVIOContext) option \<Rightarrow> bool" where
  "fetched s n x \<longleftrightarrow> (\<exists>r bs s'. x = Some (r, bs, s') \<and> delivered s bs s' \<and> length bs \<le> n \<and>
     (if bs = [] then ended s' \<and> r < 0 \<and> (io_error s' = 0 \<longrightarrow> r = AVERROR_EOF) else r = int (length bs)))"

lemma avio_read_ok:
  assumes "filled s" "0 < n"
  shows "fetched s n (avio_read cb s n)" "\<And>r bs s'. avio_read cb s n = Some (r, bs, s') \<Longrightarrow> length bs < n \<Longrightarrow> ended s'"
proof -
  obtain bs t where t: "read_loop cb s n [] = Some ([] @ bs, t)" "delivered s bs t" "length bs \<le> n"
    "length bs < n \<longrightarrow> eof_reached t \<and> buf_ptr t = buf_end t"
    using read_loop_ok [OF assms(1), of n "[]"] by (elim exE conjE) (rule that)
  have f: "filled t" using t(2) by (simp add: delivered_def)
  have "fetched s n (avio_read cb s n) \<and> (\<forall>r bs s'. avio_read cb s n = Some (r, bs, s') \<longrightarrow> length bs < n \<longrightarrow> ended s')"
  proof (cases "bs = []")
    case False
    then have "avio_read cb s n = Some (int (length bs), bs, t)" using t(1) by (simp add: avio_read_def)
    then show ?thesis using False t(2-4) eof_ended [OF f] by (simp add: fetched_def)
  next
    case True
    then have e: "eof_reached t" "buf_ptr t = buf_end t" using t(4) assms(2) by simp_all
    obtain r u where u: "nothing_read cb t = Some (r, u)" "delivered t [] u" "ended u" "r < 0" "io_error u = 0 \<longrightarrow> r = AVERROR_EOF"
      using nothing_read_ok [OF f e] by (elim exE conjE) (rule that)
    have "avio_read cb s n = Some (r, [], u)" using t(1) True u(1) by (simp add: avio_read_def)
    moreover have "delivered s [] u" using delivered_more [OF assms(1) t(2) u(2)] True by simp
    ultimately show ?thesis using u(3-5) by (simp add: fetched_def)
  qed
  then show "fetched s n (avio_read cb s n)" "\<And>r bs s'. avio_read cb s n = Some (r, bs, s') \<Longrightarrow> length bs < n \<Longrightarrow> ended s'" by blast+
qed

text \<open>Asking for nothing may still read; the state stays sound.\<close>

lemma partial_zero_ok:
  assumes "filled s"
  shows "\<exists>r bs s'. avio_read_partial cb s 0 = Some (r, bs, s') \<and> filled s' \<and> source s' = source s"
proof -
  have again: "\<exists>r s'. nothing_read cb t = Some (r, s') \<and> filled s' \<and> source s' = source t" if "filled t" for t
  proof -
    have e: "filled (t\<lparr>eof_reached := False\<rparr>)" using that by (simp add: filled_def)
    obtain u where "fill_buffer cb (t\<lparr>eof_reached := False\<rparr>) = Some u" "filled u" "source u = source t"
      using fill_any_ok [OF e] by auto
    then show ?thesis using that by (auto simp: nothing_read_def avio_feof_def)
  qed
  have w: "\<not> write_flag s" using assms by (simp add: filled_def)
  show ?thesis
  proof (cases "buf_end s - buf_ptr s = 0")
    case False
    then show ?thesis using again [OF assms] w by (auto simp: avio_read_partial_def)
  next
    case True
    have s: "filled (s\<lparr>buf_end := 0, buf_ptr := 0\<rparr>)" using assms by (auto simp: filled_def between_def)
    obtain t where t: "fill_buffer cb (s\<lparr>buf_end := 0, buf_ptr := 0\<rparr>) = Some t" "filled t" "source t = source s"
      using fill_any_ok [OF s] by auto
    then show ?thesis using again [OF t(2)] w True by (auto simp: avio_read_partial_def)
  qed
qed

lemma avio_read_partial_ok:
  assumes "filled s" "0 < n"
  shows "fetched s n (avio_read_partial cb s n)"
proof -
  have w: "\<not> write_flag s" "buf_ptr s \<le> buf_end s" using assms(1) by (simp_all add: filled_def)
  have run: "fetched s n (do {
      let len = min (buf_end t - buf_ptr t) n;
      let bs = between (buf_ptr t) (buf_ptr t + len) (buffer t);
      let t = t\<lparr>buf_ptr := buf_ptr t + len\<rparr>;
      if len = 0 then do { (r, t) \<leftarrow> nothing_read cb t; Some (r, [], t) } else Some (int len, bs, t) })"
    if t: "filled t" "source t = source s" "tell t = tell s" "buf_ptr t < buf_end t \<or> eof_reached t \<and> buf_ptr t = buf_end t" for t
  proof (cases "buf_ptr t < buf_end t")
    case False
    then have e: "eof_reached t" "buf_ptr t = buf_end t" using t(4) by auto
    obtain r u where u: "nothing_read cb t = Some (r, u)" "delivered t [] u" "ended u" "r < 0" "io_error u = 0 \<longrightarrow> r = AVERROR_EOF"
      using nothing_read_ok [OF t(1) e] by (elim exE conjE) (rule that)
    have d: "delivered s [] u" using u(2) t(2,3) by (simp add: delivered_def)
    have "t\<lparr>buf_ptr := buf_end t\<rparr> = t" using e(2) by (cases t) simp
    then have "nothing_read cb (t\<lparr>buf_ptr := buf_end t\<rparr>) = Some (r, u)" using u(1) by (rule ssubst)
    then show ?thesis using e(2) d u(3-5) by (simp add: fetched_def)
  next
    case True
    define len where "len = min (buf_end t - buf_ptr t) n"
    have len: "len \<le> buf_end t - buf_ptr t" "len \<le> n" "len \<noteq> 0" using True assms(2) by (simp_all add: len_def)
    note b = buffered_bytes [OF t(1) len(1)]
    have "delivered s (between (buf_ptr t) (buf_ptr t + len) (buffer t)) (t\<lparr>buf_ptr := buf_ptr t + len\<rparr>)"
      using b(1) t(2,3) by (simp add: delivered_def)
    moreover have "between (buf_ptr t) (buf_ptr t + len) (buffer t) \<noteq> []" using b(2) len(3) by auto
    ultimately show ?thesis unfolding len_def [symmetric] Let_def if_not_P [OF len(3)] using b(2) len(2) by (simp add: fetched_def)
  qed
  show ?thesis
  proof (cases "buf_end s - buf_ptr s = 0")
    case False
    then have "buf_ptr s < buf_end s" by simp
    then show ?thesis using run [OF assms(1)] w False by (simp add: avio_read_partial_def)
  next
    case True
    let ?s = "s\<lparr>buf_end := 0, buf_ptr := 0\<rparr>"
    have s: "filled ?s" "tell ?s = tell s" using assms(1) True by (auto simp: filled_def tell_def buffer_start_def between_def)
    obtain t where t: "fill_buffer cb ?s = Some t" "filled t" "source t = source ?s"
      "buf_ptr ?s = buf_end ?s \<longrightarrow> tell t = tell ?s \<and> (eof_reached t \<and> buf_ptr t = buf_end t \<or> \<not> eof_reached t \<and> buf_ptr t < buf_end t)"
      using fill_any_ok [OF s(1)] by (elim exE conjE) (rule that)
    have "tell t = tell s" "buf_ptr t < buf_end t \<or> eof_reached t \<and> buf_ptr t = buf_end t" using t(4) s(2) by auto
    then show ?thesis using run [of t] w True t(1-3) by (simp add: avio_read_partial_def)
  qed
qed

end

subsection \<open>Sequences of operations\<close>

datatype in_op = GetByte | GetBytes nat | GetPartial nat | GoTo int | GoBy int | AskPlace

fun in_step :: "'s callbacks \<Rightarrow> in_op \<Rightarrow> 's AVIOContext \<Rightarrow> (int \<times> byte list \<times> 's AVIOContext) option" where
  "in_step cb GetByte s = do { (b, s) \<leftarrow> avio_r8 cb s; Some (uint b, [], s) }"
| "in_step cb (GetBytes n) s = avio_read cb s n"
| "in_step cb (GetPartial n) s = avio_read_partial cb s n"
| "in_step cb (GoTo q) s = do { (r, s) \<leftarrow> avio_seek cb s q SEEK_SET; Some (r, [], s) }"
| "in_step cb (GoBy k) s = do { (r, s) \<leftarrow> avio_skip cb s k; Some (r, [], s) }"
| "in_step cb AskPlace s = do { (r, s) \<leftarrow> avio_tell cb s; Some (r, [], s) }"

text \<open>A run, and of each step the result, the bytes, the place after it and the error noted in the context.\<close>

type_synonym in_event = "int \<times> byte list \<times> int \<times> int"

fun in_run :: "'s callbacks \<Rightarrow> in_op list \<Rightarrow> 's AVIOContext \<Rightarrow> in_event list option" where
  "in_run cb [] s = Some []"
| "in_run cb (op # ops) s = do {
     (r, bs, s) \<leftarrow> in_step cb op s;
     es \<leftarrow> in_run cb ops s;
     Some ((r, bs, tell s, io_error s) # es) }"

text \<open>What a reader of the bytes \<open>c\<close> at the place \<open>p\<close> may see.  Nothing is said of the place after a seek that failed.\<close>

definition exhausted :: "byte list \<Rightarrow> int \<Rightarrow> int \<Rightarrow> bool" where
  "exhausted c p e \<longleftrightarrow> e \<noteq> 0 \<or> int (length c) \<le> p"

definition gives :: "byte list \<Rightarrow> int \<Rightarrow> nat \<Rightarrow> in_event \<Rightarrow> bool" where
  "gives c p n = (\<lambda>(r, bs, p', e). bs = between (nat p) (nat p + length bs) c \<and> length bs \<le> n \<and> p' = p + int (length bs) \<and>
     (if bs = [] then r < 0 \<and> exhausted c p e \<and> (e = 0 \<longrightarrow> r = AVERROR_EOF) else r = int (length bs)))"

definition moves :: "byte list \<Rightarrow> int \<Rightarrow> in_event \<Rightarrow> bool" where
  "moves c q = (\<lambda>(r, bs, p', e). bs = [] \<and> (r < 0 \<and> (r = AVERROR_EOF \<longrightarrow> exhausted c (q - 1) e) \<or> r = q \<and> p' = q))"

fun in_spec :: "byte list \<Rightarrow> int \<Rightarrow> in_op \<Rightarrow> in_event \<Rightarrow> bool" where
  "in_spec c p GetByte (r, bs, p', e) \<longleftrightarrow> bs = [] \<and>
     (p < int (length c) \<and> r = uint (c ! nat p) \<and> p' = p + 1 \<or> r = 0 \<and> p' = p \<and> exhausted c p e)"
| "in_spec c p (GetBytes n) (r, bs, p', e) \<longleftrightarrow> n = 0 \<or> gives c p n (r, bs, p', e) \<and> (length bs < n \<longrightarrow> exhausted c p' e)"
| "in_spec c p (GetPartial n) ev \<longleftrightarrow> n = 0 \<or> gives c p n ev"
| "in_spec c p (GoTo q) ev \<longleftrightarrow> moves c q ev"
| "in_spec c p (GoBy k) ev \<longleftrightarrow> moves c (p + k) ev"
| "in_spec c p AskPlace (r, bs, p', e) \<longleftrightarrow> r = p \<and> bs = [] \<and> p' = p"

fun in_follows :: "byte list \<Rightarrow> int \<Rightarrow> in_op list \<Rightarrow> in_event list \<Rightarrow> bool" where
  "in_follows c p [] es \<longleftrightarrow> es = []"
| "in_follows c p (op # ops) [] \<longleftrightarrow> False"
| "in_follows c p (op # ops) ((r, bs, p', e) # es) \<longleftrightarrow> in_spec c p op (r, bs, p', e) \<and> in_follows c p' ops es"

context stream_protocol
begin

lemma fetched_gives:
  assumes "fetched s n x"
  shows "\<exists>r bs s'. x = Some (r, bs, s') \<and> filled s' \<and> source s' = source s \<and> gives (source s) (tell s) n (r, bs, tell s', io_error s')"
proof -
  obtain r bs s' where f: "x = Some (r, bs, s')" "delivered s bs s'" "length bs \<le> n"
    "if bs = [] then ended s' \<and> r < 0 \<and> (io_error s' = 0 \<longrightarrow> r = AVERROR_EOF) else r = int (length bs)"
    using assms unfolding fetched_def by (elim exE conjE) (rule that)
  then show ?thesis
    by (intro exI [of _ r] exI [of _ bs] exI [of _ s']) (auto simp: gives_def delivered_def ended_def exhausted_def split: if_splits)
qed

lemma sought_moves:
  assumes "sought s q x"
  shows "\<exists>r s'. x = Some (r, s') \<and> filled s' \<and> source s' = source s \<and> moves (source s) q (r, [], tell s', io_error s')"
  using assms by (auto simp: sought_def moves_def exhausted_def)

lemma in_step_ok:
  assumes "filled s"
  shows "\<exists>r bs s'. in_step cb op s = Some (r, bs, s') \<and> filled s' \<and> source s' = source s \<and>
    in_spec (source s) (tell s) op (r, bs, tell s', io_error s')"
proof (cases op)
  case GetByte
  obtain b t where b: "avio_r8 cb s = Some (b, t)" "delivered s [b] t \<or> b = 0 \<and> delivered s [] t \<and> ended t"
    using avio_r8_ok [OF assms] by blast
  have one: "tell s < int (length (source s)) \<and> b = source s ! nat (tell s)" if "[b] = between (nat (tell s)) (nat (tell s) + 1) (source s)"
  proof -
    have "nat (tell s) < length (source s)" using arg_cong [OF that, of length] by (simp add: between_def)
    then show ?thesis using that filled_tell [OF assms] by (auto simp: between_def take_Suc hd_drop_conv_nth)
  qed
  show ?thesis using b one GetByte by (auto simp: delivered_def ended_def exhausted_def)
next
  case (GetBytes n)
  show ?thesis
  proof (cases "n = 0")
    case True
    obtain t where t: "fill_buffer cb (s\<lparr>eof_reached := False\<rparr>) = Some t" "filled t" "source t = source s"
      using fill_any_ok [of "s\<lparr>eof_reached := False\<rparr>"] assms by (auto simp: filled_def)
    have "\<exists>r s'. nothing_read cb s = Some (r, s') \<and> filled s' \<and> source s' = source s"
      using assms t by (auto simp: nothing_read_def avio_feof_def)
    then show ?thesis using GetBytes True by (auto simp: avio_read_def read_loop.simps [of cb s 0])
  next
    case False
    then have n: "0 < n" by simp
    obtain r bs t where t: "avio_read cb s n = Some (r, bs, t)" "filled t" "source t = source s" "gives (source s) (tell s) n (r, bs, tell t, io_error t)"
      using fetched_gives [OF avio_read_ok(1) [OF assms n]] by (elim exE conjE) (rule that)
    have "length bs < n \<longrightarrow> exhausted (source s) (tell t) (io_error t)"
      using avio_read_ok(2) [OF assms n t(1)] t(3) by (simp add: ended_def exhausted_def)
    then show ?thesis using t GetBytes by simp
  qed
next
  case (GetPartial n)
  show ?thesis
  proof (cases "n = 0")
    case False
    then have n: "0 < n" by simp
    obtain r bs t where "avio_read_partial cb s n = Some (r, bs, t)" "filled t" "source t = source s"
      "gives (source s) (tell s) n (r, bs, tell t, io_error t)"
      using fetched_gives [OF avio_read_partial_ok [OF assms n]] by (elim exE conjE) (rule that)
    then show ?thesis using GetPartial by simp
  qed (use GetPartial partial_zero_ok [OF assms] in auto)
next
  case (GoTo q)
  show ?thesis using sought_moves [OF avio_seek_ok [OF assms, of SEEK_SET q]] GoTo by auto
next
  case (GoBy k)
  show ?thesis using sought_moves [OF avio_seek_ok [OF assms, of SEEK_CUR k]] GoBy by (auto simp: avio_skip_def add.commute)
next
  case AskPlace
  then show ?thesis using assms by (simp add: avio_tell_def avio_seek_def)
qed

lemma in_run_ok:
  "filled s \<Longrightarrow> \<exists>es. in_run cb ops s = Some es \<and> in_follows (source s) (tell s) ops es"
proof (induction ops arbitrary: s)
  case (Cons op ops)
  obtain r bs t where t: "in_step cb op s = Some (r, bs, t)" "filled t" "source t = source s" "in_spec (source s) (tell s) op (r, bs, tell t, io_error t)"
    using in_step_ok [OF Cons.prems, of op] by (elim exE conjE) (rule that)
  obtain es where es: "in_run cb ops t = Some es" "in_follows (source t) (tell t) ops es" using Cons.IH [OF t(2)] by blast
  then have "in_run cb (op # ops) s = Some ((r, bs, tell t, io_error t) # es)" using t(1) by simp
  then show ?case using t(3,4) es(2) by simp
qed simp

end

text \<open>The arguments that fit the types of the C functions: \<open>int\<close> for a number of bytes, \<open>int64_t\<close> for a place.\<close>

fun in_arguments :: "in_op \<Rightarrow> bool" where
  "in_arguments (GetBytes n) \<longleftrightarrow> int n \<le> INT_MAX"
| "in_arguments (GetPartial n) \<longleftrightarrow> int n \<le> INT_MAX"
| "in_arguments (GoTo q) \<longleftrightarrow> int64 q"
| "in_arguments (GoBy k) \<longleftrightarrow> int64 k"
| "in_arguments op \<longleftrightarrow> True"

subsection \<open>Local files\<close>

interpretation file_in: stream_protocol "ffurl_read (\<lambda>c n. Some (file_read c n))" "ffurl_seek (Some file_seek)" local_file.ffurl_ok
  "\<lambda>h. file_bytes (file_fd (priv_data h))" "\<lambda>h. int (file_offset (file_fd (priv_data h)))" "\<lambda>_. 0" file_callbacks
proof unfold_locales
  show "r \<noteq> 0" if "local_file.ffurl_ok s" "0 < n" "ffurl_read (\<lambda>c n. Some (file_read c n)) s n = Some (r, bs, s')" for s n r bs s'
    using file_url.read_tries [OF that] by auto
qed (simp_all add: file_callbacks_def io_callbacks_def)

text \<open>C14. Reading bytes, blocks and what is there, seeking to places and by distances and asking for the place, in any
  order, through a buffered context on a local file: every call returns, every byte delivered is the byte of the
  file at the reader's place, which then moves on, fewer bytes than asked come only at the end of the file or after an error, and
  a seek that does not fail arrives, however it is done and whichever system calls fail or transfer less.\<close>

theorem avio_reads_resource:
  assumes "local_file.ffurl_ok h" "url_flags h AND AVIO_FLAG_WRITE = 0" "file_offset (file_fd (priv_data h)) = 0"
    and "0 \<le> max_packet_size h" "\<forall>op \<in> set ops. in_arguments op"
  shows "\<exists>es. in_run file_callbacks ops (ffio_fdopen file_callbacks h is_streamed m) = Some es \<and>
    in_follows (file_bytes (file_fd (priv_data h))) 0 ops es"
proof -
  let ?s = "ffio_fdopen file_callbacks h is_streamed m"
  have op: "opaque ?s = h" "tell ?s = 0"
    using assms(2) by (simp_all add: ffio_fdopen_def ffio_init_context_def Let_def url_resetbuf_def tell_def buffer_start_def file_callbacks_def io_callbacks_def)
  have "file_in.filled ?s"
    using assms(1-4)
    by (auto simp: file_in.filled_def ffio_fdopen_def ffio_init_context_def Let_def url_resetbuf_def between_def file_callbacks_def io_callbacks_def)
  from file_in.in_run_ok [OF this, of ops] show ?thesis by (simp add: op)
qed

definition demo_input :: "FileContext URLContext" where
  "demo_input = \<lparr>priv_data = \<lparr>file_fd = \<lparr>file_bytes = [10, 20, 30, 40, 50, 60, 70], file_offset = 0, replies = [Fails EINTR, Transfers 1]\<rparr>,
      blocksize = 4, follow = False, is_fifo = False\<rparr>, url_flags = AVIO_FLAG_READ, max_packet_size = 4, rw_timeout = 0, interrupts = [], clock = []\<rparr>"

theorem avio_reads_resource_witness:
  "(\<exists>es. in_run file_callbacks [GetByte, GetBytes 3, GoTo 1, GetPartial 9, GoBy 2, GetBytes 5, AskPlace] (ffio_fdopen file_callbacks demo_input False 0) = Some es \<and>
     in_follows [10, 20, 30, 40, 50, 60, 70] 0 [GetByte, GetBytes 3, GoTo 1, GetPartial 9, GoBy 2, GetBytes 5, AskPlace] es) \<and>
   in_run file_callbacks [GetByte, GetBytes 3, GoTo 1, GetPartial 9, GoBy 2, GetBytes 5, AskPlace] (ffio_fdopen file_callbacks demo_input False 0) =
     Some [(10, [], 1, 0), (3, [20, 30, 40], 4, 0), (1, [], 1, 0), (3, [20, 30, 40], 4, 0), (6, [], 6, 0), (1, [70], 7, 0), (7, [], 7, 0)]"
proof -
  let ?ops = "[GetByte, GetBytes 3, GoTo 1, GetPartial 9, GoBy 2, GetBytes 5, AskPlace]"
  have h: "local_file.ffurl_ok demo_input" "url_flags demo_input AND AVIO_FLAG_WRITE = 0" "file_offset (file_fd (priv_data demo_input)) = 0"
    "0 \<le> max_packet_size demo_input"
    by (simp_all add: local_file.ffurl_ok_def demo_input_def file_ok_def errors_positive_def)
  have b: "file_bytes (file_fd (priv_data demo_input)) = [10, 20, 30, 40, 50, 60, 70]" by (simp add: demo_input_def)
  have a: "\<forall>op \<in> set ?ops. in_arguments op" by (simp add: int64_def)
  have "in_run file_callbacks ?ops (ffio_fdopen file_callbacks demo_input False 0) =
     Some [(10, [], 1, 0), (3, [20, 30, 40], 4, 0), (1, [], 1, 0), (3, [20, 30, 40], 4, 0), (6, [], 6, 0), (1, [70], 7, 0), (7, [], 7, 0)]"
    by code_simp
  then show ?thesis using avio_reads_resource [OF h a, of False 0] unfolding b by (intro conjI)
qed

end
