(* ===== verification/Tea.thy ===== *)
theory Tea
  imports Bytes "HOL-Library.Multiset"
begin

section \<open>TEA, XTEA and RC4: \<open>libavutil/tea.c\<close>, \<open>xtea.c\<close>, \<open>rc4.c\<close>\<close>

text \<open>
  The contexts are records, the round loops iterate a step on the C variables, and the buffer
  functions recurse on the block count.  XTEA exists twice in the source, as a loop and unrolled by
  macros with literal round constants; both are modelled and shown to agree.
\<close>

subsection \<open>TEA\<close>

record AVTEA =
  tea_key :: "32 word list"
  tea_rounds :: int

definition av_tea_init :: "byte list \<Rightarrow> int \<Rightarrow> AVTEA" where
  "av_tea_init key rounds =
     \<lparr>tea_key = map (\<lambda>i. AV_RB32 (drop (4 * i) key)) [0..<4], tea_rounds = rounds\<rparr>"

abbreviation delta :: "32 word" where "delta \<equiv> 0x9E3779B9"

definition tea_enc_step :: "32 word list \<Rightarrow> 32 word \<times> 32 word \<times> 32 word \<Rightarrow> 32 word \<times> 32 word \<times> 32 word" where
  "tea_enc_step k = (\<lambda>(v0, v1, sum).
     let sum = sum + delta;
         v0 = v0 + ((push_bit 4 v1 + k ! 0) XOR (v1 + sum) XOR (drop_bit 5 v1 + k ! 1));
         v1 = v1 + ((push_bit 4 v0 + k ! 2) XOR (v0 + sum) XOR (drop_bit 5 v0 + k ! 3))
     in (v0, v1, sum))"

definition tea_dec_step :: "32 word list \<Rightarrow> 32 word \<times> 32 word \<times> 32 word \<Rightarrow> 32 word \<times> 32 word \<times> 32 word" where
  "tea_dec_step k = (\<lambda>(v0, v1, sum).
     let v1 = v1 - ((push_bit 4 v0 + k ! 2) XOR (v0 + sum) XOR (drop_bit 5 v0 + k ! 3));
         v0 = v0 - ((push_bit 4 v1 + k ! 0) XOR (v1 + sum) XOR (drop_bit 5 v1 + k ! 1));
         sum = sum - delta
     in (v0, v1, sum))"

text \<open>The result of a block function is the block stored and the vector afterwards.\<close>

definition tea_crypt_ecb :: "AVTEA \<Rightarrow> byte list \<Rightarrow> bool \<Rightarrow> byte list option \<Rightarrow> byte list \<times> byte list option" where
  "tea_crypt_ecb ctx src decrypt iv =
     (let k = tea_key ctx; rounds = tea_rounds ctx;
          v0 = AV_RB32 src; v1 = AV_RB32 (drop 4 src)
      in if decrypt
         then
           let (v0, v1, _) = (tea_dec_step k ^^ nat (rounds sdiv 2)) (v0, v1, delta * word_of_int (rounds sdiv 2))
           in (case iv of
                 None \<Rightarrow> (AV_WB32 v0 @ AV_WB32 v1, None)
               | Some v \<Rightarrow> (AV_WB32 (v0 XOR AV_RB32 v) @ AV_WB32 (v1 XOR AV_RB32 (drop 4 v)), Some (take 8 src)))
         else
           let (v0, v1, _) = (tea_enc_step k ^^ nat (rounds sdiv 2)) (v0, v1, 0)
           in (AV_WB32 v0 @ AV_WB32 v1, iv))"

fun av_tea_crypt :: "AVTEA \<Rightarrow> nat \<Rightarrow> byte list \<Rightarrow> byte list option \<Rightarrow> bool \<Rightarrow> byte list \<times> byte list option" where
  "av_tea_crypt ctx 0 src iv decrypt = ([], iv)"
| "av_tea_crypt ctx (Suc cnt) src iv decrypt =
     (let (dst, iv) =
        (if decrypt then tea_crypt_ecb ctx src decrypt iv
         else case iv of
             Some v \<Rightarrow>
               let (d, _) = tea_crypt_ecb ctx (xor_bytes (take 8 src) v) decrypt None in (d, Some d)
           | None \<Rightarrow> tea_crypt_ecb ctx src decrypt None);
          (rest, iv) = av_tea_crypt ctx cnt (drop 8 src) iv decrypt
      in (dst @ rest, iv))"

subsection \<open>XTEA\<close>

record AVXTEA =
  xtea_key :: "32 word list"

definition av_xtea_init :: "byte list \<Rightarrow> AVXTEA" where
  "av_xtea_init key = \<lparr>xtea_key = map (\<lambda>i. AV_RB32 (drop (4 * i) key)) [0..<4]\<rparr>"

definition av_xtea_le_init :: "byte list \<Rightarrow> AVXTEA" where
  "av_xtea_le_init key = \<lparr>xtea_key = map (\<lambda>i. AV_RL32 (drop (4 * i) key)) [0..<4]\<rparr>"

definition xtea_mix :: "32 word \<Rightarrow> 32 word" where
  "xtea_mix v = (push_bit 4 v XOR drop_bit 5 v) + v"

definition xtea_dec_step :: "32 word list \<Rightarrow> 32 word \<times> 32 word \<times> 32 word \<Rightarrow> 32 word \<times> 32 word \<times> 32 word" where
  "xtea_dec_step k = (\<lambda>(v0, v1, sum).
     let v1 = v1 - (xtea_mix v0 XOR (sum + k ! unat (drop_bit 11 sum AND 3)));
         sum = sum - delta;
         v0 = v0 - (xtea_mix v1 XOR (sum + k ! unat (sum AND 3)))
     in (v0, v1, sum))"

definition xtea_enc_step :: "32 word list \<Rightarrow> 32 word \<times> 32 word \<times> 32 word \<Rightarrow> 32 word \<times> 32 word \<times> 32 word" where
  "xtea_enc_step k = (\<lambda>(v0, v1, sum).
     let v0 = v0 + (xtea_mix v1 XOR (sum + k ! unat (sum AND 3)));
         sum = sum + delta;
         v1 = v1 + (xtea_mix v0 XOR (sum + k ! unat (drop_bit 11 sum AND 3)))
     in (v0, v1, sum))"

text \<open>The macros \<open>DSTEP\<close> and \<open>ESTEP\<close> of the unrolled variant; a step is \<open>(SUM, K0, K1)\<close> with the
  keys given by their number.\<close>

definition DSTEP :: "32 word list \<Rightarrow> 32 word \<times> nat \<times> nat \<Rightarrow> 32 word \<times> 32 word \<Rightarrow> 32 word \<times> 32 word" where
  "DSTEP k = (\<lambda>(s, k0, k1) (v0, v1).
     let v1 = v1 - (xtea_mix v0 XOR (s + k ! k0));
         v0 = v0 - (xtea_mix v1 XOR (s - 0x9E3779B9 + k ! k1))
     in (v0, v1))"

definition ESTEP :: "32 word list \<Rightarrow> 32 word \<times> nat \<times> nat \<Rightarrow> 32 word \<times> 32 word \<Rightarrow> 32 word \<times> 32 word" where
  "ESTEP k = (\<lambda>(s, k0, k1) (v0, v1).
     let v0 = v0 + (xtea_mix v1 XOR (s + k ! k0));
         v1 = v1 + (xtea_mix v0 XOR (s + 0x9E3779B9 + k ! k1))
     in (v0, v1))"

definition xtea_dec_steps :: "(32 word \<times> nat \<times> nat) list" where
  "xtea_dec_steps =
    [(0xC6EF3720, 2, 3), (0x28B7BD67, 3, 2), (0x8A8043AE, 0, 1), (0xEC48C9F5, 1, 0),
     (0x4E11503C, 2, 3), (0xAFD9D683, 2, 2), (0x11A25CCA, 3, 1), (0x736AE311, 0, 0),
     (0xD5336958, 1, 3), (0x36FBEF9F, 1, 2), (0x98C475E6, 2, 1), (0xFA8CFC2D, 3, 0),
     (0x5C558274, 0, 3), (0xBE1E08BB, 1, 2), (0x1FE68F02, 1, 1), (0x81AF1549, 2, 0),
     (0xE3779B90, 3, 3), (0x454021D7, 0, 2), (0xA708A81E, 1, 1), (0x08D12E65, 1, 0),
     (0x6A99B4AC, 2, 3), (0xCC623AF3, 3, 2), (0x2E2AC13A, 0, 1), (0x8FF34781, 0, 0),
     (0xF1BBCDC8, 1, 3), (0x5384540F, 2, 2), (0xB54CDA56, 3, 1), (0x1715609D, 0, 0),
     (0x78DDE6E4, 0, 3), (0xDAA66D2B, 1, 2), (0x3C6EF372, 2, 1), (0x9E3779B9, 3, 0)]"

definition xtea_enc_steps :: "(32 word \<times> nat \<times> nat) list" where
  "xtea_enc_steps =
    [(0x00000000, 0, 3), (0x9E3779B9, 1, 2), (0x3C6EF372, 2, 1), (0xDAA66D2B, 3, 0),
     (0x78DDE6E4, 0, 0), (0x1715609D, 1, 3), (0xB54CDA56, 2, 2), (0x5384540F, 3, 1),
     (0xF1BBCDC8, 0, 0), (0x8FF34781, 1, 0), (0x2E2AC13A, 2, 3), (0xCC623AF3, 3, 2),
     (0x6A99B4AC, 0, 1), (0x08D12E65, 1, 1), (0xA708A81E, 2, 0), (0x454021D7, 3, 3),
     (0xE3779B90, 0, 2), (0x81AF1549, 1, 1), (0x1FE68F02, 2, 1), (0xBE1E08BB, 3, 0),
     (0x5C558274, 0, 3), (0xFA8CFC2D, 1, 2), (0x98C475E6, 2, 1), (0x36FBEF9F, 3, 1),
     (0xD5336958, 0, 0), (0x736AE311, 1, 3), (0x11A25CCA, 2, 2), (0xAFD9D683, 3, 2),
     (0x4E11503C, 0, 1), (0xEC48C9F5, 1, 0), (0x8A8043AE, 2, 3), (0x28B7BD67, 3, 2)]"

definition xtea_crypt_ecb :: "AVXTEA \<Rightarrow> byte list \<Rightarrow> bool \<Rightarrow> byte list option \<Rightarrow> byte list \<times> byte list option" where
  "xtea_crypt_ecb ctx src decrypt iv =
     (let k = xtea_key ctx;
          v0 = AV_RB32 src; v1 = AV_RB32 (drop 4 src)
      in if decrypt
         then
           let (v0, v1) = fold (DSTEP k) xtea_dec_steps (v0, v1)
           in (case iv of
                 None \<Rightarrow> (AV_WB32 v0 @ AV_WB32 v1, None)
               | Some v \<Rightarrow> (AV_WB32 (v0 XOR AV_RB32 v) @ AV_WB32 (v1 XOR AV_RB32 (drop 4 v)), Some (take 8 src)))
         else
           let (v0, v1) = fold (ESTEP k) xtea_enc_steps (v0, v1)
           in (AV_WB32 v0 @ AV_WB32 v1, iv))"

text \<open>The same function as compiled with \<open>CONFIG_SMALL\<close>.\<close>

definition xtea_crypt_ecb_small :: "AVXTEA \<Rightarrow> byte list \<Rightarrow> bool \<Rightarrow> byte list option \<Rightarrow> byte list \<times> byte list option" where
  "xtea_crypt_ecb_small ctx src decrypt iv =
     (let k = xtea_key ctx;
          v0 = AV_RB32 src; v1 = AV_RB32 (drop 4 src)
      in if decrypt
         then
           let (v0, v1, _) = (xtea_dec_step k ^^ 32) (v0, v1, delta * 32)
           in (case iv of
                 None \<Rightarrow> (AV_WB32 v0 @ AV_WB32 v1, None)
               | Some v \<Rightarrow> (AV_WB32 (v0 XOR AV_RB32 v) @ AV_WB32 (v1 XOR AV_RB32 (drop 4 v)), Some (take 8 src)))
         else
           let (v0, v1, _) = (xtea_enc_step k ^^ 32) (v0, v1, 0)
           in (AV_WB32 v0 @ AV_WB32 v1, iv))"

definition xtea_le_crypt_ecb :: "AVXTEA \<Rightarrow> byte list \<Rightarrow> bool \<Rightarrow> byte list option \<Rightarrow> byte list \<times> byte list option" where
  "xtea_le_crypt_ecb ctx src decrypt iv =
     (let k = xtea_key ctx;
          v0 = AV_RL32 src; v1 = AV_RL32 (drop 4 src)
      in if decrypt
         then
           let (v0, v1, _) = (xtea_dec_step k ^^ 32) (v0, v1, delta * 32)
           in (case iv of
                 None \<Rightarrow> (AV_WL32 v0 @ AV_WL32 v1, None)
               | Some v \<Rightarrow> (AV_WL32 (v0 XOR AV_RL32 v) @ AV_WL32 (v1 XOR AV_RL32 (drop 4 v)), Some (take 8 src)))
         else
           let (v0, v1, _) = (xtea_enc_step k ^^ 32) (v0, v1, 0)
           in (AV_WL32 v0 @ AV_WL32 v1, iv))"

text \<open>\<open>xtea_crypt\<close> is called with the block function as an argument.\<close>

fun xtea_crypt :: "(AVXTEA \<Rightarrow> byte list \<Rightarrow> bool \<Rightarrow> byte list option \<Rightarrow> byte list \<times> byte list option) \<Rightarrow>
    AVXTEA \<Rightarrow> nat \<Rightarrow> byte list \<Rightarrow> byte list option \<Rightarrow> bool \<Rightarrow> byte list \<times> byte list option" where
  "xtea_crypt crypt ctx 0 src iv decrypt = ([], iv)"
| "xtea_crypt crypt ctx (Suc cnt) src iv decrypt =
     (let (dst, iv) =
        (if decrypt then crypt ctx src decrypt iv
         else case iv of
             Some v \<Rightarrow> let (d, _) = crypt ctx (xor_bytes (take 8 src) v) decrypt None in (d, Some d)
           | None \<Rightarrow> crypt ctx src decrypt None);
          (rest, iv) = xtea_crypt crypt ctx cnt (drop 8 src) iv decrypt
      in (dst @ rest, iv))"

definition av_xtea_crypt :: "AVXTEA \<Rightarrow> nat \<Rightarrow> byte list \<Rightarrow> byte list option \<Rightarrow> bool \<Rightarrow> byte list \<times> byte list option" where
  "av_xtea_crypt = xtea_crypt xtea_crypt_ecb"

definition av_xtea_le_crypt :: "AVXTEA \<Rightarrow> nat \<Rightarrow> byte list \<Rightarrow> byte list option \<Rightarrow> bool \<Rightarrow> byte list \<times> byte list option" where
  "av_xtea_le_crypt = xtea_crypt xtea_le_crypt_ecb"

subsection \<open>RC4\<close>

record AVRC4 =
  rc4_state :: "byte list"
  rc4_x :: byte
  rc4_y :: byte

abbreviation EINVAL :: int where "EINVAL \<equiv> 22"

definition AVERROR :: "int \<Rightarrow> int" where
  "AVERROR e = - e"

definition FFSWAP :: "'a list \<Rightarrow> nat \<Rightarrow> nat \<Rightarrow> 'a list" where
  "FFSWAP xs i j = xs[i := xs ! j, j := xs ! i]"

definition rc4_init_step :: "byte list \<Rightarrow> nat \<Rightarrow> nat \<Rightarrow> nat \<times> byte \<times> byte list \<Rightarrow> nat \<times> byte \<times> byte list" where
  "rc4_init_step key keylen i = (\<lambda>(j, y, state).
     let j = (if j = keylen then 0 else j);
         y = y + state ! i + key ! j
     in (j + 1, y, FFSWAP state i (unat y)))"

text \<open>\<open>Inl\<close> is the negative error code returned.\<close>

definition av_rc4_init :: "byte list \<Rightarrow> nat \<Rightarrow> int + AVRC4" where
  "av_rc4_init key key_bits =
     (let keylen = key_bits div 8
      in if key_bits mod 8 \<noteq> 0 then Inl (AVERROR EINVAL)
         else
           let state = map of_nat [0..<256];
               (_, _, state) = fold (rc4_init_step key keylen) [0..<256] (0, 0, state)
           in Inr \<lparr>rc4_state = state, rc4_x = 1, rc4_y = state ! 1\<rparr>)"

text \<open>A null \<open>src\<close> writes the key stream itself.\<close>

fun av_rc4_crypt :: "AVRC4 \<Rightarrow> byte list option \<Rightarrow> nat \<Rightarrow> byte list \<times> AVRC4" where
  "av_rc4_crypt r src 0 = ([], r)"
| "av_rc4_crypt r src (Suc cnt) =
     (let x = rc4_x r; y = rc4_y r; state = rc4_state r;
          sum = state ! unat x + state ! unat y;
          state = FFSWAP state (unat x) (unat y);
          d = (case src of Some s \<Rightarrow> s ! 0 XOR state ! unat sum | None \<Rightarrow> state ! unat sum);
          x = x + 1;
          y = y + state ! unat x;
          (rest, r) = av_rc4_crypt \<lparr>rc4_state = state, rc4_x = x, rc4_y = y\<rparr> (map_option tl src) cnt
      in (d # rest, r))"

subsection \<open>Rounds\<close>

lemma tea_step_inverse: "tea_dec_step k (tea_enc_step k x) = x"
  by (cases x) (simp add: tea_dec_step_def tea_enc_step_def Let_def)

lemma tea_sum: "snd (snd ((tea_enc_step k ^^ n) (v0, v1, s))) = s + delta * of_nat n"
  by (induction n) (simp_all add: tea_enc_step_def split_beta Let_def algebra_simps)

lemma xtea_step_inverse: "xtea_dec_step k (xtea_enc_step k x) = x"
  by (cases x) (simp add: xtea_dec_step_def xtea_enc_step_def Let_def)

lemma xtea_sum: "snd (snd ((xtea_enc_step k ^^ n) (v0, v1, s))) = s + delta * of_nat n"
  by (induction n) (simp_all add: xtea_enc_step_def split_beta Let_def algebra_simps)

text \<open>Decryption starts from the final value of \<open>sum\<close>, which depends on the number of rounds only.\<close>

lemma tea_rounds_inverse:
  assumes "(tea_enc_step k ^^ nat r) (v0, v1, 0) = (w0, w1, s)"
  shows "\<exists>s'. (tea_dec_step k ^^ nat r) (w0, w1, delta * word_of_int r) = (v0, v1, s')"
proof (cases "r \<ge> 0")
  case True
  have "s = delta * of_nat (nat r)" using tea_sum [of "nat r" k v0 v1 0] assms by simp
  then have "s = delta * word_of_int r" using True by (simp add: of_nat_nat)
  then have "(tea_dec_step k ^^ nat r) (w0, w1, delta * word_of_int r) = (v0, v1, 0)"
    using funpow_inverse [of "tea_dec_step k" "tea_enc_step k", OF tea_step_inverse, of "nat r" "(v0, v1, 0)"]
    by (simp add: assms)
  then show ?thesis ..
next
  case False
  then show ?thesis using assms by simp
qed

lemma xtea_rounds_inverse:
  assumes "(xtea_enc_step k ^^ 32) (v0, v1, 0) = (w0, w1, s)"
  shows "(xtea_dec_step k ^^ 32) (w0, w1, delta * 32) = (v0, v1, 0)"
proof -
  have "s = delta * 32" using xtea_sum [of 32 k v0 v1 0] assms by simp
  then show ?thesis
    using funpow_inverse [of "xtea_dec_step k" "xtea_enc_step k", OF xtea_step_inverse, of 32 "(v0, v1, 0)"]
    by (simp only: assms)
qed

subsection \<open>The unrolled rounds are the loop\<close>

fun enc_schedule :: "nat \<Rightarrow> 32 word \<Rightarrow> (32 word \<times> nat \<times> nat) list" where
  "enc_schedule 0 s = []"
| "enc_schedule (Suc n) s =
     (s, unat (s AND 3), unat (drop_bit 11 (s + delta) AND 3)) # enc_schedule n (s + delta)"

fun dec_schedule :: "nat \<Rightarrow> 32 word \<Rightarrow> (32 word \<times> nat \<times> nat) list" where
  "dec_schedule 0 s = []"
| "dec_schedule (Suc n) s =
     (s, unat (drop_bit 11 s AND 3), unat ((s - delta) AND 3)) # dec_schedule n (s - delta)"

lemma enc_step_ESTEP:
  "xtea_enc_step k (v0, v1, s) =
     (let (w0, w1) = ESTEP k (s, unat (s AND 3), unat (drop_bit 11 (s + delta) AND 3)) (v0, v1)
      in (w0, w1, s + delta))"
  by (simp add: xtea_enc_step_def ESTEP_def Let_def)

lemma dec_step_DSTEP:
  "xtea_dec_step k (v0, v1, s) =
     (let (w0, w1) = DSTEP k (s, unat (drop_bit 11 s AND 3), unat ((s - delta) AND 3)) (v0, v1)
      in (w0, w1, s - delta))"
  by (simp add: xtea_dec_step_def DSTEP_def Let_def)

lemma enc_schedule_fold:
  "(xtea_enc_step k ^^ n) (v0, v1, s) =
     (let (w0, w1) = fold (ESTEP k) (enc_schedule n s) (v0, v1) in (w0, w1, s + delta * of_nat n))"
proof (induction n arbitrary: v0 v1 s)
  case (Suc n)
  show ?case
    by (cases "ESTEP k (s, unat (s AND 3), unat (drop_bit 11 (s + delta) AND 3)) (v0, v1)")
      (simp add: funpow_Suc_right Suc enc_step_ESTEP split_beta algebra_simps del: funpow.simps)
qed simp

lemma dec_schedule_fold:
  "(xtea_dec_step k ^^ n) (v0, v1, s) =
     (let (w0, w1) = fold (DSTEP k) (dec_schedule n s) (v0, v1) in (w0, w1, s - delta * of_nat n))"
proof (induction n arbitrary: v0 v1 s)
  case (Suc n)
  show ?case
    by (cases "DSTEP k (s, unat (drop_bit 11 s AND 3), unat ((s - delta) AND 3)) (v0, v1)")
      (simp add: funpow_Suc_right Suc dec_step_DSTEP split_beta algebra_simps del: funpow.simps)
qed simp

lemma enc_schedule_literal: "enc_schedule 32 0 = xtea_enc_steps"
  by code_simp

lemma dec_schedule_literal: "dec_schedule 32 (delta * 32) = xtea_dec_steps"
  by code_simp

lemma unrolled_rounds:
  "fold (ESTEP k) xtea_enc_steps (v0, v1) = (let (w0, w1, _) = (xtea_enc_step k ^^ 32) (v0, v1, 0) in (w0, w1))"
  "fold (DSTEP k) xtea_dec_steps (v0, v1) = (let (w0, w1, _) = (xtea_dec_step k ^^ 32) (v0, v1, delta * 32) in (w0, w1))"
  by (simp_all only: enc_schedule_fold dec_schedule_fold enc_schedule_literal dec_schedule_literal Let_def
      split_beta fst_conv snd_conv prod.collapse)

lemma xtea_unrolled: "xtea_crypt_ecb ctx src decrypt iv = xtea_crypt_ecb_small ctx src decrypt iv"
  by (simp add: xtea_crypt_ecb_def xtea_crypt_ecb_small_def unrolled_rounds Let_def split_beta
      del: funpow.simps split: option.split)

subsection \<open>Buffers\<close>

lemma tea_ecb_iv:
  "length v = 8 \<Longrightarrow> tea_crypt_ecb ctx src True (Some v) =
     (xor_bytes (fst (tea_crypt_ecb ctx src True None)) v, Some (take 8 src))"
  by (simp add: tea_crypt_ecb_def Let_def split_beta xor_block)

lemma tea_ecb_None: "snd (tea_crypt_ecb ctx src d None) = None"
  by (simp add: tea_crypt_ecb_def Let_def split_beta)

lemma tea_ecb_take: "fst (tea_crypt_ecb ctx (take 8 src) d None) = fst (tea_crypt_ecb ctx src d None)"
  by (simp add: tea_crypt_ecb_def Let_def split_beta R32_take8)

lemma tea_block:
  assumes "length b = 8"
  shows "fst (tea_crypt_ecb ctx (fst (tea_crypt_ecb ctx b False None)) True None) = b"
proof -
  define r k where "r = tea_rounds ctx sdiv 2" and "k = tea_key ctx"
  obtain w0 w1 s where w: "(tea_enc_step k ^^ nat r) (AV_RB32 b, AV_RB32 (drop 4 b), 0) = (w0, w1, s)"
    by (metis prod_cases3)
  from tea_rounds_inverse [OF this] obtain s'
    where "(tea_dec_step k ^^ nat r) (w0, w1, delta * word_of_int r) = (AV_RB32 b, AV_RB32 (drop 4 b), s')" ..
  with w assms show ?thesis
    by (simp add: tea_crypt_ecb_def Let_def r_def [symmetric] k_def [symmetric] bytes_rw)
qed

interpretation tea: block_mode 8 "\<lambda>b. fst (tea_crypt_ecb ctx b False None)"
  "\<lambda>b. fst (tea_crypt_ecb ctx b True None)" "av_tea_crypt ctx" for ctx
proof unfold_locales
  fix b :: "byte list" assume "length b = 8"
  then show "fst (tea_crypt_ecb ctx (fst (tea_crypt_ecb ctx b False None)) True None) = b" by (rule tea_block)
qed (simp_all add: tea_ecb_iv tea_ecb_take split_beta tea_ecb_None Let_def,
     simp_all add: tea_crypt_ecb_def Let_def split_beta)

lemma xtea_ecb_iv:
  "length v = 8 \<Longrightarrow> xtea_crypt_ecb ctx src True (Some v) =
     (xor_bytes (fst (xtea_crypt_ecb ctx src True None)) v, Some (take 8 src))"
  "length v = 8 \<Longrightarrow> xtea_le_crypt_ecb ctx src True (Some v) =
     (xor_bytes (fst (xtea_le_crypt_ecb ctx src True None)) v, Some (take 8 src))"
  by (simp_all add: xtea_crypt_ecb_def xtea_le_crypt_ecb_def Let_def split_beta xor_block)

lemma xtea_ecb_None: "snd (xtea_crypt_ecb ctx src d None) = None" "snd (xtea_le_crypt_ecb ctx src d None) = None"
  by (simp_all add: xtea_crypt_ecb_def xtea_le_crypt_ecb_def Let_def split_beta)

lemma xtea_ecb_take:
  "fst (xtea_crypt_ecb ctx (take 8 src) d None) = fst (xtea_crypt_ecb ctx src d None)"
  "fst (xtea_le_crypt_ecb ctx (take 8 src) d None) = fst (xtea_le_crypt_ecb ctx src d None)"
  by (simp_all add: xtea_crypt_ecb_def xtea_le_crypt_ecb_def Let_def split_beta R32_take8)

lemma xtea_block:
  assumes "length b = 8"
  shows "fst (xtea_crypt_ecb ctx (fst (xtea_crypt_ecb ctx b False None)) True None) = b"
    "fst (xtea_le_crypt_ecb ctx (fst (xtea_le_crypt_ecb ctx b False None)) True None) = b"
proof -
  define k where "k = xtea_key ctx"
  obtain w0 w1 s where w: "(xtea_enc_step k ^^ 32) (AV_RB32 b, AV_RB32 (drop 4 b), 0) = (w0, w1, s)"
    by (metis prod_cases3)
  show "fst (xtea_crypt_ecb ctx (fst (xtea_crypt_ecb ctx b False None)) True None) = b"
    using xtea_rounds_inverse [OF w] w assms unfolding xtea_unrolled
    by (simp add: xtea_crypt_ecb_small_def Let_def k_def [symmetric] bytes_rw del: funpow.simps)
  obtain w0 w1 s where w: "(xtea_enc_step k ^^ 32) (AV_RL32 b, AV_RL32 (drop 4 b), 0) = (w0, w1, s)"
    by (metis prod_cases3)
  show "fst (xtea_le_crypt_ecb ctx (fst (xtea_le_crypt_ecb ctx b False None)) True None) = b"
    using xtea_rounds_inverse [OF w] w assms
    by (simp add: xtea_le_crypt_ecb_def Let_def k_def [symmetric] bytes_rw del: funpow.simps)
qed

interpretation xtea: block_mode 8 "\<lambda>b. fst (xtea_crypt_ecb ctx b False None)"
  "\<lambda>b. fst (xtea_crypt_ecb ctx b True None)" "av_xtea_crypt ctx" for ctx
proof unfold_locales
  fix b :: "byte list" assume "length b = 8"
  then show "fst (xtea_crypt_ecb ctx (fst (xtea_crypt_ecb ctx b False None)) True None) = b" by (rule xtea_block)
qed (simp_all add: av_xtea_crypt_def xtea_ecb_iv xtea_ecb_take split_beta xtea_ecb_None Let_def,
     simp_all add: xtea_crypt_ecb_def Let_def split_beta)

interpretation xtea_le: block_mode 8 "\<lambda>b. fst (xtea_le_crypt_ecb ctx b False None)"
  "\<lambda>b. fst (xtea_le_crypt_ecb ctx b True None)" "av_xtea_le_crypt ctx" for ctx
proof unfold_locales
  fix b :: "byte list" assume "length b = 8"
  then show "fst (xtea_le_crypt_ecb ctx (fst (xtea_le_crypt_ecb ctx b False None)) True None) = b" by (rule xtea_block)
qed (simp_all add: av_xtea_le_crypt_def xtea_ecb_iv xtea_ecb_take split_beta xtea_ecb_None Let_def,
     simp_all add: xtea_le_crypt_ecb_def Let_def split_beta)

subsection \<open>The RC4 state\<close>

definition rc4_perm :: "byte list \<Rightarrow> bool" where
  "rc4_perm state \<longleftrightarrow> mset state = mset (map of_nat [0..<256])"

lemma FFSWAP_mset: "i < length xs \<Longrightarrow> j < length xs \<Longrightarrow> mset (FFSWAP xs i j) = mset xs"
  unfolding FFSWAP_def by (rule mset_swap)

lemma rc4_perm_length: "rc4_perm state \<Longrightarrow> length state = 256"
  unfolding rc4_perm_def by (metis size_mset length_map length_upt diff_zero)

lemma unat_byte [simp]: "unat (x :: byte) < 256"
  using unsigned_less [of x] by simp

lemma rc4_perm_swap: "rc4_perm state \<Longrightarrow> i < 256 \<Longrightarrow> j < 256 \<Longrightarrow> rc4_perm (FFSWAP state i j)"
  using FFSWAP_mset [of i state j] rc4_perm_length [of state] by (simp add: rc4_perm_def)

lemma rc4_init_perm:
  "rc4_perm state \<Longrightarrow> \<forall>i \<in> set is. i < 256 \<Longrightarrow> rc4_perm (snd (snd (fold (rc4_init_step key l) is (j, y, state))))"
proof (induction "is" arbitrary: j y state)
  case (Cons i "is")
  then show ?case by (simp add: rc4_init_step_def Let_def rc4_perm_swap)
qed simp

lemma av_rc4_init_perm: "av_rc4_init key n = Inr r \<Longrightarrow> rc4_perm (rc4_state r)"
  using rc4_init_perm [of "map of_nat [0..<256]" "[0..<256]" key "n div 8" 0 0]
  by (auto simp: av_rc4_init_def Let_def split_beta rc4_perm_def split: if_splits simp del: upt_Suc)

lemma av_rc4_init_ok:
  assumes "n mod 8 = 0"
  obtains r where "av_rc4_init key n = Inr r"
  using assms by (simp add: av_rc4_init_def Let_def split_beta del: upt_Suc upt_rec_numeral)

lemma av_rc4_crypt_perm: "rc4_perm (rc4_state r) \<Longrightarrow> rc4_perm (rc4_state (snd (av_rc4_crypt r src n)))"
  by (induction r src n rule: av_rc4_crypt.induct) (simp_all add: Let_def split_beta rc4_perm_swap)

text \<open>The key stream does not depend on the data.\<close>

lemma av_rc4_crypt_stream:
  "n \<le> length s \<Longrightarrow> av_rc4_crypt r (Some s) n =
     (let (ks, r') = av_rc4_crypt r None n in (xor_bytes (take n s) ks, r'))"
proof (induction n arbitrary: r s)
  case (Suc n)
  then obtain a s' where s: "s = a # s'" by (cases s) auto
  with Suc show ?case by (simp add: Let_def split_beta xor_bytes_def)
qed (simp add: xor_bytes_def)

lemma av_rc4_crypt_length: "length (fst (av_rc4_crypt r src n)) = n"
  by (induction r src n rule: av_rc4_crypt.induct) (simp_all add: Let_def split_beta)

lemma av_rc4_crypt_append:
  "m = length a \<Longrightarrow> av_rc4_crypt r (Some (a @ b)) (m + n) =
     (let (x, r1) = av_rc4_crypt r (Some a) m; (y, r2) = av_rc4_crypt r1 (Some b) n in (x @ y, r2))"
proof (induction a arbitrary: r m)
  case (Cons c a)
  then show ?case by (simp add: Let_def split_beta)
qed simp

subsection \<open>Properties\<close>

text \<open>C31. The TEA and XTEA buffer functions (big and little endian) decrypt what they encrypted, in ECB
  mode and in CBC mode, and decryption leaves the same vector behind as encryption did.\<close>

theorem av_tea_xtea_roundtrip:
  assumes "n * 8 \<le> length src" "iv_ok 8 iv"
  shows "(let (dst, iv') = av_tea_crypt tea n src iv False in av_tea_crypt tea n dst iv True = (take (n * 8) src, iv')) \<and>
    (let (dst, iv') = av_xtea_crypt ctx n src iv False in av_xtea_crypt ctx n dst iv True = (take (n * 8) src, iv')) \<and>
    (let (dst, iv') = av_xtea_le_crypt ctx n src iv False in av_xtea_le_crypt ctx n dst iv True = (take (n * 8) src, iv'))"
  using tea.roundtrip [OF assms, where r = "[]" and ctx = tea]
    xtea.roundtrip [OF assms, where r = "[]" and ctx = ctx] xtea_le.roundtrip [OF assms, where r = "[]" and ctx = ctx]
  by (simp add: Let_def split_beta)

theorem av_tea_xtea_roundtrip_witness:
  "let (dst, iv') = av_tea_crypt (av_tea_init [1,2,3,4,5,6,7,8,9,10,11,12,13,14,15,16] 64) 1 [1,2,3,4,5,6,7,8] (Some [8,7,6,5,4,3,2,1]) False
   in av_tea_crypt (av_tea_init [1,2,3,4,5,6,7,8,9,10,11,12,13,14,15,16] 64) 1 dst (Some [8,7,6,5,4,3,2,1]) True = ([1,2,3,4,5,6,7,8], iv')"
proof -
  define src iv :: "byte list" where "src = [1,2,3,4,5,6,7,8]" and "iv = [8,7,6,5,4,3,2,1]"
  have h: "1 * 8 \<le> length src" "iv_ok 8 (Some iv)" "take (1 * 8) src = src"
    by (simp_all add: src_def iv_def iv_ok_def)
  have e: "let (dst, iv') = av_tea_crypt tea 1 src (Some iv) False in av_tea_crypt tea 1 dst (Some iv) True = (src, iv')" for tea
    using av_tea_xtea_roundtrip [OF h(1,2), of tea, THEN conjunct1] by (simp only: h(3))
  show ?thesis by (rule e [unfolded src_def iv_def])
qed

text \<open>The unrolled XTEA block function, with its 64 literal round constants and key numbers, computes
  the loop of the small build, in both directions.\<close>

theorem xtea_unrolled_is_loop:
  "xtea_crypt_ecb ctx src decrypt iv = xtea_crypt_ecb_small ctx src decrypt iv"
  by (rule xtea_unrolled)

text \<open>C32. After \<open>av_rc4_init\<close> the RC4 state is a permutation of the bytes and stays one; encrypting
  twice from the same state gives back the data, and a buffer may be processed in two calls.\<close>

theorem av_rc4_stream:
  assumes "av_rc4_init key key_bits = Inr r"
  shows "rc4_perm (rc4_state r) \<and> rc4_perm (rc4_state (snd (av_rc4_crypt r src n))) \<and>
    fst (av_rc4_crypt r (Some (fst (av_rc4_crypt r (Some s) (length s)))) (length s)) = s \<and>
    fst (av_rc4_crypt r (Some (a @ b)) (length a + length b)) =
      fst (av_rc4_crypt r (Some a) (length a)) @
      fst (av_rc4_crypt (snd (av_rc4_crypt r (Some a) (length a))) (Some b) (length b))"
proof -
  have "rc4_perm (rc4_state r)" using assms by (rule av_rc4_init_perm)
  moreover have "length (fst (av_rc4_crypt r None (length s))) = length s" by (rule av_rc4_crypt_length)
  then have "fst (av_rc4_crypt r (Some (fst (av_rc4_crypt r (Some s) (length s)))) (length s)) = s"
    by (simp add: av_rc4_crypt_stream split_beta Let_def xor_bytes_cancel)
  ultimately show ?thesis
    using av_rc4_crypt_append [of "length a" a r b "length b"] av_rc4_crypt_perm by (simp add: split_beta Let_def)
qed

theorem av_rc4_stream_witness:
  "\<exists>r. av_rc4_init [1, 2, 3, 4, 5] 40 = Inr r \<and> fst (av_rc4_crypt r (Some (fst (av_rc4_crypt r (Some [7, 8]) 2))) 2) = [7, 8]"
proof -
  obtain r where r: "av_rc4_init [1, 2, 3, 4, 5] 40 = Inr r" by (rule av_rc4_init_ok [of 40 "[1, 2, 3, 4, 5]"]) simp_all
  have "fst (av_rc4_crypt r (Some (fst (av_rc4_crypt r (Some [7, 8]) (length [7, 8 :: byte])))) (length [7, 8 :: byte])) = [7, 8]"
    using av_rc4_stream [OF r, of None 0 "[7, 8]" "[]" "[]"] by (simp only:)
  then have "fst (av_rc4_crypt r (Some (fst (av_rc4_crypt r (Some [7, 8]) 2))) 2) = [7, 8]"
    by (simp only: list.size numeral_2_eq_2 add_0 add_0_right plus_1_eq_Suc One_nat_def add_Suc_right)
  with r show ?thesis by (intro exI [of _ r] conjI)
qed

end
