(* ===== verification/Camellia.thy ===== *)
theory Camellia
  imports Bytes
begin

section \<open>Camellia: \<open>libavutil/camellia.c\<close>\<close>

text \<open>
  The S-boxes, the combined table \<open>SP\<close> that \<open>av_camellia_init\<close> computes, the key schedule, the 18 or
  24 rounds written out as in the source, and the buffer function.  The global table \<open>SP\<close> is an
  argument \<open>sp\<close> of the functions that read it; the round trip holds whatever it contains.
\<close>

record AVCAMELLIA =
  cKw :: "64 word list"
  cKe :: "64 word list"
  cK :: "64 word list"
  key_bits :: nat

definition SBOX1 :: "byte list" where
  "SBOX1 =
    [112, 130, 44, 236, 179, 39, 192, 229, 228, 133, 87, 53, 234, 12, 174, 65,
     35, 239, 107, 147, 69, 25, 165, 33, 237, 14, 79, 78, 29, 101, 146, 189,
     134, 184, 175, 143, 124, 235, 31, 206, 62, 48, 220, 95, 94, 197, 11, 26,
     166, 225, 57, 202, 213, 71, 93, 61, 217, 1, 90, 214, 81, 86, 108, 77,
     139, 13, 154, 102, 251, 204, 176, 45, 116, 18, 43, 32, 240, 177, 132, 153,
     223, 76, 203, 194, 52, 126, 118, 5, 109, 183, 169, 49, 209, 23, 4, 215,
     20, 88, 58, 97, 222, 27, 17, 28, 50, 15, 156, 22, 83, 24, 242, 34,
     254, 68, 207, 178, 195, 181, 122, 145, 36, 8, 232, 168, 96, 252, 105, 80,
     170, 208, 160, 125, 161, 137, 98, 151, 84, 91, 30, 149, 224, 255, 100, 210,
     16, 196, 0, 72, 163, 247, 117, 219, 138, 3, 230, 218, 9, 63, 221, 148,
     135, 92, 131, 2, 205, 74, 144, 51, 115, 103, 246, 243, 157, 127, 191, 226,
     82, 155, 216, 38, 200, 55, 198, 59, 129, 150, 111, 75, 19, 190, 99, 46,
     233, 121, 167, 140, 159, 110, 188, 142, 41, 245, 249, 182, 47, 253, 180, 89,
     120, 152, 6, 106, 231, 70, 113, 186, 212, 37, 171, 66, 136, 162, 141, 250,
     114, 7, 185, 85, 248, 238, 172, 10, 54, 73, 42, 104, 60, 56, 241, 164,
     64, 40, 211, 123, 187, 201, 67, 193, 21, 227, 173, 244, 119, 199, 128, 158]"

definition SBOX2 :: "byte list" where
  "SBOX2 =
    [224, 5, 88, 217, 103, 78, 129, 203, 201, 11, 174, 106, 213, 24, 93, 130,
     70, 223, 214, 39, 138, 50, 75, 66, 219, 28, 158, 156, 58, 202, 37, 123,
     13, 113, 95, 31, 248, 215, 62, 157, 124, 96, 185, 190, 188, 139, 22, 52,
     77, 195, 114, 149, 171, 142, 186, 122, 179, 2, 180, 173, 162, 172, 216, 154,
     23, 26, 53, 204, 247, 153, 97, 90, 232, 36, 86, 64, 225, 99, 9, 51,
     191, 152, 151, 133, 104, 252, 236, 10, 218, 111, 83, 98, 163, 46, 8, 175,
     40, 176, 116, 194, 189, 54, 34, 56, 100, 30, 57, 44, 166, 48, 229, 68,
     253, 136, 159, 101, 135, 107, 244, 35, 72, 16, 209, 81, 192, 249, 210, 160,
     85, 161, 65, 250, 67, 19, 196, 47, 168, 182, 60, 43, 193, 255, 200, 165,
     32, 137, 0, 144, 71, 239, 234, 183, 21, 6, 205, 181, 18, 126, 187, 41,
     15, 184, 7, 4, 155, 148, 33, 102, 230, 206, 237, 231, 59, 254, 127, 197,
     164, 55, 177, 76, 145, 110, 141, 118, 3, 45, 222, 150, 38, 125, 198, 92,
     211, 242, 79, 25, 63, 220, 121, 29, 82, 235, 243, 109, 94, 251, 105, 178,
     240, 49, 12, 212, 207, 140, 226, 117, 169, 74, 87, 132, 17, 69, 27, 245,
     228, 14, 115, 170, 241, 221, 89, 20, 108, 146, 84, 208, 120, 112, 227, 73,
     128, 80, 167, 246, 119, 147, 134, 131, 42, 199, 91, 233, 238, 143, 1, 61]"

definition SBOX3 :: "byte list" where
  "SBOX3 =
    [56, 65, 22, 118, 217, 147, 96, 242, 114, 194, 171, 154, 117, 6, 87, 160,
     145, 247, 181, 201, 162, 140, 210, 144, 246, 7, 167, 39, 142, 178, 73, 222,
     67, 92, 215, 199, 62, 245, 143, 103, 31, 24, 110, 175, 47, 226, 133, 13,
     83, 240, 156, 101, 234, 163, 174, 158, 236, 128, 45, 107, 168, 43, 54, 166,
     197, 134, 77, 51, 253, 102, 88, 150, 58, 9, 149, 16, 120, 216, 66, 204,
     239, 38, 229, 97, 26, 63, 59, 130, 182, 219, 212, 152, 232, 139, 2, 235,
     10, 44, 29, 176, 111, 141, 136, 14, 25, 135, 78, 11, 169, 12, 121, 17,
     127, 34, 231, 89, 225, 218, 61, 200, 18, 4, 116, 84, 48, 126, 180, 40,
     85, 104, 80, 190, 208, 196, 49, 203, 42, 173, 15, 202, 112, 255, 50, 105,
     8, 98, 0, 36, 209, 251, 186, 237, 69, 129, 115, 109, 132, 159, 238, 74,
     195, 46, 193, 1, 230, 37, 72, 153, 185, 179, 123, 249, 206, 191, 223, 113,
     41, 205, 108, 19, 100, 155, 99, 157, 192, 75, 183, 165, 137, 95, 177, 23,
     244, 188, 211, 70, 207, 55, 94, 71, 148, 250, 252, 91, 151, 254, 90, 172,
     60, 76, 3, 53, 243, 35, 184, 93, 106, 146, 213, 33, 68, 81, 198, 125,
     57, 131, 220, 170, 124, 119, 86, 5, 27, 164, 21, 52, 30, 28, 248, 82,
     32, 20, 233, 189, 221, 228, 161, 224, 138, 241, 214, 122, 187, 227, 64, 79]"

definition SBOX4 :: "byte list" where
  "SBOX4 =
    [112, 44, 179, 192, 228, 87, 234, 174, 35, 107, 69, 165, 237, 79, 29, 146,
     134, 175, 124, 31, 62, 220, 94, 11, 166, 57, 213, 93, 217, 90, 81, 108,
     139, 154, 251, 176, 116, 43, 240, 132, 223, 203, 52, 118, 109, 169, 209, 4,
     20, 58, 222, 17, 50, 156, 83, 242, 254, 207, 195, 122, 36, 232, 96, 105,
     170, 160, 161, 98, 84, 30, 224, 100, 16, 0, 163, 117, 138, 230, 9, 221,
     135, 131, 205, 144, 115, 246, 157, 191, 82, 216, 200, 198, 129, 111, 19, 99,
     233, 167, 159, 188, 41, 249, 47, 180, 120, 6, 231, 113, 212, 171, 136, 141,
     114, 185, 248, 172, 54, 42, 60, 241, 64, 211, 187, 67, 21, 173, 119, 128,
     130, 236, 39, 229, 133, 53, 12, 65, 239, 147, 25, 33, 14, 78, 101, 189,
     184, 143, 235, 206, 48, 95, 197, 26, 225, 202, 71, 61, 1, 214, 86, 77,
     13, 102, 204, 45, 18, 32, 177, 153, 76, 194, 126, 5, 183, 49, 23, 215,
     88, 97, 27, 28, 15, 22, 24, 34, 68, 178, 181, 145, 8, 168, 252, 80,
     208, 125, 137, 151, 91, 149, 255, 210, 196, 72, 247, 219, 3, 218, 63, 148,
     92, 2, 74, 51, 103, 243, 127, 226, 155, 38, 55, 59, 150, 75, 190, 46,
     121, 140, 110, 142, 245, 182, 253, 89, 152, 106, 70, 186, 37, 66, 162, 250,
     7, 85, 238, 10, 73, 104, 56, 164, 40, 123, 201, 193, 227, 244, 199, 158]"

definition computeSP :: "64 word list list" where
  "computeSP =
    [map (\<lambda>i. let z = ucast (SBOX1 ! i) in push_bit 56 z XOR push_bit 48 z XOR push_bit 40 z XOR push_bit 24 z XOR z) [0..<256],
     map (\<lambda>i. let z = ucast (SBOX2 ! i) in push_bit 48 z XOR push_bit 40 z XOR push_bit 32 z XOR push_bit 24 z XOR push_bit 16 z) [0..<256],
     map (\<lambda>i. let z = ucast (SBOX3 ! i) in push_bit 56 z XOR push_bit 40 z XOR push_bit 32 z XOR push_bit 16 z XOR push_bit 8 z) [0..<256],
     map (\<lambda>i. let z = ucast (SBOX4 ! i) in push_bit 56 z XOR push_bit 48 z XOR push_bit 32 z XOR push_bit 8 z XOR z) [0..<256],
     map (\<lambda>i. let z = ucast (SBOX2 ! i) in push_bit 48 z XOR push_bit 40 z XOR push_bit 32 z XOR push_bit 16 z XOR push_bit 8 z XOR z) [0..<256],
     map (\<lambda>i. let z = ucast (SBOX3 ! i) in push_bit 56 z XOR push_bit 40 z XOR push_bit 32 z XOR push_bit 24 z XOR push_bit 8 z XOR z) [0..<256],
     map (\<lambda>i. let z = ucast (SBOX4 ! i) in push_bit 56 z XOR push_bit 48 z XOR push_bit 32 z XOR push_bit 24 z XOR push_bit 16 z XOR z) [0..<256],
     map (\<lambda>i. let z = ucast (SBOX1 ! i) in push_bit 56 z XOR push_bit 48 z XOR push_bit 40 z XOR push_bit 24 z XOR push_bit 16 z XOR push_bit 8 z) [0..<256]]"

abbreviation Sigma1 :: "64 word" where "Sigma1 \<equiv> 0xA09E667F3BCC908B"
abbreviation Sigma2 :: "64 word" where "Sigma2 \<equiv> 0xB67AE8584CAA73B2"
abbreviation Sigma3 :: "64 word" where "Sigma3 \<equiv> 0xC6EF372FE94F82BE"
abbreviation Sigma4 :: "64 word" where "Sigma4 \<equiv> 0x54FF53A5F1D36F1C"
abbreviation Sigma5 :: "64 word" where "Sigma5 \<equiv> 0x10E527FADE682D1D"
abbreviation Sigma6 :: "64 word" where "Sigma6 \<equiv> 0xB05688C2B3E6C1FD"

definition LR128 :: "64 word \<times> 64 word \<Rightarrow> nat \<Rightarrow> 64 word \<times> 64 word" where
  "LR128 = (\<lambda>(k0, k1) x.
     let (a, b, x) = (if 64 \<le> x \<and> x < 128 then (k1, k0, x - 64) else (k0, k1, x))
     in if x = 0 \<or> x \<ge> 128 then (a, b)
        else (push_bit x a OR drop_bit (64 - x) b, push_bit x b OR drop_bit (64 - x) a))"

definition cam_F :: "64 word list list \<Rightarrow> 64 word \<Rightarrow> 64 word \<Rightarrow> 64 word" where
  "cam_F sp F_IN KE =
     (let KE = KE XOR F_IN
      in sp ! 0 ! unat (drop_bit 56 KE) XOR sp ! 1 ! unat (drop_bit 48 KE AND 0xff) XOR
         sp ! 2 ! unat (drop_bit 40 KE AND 0xff) XOR sp ! 3 ! unat (drop_bit 32 KE AND 0xff) XOR
         sp ! 4 ! unat (drop_bit 24 KE AND 0xff) XOR sp ! 5 ! unat (drop_bit 16 KE AND 0xff) XOR
         sp ! 6 ! unat (drop_bit 8 KE AND 0xff) XOR sp ! 7 ! unat (KE AND 0xff))"

definition LR32 :: "32 word \<Rightarrow> nat \<Rightarrow> 32 word" where
  "LR32 x c = push_bit c x OR drop_bit (32 - c) x"

definition cam_FL :: "64 word \<Rightarrow> 64 word \<Rightarrow> 64 word" where
  "cam_FL FL_IN KE =
     (let x1 = ucast (drop_bit 32 FL_IN) :: 32 word; x2 = ucast (FL_IN AND 0xffffffff) :: 32 word;
          k1 = ucast (drop_bit 32 KE) :: 32 word; k2 = ucast (KE AND 0xffffffff) :: 32 word;
          x2 = x2 XOR LR32 (x1 AND k1) 1;
          x1 = x1 XOR (x2 OR k2)
      in push_bit 32 (ucast x1) OR ucast x2)"

definition cam_FLINV :: "64 word \<Rightarrow> 64 word \<Rightarrow> 64 word" where
  "cam_FLINV FLINV_IN KE =
     (let x1 = ucast (drop_bit 32 FLINV_IN) :: 32 word; x2 = ucast (FLINV_IN AND 0xffffffff) :: 32 word;
          k1 = ucast (drop_bit 32 KE) :: 32 word; k2 = ucast (KE AND 0xffffffff) :: 32 word;
          x1 = x1 XOR (x2 OR k2);
          x2 = x2 XOR LR32 (x1 AND k1) 1
      in push_bit 32 (ucast x1) OR ucast x2)"

definition shifts :: "nat list list" where
  "shifts =
    [[0, 15, 15, 45, 45, 60, 94, 94, 111],
     [0, 15, 15, 30, 45, 45, 60, 60, 77, 94, 94, 111]]"

definition vars :: "nat list list" where
  "vars =
    [[2, 0, 2, 0, 2, 2, 0, 2, 0],
     [3, 1, 2, 3, 0, 2, 1, 3, 0, 1, 2, 0]]"

definition set2 :: "'a list \<Rightarrow> nat \<Rightarrow> 'a \<times> 'a \<Rightarrow> 'a list" where
  "set2 xs i d = xs[i := fst d, i + 1 := snd d]"

definition cam_round_keys :: "AVCAMELLIA \<Rightarrow> (64 word \<times> 64 word) list \<Rightarrow> AVCAMELLIA" where
  "cam_round_keys cs Kd =
     (let cs = cs\<lparr>cKw := set2 (cKw cs) 0 (Kd ! 0)\<rparr>
      in if key_bits cs = 128
         then
           let K = fold (\<lambda>i K. set2 K (2 * i) (LR128 (Kd ! (vars ! 0 ! i)) (shifts ! 0 ! i))) [0..<9] (cK cs);
               K = K[9 := snd (LR128 (Kd ! 0) 60)];
               Ke = set2 (cKe cs) 0 (LR128 (Kd ! 2) 30);
               Ke = set2 Ke 2 (LR128 (Kd ! 0) 77)
           in cs\<lparr>cK := K, cKe := Ke, cKw := set2 (cKw cs) 2 (LR128 (Kd ! 2) 111)\<rparr>
         else
           let K = fold (\<lambda>i K. set2 K (2 * i) (LR128 (Kd ! (vars ! 1 ! i)) (shifts ! 1 ! i))) [0..<12] (cK cs);
               Ke = set2 (cKe cs) 0 (LR128 (Kd ! 1) 30);
               Ke = set2 Ke 2 (LR128 (Kd ! 0) 60);
               Ke = set2 Ke 4 (LR128 (Kd ! 2) 77)
           in cs\<lparr>cK := K, cKe := Ke, cKw := set2 (cKw cs) 2 (LR128 (Kd ! 3) 111)\<rparr>)"

text \<open>The work on the two halves \<open>D1\<close> and \<open>D2\<close>, and the block functions around it.\<close>

definition cam_enc_words :: "64 word list list \<Rightarrow> AVCAMELLIA \<Rightarrow> 64 word \<Rightarrow> 64 word \<Rightarrow> 64 word \<times> 64 word" where
  "cam_enc_words sp cs D1 D2 =
    (let D1 = D1 XOR cKw cs ! 0;
         D2 = D2 XOR cKw cs ! 1;
         D2 = D2 XOR cam_F sp D1 (cK cs ! 0);
         D1 = D1 XOR cam_F sp D2 (cK cs ! 1);
         D2 = D2 XOR cam_F sp D1 (cK cs ! 2);
         D1 = D1 XOR cam_F sp D2 (cK cs ! 3);
         D2 = D2 XOR cam_F sp D1 (cK cs ! 4);
         D1 = D1 XOR cam_F sp D2 (cK cs ! 5);
         D1 = cam_FL D1 (cKe cs ! 0);
         D2 = cam_FLINV D2 (cKe cs ! 1);
         D2 = D2 XOR cam_F sp D1 (cK cs ! 6);
         D1 = D1 XOR cam_F sp D2 (cK cs ! 7);
         D2 = D2 XOR cam_F sp D1 (cK cs ! 8);
         D1 = D1 XOR cam_F sp D2 (cK cs ! 9);
         D2 = D2 XOR cam_F sp D1 (cK cs ! 10);
         D1 = D1 XOR cam_F sp D2 (cK cs ! 11);
         D1 = cam_FL D1 (cKe cs ! 2);
         D2 = cam_FLINV D2 (cKe cs ! 3);
         D2 = D2 XOR cam_F sp D1 (cK cs ! 12);
         D1 = D1 XOR cam_F sp D2 (cK cs ! 13);
         D2 = D2 XOR cam_F sp D1 (cK cs ! 14);
         D1 = D1 XOR cam_F sp D2 (cK cs ! 15);
         D2 = D2 XOR cam_F sp D1 (cK cs ! 16);
         D1 = D1 XOR cam_F sp D2 (cK cs ! 17);
         (D1, D2) = (if key_bits cs \<noteq> 128
            then let D1 = cam_FL D1 (cKe cs ! 4);
                     D2 = cam_FLINV D2 (cKe cs ! 5);
                     D2 = D2 XOR cam_F sp D1 (cK cs ! 18);
                     D1 = D1 XOR cam_F sp D2 (cK cs ! 19);
                     D2 = D2 XOR cam_F sp D1 (cK cs ! 20);
                     D1 = D1 XOR cam_F sp D2 (cK cs ! 21);
                     D2 = D2 XOR cam_F sp D1 (cK cs ! 22);
                     D1 = D1 XOR cam_F sp D2 (cK cs ! 23) in (D1, D2)
            else (D1, D2));
         D2 = D2 XOR cKw cs ! 2;
         D1 = D1 XOR cKw cs ! 3
     in (D1, D2))"

definition camellia_encrypt :: "64 word list list \<Rightarrow> AVCAMELLIA \<Rightarrow> byte list \<Rightarrow> byte list" where
  "camellia_encrypt sp cs src =
    (let (D1, D2) = cam_enc_words sp cs (AV_RB64 src) (AV_RB64 (drop 8 src))
     in AV_WB64 D2 @ AV_WB64 D1)"

definition cam_dec_words :: "64 word list list \<Rightarrow> AVCAMELLIA \<Rightarrow> 64 word \<Rightarrow> 64 word \<Rightarrow> 64 word \<times> 64 word" where
  "cam_dec_words sp cs D1 D2 =
    (let D1 = D1 XOR cKw cs ! 2;
         D2 = D2 XOR cKw cs ! 3;
         (D1, D2) = (if key_bits cs \<noteq> 128
            then let D2 = D2 XOR cam_F sp D1 (cK cs ! 23);
                     D1 = D1 XOR cam_F sp D2 (cK cs ! 22);
                     D2 = D2 XOR cam_F sp D1 (cK cs ! 21);
                     D1 = D1 XOR cam_F sp D2 (cK cs ! 20);
                     D2 = D2 XOR cam_F sp D1 (cK cs ! 19);
                     D1 = D1 XOR cam_F sp D2 (cK cs ! 18);
                     D1 = cam_FL D1 (cKe cs ! 5);
                     D2 = cam_FLINV D2 (cKe cs ! 4) in (D1, D2)
            else (D1, D2));
         D2 = D2 XOR cam_F sp D1 (cK cs ! 17);
         D1 = D1 XOR cam_F sp D2 (cK cs ! 16);
         D2 = D2 XOR cam_F sp D1 (cK cs ! 15);
         D1 = D1 XOR cam_F sp D2 (cK cs ! 14);
         D2 = D2 XOR cam_F sp D1 (cK cs ! 13);
         D1 = D1 XOR cam_F sp D2 (cK cs ! 12);
         D1 = cam_FL D1 (cKe cs ! 3);
         D2 = cam_FLINV D2 (cKe cs ! 2);
         D2 = D2 XOR cam_F sp D1 (cK cs ! 11);
         D1 = D1 XOR cam_F sp D2 (cK cs ! 10);
         D2 = D2 XOR cam_F sp D1 (cK cs ! 9);
         D1 = D1 XOR cam_F sp D2 (cK cs ! 8);
         D2 = D2 XOR cam_F sp D1 (cK cs ! 7);
         D1 = D1 XOR cam_F sp D2 (cK cs ! 6);
         D1 = cam_FL D1 (cKe cs ! 1);
         D2 = cam_FLINV D2 (cKe cs ! 0);
         D2 = D2 XOR cam_F sp D1 (cK cs ! 5);
         D1 = D1 XOR cam_F sp D2 (cK cs ! 4);
         D2 = D2 XOR cam_F sp D1 (cK cs ! 3);
         D1 = D1 XOR cam_F sp D2 (cK cs ! 2);
         D2 = D2 XOR cam_F sp D1 (cK cs ! 1);
         D1 = D1 XOR cam_F sp D2 (cK cs ! 0);
         D2 = D2 XOR cKw cs ! 0;
         D1 = D1 XOR cKw cs ! 1
     in (D1, D2))"

definition camellia_decrypt ::
  "64 word list list \<Rightarrow> AVCAMELLIA \<Rightarrow> byte list \<Rightarrow> byte list option \<Rightarrow> byte list \<times> byte list option" where
  "camellia_decrypt sp cs src iv =
    (let (D1, D2) = cam_dec_words sp cs (AV_RB64 src) (AV_RB64 (drop 8 src))
     in case iv of
          Some v \<Rightarrow> (AV_WB64 (D2 XOR AV_RB64 v) @ AV_WB64 (D1 XOR AV_RB64 (drop 8 v)), Some (take 16 src))
        | None \<Rightarrow> (AV_WB64 D2 @ AV_WB64 D1, None))"

text \<open>\<open>av_camellia_init\<close> also fills the global table: \<open>Inr (sp, cs)\<close>.\<close>

definition av_camellia_init :: "byte list \<Rightarrow> nat \<Rightarrow> int + 64 word list list \<times> AVCAMELLIA" where
  "av_camellia_init key kbits =
     (if kbits \<noteq> 128 \<and> kbits \<noteq> 192 \<and> kbits \<noteq> 256 then Inl (- 22)
      else
        let Kl = (AV_RB64 key, AV_RB64 (drop 8 key));
            Kr = (if kbits = 192 then (AV_RB64 (drop 16 key), NOT (AV_RB64 (drop 16 key)))
                  else if kbits = 256 then (AV_RB64 (drop 16 key), AV_RB64 (drop 24 key))
                  else (0, 0));
            sp = computeSP;
            D1 = fst Kl XOR fst Kr;
            D2 = snd Kl XOR snd Kr;
            D2 = D2 XOR cam_F sp D1 Sigma1;
            D1 = D1 XOR cam_F sp D2 Sigma2;
            D1 = D1 XOR fst Kl;
            D2 = D2 XOR snd Kl;
            D2 = D2 XOR cam_F sp D1 Sigma3;
            D1 = D1 XOR cam_F sp D2 Sigma4;
            Ka = (D1, D2);
            Kb = (if kbits \<noteq> 128
                  then
                    let D1 = fst Ka XOR fst Kr;
                        D2 = snd Ka XOR snd Kr;
                        D2 = D2 XOR cam_F sp D1 Sigma5;
                        D1 = D1 XOR cam_F sp D2 Sigma6
                    in (D1, D2)
                  else (0, 0));
            cs = \<lparr>cKw = replicate 4 0, cKe = replicate 6 0, cK = replicate 24 0, key_bits = kbits\<rparr>
        in Inr (sp, cam_round_keys cs [Kl, Kr, Ka, Kb]))"

fun av_camellia_crypt ::
  "64 word list list \<Rightarrow> AVCAMELLIA \<Rightarrow> nat \<Rightarrow> byte list \<Rightarrow> byte list option \<Rightarrow> bool \<Rightarrow> byte list \<times> byte list option" where
  "av_camellia_crypt sp cs 0 src iv decrypt = ([], iv)"
| "av_camellia_crypt sp cs (Suc n) src iv decrypt =
     (let (dst, iv) =
        (if decrypt then camellia_decrypt sp cs src iv
         else case iv of
             Some v \<Rightarrow> let dst = camellia_encrypt sp cs (xor_bytes (take 16 src) v) in (dst, Some dst)
           | None \<Rightarrow> (camellia_encrypt sp cs src, None));
          (rest, iv) = av_camellia_crypt sp cs n (drop 16 src) iv decrypt
      in (dst @ rest, iv))"

subsection \<open>The round trip\<close>

lemma join_halves:
  fixes a b :: "32 word"
  shows "ucast (drop_bit 32 (push_bit 32 (ucast a) OR ucast b :: 64 word)) = a"
    "ucast ((push_bit 32 (ucast a) OR ucast b :: 64 word) AND 0xffffffff) = b"
proof -
  have m: "(0xffffffff :: 64 word) = mask 32" by (simp add: mask_eq_exp_minus_1)
  show "ucast (drop_bit 32 (push_bit 32 (ucast a) OR ucast b :: 64 word)) = a"
    by (rule bit_word_eqI) (auto simp: bit_simps dest: bit_imp_le_length)
  show "ucast ((push_bit 32 (ucast a) OR ucast b :: 64 word) AND 0xffffffff) = b"
    unfolding m by (rule bit_word_eqI) (auto simp: bit_simps dest: bit_imp_le_length)
qed

lemma halves_join:
  fixes x :: "64 word"
  shows "push_bit 32 (ucast (ucast (drop_bit 32 x) :: 32 word)) OR ucast (ucast (x AND 0xffffffff) :: 32 word) = x"
proof -
  have m: "(0xffffffff :: 64 word) = mask 32" by (simp add: mask_eq_exp_minus_1)
  show ?thesis unfolding m by (rule bit_word_eqI) (auto simp: bit_simps)
qed

lemma cam_FL_inverse: "cam_FLINV (cam_FL x k) k = x" "cam_FL (cam_FLINV x k) k = x"
  by (simp_all only: cam_FL_def cam_FLINV_def Let_def join_halves xor.assoc xor_self_eq xor.right_neutral halves_join)

lemma xor_cancel: "((a :: 64 word) XOR b) XOR b = a"
  by (simp add: xor.assoc)

lemma block_words64:
  "AV_RB64 (AV_WB64 x @ AV_WB64 y) = x" "AV_RB64 (drop 8 (AV_WB64 x @ AV_WB64 y)) = y"
  using rw64(1) [of x "AV_WB64 y"] rw64(1) [of y "[]"] by simp_all

lemma cam_words_inverse_128:
  assumes k: "key_bits cs = 128"
  shows "(case cam_enc_words sp cs d1 d2 of (x1, x2) \<Rightarrow> cam_dec_words sp cs x2 x1) = (d2, d1)"
proof -
  define d1_1 where "d1_1 = d1 XOR cKw cs ! 0"
  define d2_2 where "d2_2 = d2 XOR cKw cs ! 1"
  define d2_3 where "d2_3 = d2_2 XOR cam_F sp d1_1 (cK cs ! 0)"
  define d1_4 where "d1_4 = d1_1 XOR cam_F sp d2_3 (cK cs ! 1)"
  define d2_5 where "d2_5 = d2_3 XOR cam_F sp d1_4 (cK cs ! 2)"
  define d1_6 where "d1_6 = d1_4 XOR cam_F sp d2_5 (cK cs ! 3)"
  define d2_7 where "d2_7 = d2_5 XOR cam_F sp d1_6 (cK cs ! 4)"
  define d1_8 where "d1_8 = d1_6 XOR cam_F sp d2_7 (cK cs ! 5)"
  define d1_9 where "d1_9 = cam_FL d1_8 (cKe cs ! 0)"
  define d2_10 where "d2_10 = cam_FLINV d2_7 (cKe cs ! 1)"
  define d2_11 where "d2_11 = d2_10 XOR cam_F sp d1_9 (cK cs ! 6)"
  define d1_12 where "d1_12 = d1_9 XOR cam_F sp d2_11 (cK cs ! 7)"
  define d2_13 where "d2_13 = d2_11 XOR cam_F sp d1_12 (cK cs ! 8)"
  define d1_14 where "d1_14 = d1_12 XOR cam_F sp d2_13 (cK cs ! 9)"
  define d2_15 where "d2_15 = d2_13 XOR cam_F sp d1_14 (cK cs ! 10)"
  define d1_16 where "d1_16 = d1_14 XOR cam_F sp d2_15 (cK cs ! 11)"
  define d1_17 where "d1_17 = cam_FL d1_16 (cKe cs ! 2)"
  define d2_18 where "d2_18 = cam_FLINV d2_15 (cKe cs ! 3)"
  define d2_19 where "d2_19 = d2_18 XOR cam_F sp d1_17 (cK cs ! 12)"
  define d1_20 where "d1_20 = d1_17 XOR cam_F sp d2_19 (cK cs ! 13)"
  define d2_21 where "d2_21 = d2_19 XOR cam_F sp d1_20 (cK cs ! 14)"
  define d1_22 where "d1_22 = d1_20 XOR cam_F sp d2_21 (cK cs ! 15)"
  define d2_23 where "d2_23 = d2_21 XOR cam_F sp d1_22 (cK cs ! 16)"
  define d1_24 where "d1_24 = d1_22 XOR cam_F sp d2_23 (cK cs ! 17)"
  define d2_25 where "d2_25 = d2_23 XOR cKw cs ! 2"
  define d1_26 where "d1_26 = d1_24 XOR cKw cs ! 3"
  have bwd: "d1_1 XOR cKw cs ! 0 = d1"
    "d2_2 XOR cKw cs ! 1 = d2"
    "d2_3 XOR cam_F sp d1_1 (cK cs ! 0) = d2_2"
    "d1_4 XOR cam_F sp d2_3 (cK cs ! 1) = d1_1"
    "d2_5 XOR cam_F sp d1_4 (cK cs ! 2) = d2_3"
    "d1_6 XOR cam_F sp d2_5 (cK cs ! 3) = d1_4"
    "d2_7 XOR cam_F sp d1_6 (cK cs ! 4) = d2_5"
    "d1_8 XOR cam_F sp d2_7 (cK cs ! 5) = d1_6"
    "cam_FLINV d1_9 (cKe cs ! 0) = d1_8"
    "cam_FL d2_10 (cKe cs ! 1) = d2_7"
    "d2_11 XOR cam_F sp d1_9 (cK cs ! 6) = d2_10"
    "d1_12 XOR cam_F sp d2_11 (cK cs ! 7) = d1_9"
    "d2_13 XOR cam_F sp d1_12 (cK cs ! 8) = d2_11"
    "d1_14 XOR cam_F sp d2_13 (cK cs ! 9) = d1_12"
    "d2_15 XOR cam_F sp d1_14 (cK cs ! 10) = d2_13"
    "d1_16 XOR cam_F sp d2_15 (cK cs ! 11) = d1_14"
    "cam_FLINV d1_17 (cKe cs ! 2) = d1_16"
    "cam_FL d2_18 (cKe cs ! 3) = d2_15"
    "d2_19 XOR cam_F sp d1_17 (cK cs ! 12) = d2_18"
    "d1_20 XOR cam_F sp d2_19 (cK cs ! 13) = d1_17"
    "d2_21 XOR cam_F sp d1_20 (cK cs ! 14) = d2_19"
    "d1_22 XOR cam_F sp d2_21 (cK cs ! 15) = d1_20"
    "d2_23 XOR cam_F sp d1_22 (cK cs ! 16) = d2_21"
    "d1_24 XOR cam_F sp d2_23 (cK cs ! 17) = d1_22"
    "d2_25 XOR cKw cs ! 2 = d2_23"
    "d1_26 XOR cKw cs ! 3 = d1_24"
    by (simp_all only: d1_1_def d2_2_def d2_3_def d1_4_def d2_5_def d1_6_def d2_7_def d1_8_def d1_9_def d2_10_def d2_11_def d1_12_def d2_13_def d1_14_def d2_15_def d1_16_def d1_17_def d2_18_def d2_19_def d1_20_def d2_21_def d1_22_def d2_23_def d1_24_def d2_25_def d1_26_def xor_cancel cam_FL_inverse)
  have e: "cam_enc_words sp cs d1 d2 = (d1_26, d2_25)"
    unfolding cam_enc_words_def
    by (simp only: Let_def k simp_thms if_False prod.case d1_1_def [symmetric] d2_2_def [symmetric] d2_3_def [symmetric] d1_4_def [symmetric] d2_5_def [symmetric] d1_6_def [symmetric] d2_7_def [symmetric] d1_8_def [symmetric] d1_9_def [symmetric] d2_10_def [symmetric] d2_11_def [symmetric] d1_12_def [symmetric] d2_13_def [symmetric] d1_14_def [symmetric] d2_15_def [symmetric] d1_16_def [symmetric] d1_17_def [symmetric] d2_18_def [symmetric] d2_19_def [symmetric] d1_20_def [symmetric] d2_21_def [symmetric] d1_22_def [symmetric] d2_23_def [symmetric] d1_24_def [symmetric] d2_25_def [symmetric] d1_26_def [symmetric] cong: let_weak_cong)
  show ?thesis unfolding e prod.case cam_dec_words_def
    by (simp only: Let_def k simp_thms if_False prod.case bwd cong: let_weak_cong)
qed

lemma cam_words_inverse_long:
  assumes k: "key_bits cs \<noteq> 128"
  shows "(case cam_enc_words sp cs d1 d2 of (x1, x2) \<Rightarrow> cam_dec_words sp cs x2 x1) = (d2, d1)"
proof -
  define d1_1 where "d1_1 = d1 XOR cKw cs ! 0"
  define d2_2 where "d2_2 = d2 XOR cKw cs ! 1"
  define d2_3 where "d2_3 = d2_2 XOR cam_F sp d1_1 (cK cs ! 0)"
  define d1_4 where "d1_4 = d1_1 XOR cam_F sp d2_3 (cK cs ! 1)"
  define d2_5 where "d2_5 = d2_3 XOR cam_F sp d1_4 (cK cs ! 2)"
  define d1_6 where "d1_6 = d1_4 XOR cam_F sp d2_5 (cK cs ! 3)"
  define d2_7 where "d2_7 = d2_5 XOR cam_F sp d1_6 (cK cs ! 4)"
  define d1_8 where "d1_8 = d1_6 XOR cam_F sp d2_7 (cK cs ! 5)"
  define d1_9 where "d1_9 = cam_FL d1_8 (cKe cs ! 0)"
  define d2_10 where "d2_10 = cam_FLINV d2_7 (cKe cs ! 1)"
  define d2_11 where "d2_11 = d2_10 XOR cam_F sp d1_9 (cK cs ! 6)"
  define d1_12 where "d1_12 = d1_9 XOR cam_F sp d2_11 (cK cs ! 7)"
  define d2_13 where "d2_13 = d2_11 XOR cam_F sp d1_12 (cK cs ! 8)"
  define d1_14 where "d1_14 = d1_12 XOR cam_F sp d2_13 (cK cs ! 9)"
  define d2_15 where "d2_15 = d2_13 XOR cam_F sp d1_14 (cK cs ! 10)"
  define d1_16 where "d1_16 = d1_14 XOR cam_F sp d2_15 (cK cs ! 11)"
  define d1_17 where "d1_17 = cam_FL d1_16 (cKe cs ! 2)"
  define d2_18 where "d2_18 = cam_FLINV d2_15 (cKe cs ! 3)"
  define d2_19 where "d2_19 = d2_18 XOR cam_F sp d1_17 (cK cs ! 12)"
  define d1_20 where "d1_20 = d1_17 XOR cam_F sp d2_19 (cK cs ! 13)"
  define d2_21 where "d2_21 = d2_19 XOR cam_F sp d1_20 (cK cs ! 14)"
  define d1_22 where "d1_22 = d1_20 XOR cam_F sp d2_21 (cK cs ! 15)"
  define d2_23 where "d2_23 = d2_21 XOR cam_F sp d1_22 (cK cs ! 16)"
  define d1_24 where "d1_24 = d1_22 XOR cam_F sp d2_23 (cK cs ! 17)"
  define d1_25 where "d1_25 = cam_FL d1_24 (cKe cs ! 4)"
  define d2_26 where "d2_26 = cam_FLINV d2_23 (cKe cs ! 5)"
  define d2_27 where "d2_27 = d2_26 XOR cam_F sp d1_25 (cK cs ! 18)"
  define d1_28 where "d1_28 = d1_25 XOR cam_F sp d2_27 (cK cs ! 19)"
  define d2_29 where "d2_29 = d2_27 XOR cam_F sp d1_28 (cK cs ! 20)"
  define d1_30 where "d1_30 = d1_28 XOR cam_F sp d2_29 (cK cs ! 21)"
  define d2_31 where "d2_31 = d2_29 XOR cam_F sp d1_30 (cK cs ! 22)"
  define d1_32 where "d1_32 = d1_30 XOR cam_F sp d2_31 (cK cs ! 23)"
  define d2_33 where "d2_33 = d2_31 XOR cKw cs ! 2"
  define d1_34 where "d1_34 = d1_32 XOR cKw cs ! 3"
  have bwd: "d1_1 XOR cKw cs ! 0 = d1"
    "d2_2 XOR cKw cs ! 1 = d2"
    "d2_3 XOR cam_F sp d1_1 (cK cs ! 0) = d2_2"
    "d1_4 XOR cam_F sp d2_3 (cK cs ! 1) = d1_1"
    "d2_5 XOR cam_F sp d1_4 (cK cs ! 2) = d2_3"
    "d1_6 XOR cam_F sp d2_5 (cK cs ! 3) = d1_4"
    "d2_7 XOR cam_F sp d1_6 (cK cs ! 4) = d2_5"
    "d1_8 XOR cam_F sp d2_7 (cK cs ! 5) = d1_6"
    "cam_FLINV d1_9 (cKe cs ! 0) = d1_8"
    "cam_FL d2_10 (cKe cs ! 1) = d2_7"
    "d2_11 XOR cam_F sp d1_9 (cK cs ! 6) = d2_10"
    "d1_12 XOR cam_F sp d2_11 (cK cs ! 7) = d1_9"
    "d2_13 XOR cam_F sp d1_12 (cK cs ! 8) = d2_11"
    "d1_14 XOR cam_F sp d2_13 (cK cs ! 9) = d1_12"
    "d2_15 XOR cam_F sp d1_14 (cK cs ! 10) = d2_13"
    "d1_16 XOR cam_F sp d2_15 (cK cs ! 11) = d1_14"
    "cam_FLINV d1_17 (cKe cs ! 2) = d1_16"
    "cam_FL d2_18 (cKe cs ! 3) = d2_15"
    "d2_19 XOR cam_F sp d1_17 (cK cs ! 12) = d2_18"
    "d1_20 XOR cam_F sp d2_19 (cK cs ! 13) = d1_17"
    "d2_21 XOR cam_F sp d1_20 (cK cs ! 14) = d2_19"
    "d1_22 XOR cam_F sp d2_21 (cK cs ! 15) = d1_20"
    "d2_23 XOR cam_F sp d1_22 (cK cs ! 16) = d2_21"
    "d1_24 XOR cam_F sp d2_23 (cK cs ! 17) = d1_22"
    "cam_FLINV d1_25 (cKe cs ! 4) = d1_24"
    "cam_FL d2_26 (cKe cs ! 5) = d2_23"
    "d2_27 XOR cam_F sp d1_25 (cK cs ! 18) = d2_26"
    "d1_28 XOR cam_F sp d2_27 (cK cs ! 19) = d1_25"
    "d2_29 XOR cam_F sp d1_28 (cK cs ! 20) = d2_27"
    "d1_30 XOR cam_F sp d2_29 (cK cs ! 21) = d1_28"
    "d2_31 XOR cam_F sp d1_30 (cK cs ! 22) = d2_29"
    "d1_32 XOR cam_F sp d2_31 (cK cs ! 23) = d1_30"
    "d2_33 XOR cKw cs ! 2 = d2_31"
    "d1_34 XOR cKw cs ! 3 = d1_32"
    by (simp_all only: d1_1_def d2_2_def d2_3_def d1_4_def d2_5_def d1_6_def d2_7_def d1_8_def d1_9_def d2_10_def d2_11_def d1_12_def d2_13_def d1_14_def d2_15_def d1_16_def d1_17_def d2_18_def d2_19_def d1_20_def d2_21_def d1_22_def d2_23_def d1_24_def d1_25_def d2_26_def d2_27_def d1_28_def d2_29_def d1_30_def d2_31_def d1_32_def d2_33_def d1_34_def xor_cancel cam_FL_inverse)
  have e: "cam_enc_words sp cs d1 d2 = (d1_34, d2_33)"
    unfolding cam_enc_words_def
    by (simp only: Let_def k simp_thms if_True prod.case d1_1_def [symmetric] d2_2_def [symmetric] d2_3_def [symmetric] d1_4_def [symmetric] d2_5_def [symmetric] d1_6_def [symmetric] d2_7_def [symmetric] d1_8_def [symmetric] d1_9_def [symmetric] d2_10_def [symmetric] d2_11_def [symmetric] d1_12_def [symmetric] d2_13_def [symmetric] d1_14_def [symmetric] d2_15_def [symmetric] d1_16_def [symmetric] d1_17_def [symmetric] d2_18_def [symmetric] d2_19_def [symmetric] d1_20_def [symmetric] d2_21_def [symmetric] d1_22_def [symmetric] d2_23_def [symmetric] d1_24_def [symmetric] d1_25_def [symmetric] d2_26_def [symmetric] d2_27_def [symmetric] d1_28_def [symmetric] d2_29_def [symmetric] d1_30_def [symmetric] d2_31_def [symmetric] d1_32_def [symmetric] d2_33_def [symmetric] d1_34_def [symmetric] cong: let_weak_cong)
  show ?thesis unfolding e prod.case cam_dec_words_def
    by (simp only: Let_def k simp_thms if_True prod.case bwd cong: let_weak_cong)
qed

lemma camellia_inverse:
  assumes "length b = 16"
  shows "fst (camellia_decrypt sp cs (camellia_encrypt sp cs b) None) = b"
proof -
  have "(case cam_enc_words sp cs (AV_RB64 b) (AV_RB64 (drop 8 b)) of (x1, x2) \<Rightarrow> cam_dec_words sp cs x2 x1) =
      (AV_RB64 (drop 8 b), AV_RB64 b)"
    using cam_words_inverse_128 cam_words_inverse_long by blast
  then show ?thesis
    using assms by (simp add: camellia_encrypt_def camellia_decrypt_def split_beta block_words64 rw64 rw64(1) [where r = "[]", simplified] wr64)
qed

lemma camellia_length: "length (camellia_encrypt sp cs b) = 16"
  unfolding camellia_encrypt_def Let_def split_beta by simp

lemma R64_take16: "AV_RB64 (take 16 p) = AV_RB64 p" "AV_RB64 (drop 8 (take 16 p)) = AV_RB64 (drop 8 p)"
  by (simp_all add: AV_RB64_def drop_take)

lemma W64_xor: "AV_WB64 (x XOR y) = xor_bytes (AV_WB64 x) (AV_WB64 y)"
  by (simp add: AV_WB64_def xor_bytes_def unsigned_xor_eq drop_bit_xor)

lemma xor_block16:
  assumes "length v = 16"
  shows "AV_WB64 (x XOR AV_RB64 v) @ AV_WB64 (y XOR AV_RB64 (drop 8 v)) = xor_bytes (AV_WB64 x @ AV_WB64 y) v"
  using assms xor_bytes_append [of "AV_WB64 x" "take 8 v" "AV_WB64 y" "drop 8 v"]
  by (simp add: W64_xor wr64)

lemma camellia_decrypt_iv:
  "length v = 16 \<Longrightarrow> camellia_decrypt sp cs b (Some v) = (xor_bytes (fst (camellia_decrypt sp cs b None)) v, Some (take 16 b))"
  unfolding camellia_decrypt_def Let_def split_beta by (simp only: option.case xor_block16 fst_conv)

lemma camellia_take: "camellia_encrypt sp cs (take 16 b) = camellia_encrypt sp cs b"
  "fst (camellia_decrypt sp cs (take 16 b) None) = fst (camellia_decrypt sp cs b None)"
  "snd (camellia_decrypt sp cs b None) = None"
  unfolding camellia_encrypt_def camellia_decrypt_def R64_take16 Let_def split_beta
  by (simp_all only: option.case fst_conv snd_conv)

interpretation camellia: block_mode 16 "camellia_encrypt sp cs" "\<lambda>b. fst (camellia_decrypt sp cs b None)"
  "av_camellia_crypt sp cs" for sp cs
proof unfold_locales
  fix b :: "byte list" assume b: "length b = 16"
  then show "fst (camellia_decrypt sp cs (camellia_encrypt sp cs b) None) = b" by (rule camellia_inverse)
qed (simp_all add: camellia_length camellia_decrypt_iv camellia_take split_beta Let_def)

subsection \<open>Properties\<close>

text \<open>C29. \<open>av_camellia_init\<close> accepts exactly the key sizes 128, 192 and 256, and buffers decrypt to
  what was encrypted, in ECB and CBC mode, for the 18 and for the 24 round variant.\<close>

theorem av_camellia_correct:
  assumes "n * 16 \<le> length src" "iv_ok 16 iv"
  shows "((\<exists>r. av_camellia_init key kbits = Inr r) \<longleftrightarrow> kbits \<in> {128, 192, 256}) \<and>
    (let (dst, iv') = av_camellia_crypt sp cs n src iv False
     in av_camellia_crypt sp cs n dst iv True = (take (n * 16) src, iv'))"
proof -
  have "(\<exists>r. av_camellia_init key kbits = Inr r) \<longleftrightarrow> kbits \<in> {128, 192, 256}"
    by (simp only: av_camellia_init_def Let_def) auto
  then show ?thesis
    using camellia.roundtrip [OF assms, where r = "[]" and sp = sp and cs = cs] by (simp add: Let_def split_beta)
qed

theorem av_camellia_correct_witness:
  "\<exists>sp cs. av_camellia_init [1,2,3,4,5,6,7,8,9,10,11,12,13,14,15,16] 128 = Inr (sp, cs) \<and>
    (let (dst, iv') = av_camellia_crypt sp cs 1 [1,2,3,4,5,6,7,8,9,10,11,12,13,14,15,16] None False
     in av_camellia_crypt sp cs 1 dst None True = ([1,2,3,4,5,6,7,8,9,10,11,12,13,14,15,16], iv'))"
proof -
  define src :: "byte list" where "src = [1,2,3,4,5,6,7,8,9,10,11,12,13,14,15,16]"
  have h: "1 * 16 \<le> length src" "iv_ok 16 None" "take (1 * 16) src = src"
    by (simp_all add: src_def iv_ok_def)
  have "\<exists>r. av_camellia_init src 128 = Inr r"
    using av_camellia_correct [OF h(1,2), of src 128 undefined undefined, THEN conjunct1] by simp
  then obtain sp cs where init: "av_camellia_init src 128 = Inr (sp, cs)" by force
  have trip: "let (dst, iv') = av_camellia_crypt sp cs 1 src None False
      in av_camellia_crypt sp cs 1 dst None True = (src, iv')"
    using av_camellia_correct [OF h(1,2), of "[]" 0 sp cs, THEN conjunct2] unfolding h(3) .
  show ?thesis unfolding src_def [symmetric] using init trip by blast
qed

end
