(* ===== verification/Twofish.thy ===== *)
theory Twofish
  imports Bytes
begin

section \<open>Twofish: \<open>libavutil/twofish.c\<close>\<close>

text \<open>
  Tables, key schedule, block functions and buffer function.  The model shows that
  \<open>twofish_decrypt\<close> recovers the four words of a block but stores its two halves in the wrong order.
\<close>

record AVTWOFISH =
  tK :: "32 word list"
  tS :: "32 word list"
  ksize :: nat
  MDS1 :: "32 word list"
  MDS2 :: "32 word list"
  MDS3 :: "32 word list"
  MDS4 :: "32 word list"

definition MD1 :: "byte list" where
  "MD1 =
    [0x00, 0x5b, 0xb6, 0xed, 0x05, 0x5e, 0xb3, 0xe8, 0x0a, 0x51, 0xbc, 0xe7, 0x0f, 0x54, 0xb9, 0xe2,
     0x14, 0x4f, 0xa2, 0xf9, 0x11, 0x4a, 0xa7, 0xfc, 0x1e, 0x45, 0xa8, 0xf3, 0x1b, 0x40, 0xad, 0xf6,
     0x28, 0x73, 0x9e, 0xc5, 0x2d, 0x76, 0x9b, 0xc0, 0x22, 0x79, 0x94, 0xcf, 0x27, 0x7c, 0x91, 0xca,
     0x3c, 0x67, 0x8a, 0xd1, 0x39, 0x62, 0x8f, 0xd4, 0x36, 0x6d, 0x80, 0xdb, 0x33, 0x68, 0x85, 0xde,
     0x50, 0x0b, 0xe6, 0xbd, 0x55, 0x0e, 0xe3, 0xb8, 0x5a, 0x01, 0xec, 0xb7, 0x5f, 0x04, 0xe9, 0xb2,
     0x44, 0x1f, 0xf2, 0xa9, 0x41, 0x1a, 0xf7, 0xac, 0x4e, 0x15, 0xf8, 0xa3, 0x4b, 0x10, 0xfd, 0xa6,
     0x78, 0x23, 0xce, 0x95, 0x7d, 0x26, 0xcb, 0x90, 0x72, 0x29, 0xc4, 0x9f, 0x77, 0x2c, 0xc1, 0x9a,
     0x6c, 0x37, 0xda, 0x81, 0x69, 0x32, 0xdf, 0x84, 0x66, 0x3d, 0xd0, 0x8b, 0x63, 0x38, 0xd5, 0x8e,
     0xa0, 0xfb, 0x16, 0x4d, 0xa5, 0xfe, 0x13, 0x48, 0xaa, 0xf1, 0x1c, 0x47, 0xaf, 0xf4, 0x19, 0x42,
     0xb4, 0xef, 0x02, 0x59, 0xb1, 0xea, 0x07, 0x5c, 0xbe, 0xe5, 0x08, 0x53, 0xbb, 0xe0, 0x0d, 0x56,
     0x88, 0xd3, 0x3e, 0x65, 0x8d, 0xd6, 0x3b, 0x60, 0x82, 0xd9, 0x34, 0x6f, 0x87, 0xdc, 0x31, 0x6a,
     0x9c, 0xc7, 0x2a, 0x71, 0x99, 0xc2, 0x2f, 0x74, 0x96, 0xcd, 0x20, 0x7b, 0x93, 0xc8, 0x25, 0x7e,
     0xf0, 0xab, 0x46, 0x1d, 0xf5, 0xae, 0x43, 0x18, 0xfa, 0xa1, 0x4c, 0x17, 0xff, 0xa4, 0x49, 0x12,
     0xe4, 0xbf, 0x52, 0x09, 0xe1, 0xba, 0x57, 0x0c, 0xee, 0xb5, 0x58, 0x03, 0xeb, 0xb0, 0x5d, 0x06,
     0xd8, 0x83, 0x6e, 0x35, 0xdd, 0x86, 0x6b, 0x30, 0xd2, 0x89, 0x64, 0x3f, 0xd7, 0x8c, 0x61, 0x3a,
     0xcc, 0x97, 0x7a, 0x21, 0xc9, 0x92, 0x7f, 0x24, 0xc6, 0x9d, 0x70, 0x2b, 0xc3, 0x98, 0x75, 0x2e]"

definition MD2 :: "byte list" where
  "MD2 =
    [0x00, 0xef, 0xb7, 0x58, 0x07, 0xe8, 0xb0, 0x5f, 0x0e, 0xe1, 0xb9, 0x56, 0x09, 0xe6, 0xbe, 0x51,
     0x1c, 0xf3, 0xab, 0x44, 0x1b, 0xf4, 0xac, 0x43, 0x12, 0xfd, 0xa5, 0x4a, 0x15, 0xfa, 0xa2, 0x4d,
     0x38, 0xd7, 0x8f, 0x60, 0x3f, 0xd0, 0x88, 0x67, 0x36, 0xd9, 0x81, 0x6e, 0x31, 0xde, 0x86, 0x69,
     0x24, 0xcb, 0x93, 0x7c, 0x23, 0xcc, 0x94, 0x7b, 0x2a, 0xc5, 0x9d, 0x72, 0x2d, 0xc2, 0x9a, 0x75,
     0x70, 0x9f, 0xc7, 0x28, 0x77, 0x98, 0xc0, 0x2f, 0x7e, 0x91, 0xc9, 0x26, 0x79, 0x96, 0xce, 0x21,
     0x6c, 0x83, 0xdb, 0x34, 0x6b, 0x84, 0xdc, 0x33, 0x62, 0x8d, 0xd5, 0x3a, 0x65, 0x8a, 0xd2, 0x3d,
     0x48, 0xa7, 0xff, 0x10, 0x4f, 0xa0, 0xf8, 0x17, 0x46, 0xa9, 0xf1, 0x1e, 0x41, 0xae, 0xf6, 0x19,
     0x54, 0xbb, 0xe3, 0x0c, 0x53, 0xbc, 0xe4, 0x0b, 0x5a, 0xb5, 0xed, 0x02, 0x5d, 0xb2, 0xea, 0x05,
     0xe0, 0x0f, 0x57, 0xb8, 0xe7, 0x08, 0x50, 0xbf, 0xee, 0x01, 0x59, 0xb6, 0xe9, 0x06, 0x5e, 0xb1,
     0xfc, 0x13, 0x4b, 0xa4, 0xfb, 0x14, 0x4c, 0xa3, 0xf2, 0x1d, 0x45, 0xaa, 0xf5, 0x1a, 0x42, 0xad,
     0xd8, 0x37, 0x6f, 0x80, 0xdf, 0x30, 0x68, 0x87, 0xd6, 0x39, 0x61, 0x8e, 0xd1, 0x3e, 0x66, 0x89,
     0xc4, 0x2b, 0x73, 0x9c, 0xc3, 0x2c, 0x74, 0x9b, 0xca, 0x25, 0x7d, 0x92, 0xcd, 0x22, 0x7a, 0x95,
     0x90, 0x7f, 0x27, 0xc8, 0x97, 0x78, 0x20, 0xcf, 0x9e, 0x71, 0x29, 0xc6, 0x99, 0x76, 0x2e, 0xc1,
     0x8c, 0x63, 0x3b, 0xd4, 0x8b, 0x64, 0x3c, 0xd3, 0x82, 0x6d, 0x35, 0xda, 0x85, 0x6a, 0x32, 0xdd,
     0xa8, 0x47, 0x1f, 0xf0, 0xaf, 0x40, 0x18, 0xf7, 0xa6, 0x49, 0x11, 0xfe, 0xa1, 0x4e, 0x16, 0xf9,
     0xb4, 0x5b, 0x03, 0xec, 0xb3, 0x5c, 0x04, 0xeb, 0xba, 0x55, 0x0d, 0xe2, 0xbd, 0x52, 0x0a, 0xe5]"

definition q0 :: "byte list" where
  "q0 =
    [0xa9, 0x67, 0xb3, 0xe8, 0x04, 0xfd, 0xa3, 0x76, 0x9a, 0x92, 0x80, 0x78, 0xe4, 0xdd, 0xd1, 0x38,
     0x0d, 0xc6, 0x35, 0x98, 0x18, 0xf7, 0xec, 0x6c, 0x43, 0x75, 0x37, 0x26, 0xfa, 0x13, 0x94, 0x48,
     0xf2, 0xd0, 0x8b, 0x30, 0x84, 0x54, 0xdf, 0x23, 0x19, 0x5b, 0x3d, 0x59, 0xf3, 0xae, 0xa2, 0x82,
     0x63, 0x01, 0x83, 0x2e, 0xd9, 0x51, 0x9b, 0x7c, 0xa6, 0xeb, 0xa5, 0xbe, 0x16, 0x0c, 0xe3, 0x61,
     0xc0, 0x8c, 0x3a, 0xf5, 0x73, 0x2c, 0x25, 0x0b, 0xbb, 0x4e, 0x89, 0x6b, 0x53, 0x6a, 0xb4, 0xf1,
     0xe1, 0xe6, 0xbd, 0x45, 0xe2, 0xf4, 0xb6, 0x66, 0xcc, 0x95, 0x03, 0x56, 0xd4, 0x1c, 0x1e, 0xd7,
     0xfb, 0xc3, 0x8e, 0xb5, 0xe9, 0xcf, 0xbf, 0xba, 0xea, 0x77, 0x39, 0xaf, 0x33, 0xc9, 0x62, 0x71,
     0x81, 0x79, 0x09, 0xad, 0x24, 0xcd, 0xf9, 0xd8, 0xe5, 0xc5, 0xb9, 0x4d, 0x44, 0x08, 0x86, 0xe7,
     0xa1, 0x1d, 0xaa, 0xed, 0x06, 0x70, 0xb2, 0xd2, 0x41, 0x7b, 0xa0, 0x11, 0x31, 0xc2, 0x27, 0x90,
     0x20, 0xf6, 0x60, 0xff, 0x96, 0x5c, 0xb1, 0xab, 0x9e, 0x9c, 0x52, 0x1b, 0x5f, 0x93, 0x0a, 0xef,
     0x91, 0x85, 0x49, 0xee, 0x2d, 0x4f, 0x8f, 0x3b, 0x47, 0x87, 0x6d, 0x46, 0xd6, 0x3e, 0x69, 0x64,
     0x2a, 0xce, 0xcb, 0x2f, 0xfc, 0x97, 0x05, 0x7a, 0xac, 0x7f, 0xd5, 0x1a, 0x4b, 0x0e, 0xa7, 0x5a,
     0x28, 0x14, 0x3f, 0x29, 0x88, 0x3c, 0x4c, 0x02, 0xb8, 0xda, 0xb0, 0x17, 0x55, 0x1f, 0x8a, 0x7d,
     0x57, 0xc7, 0x8d, 0x74, 0xb7, 0xc4, 0x9f, 0x72, 0x7e, 0x15, 0x22, 0x12, 0x58, 0x07, 0x99, 0x34,
     0x6e, 0x50, 0xde, 0x68, 0x65, 0xbc, 0xdb, 0xf8, 0xc8, 0xa8, 0x2b, 0x40, 0xdc, 0xfe, 0x32, 0xa4,
     0xca, 0x10, 0x21, 0xf0, 0xd3, 0x5d, 0x0f, 0x00, 0x6f, 0x9d, 0x36, 0x42, 0x4a, 0x5e, 0xc1, 0xe0]"

definition q1 :: "byte list" where
  "q1 =
    [0x75, 0xf3, 0xc6, 0xf4, 0xdb, 0x7b, 0xfb, 0xc8, 0x4a, 0xd3, 0xe6, 0x6b, 0x45, 0x7d, 0xe8, 0x4b,
     0xd6, 0x32, 0xd8, 0xfd, 0x37, 0x71, 0xf1, 0xe1, 0x30, 0x0f, 0xf8, 0x1b, 0x87, 0xfa, 0x06, 0x3f,
     0x5e, 0xba, 0xae, 0x5b, 0x8a, 0x00, 0xbc, 0x9d, 0x6d, 0xc1, 0xb1, 0x0e, 0x80, 0x5d, 0xd2, 0xd5,
     0xa0, 0x84, 0x07, 0x14, 0xb5, 0x90, 0x2c, 0xa3, 0xb2, 0x73, 0x4c, 0x54, 0x92, 0x74, 0x36, 0x51,
     0x38, 0xb0, 0xbd, 0x5a, 0xfc, 0x60, 0x62, 0x96, 0x6c, 0x42, 0xf7, 0x10, 0x7c, 0x28, 0x27, 0x8c,
     0x13, 0x95, 0x9c, 0xc7, 0x24, 0x46, 0x3b, 0x70, 0xca, 0xe3, 0x85, 0xcb, 0x11, 0xd0, 0x93, 0xb8,
     0xa6, 0x83, 0x20, 0xff, 0x9f, 0x77, 0xc3, 0xcc, 0x03, 0x6f, 0x08, 0xbf, 0x40, 0xe7, 0x2b, 0xe2,
     0x79, 0x0c, 0xaa, 0x82, 0x41, 0x3a, 0xea, 0xb9, 0xe4, 0x9a, 0xa4, 0x97, 0x7e, 0xda, 0x7a, 0x17,
     0x66, 0x94, 0xa1, 0x1d, 0x3d, 0xf0, 0xde, 0xb3, 0x0b, 0x72, 0xa7, 0x1c, 0xef, 0xd1, 0x53, 0x3e,
     0x8f, 0x33, 0x26, 0x5f, 0xec, 0x76, 0x2a, 0x49, 0x81, 0x88, 0xee, 0x21, 0xc4, 0x1a, 0xeb, 0xd9,
     0xc5, 0x39, 0x99, 0xcd, 0xad, 0x31, 0x8b, 0x01, 0x18, 0x23, 0xdd, 0x1f, 0x4e, 0x2d, 0xf9, 0x48,
     0x4f, 0xf2, 0x65, 0x8e, 0x78, 0x5c, 0x58, 0x19, 0x8d, 0xe5, 0x98, 0x57, 0x67, 0x7f, 0x05, 0x64,
     0xaf, 0x63, 0xb6, 0xfe, 0xf5, 0xb7, 0x3c, 0xa5, 0xce, 0xe9, 0x68, 0x44, 0xe0, 0x4d, 0x43, 0x69,
     0x29, 0x2e, 0xac, 0x15, 0x59, 0xa8, 0x0a, 0x9e, 0x6e, 0x47, 0xdf, 0x34, 0x35, 0x6a, 0xcf, 0xdc,
     0x22, 0xc9, 0xc0, 0x9b, 0x89, 0xd4, 0xed, 0xab, 0x12, 0xa2, 0x0d, 0x52, 0xbb, 0x02, 0x2f, 0xa9,
     0xd7, 0x61, 0x1e, 0xb4, 0x50, 0x04, 0xf6, 0xc2, 0x16, 0x25, 0x86, 0x56, 0x55, 0x09, 0xbe, 0x91]"

definition tf_LR :: "32 word \<Rightarrow> nat \<Rightarrow> 32 word" where
  "tf_LR x n = push_bit n x OR drop_bit (32 - n) x"

definition tf_RR :: "32 word \<Rightarrow> nat \<Rightarrow> 32 word" where
  "tf_RR x n = drop_bit n x OR push_bit (32 - n) x"

subsection \<open>Key schedule\<close>

text \<open>Multiplication in \<open>GF(2^8)\<close>; the loop shifts \<open>a\<close> right until it is 0.\<close>

function gfmul_loop :: "byte \<Rightarrow> byte \<Rightarrow> byte \<Rightarrow> byte" where
  "gfmul_loop r a b =
     (if a \<noteq> 0 \<and> b \<noteq> 0
      then
        let r = (if a AND 1 \<noteq> 0 then r XOR b else r);
            t = b AND 0x80;
            b = push_bit 1 b;
            b = (if t \<noteq> 0 then b XOR 0x4d else b)
        in gfmul_loop r (drop_bit 1 a) b
      else r)"
  by pat_completeness auto
termination
proof (relation "measure (\<lambda>(r, a, b). unat a)")
  fix a b :: byte
  assume "a \<noteq> 0 \<and> b \<noteq> 0"
  then have "0 < unat a" by (simp add: unat_gt_0)
  then show "((x, drop_bit 1 a, y), r, a, b) \<in> measure (\<lambda>(r, a, b). unat a)" for x y r
    by (simp only: in_measure prod.case unat_drop_bit_eq) (simp add: drop_bit_eq_div)
qed simp

declare gfmul_loop.simps [simp del]

definition gfmul :: "byte \<Rightarrow> byte \<Rightarrow> byte" where
  "gfmul a b = gfmul_loop 0 a b"

definition tf_RS :: "32 word \<Rightarrow> 32 word \<Rightarrow> 32 word" where
  "tf_RS k0 k1 =
     (let m = AV_WL32 k0 @ AV_WL32 k1
      in AV_RL32
          [gfmul 0x01 (m ! 0) XOR gfmul 0xa4 (m ! 1) XOR gfmul 0x55 (m ! 2) XOR gfmul 0x87 (m ! 3) XOR
            gfmul 0x5a (m ! 4) XOR gfmul 0x58 (m ! 5) XOR gfmul 0xdb (m ! 6) XOR gfmul 0x9e (m ! 7),
           gfmul 0xa4 (m ! 0) XOR gfmul 0x56 (m ! 1) XOR gfmul 0x82 (m ! 2) XOR gfmul 0xf3 (m ! 3) XOR
            gfmul 0x1e (m ! 4) XOR gfmul 0xc6 (m ! 5) XOR gfmul 0x68 (m ! 6) XOR gfmul 0xe5 (m ! 7),
           gfmul 0x02 (m ! 0) XOR gfmul 0xa1 (m ! 1) XOR gfmul 0xfc (m ! 2) XOR gfmul 0xc1 (m ! 3) XOR
            gfmul 0x47 (m ! 4) XOR gfmul 0xae (m ! 5) XOR gfmul 0x3d (m ! 6) XOR gfmul 0x19 (m ! 7),
           gfmul 0xa4 (m ! 0) XOR gfmul 0x55 (m ! 1) XOR gfmul 0x87 (m ! 2) XOR gfmul 0x5a (m ! 3) XOR
            gfmul 0x58 (m ! 4) XOR gfmul 0xdb (m ! 5) XOR gfmul 0x9e (m ! 6) XOR gfmul 0x03 (m ! 7)])"

text \<open>The indices and results of the byte tables; \<open>L\<close> is the list of key words and \<open>k\<close> their number.\<close>

definition tf_h0 :: "byte list \<Rightarrow> 32 word list \<Rightarrow> nat \<Rightarrow> byte list" where
  "tf_h0 y L k =
     (let y = (if k = 4
               then let l = AV_WL32 (L ! 3)
                    in [q1 ! unat (y ! 0) XOR l ! 0, q0 ! unat (y ! 1) XOR l ! 1,
                        q0 ! unat (y ! 2) XOR l ! 2, q1 ! unat (y ! 3) XOR l ! 3]
               else y);
          y = (if k \<ge> 3
               then let l = AV_WL32 (L ! 2)
                    in [q1 ! unat (y ! 0) XOR l ! 0, q1 ! unat (y ! 1) XOR l ! 1,
                        q0 ! unat (y ! 2) XOR l ! 2, q0 ! unat (y ! 3) XOR l ! 3]
               else y);
          l = AV_WL32 (L ! 1)
      in [q1 ! unat (q0 ! unat (q0 ! unat (y ! 0) XOR l ! 0) XOR ucast (L ! 0 AND 0xff)),
          q0 ! unat (q0 ! unat (q1 ! unat (y ! 1) XOR l ! 1) XOR ucast (drop_bit 8 (L ! 0) AND 0xff)),
          q1 ! unat (q1 ! unat (q0 ! unat (y ! 2) XOR l ! 2) XOR ucast (drop_bit 16 (L ! 0) AND 0xff)),
          q0 ! unat (q1 ! unat (q1 ! unat (y ! 3) XOR l ! 3) XOR ucast (drop_bit 24 (L ! 0)))])"

definition md1 :: "byte \<Rightarrow> byte" where "md1 b = MD1 ! unat b"
definition md2 :: "byte \<Rightarrow> byte" where "md2 b = MD2 ! unat b"

definition tf_h :: "32 word \<Rightarrow> 32 word list \<Rightarrow> nat \<Rightarrow> 32 word" where
  "tf_h X L k =
     (let y = tf_h0 (AV_WL32 X) L k
      in AV_RL32
          [y ! 0 XOR md2 (y ! 1) XOR md1 (y ! 2) XOR md1 (y ! 3),
           md1 (y ! 0) XOR md2 (y ! 1) XOR md2 (y ! 2) XOR y ! 3,
           md2 (y ! 0) XOR md1 (y ! 1) XOR y ! 2 XOR md2 (y ! 3),
           md2 (y ! 0) XOR y ! 1 XOR md2 (y ! 2) XOR md1 (y ! 3)])"

definition MDS_mul :: "AVTWOFISH \<Rightarrow> 32 word \<Rightarrow> 32 word" where
  "MDS_mul cs X =
     MDS1 cs ! unat (X AND 0xff) XOR MDS2 cs ! unat (drop_bit 8 X AND 0xff) XOR
     MDS3 cs ! unat (drop_bit 16 X AND 0xff) XOR MDS4 cs ! unat (drop_bit 24 X)"

definition tf_column :: "byte \<Rightarrow> byte \<Rightarrow> byte \<Rightarrow> byte \<Rightarrow> 32 word" where
  "tf_column a b c d = ucast a XOR push_bit 8 (ucast b) XOR push_bit 16 (ucast c) XOR push_bit 24 (ucast d)"

definition precomputeMDS :: "AVTWOFISH \<Rightarrow> AVTWOFISH" where
  "precomputeMDS cs =
     (let ys = map (\<lambda>i. tf_h0 (replicate 4 (of_nat i)) (tS cs) (ksize cs)) [0..<256]
      in cs\<lparr>MDS1 := map (\<lambda>y. tf_column (y ! 0) (md1 (y ! 0)) (md2 (y ! 0)) (md2 (y ! 0))) ys,
            MDS2 := map (\<lambda>y. tf_column (md2 (y ! 1)) (md2 (y ! 1)) (md1 (y ! 1)) (y ! 1)) ys,
            MDS3 := map (\<lambda>y. tf_column (md1 (y ! 2)) (md2 (y ! 2)) (y ! 2) (md2 (y ! 2))) ys,
            MDS4 := map (\<lambda>y. tf_column (md1 (y ! 3)) (y ! 3) (md2 (y ! 3)) (md1 (y ! 3))) ys\<rparr>)"

definition tf_subkeys :: "32 word list \<Rightarrow> 32 word list \<Rightarrow> nat \<Rightarrow> nat \<Rightarrow> 32 word list" where
  "tf_subkeys Me Mo k i =
     (let rho = 0x01010101;
          A = tf_h (of_nat (2 * i) * rho) Me k;
          B = tf_h (of_nat (2 * i + 1) * rho) Mo k;
          B = tf_LR B 8
      in [A + B, tf_LR (A + 2 * B) 9])"

text \<open>\<open>Inr (ret, cs)\<close>: the return value is 1 for a key size that had to be padded.\<close>

definition av_twofish_init :: "byte list \<Rightarrow> int \<Rightarrow> int + int \<times> AVTWOFISH" where
  "av_twofish_init key kbits =
     (if kbits < 0 then Inl (- 22)
      else
        let k = (if kbits \<le> 128 then 2 else if kbits \<le> 192 then 3 else 4);
            n = (if kbits \<le> 256 then nat (kbits div 8) else 32);
            keypad = take n key @ replicate (32 - n) 0;
            Key = map (\<lambda>i. AV_RL32 (drop (4 * i) keypad)) [0..<2 * k];
            Me = map (\<lambda>i. Key ! (2 * i)) [0..<k];
            Mo = map (\<lambda>i. Key ! (2 * i + 1)) [0..<k];
            S = fold (\<lambda>i S. S[k - i - 1 := tf_RS (Me ! i) (Mo ! i)]) [0..<k] (replicate 4 0);
            cs = precomputeMDS \<lparr>tK = replicate 40 0, tS = S, ksize = k, MDS1 = [], MDS2 = [], MDS3 = [], MDS4 = []\<rparr>;
            cs = cs\<lparr>tK := concat (map (tf_subkeys Me Mo k) [0..<20])\<rparr>
        in Inr (if int k * 64 \<noteq> kbits then 1 else 0, cs))"

subsection \<open>Block functions\<close>

type_synonym quad = "32 word \<times> 32 word \<times> 32 word \<times> 32 word"

definition tf_enc_body :: "AVTWOFISH \<Rightarrow> nat \<Rightarrow> quad \<Rightarrow> quad" where
  "tf_enc_body cs i = (\<lambda>(P0, P1, P2, P3).
     let t0 = MDS_mul cs P0;
         t1 = MDS_mul cs (tf_LR P1 8);
         P2 = tf_RR (P2 XOR (t0 + t1 + tK cs ! (2 * i + 8))) 1;
         P3 = tf_LR P3 1 XOR (t0 + 2 * t1 + tK cs ! (2 * i + 9));
         t0 = MDS_mul cs P2;
         t1 = MDS_mul cs (tf_LR P3 8);
         P0 = tf_RR (P0 XOR (t0 + t1 + tK cs ! (2 * i + 10))) 1;
         P1 = tf_LR P1 1 XOR (t0 + 2 * t1 + tK cs ! (2 * i + 11))
     in (P0, P1, P2, P3))"

definition tf_dec_body :: "AVTWOFISH \<Rightarrow> nat \<Rightarrow> quad \<Rightarrow> quad" where
  "tf_dec_body cs i = (\<lambda>(P0, P1, P2, P3).
     let t0 = MDS_mul cs P2;
         t1 = MDS_mul cs (tf_LR P3 8);
         P0 = tf_LR P0 1 XOR (t0 + t1 + tK cs ! (2 * i + 8));
         P1 = tf_RR (P1 XOR (t0 + 2 * t1 + tK cs ! (2 * i + 9))) 1;
         t0 = MDS_mul cs P0;
         t1 = MDS_mul cs (tf_LR P1 8);
         P2 = tf_LR P2 1 XOR (t0 + t1 + tK cs ! (2 * i + 6));
         P3 = tf_RR (P3 XOR (t0 + 2 * t1 + tK cs ! (2 * i + 7))) 1
     in (P0, P1, P2, P3))"

abbreviation tf_enc_indices :: "nat list" where "tf_enc_indices \<equiv> [0, 2, 4, 6, 8, 10, 12, 14]"
abbreviation tf_dec_indices :: "nat list" where "tf_dec_indices \<equiv> [15, 13, 11, 9, 7, 5, 3, 1]"

definition twofish_encrypt :: "AVTWOFISH \<Rightarrow> byte list \<Rightarrow> byte list" where
  "twofish_encrypt cs src =
     (let P0 = AV_RL32 src XOR tK cs ! 0;
          P1 = AV_RL32 (drop 4 src) XOR tK cs ! 1;
          P2 = AV_RL32 (drop 8 src) XOR tK cs ! 2;
          P3 = AV_RL32 (drop 12 src) XOR tK cs ! 3;
          (P0, P1, P2, P3) = fold (tf_enc_body cs) tf_enc_indices (P0, P1, P2, P3);
          P2 = P2 XOR tK cs ! 4;
          P3 = P3 XOR tK cs ! 5;
          P0 = P0 XOR tK cs ! 6;
          P1 = P1 XOR tK cs ! 7
      in AV_WL32 P2 @ AV_WL32 P3 @ AV_WL32 P0 @ AV_WL32 P1)"

definition twofish_decrypt :: "AVTWOFISH \<Rightarrow> byte list \<Rightarrow> byte list option \<Rightarrow> byte list \<times> byte list option" where
  "twofish_decrypt cs src iv =
     (let P2 = AV_RL32 src XOR tK cs ! 4;
          P3 = AV_RL32 (drop 4 src) XOR tK cs ! 5;
          P0 = AV_RL32 (drop 8 src) XOR tK cs ! 6;
          P1 = AV_RL32 (drop 12 src) XOR tK cs ! 7;
          (P0, P1, P2, P3) = fold (tf_dec_body cs) tf_dec_indices (P0, P1, P2, P3);
          P0 = P0 XOR tK cs ! 0;
          P1 = P1 XOR tK cs ! 1;
          P2 = P2 XOR tK cs ! 2;
          P3 = P3 XOR tK cs ! 3;
          (P0, P1, P2, P3, iv) = (case iv of
              Some v \<Rightarrow> (P0 XOR AV_RL32 v, P1 XOR AV_RL32 (drop 4 v), P2 XOR AV_RL32 (drop 8 v),
                         P3 XOR AV_RL32 (drop 12 v), Some (take 16 src))
            | None \<Rightarrow> (P0, P1, P2, P3, None))
      in (AV_WL32 P2 @ AV_WL32 P3 @ AV_WL32 P0 @ AV_WL32 P1, iv))"

fun av_twofish_crypt :: "AVTWOFISH \<Rightarrow> nat \<Rightarrow> byte list \<Rightarrow> byte list option \<Rightarrow> bool \<Rightarrow> byte list \<times> byte list option" where
  "av_twofish_crypt cs 0 src iv decrypt = ([], iv)"
| "av_twofish_crypt cs (Suc n) src iv decrypt =
     (let (dst, iv) =
        (if decrypt then twofish_decrypt cs src iv
         else case iv of
             Some v \<Rightarrow> let dst = twofish_encrypt cs (xor_bytes (take 16 src) v) in (dst, Some dst)
           | None \<Rightarrow> (twofish_encrypt cs src, None));
          (rest, iv) = av_twofish_crypt cs n (drop 16 src) iv decrypt
      in (dst @ rest, iv))"

subsection \<open>Decryption\<close>

lemma bit_rotate1:
  "bit (tf_LR x 1) j \<longleftrightarrow> j < 32 \<and> (if j = 0 then bit x 31 else bit x (j - 1))"
  "bit (tf_RR x 1) j \<longleftrightarrow> j < 32 \<and> (if j = 31 then bit x 0 else bit x (j + 1))"
proof -
  have out: "bit x n \<longrightarrow> n < 32" for n by (auto dest: bit_imp_le_length)
  note bits = tf_LR_def tf_RR_def bit_or_iff bit_push_bit_iff bit_drop_bit_eq o_apply possible_bit_word
  show "bit (tf_LR x 1) j \<longleftrightarrow> j < 32 \<and> (if j = 0 then bit x 31 else bit x (j - 1))"
    using out [of "31 + j"] out [of "j - 1"]
    by (cases "j = 0") (simp only: bits; auto simp: add.commute)+
  show "bit (tf_RR x 1) j \<longleftrightarrow> j < 32 \<and> (if j = 31 then bit x 0 else bit x (j + 1))"
    using out [of "j + 1"] out [of "j - 31"]
    by (cases "j = 31") (simp only: bits; auto simp: add.commute)+
qed

lemma rotate1_inverse: "tf_LR (tf_RR x 1) 1 = x" "tf_RR (tf_LR x 1) 1 = x"
  by (rule bit_word_eqI; auto simp: bit_rotate1 simp del: One_nat_def)+

lemma tf_body_inverse: "tf_dec_body cs (Suc i) (tf_enc_body cs i P) = P"
proof -
  have "2 * Suc i + 8 = 2 * i + 10" "2 * Suc i + 9 = 2 * i + 11" "2 * Suc i + 6 = 2 * i + 8" "2 * Suc i + 7 = 2 * i + 9"
    by simp_all
  moreover have "(a XOR b) XOR b = a" for a b :: "32 word" by (simp add: xor.assoc)
  ultimately show ?thesis
    by (cases P) (simp only: tf_dec_body_def tf_enc_body_def Let_def prod.case rotate1_inverse)
qed

lemma tf_bodies_inverse:
  "fold (tf_dec_body cs) (map Suc (rev is)) (fold (tf_enc_body cs) is P) = P"
  by (induction "is" arbitrary: P) (simp_all add: tf_body_inverse)

lemma tf_loops_inverse:
  "fold (tf_dec_body cs) tf_dec_indices (fold (tf_enc_body cs) tf_enc_indices P) = P"
proof -
  have "map Suc (rev tf_enc_indices) = tf_dec_indices" by (simp add: numeral_eq_Suc)
  then show ?thesis using tf_bodies_inverse [of cs tf_enc_indices P] by (simp only:)
qed

lemma read_words:
  "AV_RL32 (AV_WL32 a @ r) = a" "drop 4 (AV_WL32 a @ r) = r"
  "drop 8 (AV_WL32 a @ AV_WL32 b @ r) = r" "drop 12 (AV_WL32 a @ AV_WL32 b @ AV_WL32 c @ r) = r"
  "AV_RL32 (AV_WL32 a) = a"
  by (simp_all add: rw32 bytes_rw)

lemma words_of_16:
  assumes "length b = 16"
  shows "AV_WL32 (AV_RL32 b) @ AV_WL32 (AV_RL32 (drop 4 b)) = take 8 b"
    "AV_WL32 (AV_RL32 (drop 8 b)) @ AV_WL32 (AV_RL32 (drop 12 b)) = drop 8 b"
  using assms take_add [of 4 4 b] take_add [of 4 4 "drop 8 b"] by (simp_all add: wr32)

lemma xor_xor_32: "(a XOR b) XOR b = (a :: 32 word)"
  by (simp add: xor.assoc)

lemma twofish_decrypt_encrypt:
  assumes "length b = 16"
  shows "fst (twofish_decrypt cs (twofish_encrypt cs b) None) = drop 8 b @ take 8 b"
proof -
  define p where "p = (AV_RL32 b XOR tK cs ! 0, AV_RL32 (drop 4 b) XOR tK cs ! 1,
      AV_RL32 (drop 8 b) XOR tK cs ! 2, AV_RL32 (drop 12 b) XOR tK cs ! 3)"
  obtain P0 P1 P2 P3 where e: "fold (tf_enc_body cs) tf_enc_indices p = (P0, P1, P2, P3)" by (metis prod_cases4)
  have d: "fold (tf_dec_body cs) tf_dec_indices (P0, P1, P2, P3) = p"
    using tf_loops_inverse [of cs p] by (simp only: e)
  have enc: "twofish_encrypt cs b =
      AV_WL32 (P2 XOR tK cs ! 4) @ AV_WL32 (P3 XOR tK cs ! 5) @ AV_WL32 (P0 XOR tK cs ! 6) @ AV_WL32 (P1 XOR tK cs ! 7)"
    unfolding twofish_encrypt_def Let_def p_def [symmetric] e by (simp only: prod.case)
  show ?thesis
    unfolding twofish_decrypt_def enc Let_def read_words xor_xor_32 d
    by (simp only: p_def prod.case option.case fst_conv xor_xor_32 append_assoc [symmetric] words_of_16 [OF assms])
       (simp only: append_assoc words_of_16 [OF assms])
qed

subsection \<open>Properties\<close>

text \<open>C33. Decrypting one encrypted block gives its two eight-byte halves in exchanged order:
  \<open>twofish_decrypt\<close> stores \<open>P[2], P[3], P[0], P[1]\<close> although after the rounds \<open>P[0] .. P[3]\<close> are
  again the words of the plain text in their order.\<close>

theorem twofish_decrypt_swaps:
  assumes "length b = 16"
  shows "fst (av_twofish_crypt cs 1 (fst (av_twofish_crypt cs 1 b None False)) None True) = drop 8 b @ take 8 b"
  using twofish_decrypt_encrypt [OF assms, of cs] by (simp add: split_beta)

theorem twofish_decrypt_swaps_witness:
  "\<exists>cs. av_twofish_init [1, 2, 3] 128 = Inr (0, cs) \<and>
    fst (av_twofish_crypt cs 1 (fst (av_twofish_crypt cs 1 [1,2,3,4,5,6,7,8,9,10,11,12,13,14,15,16] None False)) None True) =
      [9,10,11,12,13,14,15,16,1,2,3,4,5,6,7,8]"
proof -
  define key :: "byte list" where "key = [1, 2, 3]"
  have "\<exists>cs. av_twofish_init key 128 = Inr (0, cs)"
    by (simp add: av_twofish_init_def Let_def del: upt_rec_numeral)
  then obtain cs where init: "av_twofish_init key 128 = Inr (0, cs)" ..
  show ?thesis unfolding key_def [symmetric]
    using twofish_decrypt_swaps [of "[1,2,3,4,5,6,7,8,9,10,11,12,13,14,15,16]" cs] init
    by (simp del: av_twofish_crypt.simps One_nat_def)
qed

end
