(* ===== verification/Fifo.thy ===== *)
theory Fifo
  imports Bytes
begin

section \<open>The byte FIFO: \<open>libavutil/fifo.c\<close>\<close>

text \<open>
  A ring buffer.  \<open>rptr\<close> and \<open>wptr\<close> are offsets into \<open>buffer\<close>, \<open>end\<close> is its length, and the
  free-running indices \<open>rndx\<close> and \<open>wndx\<close> are 32-bit words that wrap.  Data moves with \<open>memcpy\<close>; of
  the callback variants the one that fills the buffer is modelled.  The copying loops are partial
  functions: \<open>None\<close> is a loop that does not end.

  The locale \<open>byte_queue\<close> is the contract the callers rely on, interpreted on the ring buffer.
\<close>

record AVFifoBuffer =
  buffer :: "byte list"
  rptr :: nat
  wptr :: nat
  rndx :: "32 word"
  wndx :: "32 word"

abbreviation cap :: "AVFifoBuffer \<Rightarrow> nat" where
  "cap f \<equiv> length (buffer f)"

definition av_fifo_reset :: "AVFifoBuffer \<Rightarrow> AVFifoBuffer" where
  "av_fifo_reset f = f\<lparr>wptr := 0, rptr := 0, wndx := 0, rndx := 0\<rparr>"

text \<open>\<open>mem\<close> is what the allocator returns: \<open>None\<close> when it fails, otherwise a block of \<open>sz\<close> bytes.\<close>

definition fifo_alloc_common :: "byte list option \<Rightarrow> AVFifoBuffer option" where
  "fifo_alloc_common mem =
     (case mem of None \<Rightarrow> None
      | Some b \<Rightarrow> Some (av_fifo_reset \<lparr>buffer = b, rptr = 0, wptr = 0, rndx = 0, wndx = 0\<rparr>))"

definition av_fifo_alloc :: "(nat \<Rightarrow> byte list option) \<Rightarrow> nat \<Rightarrow> AVFifoBuffer option" where
  "av_fifo_alloc malloc sz = fifo_alloc_common (malloc sz)"

definition av_fifo_size :: "AVFifoBuffer \<Rightarrow> nat" where
  "av_fifo_size f = unat (wndx f - rndx f)"

definition av_fifo_space :: "AVFifoBuffer \<Rightarrow> int" where
  "av_fifo_space f = int (cap f) - int (av_fifo_size f)"

definition av_fifo_drain :: "AVFifoBuffer \<Rightarrow> nat \<Rightarrow> AVFifoBuffer" where
  "av_fifo_drain f sz =
     (let r = rptr f + sz;
          r = (if r \<ge> cap f then r - cap f else r)
      in f\<lparr>rptr := r, rndx := rndx f + of_nat sz\<rparr>)"

definition memcpy_at :: "byte list \<Rightarrow> nat \<Rightarrow> byte list \<Rightarrow> byte list" where
  "memcpy_at b i xs = take i b @ xs @ drop (i + length xs) b"

partial_function (option) fifo_write_loop ::
  "byte list \<Rightarrow> nat \<Rightarrow> 32 word \<Rightarrow> byte list \<Rightarrow> nat \<Rightarrow> (byte list \<times> nat \<times> 32 word) option" where
  "fifo_write_loop b w ndx src sz =
     (let len = min (length b - w) sz;
          b = memcpy_at b w (take len src);
          src = drop len src;
          w = w + len;
          w = (if w \<ge> length b then 0 else w);
          ndx = ndx + of_nat len;
          sz = sz - len
      in if sz > 0 then fifo_write_loop b w ndx src sz else Some (b, w, ndx))"

definition av_fifo_generic_write :: "AVFifoBuffer \<Rightarrow> byte list \<Rightarrow> nat \<Rightarrow> (AVFifoBuffer \<times> nat) option" where
  "av_fifo_generic_write f src sz =
     (case fifo_write_loop (buffer f) (wptr f) (wndx f) src sz of
        None \<Rightarrow> None
      | Some (b, w, ndx) \<Rightarrow> Some (f\<lparr>buffer := b, wndx := ndx, wptr := w\<rparr>, sz))"

text \<open>With a callback: \<open>func s len\<close> gives the bytes it stores, at most \<open>len\<close>, and its next state; no
  bytes (or an error) end the loop.  The result adds the number of bytes written and the state.\<close>

partial_function (option) fifo_fill_loop ::
  "('s \<Rightarrow> nat \<Rightarrow> byte list \<times> 's) \<Rightarrow> byte list \<Rightarrow> nat \<Rightarrow> 32 word \<Rightarrow> 's \<Rightarrow> nat \<Rightarrow>
     (byte list \<times> nat \<times> 32 word \<times> nat \<times> 's) option" where
  "fifo_fill_loop func b w ndx s sz =
     (let len = min (length b - w) sz;
          (d, s) = func s len
      in if d = [] then Some (b, w, ndx, sz, s)
         else
           let b = memcpy_at b w d;
               w = w + length d;
               w = (if w \<ge> length b then 0 else w);
               ndx = ndx + of_nat (length d);
               sz = sz - length d
           in if sz > 0 then fifo_fill_loop func b w ndx s sz else Some (b, w, ndx, sz, s))"

definition av_fifo_generic_fill ::
  "AVFifoBuffer \<Rightarrow> ('s \<Rightarrow> nat \<Rightarrow> byte list \<times> 's) \<Rightarrow> 's \<Rightarrow> nat \<Rightarrow> (AVFifoBuffer \<times> nat \<times> 's) option" where
  "av_fifo_generic_fill f func s sz =
     (case fifo_fill_loop func (buffer f) (wptr f) (wndx f) s sz of
        None \<Rightarrow> None
      | Some (b, w, ndx, left, s) \<Rightarrow> Some (f\<lparr>buffer := b, wndx := ndx, wptr := w\<rparr>, sz - left, s))"

text \<open>\<open>dest\<close> is what has been copied so far.\<close>

partial_function (option) fifo_peek_loop :: "byte list \<Rightarrow> nat \<Rightarrow> byte list \<Rightarrow> nat \<Rightarrow> byte list option" where
  "fifo_peek_loop b r dest buf_size =
     (let len = min (length b - r) buf_size;
          dest = dest @ take len (drop r b);
          r = r + len;
          r = (if r \<ge> length b then r - length b else r);
          buf_size = buf_size - len
      in if buf_size > 0 then fifo_peek_loop b r dest buf_size else Some dest)"

definition av_fifo_generic_peek :: "AVFifoBuffer \<Rightarrow> nat \<Rightarrow> byte list option" where
  "av_fifo_generic_peek f buf_size = fifo_peek_loop (buffer f) (rptr f) [] buf_size"

partial_function (option) fifo_peek_at_loop :: "byte list \<Rightarrow> nat \<Rightarrow> byte list \<Rightarrow> nat \<Rightarrow> byte list option" where
  "fifo_peek_at_loop b r dest buf_size =
     (if buf_size > 0
      then
        let r = (if r \<ge> length b then r - length b else r);
            len = min (length b - r) buf_size
        in fifo_peek_at_loop b (r + len) (dest @ take len (drop r b)) (buf_size - len)
      else Some dest)"

definition av_fifo_generic_peek_at :: "AVFifoBuffer \<Rightarrow> nat \<Rightarrow> nat \<Rightarrow> byte list option" where
  "av_fifo_generic_peek_at f offset buf_size =
     (let r = (if offset \<ge> cap f - rptr f then rptr f + offset - cap f else rptr f + offset)
      in fifo_peek_at_loop (buffer f) r [] buf_size)"

partial_function (option) fifo_read_loop :: "AVFifoBuffer \<Rightarrow> byte list \<Rightarrow> nat \<Rightarrow> (byte list \<times> AVFifoBuffer) option" where
  "fifo_read_loop f dest buf_size =
     (let len = min (cap f - rptr f) buf_size;
          dest = dest @ take len (drop (rptr f) (buffer f));
          f = av_fifo_drain f len;
          buf_size = buf_size - len
      in if buf_size > 0 then fifo_read_loop f dest buf_size else Some (dest, f))"

definition av_fifo_generic_read :: "AVFifoBuffer \<Rightarrow> nat \<Rightarrow> (byte list \<times> AVFifoBuffer) option" where
  "av_fifo_generic_read f buf_size = fifo_read_loop f [] buf_size"

text \<open>\<open>(f, ret)\<close>; the buffer is unchanged when the allocation fails.\<close>

definition av_fifo_realloc2 :: "(nat \<Rightarrow> byte list option) \<Rightarrow> AVFifoBuffer \<Rightarrow> nat \<Rightarrow> (AVFifoBuffer \<times> int) option" where
  "av_fifo_realloc2 malloc f new_size =
     (if cap f < new_size
      then
        let len = av_fifo_size f
        in case av_fifo_alloc malloc new_size of
             None \<Rightarrow> Some (f, - 12)
           | Some f2 \<Rightarrow>
               (case av_fifo_generic_read f len of
                  None \<Rightarrow> None
                | Some (d, _) \<Rightarrow>
                    Some (f2\<lparr>buffer := memcpy_at (buffer f2) 0 d, wptr := wptr f2 + len,
                             wndx := wndx f2 + of_nat len\<rparr>, 0))
      else Some (f, 0))"

definition av_fifo_grow :: "(nat \<Rightarrow> byte list option) \<Rightarrow> AVFifoBuffer \<Rightarrow> nat \<Rightarrow> (AVFifoBuffer \<times> int) option" where
  "av_fifo_grow malloc f sz =
     (if sz + av_fifo_size f \<ge> 2 ^ 32 then Some (f, - 22)
      else
        let sz = sz + av_fifo_size f
        in if cap f < sz
           then av_fifo_realloc2 malloc f (max sz (2 * cap f mod 2 ^ 32))
           else Some (f, 0))"

text \<open>The position \<open>av_fifo_peek2\<close> points at; \<open>offs\<close> may be negative.\<close>

definition av_fifo_peek2 :: "AVFifoBuffer \<Rightarrow> int \<Rightarrow> int" where
  "av_fifo_peek2 f offs =
     (let ptr = int (rptr f) + offs
      in if ptr \<ge> int (cap f) then ptr - int (cap f)
         else if ptr < 0 then int (cap f) - (0 - ptr) else ptr)"

subsection \<open>The bytes from a position on, around the ring\<close>

definition ring :: "byte list \<Rightarrow> nat \<Rightarrow> nat \<Rightarrow> byte list" where
  "ring b r n = map (\<lambda>i. b ! ((r + i) mod length b)) [0..<n]"

lemma length_ring [simp]: "length (ring b r n) = n"
  by (simp add: ring_def)

lemma ring_mod: "ring b (r mod length b) n = ring b r n"
  by (simp add: ring_def mod_add_left_eq)

lemma ring_append: "ring b r (m + n) = ring b r m @ ring b (r + m) n"
proof -
  have "[0..<m + n] = [0..<m] @ map (\<lambda>i. i + m) [0..<n]"
    by (metis add.left_neutral add.commute map_add_upt upt_add_eq_append zero_le)
  then show ?thesis by (simp add: ring_def ac_simps)
qed

lemma ring_take: "m \<le> n \<Longrightarrow> take m (ring b r n) = ring b r m"
  by (simp add: ring_def take_map)

lemma ring_drop: "m \<le> n \<Longrightarrow> drop m (ring b r n) = ring b (r + m) (n - m)"
  using ring_append [of b r m "n - m"] by simp

lemma ring_slice: "r < length b \<Longrightarrow> n \<le> length b - r \<Longrightarrow> take n (drop r b) = ring b r n"
  by (rule nth_equalityI) (simp_all add: ring_def)

lemma wrap_mod:
  "r < L \<Longrightarrow> n \<le> L - r \<Longrightarrow> (if r + n \<ge> L then r + n - L else r + n) = (r + n) mod (L :: nat)"
  "r < L \<Longrightarrow> n \<le> L - r \<Longrightarrow> (if r + n \<ge> L then 0 else r + n) = (r + n) mod (L :: nat)"
  by (cases "r + n = L"; simp)+

lemma mod_lt: "r < L \<Longrightarrow> x mod L < (L :: nat)"
  by (rule mod_less_divisor) simp

lemma fifo_peek_loop_value:
  "r < length b \<Longrightarrow> fifo_peek_loop b r dest n = Some (dest @ ring b r n)"
proof (induction n arbitrary: r dest rule: less_induct)
  case (less n)
  define len where "len = min (length b - r) n"
  define r' where "r' = (r + len) mod length b"
  have r': "(if r + len \<ge> length b then r + len - length b else r + len) = r'"
    unfolding r'_def by (rule wrap_mod(1)) (use less.prems in \<open>auto simp: len_def\<close>)
  have r'l: "r' < length b" unfolding r'_def using less.prems by (rule mod_lt)
  have d: "take len (drop r b) = ring b r len" using less.prems by (intro ring_slice) (auto simp: len_def)
  have "fifo_peek_loop b r dest n =
      (if n - len > 0 then fifo_peek_loop b r' (dest @ ring b r len) (n - len) else Some (dest @ ring b r len))"
    by (subst fifo_peek_loop.simps) (simp only: Let_def len_def [symmetric] r' d)
  also have "\<dots> = Some (dest @ ring b r (len + (n - len)))"
  proof (cases "n - len > 0")
    case True
    have "n - len < n" using True less.prems by (auto simp: len_def)
    then have "fifo_peek_loop b r' (dest @ ring b r len) (n - len) = Some ((dest @ ring b r len) @ ring b r' (n - len))"
      using r'l less.IH by blast
    then show ?thesis using True by (simp only: ring_append r'_def ring_mod if_True append_assoc)
  next
    case False
    then show ?thesis by simp
  qed
  also have "len + (n - len) = n" by (simp add: len_def)
  finally show ?case .
qed

lemma fifo_peek_at_loop_value:
  "0 < length b \<Longrightarrow> r \<le> length b \<Longrightarrow> fifo_peek_at_loop b r dest n = Some (dest @ ring b r n)"
proof (induction n arbitrary: r dest rule: less_induct)
  case (less n)
  show ?case
  proof (cases "n > 0")
    case False
    then show ?thesis by (subst fifo_peek_at_loop.simps) (simp add: ring_def)
  next
    case True
    define r' where "r' = (if r \<ge> length b then r - length b else r)"
    have r': "r' = r mod length b" "r' < length b" using less.prems by (auto simp: r'_def)
    define len where "len = min (length b - r') n"
    have len: "0 < len" "len \<le> n" "r' + len \<le> length b" using True r' by (auto simp: len_def)
    have d: "take len (drop r' b) = ring b r' len" using r' len by (intro ring_slice) auto
    have "fifo_peek_at_loop b r dest n = fifo_peek_at_loop b (r' + len) (dest @ ring b r' len) (n - len)"
      using True by (subst fifo_peek_at_loop.simps) (simp only: if_True Let_def r'_def [symmetric] len_def [symmetric] d)
    also have "\<dots> = Some ((dest @ ring b r' len) @ ring b (r' + len) (n - len))"
      using True len less.prems by (intro less.IH) auto
    also have "\<dots> = Some (dest @ ring b r' (len + (n - len)))" by (simp add: ring_append)
    also have "\<dots> = Some (dest @ ring b r n)" using len r' by (simp add: ring_mod)
    finally show ?thesis .
  qed
qed

lemma cap_drain [simp]: "buffer (av_fifo_drain f n) = buffer f"
  "wptr (av_fifo_drain f n) = wptr f" "wndx (av_fifo_drain f n) = wndx f"
  "rndx (av_fifo_drain f n) = rndx f + of_nat n"
  by (simp_all add: av_fifo_drain_def Let_def)

lemma drain_rptr: "rptr f < cap f \<Longrightarrow> n \<le> cap f \<Longrightarrow> rptr (av_fifo_drain f n) = (rptr f + n) mod cap f"
  by (auto simp: av_fifo_drain_def Let_def mod_if)

lemma drain_drain:
  assumes "rptr f < cap f" "m + n \<le> cap f"
  shows "av_fifo_drain (av_fifo_drain f m) n = av_fifo_drain f (m + n)"
proof -
  have "rptr (av_fifo_drain f m) < cap (av_fifo_drain f m)" using assms by (simp add: drain_rptr mod_lt)
  then have "rptr (av_fifo_drain (av_fifo_drain f m) n) = rptr (av_fifo_drain f (m + n))"
    using assms by (simp add: drain_rptr mod_add_left_eq add.assoc)
  then show ?thesis by (simp add: AVFifoBuffer.equality add.assoc)
qed

lemma fifo_read_loop_value:
  "rptr f < cap f \<Longrightarrow> n \<le> cap f \<Longrightarrow>
     fifo_read_loop f dest n = Some (dest @ ring (buffer f) (rptr f) n, av_fifo_drain f n)"
proof (induction n arbitrary: f dest rule: less_induct)
  case (less n)
  define len where "len = min (cap f - rptr f) n"
  have d: "take len (drop (rptr f) (buffer f)) = ring (buffer f) (rptr f) len"
    using less.prems by (intro ring_slice) (auto simp: len_def)
  have "fifo_read_loop f dest n =
      (if n - len > 0 then fifo_read_loop (av_fifo_drain f len) (dest @ ring (buffer f) (rptr f) len) (n - len)
       else Some (dest @ ring (buffer f) (rptr f) len, av_fifo_drain f len))"
    by (subst fifo_read_loop.simps) (simp only: Let_def len_def [symmetric] d)
  also have "\<dots> = Some (dest @ ring (buffer f) (rptr f) n, av_fifo_drain f n)"
  proof (cases "n - len > 0")
    case True
    have rp: "rptr (av_fifo_drain f len) = (rptr f + len) mod cap f"
      using less.prems by (intro drain_rptr) (auto simp: len_def)
    have "fifo_read_loop (av_fifo_drain f len) (dest @ ring (buffer f) (rptr f) len) (n - len) =
        Some ((dest @ ring (buffer f) (rptr f) len) @ ring (buffer f) (rptr f + len) (n - len),
          av_fifo_drain (av_fifo_drain f len) (n - len))"
    proof (subst less.IH)
      show "n - len < n" using True less.prems by (auto simp: len_def)
      show "rptr (av_fifo_drain f len) < cap (av_fifo_drain f len)" using less.prems by (simp add: rp mod_lt)
      show "n - len \<le> cap (av_fifo_drain f len)" using less.prems by simp
    qed (simp add: rp ring_mod)
    moreover have "len + (n - len) = n" by (simp add: len_def)
    ultimately show ?thesis
      using True less.prems ring_append [of "buffer f" "rptr f" len "n - len"] by (simp add: drain_drain)
  next
    case False
    then have "len = n" by (simp add: len_def)
    then show ?thesis by simp
  qed
  finally show ?case .
qed

subsection \<open>Writing\<close>

definition write_ring :: "byte list \<Rightarrow> nat \<Rightarrow> byte list \<Rightarrow> byte list" where
  "write_ring b w xs =
     map (\<lambda>p. let j = (p + length b - w) mod length b in if j < length xs then xs ! j else b ! p) [0..<length b]"

lemma nth_write_ring:
  "p < length b \<Longrightarrow> write_ring b w xs ! p =
     (let j = (p + length b - w) mod length b in if j < length xs then xs ! j else b ! p)"
  by (simp add: write_ring_def Let_def)

lemma length_write_ring [simp]: "length (write_ring b w xs) = length b"
  by (simp add: write_ring_def)

lemma length_memcpy_at [simp]: "i + length xs \<le> length b \<Longrightarrow> length (memcpy_at b i xs) = length b"
  by (simp add: memcpy_at_def)

lemma nth_memcpy_at:
  "i + length xs \<le> length b \<Longrightarrow> p < length b \<Longrightarrow>
     memcpy_at b i xs ! p = (if i \<le> p \<and> p < i + length xs then xs ! (p - i) else b ! p)"
  by (auto simp: memcpy_at_def nth_append min_def)

lemma dist_mod: "w < L \<Longrightarrow> p < L \<Longrightarrow> (p + L - w) mod L = (if w \<le> p then p - w else p + L - w)" for w p L :: nat
  by (auto simp: mod_if)

lemma memcpy_write_ring:
  assumes "w < length b" "length xs \<le> length b - w"
  shows "memcpy_at b w xs = write_ring b w xs"
proof (rule nth_equalityI)
  show "length (memcpy_at b w xs) = length (write_ring b w xs)" using assms by simp
  fix p assume "p < length (memcpy_at b w xs)"
  then have p: "p < length b" using assms by simp
  have "write_ring b w xs ! p = (let j = (p + length b - w) mod length b in if j < length xs then xs ! j else b ! p)"
    using p by (rule nth_write_ring)
  then show "memcpy_at b w xs ! p = write_ring b w xs ! p"
    using assms p by (simp only: dist_mod Let_def) (auto simp: nth_memcpy_at)
qed

lemma memcpy_write_ring_wrap:
  assumes w: "w < length b" and xs: "length xs = length b - w" "length xs + length ys \<le> length b"
  shows "memcpy_at (memcpy_at b w xs) 0 ys = write_ring b w (xs @ ys)"
proof (rule nth_equalityI)
  show "length (memcpy_at (memcpy_at b w xs) 0 ys) = length (write_ring b w (xs @ ys))" using assms by simp
  fix p assume "p < length (memcpy_at (memcpy_at b w xs) 0 ys)"
  then have p: "p < length b" using assms by simp
  have "write_ring b w (xs @ ys) ! p =
      (let j = (p + length b - w) mod length b in if j < length (xs @ ys) then (xs @ ys) ! j else b ! p)"
    using p by (rule nth_write_ring)
  then show "memcpy_at (memcpy_at b w xs) 0 ys ! p = write_ring b w (xs @ ys) ! p"
    using assms p by (simp only: dist_mod Let_def) (auto simp: nth_memcpy_at nth_append)
qed

lemma fifo_write_loop_value:
  assumes w: "w < length b" and n: "n \<le> length b" "n \<le> length src"
  shows "fifo_write_loop b w ndx src n = Some (write_ring b w (take n src), (w + n) mod length b, ndx + of_nat n)"
proof (cases "n \<le> length b - w")
  case True
  have "(if w + n \<ge> length b then 0 else w + n) = (w + n) mod length b" by (rule wrap_mod(2) [OF w True])
  moreover have "min (length b - w) n = n" using True by simp
  moreover have "length (memcpy_at b w (take n src)) = length b" using True w n by simp
  moreover have "memcpy_at b w (take n src) = write_ring b w (take n src)"
    using True w n by (intro memcpy_write_ring) auto
  ultimately show ?thesis by (subst fifo_write_loop.simps) (simp add: Let_def)
next
  case False
  define l where "l = length b - w"
  define m where "m = n - l"
  have l: "min (length b - w) n = l" "w + l = length b" "l + m = n" "0 < m" "m < length b"
    using False w n by (auto simp: l_def m_def)
  have len: "length (take l src) = l" "length (take m (drop l src)) = m" using n l by auto
  define b' where "b' = memcpy_at b w (take l src)"
  have b': "length b' = length b" using len l by (simp add: b'_def)
  have "fifo_write_loop b w ndx src n = fifo_write_loop b' 0 (ndx + of_nat l) (drop l src) m"
    using l b' by (subst fifo_write_loop.simps) (simp add: Let_def b'_def m_def)
  also have "\<dots> = Some (memcpy_at b' 0 (take m (drop l src)), m, ndx + of_nat l + of_nat m)"
    using l b' len by (subst fifo_write_loop.simps) (simp add: Let_def min_def)
  also have "memcpy_at b' 0 (take m (drop l src)) = write_ring b w (take l src @ take m (drop l src))"
    unfolding b'_def using w l len n by (intro memcpy_write_ring_wrap) auto
  also have "take l src @ take m (drop l src) = take n src" by (simp add: take_add [symmetric] l)
  finally have "fifo_write_loop b w ndx src n = Some (write_ring b w (take n src), m, ndx + of_nat l + of_nat m)" .
  moreover have "ndx + of_nat l + of_nat m = ndx + of_nat n"
    by (simp only: add.assoc of_nat_add [symmetric] l)
  moreover have "(w + n) mod length b = m"
  proof -
    have "w + n = m + length b" using l by simp
    then show ?thesis using l(5) by (simp only: mod_add_self2 mod_less)
  qed
  ultimately show ?thesis by simp
qed

subsection \<open>The abstract queue\<close>

text \<open>A well-formed FIFO: the pointers lie in a buffer small enough for the 32-bit indices, and the
  write pointer is \<open>size\<close> bytes ahead of the read pointer.\<close>

definition fifo_wf :: "AVFifoBuffer \<Rightarrow> bool" where
  "fifo_wf f \<longleftrightarrow> 0 < cap f \<and> cap f < 2 ^ 31 \<and> rptr f < cap f \<and> av_fifo_size f \<le> cap f \<and>
     wptr f = (rptr f + av_fifo_size f) mod cap f"

definition fifo_content :: "AVFifoBuffer \<Rightarrow> byte list" where
  "fifo_content f = ring (buffer f) (rptr f) (av_fifo_size f)"

lemma length_content [simp]: "length (fifo_content f) = av_fifo_size f"
  by (simp add: fifo_content_def)

lemma fifo_size_add:
  assumes "fifo_wf f" "n \<le> cap f - av_fifo_size f" "wndx g = wndx f + of_nat n" "rndx g = rndx f"
  shows "av_fifo_size g = av_fifo_size f + n"
proof -
  have "wndx g - rndx g = (wndx f - rndx f) + of_nat n" using assms by simp
  moreover have "unat (wndx f - rndx f) + n < 2 ^ 32" using assms by (auto simp: fifo_wf_def av_fifo_size_def)
  then have "unat ((wndx f - rndx f) + of_nat n) = unat (wndx f - rndx f) + n"
    by (simp add: unat_word_ariths unat_of_nat take_bit_nat_eq_self)
  ultimately show ?thesis by (simp add: av_fifo_size_def)
qed

lemma fifo_size_sub:
  assumes "fifo_wf f" "n \<le> av_fifo_size f" "wndx g = wndx f" "rndx g = rndx f + of_nat n"
  shows "av_fifo_size g = av_fifo_size f - n"
proof -
  define d where "d = wndx f - rndx f"
  have "n < 2 ^ 32" "n \<le> unat d" using assms by (auto simp: fifo_wf_def av_fifo_size_def d_def)
  then have u: "unat (of_nat n :: 32 word) = n" by (simp add: unat_of_nat take_bit_nat_eq_self)
  then have "(of_nat n :: 32 word) \<le> d" using \<open>n \<le> unat d\<close> by (simp add: word_le_nat_alt)
  then have "unat (d - of_nat n) = unat d - n" using u by (simp add: unat_sub)
  moreover have "wndx g - rndx g = d - of_nat n" using assms by (simp add: d_def)
  ultimately show ?thesis by (simp add: av_fifo_size_def d_def)
qed

lemma ring_distance:
  fixes r s i w L :: nat
  assumes "w = (r + s) mod L" "0 < L" "s \<le> L" "i < L"
  shows "((r + i) mod L + L - w) mod L = (if s \<le> i then i - s else i + L - s)"
proof -
  have "w < L" unfolding assms(1) using assms(2) by (rule mod_less_divisor)
  have "int (((r + i) mod L + L - w) mod L) = (int ((r + i) mod L) - int w) mod int L"
  proof -
    have "int ((r + i) mod L + L - w) = int ((r + i) mod L) - int w + int L"
      using \<open>w < L\<close> by (simp add: of_nat_diff)
    then show ?thesis by (simp only: zmod_int mod_add_self2)
  qed
  also have "\<dots> = (int (r + i) - int (r + s)) mod int L"
    unfolding assms(1) zmod_int by (simp add: mod_diff_eq)
  also have "\<dots> = (int i - int s) mod int L" by simp
  also have "\<dots> = int (if s \<le> i then i - s else i + L - s)"
  proof (cases "s \<le> i")
    case True
    then show ?thesis using assms by (simp add: of_nat_diff)
  next
    case False
    have "(int i - int s) mod int L = (int i - int s + int L) mod int L" by simp
    also have "\<dots> = int i - int s + int L" using False assms by (intro mod_pos_pos_trivial) auto
    finally show ?thesis using False assms by (simp add: of_nat_diff)
  qed
  finally show ?thesis by simp
qed

lemma write_ring_content:
  assumes "w = (r + s) mod length b" "0 < length b" "s + length xs \<le> length b"
  shows "ring (write_ring b w xs) r (s + length xs) = ring b r s @ xs"
proof (rule nth_equalityI)
  show "length (ring (write_ring b w xs) r (s + length xs)) = length (ring b r s @ xs)" by simp
  fix i assume "i < length (ring (write_ring b w xs) r (s + length xs))"
  then have i: "i < s + length xs" "i < length b" using assms by auto
  have m: "(r + i) mod length b < length b" using assms by simp
  have "ring (write_ring b w xs) r (s + length xs) ! i = write_ring b w xs ! ((r + i) mod length b)"
    using i by (simp add: ring_def)
  also have "\<dots> = (let j = ((r + i) mod length b + length b - w) mod length b
      in if j < length xs then xs ! j else b ! ((r + i) mod length b))"
    using m by (rule nth_write_ring)
  also have "\<dots> = (ring b r s @ xs) ! i"
    using ring_distance [OF assms(1) assms(2) _ i(2)] assms(3) i by (auto simp: Let_def nth_append ring_def)
  finally show "ring (write_ring b w xs) r (s + length xs) ! i = (ring b r s @ xs) ! i" .
qed

lemma fifo_write_spec:
  assumes wf: "fifo_wf f" and n: "n \<le> cap f - av_fifo_size f" "n \<le> length src"
  shows "\<exists>g. av_fifo_generic_write f src n = Some (g, n) \<and> fifo_wf g \<and> cap g = cap f \<and>
    fifo_content g = fifo_content f @ take n src"
proof -
  have w: "wptr f < cap f" "0 < cap f" "n \<le> cap f" using wf n by (auto simp: fifo_wf_def)
  define g where "g = f\<lparr>buffer := write_ring (buffer f) (wptr f) (take n src), wndx := wndx f + of_nat n,
      wptr := (wptr f + n) mod cap f\<rparr>"
  have e: "av_fifo_generic_write f src n = Some (g, n)"
    using fifo_write_loop_value [OF w(1,3) n(2)] by (simp add: av_fifo_generic_write_def g_def)
  have s: "av_fifo_size g = av_fifo_size f + n"
    by (rule fifo_size_add [OF wf n(1)]) (simp_all add: g_def)
  have "fifo_content g = fifo_content f @ take n src"
  proof -
    have "ring (write_ring (buffer f) (wptr f) (take n src)) (rptr f) (av_fifo_size f + length (take n src)) =
        ring (buffer f) (rptr f) (av_fifo_size f) @ take n src"
      using wf n by (intro write_ring_content) (auto simp: fifo_wf_def)
    moreover have "buffer g = write_ring (buffer f) (wptr f) (take n src)" "rptr g = rptr f"
      by (simp_all add: g_def)
    ultimately show ?thesis using n by (simp add: fifo_content_def s min_absorb2)
  qed
  moreover have "fifo_wf g"
  proof -
    have "cap g = cap f" "rptr g = rptr f" "wptr g = (wptr f + n) mod cap f" by (simp_all add: g_def)
    then show ?thesis using wf n by (auto simp: fifo_wf_def s mod_add_left_eq add.assoc)
  qed
  ultimately show ?thesis using e by (auto simp: g_def)
qed

lemma fifo_drain_spec:
  assumes wf: "fifo_wf f" and n: "n \<le> av_fifo_size f"
  shows "fifo_wf (av_fifo_drain f n) \<and> fifo_content (av_fifo_drain f n) = drop n (fifo_content f)"
proof -
  have c: "rptr f < cap f" "n \<le> cap f" "0 < cap f" using wf n by (auto simp: fifo_wf_def)
  have s: "av_fifo_size (av_fifo_drain f n) = av_fifo_size f - n"
    by (rule fifo_size_sub [OF wf n]) simp_all
  have "(rptr f + n + (av_fifo_size f - n)) mod cap f = (rptr f + av_fifo_size f) mod cap f" using n by simp
  then have "((rptr f + n) mod cap f + (av_fifo_size f - n)) mod cap f = (rptr f + av_fifo_size f) mod cap f"
    by (simp only: mod_add_left_eq)
  then have "fifo_wf (av_fifo_drain f n)"
    using wf n c unfolding fifo_wf_def s by (simp only: drain_rptr cap_drain mod_lt) auto
  moreover have "fifo_content (av_fifo_drain f n) = drop n (fifo_content f)"
    using n c by (simp add: fifo_content_def s drain_rptr ring_mod ring_drop)
  ultimately show ?thesis ..
qed

lemma fifo_read_spec:
  assumes wf: "fifo_wf f" and n: "n \<le> av_fifo_size f"
  shows "\<exists>g. av_fifo_generic_read f n = Some (take n (fifo_content f), g) \<and> fifo_wf g \<and> cap g = cap f \<and>
    fifo_content g = drop n (fifo_content f)"
proof -
  have c: "rptr f < cap f" "n \<le> cap f" using wf n by (auto simp: fifo_wf_def)
  have "av_fifo_generic_read f n = Some (take n (fifo_content f), av_fifo_drain f n)"
    using fifo_read_loop_value [OF c] n by (simp add: av_fifo_generic_read_def fifo_content_def ring_take)
  then show ?thesis using fifo_drain_spec [OF assms] by simp
qed

lemma fifo_peek_at_spec:
  assumes wf: "fifo_wf f" and n: "off + n \<le> av_fifo_size f"
  shows "av_fifo_generic_peek_at f off n = Some (take n (drop off (fifo_content f)))"
proof -
  have c: "rptr f < cap f" "0 < cap f" "off \<le> cap f" using wf n by (auto simp: fifo_wf_def)
  define r where "r = (if off \<ge> cap f - rptr f then rptr f + off - cap f else rptr f + off)"
  have r: "r \<le> cap f" "r mod cap f = (rptr f + off) mod cap f"
    using c by (auto simp: r_def mod_if)
  have "av_fifo_generic_peek_at f off n = Some (ring (buffer f) r n)"
    unfolding av_fifo_generic_peek_at_def Let_def r_def [symmetric]
    using fifo_peek_at_loop_value [OF c(2) r(1)] by simp
  also have "ring (buffer f) r n = ring (buffer f) (rptr f + off) n"
    using r ring_mod by metis
  finally show ?thesis using n by (simp add: fifo_content_def ring_drop ring_take)
qed

lemma fifo_peek_spec:
  "fifo_wf f \<Longrightarrow> n \<le> av_fifo_size f \<Longrightarrow> av_fifo_generic_peek f n = Some (take n (fifo_content f))"
  using fifo_peek_loop_value [of "rptr f" "buffer f" "[]" n]
  by (simp add: av_fifo_generic_peek_def fifo_content_def ring_take fifo_wf_def)

lemma fifo_alloc_spec:
  assumes "malloc n = Some b" "length b = n" "0 < n" "n < 2 ^ 31"
  shows "\<exists>f. av_fifo_alloc malloc n = Some f \<and> fifo_wf f \<and> cap f = n \<and> fifo_content f = []"
  using assms length_greater_0_conv [of b]
  by (simp add: av_fifo_alloc_def fifo_alloc_common_def av_fifo_reset_def fifo_wf_def av_fifo_size_def
      fifo_content_def ring_def)

lemma fifo_realloc_spec:
  assumes wf: "fifo_wf f" and m: "malloc n = None \<or> (\<exists>b. malloc n = Some b \<and> length b = n)" and n: "n < 2 ^ 31"
  shows "\<exists>g r. av_fifo_realloc2 malloc f n = Some (g, r) \<and> fifo_wf g \<and> fifo_content g = fifo_content f \<and>
    (if cap f < n \<and> malloc n = None then r = - 12 \<and> g = f else r = 0 \<and> cap g = max n (cap f))"
proof (cases "cap f < n \<and> malloc n \<noteq> None")
  case False
  then show ?thesis using wf by (auto simp: av_fifo_realloc2_def av_fifo_alloc_def fifo_alloc_common_def)
next
  case True
  then obtain b where b: "malloc n = Some b" "length b = n" using m by auto
  define s where "s = av_fifo_size f"
  have s: "s \<le> cap f" "s < n" "s < 2 ^ 32" "0 < n" using wf True n by (auto simp: s_def fifo_wf_def)
  obtain f' where r: "av_fifo_generic_read f s = Some (fifo_content f, f')"
    using fifo_read_spec [OF wf, of s] by (auto simp: s_def)
  define g where "g = \<lparr>buffer = memcpy_at b 0 (fifo_content f), rptr = 0, wptr = s, rndx = 0, wndx = of_nat s\<rparr>"
  have l: "length (memcpy_at b 0 (fifo_content f)) = n" using s b by (simp add: s_def)
  have gs: "av_fifo_size g = s" using s by (simp add: g_def av_fifo_size_def unat_of_nat take_bit_nat_eq_self)
  have c: "cap g = n" "rptr g = 0" "wptr g = s" using l by (simp_all add: g_def)
  have "fifo_wf g" using s n by (simp only: fifo_wf_def gs c) simp
  moreover have "fifo_content g = fifo_content f"
  proof -
    define d where "d = fifo_content f"
    have "0 < length (memcpy_at b 0 d)" "s \<le> length (memcpy_at b 0 d) - 0" using s l by (simp_all only: d_def)
    from ring_slice [OF this] have "fifo_content g = take s (memcpy_at b 0 (fifo_content f))"
      by (simp add: fifo_content_def [of g] gs c d_def) (simp add: g_def)
    then show ?thesis by (simp add: memcpy_at_def s_def)
  qed
  moreover have "av_fifo_realloc2 malloc f n = Some (g, 0)"
    using True b r
    by (simp add: av_fifo_realloc2_def av_fifo_alloc_def fifo_alloc_common_def av_fifo_reset_def
        s_def [symmetric] g_def Let_def)
  moreover have "cap g = n" using l by (simp add: g_def)
  ultimately show ?thesis using True b by auto
qed

lemma av_fifo_peek2_spec:
  assumes "fifo_wf f" "off < av_fifo_size f"
  shows "buffer f ! nat (av_fifo_peek2 f (int off)) = fifo_content f ! off"
proof -
  have "rptr f < cap f" "off < cap f" using assms by (auto simp: fifo_wf_def)
  then have "nat (av_fifo_peek2 f (int off)) = (rptr f + off) mod cap f"
    by (auto simp: av_fifo_peek2_def Let_def mod_if nat_diff_distrib nat_add_distrib)
  then show ?thesis using assms by (simp add: fifo_content_def ring_def)
qed

subsection \<open>The contract of a bounded byte queue\<close>

datatype queue_op = Put "byte list" | Get nat

fun queue_run :: "('f \<Rightarrow> byte list \<Rightarrow> 'f option) \<Rightarrow> ('f \<Rightarrow> nat \<Rightarrow> (byte list \<times> 'f) option) \<Rightarrow>
    queue_op list \<Rightarrow> 'f \<Rightarrow> (byte list \<times> 'f) option" where
  "queue_run put get [] f = Some ([], f)"
| "queue_run put get (Put xs # ops) f =
     (case put f xs of None \<Rightarrow> None | Some f \<Rightarrow> queue_run put get ops f)"
| "queue_run put get (Get n # ops) f =
     (case get f n of None \<Rightarrow> None
      | Some (d, f) \<Rightarrow> (case queue_run put get ops f of None \<Rightarrow> None | Some (d', f) \<Rightarrow> Some (d @ d', f)))"

text \<open>The operations respect the bounds: \<open>n\<close> bytes are stored and \<open>c\<close> is the capacity.\<close>

fun queue_fits :: "nat \<Rightarrow> nat \<Rightarrow> queue_op list \<Rightarrow> bool" where
  "queue_fits c n [] \<longleftrightarrow> True"
| "queue_fits c n (Put xs # ops) \<longleftrightarrow> n + length xs \<le> c \<and> queue_fits c (n + length xs) ops"
| "queue_fits c n (Get k # ops) \<longleftrightarrow> k \<le> n \<and> queue_fits c (n - k) ops"

fun queue_input :: "queue_op list \<Rightarrow> byte list" where
  "queue_input [] = []"
| "queue_input (Put xs # ops) = xs @ queue_input ops"
| "queue_input (Get n # ops) = queue_input ops"

locale byte_queue =
  fixes wf :: "'f \<Rightarrow> bool" and content :: "'f \<Rightarrow> byte list" and capacity :: "'f \<Rightarrow> nat"
    and put :: "'f \<Rightarrow> byte list \<Rightarrow> 'f option" and get :: "'f \<Rightarrow> nat \<Rightarrow> (byte list \<times> 'f) option"
  assumes put_law: "wf f \<Longrightarrow> length (content f) + length xs \<le> capacity f \<Longrightarrow>
      \<exists>g. put f xs = Some g \<and> wf g \<and> content g = content f @ xs \<and> capacity g = capacity f"
    and get_law: "wf f \<Longrightarrow> n \<le> length (content f) \<Longrightarrow>
      \<exists>g. get f n = Some (take n (content f), g) \<and> wf g \<and> content g = drop n (content f) \<and> capacity g = capacity f"
begin

lemma run_in_order:
  "wf f \<Longrightarrow> queue_fits (capacity f) (length (content f)) ops \<Longrightarrow>
     \<exists>out g. queue_run put get ops f = Some (out, g) \<and> wf g \<and> capacity g = capacity f \<and>
       out @ content g = content f @ queue_input ops"
proof (induction ops arbitrary: f)
  case (Cons p ops)
  show ?case
  proof (cases p)
    case (Put xs)
    then obtain g where g: "put f xs = Some g" "wf g" "content g = content f @ xs" "capacity g = capacity f"
      using put_law [OF Cons.prems(1), of xs] Cons.prems(2) by auto
    then show ?thesis using Cons.IH [OF g(2)] Cons.prems(2) Put by simp
  next
    case (Get n)
    then obtain g where g: "get f n = Some (take n (content f), g)" "wf g" "content g = drop n (content f)"
      "capacity g = capacity f"
      using get_law [OF Cons.prems(1), of n] Cons.prems(2) by auto
    have "queue_fits (capacity g) (length (content g)) ops" using Cons.prems(2) Get g by simp
    then obtain out h where h: "queue_run put get ops g = Some (out, h)" "wf h" "capacity h = capacity g"
      "out @ content h = content g @ queue_input ops" using Cons.IH [OF g(2)] by auto
    have "take n (content f) @ out @ content h = content f @ queue_input ops"
      using h(4) g(3) by (metis append.assoc append_take_drop_id)
    then show ?thesis using g h Get by simp
  qed
qed simp

end

abbreviation fifo_put :: "AVFifoBuffer \<Rightarrow> byte list \<Rightarrow> AVFifoBuffer option" where
  "fifo_put f xs \<equiv> map_option fst (av_fifo_generic_write f xs (length xs))"

interpretation fifo: byte_queue fifo_wf fifo_content cap fifo_put av_fifo_generic_read
proof unfold_locales
  fix f and xs :: "byte list" assume "fifo_wf f" "length (fifo_content f) + length xs \<le> cap f"
  then have "length xs \<le> cap f - av_fifo_size f" by simp
  then show "\<exists>g. fifo_put f xs = Some g \<and> fifo_wf g \<and> fifo_content g = fifo_content f @ xs \<and> cap g = cap f"
    using fifo_write_spec [of f "length xs" xs] \<open>fifo_wf f\<close> by auto
next
  fix f n assume "fifo_wf f" "n \<le> length (fifo_content f)"
  then show "\<exists>g. av_fifo_generic_read f n = Some (take n (fifo_content f), g) \<and> fifo_wf g \<and>
      fifo_content g = drop n (fifo_content f) \<and> cap g = cap f"
    using fifo_read_spec [of f n] by auto
qed

subsection \<open>Properties\<close>

text \<open>C34. For every sequence of writes and reads that stays within the bounds the FIFO, started empty,
  returns from each call, delivers the bytes in the order written and still holds the rest; all of
  this however often the positions go around the buffer and the 32-bit indices overflow.\<close>

theorem av_fifo_in_order:
  assumes "fifo_wf f" "queue_fits (cap f) (av_fifo_size f) ops"
  shows "\<exists>out g. queue_run (\<lambda>f xs. map_option fst (av_fifo_generic_write f xs (length xs))) av_fifo_generic_read ops f =
      Some (out, g) \<and> fifo_wf g \<and> cap g = cap f \<and> out @ fifo_content g = fifo_content f @ queue_input ops"
  using fifo.run_in_order [OF assms(1)] assms(2) by simp

definition demo_fifo :: AVFifoBuffer where
  "demo_fifo = \<lparr>buffer = [0, 0, 0], rptr = 2, wptr = 2, rndx = - 1, wndx = - 1\<rparr>"

theorem av_fifo_in_order_witness:
  "\<exists>out g. queue_run (\<lambda>f xs. map_option fst (av_fifo_generic_write f xs (length xs))) av_fifo_generic_read
      [Put [1, 2, 3], Get 2, Put [4], Get 1] demo_fifo = Some (out, g) \<and> out @ fifo_content g = [1, 2, 3, 4]"
proof -
  have d: "av_fifo_size demo_fifo = 0" by (simp add: demo_fifo_def av_fifo_size_def)
  then have "fifo_wf demo_fifo" by (simp add: fifo_wf_def) (simp add: demo_fifo_def)
  moreover have "queue_fits (cap demo_fifo) (av_fifo_size demo_fifo) [Put [1, 2, 3], Get 2, Put [4], Get 1]"
    by (simp add: d) (simp add: demo_fifo_def)
  moreover have "fifo_content demo_fifo = []" by (simp add: fifo_content_def d ring_def)
  ultimately show ?thesis using av_fifo_in_order [of demo_fifo "[Put [1, 2, 3], Get 2, Put [4], Get 1]"] by auto
qed

text \<open>Peeking returns the stored bytes without removing them, draining removes them from the
  front, and growing the buffer keeps the content; when the allocation fails the FIFO is unchanged
  and the call returns \<open>AVERROR(ENOMEM)\<close>.\<close>

theorem av_fifo_peek_drain_realloc:
  assumes "fifo_wf f" "off + n \<le> av_fifo_size f" "m < 2 ^ 31"
    and "malloc m = None \<or> (\<exists>b. malloc m = Some b \<and> length b = m)"
  shows "av_fifo_generic_peek_at f off n = Some (take n (drop off (fifo_content f))) \<and>
    av_fifo_generic_peek f n = Some (take n (fifo_content f)) \<and>
    fifo_wf (av_fifo_drain f n) \<and> fifo_content (av_fifo_drain f n) = drop n (fifo_content f) \<and>
    (0 < n \<longrightarrow> buffer f ! nat (av_fifo_peek2 f (int off)) = fifo_content f ! off) \<and>
    (\<exists>g r. av_fifo_realloc2 malloc f m = Some (g, r) \<and> fifo_wf g \<and> fifo_content g = fifo_content f \<and>
      (if cap f < m \<and> malloc m = None then r = - 12 \<and> g = f else r = 0 \<and> cap g = max m (cap f)))"
  using fifo_peek_at_spec [OF assms(1,2)] fifo_peek_spec [OF assms(1), of n] fifo_drain_spec [OF assms(1), of n]
    av_fifo_peek2_spec [OF assms(1), of off] fifo_realloc_spec [where malloc = malloc and n = m, OF assms(1,4,3)] assms(2)
  by auto

theorem av_fifo_peek_drain_realloc_witness:
  "av_fifo_generic_peek \<lparr>buffer = [7, 8, 9], rptr = 2, wptr = 1, rndx = 5, wndx = 7\<rparr> 2 = Some [9, 7]"
proof -
  define f where "f = \<lparr>buffer = [7, 8, 9], rptr = 2, wptr = 1, rndx = 5, wndx = 7 :: 32 word\<rparr>"
  have s: "av_fifo_size f = 2" by (simp add: f_def av_fifo_size_def)
  then have w: "fifo_wf f" by (simp add: fifo_wf_def) (simp add: f_def)
  have "fifo_content f = [9, 7]" by (simp add: fifo_content_def s ring_def upt_rec) (simp add: f_def)
  then show ?thesis
    using av_fifo_peek_drain_realloc [OF w, of 0 2 1 "\<lambda>_. None"] s unfolding f_def [symmetric] by simp
qed

end
