(* ===== verification/Hashbuf.thy ===== *)
theory Hashbuf
  imports Bytes "HOL-Library.While_Combinator"
begin

section \<open>Hashes over a buffered stream of blocks\<close>

text \<open>
  The hash functions of \<open>libavutil\<close> (\<open>md5.c\<close>, \<open>sha.c\<close>, \<open>sha512.c\<close>, \<open>ripemd.c\<close>) keep a buffer of one block
  and a count of the bytes seen, feed full blocks to a transformation and pad the message at the end.
  This theory holds the reference (\<open>absorb\<close>, \<open>remainder_of\<close>, \<open>padded\<close>), the update function that \<open>sha.c\<close>,
  \<open>sha512.c\<close> and \<open>ripemd.c\<close> share up to the block size, and the locale \<open>block_hash\<close>: what a hash whose
  update refines the reference computes, in whatever pieces the message arrives.
\<close>

subsection \<open>Reference\<close>

function absorb :: "('s \<Rightarrow> byte list \<Rightarrow> 's) \<Rightarrow> nat \<Rightarrow> 's \<Rightarrow> byte list \<Rightarrow> 's" where
  "absorb f bs s m = (if bs = 0 \<or> length m < bs then s else absorb f bs (f s (take bs m)) (drop bs m))"
  by pat_completeness auto
termination
  by (relation "measure (\<lambda>(f, bs, s, m). length m)") auto

declare absorb.simps [simp del]

definition remainder_of :: "nat \<Rightarrow> byte list \<Rightarrow> byte list" where
  "remainder_of bs m = drop (length m div bs * bs) m"

lemma absorb_short [simp]: "length m < bs \<Longrightarrow> absorb f bs s m = s"
  by (subst absorb.simps) simp

lemma remainder_short [simp]: "length m < bs \<Longrightarrow> remainder_of bs m = m"
  by (simp add: remainder_of_def)

lemma absorb_block: "0 < bs \<Longrightarrow> length b = bs \<Longrightarrow> absorb f bs s (b @ m) = absorb f bs (f s b) m"
  by (subst absorb.simps) simp

lemma remainder_block: "0 < bs \<Longrightarrow> length b = bs \<Longrightarrow> remainder_of bs (b @ m) = remainder_of bs m"
proof -
  assume b: "0 < bs" "length b = bs"
  have "length (b @ m) div bs = Suc (length m div bs)" using b by (simp add: div_add_self1)
  then show ?thesis using b unfolding remainder_of_def by simp
qed

lemma length_remainder: "0 < bs \<Longrightarrow> length (remainder_of bs m) = length m mod bs"
  by (simp add: remainder_of_def minus_div_mult_eq_mod)

lemma length_remainder_less: "0 < bs \<Longrightarrow> length (remainder_of bs m) < bs"
  by (simp add: length_remainder)

text \<open>A message may be absorbed in two pieces, the remainder of the first put before the second.\<close>

lemma absorb_append:
  assumes "0 < bs"
  shows "absorb f bs s (a @ b) = absorb f bs (absorb f bs s a) (remainder_of bs a @ b) \<and>
    remainder_of bs (a @ b) = remainder_of bs (remainder_of bs a @ b)"
proof (induction "length a" arbitrary: a s rule: less_induct)
  case less
  show ?case
  proof (cases "length a < bs")
    case True
    then show ?thesis by simp
  next
    case False
    define p q where "p = take bs a" and "q = drop bs a"
    have a: "a = p @ q" "length p = bs" "length q < length a" using False assms by (auto simp: p_def q_def)
    show ?thesis
      using less [OF a(3), of "f s p"] by (simp add: a(1,2) absorb_block remainder_block assms)
  qed
qed

text \<open>Words after the state that the transformation leaves alone stay alone.\<close>

lemma absorb_prefix:
  assumes "\<And>s b. length s = n \<Longrightarrow> f (s @ x) b = f s b @ x" "\<And>s b. length s = n \<Longrightarrow> length (f s b) = n" "length s = n"
  shows "absorb f bs (s @ x) m = absorb f bs s m @ x \<and> length (absorb f bs s m) = n"
  using assms(3)
proof (induction "length m" arbitrary: m s rule: less_induct)
  case less
  show ?case
  proof (cases "bs = 0 \<or> length m < bs")
    case True
    then have "absorb f bs s m = s" for s by (subst absorb.simps) simp
    then show ?thesis using less(2) by simp
  next
    case False
    then have u: "absorb f bs s m = absorb f bs (f s (take bs m)) (drop bs m)" for s by (subst absorb.simps) simp
    show ?thesis
      unfolding u [of s] u [of "s @ x"] assms(1) [OF less(2)]
      by (rule less(1)) (use False assms(2) [OF less(2)] in auto)
  qed
qed

subsection \<open>The shared update function\<close>

text \<open>The macro \<open>rol\<close> of \<open>sha.c\<close> and \<open>ripemd.c\<close>.\<close>

definition rol :: "32 word \<Rightarrow> nat \<Rightarrow> 32 word" where
  "rol v n = push_bit n v OR drop_bit (32 - n) v"

text \<open>\<open>av_sha_update\<close>, \<open>av_sha512_update\<close> and \<open>av_ripemd_update\<close> for a block of \<open>bs\<close> bytes: the number of bytes seen, the
  buffer and the state.  The length and the offsets are \<open>unsigned int\<close>, so that the sums in the conditions wrap.  A length
  so close to \<open>2 ^ 32\<close> that they do makes the code read behind the data or write behind the buffer; then the result is
  \<open>undefined\<close>.  The lemmas are about the lengths that fit, up to \<open>2 ^ 32 - bs\<close>.\<close>

record 's hash_ctx =
  count_of :: "64 word"
  buffer_of :: "byte list"
  state_of :: 's

definition memcpy_to :: "byte list \<Rightarrow> nat \<Rightarrow> byte list \<Rightarrow> byte list" where
  "memcpy_to dst j src = take j dst @ src @ drop (j + length src) dst"

definition uint_sum :: "nat \<Rightarrow> nat \<Rightarrow> nat" where
  "uint_sum a b = (a + b) mod 2 ^ 32"

definition piece_fits :: "nat \<Rightarrow> byte list \<Rightarrow> bool" where
  "piece_fits bs xs \<longleftrightarrow> length xs \<le> 2 ^ 32 - bs"

text \<open>The loop over the full blocks; \<open>None\<close> when a block is not within the data.\<close>

function transform_blocks :: "('s \<Rightarrow> byte list \<Rightarrow> 's) \<Rightarrow> nat \<Rightarrow> byte list \<Rightarrow> nat \<Rightarrow> 's \<Rightarrow> ('s \<times> nat) option" where
  "transform_blocks f bs data i s =
     (if uint_sum i (bs - 1) < length data then
        if i + bs \<le> length data \<and> 0 < bs then transform_blocks f bs data (i + bs) (f s (take bs (drop i data))) else None
      else Some (s, i))"
  by pat_completeness auto
termination
  by (relation "measure (\<lambda>(f, bs, data, i, s). length data - i)") auto

declare transform_blocks.simps [simp del]

definition hash_update :: "('s \<Rightarrow> byte list \<Rightarrow> 's) \<Rightarrow> nat \<Rightarrow> ('s, 'm) hash_ctx_scheme \<Rightarrow> byte list \<Rightarrow>
    ('s, 'm) hash_ctx_scheme" where
  "hash_update f bs ctx data =
     (let j = unat (count_of ctx) mod bs;
          ctx = ctx\<lparr>count_of := count_of ctx + of_nat (length data)\<rparr>
      in if uint_sum j (length data) > bs - 1
         then
           let i = bs - j;
               buf = memcpy_to (buffer_of ctx) j (take i data)
           in case transform_blocks f bs data i (f (state_of ctx) buf) of
                None \<Rightarrow> undefined
              | Some (s, i) \<Rightarrow> ctx\<lparr>buffer_of := memcpy_to buf 0 (drop i data), state_of := s\<rparr>
         else if j + length data < bs then ctx\<lparr>buffer_of := memcpy_to (buffer_of ctx) j data\<rparr> else undefined)"

text \<open>The bytes of the buffer that count.\<close>

definition pending_of :: "nat \<Rightarrow> ('s, 'm) hash_ctx_scheme \<Rightarrow> byte list" where
  "pending_of bs ctx = take (unat (count_of ctx) mod bs) (buffer_of ctx)"

lemma uint_sum_small: "a + b < 2 ^ 32 \<Longrightarrow> uint_sum a b = a + b"
  by (simp add: uint_sum_def)

lemma fits_sums:
  assumes "piece_fits bs data" "0 < bs" "bs \<le> 2 ^ 32"
  shows "i \<le> length data \<Longrightarrow> uint_sum i (bs - 1) = i + (bs - 1)" "j < bs \<Longrightarrow> uint_sum j (length data) = j + length data"
proof -
  assume "i \<le> length data"
  then have "i + (bs - 1) < 2 ^ 32" using assms unfolding piece_fits_def by linarith
  then show "uint_sum i (bs - 1) = i + (bs - 1)" by (rule uint_sum_small)
next
  assume "j < bs"
  then have "j + length data < 2 ^ 32" using assms unfolding piece_fits_def by linarith
  then show "uint_sum j (length data) = j + length data" by (rule uint_sum_small)
qed

lemma transform_blocks_value:
  "0 < bs \<Longrightarrow> bs \<le> 2 ^ 32 \<Longrightarrow> piece_fits bs data \<Longrightarrow> i \<le> length data \<Longrightarrow>
   \<exists>k. transform_blocks f bs data i s = Some (absorb f bs s (drop i data), k) \<and> drop k data = remainder_of bs (drop i data)"
proof (induction f bs data i s rule: transform_blocks.induct)
  case (1 f bs data i s)
  note sum = fits_sums(1) [OF 1(4,2,3,5)]
  show ?case
  proof (cases "i + (bs - 1) < length data")
    case True
    define b where "b = take bs (drop i data)"
    have d: "drop i data = b @ drop (i + bs) data" "length b = bs"
      using True by (simp_all add: b_def) (metis append_take_drop_id drop_drop add.commute)
    have le: "i + bs \<le> length data" using True by linarith
    have lt: "uint_sum i (bs - 1) < length data" using True unfolding sum .
    obtain k where "transform_blocks f bs data (i + bs) (f s b) = Some (absorb f bs (f s b) (drop (i + bs) data), k)"
      "drop k data = remainder_of bs (drop (i + bs) data)"
      using 1(1) [OF lt conjI [OF le 1(2)] 1(2,3,4) le] unfolding b_def by blast
    moreover have "transform_blocks f bs data i s = transform_blocks f bs data (i + bs) (f s b)"
      using lt le 1(2) unfolding b_def by (subst transform_blocks.simps) simp
    ultimately show ?thesis unfolding d(1) absorb_block [OF 1(2) d(2)] remainder_block [OF 1(2) d(2)] by simp
  next
    case False
    then have "length (drop i data) < bs" using 1(2,5) by simp
    moreover have "transform_blocks f bs data i s = Some (s, i)" using False sum by (subst transform_blocks.simps) simp
    ultimately show ?thesis by simp
  qed
qed

lemma length_memcpy_to [simp]: "j + length src \<le> length dst \<Longrightarrow> length (memcpy_to dst j src) = length dst"
  by (simp add: memcpy_to_def)

lemma unat_and_mask: "unat (w AND mask k :: 64 word) = unat w mod 2 ^ k"
  unfolding take_bit_eq_mask [symmetric] unsigned_take_bit_eq by (rule take_bit_eq_mod)

lemma unat_and_63: "unat (w AND 63 :: 64 word) = unat w mod 64"
  using unat_and_mask [of w 6] by (simp add: mask_eq_exp_minus_1)

lemma unat_add_mod:
  assumes "bs dvd 2 ^ 64"
  shows "unat (c + of_nat n :: 64 word) mod bs = (unat c mod bs + n) mod bs"
  using assms by (simp add: unat_word_ariths unat_of_nat mod_mod_cancel mod_simps)

lemma hash_update_spec:
  assumes bs: "0 < bs" "bs dvd 2 ^ 64" "bs \<le> 2 ^ 32" and len: "length (buffer_of ctx) = bs" and fits: "piece_fits bs data"
  shows "length (buffer_of (hash_update f bs ctx data)) = bs \<and>
    count_of (hash_update f bs ctx data) = count_of ctx + of_nat (length data) \<and>
    state_of (hash_update f bs ctx data) = absorb f bs (state_of ctx) (pending_of bs ctx @ data) \<and>
    pending_of bs (hash_update f bs ctx data) = remainder_of bs (pending_of bs ctx @ data)"
proof -
  define j where "j = unat (count_of ctx) mod bs"
  define pend where "pend = pending_of bs ctx"
  have j: "j < bs" using bs by (simp add: j_def)
  have pend: "pend = take j (buffer_of ctx)" "length pend = j" using j len by (simp_all add: pend_def pending_of_def j_def)
  have c: "unat (count_of ctx + of_nat (length data)) mod bs = (j + length data) mod bs"
    unfolding unat_add_mod [OF bs(2)] j_def ..
  have sum: "uint_sum j (length data) = j + length data" by (rule fits_sums(2) [OF fits bs(1,3) j])
  show ?thesis
  proof (cases "j + length data > bs - 1")
    case True
    define i where "i = bs - j"
    define buf where "buf = memcpy_to (buffer_of ctx) j (take i data)"
    have i: "length (take i data) = i" "j + i = bs" using True j by (simp_all add: i_def)
    have buf: "buf = pend @ take i data" "length buf = bs" using i len pend by (simp_all add: buf_def memcpy_to_def)
    have "i \<le> length data" using i(1) by simp
    then obtain k where t: "transform_blocks f bs data i (f (state_of ctx) buf) = Some (absorb f bs (f (state_of ctx) buf) (drop i data), k)"
      "drop k data = remainder_of bs (drop i data)"
      using transform_blocks_value [OF bs(1,3) fits, of i f "f (state_of ctx) buf"] by blast
    define s where "s = absorb f bs (f (state_of ctx) buf) (drop i data)"
    note sk = s_def t(2)
    have m: "pend @ data = buf @ drop i data" by (simp add: buf)
    have rem: "drop k data = remainder_of bs (pend @ data)" "s = absorb f bs (state_of ctx) (pend @ data)"
      unfolding m sk by (simp_all add: absorb_block remainder_block bs buf(2))
    have lk: "length (drop k data) = (j + length data) mod bs"
      unfolding rem by (simp add: length_remainder bs pend(2))
    then have lk2: "length (drop k data) < bs" using bs(1) by simp
    have u: "hash_update f bs ctx data = ctx\<lparr>count_of := count_of ctx + of_nat (length data),
        buffer_of := memcpy_to buf 0 (drop k data), state_of := s\<rparr>"
      using True t(1) by (simp add: hash_update_def Let_def j_def [symmetric] i_def [symmetric] buf_def [symmetric] sum s_def)
    have "take (length (drop k data)) (memcpy_to buf 0 (drop k data)) = drop k data" by (simp add: memcpy_to_def)
    then have "pending_of bs (hash_update f bs ctx data) = drop k data" unfolding pending_of_def u by (simp add: c lk [symmetric] del: length_drop)
    then show ?thesis using lk2 by (simp add: u rem buf(2) pend_def [symmetric])
  next
    case False
    then have l: "j + length data < bs" using bs by simp
    have u: "hash_update f bs ctx data = ctx\<lparr>count_of := count_of ctx + of_nat (length data),
        buffer_of := memcpy_to (buffer_of ctx) j data\<rparr>"
      using False l by (simp add: hash_update_def Let_def j_def [symmetric] sum)
    have "take (j + length data) (memcpy_to (buffer_of ctx) j data) = pend @ data"
      using l len by (simp add: memcpy_to_def pend)
    then have "pending_of bs (hash_update f bs ctx data) = pend @ data" unfolding pending_of_def u using l by (simp add: c)
    then show ?thesis using l len pend(2) by (simp add: u pend_def [symmetric])
  qed
qed

subsection \<open>Hashes that refine the reference\<close>

text \<open>The bytes before the length field: one bit, then zeros up to \<open>padto\<close> modulo the block size.\<close>

definition zeros_to :: "nat \<Rightarrow> nat \<Rightarrow> nat \<Rightarrow> nat" where
  "zeros_to bs padto n = (padto + bs - n mod bs) mod bs"

definition padding :: "nat \<Rightarrow> nat \<Rightarrow> nat \<Rightarrow> byte list" where
  "padding bs padto n = 0x80 # replicate (zeros_to bs padto (n + 1)) 0"

lemma zeros_to_value:
  "padto < bs \<Longrightarrow> zeros_to bs padto n = (if n mod bs \<le> padto then padto - n mod bs else padto + bs - n mod bs)"
proof -
  assume p: "padto < bs"
  then have r: "n mod bs < bs" by (intro mod_less_divisor) simp
  show ?thesis
  proof (cases "n mod bs \<le> padto")
    case True
    then have "(padto + bs - n mod bs) mod bs = ((padto - n mod bs) + bs) mod bs" by simp
    also have "\<dots> = padto - n mod bs" using p by (simp only: mod_add_self2) simp
    finally show ?thesis using True by (simp add: zeros_to_def)
  next
    case False
    then show ?thesis using p r by (simp add: zeros_to_def)
  qed
qed

lemma zeros_to_0: "padto < bs \<Longrightarrow> zeros_to bs padto n = 0 \<longleftrightarrow> n mod bs = padto"
proof -
  assume p: "padto < bs"
  then have r: "n mod bs < bs" by (intro mod_less_divisor) simp
  define x where "x = n mod bs"
  show ?thesis using p r unfolding zeros_to_value [OF p] x_def [symmetric] by auto
qed

lemma zeros_to_step: "padto < bs \<Longrightarrow> n mod bs \<noteq> padto \<Longrightarrow> zeros_to bs padto n = Suc (zeros_to bs padto (Suc n))"
proof -
  assume p: "padto < bs" "n mod bs \<noteq> padto"
  then have r: "n mod bs < bs" by (intro mod_less_divisor) simp
  define x where "x = n mod bs"
  have "Suc n mod bs = (if Suc x = bs then 0 else Suc x)" using p by (simp add: mod_Suc x_def)
  then show ?thesis using p r unfolding zeros_to_value [OF p(1)] x_def [symmetric] by auto
qed

lemma length_padding: "padto < bs \<Longrightarrow> (n + length (padding bs padto n)) mod bs = padto"
proof -
  assume p: "padto < bs"
  have "(m + zeros_to bs padto m) mod bs = padto" for m
  proof -
    have "(m + zeros_to bs padto m) mod bs = (m mod bs + (padto + bs - m mod bs)) mod bs"
      by (simp add: zeros_to_def mod_simps)
    also have "m mod bs < bs" using p by (intro mod_less_divisor) simp
    then have "m mod bs + (padto + bs - m mod bs) = padto + bs" by simp
    finally show ?thesis using p by simp
  qed
  from this [of "n + 1"] show ?thesis by (simp add: padding_def)
qed

locale block_hash =
  fixes upd :: "'c \<Rightarrow> byte list \<Rightarrow> 'c" and st :: "'c \<Rightarrow> 's" and pend :: "'c \<Rightarrow> byte list" and cnt :: "'c \<Rightarrow> 64 word"
    and ok :: "'c \<Rightarrow> bool" and f :: "'s \<Rightarrow> byte list \<Rightarrow> 's" and bs :: nat and fits :: "byte list \<Rightarrow> bool"
  assumes bs: "0 < bs" "bs dvd 2 ^ 64"
    and fits_short: "length xs \<le> 8 \<Longrightarrow> fits xs"
    and upd_ok: "ok c \<Longrightarrow> fits xs \<Longrightarrow> ok (upd c xs)"
    and upd_cnt: "ok c \<Longrightarrow> fits xs \<Longrightarrow> cnt (upd c xs) = cnt c + of_nat (length xs)"
    and upd_st: "ok c \<Longrightarrow> fits xs \<Longrightarrow> st (upd c xs) = absorb f bs (st c) (pend c @ xs)"
    and upd_pend: "ok c \<Longrightarrow> fits xs \<Longrightarrow> pend (upd c xs) = remainder_of bs (pend c @ xs)"
begin

text \<open>The context \<open>c\<close> has seen the message \<open>m\<close>, starting from the state \<open>s\<close>.\<close>

definition seen :: "'s \<Rightarrow> byte list \<Rightarrow> 'c \<Rightarrow> bool" where
  "seen s m c \<longleftrightarrow> ok c \<and> st c = absorb f bs s m \<and> pend c = remainder_of bs m \<and> cnt c = of_nat (length m)"

lemma seen_upd: "seen s m c \<Longrightarrow> fits xs \<Longrightarrow> seen s (m @ xs) (upd c xs)"
  using absorb_append [OF bs(1), of f s m xs] by (simp add: seen_def upd_ok upd_cnt upd_st upd_pend)

lemma seen_chunks: "seen s m c \<Longrightarrow> \<forall>xs \<in> set chunks. fits xs \<Longrightarrow> seen s (m @ concat chunks) (fold (\<lambda>xs c. upd c xs) chunks c)"
proof (induction chunks arbitrary: m c)
  case (Cons xs chunks)
  show ?case using Cons.IH [OF seen_upd [OF Cons.prems(1), of xs]] Cons.prems(2) by simp
qed simp

lemma seen_count: "seen s m c \<Longrightarrow> unat (cnt c) mod bs = length m mod bs"
  using unat_add_mod [OF bs(2), of 0 "length m"] by (simp add: seen_def)

lemma zeros_loop:
  assumes "seen s m c" "padto < bs"
  shows "\<exists>c'. while_option (\<lambda>c. unat (cnt c) mod bs \<noteq> padto) (\<lambda>c. upd c [0]) c = Some c' \<and>
    seen s (m @ replicate (zeros_to bs padto (length m)) 0) c'"
  using assms(1)
proof (induction "zeros_to bs padto (length m)" arbitrary: m c)
  case 0
  then have "length m mod bs = padto" using assms(2) by (simp add: zeros_to_0)
  then show ?case using 0 by (subst while_option_unfold) (simp add: seen_count [OF 0(2)])
next
  case (Suc n)
  have ne: "length m mod bs \<noteq> padto" using Suc(2) assms(2) by (metis zeros_to_0 nat.distinct(1))
  have z: "zeros_to bs padto (length m) = Suc (zeros_to bs padto (length (m @ [0 :: byte])))"
    using zeros_to_step [OF assms(2) ne] by simp
  have next_seen: "seen s (m @ [0]) (upd c [0])" by (rule seen_upd [OF Suc(3)]) (simp add: fits_short)
  have "n = zeros_to bs padto (length (m @ [0 :: byte]))" using Suc(2) z by simp
  from Suc(1) [OF this next_seen] show ?case
    using ne z by (subst while_option_unfold) (simp add: seen_count [OF Suc(3)])
qed

text \<open>One bit, the zeros and the eight bytes of the length: everything has been absorbed.\<close>

lemma pad_seen:
  assumes "seen s m c" "padto < bs"
  shows "seen s (m @ padding bs padto (length m)) (while (\<lambda>c. unat (cnt c) mod bs \<noteq> padto) (\<lambda>c. upd c [0]) (upd c [0x80]))"
proof -
  obtain c' where "while_option (\<lambda>c. unat (cnt c) mod bs \<noteq> padto) (\<lambda>c. upd c [0]) (upd c [0x80]) = Some c'"
    "seen s ((m @ [0x80]) @ replicate (zeros_to bs padto (length (m @ [0x80 :: byte]))) 0) c'"
    using zeros_loop [OF seen_upd [OF assms(1), of "[0x80]"] assms(2)] by (auto simp: fits_short)
  then show ?thesis by (simp add: while_def padding_def)
qed

text \<open>The state at the end, with the bytes \<open>tail\<close> after the padding.\<close>

lemma final_state:
  assumes "seen s m c" "padto < bs" "length tail \<le> 8"
  shows "ok (upd (while (\<lambda>c. unat (cnt c) mod bs \<noteq> padto) (\<lambda>c. upd c [0]) (upd c [0x80])) tail) \<and>
    st (upd (while (\<lambda>c. unat (cnt c) mod bs \<noteq> padto) (\<lambda>c. upd c [0]) (upd c [0x80])) tail) =
      absorb f bs s (m @ padding bs padto (length m) @ tail)"
  using seen_upd [OF pad_seen [OF assms(1,2)] fits_short [OF assms(3)]] by (simp add: seen_def)

lemma seen_bits: "seen s m c \<Longrightarrow> push_bit 3 (cnt c) = of_nat (8 * length m)"
  by (simp add: seen_def push_bit_eq_mult)

lemma chunks_seen:
  "ok c \<Longrightarrow> cnt c = 0 \<Longrightarrow> pend c = [] \<Longrightarrow> \<forall>xs \<in> set chunks. fits xs \<Longrightarrow> seen (st c) (concat chunks) (fold (\<lambda>xs c. upd c xs) chunks c)"
  using seen_chunks [of "st c" "[]" c chunks] bs(1) by (simp add: seen_def)

end

text \<open>The shared update function is one.\<close>

definition buffer_ok :: "nat \<Rightarrow> ('s, 'm) hash_ctx_scheme \<Rightarrow> bool" where
  "buffer_ok bs ctx \<longleftrightarrow> length (buffer_of ctx) = bs"

lemma hash_update_laws:
  assumes "0 < bs" "bs dvd 2 ^ 64" "bs \<le> 2 ^ 32" "buffer_ok bs ctx" "piece_fits bs xs"
  shows "buffer_ok bs (hash_update f bs ctx xs)" "count_of (hash_update f bs ctx xs) = count_of ctx + of_nat (length xs)"
    "state_of (hash_update f bs ctx xs) = absorb f bs (state_of ctx) (pending_of bs ctx @ xs)"
    "pending_of bs (hash_update f bs ctx xs) = remainder_of bs (pending_of bs ctx @ xs)"
  using hash_update_spec [OF assms(1-3) assms(4) [unfolded buffer_ok_def] assms(5), of f] unfolding buffer_ok_def by blast+

text \<open>Fields added to the context are left alone.\<close>

lemma hash_update_form:
  assumes "0 < bs" "bs \<le> 2 ^ 32" "piece_fits bs xs"
  shows "\<exists>c b s. hash_update f bs ctx xs = ctx\<lparr>count_of := c, buffer_of := b, state_of := s\<rparr>"
proof -
  define j where "j = unat (count_of ctx) mod bs"
  have j: "j < bs" using assms(1) by (simp add: j_def)
  have sum: "uint_sum j (length xs) = j + length xs" by (rule fits_sums(2) [OF assms(3,1,2) j])
  show ?thesis
  proof (cases "j + length xs > bs - 1")
    case True
    define buf where "buf = memcpy_to (buffer_of ctx) j (take (bs - j) xs)"
    have "bs - j \<le> length xs" using True by linarith
    from transform_blocks_value [OF assms this, of f "f (state_of ctx) buf"]
    obtain s k where t: "transform_blocks f bs xs (bs - j) (f (state_of ctx) buf) = Some (s, k)" by (elim exE conjE) (rule that)
    have "hash_update f bs ctx xs = ctx\<lparr>count_of := count_of ctx + of_nat (length xs),
        buffer_of := memcpy_to buf 0 (drop k xs), state_of := s\<rparr>"
      using True t by (simp add: hash_update_def Let_def j_def [symmetric] buf_def [symmetric] sum)
    then show ?thesis by blast
  next
    case False
    then have "hash_update f bs ctx xs = ctx\<lparr>count_of := count_of ctx + of_nat (length xs),
        buffer_of := memcpy_to (buffer_of ctx) j xs\<rparr>"
      using assms(1) by (simp add: hash_update_def Let_def j_def [symmetric] sum)
    also have "\<dots> = ctx\<lparr>count_of := count_of ctx + of_nat (length xs),
        buffer_of := memcpy_to (buffer_of ctx) j xs, state_of := state_of ctx\<rparr>"
      by (cases ctx) simp
    finally show ?thesis by blast
  qed
qed

lemma piece_fits_short: "length xs \<le> 128 \<Longrightarrow> bs \<le> 128 \<Longrightarrow> piece_fits bs xs"
  by (simp add: piece_fits_def)

end
