(* ===== verification/Md5.thy ===== *)
theory Md5
  imports Hashbuf
begin

section \<open>MD5: \<open>libavutil/md5.c\<close>\<close>

text \<open>
  The compression function, in the loop form (\<open>CONFIG_SMALL\<close>) and unrolled as it is compiled otherwise, and
  the context with its update and final functions.  A context holds the length, the block and the state
  \<open>ABCD\<close>, whose words are stored in reverse order.
\<close>

record AVMD5 =
  len :: "64 word"
  block :: "byte list"
  ABCD :: "32 word list"

definition S :: "nat list list" where
  "S = [[7, 12, 17, 22], [5, 9, 14, 20], [4, 11, 16, 23], [6, 10, 15, 21]]"

definition T :: "32 word list" where
  "T =
    [0xd76aa478, 0xe8c7b756, 0x242070db, 0xc1bdceee, 0xf57c0faf, 0x4787c62a, 0xa8304613, 0xfd469501,
     0x698098d8, 0x8b44f7af, 0xffff5bb1, 0x895cd7be, 0x6b901122, 0xfd987193, 0xa679438e, 0x49b40821,
     0xf61e2562, 0xc040b340, 0x265e5a51, 0xe9b6c7aa, 0xd62f105d, 0x02441453, 0xd8a1e681, 0xe7d3fbc8,
     0x21e1cde6, 0xc33707d6, 0xf4d50d87, 0x455a14ed, 0xa9e3e905, 0xfcefa3f8, 0x676f02d9, 0x8d2a4c8a,
     0xfffa3942, 0x8771f681, 0x6d9d6122, 0xfde5380c, 0xa4beea44, 0x4bdecfa9, 0xf6bb4b60, 0xbebfbc70,
     0x289b7ec6, 0xeaa127fa, 0xd4ef3085, 0x04881d05, 0xd9d4d039, 0xe6db99e5, 0x1fa27cf8, 0xc4ac5665,
     0xf4292244, 0x432aff97, 0xab9423a7, 0xfc93a039, 0x655b59c3, 0x8f0ccc92, 0xffeff47d, 0x85845dd1,
     0x6fa87e4f, 0xfe2ce6e0, 0xa3014314, 0x4e0811a1, 0xf7537e82, 0xbd3af235, 0x2ad7d2bb, 0xeb86d391]"

text \<open>\<open>CORE(i, a, b, c, d)\<close>: the new value of \<open>a\<close>; \<open>X\<close> is the block.\<close>

definition CORE :: "byte list \<Rightarrow> nat \<Rightarrow> 32 word \<Rightarrow> 32 word \<Rightarrow> 32 word \<Rightarrow> 32 word \<Rightarrow> 32 word" where
  "CORE X i a b c d =
     (let t = S ! (i div 16) ! (i mod 4);
          a = a + T ! i;
          a = (if i < 32
               then if i < 16
                    then a + ((d XOR (b AND (c XOR d))) + AV_RL32 (drop (4 * (i mod 16)) X))
                    else a + (((d AND b) OR (NOT d AND c)) + AV_RL32 (drop (4 * ((1 + 5 * i) mod 16)) X))
               else if i < 48
                    then a + ((b XOR c XOR d) + AV_RL32 (drop (4 * ((5 + 3 * i) mod 16)) X))
                    else a + ((c XOR (b OR NOT d)) + AV_RL32 (drop (4 * ((7 * i) mod 16)) X)))
      in b + (push_bit t a OR drop_bit (32 - t) a))"

type_synonym quad = "32 word \<times> 32 word \<times> 32 word \<times> 32 word"

definition CORE2 :: "byte list \<Rightarrow> nat \<Rightarrow> quad \<Rightarrow> quad" where
  "CORE2 X i = (\<lambda>(a, b, c, d).
     let a = CORE X i a b c d;
         d = CORE X (i + 1) d a b c;
         c = CORE X (i + 2) c d a b;
         b = CORE X (i + 3) b c d a
     in (a, b, c, d))"

definition CORE4 :: "byte list \<Rightarrow> nat \<Rightarrow> quad \<Rightarrow> quad" where
  "CORE4 X i q = CORE2 X (i + 12) (CORE2 X (i + 8) (CORE2 X (i + 4) (CORE2 X i q)))"

text \<open>The loop of \<open>CONFIG_SMALL\<close>: one turn.\<close>

definition md5_small_step :: "byte list \<Rightarrow> nat \<Rightarrow> quad \<Rightarrow> quad" where
  "md5_small_step X i = (\<lambda>(a, b, c, d). let a = CORE X i a b c d in (d, a, b, c))"

definition md5_rounds :: "byte list \<Rightarrow> quad \<Rightarrow> quad" where
  "md5_rounds X q = CORE4 X 48 (CORE4 X 32 (CORE4 X 16 (CORE4 X 0 q)))"

definition md5_rounds_small :: "byte list \<Rightarrow> quad \<Rightarrow> quad" where
  "md5_rounds_small X q = fold (md5_small_step X) [0..<64] q"

text \<open>\<open>body\<close> for one block, and for \<open>nblocks\<close> of them.\<close>

definition md5_block :: "32 word list \<Rightarrow> byte list \<Rightarrow> 32 word list" where
  "md5_block st X =
     (let (a, b, c, d) = md5_rounds X (st ! 3, st ! 2, st ! 1, st ! 0)
      in [st ! 0 + d, st ! 1 + c, st ! 2 + b, st ! 3 + a])"

fun body :: "32 word list \<Rightarrow> byte list \<Rightarrow> nat \<Rightarrow> 32 word list" where
  "body st src 0 = st"
| "body st src (Suc nblocks) = body (md5_block st (take 64 src)) (drop 64 src) nblocks"

definition av_md5_init :: "AVMD5 \<Rightarrow> AVMD5" where
  "av_md5_init ctx = ctx\<lparr>len := 0, ABCD := [0x10325476, 0x98badcfe, 0xefcdab89, 0x67452301]\<rparr>"

definition av_md5_update :: "AVMD5 \<Rightarrow> byte list \<Rightarrow> AVMD5" where
  "av_md5_update ctx src =
     (let n = length src;
          j = unat (len ctx AND 63);
          ctx = ctx\<lparr>len := len ctx + of_nat n\<rparr>;
          cnt = (if j \<noteq> 0 then min n (64 - j) else 0);
          ctx = (if j \<noteq> 0 then ctx\<lparr>block := memcpy_to (block ctx) j (take cnt src)\<rparr> else ctx);
          src = drop cnt src;
          n = n - cnt
      in if j \<noteq> 0 \<and> j + cnt < 64 then ctx
         else
           let ctx = (if j \<noteq> 0 then ctx\<lparr>ABCD := body (ABCD ctx) (block ctx) 1\<rparr> else ctx);
               nblocks = n div 64;
               ctx = ctx\<lparr>ABCD := body (ABCD ctx) src nblocks\<rparr>;
               src = drop (64 * nblocks) src;
               n = n mod 64
           in if n > 0 then ctx\<lparr>block := memcpy_to (block ctx) 0 src\<rparr> else ctx)"

definition av_md5_final :: "AVMD5 \<Rightarrow> byte list \<times> AVMD5" where
  "av_md5_final ctx =
     (let finalcount = AV_WL64 (push_bit 3 (len ctx));
          ctx = av_md5_update ctx [0x80];
          ctx = while (\<lambda>ctx. unat (len ctx) mod 64 \<noteq> 56) (\<lambda>ctx. av_md5_update ctx [0]) ctx;
          ctx = av_md5_update ctx finalcount
      in (concat (map (\<lambda>i. AV_WL32 (ABCD ctx ! (3 - i))) [0..<4]), ctx))"

definition av_md5_sum :: "AVMD5 \<Rightarrow> byte list \<Rightarrow> byte list" where
  "av_md5_sum ctx src = fst (av_md5_final (av_md5_update (av_md5_init ctx) src))"

subsection \<open>The unrolled rounds are the loop\<close>

lemma small_steps4:
  "md5_small_step X (i + 3) (md5_small_step X (i + 2) (md5_small_step X (i + 1) (md5_small_step X i q))) = CORE2 X i q"
  by (cases q) (simp add: md5_small_step_def CORE2_def Let_def)

lemma fold_upt_4: "fold f [i..<i + 4] x = f (i + 3) (f (i + 2) (f (i + 1) (f i x)))"
  by (simp add: upt_rec numeral_3_eq_3)

lemma small_steps16: "fold (md5_small_step X) [i..<i + 16] q = CORE4 X i q"
proof -
  have "[i..<i + 16] = [i..<i + 4] @ [i + 4..<i + 4 + 4] @ [i + 8..<i + 8 + 4] @ [i + 12..<i + 12 + 4]"
    by (simp add: upt_add_eq_append [symmetric] add.assoc upt_rec)
  then show ?thesis by (simp only: fold_append comp_def fold_upt_4 small_steps4 CORE4_def)
qed

lemma md5_rounds_loop: "md5_rounds X q = md5_rounds_small X q"
proof -
  have "[0..<64] = [0..<0 + 16] @ [16..<16 + 16] @ [32..<32 + 16] @ [48..<48 + (16 :: nat)]"
    by code_simp
  then show ?thesis unfolding md5_rounds_small_def md5_rounds_def by (simp only: fold_append comp_def small_steps16)
qed

subsection \<open>Refinement\<close>

lemma body_absorb: "n = length src div 64 \<Longrightarrow> body st src n = absorb md5_block 64 st src"
proof (induction n arbitrary: st src)
  case 0
  then show ?case by (simp add: div_eq_0_iff)
next
  case (Suc n)
  then have "64 \<le> length src" "length (drop 64 src) div 64 = n" by (auto simp: le_div_geq intro: ccontr)
  then show ?case using Suc(1) [of "drop 64 src"] by (subst absorb.simps) simp
qed

definition md5_ok :: "AVMD5 \<Rightarrow> bool" where
  "md5_ok ctx \<longleftrightarrow> length (block ctx) = 64"

definition md5_pending :: "AVMD5 \<Rightarrow> byte list" where
  "md5_pending ctx = take (unat (len ctx) mod 64) (block ctx)"

lemma md5_update_laws:
  assumes "md5_ok ctx"
  shows "md5_ok (av_md5_update ctx src) \<and> len (av_md5_update ctx src) = len ctx + of_nat (length src) \<and>
    ABCD (av_md5_update ctx src) = absorb md5_block 64 (ABCD ctx) (md5_pending ctx @ src) \<and>
    md5_pending (av_md5_update ctx src) = remainder_of 64 (md5_pending ctx @ src)"
proof -
  define j where "j = unat (len ctx) mod 64"
  define cnt where "cnt = (if j \<noteq> 0 then min (length src) (64 - j) else 0)"
  define rest where "rest = drop cnt src"
  define blk where "blk = (if j \<noteq> 0 then memcpy_to (block ctx) j (take cnt src) else block ctx)"
  have l: "length (block ctx) = 64" "j < 64" using assms by (simp_all add: md5_ok_def j_def)
  have pend: "md5_pending ctx = take j (block ctx)" "length (md5_pending ctx) = j" using l by (simp_all add: md5_pending_def j_def)
  have c: "unat (len ctx + of_nat (length src)) mod 64 = (j + length src) mod 64"
    unfolding unat_add_mod [of 64, simplified] j_def ..
  have lb: "length blk = 64" using l by (auto simp: blk_def cnt_def)
  show ?thesis
  proof (cases "j \<noteq> 0 \<and> j + cnt < 64")
    case True
    then have n: "cnt = length src" "j + length src < 64" by (auto simp: cnt_def min_def split: if_splits)
    have u: "av_md5_update ctx src = ctx\<lparr>len := len ctx + of_nat (length src), block := blk\<rparr>"
      unfolding av_md5_update_def Let_def unat_and_63 j_def [symmetric] cnt_def [symmetric] blk_def
      using True by (simp only: if_True simp_thms) simp
    have "take (j + length src) blk = md5_pending ctx @ src"
      using True n l pend by (simp add: blk_def memcpy_to_def)
    then have "md5_pending (av_md5_update ctx src) = md5_pending ctx @ src" unfolding md5_pending_def u using n by (simp add: c)
    then show ?thesis using n pend(2) lb by (simp add: u md5_ok_def)
  next
    case False
    define st where "st = (if j \<noteq> 0 then body (ABCD ctx) blk 1 else ABCD ctx)"
    have m: "md5_pending ctx @ src = (if j \<noteq> 0 then blk else []) @ rest" and full: "j \<noteq> 0 \<Longrightarrow> j + cnt = 64"
      using False l pend by (auto simp: blk_def rest_def cnt_def memcpy_to_def min_def split: if_splits)
    have st: "absorb md5_block 64 (ABCD ctx) (md5_pending ctx @ src) = absorb md5_block 64 st rest"
      "remainder_of 64 (md5_pending ctx @ src) = remainder_of 64 rest"
      unfolding m st_def using lb by (auto simp: absorb_block remainder_block)
    have b: "body st rest (length rest div 64) = absorb md5_block 64 st rest" by (simp add: body_absorb)
    have d: "drop (64 * (length rest div 64)) rest = remainder_of 64 rest" by (simp add: remainder_of_def mult.commute)
    have u: "av_md5_update ctx src = ctx\<lparr>len := len ctx + of_nat (length src),
        block := (if length rest mod 64 > 0 then memcpy_to blk 0 (remainder_of 64 rest) else blk),
        ABCD := absorb md5_block 64 st rest\<rparr>"
    proof -
      have n: "length src - cnt = length rest" by (simp add: rest_def)
      show ?thesis
        unfolding av_md5_update_def Let_def unat_and_63 j_def [symmetric] cnt_def [symmetric] rest_def [symmetric] n if_not_P [OF False]
          b [symmetric] d [symmetric]
        unfolding st_def blk_def
        by (cases "j = 0") (simp_all del: body.simps One_nat_def)
    qed
    have r: "length (remainder_of 64 rest) = (j + length src) mod 64"
    proof -
      have "length (remainder_of 64 (md5_pending ctx @ src)) = (j + length src) mod 64" by (simp add: length_remainder pend(2))
      then show ?thesis by (simp add: st(2))
    qed
    have "md5_pending (av_md5_update ctx src) = remainder_of 64 rest"
    proof (cases "length rest mod 64 = 0")
      case True
      then have "remainder_of 64 rest = []" using length_remainder [of 64 rest] by simp
      then show ?thesis unfolding md5_pending_def u using r by (simp add: c)
    next
      case False
      then show ?thesis unfolding md5_pending_def u by (simp add: c r [symmetric] memcpy_to_def)
    qed
    moreover have "length (remainder_of 64 rest) \<le> 64" using r by simp
    ultimately show ?thesis using lb st by (simp add: u md5_ok_def)
  qed
qed

interpretation md5: block_hash av_md5_update ABCD md5_pending len md5_ok md5_block 64 "\<lambda>_. True"
  by unfold_locales (use md5_update_laws in auto)

subsection \<open>Property\<close>

text \<open>The digest of a message: padded, cut into blocks, the blocks folded with the compression function.\<close>

definition md5_digest :: "byte list \<Rightarrow> byte list" where
  "md5_digest m =
     (let st = absorb md5_block 64 [0x10325476, 0x98badcfe, 0xefcdab89, 0x67452301]
                 (m @ padding 64 56 (length m) @ AV_WL64 (of_nat (8 * length m)))
      in AV_WL32 (st ! 3) @ AV_WL32 (st ! 2) @ AV_WL32 (st ! 1) @ AV_WL32 (st ! 0))"

lemma md5_chunks:
  assumes "md5_ok ctx"
  shows "fst (av_md5_final (fold (\<lambda>xs c. av_md5_update c xs) chunks (av_md5_init ctx))) = md5_digest (concat chunks) \<and>
    md5_ok (snd (av_md5_final (fold (\<lambda>xs c. av_md5_update c xs) chunks (av_md5_init ctx))))"
proof -
  define m where "m = concat chunks"
  define iv :: "32 word list" where "iv = [0x10325476, 0x98badcfe, 0xefcdab89, 0x67452301]"
  define c where "c = fold (\<lambda>xs c. av_md5_update c xs) chunks (av_md5_init ctx)"
  have "md5_ok (av_md5_init ctx)" "len (av_md5_init ctx) = 0" "md5_pending (av_md5_init ctx) = []" "ABCD (av_md5_init ctx) = iv"
    using assms by (simp_all add: md5_ok_def av_md5_init_def md5_pending_def iv_def)
  then have s: "md5.seen iv m c" using md5.chunks_seen [of "av_md5_init ctx" chunks] by (simp add: c_def m_def)
  then have "fst (av_md5_final c) = md5_digest m" "md5_ok (snd (av_md5_final c))"
    using md5.final_state [of iv m c 56 "AV_WL64 (push_bit 3 (len c))"] md5.seen_bits [of iv m c]
    by (simp_all add: av_md5_final_def md5_digest_def Let_def iv_def upt_rec)
  then show ?thesis by (simp add: c_def m_def)
qed

text \<open>C39. MD5 computes the digest of the message whatever the pieces it arrives in, and its unrolled
  compression function is the loop of the small configuration.\<close>

theorem av_md5_correct:
  assumes "length (block ctx) = 64"
  shows "fst (av_md5_final (fold (\<lambda>xs c. av_md5_update c xs) chunks (av_md5_init ctx))) = md5_digest (concat chunks) \<and>
    md5_rounds X q = md5_rounds_small X q"
  using md5_chunks [of ctx chunks] assms by (simp add: md5_ok_def md5_rounds_loop)

theorem av_md5_correct_witness:
  "fst (av_md5_final (av_md5_update (av_md5_update (av_md5_init \<lparr>len = 7, block = replicate 64 0xff, ABCD = []\<rparr>) [0x61]) [0x62, 0x63])) =
   av_md5_sum \<lparr>len = 0, block = replicate 64 0, ABCD = []\<rparr> [0x61, 0x62, 0x63]"
  using av_md5_correct [of "\<lparr>len = 7, block = replicate 64 0xff, ABCD = []\<rparr>" "[[0x61], [0x62, 0x63]]"]
    av_md5_correct [of "\<lparr>len = 0, block = replicate 64 0, ABCD = []\<rparr>" "[[0x61, 0x62, 0x63]]"]
  by (simp add: av_md5_sum_def)

end
