(* ===== verification/Sha.thy ===== *)
theory Sha
  imports Hashbuf
begin

section \<open>SHA-1, SHA-224 and SHA-256: \<open>libavutil/sha.c\<close>\<close>

text \<open>
  The two transformations, unrolled as they are compiled and in the loop form of \<open>CONFIG_SMALL\<close>, and the
  context with its operations.  The message schedule \<open>block\<close> is a list that grows by one word per round, so
  that \<open>block[i]\<close> is its element \<open>i\<close>; the function pointer \<open>transform\<close> is a field that holds a function.
\<close>

subsection \<open>SHA-1\<close>

text \<open>\<open>blk0\<close> and \<open>blk\<close>: the schedule with its element \<open>i\<close>.\<close>

definition blk0 :: "byte list \<Rightarrow> nat \<Rightarrow> 32 word list \<Rightarrow> 32 word list" where
  "blk0 buf i block = block @ [AV_RB32 (drop (4 * i) buf)]"

definition blk :: "nat \<Rightarrow> 32 word list \<Rightarrow> 32 word list" where
  "blk i block = block @ [rol (block ! (i - 3) XOR block ! (i - 8) XOR block ! (i - 14) XOR block ! (i - 16)) 1]"

text \<open>The macros \<open>R0\<close> .. \<open>R4\<close>, which assign to \<open>z\<close> and \<open>w\<close>: \<open>(w, z, block)\<close>.\<close>

type_synonym sha1_op = "nat \<Rightarrow> 32 word \<Rightarrow> 32 word \<Rightarrow> 32 word \<Rightarrow> 32 word \<Rightarrow> 32 word \<Rightarrow> 32 word list \<Rightarrow>
  32 word \<times> 32 word \<times> 32 word list"

definition R0 :: "byte list \<Rightarrow> sha1_op" where
  "R0 buf i v w x y z block = (let block = blk0 buf i block
     in (rol w 30, z + (((w AND (x XOR y)) XOR y) + block ! i + 0x5A827999 + rol v 5), block))"

definition R1 :: sha1_op where
  "R1 i v w x y z block = (let block = blk i block
     in (rol w 30, z + (((w AND (x XOR y)) XOR y) + block ! i + 0x5A827999 + rol v 5), block))"

definition R2 :: sha1_op where
  "R2 i v w x y z block = (let block = blk i block
     in (rol w 30, z + ((w XOR x XOR y) + block ! i + 0x6ED9EBA1 + rol v 5), block))"

definition R3 :: sha1_op where
  "R3 i v w x y z block = (let block = blk i block
     in (rol w 30, z + ((((w OR x) AND y) OR (w AND x)) + block ! i + 0x8F1BBCDC + rol v 5), block))"

definition R4 :: sha1_op where
  "R4 i v w x y z block = (let block = blk i block
     in (rol w 30, z + ((w XOR x XOR y) + block ! i + 0xCA62C1D6 + rol v 5), block))"

text \<open>Five rounds with the variables in turn, the operation of round \<open>i\<close> being \<open>R i\<close>.\<close>

type_synonym sha1_vars = "32 word \<times> 32 word \<times> 32 word \<times> 32 word \<times> 32 word \<times> 32 word list"

definition sha1_five :: "(nat \<Rightarrow> sha1_op) \<Rightarrow> nat \<Rightarrow> sha1_vars \<Rightarrow> sha1_vars" where
  "sha1_five R i = (\<lambda>(a, b, c, d, e, block).
     let (b, e, block) = R i i a b c d e block;
         (a, d, block) = R (i + 1) (i + 1) e a b c d block;
         (e, c, block) = R (i + 2) (i + 2) d e a b c block;
         (d, b, block) = R (i + 3) (i + 3) c d e a b block;
         (c, a, block) = R (i + 4) (i + 4) b c d e a block
     in (a, b, c, d, e, block))"

definition R1_0 :: "byte list \<Rightarrow> nat \<Rightarrow> sha1_vars \<Rightarrow> sha1_vars" where "R1_0 buf = sha1_five (\<lambda>_. R0 buf)"
definition R1_15 :: "byte list \<Rightarrow> sha1_vars \<Rightarrow> sha1_vars" where
  "R1_15 buf = sha1_five (\<lambda>i. if i = 15 then R0 buf else R1) 15"
definition R1_20 :: "nat \<Rightarrow> sha1_vars \<Rightarrow> sha1_vars" where "R1_20 = sha1_five (\<lambda>_. R2)"
definition R1_40 :: "nat \<Rightarrow> sha1_vars \<Rightarrow> sha1_vars" where "R1_40 = sha1_five (\<lambda>_. R3)"
definition R1_60 :: "nat \<Rightarrow> sha1_vars \<Rightarrow> sha1_vars" where "R1_60 = sha1_five (\<lambda>_. R4)"

definition sha1_rounds :: "byte list \<Rightarrow> sha1_vars \<Rightarrow> sha1_vars" where
  "sha1_rounds buf q =
     (let q = R1_15 buf (R1_0 buf 10 (R1_0 buf 5 (R1_0 buf 0 q)));
          q = R1_20 35 (R1_20 30 (R1_20 25 (R1_20 20 q)));
          q = R1_40 55 (R1_40 50 (R1_40 45 (R1_40 40 q)))
      in R1_60 75 (R1_60 70 (R1_60 65 (R1_60 60 q))))"

text \<open>The loop: one turn.\<close>

definition sha1_small_step :: "byte list \<Rightarrow> nat \<Rightarrow> sha1_vars \<Rightarrow> sha1_vars" where
  "sha1_small_step buf i = (\<lambda>(a, b, c, d, e, block).
     let t = (if i < 16 then AV_RB32 (drop (4 * i) buf)
              else rol (block ! (i - 3) XOR block ! (i - 8) XOR block ! (i - 14) XOR block ! (i - 16)) 1);
         block = block @ [t];
         t = t + (e + rol a 5);
         t = (if i < 40
              then if i < 20 then t + (((b AND (c XOR d)) XOR d) + 0x5A827999)
                   else t + ((b XOR c XOR d) + 0x6ED9EBA1)
              else if i < 60 then t + ((((b OR c) AND d) OR (b AND c)) + 0x8F1BBCDC)
                   else t + ((b XOR c XOR d) + 0xCA62C1D6))
     in (t, a, rol b 30, c, d, block))"

definition sha1_rounds_small :: "byte list \<Rightarrow> sha1_vars \<Rightarrow> sha1_vars" where
  "sha1_rounds_small buf q = fold (sha1_small_step buf) [0..<80] q"

definition sha1_transform :: "32 word list \<Rightarrow> byte list \<Rightarrow> 32 word list" where
  "sha1_transform st buf =
     (let (a, b, c, d, e, block) = sha1_rounds buf (st ! 0, st ! 1, st ! 2, st ! 3, st ! 4, [])
      in [st ! 0 + a, st ! 1 + b, st ! 2 + c, st ! 3 + d, st ! 4 + e] @ drop 5 st)"

subsection \<open>SHA-256\<close>

definition K256 :: "32 word list" where
  "K256 =
    [0x428a2f98, 0x71374491, 0xb5c0fbcf, 0xe9b5dba5, 0x3956c25b, 0x59f111f1, 0x923f82a4, 0xab1c5ed5,
     0xd807aa98, 0x12835b01, 0x243185be, 0x550c7dc3, 0x72be5d74, 0x80deb1fe, 0x9bdc06a7, 0xc19bf174,
     0xe49b69c1, 0xefbe4786, 0x0fc19dc6, 0x240ca1cc, 0x2de92c6f, 0x4a7484aa, 0x5cb0a9dc, 0x76f988da,
     0x983e5152, 0xa831c66d, 0xb00327c8, 0xbf597fc7, 0xc6e00bf3, 0xd5a79147, 0x06ca6351, 0x14292967,
     0x27b70a85, 0x2e1b2138, 0x4d2c6dfc, 0x53380d13, 0x650a7354, 0x766a0abb, 0x81c2c92e, 0x92722c85,
     0xa2bfe8a1, 0xa81a664b, 0xc24b8b70, 0xc76c51a3, 0xd192e819, 0xd6990624, 0xf40e3585, 0x106aa070,
     0x19a4c116, 0x1e376c08, 0x2748774c, 0x34b0bcb5, 0x391c0cb3, 0x4ed8aa4a, 0x5b9cca4f, 0x682e6ff3,
     0x748f82ee, 0x78a5636f, 0x84c87814, 0x8cc70208, 0x90befffa, 0xa4506ceb, 0xbef9a3f7, 0xc67178f2]"

definition Ch :: "'a::len word \<Rightarrow> 'a word \<Rightarrow> 'a word \<Rightarrow> 'a word" where "Ch x y z = (x AND (y XOR z)) XOR z"
definition Maj :: "'a::len word \<Rightarrow> 'a word \<Rightarrow> 'a word \<Rightarrow> 'a word" where "Maj z y x = ((x OR y) AND z) OR (x AND y)"

definition Sigma0_256 :: "32 word \<Rightarrow> 32 word" where "Sigma0_256 x = rol x 30 XOR rol x 19 XOR rol x 10"
definition Sigma1_256 :: "32 word \<Rightarrow> 32 word" where "Sigma1_256 x = rol x 26 XOR rol x 21 XOR rol x 7"
definition sigma0_256 :: "32 word \<Rightarrow> 32 word" where "sigma0_256 x = rol x 25 XOR rol x 14 XOR drop_bit 3 x"
definition sigma1_256 :: "32 word \<Rightarrow> 32 word" where "sigma1_256 x = rol x 15 XOR rol x 13 XOR drop_bit 10 x"

definition blk_256 :: "nat \<Rightarrow> 32 word list \<Rightarrow> 32 word list" where
  "blk_256 i block =
     block @ [block ! (i - 16) + sigma0_256 (block ! (i - 15)) + sigma1_256 (block ! (i - 2)) + block ! (i - 7)]"

text \<open>A round assigns to \<open>d\<close> and \<open>h\<close> and extends the schedule: \<open>(d, h, block)\<close>.\<close>

type_synonym 'w sha2_op = "nat \<Rightarrow> 'w \<Rightarrow> 'w \<Rightarrow> 'w \<Rightarrow> 'w \<Rightarrow> 'w \<Rightarrow> 'w \<Rightarrow> 'w \<Rightarrow> 'w \<Rightarrow> 'w list \<Rightarrow> 'w \<times> 'w \<times> 'w list"
type_synonym 'w sha2_vars = "'w \<times> 'w \<times> 'w \<times> 'w \<times> 'w \<times> 'w \<times> 'w \<times> 'w \<times> 'w list"

definition ROUND256 :: "32 word \<Rightarrow> 32 word sha2_op" where
  "ROUND256 T1 i a b c d e f g h block =
     (let T1 = T1 + (h + Sigma1_256 e + Ch e f g + K256 ! i)
      in (d + T1, T1 + Sigma0_256 a + Maj a b c, block))"

definition ROUND256_0_TO_15 :: "byte list \<Rightarrow> 32 word sha2_op" where
  "ROUND256_0_TO_15 buf i a b c d e f g h block =
     (let block = blk0 buf i block in ROUND256 (block ! i) i a b c d e f g h block)"

definition ROUND256_16_TO_63 :: "32 word sha2_op" where
  "ROUND256_16_TO_63 i a b c d e f g h block =
     (let block = blk_256 i block in ROUND256 (block ! i) i a b c d e f g h block)"

text \<open>Eight rounds with the variables in turn: \<open>R256_0\<close>, \<open>R256_16\<close>, and the same for SHA-512.\<close>

definition sha2_eight :: "'w sha2_op \<Rightarrow> nat \<Rightarrow> 'w sha2_vars \<Rightarrow> 'w sha2_vars" where
  "sha2_eight R i = (\<lambda>(a, b, c, d, e, f, g, h, block).
     let (d, h, block) = R i a b c d e f g h block;
         (c, g, block) = R (i + 1) h a b c d e f g block;
         (b, f, block) = R (i + 2) g h a b c d e f block;
         (a, e, block) = R (i + 3) f g h a b c d e block;
         (h, d, block) = R (i + 4) e f g h a b c d block;
         (g, c, block) = R (i + 5) d e f g h a b c block;
         (f, b, block) = R (i + 6) c d e f g h a b block;
         (e, a, block) = R (i + 7) b c d e f g h a block
     in (a, b, c, d, e, f, g, h, block))"

definition sha256_rounds :: "byte list \<Rightarrow> 32 word sha2_vars \<Rightarrow> 32 word sha2_vars" where
  "sha256_rounds buf q =
     (let R256_0 = sha2_eight (ROUND256_0_TO_15 buf);
          R256_16 = sha2_eight ROUND256_16_TO_63
      in R256_16 56 (R256_16 48 (R256_16 40 (R256_16 32 (R256_16 24 (R256_16 16 (R256_0 8 (R256_0 0 q))))))))"

definition sha256_small_step :: "byte list \<Rightarrow> nat \<Rightarrow> 32 word sha2_vars \<Rightarrow> 32 word sha2_vars" where
  "sha256_small_step buf i = (\<lambda>(a, b, c, d, e, f, g, h, block).
     let block = (if i < 16 then blk0 buf i block else blk_256 i block);
         T1 = block ! i;
         T1 = T1 + (h + Sigma1_256 e + Ch e f g + K256 ! i);
         T2 = Sigma0_256 a + Maj a b c
     in (T1 + T2, a, b, c, d + T1, e, f, g, block))"

definition sha256_rounds_small :: "byte list \<Rightarrow> 32 word sha2_vars \<Rightarrow> 32 word sha2_vars" where
  "sha256_rounds_small buf q = fold (sha256_small_step buf) [0..<64] q"

definition sha256_transform :: "32 word list \<Rightarrow> byte list \<Rightarrow> 32 word list" where
  "sha256_transform st buf =
     (let (a, b, c, d, e, f, g, h, block) =
            sha256_rounds buf (st ! 0, st ! 1, st ! 2, st ! 3, st ! 4, st ! 5, st ! 6, st ! 7, [])
      in [st ! 0 + a, st ! 1 + b, st ! 2 + c, st ! 3 + d, st ! 4 + e, st ! 5 + f, st ! 6 + g, st ! 7 + h])"

subsection \<open>The context\<close>

record AVSHA = "32 word list hash_ctx" +
  digest_len :: nat
  transform :: "32 word list \<Rightarrow> byte list \<Rightarrow> 32 word list"

text \<open>The result code and the context; for SHA-1 the last three words of the state are left alone.\<close>

definition av_sha_init :: "AVSHA \<Rightarrow> nat \<Rightarrow> int \<times> AVSHA" where
  "av_sha_init ctx bits =
     (let ctx = ctx\<lparr>digest_len := bits div 32\<rparr>
      in if bits = 160 then
           (0, ctx\<lparr>state_of := [0x67452301, 0xEFCDAB89, 0x98BADCFE, 0x10325476, 0xC3D2E1F0] @ drop 5 (state_of ctx),
                  transform := sha1_transform, count_of := 0\<rparr>)
         else if bits = 224 then
           (0, ctx\<lparr>state_of := [0xC1059ED8, 0x367CD507, 0x3070DD17, 0xF70E5939, 0xFFC00B31, 0x68581511, 0x64F98FA7, 0xBEFA4FA4],
                  transform := sha256_transform, count_of := 0\<rparr>)
         else if bits = 256 then
           (0, ctx\<lparr>state_of := [0x6A09E667, 0xBB67AE85, 0x3C6EF372, 0xA54FF53A, 0x510E527F, 0x9B05688C, 0x1F83D9AB, 0x5BE0CD19],
                  transform := sha256_transform, count_of := 0\<rparr>)
         else (- 22, ctx))"

definition av_sha_update :: "AVSHA \<Rightarrow> byte list \<Rightarrow> AVSHA" where
  "av_sha_update ctx data = hash_update (transform ctx) 64 ctx data"

definition av_sha_final :: "AVSHA \<Rightarrow> byte list \<times> AVSHA" where
  "av_sha_final ctx =
     (let finalcount = AV_WB64 (push_bit 3 (count_of ctx));
          ctx = av_sha_update ctx [0x80];
          ctx = while (\<lambda>ctx. unat (count_of ctx) mod 64 \<noteq> 56) (\<lambda>ctx. av_sha_update ctx [0]) ctx;
          ctx = av_sha_update ctx finalcount
      in (concat (map (\<lambda>i. AV_WB32 (state_of ctx ! i)) [0..<digest_len ctx]), ctx))"

subsection \<open>The unrolled rounds are the loops\<close>

text \<open>A turn of a loop whose body is a macro with its variables rotated.\<close>

definition sha1_turn :: "(nat \<Rightarrow> sha1_op) \<Rightarrow> nat \<Rightarrow> sha1_vars \<Rightarrow> sha1_vars" where
  "sha1_turn R i = (\<lambda>(a, b, c, d, e, block). let (b, e, block) = R i i a b c d e block in (e, a, b, c, d, block))"

definition sha2_turn :: "'w sha2_op \<Rightarrow> nat \<Rightarrow> 'w sha2_vars \<Rightarrow> 'w sha2_vars" where
  "sha2_turn R i = (\<lambda>(a, b, c, d, e, f, g, h, block).
     let (d, h, block) = R i a b c d e f g h block in (h, a, b, c, d, e, f, g, block))"

lemma sha1_five_turns: "sha1_five R i q = fold (sha1_turn R) [i..<i + 5] q"
proof -
  obtain a b c d e block where q: "q = (a, b, c, d, e, block)" by (cases q)
  have l: "[i..<i + 5] = [i, i + 1, i + 2, i + 3, i + 4]" by (simp add: upt_rec)
  obtain b0 e0 l0 where e0: "R i i a b c d e block = (b0, e0, l0)" by (metis prod_cases3)
  obtain a1 d1 l1 where e1: "R (i + 1) (i + 1) e0 a b0 c d l0 = (a1, d1, l1)" by (metis prod_cases3)
  obtain e2 c2 l2 where e2: "R (i + 2) (i + 2) d1 e0 a1 b0 c l1 = (e2, c2, l2)" by (metis prod_cases3)
  obtain d3 b3 l3 where e3: "R (i + 3) (i + 3) c2 d1 e2 a1 b0 l2 = (d3, b3, l3)" by (metis prod_cases3)
  obtain c4 a4 l4 where e4: "R (i + 4) (i + 4) b3 c2 d3 e2 a1 l3 = (c4, a4, l4)" by (metis prod_cases3)
  show ?thesis
    unfolding q l sha1_five_def sha1_turn_def by (simp only: fold_simps prod.case Let_def e0 e1 e2 e3 e4)
qed

lemma sha2_eight_turns: "sha2_eight R i q = fold (sha2_turn R) [i..<i + 8] q"
proof -
  obtain a b c d e f r where "q = (a, b, c, d, e, f, r)" by (cases q)
  moreover obtain g h block where "r = (g, h, block)" by (cases r)
  ultimately have q: "q = (a, b, c, d, e, f, g, h, block)" by simp
  have l: "[i..<i + 8] = [i, i + 1, i + 2, i + 3, i + 4, i + 5, i + 6, i + 7]" by (simp add: upt_rec)
  obtain d0 h0 l0 where e0: "R i a b c d e f g h block = (d0, h0, l0)" by (metis prod_cases3)
  obtain c1 g1 l1 where e1: "R (i + 1) h0 a b c d0 e f g l0 = (c1, g1, l1)" by (metis prod_cases3)
  obtain b2 f2 l2 where e2: "R (i + 2) g1 h0 a b c1 d0 e f l1 = (b2, f2, l2)" by (metis prod_cases3)
  obtain a3 e3 l3 where e3: "R (i + 3) f2 g1 h0 a b2 c1 d0 e l2 = (a3, e3, l3)" by (metis prod_cases3)
  obtain h4 d4 l4 where e4: "R (i + 4) e3 f2 g1 h0 a3 b2 c1 d0 l3 = (h4, d4, l4)" by (metis prod_cases3)
  obtain g5 c5 l5 where e5: "R (i + 5) d4 e3 f2 g1 h4 a3 b2 c1 l4 = (g5, c5, l5)" by (metis prod_cases3)
  obtain f6 b6 l6 where e6: "R (i + 6) c5 d4 e3 f2 g5 h4 a3 b2 l5 = (f6, b6, l6)" by (metis prod_cases3)
  obtain e7 a7 l7 where e7: "R (i + 7) b6 c5 d4 e3 f6 g5 h4 a3 l6 = (e7, a7, l7)" by (metis prod_cases3)
  show ?thesis
    unfolding q l sha2_eight_def sha2_turn_def by (simp only: fold_simps prod.case Let_def e0 e1 e2 e3 e4 e5 e6 e7)
qed

text \<open>The rounds as one fold, with the operation of each round.\<close>

definition sha1_op_at :: "byte list \<Rightarrow> nat \<Rightarrow> sha1_op" where
  "sha1_op_at buf i = (if i < 16 then R0 buf else if i < 20 then R1 else if i < 40 then R2 else if i < 60 then R3 else R4)"

lemma fold_turn_cong: "\<forall>i \<in> set xs. R i = R' i \<Longrightarrow> fold (sha1_turn R) xs q = fold (sha1_turn R') xs q"
  by (rule fold_cong) (simp_all add: sha1_turn_def)

lemma sha1_rounds_turns: "sha1_rounds buf q = fold (sha1_turn (sha1_op_at buf)) [0..<80] q"
proof -
  have r: "[0..<80] = [0..<5] @ [5..<10] @ [10..<15] @ [15..<20] @ [20..<25] @ [25..<30] @ [30..<35] @ [35..<40] @
      [40..<45] @ [45..<50] @ [50..<55] @ [55..<60] @ [60..<65] @ [65..<70] @ [70..<75] @ [75..<(80 :: nat)]"
    by code_simp
  have g: "fold (sha1_turn R) [i..<i + 5] x = fold (sha1_turn (sha1_op_at buf)) [i..<i + 5] x"
    if "\<forall>k \<in> {i..<i + 5}. R k = sha1_op_at buf k" for R i x
    using that by (intro fold_turn_cong) simp
  have s: "sha1_five R i x = fold (sha1_turn (sha1_op_at buf)) [i..<i + 5] x"
    if "\<forall>k \<in> {i..<i + 5}. R k = sha1_op_at buf k" for R i x
    unfolding sha1_five_turns by (rule g [OF that])
  have a: "i \<le> 10 \<Longrightarrow> R1_0 buf i x = fold (sha1_turn (sha1_op_at buf)) [i..<i + 5] x"
    "R1_15 buf x = fold (sha1_turn (sha1_op_at buf)) [15..<15 + 5] x"
    "20 \<le> i \<Longrightarrow> i \<le> 35 \<Longrightarrow> R1_20 i x = fold (sha1_turn (sha1_op_at buf)) [i..<i + 5] x"
    "40 \<le> i \<Longrightarrow> i \<le> 55 \<Longrightarrow> R1_40 i x = fold (sha1_turn (sha1_op_at buf)) [i..<i + 5] x"
    "60 \<le> i \<Longrightarrow> R1_60 i x = fold (sha1_turn (sha1_op_at buf)) [i..<i + 5] x" for i x
    unfolding R1_0_def R1_15_def R1_20_def R1_40_def R1_60_def by (intro s; auto simp: sha1_op_at_def)+
  show ?thesis
    unfolding r fold_append comp_def sha1_rounds_def Let_def by (simp add: a)
qed

lemma sha1_small_is_turn:
  "length (snd (snd (snd (snd (snd q))))) = i \<Longrightarrow> sha1_small_step buf i q = sha1_turn (sha1_op_at buf) i q"
  by (cases q)
     (simp add: sha1_small_step_def sha1_turn_def sha1_op_at_def R0_def R1_def R2_def R3_def R4_def blk0_def blk_def Let_def nth_append ac_simps)

lemma sha1_turn_length:
  "length (snd (snd (snd (snd (snd q))))) = i \<Longrightarrow> length (snd (snd (snd (snd (snd (sha1_turn (sha1_op_at buf) i q)))))) = Suc i"
  by (cases q) (simp add: sha1_turn_def sha1_op_at_def R0_def R1_def R2_def R3_def R4_def blk0_def blk_def Let_def)

lemma fold_upt_indexed:
  assumes "\<And>i q. len q = i \<Longrightarrow> f i q = g i q" "\<And>i q. len q = i \<Longrightarrow> len (g i q) = Suc i" "len q = (m :: nat)"
  shows "fold f [m..<n] q = fold g [m..<n] q"
  using assms(3)
proof (induction "n - m" arbitrary: m q)
  case 0
  then show ?case by simp
next
  case (Suc k)
  then have u: "[m..<n] = m # [Suc m..<n]" by (simp add: upt_rec)
  have "k = n - Suc m" using Suc(2) by simp
  then show ?case
    using Suc(1) [of "Suc m" "g m q"] by (simp add: u assms(1) [OF Suc(3)] assms(2) [OF Suc(3)])
qed

lemma sha1_rounds_loop: "sha1_rounds buf (a, b, c, d, e, []) = sha1_rounds_small buf (a, b, c, d, e, [])"
  unfolding sha1_rounds_turns sha1_rounds_small_def
  by (rule fold_upt_indexed [symmetric, where len = "\<lambda>q. length (snd (snd (snd (snd (snd q)))))"])
     (simp_all add: sha1_small_is_turn sha1_turn_length)

definition sha256_op_at :: "byte list \<Rightarrow> 32 word sha2_op" where
  "sha256_op_at buf i = (if i < 16 then ROUND256_0_TO_15 buf i else ROUND256_16_TO_63 i)"

definition sched :: "'w sha2_vars \<Rightarrow> 'w list" where
  "sched = (\<lambda>(a, b, c, d, e, f, g, h, block). block)"

lemma sha2_turn_cong: "\<forall>i \<in> set xs. R i = R' i \<Longrightarrow> fold (sha2_turn R) xs q = fold (sha2_turn R') xs q"
  by (rule fold_cong) (simp_all add: sha2_turn_def)

lemma upt_64_by_8: "[0..<64] = [0..<8] @ [8..<16] @ [16..<24] @ [24..<32] @ [32..<40] @ [40..<48] @ [48..<56] @ [56..<(64 :: nat)]"
  by code_simp

lemma sha256_rounds_turns: "sha256_rounds buf q = fold (sha2_turn (sha256_op_at buf)) [0..<64] q"
proof -
  have a: "i \<le> 8 \<Longrightarrow> sha2_eight (ROUND256_0_TO_15 buf) i x = fold (sha2_turn (sha256_op_at buf)) [i..<i + 8] x"
    "16 \<le> i \<Longrightarrow> sha2_eight ROUND256_16_TO_63 i x = fold (sha2_turn (sha256_op_at buf)) [i..<i + 8] x" for i x
    unfolding sha2_eight_turns by (intro sha2_turn_cong; auto simp: sha256_op_at_def fun_eq_iff)+
  show ?thesis
    unfolding upt_64_by_8 fold_append comp_def sha256_rounds_def Let_def by (simp add: a)
qed

lemma sha256_small_is_turn: "length (sched q) = i \<Longrightarrow> sha256_small_step buf i q = sha2_turn (sha256_op_at buf) i q"
  by (simp add: sched_def sha256_small_step_def sha2_turn_def sha256_op_at_def ROUND256_0_TO_15_def ROUND256_16_TO_63_def
      ROUND256_def Let_def split: prod.splits)

lemma sha256_turn_length: "length (sched q) = i \<Longrightarrow> length (sched (sha2_turn (sha256_op_at buf) i q)) = Suc i"
  by (simp add: sched_def sha2_turn_def sha256_op_at_def ROUND256_0_TO_15_def ROUND256_16_TO_63_def ROUND256_def
      blk0_def blk_256_def Let_def split: prod.splits)

lemma sha256_rounds_loop: "sched q = [] \<Longrightarrow> sha256_rounds buf q = sha256_rounds_small buf q"
  unfolding sha256_rounds_turns sha256_rounds_small_def
  by (rule fold_upt_indexed [symmetric, where len = "\<lambda>q. length (sched q)"])
     (simp_all add: sha256_small_is_turn sha256_turn_length)

subsection \<open>Refinement and property\<close>

definition sha_ok :: "(32 word list \<Rightarrow> byte list \<Rightarrow> 32 word list) \<Rightarrow> nat \<Rightarrow> AVSHA \<Rightarrow> bool" where
  "sha_ok f n ctx \<longleftrightarrow> buffer_ok 64 ctx \<and> transform ctx = f \<and> digest_len ctx = n"

lemma sha_ok_update: "sha_ok f n ctx \<Longrightarrow> piece_fits 64 xs \<Longrightarrow> sha_ok f n (av_sha_update ctx xs)"
  using hash_update_form [of 64 xs f ctx] hash_update_laws(1) [of 64 ctx xs f]
  by (auto simp: sha_ok_def av_sha_update_def)

interpretation sha: block_hash av_sha_update state_of "pending_of 64" count_of "sha_ok f n" f 64 "piece_fits 64"
  for f n
proof unfold_locales
  show "sha_ok f n c \<Longrightarrow> piece_fits 64 xs \<Longrightarrow> sha_ok f n (av_sha_update c xs)" for c xs by (rule sha_ok_update)
qed (simp_all add: sha_ok_def av_sha_update_def hash_update_laws piece_fits_short)

text \<open>The digest of a message for a transformation, a start state and a length in words.\<close>

definition sha_digest :: "(32 word list \<Rightarrow> byte list \<Rightarrow> 32 word list) \<Rightarrow> 32 word list \<Rightarrow> nat \<Rightarrow> byte list \<Rightarrow> byte list" where
  "sha_digest f iv n m =
     (let st = absorb f 64 iv (m @ padding 64 56 (length m) @ AV_WB64 (of_nat (8 * length m)))
      in concat (map (\<lambda>i. AV_WB32 (st ! i)) [0..<n]))"

lemma sha_final_digest: "sha.seen f n iv m c \<Longrightarrow> fst (av_sha_final c) = sha_digest f iv n m \<and> buffer_ok 64 (snd (av_sha_final c))"
  using sha.final_state [of f n iv m c 56 "AV_WB64 (push_bit 3 (count_of c))"] sha.seen_bits [of f n iv m c]
  by (simp add: av_sha_final_def sha_digest_def sha_ok_def Let_def)

text \<open>The start states of the standard.\<close>

definition sha_iv :: "nat \<Rightarrow> 32 word list" where
  "sha_iv bits =
     (if bits = 160 then [0x67452301, 0xEFCDAB89, 0x98BADCFE, 0x10325476, 0xC3D2E1F0]
      else if bits = 224 then [0xC1059ED8, 0x367CD507, 0x3070DD17, 0xF70E5939, 0xFFC00B31, 0x68581511, 0x64F98FA7, 0xBEFA4FA4]
      else [0x6A09E667, 0xBB67AE85, 0x3C6EF372, 0xA54FF53A, 0x510E527F, 0x9B05688C, 0x1F83D9AB, 0x5BE0CD19])"

definition sha_function :: "nat \<Rightarrow> 32 word list \<Rightarrow> byte list \<Rightarrow> 32 word list" where
  "sha_function bits = (if bits = 160 then sha1_transform else sha256_transform)"

lemma sha_init_seen:
  assumes "bits \<in> {160, 224, 256}" "length (buffer_of ctx) = 64" "\<forall>xs \<in> set chunks. piece_fits 64 xs"
  shows "sha.seen (sha_function bits) (bits div 32) (sha_iv bits @ (if bits = 160 then drop 5 (state_of ctx) else []))
      (concat chunks) (fold (\<lambda>xs c. av_sha_update c xs) chunks (snd (av_sha_init ctx bits)))"
proof -
  define c where "c = snd (av_sha_init ctx bits)"
  have "sha_ok (sha_function bits) (bits div 32) c" "count_of c = 0" "pending_of 64 c = []"
    "state_of c = sha_iv bits @ (if bits = 160 then drop 5 (state_of ctx) else [])"
    using assms by (auto simp: c_def av_sha_init_def sha_ok_def buffer_ok_def pending_of_def sha_iv_def sha_function_def)
  then show ?thesis using sha.chunks_seen [of "sha_function bits" "bits div 32" c chunks] assms(3) by (simp add: c_def)
qed

text \<open>The three words after the state of SHA-1, left from an earlier use, are not part of its digest.\<close>

lemma sha1_transform_prefix:
  "length s = 5 \<Longrightarrow> sha1_transform (s @ x) b = sha1_transform s b @ x"
  "length s = 5 \<Longrightarrow> length (sha1_transform s b) = 5"
  by (simp_all add: sha1_transform_def Let_def nth_append split: prod.splits)

lemma sha_digest_trailing:
  assumes "bits \<in> {160, 224, 256}"
  shows "sha_digest (sha_function bits) (sha_iv bits @ (if bits = 160 then x else [])) (bits div 32) m =
    sha_digest (sha_function bits) (sha_iv bits) (bits div 32) m"
proof (cases "bits = 160")
  case True
  define p where "p = m @ padding 64 56 (length m) @ AV_WB64 (of_nat (8 * length m))"
  have a: "absorb sha1_transform 64 (sha_iv 160 @ x) p = absorb sha1_transform 64 (sha_iv 160) p @ x"
    "length (absorb sha1_transform 64 (sha_iv 160) p) = 5"
    using absorb_prefix [where f = sha1_transform and n = 5 and x = x and s = "sha_iv 160" and bs = 64 and m = p]
    by (simp_all add: sha1_transform_prefix sha_iv_def)
  have "sha_digest sha1_transform (sha_iv 160 @ x) 5 m = sha_digest sha1_transform (sha_iv 160) 5 m"
    unfolding sha_digest_def Let_def p_def [symmetric] a(1)
    by (rule arg_cong [where f = concat], rule map_cong) (simp_all add: nth_append a(2))
  then show ?thesis using True by (simp add: sha_function_def)
qed simp

lemma sha_chunks:
  assumes "bits \<in> {160, 224, 256}" "buffer_ok 64 ctx" "\<forall>xs \<in> set chunks. piece_fits 64 xs"
  shows "fst (av_sha_final (fold (\<lambda>xs c. av_sha_update c xs) chunks (snd (av_sha_init ctx bits)))) =
      sha_digest (sha_function bits) (sha_iv bits) (bits div 32) (concat chunks) \<and>
    buffer_ok 64 (snd (av_sha_final (fold (\<lambda>xs c. av_sha_update c xs) chunks (snd (av_sha_init ctx bits)))))"
  using sha_final_digest [OF sha_init_seen [OF assms(1) _ assms(3)]] assms(2) by (simp add: sha_digest_trailing [OF assms(1)] buffer_ok_def)

text \<open>C37. SHA-1, SHA-224 and SHA-256 compute the digest of the message whatever the pieces it arrives in, each
  of at most \<open>2 ^ 32 - 64\<close> bytes (longer ones wrap the sums of \<open>av_sha_update\<close>); other
  digest sizes are refused; the unrolled rounds compute what the loops of the small configuration do.\<close>

theorem av_sha_correct:
  assumes "length (buffer_of ctx) = 64" "\<forall>xs \<in> set chunks. length xs \<le> 2 ^ 32 - 64"
  shows "(if bits \<in> {160, 224, 256}
      then fst (av_sha_init ctx bits) = 0 \<and>
        fst (av_sha_final (fold (\<lambda>xs c. av_sha_update c xs) chunks (snd (av_sha_init ctx bits)))) =
          sha_digest (sha_function bits) (sha_iv bits) (bits div 32) (concat chunks)
      else fst (av_sha_init ctx bits) = - 22) \<and>
    sha1_rounds buf (a, b, c, d, e, []) = sha1_rounds_small buf (a, b, c, d, e, []) \<and>
    sha256_rounds buf (a, b, c, d, e, f, g, h, []) = sha256_rounds_small buf (a, b, c, d, e, f, g, h, [])"
proof -
  have "fst (av_sha_init ctx bits) = (if bits \<in> {160, 224, 256} then 0 else - 22)"
    by (simp add: av_sha_init_def Let_def)
  moreover have "sha256_rounds buf (a, b, c, d, e, f, g, h, []) = sha256_rounds_small buf (a, b, c, d, e, f, g, h, [])"
    by (rule sha256_rounds_loop) (simp add: sched_def)
  moreover have "fst (av_sha_final (fold (\<lambda>xs c. av_sha_update c xs) chunks (snd (av_sha_init ctx bits)))) =
      sha_digest (sha_function bits) (sha_iv bits) (bits div 32) (concat chunks)"
    if "bits \<in> {160, 224, 256}" using sha_chunks [OF that, of ctx chunks] assms by (simp add: buffer_ok_def piece_fits_def)
  ultimately show ?thesis using sha1_rounds_loop by simp
qed

definition demo_sha :: AVSHA where
  "demo_sha = \<lparr>count_of = 3, buffer_of = replicate 64 0xff, state_of = [], digest_len = 0, transform = (\<lambda>s b. s)\<rparr>"

theorem av_sha_correct_witness:
  "fst (av_sha_final (av_sha_update (av_sha_update (snd (av_sha_init demo_sha 256)) [0x61]) [0x62, 0x63])) =
   fst (av_sha_final (av_sha_update (snd (av_sha_init demo_sha 256)) [0x61, 0x62, 0x63]))"
  using av_sha_correct [of demo_sha "[[0x61], [0x62, 0x63]]" 256] av_sha_correct [of demo_sha "[[0x61, 0x62, 0x63]]" 256]
  by (simp add: demo_sha_def)

end
