(* ===== verification/Sha512.thy ===== *)
theory Sha512
  imports Sha
begin

section \<open>SHA-512 and its variants: \<open>libavutil/sha512.c\<close>\<close>

text \<open>The same structure as SHA-256 over 64-bit words, blocks of 128 bytes and 80 rounds.\<close>

definition K512 :: "64 word list" where
  "K512 =
    [0x428a2f98d728ae22, 0x7137449123ef65cd, 0xb5c0fbcfec4d3b2f, 0xe9b5dba58189dbbc,
     0x3956c25bf348b538, 0x59f111f1b605d019, 0x923f82a4af194f9b, 0xab1c5ed5da6d8118,
     0xd807aa98a3030242, 0x12835b0145706fbe, 0x243185be4ee4b28c, 0x550c7dc3d5ffb4e2,
     0x72be5d74f27b896f, 0x80deb1fe3b1696b1, 0x9bdc06a725c71235, 0xc19bf174cf692694,
     0xe49b69c19ef14ad2, 0xefbe4786384f25e3, 0x0fc19dc68b8cd5b5, 0x240ca1cc77ac9c65,
     0x2de92c6f592b0275, 0x4a7484aa6ea6e483, 0x5cb0a9dcbd41fbd4, 0x76f988da831153b5,
     0x983e5152ee66dfab, 0xa831c66d2db43210, 0xb00327c898fb213f, 0xbf597fc7beef0ee4,
     0xc6e00bf33da88fc2, 0xd5a79147930aa725, 0x06ca6351e003826f, 0x142929670a0e6e70,
     0x27b70a8546d22ffc, 0x2e1b21385c26c926, 0x4d2c6dfc5ac42aed, 0x53380d139d95b3df,
     0x650a73548baf63de, 0x766a0abb3c77b2a8, 0x81c2c92e47edaee6, 0x92722c851482353b,
     0xa2bfe8a14cf10364, 0xa81a664bbc423001, 0xc24b8b70d0f89791, 0xc76c51a30654be30,
     0xd192e819d6ef5218, 0xd69906245565a910, 0xf40e35855771202a, 0x106aa07032bbd1b8,
     0x19a4c116b8d2d0c8, 0x1e376c085141ab53, 0x2748774cdf8eeb99, 0x34b0bcb5e19b48a8,
     0x391c0cb3c5c95a63, 0x4ed8aa4ae3418acb, 0x5b9cca4f7763e373, 0x682e6ff3d6b2b8a3,
     0x748f82ee5defb2fc, 0x78a5636f43172f60, 0x84c87814a1f0ab72, 0x8cc702081a6439ec,
     0x90befffa23631e28, 0xa4506cebde82bde9, 0xbef9a3f7b2c67915, 0xc67178f2e372532b,
     0xca273eceea26619c, 0xd186b8c721c0c207, 0xeada7dd6cde0eb1e, 0xf57d4f7fee6ed178,
     0x06f067aa72176fba, 0x0a637dc5a2c898a6, 0x113f9804bef90dae, 0x1b710b35131c471b,
     0x28db77f523047d84, 0x32caab7b40c72493, 0x3c9ebe0a15c9bebc, 0x431d67c49c100d4c,
     0x4cc5d4becb3e42b6, 0x597f299cfc657e2a, 0x5fcb6fab3ad6faec, 0x6c44198c4a475817]"

definition ror :: "64 word \<Rightarrow> nat \<Rightarrow> 64 word" where
  "ror v n = drop_bit n v OR push_bit (64 - n) v"

definition Sigma0_512 :: "64 word \<Rightarrow> 64 word" where "Sigma0_512 x = ror x 28 XOR ror x 34 XOR ror x 39"
definition Sigma1_512 :: "64 word \<Rightarrow> 64 word" where "Sigma1_512 x = ror x 14 XOR ror x 18 XOR ror x 41"
definition sigma0_512 :: "64 word \<Rightarrow> 64 word" where "sigma0_512 x = ror x 1 XOR ror x 8 XOR drop_bit 7 x"
definition sigma1_512 :: "64 word \<Rightarrow> 64 word" where "sigma1_512 x = ror x 19 XOR ror x 61 XOR drop_bit 6 x"

definition blk0_512 :: "byte list \<Rightarrow> nat \<Rightarrow> 64 word list \<Rightarrow> 64 word list" where
  "blk0_512 buf i block = block @ [AV_RB64 (drop (8 * i) buf)]"

definition blk_512 :: "nat \<Rightarrow> 64 word list \<Rightarrow> 64 word list" where
  "blk_512 i block =
     block @ [block ! (i - 16) + sigma0_512 (block ! (i - 15)) + sigma1_512 (block ! (i - 2)) + block ! (i - 7)]"

definition ROUND512 :: "64 word \<Rightarrow> 64 word sha2_op" where
  "ROUND512 T1 i a b c d e f g h block =
     (let T1 = T1 + (h + Sigma1_512 e + Ch e f g + K512 ! i)
      in (d + T1, T1 + Sigma0_512 a + Maj a b c, block))"

definition ROUND512_0_TO_15 :: "byte list \<Rightarrow> 64 word sha2_op" where
  "ROUND512_0_TO_15 buf i a b c d e f g h block =
     (let block = blk0_512 buf i block in ROUND512 (block ! i) i a b c d e f g h block)"

definition ROUND512_16_TO_80 :: "64 word sha2_op" where
  "ROUND512_16_TO_80 i a b c d e f g h block =
     (let block = blk_512 i block in ROUND512 (block ! i) i a b c d e f g h block)"

definition sha512_rounds :: "byte list \<Rightarrow> 64 word sha2_vars \<Rightarrow> 64 word sha2_vars" where
  "sha512_rounds buf q =
     (let R512_0 = sha2_eight (ROUND512_0_TO_15 buf);
          R512_16 = sha2_eight ROUND512_16_TO_80;
          q = R512_0 8 (R512_0 0 q);
          q = R512_16 40 (R512_16 32 (R512_16 24 (R512_16 16 q)))
      in R512_16 72 (R512_16 64 (R512_16 56 (R512_16 48 q))))"

definition sha512_small_step :: "byte list \<Rightarrow> nat \<Rightarrow> 64 word sha2_vars \<Rightarrow> 64 word sha2_vars" where
  "sha512_small_step buf i = (\<lambda>(a, b, c, d, e, f, g, h, block).
     let block = (if i < 16 then blk0_512 buf i block else blk_512 i block);
         T1 = block ! i;
         T1 = T1 + (h + Sigma1_512 e + Ch e f g + K512 ! i);
         T2 = Sigma0_512 a + Maj a b c
     in (T1 + T2, a, b, c, d + T1, e, f, g, block))"

definition sha512_rounds_small :: "byte list \<Rightarrow> 64 word sha2_vars \<Rightarrow> 64 word sha2_vars" where
  "sha512_rounds_small buf q = fold (sha512_small_step buf) [0..<80] q"

definition sha512_transform :: "64 word list \<Rightarrow> byte list \<Rightarrow> 64 word list" where
  "sha512_transform st buf =
     (let (a, b, c, d, e, f, g, h, block) =
            sha512_rounds buf (st ! 0, st ! 1, st ! 2, st ! 3, st ! 4, st ! 5, st ! 6, st ! 7, [])
      in [st ! 0 + a, st ! 1 + b, st ! 2 + c, st ! 3 + d, st ! 4 + e, st ! 5 + f, st ! 6 + g, st ! 7 + h])"

record AVSHA512 = "64 word list hash_ctx" +
  digest_len512 :: nat

definition av_sha512_init :: "AVSHA512 \<Rightarrow> nat \<Rightarrow> int \<times> AVSHA512" where
  "av_sha512_init ctx bits =
     (let ctx = ctx\<lparr>digest_len512 := bits div 64\<rparr>
      in if bits = 224 then
           (0, ctx\<lparr>count_of := 0, state_of := [0x8C3D37C819544DA2, 0x73E1996689DCD4D6, 0x1DFAB7AE32FF9C82, 0x679DD514582F9FCF,
          0x0F6D2B697BD44DA8, 0x77E36F7304C48942, 0x3F9D85A86A1D36C8, 0x1112E6AD91D692A1]\<rparr>)
         else if bits = 256 then
           (0, ctx\<lparr>count_of := 0, state_of := [0x22312194FC2BF72C, 0x9F555FA3C84C64C2, 0x2393B86B6F53B151, 0x963877195940EABD,
          0x96283EE2A88EFFE3, 0xBE5E1E2553863992, 0x2B0199FC2C85B8AA, 0x0EB72DDC81C52CA2]\<rparr>)
         else if bits = 384 then
           (0, ctx\<lparr>count_of := 0, state_of := [0xCBBB9D5DC1059ED8, 0x629A292A367CD507, 0x9159015A3070DD17, 0x152FECD8F70E5939,
          0x67332667FFC00B31, 0x8EB44A8768581511, 0xDB0C2E0D64F98FA7, 0x47B5481DBEFA4FA4]\<rparr>)
         else if bits = 512 then
           (0, ctx\<lparr>count_of := 0, state_of := [0x6A09E667F3BCC908, 0xBB67AE8584CAA73B, 0x3C6EF372FE94F82B, 0xA54FF53A5F1D36F1,
          0x510E527FADE682D1, 0x9B05688C2B3E6C1F, 0x1F83D9ABFB41BD6B, 0x5BE0CD19137E2179]\<rparr>)
         else (- 22, ctx))"

definition av_sha512_update :: "AVSHA512 \<Rightarrow> byte list \<Rightarrow> AVSHA512" where
  "av_sha512_update ctx data = hash_update sha512_transform 128 ctx data"

definition av_sha512_final :: "AVSHA512 \<Rightarrow> byte list \<times> AVSHA512" where
  "av_sha512_final ctx =
     (let finalcount = AV_WB64 (push_bit 3 (count_of ctx));
          ctx = av_sha512_update ctx [0x80];
          ctx = while (\<lambda>ctx. unat (count_of ctx) mod 128 \<noteq> 112) (\<lambda>ctx. av_sha512_update ctx [0]) ctx;
          ctx = av_sha512_update ctx [0, 0, 0, 0, 0, 0, 0, 0];
          ctx = av_sha512_update ctx finalcount;
          n = digest_len512 ctx
      in (concat (map (\<lambda>i. AV_WB64 (state_of ctx ! i)) [0..<n]) @
          (if odd n then AV_WB32 (ucast (drop_bit 32 (state_of ctx ! n))) else []), ctx))"

subsection \<open>The unrolled rounds are the loop\<close>

definition sha512_op_at :: "byte list \<Rightarrow> 64 word sha2_op" where
  "sha512_op_at buf i = (if i < 16 then ROUND512_0_TO_15 buf i else ROUND512_16_TO_80 i)"

lemma upt_80_by_8: "[0..<80] = [0..<8] @ [8..<16] @ [16..<24] @ [24..<32] @ [32..<40] @ [40..<48] @ [48..<56] @ [56..<64] @
    [64..<72] @ [72..<(80 :: nat)]"
  by code_simp

lemma sha512_rounds_turns: "sha512_rounds buf q = fold (sha2_turn (sha512_op_at buf)) [0..<80] q"
proof -
  have a: "i \<le> 8 \<Longrightarrow> sha2_eight (ROUND512_0_TO_15 buf) i x = fold (sha2_turn (sha512_op_at buf)) [i..<i + 8] x"
    "16 \<le> i \<Longrightarrow> sha2_eight ROUND512_16_TO_80 i x = fold (sha2_turn (sha512_op_at buf)) [i..<i + 8] x" for i x
    unfolding sha2_eight_turns by (intro sha2_turn_cong; auto simp: sha512_op_at_def fun_eq_iff)+
  show ?thesis
    unfolding upt_80_by_8 fold_append comp_def sha512_rounds_def Let_def by (simp add: a)
qed

lemma sha512_small_is_turn: "length (sched q) = i \<Longrightarrow> sha512_small_step buf i q = sha2_turn (sha512_op_at buf) i q"
  by (simp add: sched_def sha512_small_step_def sha2_turn_def sha512_op_at_def ROUND512_0_TO_15_def ROUND512_16_TO_80_def
      ROUND512_def Let_def split: prod.splits)

lemma sha512_turn_length: "length (sched q) = i \<Longrightarrow> length (sched (sha2_turn (sha512_op_at buf) i q)) = Suc i"
  by (simp add: sched_def sha2_turn_def sha512_op_at_def ROUND512_0_TO_15_def ROUND512_16_TO_80_def ROUND512_def
      blk0_512_def blk_512_def Let_def split: prod.splits)

lemma sha512_rounds_loop: "sched q = [] \<Longrightarrow> sha512_rounds buf q = sha512_rounds_small buf q"
  unfolding sha512_rounds_turns sha512_rounds_small_def
  by (rule fold_upt_indexed [symmetric, where len = "\<lambda>q. length (sched q)"])
     (simp_all add: sha512_small_is_turn sha512_turn_length)

subsection \<open>Refinement and property\<close>

definition sha512_ok :: "nat \<Rightarrow> AVSHA512 \<Rightarrow> bool" where
  "sha512_ok n ctx \<longleftrightarrow> buffer_ok 128 ctx \<and> digest_len512 ctx = n"

lemma sha512_ok_update: "sha512_ok n ctx \<Longrightarrow> piece_fits 128 xs \<Longrightarrow> sha512_ok n (av_sha512_update ctx xs)"
  using hash_update_form [of 128 xs sha512_transform ctx] hash_update_laws(1) [of 128 ctx xs sha512_transform]
  by (auto simp: sha512_ok_def av_sha512_update_def)

interpretation sha512: block_hash av_sha512_update state_of "pending_of 128" count_of "sha512_ok n" sha512_transform 128 "piece_fits 128"
  for n
proof unfold_locales
  show "sha512_ok n c \<Longrightarrow> piece_fits 128 xs \<Longrightarrow> sha512_ok n (av_sha512_update c xs)" for c xs by (rule sha512_ok_update)
qed (simp_all add: sha512_ok_def av_sha512_update_def hash_update_laws piece_fits_short)

text \<open>The digest of a message for a start state and a length in 64-bit words, half a word more when it is odd.\<close>

definition sha512_digest :: "64 word list \<Rightarrow> nat \<Rightarrow> byte list \<Rightarrow> byte list" where
  "sha512_digest iv n m =
     (let st = absorb sha512_transform 128 iv
                 (m @ padding 128 112 (length m) @ replicate 8 0 @ AV_WB64 (of_nat (8 * length m)))
      in concat (map (\<lambda>i. AV_WB64 (st ! i)) [0..<n]) @ (if odd n then AV_WB32 (ucast (drop_bit 32 (st ! n))) else []))"

lemma sha512_final_digest:
  assumes "sha512.seen n iv m c"
  shows "fst (av_sha512_final c) = sha512_digest iv n m \<and> buffer_ok 128 (snd (av_sha512_final c))"
proof -
  have c: "push_bit 3 (count_of c) = of_nat (8 * length m)"
    using assms by (simp add: sha512.seen_def push_bit_eq_mult)
  define c' where "c' = av_sha512_update (av_sha512_update (while (\<lambda>ctx. unat (count_of ctx) mod 128 \<noteq> 112)
      (\<lambda>ctx. av_sha512_update ctx [0]) (av_sha512_update c [0x80])) [0, 0, 0, 0, 0, 0, 0, 0]) (AV_WB64 (push_bit 3 (count_of c)))"
  have "sha512.seen n iv (((m @ padding 128 112 (length m)) @ [0, 0, 0, 0, 0, 0, 0, 0]) @ AV_WB64 (push_bit 3 (count_of c))) c'"
    unfolding c'_def by (rule sha512.seen_upd [OF sha512.seen_upd [OF sha512.pad_seen [OF assms]]]) (simp_all add: piece_fits_short)
  moreover have z: "[0, 0, 0, 0, 0, 0, 0, 0] = replicate 8 (0 :: byte)" by code_simp
  ultimately have "state_of c' = absorb sha512_transform 128 iv
      (m @ padding 128 112 (length m) @ replicate 8 0 @ AV_WB64 (of_nat (8 * length m)))" "digest_len512 c' = n" "buffer_ok 128 c'"
    unfolding z by (simp_all only: sha512.seen_def sha512_ok_def c append_assoc)
  then show ?thesis by (simp add: av_sha512_final_def sha512_digest_def c'_def Let_def)
qed

definition sha512_iv :: "nat \<Rightarrow> 64 word list" where
  "sha512_iv bits = state_of (snd (av_sha512_init \<lparr>count_of = 0, buffer_of = [], state_of = [], digest_len512 = 0\<rparr> bits))"

lemma sha512_init_seen:
  assumes "bits \<in> {224, 256, 384, 512}" "length (buffer_of ctx) = 128" "\<forall>xs \<in> set chunks. piece_fits 128 xs"
  shows "sha512.seen (bits div 64) (sha512_iv bits) (concat chunks)
      (fold (\<lambda>xs c. av_sha512_update c xs) chunks (snd (av_sha512_init ctx bits)))"
proof -
  define c where "c = snd (av_sha512_init ctx bits)"
  have "sha512_ok (bits div 64) c" "count_of c = 0" "pending_of 128 c = []" "state_of c = sha512_iv bits"
    using assms by (auto simp: c_def av_sha512_init_def sha512_ok_def buffer_ok_def pending_of_def sha512_iv_def)
  then show ?thesis using sha512.chunks_seen [of "bits div 64" c chunks] assms(3) by (simp add: c_def)
qed

lemma sha512_chunks:
  assumes "bits \<in> {224, 256, 384, 512}" "buffer_ok 128 ctx" "\<forall>xs \<in> set chunks. piece_fits 128 xs"
  shows "fst (av_sha512_final (fold (\<lambda>xs c. av_sha512_update c xs) chunks (snd (av_sha512_init ctx bits)))) =
      sha512_digest (sha512_iv bits) (bits div 64) (concat chunks) \<and>
    buffer_ok 128 (snd (av_sha512_final (fold (\<lambda>xs c. av_sha512_update c xs) chunks (snd (av_sha512_init ctx bits)))))"
  using sha512_final_digest [OF sha512_init_seen [OF assms(1) _ assms(3)]] assms(2) by (simp add: buffer_ok_def)

text \<open>C38. SHA-512, SHA-384 and the truncated variants compute the digest of the message whatever the pieces it
  arrives in, each of at most \<open>2 ^ 32 - 128\<close> bytes (longer ones wrap the sums of \<open>av_sha512_update\<close>); other digest sizes are refused; the unrolled rounds compute what the loop does.\<close>

theorem av_sha512_correct:
  assumes "length (buffer_of ctx) = 128" "\<forall>xs \<in> set chunks. length xs \<le> 2 ^ 32 - 128"
  shows "(if bits \<in> {224, 256, 384, 512}
      then fst (av_sha512_init ctx bits) = 0 \<and>
        fst (av_sha512_final (fold (\<lambda>xs c. av_sha512_update c xs) chunks (snd (av_sha512_init ctx bits)))) =
          sha512_digest (sha512_iv bits) (bits div 64) (concat chunks)
      else fst (av_sha512_init ctx bits) = - 22) \<and>
    sha512_rounds buf (a, b, c, d, e, f, g, h, []) = sha512_rounds_small buf (a, b, c, d, e, f, g, h, [])"
proof -
  have "fst (av_sha512_init ctx bits) = (if bits \<in> {224, 256, 384, 512} then 0 else - 22)"
    by (simp add: av_sha512_init_def Let_def)
  moreover have "sha512_rounds buf (a, b, c, d, e, f, g, h, []) = sha512_rounds_small buf (a, b, c, d, e, f, g, h, [])"
    by (rule sha512_rounds_loop) (simp add: sched_def)
  moreover have "fst (av_sha512_final (fold (\<lambda>xs c. av_sha512_update c xs) chunks (snd (av_sha512_init ctx bits)))) =
      sha512_digest (sha512_iv bits) (bits div 64) (concat chunks)"
    if "bits \<in> {224, 256, 384, 512}" using sha512_chunks [OF that, of ctx chunks] assms by (simp add: buffer_ok_def piece_fits_def)
  ultimately show ?thesis by simp
qed

definition demo_sha512 :: AVSHA512 where
  "demo_sha512 = \<lparr>count_of = 3, buffer_of = replicate 128 0xff, state_of = [], digest_len512 = 0\<rparr>"

theorem av_sha512_correct_witness:
  "fst (av_sha512_final (av_sha512_update (av_sha512_update (snd (av_sha512_init demo_sha512 384)) [0x61]) [0x62, 0x63])) =
   fst (av_sha512_final (av_sha512_update (snd (av_sha512_init demo_sha512 384)) [0x61, 0x62, 0x63]))"
  using av_sha512_correct [of demo_sha512 "[[0x61], [0x62, 0x63]]" 384] av_sha512_correct [of demo_sha512 "[[0x61, 0x62, 0x63]]" 384]
  by (simp add: demo_sha512_def)

end
