(* ===== verification/Ripemd.thy ===== *)
theory Ripemd
  imports Hashbuf
begin

section \<open>RIPEMD-128, -160, -256 and -320: \<open>libavutil/ripemd.c\<close>\<close>

text \<open>
  The four transformations, unrolled as they are compiled and in the loop form of \<open>CONFIG_SMALL\<close>, and the
  context with its operations.  The two parallel lines of a transformation are one tuple of variables
  \<open>(a, b, .., h)\<close> or \<open>(a, b, .., j)\<close>; a round macro maps the tuple with its arguments to the tuple after its
  assignments, and the round number \<open>n\<close>, which every macro increments, is passed to it.
\<close>

subsection \<open>Tables and rounds\<close>

definition KA :: "32 word list" where
  "KA =
    [0x5a827999, 0x6ed9eba1, 0x8f1bbcdc, 0xa953fd4e]"

definition KB :: "32 word list" where
  "KB =
    [0x50a28be6, 0x5c4dd124, 0x6d703ef3, 0x7a6d76e9]"

definition ROTA :: "nat list" where
  "ROTA =
    [11, 14, 15, 12, 5, 8, 7, 9, 11, 13, 14, 15, 6, 7, 9, 8,
     7, 6, 8, 13, 11, 9, 7, 15, 7, 12, 15, 9, 11, 7, 13, 12,
     11, 13, 6, 7, 14, 9, 13, 15, 14, 8, 13, 6, 5, 12, 7, 5,
     11, 12, 14, 15, 14, 15, 9, 8, 9, 14, 5, 6, 8, 6, 5, 12,
     9, 15, 5, 11, 6, 8, 13, 12, 5, 12, 13, 14, 11, 8, 5, 6]"

definition ROTB :: "nat list" where
  "ROTB =
    [8, 9, 9, 11, 13, 15, 15, 5, 7, 7, 8, 11, 14, 14, 12, 6,
     9, 13, 15, 7, 12, 8, 9, 11, 7, 7, 12, 7, 6, 15, 13, 11,
     9, 7, 15, 11, 8, 6, 6, 14, 12, 13, 5, 14, 13, 13, 7, 5,
     15, 5, 8, 11, 14, 14, 6, 14, 6, 9, 12, 9, 12, 5, 15, 8,
     8, 5, 12, 9, 12, 5, 14, 6, 8, 13, 6, 5, 15, 13, 11, 11]"

definition WA :: "nat list" where
  "WA =
    [0, 1, 2, 3, 4, 5, 6, 7, 8, 9, 10, 11, 12, 13, 14, 15,
     7, 4, 13, 1, 10, 6, 15, 3, 12, 0, 9, 5, 2, 14, 11, 8,
     3, 10, 14, 4, 9, 15, 8, 1, 2, 7, 0, 6, 13, 11, 5, 12,
     1, 9, 11, 10, 0, 8, 12, 4, 13, 3, 7, 15, 14, 5, 6, 2,
     4, 0, 5, 9, 7, 12, 2, 10, 14, 1, 3, 8, 11, 6, 15, 13]"

definition WB :: "nat list" where
  "WB =
    [5, 14, 7, 0, 9, 2, 11, 4, 13, 6, 15, 8, 1, 10, 3, 12,
     6, 11, 3, 7, 0, 13, 5, 10, 14, 15, 8, 12, 4, 9, 1, 2,
     15, 5, 1, 3, 7, 14, 6, 9, 11, 8, 12, 2, 10, 0, 4, 13,
     8, 6, 4, 1, 3, 11, 15, 0, 5, 12, 2, 13, 9, 7, 10, 14,
     12, 15, 10, 4, 1, 5, 8, 7, 6, 2, 13, 14, 0, 3, 9, 11]"


type_synonym rmd8 = "32 word \<times> 32 word \<times> 32 word \<times> 32 word \<times> 32 word \<times> 32 word \<times> 32 word \<times> 32 word"
type_synonym rmd10 =
  "32 word \<times> 32 word \<times> 32 word \<times> 32 word \<times> 32 word \<times> 32 word \<times> 32 word \<times> 32 word \<times> 32 word \<times> 32 word"

definition ROUND128_0_TO_15 :: "32 word list \<Rightarrow> nat \<Rightarrow> rmd8 \<Rightarrow> rmd8" where
  "ROUND128_0_TO_15 blk n = (\<lambda>(a, b, c, d, e, f, g, h).
     let a = rol (a + (( b XOR c XOR d) + blk ! (WA ! n))) (ROTA ! n);
         e = rol (e + ((((f XOR g) AND h) XOR g) + blk ! (WB ! n) + KB ! 0)) (ROTB ! n)
     in (a, b, c, d, e, f, g, h))"

definition ROUND128_16_TO_31 :: "32 word list \<Rightarrow> nat \<Rightarrow> rmd8 \<Rightarrow> rmd8" where
  "ROUND128_16_TO_31 blk n = (\<lambda>(a, b, c, d, e, f, g, h).
     let a = rol (a + ((((c XOR d) AND b) XOR d) + blk ! (WA ! n) + KA ! 0)) (ROTA ! n);
         e = rol (e + (((NOT g OR f) XOR h) + blk ! (WB ! n) + KB ! 1)) (ROTB ! n)
     in (a, b, c, d, e, f, g, h))"

definition ROUND128_32_TO_47 :: "32 word list \<Rightarrow> nat \<Rightarrow> rmd8 \<Rightarrow> rmd8" where
  "ROUND128_32_TO_47 blk n = (\<lambda>(a, b, c, d, e, f, g, h).
     let a = rol (a + (((NOT c OR b) XOR d) + blk ! (WA ! n) + KA ! 1)) (ROTA ! n);
         e = rol (e + ((((g XOR h) AND f) XOR h) + blk ! (WB ! n) + KB ! 2)) (ROTB ! n)
     in (a, b, c, d, e, f, g, h))"

definition ROUND128_48_TO_63 :: "32 word list \<Rightarrow> nat \<Rightarrow> rmd8 \<Rightarrow> rmd8" where
  "ROUND128_48_TO_63 blk n = (\<lambda>(a, b, c, d, e, f, g, h).
     let a = rol (a + ((((b XOR c) AND d) XOR c) + blk ! (WA ! n) + KA ! 2)) (ROTA ! n);
         e = rol (e + (( f XOR g XOR h) + blk ! (WB ! n))) (ROTB ! n)
     in (a, b, c, d, e, f, g, h))"

definition ROUND160_0_TO_15 :: "32 word list \<Rightarrow> nat \<Rightarrow> rmd10 \<Rightarrow> rmd10" where
  "ROUND160_0_TO_15 blk n = (\<lambda>(a, b, c, d, e, f, g, h, i, j).
     let a = rol (a + (( b XOR c XOR d) + blk ! (WA ! n))) (ROTA ! n) + e;
         f = rol (f + (((NOT i OR h) XOR g) + blk ! (WB ! n) + KB ! 0)) (ROTB ! n) + j
     in (a, b, rol c 10, d, e, f, g, rol h 10, i, j))"

definition ROUND160_16_TO_31 :: "32 word list \<Rightarrow> nat \<Rightarrow> rmd10 \<Rightarrow> rmd10" where
  "ROUND160_16_TO_31 blk n = (\<lambda>(a, b, c, d, e, f, g, h, i, j).
     let a = rol (a + ((((c XOR d) AND b) XOR d) + blk ! (WA ! n) + KA ! 0)) (ROTA ! n) + e;
         f = rol (f + ((((g XOR h) AND i) XOR h) + blk ! (WB ! n) + KB ! 1)) (ROTB ! n) + j
     in (a, b, rol c 10, d, e, f, g, rol h 10, i, j))"

definition ROUND160_32_TO_47 :: "32 word list \<Rightarrow> nat \<Rightarrow> rmd10 \<Rightarrow> rmd10" where
  "ROUND160_32_TO_47 blk n = (\<lambda>(a, b, c, d, e, f, g, h, i, j).
     let a = rol (a + (((NOT c OR b) XOR d) + blk ! (WA ! n) + KA ! 1)) (ROTA ! n) + e;
         f = rol (f + (((NOT h OR g) XOR i) + blk ! (WB ! n) + KB ! 2)) (ROTB ! n) + j
     in (a, b, rol c 10, d, e, f, g, rol h 10, i, j))"

definition ROUND160_48_TO_63 :: "32 word list \<Rightarrow> nat \<Rightarrow> rmd10 \<Rightarrow> rmd10" where
  "ROUND160_48_TO_63 blk n = (\<lambda>(a, b, c, d, e, f, g, h, i, j).
     let a = rol (a + ((((b XOR c) AND d) XOR c) + blk ! (WA ! n) + KA ! 2)) (ROTA ! n) + e;
         f = rol (f + ((((h XOR i) AND g) XOR i) + blk ! (WB ! n) + KB ! 3)) (ROTB ! n) + j
     in (a, b, rol c 10, d, e, f, g, rol h 10, i, j))"

definition ROUND160_64_TO_79 :: "32 word list \<Rightarrow> nat \<Rightarrow> rmd10 \<Rightarrow> rmd10" where
  "ROUND160_64_TO_79 blk n = (\<lambda>(a, b, c, d, e, f, g, h, i, j).
     let a = rol (a + (((NOT d OR c) XOR b) + blk ! (WA ! n) + KA ! 3)) (ROTA ! n) + e;
         f = rol (f + (( g XOR h XOR i) + blk ! (WB ! n))) (ROTB ! n) + j
     in (a, b, rol c 10, d, e, f, g, rol h 10, i, j))"

subsection \<open>Groups of rounds\<close>

text \<open>Four rounds with the variables in turn, and \<open>R128_k; R128_k; R128_k; R128_k\<close>.\<close>

definition rmd_four :: "(nat \<Rightarrow> rmd8 \<Rightarrow> rmd8) \<Rightarrow> nat \<Rightarrow> rmd8 \<Rightarrow> rmd8" where
  "rmd_four R n = (\<lambda>(a, b, c, d, e, f, g, h).
     let (a, b, c, d, e, f, g, h) = R n (a, b, c, d, e, f, g, h);
         (d, a, b, c, h, e, f, g) = R (n + 1) (d, a, b, c, h, e, f, g);
         (c, d, a, b, g, h, e, f) = R (n + 2) (c, d, a, b, g, h, e, f);
         (b, c, d, a, f, g, h, e) = R (n + 3) (b, c, d, a, f, g, h, e)
     in (a, b, c, d, e, f, g, h))"

definition four_times :: "(nat \<Rightarrow> rmd8 \<Rightarrow> rmd8) \<Rightarrow> nat \<Rightarrow> rmd8 \<Rightarrow> rmd8" where
  "four_times R n q = R (n + 12) (R (n + 8) (R (n + 4) (R n q)))"

definition R128_0 :: "32 word list \<Rightarrow> nat \<Rightarrow> rmd8 \<Rightarrow> rmd8" where "R128_0 blk = rmd_four (ROUND128_0_TO_15 blk)"
definition R128_16 :: "32 word list \<Rightarrow> nat \<Rightarrow> rmd8 \<Rightarrow> rmd8" where "R128_16 blk = rmd_four (ROUND128_16_TO_31 blk)"
definition R128_32 :: "32 word list \<Rightarrow> nat \<Rightarrow> rmd8 \<Rightarrow> rmd8" where "R128_32 blk = rmd_four (ROUND128_32_TO_47 blk)"
definition R128_48 :: "32 word list \<Rightarrow> nat \<Rightarrow> rmd8 \<Rightarrow> rmd8" where "R128_48 blk = rmd_four (ROUND128_48_TO_63 blk)"

text \<open>The exchanges \<open>FFSWAP\<close> between the lines.\<close>

definition swap_ae :: "rmd8 \<Rightarrow> rmd8" where "swap_ae = (\<lambda>(a, b, c, d, e, f, g, h). (e, b, c, d, a, f, g, h))"
definition swap_bf :: "rmd8 \<Rightarrow> rmd8" where "swap_bf = (\<lambda>(a, b, c, d, e, f, g, h). (a, f, c, d, e, b, g, h))"
definition swap_cg :: "rmd8 \<Rightarrow> rmd8" where "swap_cg = (\<lambda>(a, b, c, d, e, f, g, h). (a, b, g, d, e, f, c, h))"
definition swap_dh :: "rmd8 \<Rightarrow> rmd8" where "swap_dh = (\<lambda>(a, b, c, d, e, f, g, h). (a, b, c, h, e, f, g, d))"

definition ripemd128_rounds :: "32 word list \<Rightarrow> rmd8 \<Rightarrow> rmd8" where
  "ripemd128_rounds blk q =
     four_times (R128_48 blk) 48 (four_times (R128_32 blk) 32 (four_times (R128_16 blk) 16 (four_times (R128_0 blk) 0 q)))"

definition ripemd256_rounds :: "32 word list \<Rightarrow> rmd8 \<Rightarrow> rmd8" where
  "ripemd256_rounds blk q =
     swap_dh (four_times (R128_48 blk) 48 (swap_cg (four_times (R128_32 blk) 32
       (swap_bf (four_times (R128_16 blk) 16 (swap_ae (four_times (R128_0 blk) 0 q)))))))"

text \<open>The loops: a round, then the variables of both lines move on by one.\<close>

definition rot8 :: "rmd8 \<Rightarrow> rmd8" where "rot8 = (\<lambda>(a, b, c, d, e, f, g, h). (d, a, b, c, h, e, f, g))"

definition loop128 :: "(nat \<Rightarrow> rmd8 \<Rightarrow> rmd8) \<Rightarrow> nat \<Rightarrow> nat \<Rightarrow> rmd8 \<Rightarrow> rmd8" where
  "loop128 R m n q = fold (\<lambda>n q. rot8 (R n q)) [m..<n] q"

definition ripemd128_rounds_small :: "32 word list \<Rightarrow> rmd8 \<Rightarrow> rmd8" where
  "ripemd128_rounds_small blk q =
     loop128 (ROUND128_48_TO_63 blk) 48 64 (loop128 (ROUND128_32_TO_47 blk) 32 48
       (loop128 (ROUND128_16_TO_31 blk) 16 32 (loop128 (ROUND128_0_TO_15 blk) 0 16 q)))"

definition ripemd256_rounds_small :: "32 word list \<Rightarrow> rmd8 \<Rightarrow> rmd8" where
  "ripemd256_rounds_small blk q =
     swap_dh (loop128 (ROUND128_48_TO_63 blk) 48 64 (swap_cg (loop128 (ROUND128_32_TO_47 blk) 32 48
       (swap_bf (loop128 (ROUND128_16_TO_31 blk) 16 32 (swap_ae (loop128 (ROUND128_0_TO_15 blk) 0 16 q)))))))"

text \<open>Five rounds with the variables in turn.  The groups \<open>R160_16\<close> .. \<open>R160_64\<close> begin with the variables renamed:
  \<open>names_e\<close> puts \<open>e\<close> and \<open>j\<close> first, and so on; \<open>names_b\<close> undoes \<open>names_e\<close>, \<open>names_c\<close> undoes \<open>names_d\<close>.\<close>

definition rmd_five :: "(nat \<Rightarrow> rmd10 \<Rightarrow> rmd10) \<Rightarrow> nat \<Rightarrow> rmd10 \<Rightarrow> rmd10" where
  "rmd_five R n = (\<lambda>(a, b, c, d, e, f, g, h, i, j).
     let (a, b, c, d, e, f, g, h, i, j) = R n (a, b, c, d, e, f, g, h, i, j);
         (e, a, b, c, d, j, f, g, h, i) = R (n + 1) (e, a, b, c, d, j, f, g, h, i);
         (d, e, a, b, c, i, j, f, g, h) = R (n + 2) (d, e, a, b, c, i, j, f, g, h);
         (c, d, e, a, b, h, i, j, f, g) = R (n + 3) (c, d, e, a, b, h, i, j, f, g);
         (b, c, d, e, a, g, h, i, j, f) = R (n + 4) (b, c, d, e, a, g, h, i, j, f)
     in (a, b, c, d, e, f, g, h, i, j))"

definition names_e :: "rmd10 \<Rightarrow> rmd10" where
  "names_e = (\<lambda>(a, b, c, d, e, f, g, h, i, j). (e, a, b, c, d, j, f, g, h, i))"
definition names_d :: "rmd10 \<Rightarrow> rmd10" where
  "names_d = (\<lambda>(a, b, c, d, e, f, g, h, i, j). (d, e, a, b, c, i, j, f, g, h))"
definition names_c :: "rmd10 \<Rightarrow> rmd10" where
  "names_c = (\<lambda>(a, b, c, d, e, f, g, h, i, j). (c, d, e, a, b, h, i, j, f, g))"
definition names_b :: "rmd10 \<Rightarrow> rmd10" where
  "names_b = (\<lambda>(a, b, c, d, e, f, g, h, i, j). (b, c, d, e, a, g, h, i, j, f))"

definition R160_0 :: "32 word list \<Rightarrow> nat \<Rightarrow> rmd10 \<Rightarrow> rmd10" where
  "R160_0 blk n q = rmd_five (ROUND160_0_TO_15 blk) n q"
definition R160_16 :: "32 word list \<Rightarrow> nat \<Rightarrow> rmd10 \<Rightarrow> rmd10" where
  "R160_16 blk n q = names_b (rmd_five (ROUND160_16_TO_31 blk) n (names_e q))"
definition R160_32 :: "32 word list \<Rightarrow> nat \<Rightarrow> rmd10 \<Rightarrow> rmd10" where
  "R160_32 blk n q = names_c (rmd_five (ROUND160_32_TO_47 blk) n (names_d q))"
definition R160_48 :: "32 word list \<Rightarrow> nat \<Rightarrow> rmd10 \<Rightarrow> rmd10" where
  "R160_48 blk n q = names_d (rmd_five (ROUND160_48_TO_63 blk) n (names_c q))"
definition R160_64 :: "32 word list \<Rightarrow> nat \<Rightarrow> rmd10 \<Rightarrow> rmd10" where
  "R160_64 blk n q = names_e (rmd_five (ROUND160_64_TO_79 blk) n (names_b q))"

text \<open>Sixteen rounds: three groups and one round.\<close>

definition sixteen_0 :: "32 word list \<Rightarrow> rmd10 \<Rightarrow> rmd10" where
  "sixteen_0 blk q = ROUND160_0_TO_15 blk 15 (R160_0 blk 10 (R160_0 blk 5 (R160_0 blk 0 q)))"
definition sixteen_16 :: "32 word list \<Rightarrow> rmd10 \<Rightarrow> rmd10" where
  "sixteen_16 blk q = names_b (ROUND160_16_TO_31 blk 31 (names_e (R160_16 blk 26 (R160_16 blk 21 (R160_16 blk 16 q)))))"
definition sixteen_32 :: "32 word list \<Rightarrow> rmd10 \<Rightarrow> rmd10" where
  "sixteen_32 blk q = names_c (ROUND160_32_TO_47 blk 47 (names_d (R160_32 blk 42 (R160_32 blk 37 (R160_32 blk 32 q)))))"
definition sixteen_48 :: "32 word list \<Rightarrow> rmd10 \<Rightarrow> rmd10" where
  "sixteen_48 blk q = names_d (ROUND160_48_TO_63 blk 63 (names_c (R160_48 blk 58 (R160_48 blk 53 (R160_48 blk 48 q)))))"
definition sixteen_64 :: "32 word list \<Rightarrow> rmd10 \<Rightarrow> rmd10" where
  "sixteen_64 blk q = names_e (ROUND160_64_TO_79 blk 79 (names_b (R160_64 blk 74 (R160_64 blk 69 (R160_64 blk 64 q)))))"

definition swap_af :: "rmd10 \<Rightarrow> rmd10" where "swap_af = (\<lambda>(a, b, c, d, e, f, g, h, i, j). (f, b, c, d, e, a, g, h, i, j))"
definition swap_bg :: "rmd10 \<Rightarrow> rmd10" where "swap_bg = (\<lambda>(a, b, c, d, e, f, g, h, i, j). (a, g, c, d, e, f, b, h, i, j))"
definition swap_ch :: "rmd10 \<Rightarrow> rmd10" where "swap_ch = (\<lambda>(a, b, c, d, e, f, g, h, i, j). (a, b, h, d, e, f, g, c, i, j))"
definition swap_di :: "rmd10 \<Rightarrow> rmd10" where "swap_di = (\<lambda>(a, b, c, d, e, f, g, h, i, j). (a, b, c, i, e, f, g, h, d, j))"
definition swap_ej :: "rmd10 \<Rightarrow> rmd10" where "swap_ej = (\<lambda>(a, b, c, d, e, f, g, h, i, j). (a, b, c, d, j, f, g, h, i, e))"

definition ripemd160_rounds :: "32 word list \<Rightarrow> rmd10 \<Rightarrow> rmd10" where
  "ripemd160_rounds blk q = sixteen_64 blk (sixteen_48 blk (sixteen_32 blk (sixteen_16 blk (sixteen_0 blk q))))"

definition ripemd320_rounds :: "32 word list \<Rightarrow> rmd10 \<Rightarrow> rmd10" where
  "ripemd320_rounds blk q =
     swap_ej (sixteen_64 blk (swap_di (sixteen_48 blk (swap_ch (sixteen_32 blk (swap_bg (sixteen_16 blk (swap_af (sixteen_0 blk q)))))))))"

text \<open>The loops; the exchanges name the variables as they stand there.\<close>

definition loop160 :: "(nat \<Rightarrow> rmd10 \<Rightarrow> rmd10) \<Rightarrow> nat \<Rightarrow> nat \<Rightarrow> rmd10 \<Rightarrow> rmd10" where
  "loop160 R m n q = fold (\<lambda>n q. names_e (R n q)) [m..<n] q"

definition ripemd160_rounds_small :: "32 word list \<Rightarrow> rmd10 \<Rightarrow> rmd10" where
  "ripemd160_rounds_small blk q =
     loop160 (ROUND160_64_TO_79 blk) 64 80 (loop160 (ROUND160_48_TO_63 blk) 48 64 (loop160 (ROUND160_32_TO_47 blk) 32 48
       (loop160 (ROUND160_16_TO_31 blk) 16 32 (loop160 (ROUND160_0_TO_15 blk) 0 16 q))))"

definition ripemd320_rounds_small :: "32 word list \<Rightarrow> rmd10 \<Rightarrow> rmd10" where
  "ripemd320_rounds_small blk q =
     swap_ej (loop160 (ROUND160_64_TO_79 blk) 64 80 (swap_ch (loop160 (ROUND160_48_TO_63 blk) 48 64
       (swap_af (loop160 (ROUND160_32_TO_47 blk) 32 48 (swap_di (loop160 (ROUND160_16_TO_31 blk) 16 32
         (swap_bg (loop160 (ROUND160_0_TO_15 blk) 0 16 q)))))))))"

subsection \<open>Transformations and context\<close>

definition rmd_block :: "byte list \<Rightarrow> 32 word list" where
  "rmd_block buf = map (\<lambda>n. AV_RL32 (drop (4 * n) buf)) [0..<16]"

definition ripemd128_transform :: "32 word list \<Rightarrow> byte list \<Rightarrow> 32 word list" where
  "ripemd128_transform st buf =
     (let (a, b, c, d, e, f, g, h) = ripemd128_rounds (rmd_block buf)
            (st ! 0, st ! 1, st ! 2, st ! 3, st ! 0, st ! 1, st ! 2, st ! 3)
      in [h + (c + st ! 1), st ! 2 + d + e, st ! 3 + a + f, st ! 0 + b + g] @ drop 4 st)"

definition ripemd256_transform :: "32 word list \<Rightarrow> byte list \<Rightarrow> 32 word list" where
  "ripemd256_transform st buf =
     (let (a, b, c, d, e, f, g, h) = ripemd256_rounds (rmd_block buf)
            (st ! 0, st ! 1, st ! 2, st ! 3, st ! 4, st ! 5, st ! 6, st ! 7)
      in [st ! 0 + a, st ! 1 + b, st ! 2 + c, st ! 3 + d, st ! 4 + e, st ! 5 + f, st ! 6 + g, st ! 7 + h] @ drop 8 st)"

definition ripemd160_transform :: "32 word list \<Rightarrow> byte list \<Rightarrow> 32 word list" where
  "ripemd160_transform st buf =
     (let (a, b, c, d, e, f, g, h, i, j) = ripemd160_rounds (rmd_block buf)
            (st ! 0, st ! 1, st ! 2, st ! 3, st ! 4, st ! 0, st ! 1, st ! 2, st ! 3, st ! 4)
      in [i + (c + st ! 1), st ! 2 + d + j, st ! 3 + e + f, st ! 4 + a + g, st ! 0 + b + h] @ drop 5 st)"

definition ripemd320_transform :: "32 word list \<Rightarrow> byte list \<Rightarrow> 32 word list" where
  "ripemd320_transform st buf =
     (let (a, b, c, d, e, f, g, h, i, j) = ripemd320_rounds (rmd_block buf)
            (st ! 0, st ! 1, st ! 2, st ! 3, st ! 4, st ! 5, st ! 6, st ! 7, st ! 8, st ! 9)
      in [st ! 0 + a, st ! 1 + b, st ! 2 + c, st ! 3 + d, st ! 4 + e,
          st ! 5 + f, st ! 6 + g, st ! 7 + h, st ! 8 + i, st ! 9 + j] @ drop 10 st)"

record AVRIPEMD = "32 word list hash_ctx" +
  digest_words :: nat
  rmd_transform :: "32 word list \<Rightarrow> byte list \<Rightarrow> 32 word list"

definition av_ripemd_init :: "AVRIPEMD \<Rightarrow> nat \<Rightarrow> int \<times> AVRIPEMD" where
  "av_ripemd_init ctx bits =
     (let ctx = ctx\<lparr>digest_words := bits div 32\<rparr>;
          set = (\<lambda>n iv f. (0, ctx\<lparr>state_of := iv @ drop n (state_of ctx), rmd_transform := f, count_of := 0\<rparr>))
      in if bits = 128 then set 4 [0x67452301, 0xEFCDAB89, 0x98BADCFE, 0x10325476] ripemd128_transform
         else if bits = 160 then set 5 [0x67452301, 0xEFCDAB89, 0x98BADCFE, 0x10325476, 0xC3D2E1F0] ripemd160_transform
         else if bits = 256 then set 8 [0x67452301, 0xEFCDAB89, 0x98BADCFE, 0x10325476,
           0x76543210, 0xFEDCBA98, 0x89ABCDEF, 0x01234567] ripemd256_transform
         else if bits = 320 then set 10 [0x67452301, 0xEFCDAB89, 0x98BADCFE, 0x10325476, 0xC3D2E1F0,
           0x76543210, 0xFEDCBA98, 0x89ABCDEF, 0x01234567, 0x3C2D1E0F] ripemd320_transform
         else (- 22, ctx))"

definition av_ripemd_update :: "AVRIPEMD \<Rightarrow> byte list \<Rightarrow> AVRIPEMD" where
  "av_ripemd_update ctx data = hash_update (rmd_transform ctx) 64 ctx data"

definition av_ripemd_final :: "AVRIPEMD \<Rightarrow> byte list \<times> AVRIPEMD" where
  "av_ripemd_final ctx =
     (let finalcount = AV_WL64 (push_bit 3 (count_of ctx));
          ctx = av_ripemd_update ctx [0x80];
          ctx = while (\<lambda>ctx. unat (count_of ctx) mod 64 \<noteq> 56) (\<lambda>ctx. av_ripemd_update ctx [0]) ctx;
          ctx = av_ripemd_update ctx finalcount
      in (concat (map (\<lambda>i. AV_WL32 (state_of ctx ! i)) [0..<digest_words ctx]), ctx))"

subsection \<open>The unrolled rounds are the loops\<close>

lemma rmd8_cases: obtains a b c d e f g h where "q = (a, b, c, d, e, f, g, h :: 32 word)"
  by (cases q) auto

lemma rmd_four_loop: "rmd_four R n q = fold (\<lambda>n q. rot8 (R n q)) [n..<n + 4] q"
proof -
  have l: "[n..<n + 4] = [n, n + 1, n + 2, n + 3]" by (simp add: upt_rec)
  obtain a b c d e f g h where q: "q = (a, b, c, d, e, f, g, h)" by (rule rmd8_cases)
  obtain a0 b0 c0 d0 e0 f0 g0 h0 where r0: "R n (a, b, c, d, e, f, g, h) = (a0, b0, c0, d0, e0, f0, g0, h0)" by (rule rmd8_cases)
  obtain a1 b1 c1 d1 e1 f1 g1 h1
    where r1: "R (n + 1) (d0, a0, b0, c0, h0, e0, f0, g0) = (d1, a1, b1, c1, h1, e1, f1, g1)" by (rule rmd8_cases)
  obtain a2 b2 c2 d2 e2 f2 g2 h2
    where r2: "R (n + 2) (c1, d1, a1, b1, g1, h1, e1, f1) = (c2, d2, a2, b2, g2, h2, e2, f2)" by (rule rmd8_cases)
  obtain a3 b3 c3 d3 e3 f3 g3 h3
    where r3: "R (n + 3) (b2, c2, d2, a2, f2, g2, h2, e2) = (b3, c3, d3, a3, f3, g3, h3, e3)" by (rule rmd8_cases)
  show ?thesis
    unfolding q l rmd_four_def rot8_def by (simp only: fold_simps prod.case Let_def r0 r1 r2 r3)
qed

lemma four_times_loop: "four_times (rmd_four R) n q = loop128 R n (n + 16) q"
proof -
  have "[n..<n + 16] = [n..<n + 4] @ [n + 4..<n + 4 + 4] @ [n + 8..<n + 8 + 4] @ [n + 12..<n + 12 + 4]"
    by (simp add: upt_add_eq_append [symmetric] add.assoc upt_rec)
  then show ?thesis by (simp only: fold_append comp_def four_times_def loop128_def rmd_four_loop)
qed

lemma ripemd128_rounds_loop: "ripemd128_rounds blk q = ripemd128_rounds_small blk q"
  by (simp add: ripemd128_rounds_def ripemd128_rounds_small_def R128_0_def R128_16_def R128_32_def R128_48_def four_times_loop)

lemma ripemd256_rounds_loop: "ripemd256_rounds blk q = ripemd256_rounds_small blk q"
  by (simp add: ripemd256_rounds_def ripemd256_rounds_small_def R128_0_def R128_16_def R128_32_def R128_48_def four_times_loop)

lemma names_undo [simp]:
  "names_e (names_b q) = q" "names_b (names_e q) = q" "names_d (names_c q) = q" "names_c (names_d q) = q"
  by (simp_all add: names_b_def names_c_def names_d_def names_e_def split: prod.splits)

lemma names_twice: "names_d (names_b q) = names_e q" "names_c (names_c q) = names_e q" "names_b (names_d q) = names_e q"
  by (simp_all add: names_b_def names_c_def names_d_def names_e_def split: prod.splits)

lemma rmd10_cases: obtains a b c d e f g h i j where "q = (a, b, c, d, e, f, g, h, i, j :: 32 word)"
  by (cases q) auto

lemma rmd_five_loop: "rmd_five R n q = fold (\<lambda>n q. names_e (R n q)) [n..<n + 5] q"
proof -
  have l: "[n..<n + 5] = [n, n + 1, n + 2, n + 3, n + 4]" by (simp add: upt_rec)
  obtain a b c d e f g h i j where q: "q = (a, b, c, d, e, f, g, h, i, j)" by (rule rmd10_cases)
  obtain a0 b0 c0 d0 e0 f0 g0 h0 i0 j0
    where r0: "R n (a, b, c, d, e, f, g, h, i, j) = (a0, b0, c0, d0, e0, f0, g0, h0, i0, j0)" by (rule rmd10_cases)
  obtain a1 b1 c1 d1 e1 f1 g1 h1 i1 j1
    where r1: "R (n + 1) (e0, a0, b0, c0, d0, j0, f0, g0, h0, i0) = (e1, a1, b1, c1, d1, j1, f1, g1, h1, i1)" by (rule rmd10_cases)
  obtain a2 b2 c2 d2 e2 f2 g2 h2 i2 j2
    where r2: "R (n + 2) (d1, e1, a1, b1, c1, i1, j1, f1, g1, h1) = (d2, e2, a2, b2, c2, i2, j2, f2, g2, h2)" by (rule rmd10_cases)
  obtain a3 b3 c3 d3 e3 f3 g3 h3 i3 j3
    where r3: "R (n + 3) (c2, d2, e2, a2, b2, h2, i2, j2, f2, g2) = (c3, d3, e3, a3, b3, h3, i3, j3, f3, g3)" by (rule rmd10_cases)
  obtain a4 b4 c4 d4 e4 f4 g4 h4 i4 j4
    where r4: "R (n + 4) (b3, c3, d3, e3, a3, g3, h3, i3, j3, f3) = (b4, c4, d4, e4, a4, g4, h4, i4, j4, f4)" by (rule rmd10_cases)
  show ?thesis
    unfolding q l rmd_five_def names_e_def by (simp only: fold_simps prod.case Let_def r0 r1 r2 r3 r4)
qed

lemma sixteen_loop: "names_e (R (n + 15) (rmd_five R (n + 10) (rmd_five R (n + 5) (rmd_five R n q)))) = loop160 R n (n + 16) q"
proof -
  have "[n..<n + 16] = [n..<n + 5] @ [n + 5..<n + 5 + 5] @ [n + 10..<n + 10 + 5] @ [n + 15]"
    by (simp add: upt_add_eq_append [symmetric] add.assoc upt_rec)
  then show ?thesis by (simp only: fold_append comp_def fold_simps loop160_def rmd_five_loop)
qed

lemma sixteen_loops:
  "names_e (sixteen_0 blk q) = loop160 (ROUND160_0_TO_15 blk) 0 16 q"
  "names_d (sixteen_16 blk q) = loop160 (ROUND160_16_TO_31 blk) 16 32 (names_e q)"
  "names_c (sixteen_32 blk q) = loop160 (ROUND160_32_TO_47 blk) 32 48 (names_d q)"
  "names_b (sixteen_48 blk q) = loop160 (ROUND160_48_TO_63 blk) 48 64 (names_c q)"
  "sixteen_64 blk q = loop160 (ROUND160_64_TO_79 blk) 64 80 (names_b q)"
  using sixteen_loop [of "ROUND160_0_TO_15 blk" 0 q] sixteen_loop [of "ROUND160_16_TO_31 blk" 16 "names_e q"]
    sixteen_loop [of "ROUND160_32_TO_47 blk" 32 "names_d q"] sixteen_loop [of "ROUND160_48_TO_63 blk" 48 "names_c q"]
    sixteen_loop [of "ROUND160_64_TO_79 blk" 64 "names_b q"]
  by (simp_all add: sixteen_0_def sixteen_16_def sixteen_32_def sixteen_48_def sixteen_64_def R160_0_def R160_16_def
      R160_32_def R160_48_def R160_64_def names_twice)

lemma ripemd160_rounds_loop: "ripemd160_rounds blk q = ripemd160_rounds_small blk q"
  by (simp add: ripemd160_rounds_def ripemd160_rounds_small_def sixteen_loops flip: sixteen_loops)

lemma swaps_renamed:
  "swap_bg (names_e q) = names_e (swap_af q)" "swap_di (names_d q) = names_d (swap_bg q)"
  "swap_af (names_c q) = names_c (swap_ch q)" "swap_ch (names_b q) = names_b (swap_di q)"
  by (simp_all add: names_b_def names_c_def names_d_def names_e_def swap_af_def swap_bg_def swap_ch_def swap_di_def split: prod.splits)

lemma ripemd320_rounds_loop: "ripemd320_rounds blk q = ripemd320_rounds_small blk q"
  by (simp add: ripemd320_rounds_def ripemd320_rounds_small_def swaps_renamed flip: sixteen_loops)

subsection \<open>Refinement and property\<close>

definition ripemd_ok :: "(32 word list \<Rightarrow> byte list \<Rightarrow> 32 word list) \<Rightarrow> nat \<Rightarrow> AVRIPEMD \<Rightarrow> bool" where
  "ripemd_ok f n ctx \<longleftrightarrow> buffer_ok 64 ctx \<and> rmd_transform ctx = f \<and> digest_words ctx = n"

lemma ripemd_ok_update: "ripemd_ok f n ctx \<Longrightarrow> piece_fits 64 xs \<Longrightarrow> ripemd_ok f n (av_ripemd_update ctx xs)"
  using hash_update_form [of 64 xs f ctx] hash_update_laws(1) [of 64 ctx xs f]
  by (auto simp: ripemd_ok_def av_ripemd_update_def)

interpretation ripemd: block_hash av_ripemd_update state_of "pending_of 64" count_of "ripemd_ok f n" f 64 "piece_fits 64"
  for f n
proof unfold_locales
  show "ripemd_ok f n c \<Longrightarrow> piece_fits 64 xs \<Longrightarrow> ripemd_ok f n (av_ripemd_update c xs)" for c xs by (rule ripemd_ok_update)
qed (simp_all add: ripemd_ok_def av_ripemd_update_def hash_update_laws piece_fits_short)

text \<open>The digest of a message for a transformation, a start state and a length in words.\<close>

definition ripemd_digest :: "(32 word list \<Rightarrow> byte list \<Rightarrow> 32 word list) \<Rightarrow> 32 word list \<Rightarrow> nat \<Rightarrow> byte list \<Rightarrow> byte list" where
  "ripemd_digest f iv n m =
     (let st = absorb f 64 iv (m @ padding 64 56 (length m) @ AV_WL64 (of_nat (8 * length m)))
      in concat (map (\<lambda>i. AV_WL32 (st ! i)) [0..<n]))"

lemma ripemd_final_digest: "ripemd.seen f n iv m c \<Longrightarrow> fst (av_ripemd_final c) = ripemd_digest f iv n m"
  using ripemd.final_state [of f n iv m c 56 "AV_WL64 (push_bit 3 (count_of c))"] ripemd.seen_bits [of f n iv m c]
  by (simp add: av_ripemd_final_def ripemd_digest_def ripemd_ok_def Let_def)

text \<open>Start state and transformation for a digest size.\<close>

definition ripemd_iv :: "nat \<Rightarrow> 32 word list" where
  "ripemd_iv bits =
     (if bits = 128 then [0x67452301, 0xEFCDAB89, 0x98BADCFE, 0x10325476]
      else if bits = 160 then [0x67452301, 0xEFCDAB89, 0x98BADCFE, 0x10325476, 0xC3D2E1F0]
      else if bits = 256 then [0x67452301, 0xEFCDAB89, 0x98BADCFE, 0x10325476, 0x76543210, 0xFEDCBA98, 0x89ABCDEF, 0x01234567]
      else [0x67452301, 0xEFCDAB89, 0x98BADCFE, 0x10325476, 0xC3D2E1F0,
            0x76543210, 0xFEDCBA98, 0x89ABCDEF, 0x01234567, 0x3C2D1E0F])"

definition ripemd_function :: "nat \<Rightarrow> 32 word list \<Rightarrow> byte list \<Rightarrow> 32 word list" where
  "ripemd_function bits =
     (if bits = 128 then ripemd128_transform else if bits = 160 then ripemd160_transform
      else if bits = 256 then ripemd256_transform else ripemd320_transform)"

lemma ripemd_init_seen:
  assumes "bits \<in> {128, 160, 256, 320}" "length (buffer_of ctx) = 64" "\<forall>xs \<in> set chunks. piece_fits 64 xs"
  shows "ripemd.seen (ripemd_function bits) (bits div 32) (ripemd_iv bits @ drop (bits div 32) (state_of ctx))
      (concat chunks) (fold (\<lambda>xs c. av_ripemd_update c xs) chunks (snd (av_ripemd_init ctx bits)))"
proof -
  define c where "c = snd (av_ripemd_init ctx bits)"
  have "ripemd_ok (ripemd_function bits) (bits div 32) c" "count_of c = 0" "pending_of 64 c = []"
    "state_of c = ripemd_iv bits @ drop (bits div 32) (state_of ctx)"
    using assms by (auto simp: c_def av_ripemd_init_def ripemd_ok_def buffer_ok_def pending_of_def ripemd_iv_def ripemd_function_def)
  then show ?thesis using ripemd.chunks_seen [of "ripemd_function bits" "bits div 32" c chunks] assms(3) by (simp add: c_def)
qed

text \<open>The words after the state, left from an earlier use, are not part of the digest.\<close>

lemma ripemd_transform_prefix:
  assumes "bits \<in> {128, 160, 256, 320}" "length s = bits div 32"
  shows "ripemd_function bits (s @ x) b = ripemd_function bits s b @ x" "length (ripemd_function bits s b) = bits div 32"
  using assms
  by (elim insertE emptyE; simp add: ripemd_function_def ripemd128_transform_def ripemd160_transform_def ripemd256_transform_def
      ripemd320_transform_def Let_def nth_append split: prod.splits)+

lemma ripemd_digest_trailing:
  assumes "bits \<in> {128, 160, 256, 320}"
  shows "ripemd_digest (ripemd_function bits) (ripemd_iv bits @ x) (bits div 32) m =
    ripemd_digest (ripemd_function bits) (ripemd_iv bits) (bits div 32) m"
proof -
  define p where "p = m @ padding 64 56 (length m) @ AV_WL64 (of_nat (8 * length m))"
  have "length (ripemd_iv bits) = bits div 32" using assms by (auto simp: ripemd_iv_def)
  from absorb_prefix [where f = "ripemd_function bits" and x = x and bs = 64 and m = p, OF ripemd_transform_prefix [OF assms] this]
  have a: "absorb (ripemd_function bits) 64 (ripemd_iv bits @ x) p = absorb (ripemd_function bits) 64 (ripemd_iv bits) p @ x"
    "length (absorb (ripemd_function bits) 64 (ripemd_iv bits) p) = bits div 32" by simp_all
  show ?thesis
    unfolding ripemd_digest_def Let_def p_def [symmetric] a(1)
    by (rule arg_cong [where f = concat], rule map_cong) (simp_all add: nth_append a(2))
qed

text \<open>C36. The four RIPEMD functions compute the digest of the message whatever the pieces it arrives in, each of at
  most \<open>2 ^ 32 - 64\<close> bytes (longer ones wrap the sums of \<open>av_ripemd_update\<close>); other
  digest sizes are refused; the unrolled rounds of all four, with their renamed variables and exchanges between
  the lines, compute what the loops of the small configuration do.\<close>

theorem av_ripemd_correct:
  assumes "length (buffer_of ctx) = 64" "\<forall>xs \<in> set chunks. length xs \<le> 2 ^ 32 - 64"
  shows "(if bits \<in> {128, 160, 256, 320}
      then fst (av_ripemd_init ctx bits) = 0 \<and>
        fst (av_ripemd_final (fold (\<lambda>xs c. av_ripemd_update c xs) chunks (snd (av_ripemd_init ctx bits)))) =
          ripemd_digest (ripemd_function bits) (ripemd_iv bits) (bits div 32) (concat chunks)
      else fst (av_ripemd_init ctx bits) = - 22) \<and>
    ripemd128_rounds blk q = ripemd128_rounds_small blk q \<and> ripemd256_rounds blk q = ripemd256_rounds_small blk q \<and>
    ripemd160_rounds blk r = ripemd160_rounds_small blk r \<and> ripemd320_rounds blk r = ripemd320_rounds_small blk r"
proof -
  have "fst (av_ripemd_init ctx bits) = (if bits \<in> {128, 160, 256, 320} then 0 else - 22)"
    by (simp add: av_ripemd_init_def Let_def)
  moreover have "fst (av_ripemd_final (fold (\<lambda>xs c. av_ripemd_update c xs) chunks (snd (av_ripemd_init ctx bits)))) =
      ripemd_digest (ripemd_function bits) (ripemd_iv bits) (bits div 32) (concat chunks)"
    if "bits \<in> {128, 160, 256, 320}"
    using ripemd_final_digest [OF ripemd_init_seen [OF that assms(1)]] assms(2) by (simp add: ripemd_digest_trailing [OF that] piece_fits_def)
  ultimately show ?thesis
    by (simp add: ripemd128_rounds_loop ripemd256_rounds_loop ripemd160_rounds_loop ripemd320_rounds_loop)
qed

definition demo_ripemd :: AVRIPEMD where
  "demo_ripemd = \<lparr>count_of = 3, buffer_of = replicate 64 0xff, state_of = [], digest_words = 0, rmd_transform = (\<lambda>s b. s)\<rparr>"

theorem av_ripemd_correct_witness:
  "fst (av_ripemd_final (av_ripemd_update (av_ripemd_update (snd (av_ripemd_init demo_ripemd 320)) [0x61]) [0x62, 0x63])) =
   fst (av_ripemd_final (av_ripemd_update (snd (av_ripemd_init demo_ripemd 320)) [0x61, 0x62, 0x63]))"
  using av_ripemd_correct [of demo_ripemd "[[0x61], [0x62, 0x63]]" 320] av_ripemd_correct [of demo_ripemd "[[0x61, 0x62, 0x63]]" 320]
  by (simp add: demo_ripemd_def)

end
