(* ===== verification/Murmur3.thy ===== *)
theory Murmur3
  imports Hashbuf
begin

section \<open>MurmurHash3: \<open>libavutil/murmur3.c\<close>\<close>

text \<open>
  The 128-bit hash in its streaming form.  Unlike the other hashes it does not count on a full buffer being
  processed at once: an update that exactly fills a partly filled buffer returns with the block still in it.
  The length is an \<open>int\<close> in the source (\<open>FF_API_CRYPTO_SIZE_T\<close>), so an update is of fewer than \<open>2 ^ 31\<close> bytes.
\<close>

subsection \<open>Definitions\<close>

record AVMurMur3 =
  mm_h1 :: "64 word"
  mm_h2 :: "64 word"
  mm_state :: "byte list"
  state_pos :: nat
  mm_len :: "64 word"

definition av_murmur3_init_seeded :: "64 word \<Rightarrow> AVMurMur3" where
  "av_murmur3_init_seeded seed =
     \<lparr>mm_h1 = seed, mm_h2 = seed, mm_state = replicate 16 0, state_pos = 0, mm_len = 0\<rparr>"

definition av_murmur3_init :: AVMurMur3 where
  "av_murmur3_init = av_murmur3_init_seeded 0x725acc55daddca55"

definition c1 :: "64 word" where "c1 = 0x87c37b91114253d5"
definition c2 :: "64 word" where "c2 = 0x4cf5ad432745937f"

definition ROT :: "64 word \<Rightarrow> nat \<Rightarrow> 64 word" where
  "ROT a b = push_bit b a OR drop_bit (64 - b) a"

definition get_k1 :: "byte list \<Rightarrow> 64 word" where
  "get_k1 src = ROT (AV_RL64 src * c1) 31 * c2"

definition get_k2 :: "byte list \<Rightarrow> 64 word" where
  "get_k2 src = ROT (AV_RL64 (drop 8 src) * c2) 33 * c1"

definition update_h1 :: "64 word \<Rightarrow> 64 word \<Rightarrow> 64 word \<Rightarrow> 64 word" where
  "update_h1 k h1 h2 = (ROT (k XOR h1) 27 + h2) * 5 + 0x52dce729"

definition update_h2 :: "64 word \<Rightarrow> 64 word \<Rightarrow> 64 word \<Rightarrow> 64 word" where
  "update_h2 k h1 h2 = (ROT (k XOR h2) 31 + h1) * 5 + 0x38495ab5"

text \<open>The four assignments for a block.\<close>

definition murmur_block :: "64 word \<times> 64 word \<Rightarrow> byte list \<Rightarrow> 64 word \<times> 64 word" where
  "murmur_block = (\<lambda>(h1, h2) src.
     let h1 = update_h1 (get_k1 src) h1 h2 in (h1, update_h2 (get_k2 src) h1 h2))"

text \<open>The loop that fills the buffer: the data left over, or \<open>None\<close> where the function returns.\<close>

fun fill_state :: "byte list \<Rightarrow> nat \<Rightarrow> byte list \<Rightarrow> byte list \<times> nat \<times> byte list option" where
  "fill_state st p [] = (st, p, None)"
| "fill_state st p (x # src) =
     (if p < 16 then (if src = [] then (st[p := x], p + 1, None) else fill_state (st[p := x]) (p + 1) src)
      else (st, p, Some (x # src)))"

text \<open>The loop over whole blocks.\<close>

primrec murmur_blocks :: "nat \<Rightarrow> 64 word \<times> 64 word \<Rightarrow> byte list \<Rightarrow> 64 word \<times> 64 word" where
  "murmur_blocks 0 h src = h"
| "murmur_blocks (Suc n) h src = murmur_blocks n (murmur_block h (take 16 src)) (drop 16 src)"

text \<open>What follows the filling of the buffer.\<close>

definition murmur_rest :: "AVMurMur3 \<Rightarrow> 64 word \<times> 64 word \<Rightarrow> byte list \<Rightarrow> AVMurMur3" where
  "murmur_rest c h src =
     (let (h1, h2) = murmur_blocks (length src div 16) h src;
          src = drop (16 * (length src div 16)) src;
          c = c\<lparr>mm_h1 := h1, mm_h2 := h2\<rparr>
      in if length src > 0 then c\<lparr>mm_state := memcpy_to (mm_state c) 0 src, state_pos := length src\<rparr> else c)"

definition av_murmur3_update :: "AVMurMur3 \<Rightarrow> byte list \<Rightarrow> AVMurMur3" where
  "av_murmur3_update c src =
     (if src = [] then c
      else
        let c = c\<lparr>mm_len := mm_len c + of_nat (length src)\<rparr>
        in if state_pos c > 0
           then case fill_state (mm_state c) (state_pos c) src of
               (st, p, None) \<Rightarrow> c\<lparr>mm_state := st, state_pos := p\<rparr>
             | (st, p, Some src) \<Rightarrow> murmur_rest (c\<lparr>mm_state := st, state_pos := 0\<rparr>) (murmur_block (mm_h1 c, mm_h2 c) st) src
           else murmur_rest c (mm_h1 c, mm_h2 c) src)"

definition fmix :: "64 word \<Rightarrow> 64 word" where
  "fmix k =
     (let k = k XOR drop_bit 33 k;
          k = k * 0xff51afd7ed558ccd;
          k = k XOR drop_bit 33 k;
          k = k * 0xc4ceb9fe1a85ec53
      in k XOR drop_bit 33 k)"

definition av_murmur3_final :: "AVMurMur3 \<Rightarrow> byte list" where
  "av_murmur3_final c =
     (let st = take (state_pos c) (mm_state c) @ replicate (16 - state_pos c) 0;
          h1 = mm_h1 c XOR (get_k1 st XOR mm_len c);
          h2 = mm_h2 c XOR (get_k2 st XOR mm_len c);
          h1 = h1 + h2;
          h2 = h2 + h1;
          h1 = fmix h1;
          h2 = fmix h2;
          h1 = h1 + h2;
          h2 = h2 + h1
      in AV_WL64 h1 @ AV_WL64 h2)"

subsection \<open>What the context holds\<close>

text \<open>A context has seen the message \<open>m\<close> with \<open>p\<close> bytes in the buffer.\<close>

definition murmur_seen :: "64 word \<Rightarrow> byte list \<Rightarrow> nat \<Rightarrow> AVMurMur3 \<Rightarrow> bool" where
  "murmur_seen seed m p c \<longleftrightarrow>
     state_pos c = p \<and> p \<le> 16 \<and> p \<le> length m \<and> 16 dvd length m - p \<and> length (mm_state c) = 16 \<and> mm_len c = of_nat (length m) \<and>
     take p (mm_state c) = drop (length m - p) m \<and>
     (mm_h1 c, mm_h2 c) = absorb murmur_block 16 (seed, seed) (take (length m - p) m)"

text \<open>How many bytes are in the buffer after an update of \<open>n\<close> bytes.\<close>

definition next_pos :: "nat \<Rightarrow> nat \<Rightarrow> nat" where
  "next_pos p n = (if n = 0 then p else if 0 < p \<and> p + n \<le> 16 then p + n else (p + n) mod 16)"

lemma fill_state_value:
  "src \<noteq> [] \<Longrightarrow> p \<le> 16 \<Longrightarrow> length st = 16 \<Longrightarrow>
   fill_state st p src =
     (if p + length src \<le> 16 then (memcpy_to st p src, p + length src, None)
      else (memcpy_to st p (take (16 - p) src), 16, Some (drop (16 - p) src)))"
proof (induction st p src rule: fill_state.induct)
  case (2 st p x src)
  show ?case
  proof (cases "p < 16")
    case True
    have m: "memcpy_to (st[p := x]) (p + 1) ys = memcpy_to st p (x # ys)" for ys
      using True 2(4) by (simp add: memcpy_to_def take_Suc_conv_app_nth)
    show ?thesis
    proof (cases "src = []")
      case True
      then show ?thesis using \<open>p < 16\<close> 2(4) m [of "[]"] by (simp add: memcpy_to_def take_Suc_conv_app_nth upd_conv_take_nth_drop)
    next
      case False
      have "take (16 - p) (x # src) = x # take (16 - (p + 1)) src" "drop (16 - p) (x # src) = drop (16 - (p + 1)) src"
        using True by (simp_all add: Suc_diff_Suc take_Cons' drop_Cons')
      then show ?thesis using 2(1) [OF True False False] True False 2(4) by (simp add: m [symmetric])
    qed
  next
    case False
    then show ?thesis using 2(3,4) by (simp add: memcpy_to_def)
  qed
qed simp

lemma murmur_blocks_absorb: "n = length src div 16 \<Longrightarrow> murmur_blocks n h src = absorb murmur_block 16 h src"
proof (induction n arbitrary: h src)
  case 0
  then show ?case by (simp add: div_eq_0_iff)
next
  case (Suc n)
  then have "16 \<le> length src" "length (drop 16 src) div 16 = n" by (auto simp: le_div_geq intro: ccontr)
  then show ?case using Suc(1) [of "drop 16 src"] by (subst absorb.simps) simp
qed

lemma absorb_full_append:
  assumes "16 dvd length a"
  shows "absorb f 16 s (a @ b) = absorb f 16 (absorb f 16 s a) b"
proof -
  have "remainder_of 16 a = []" using assms length_remainder [of 16 a] by (simp add: mod_eq_0_iff_dvd)
  then show ?thesis using absorb_append [of 16 f s a b] by simp
qed

lemma absorb_take_rest: "absorb f 16 s (take (16 * (length src div 16)) src) = absorb f 16 s src"
proof -
  define a b where "a = take (16 * (length src div 16)) src" and "b = drop (16 * (length src div 16)) src"
  have l: "length a = 16 * (length src div 16)" unfolding a_def by simp
  then have "absorb f 16 s (a @ b) = absorb f 16 (absorb f 16 s a) b" by (intro absorb_full_append) simp
  moreover have "length b < 16" unfolding b_def by simp
  ultimately show ?thesis by (simp add: a_def b_def)
qed

text \<open>Everything in the buffer has been absorbed into \<open>h\<close>: the rest of the data.\<close>

lemma murmur_rest_seen:
  assumes "16 dvd length a" "h = absorb murmur_block 16 (seed, seed) a" "length (mm_state c) = 16" "state_pos c = 0"
    "mm_len c = of_nat (length (a @ src))"
  shows "murmur_seen seed (a @ src) (length src mod 16) (murmur_rest c h src)"
proof -
  define k where "k = 16 * (length src div 16)"
  have k: "length src - k = length src mod 16" "k \<le> length src" by (simp_all add: k_def minus_mult_div_eq_mod)
  obtain h1 h2 where h: "murmur_blocks (length src div 16) h src = (h1, h2)" by force
  then have hs: "(h1, h2) = absorb murmur_block 16 h (take k src)" by (simp add: murmur_blocks_absorb absorb_take_rest k_def)
  have r: "murmur_rest c h src = (if length src mod 16 > 0
      then c\<lparr>mm_h1 := h1, mm_h2 := h2, mm_state := memcpy_to (mm_state c) 0 (drop k src), state_pos := length src mod 16\<rparr>
      else c\<lparr>mm_h1 := h1, mm_h2 := h2\<rparr>)"
  proof -
    have "length (drop k src) = length src mod 16" using k by simp
    then show ?thesis
      unfolding murmur_rest_def h k_def [symmetric] Let_def prod.case by (simp only: AVMurMur3.simps) simp
  qed
  have m: "length (a @ src) - length src mod 16 = length a + k" using k by simp
  have "16 dvd length a + k" using assms(1) by (simp add: k_def)
  moreover have "take (length a + k) (a @ src) = a @ take k src" "drop (length a + k) (a @ src) = drop k src" by simp_all
  moreover have "length src mod 16 < 16" by simp
  moreover have "(h1, h2) = absorb murmur_block 16 (seed, seed) (a @ take k src)"
    using hs by (simp add: assms(2) absorb_full_append [OF assms(1)])
  moreover have "length src mod 16 \<le> length a + length src" by (simp add: trans_le_add2)
  ultimately show ?thesis
    unfolding murmur_seen_def m using assms(1,3-5) k
    by (cases "length src mod 16 > 0") (simp_all add: r memcpy_to_def)
qed

lemma murmur_update_seen:
  assumes "murmur_seen seed m p c"
  shows "murmur_seen seed (m @ src) (next_pos p (length src)) (av_murmur3_update c src)"
proof (cases "src = []")
  case True
  then show ?thesis using assms by (simp add: av_murmur3_update_def next_pos_def)
next
  case False
  define a t where "a = take (length m - p) m" and "t = drop (length m - p) m"
  have m: "m = a @ t" "16 dvd length a" "length t = p" and p: "state_pos c = p" "p \<le> 16" and st: "length (mm_state c) = 16"
    "take p (mm_state c) = t" and h: "(mm_h1 c, mm_h2 c) = absorb murmur_block 16 (seed, seed) a"
    and l: "mm_len c + of_nat (length src) = of_nat (length (m @ src))"
    using assms by (auto simp: murmur_seen_def a_def t_def)
  show ?thesis
  proof (cases "p = 0")
    case True
    then have "m = a" using m by simp
    then have "murmur_seen seed (m @ src) (length src mod 16) (murmur_rest (c\<lparr>mm_len := mm_len c + of_nat (length src)\<rparr>) (mm_h1 c, mm_h2 c) src)"
      using m h st p True l by (intro murmur_rest_seen) simp_all
    then show ?thesis using True p False by (simp add: av_murmur3_update_def next_pos_def)
  next
    case pos: False
    show ?thesis
    proof (cases "p + length src \<le> 16")
      case True
      have f: "fill_state (mm_state c) p src = (memcpy_to (mm_state c) p src, p + length src, None)"
        using True fill_state_value [OF False p(2) st(1)] by simp
      have u: "av_murmur3_update c src =
          c\<lparr>mm_len := mm_len c + of_nat (length src), mm_state := memcpy_to (mm_state c) p src, state_pos := p + length src\<rparr>"
        using pos p False f by (simp add: av_murmur3_update_def)
      have "take (p + length src) (memcpy_to (mm_state c) p src) = t @ src" using st p m(3) by (simp add: memcpy_to_def)
      moreover have "next_pos p (length src) = p + length src" using pos True False by (simp add: next_pos_def)
      ultimately show ?thesis unfolding u using True st p m h l by (simp add: murmur_seen_def)
    next
      case long: False
      define b where "b = t @ take (16 - p) src"
      have b: "length b = 16" "memcpy_to (mm_state c) p (take (16 - p) src) = b"
        using long st p m by (simp_all add: b_def memcpy_to_def)
      have f: "fill_state (mm_state c) p src = (b, 16, Some (drop (16 - p) src))"
        using long fill_state_value [OF False p(2) st(1)] b by simp
      have u: "av_murmur3_update c src = murmur_rest (c\<lparr>mm_len := mm_len c + of_nat (length src), mm_state := b, state_pos := 0\<rparr>)
          (murmur_block (mm_h1 c, mm_h2 c) b) (drop (16 - p) src)"
        using pos p False f by (simp add: av_murmur3_update_def)
      have ab: "murmur_block (mm_h1 c, mm_h2 c) b = absorb murmur_block 16 (seed, seed) (a @ b)"
        unfolding absorb_full_append [OF m(2)] h using absorb_block [of 16 b murmur_block "absorb murmur_block 16 (seed, seed) a" "[]"] b by simp
      have ms: "m @ src = (a @ b) @ drop (16 - p) src" by (simp add: m b_def)
      have "murmur_seen seed ((a @ b) @ drop (16 - p) src) (length (drop (16 - p) src) mod 16) (av_murmur3_update c src)"
        unfolding u by (rule murmur_rest_seen) (use m(2) b ab l [unfolded ms] in simp_all)
      moreover have "length (drop (16 - p) src) mod 16 = (p + length src) mod 16"
      proof -
        have "p + length src = length (drop (16 - p) src) + 16" using long p by simp
        then show ?thesis by (simp only: mod_add_self2)
      qed
      ultimately show ?thesis using long False by (simp add: ms next_pos_def)
    qed
  qed
qed

lemma murmur_chunks_seen:
  "murmur_seen seed m p c \<Longrightarrow>
   murmur_seen seed (m @ concat chunks) (fold (\<lambda>xs p. next_pos p (length xs)) chunks p) (fold (\<lambda>xs c. av_murmur3_update c xs) chunks c)"
proof (induction chunks arbitrary: m p c)
  case (Cons xs chunks)
  show ?case using Cons.IH [OF murmur_update_seen [OF Cons.prems, of xs]] by simp
qed simp

subsection \<open>Property\<close>

text \<open>The reference: absorb all whole blocks, then mix in the rest, filled with zeros, and the length.\<close>

definition murmur_finish :: "64 word \<times> 64 word \<Rightarrow> byte list \<Rightarrow> nat \<Rightarrow> byte list" where
  "murmur_finish h rest n =
     (let rest = rest @ replicate (16 - length rest) 0;
          h1 = fst h XOR (get_k1 rest XOR of_nat n);
          h2 = snd h XOR (get_k2 rest XOR of_nat n);
          h1 = h1 + h2; h2 = h2 + h1;
          h1 = fmix h1; h2 = fmix h2;
          h1 = h1 + h2; h2 = h2 + h1
      in AV_WL64 h1 @ AV_WL64 h2)"

definition murmur_digest :: "64 word \<Rightarrow> byte list \<Rightarrow> byte list" where
  "murmur_digest seed m = murmur_finish (absorb murmur_block 16 (seed, seed) m) (remainder_of 16 m) (length m)"

lemma murmur_final_seen:
  assumes "murmur_seen seed m p c"
  shows "av_murmur3_final c = murmur_finish (absorb murmur_block 16 (seed, seed) (take (length m - p) m)) (drop (length m - p) m) (length m)"
proof -
  have "mm_h1 c = fst (absorb murmur_block 16 (seed, seed) (take (length m - p) m))"
    "mm_h2 c = snd (absorb murmur_block 16 (seed, seed) (take (length m - p) m))"
    using assms by (simp_all add: murmur_seen_def prod_eq_iff)
  moreover have "min p (length (mm_state c)) = p" "length (drop (length m - p) m) = p" using assms by (auto simp: murmur_seen_def)
  ultimately show ?thesis using assms by (simp add: murmur_seen_def av_murmur3_final_def murmur_finish_def Let_def)
qed

lemma murmur_seen_short:
  assumes "murmur_seen seed m p c" "p \<noteq> 16"
  shows "av_murmur3_final c = murmur_digest seed m"
proof -
  define k where "k = length m - p"
  have d: "16 dvd k" "length m = k + p" "p < 16" using assms by (auto simp: murmur_seen_def k_def)
  then have k: "k = 16 * (length m div 16)" "k = length m div 16 * 16" by auto
  have "absorb murmur_block 16 (seed, seed) (take k m) = absorb murmur_block 16 (seed, seed) m"
    unfolding k(1) by (rule absorb_take_rest)
  moreover have "drop k m = remainder_of 16 m" unfolding remainder_of_def k(2) [symmetric] ..
  ultimately show ?thesis using murmur_final_seen [OF assms(1)] by (simp add: murmur_digest_def k_def [symmetric])
qed

lemma murmur_init_seen: "murmur_seen seed [] 0 (av_murmur3_init_seeded seed)"
  by (simp add: murmur_seen_def av_murmur3_init_seeded_def)

text \<open>C40. MurmurHash3 of a message in pieces is the hash of the whole message, unless the last piece exactly fills a
  partly filled buffer: then the last whole block is treated as the incomplete rest of the message.\<close>

theorem av_murmur3_pieces:
  fixes chunks :: "byte list list"
  defines "m \<equiv> concat chunks"
  defines "p \<equiv> fold (\<lambda>xs p. next_pos p (length xs)) chunks 0"
  shows "av_murmur3_final (fold (\<lambda>xs c. av_murmur3_update c xs) chunks (av_murmur3_init_seeded seed)) =
    (if p = 16 then murmur_finish (absorb murmur_block 16 (seed, seed) (take (length m - 16) m)) (drop (length m - 16) m) (length m)
     else murmur_digest seed m)"
proof -
  have s: "murmur_seen seed m p (fold (\<lambda>xs c. av_murmur3_update c xs) chunks (av_murmur3_init_seeded seed))"
    unfolding m_def p_def using murmur_chunks_seen [OF murmur_init_seen, of seed chunks] by simp
  show ?thesis
  proof (cases "p = 16")
    case True
    then show ?thesis using murmur_final_seen [OF s] by simp
  next
    case False
    then show ?thesis using murmur_seen_short [OF s False] by simp
  qed
qed

theorem av_murmur3_pieces_witness:
  "av_murmur3_final (fold (\<lambda>xs c. av_murmur3_update c xs) [replicate 3 7, replicate 30 8] av_murmur3_init) =
   murmur_digest 0x725acc55daddca55 (replicate 3 7 @ replicate 30 8)"
  using av_murmur3_pieces [of "[replicate 3 7, replicate 30 8]" "0x725acc55daddca55"]
  by (simp add: av_murmur3_init_def next_pos_def)

text \<open>So the result depends on the pieces: sixteen bytes in one update and in two give different hashes.\<close>

lemma av_murmur3_split_differs:
  "av_murmur3_final (av_murmur3_update (av_murmur3_update av_murmur3_init (replicate 8 1)) (replicate 8 1)) \<noteq>
   av_murmur3_final (av_murmur3_update av_murmur3_init (replicate 16 1))"
  by code_simp

end
