(* ===== verification/Hmac.thy ===== *)
theory Hmac
  imports Md5 Sha Sha512
begin

section \<open>Keyed hashes: \<open>libavutil/hmac.c\<close>\<close>

text \<open>
  HMAC over the hash functions.  The context holds function pointers and an opaque hash context; here the
  functions are fields and the hash context is one of the three types \<open>av_hmac_alloc\<close> puts there.  The locale
  \<open>message_hash\<close> is what HMAC needs of a hash function; the model's six hashes are interpretations of it.
\<close>

subsection \<open>Definitions\<close>

datatype any_hash = H_md5 AVMD5 | H_sha AVSHA | H_sha512 AVSHA512

datatype AVHMACType = AV_HMAC_MD5 | AV_HMAC_SHA1 | AV_HMAC_SHA224 | AV_HMAC_SHA256 | AV_HMAC_SHA384 | AV_HMAC_SHA512

record AVHMAC =
  hm_hash :: any_hash
  blocklen :: nat
  hashlen :: nat
  hm_final :: "any_hash \<Rightarrow> byte list \<times> any_hash"
  hm_update :: "any_hash \<Rightarrow> byte list \<Rightarrow> any_hash"
  hm_init :: "any_hash \<Rightarrow> any_hash"
  hm_key :: "byte list"
  keylen :: nat

text \<open>The function pointers, which receive the context as \<open>void *\<close>; \<open>DEFINE_SHA\<close> and \<open>DEFINE_SHA512\<close>.\<close>

fun md5_init :: "any_hash \<Rightarrow> any_hash" where "md5_init (H_md5 c) = H_md5 (av_md5_init c)" | "md5_init c = c"

text \<open>\<open>av_md5_update\<close> has the length as \<open>int\<close>: the \<open>unsigned\<close> length it is called with here becomes negative from \<open>2 ^ 31\<close>
  on.  Then the loop over the blocks does nothing, and the count is changed by the negative number; unless the length
  and the count are multiples of a block, bytes outside of the data are copied, which is \<open>undefined\<close>.\<close>

definition md5_update_negative :: "AVMD5 \<Rightarrow> byte list \<Rightarrow> AVMD5" where
  "md5_update_negative c xs =
     (if len c AND 63 = 0 \<and> length xs mod 64 = 0 then c\<lparr>len := len c + of_int (int (length xs) - 2 ^ 32)\<rparr> else undefined)"

fun md5_update :: "any_hash \<Rightarrow> byte list \<Rightarrow> any_hash" where
  "md5_update (H_md5 c) xs = H_md5 (if length xs \<le> 2 ^ 31 - 1 then av_md5_update c xs else md5_update_negative c xs)"
| "md5_update c xs = c"

fun md5_final :: "any_hash \<Rightarrow> byte list \<times> any_hash" where
  "md5_final (H_md5 c) = (case av_md5_final c of (d, c) \<Rightarrow> (d, H_md5 c))" | "md5_final c = ([], c)"

fun DEFINE_SHA :: "nat \<Rightarrow> any_hash \<Rightarrow> any_hash" where
  "DEFINE_SHA bits (H_sha c) = H_sha (snd (av_sha_init c bits))" | "DEFINE_SHA bits c = c"
fun sha_update :: "any_hash \<Rightarrow> byte list \<Rightarrow> any_hash" where "sha_update (H_sha c) xs = H_sha (av_sha_update c xs)" | "sha_update c xs = c"
fun sha_final :: "any_hash \<Rightarrow> byte list \<times> any_hash" where
  "sha_final (H_sha c) = (case av_sha_final c of (d, c) \<Rightarrow> (d, H_sha c))" | "sha_final c = ([], c)"

fun DEFINE_SHA512 :: "nat \<Rightarrow> any_hash \<Rightarrow> any_hash" where
  "DEFINE_SHA512 bits (H_sha512 c) = H_sha512 (snd (av_sha512_init c bits))" | "DEFINE_SHA512 bits c = c"
fun sha512_update :: "any_hash \<Rightarrow> byte list \<Rightarrow> any_hash" where
  "sha512_update (H_sha512 c) xs = H_sha512 (av_sha512_update c xs)" | "sha512_update c xs = c"
fun sha512_final :: "any_hash \<Rightarrow> byte list \<times> any_hash" where
  "sha512_final (H_sha512 c) = (case av_sha512_final c of (d, c) \<Rightarrow> (d, H_sha512 c))" | "sha512_final c = ([], c)"

text \<open>The contexts come from \<open>av_md5_alloc\<close> and so on, which return zeroed memory.\<close>

definition av_md5_alloc :: AVMD5 where
  "av_md5_alloc = \<lparr>len = 0, block = replicate 64 0, ABCD = replicate 4 0\<rparr>"
definition av_sha_alloc :: AVSHA where
  "av_sha_alloc = \<lparr>count_of = 0, buffer_of = replicate 64 0, state_of = replicate 8 0, digest_len = 0, transform = (\<lambda>s b. s)\<rparr>"
definition av_sha512_alloc :: AVSHA512 where
  "av_sha512_alloc = \<lparr>count_of = 0, buffer_of = replicate 128 0, state_of = replicate 8 0, digest_len512 = 0\<rparr>"

definition av_hmac_alloc :: "AVHMACType \<Rightarrow> AVHMAC" where
  "av_hmac_alloc type =
     (let mk = (\<lambda>h bl hl init upd fin. \<lparr>hm_hash = h, blocklen = bl, hashlen = hl, hm_final = fin, hm_update = upd,
                  hm_init = init, hm_key = replicate 128 0, keylen = 0\<rparr>)
      in case type of
           AV_HMAC_MD5 \<Rightarrow> mk (H_md5 av_md5_alloc) 64 16 md5_init md5_update md5_final
         | AV_HMAC_SHA1 \<Rightarrow> mk (H_sha av_sha_alloc) 64 20 (DEFINE_SHA 160) sha_update sha_final
         | AV_HMAC_SHA224 \<Rightarrow> mk (H_sha av_sha_alloc) 64 28 (DEFINE_SHA 224) sha_update sha_final
         | AV_HMAC_SHA256 \<Rightarrow> mk (H_sha av_sha_alloc) 64 32 (DEFINE_SHA 256) sha_update sha_final
         | AV_HMAC_SHA384 \<Rightarrow> mk (H_sha512 av_sha512_alloc) 128 48 (DEFINE_SHA512 384) sha512_update sha512_final
         | AV_HMAC_SHA512 \<Rightarrow> mk (H_sha512 av_sha512_alloc) 128 64 (DEFINE_SHA512 512) sha512_update sha512_final)"

text \<open>The block of the padded key combined with a constant.\<close>

definition key_block :: "AVHMAC \<Rightarrow> byte \<Rightarrow> byte list" where
  "key_block c pad = map (\<lambda>i. hm_key c ! i XOR pad) [0..<keylen c] @ replicate (blocklen c - keylen c) pad"

definition av_hmac_init :: "AVHMAC \<Rightarrow> byte list \<Rightarrow> AVHMAC" where
  "av_hmac_init c key =
     (let c = (if length key > blocklen c
               then let h = hm_update c (hm_init c (hm_hash c)) key;
                        (d, h) = hm_final c h
                    in c\<lparr>hm_hash := h, hm_key := memcpy_to (hm_key c) 0 d, keylen := hashlen c\<rparr>
               else c\<lparr>hm_key := memcpy_to (hm_key c) 0 key, keylen := length key\<rparr>)
      in c\<lparr>hm_hash := hm_update c (hm_init c (hm_hash c)) (key_block c 0x36)\<rparr>)"

definition av_hmac_update :: "AVHMAC \<Rightarrow> byte list \<Rightarrow> AVHMAC" where
  "av_hmac_update c xs = c\<lparr>hm_hash := hm_update c (hm_hash c) xs\<rparr>"

text \<open>The result, the bytes written to \<open>out\<close> and the context.\<close>

definition av_hmac_final :: "AVHMAC \<Rightarrow> nat \<Rightarrow> int \<times> byte list \<times> AVHMAC" where
  "av_hmac_final c outlen =
     (if outlen < hashlen c then (- 22, [], c)
      else
        let (out, h) = hm_final c (hm_hash c);
            h = hm_init c h;
            h = hm_update c h (key_block c 0x5C);
            h = hm_update c h (take (hashlen c) out);
            (out, h) = hm_final c h
        in (int (hashlen c), out, c\<lparr>hm_hash := h\<rparr>))"

definition av_hmac_calc :: "AVHMAC \<Rightarrow> byte list \<Rightarrow> byte list \<Rightarrow> nat \<Rightarrow> int \<times> byte list \<times> AVHMAC" where
  "av_hmac_calc c xs key outlen = av_hmac_final (av_hmac_update (av_hmac_init c key) xs) outlen"

subsection \<open>What HMAC needs of a hash\<close>

text \<open>RFC 2104, for a hash function \<open>H\<close> with blocks of \<open>bl\<close> bytes.\<close>

definition hmac_spec :: "(byte list \<Rightarrow> byte list) \<Rightarrow> nat \<Rightarrow> byte list \<Rightarrow> byte list \<Rightarrow> byte list" where
  "hmac_spec H bl key m =
     (let k = (if length key > bl then H key else key);
          k = k @ replicate (bl - length k) 0
      in H (map (\<lambda>x. x XOR 0x5C) k @ H (map (\<lambda>x. x XOR 0x36) k @ m)))"

text \<open>A context that uses the functions of a hash.\<close>

definition uses_hash :: "AVHMAC \<Rightarrow> (any_hash \<Rightarrow> any_hash) \<Rightarrow> (any_hash \<Rightarrow> byte list \<Rightarrow> any_hash) \<Rightarrow>
    (any_hash \<Rightarrow> byte list \<times> any_hash) \<Rightarrow> nat \<Rightarrow> nat \<Rightarrow> bool" where
  "uses_hash c init upd fin bl hl \<longleftrightarrow> hm_init c = init \<and> hm_update c = upd \<and> hm_final c = fin \<and> blocklen c = bl \<and> hashlen c = hl \<and>
     hl \<le> bl \<and> bl \<le> length (hm_key c)"

lemma key_block_value:
  assumes "k = take (keylen c) (hm_key c)" "keylen c \<le> length (hm_key c)"
  shows "key_block c pad = map (\<lambda>x. x XOR pad) (k @ replicate (blocklen c - length k) 0)"
proof -
  have "map (\<lambda>i. hm_key c ! i XOR pad) [0..<keylen c] = map (\<lambda>x. x XOR pad) k"
    by (rule nth_equalityI) (use assms in simp_all)
  moreover have "length k = keylen c" using assms by simp
  ultimately show ?thesis by (simp add: key_block_def)
qed

lemma update_fold: "fold (\<lambda>xs c. av_hmac_update c xs) chunks c = c\<lparr>hm_hash := fold (\<lambda>xs h. hm_update c h xs) chunks (hm_hash c)\<rparr>"
  by (induction chunks arbitrary: c) (simp_all add: av_hmac_update_def)

locale message_hash =
  fixes init :: "any_hash \<Rightarrow> any_hash" and upd :: "any_hash \<Rightarrow> byte list \<Rightarrow> any_hash"
    and fin :: "any_hash \<Rightarrow> byte list \<times> any_hash" and ok :: "any_hash \<Rightarrow> bool"
    and H :: "byte list \<Rightarrow> byte list" and hl :: nat and fits :: "byte list \<Rightarrow> bool"
  assumes fits_short: "length xs \<le> 128 \<Longrightarrow> fits xs"
    and digest: "ok h \<Longrightarrow> \<forall>xs \<in> set chunks. fits xs \<Longrightarrow> fst (fin (fold (\<lambda>xs h. upd h xs) chunks (init h))) = H (concat chunks)"
    and ok_fin: "ok h \<Longrightarrow> \<forall>xs \<in> set chunks. fits xs \<Longrightarrow> ok (snd (fin (fold (\<lambda>xs h. upd h xs) chunks (init h))))"
    and len_H: "length (H m) = hl"
begin

text \<open>A digest ends a message and leaves a context that may start another.\<close>

lemma fin_cases:
  assumes "ok h" "\<forall>xs \<in> set chunks. fits xs"
  obtains h' where "fin (fold (\<lambda>xs h. upd h xs) chunks (init h)) = (H (concat chunks), h')" "ok h'"
  using digest [OF assms] ok_fin [OF assms] by (metis prod.collapse)

text \<open>After the key has been set, the hash has been given the inner block.\<close>

lemma init_value:
  fixes key
  assumes c: "uses_hash c init upd fin bl hl" and ok: "ok (hm_hash c)" and key: "fits key"
  defines "k \<equiv> (if length key > bl then H key else key)"
  shows "\<exists>c' h. av_hmac_init c key = c'\<lparr>hm_hash := upd (init h) (key_block c' 0x36)\<rparr> \<and> ok h \<and> uses_hash c' init upd fin bl hl \<and>
    keylen c' = length k \<and> take (length k) (hm_key c') = k"
proof (cases "length key > bl")
  case True
  obtain h' where h: "fin (upd (init (hm_hash c)) key) = (H key, h')" "ok h'"
    using fin_cases [OF ok, of "[key]"] key by auto
  define c' where "c' = c\<lparr>hm_hash := h', hm_key := memcpy_to (hm_key c) 0 (H key), keylen := hl\<rparr>"
  have "av_hmac_init c key = c'\<lparr>hm_hash := upd (init h') (key_block c' 0x36)\<rparr>"
    using c True h by (simp add: av_hmac_init_def uses_hash_def Let_def c'_def)
  moreover have "uses_hash c' init upd fin bl hl" using c by (simp add: uses_hash_def c'_def len_H)
  ultimately show ?thesis using h(2) True by (intro exI [of _ c'] exI [of _ h']) (simp add: c'_def k_def len_H memcpy_to_def)
next
  case False
  define c' where "c' = c\<lparr>hm_key := memcpy_to (hm_key c) 0 key, keylen := length key\<rparr>"
  have "av_hmac_init c key = c'\<lparr>hm_hash := upd (init (hm_hash c)) (key_block c' 0x36)\<rparr>"
    using c False by (simp add: av_hmac_init_def uses_hash_def Let_def c'_def)
  moreover have "uses_hash c' init upd fin bl hl" using c False by (simp add: uses_hash_def c'_def)
  ultimately show ?thesis using ok False by (intro exI [of _ c'] exI [of _ "hm_hash c"]) (simp add: c'_def k_def memcpy_to_def)
qed

lemma hmac_value:
  assumes c: "uses_hash c init upd fin bl hl" "bl \<le> 128" and ok: "ok (hm_hash c)" and key: "fits key" and pieces: "\<forall>xs \<in> set chunks. fits xs"
  shows "\<exists>c'. av_hmac_final (fold (\<lambda>xs c. av_hmac_update c xs) chunks (av_hmac_init c key)) outlen =
      (if outlen < hl then (- 22, [], c') else (int hl, hmac_spec H bl key (concat chunks), c'))"
proof -
  define k where "k = (if length key > bl then H key else key)"
  obtain c1 h where c1: "av_hmac_init c key = c1\<lparr>hm_hash := upd (init h) (key_block c1 0x36)\<rparr>" "ok h"
    "uses_hash c1 init upd fin bl hl" "keylen c1 = length k" "take (length k) (hm_key c1) = k"
    using init_value [OF c(1) ok key] unfolding k_def by blast
  define inner outer where "inner = key_block c1 0x36" and "outer = key_block c1 0x5C"
  have kl: "length k \<le> bl" using c(1) by (simp add: k_def uses_hash_def len_H)
  then have blocks: "fits inner" "fits outer" "fits (H m)" for m
    using c1(3,4) c by (auto simp: inner_def outer_def key_block_def uses_hash_def len_H intro!: fits_short)
  have "length k \<le> length (hm_key c1)" using arg_cong [OF c1(5), of length] by simp
  then have pads: "key_block c1 pad = map (\<lambda>x. x XOR pad) (k @ replicate (bl - length k) 0)" for pad
    using key_block_value [of k c1 pad] c1 by (simp add: uses_hash_def)
  define h1 where "h1 = fold (\<lambda>xs h. upd h xs) (inner # chunks) (init h)"
  define c2 where "c2 = c1\<lparr>hm_hash := h1\<rparr>"
  have f: "fold (\<lambda>xs c. av_hmac_update c xs) chunks (av_hmac_init c key) = c2"
    using c1 by (simp add: update_fold uses_hash_def h1_def inner_def c2_def)
  have kb: "key_block c2 pad = key_block c1 pad" for pad by (simp add: key_block_def c2_def)
  obtain h2 where h2: "fin h1 = (H (inner @ concat chunks), h2)" "ok h2"
    using fin_cases [OF c1(2), of "inner # chunks"] pieces blocks unfolding h1_def by auto
  obtain h3 where h3: "fin (upd (upd (init h2) outer) (H (inner @ concat chunks))) = (H (outer @ H (inner @ concat chunks)), h3)"
    using fin_cases [OF h2(2), of "[outer, H (inner @ concat chunks)]"] blocks by auto
  have "H (outer @ H (inner @ concat chunks)) = hmac_spec H bl key (concat chunks)"
    by (simp only: hmac_spec_def Let_def k_def [symmetric] inner_def outer_def pads)
  then have "av_hmac_final c2 outlen =
      (if outlen < hl then (- 22, [], c2) else (int hl, hmac_spec H bl key (concat chunks), c2\<lparr>hm_hash := h3\<rparr>))"
    using c1(3) h2 h3 unfolding av_hmac_final_def kb outer_def [symmetric]
    by (simp add: uses_hash_def c2_def Let_def len_H)
  then show ?thesis unfolding f by (cases "outlen < hl") auto
qed

end

subsection \<open>The six hash functions\<close>

fun md5_context :: "any_hash \<Rightarrow> bool" where "md5_context (H_md5 c) = md5_ok c" | "md5_context h = False"
fun sha_context :: "any_hash \<Rightarrow> bool" where "sha_context (H_sha c) = buffer_ok 64 c" | "sha_context h = False"
fun sha512_context :: "any_hash \<Rightarrow> bool" where "sha512_context (H_sha512 c) = buffer_ok 128 c" | "sha512_context h = False"

fun_cases md5_contextE: "md5_context h"
fun_cases sha_contextE: "sha_context h"
fun_cases sha512_contextE: "sha512_context h"

lemma fold_hashes:
  "\<forall>xs \<in> set chunks. length xs \<le> 2 ^ 31 - 1 \<Longrightarrow>
    fold (\<lambda>xs h. md5_update h xs) chunks (H_md5 c) = H_md5 (fold (\<lambda>xs c. av_md5_update c xs) chunks c)"
  "fold (\<lambda>xs h. sha_update h xs) chunks (H_sha s) = H_sha (fold (\<lambda>xs c. av_sha_update c xs) chunks s)"
  "fold (\<lambda>xs h. sha512_update h xs) chunks (H_sha512 t) = H_sha512 (fold (\<lambda>xs c. av_sha512_update c xs) chunks t)"
  by (induction chunks arbitrary: c s t) simp_all

lemma length_concat_words: "(\<And>x. length (f x) = k) \<Longrightarrow> length (concat (map f xs)) = k * length xs"
  by (induction xs) simp_all

lemma digest_lengths:
  "length (md5_digest m) = 16" "length (sha_digest f iv n m) = 4 * n" "even n \<Longrightarrow> length (sha512_digest iv64 n m) = 8 * n"
  by (simp_all add: md5_digest_def sha_digest_def sha512_digest_def Let_def length_concat_words [where k = 4]
      length_concat_words [where k = 8])

interpretation hash_md5: message_hash md5_init md5_update md5_final md5_context md5_digest 16 "\<lambda>xs. length xs \<le> 2 ^ 31 - 1"
proof unfold_locales
  show "fst (md5_final (fold (\<lambda>xs h. md5_update h xs) chunks (md5_init h))) = md5_digest (concat chunks)"
    if "md5_context h" "\<forall>xs \<in> set chunks. length xs \<le> 2 ^ 31 - 1" for h chunks
    using that md5_chunks [of _ chunks] by (elim md5_contextE) (simp add: fold_hashes split_beta)
  show "md5_context (snd (md5_final (fold (\<lambda>xs h. md5_update h xs) chunks (md5_init h))))"
    if "md5_context h" "\<forall>xs \<in> set chunks. length xs \<le> 2 ^ 31 - 1" for h chunks
    using that md5_chunks [of _ chunks] by (elim md5_contextE) (simp add: fold_hashes split_beta)
qed (simp_all add: digest_lengths)

definition sha_hash :: "nat \<Rightarrow> byte list \<Rightarrow> byte list" where
  "sha_hash bits = sha_digest (sha_function bits) (sha_iv bits) (bits div 32)"

definition sha512_hash :: "nat \<Rightarrow> byte list \<Rightarrow> byte list" where
  "sha512_hash bits = sha512_digest (sha512_iv bits) (bits div 64)"

lemma sha_message_hash:
  assumes "bits \<in> {160, 224, 256}"
  shows "message_hash (DEFINE_SHA bits) sha_update sha_final sha_context (sha_hash bits) (bits div 8) (piece_fits 64)"
proof unfold_locales
  show "fst (sha_final (fold (\<lambda>xs h. sha_update h xs) chunks (DEFINE_SHA bits h))) = sha_hash bits (concat chunks)"
    if "sha_context h" "\<forall>xs \<in> set chunks. piece_fits 64 xs" for h chunks
    using that sha_chunks [OF assms, of _ chunks] by (elim sha_contextE) (simp add: fold_hashes sha_hash_def split_beta)
  show "sha_context (snd (sha_final (fold (\<lambda>xs h. sha_update h xs) chunks (DEFINE_SHA bits h))))"
    if "sha_context h" "\<forall>xs \<in> set chunks. piece_fits 64 xs" for h chunks
    using that sha_chunks [OF assms, of _ chunks] by (elim sha_contextE) (simp add: fold_hashes split_beta)
  show "length (sha_hash bits m) = bits div 8" for m using assms by (auto simp: sha_hash_def digest_lengths)
  show "piece_fits 64 xs" if "length xs \<le> 128" for xs using that by (simp add: piece_fits_short)
qed

lemma sha512_message_hash:
  assumes "bits \<in> {384, 512}"
  shows "message_hash (DEFINE_SHA512 bits) sha512_update sha512_final sha512_context (sha512_hash bits) (bits div 8) (piece_fits 128)"
proof unfold_locales
  have b: "bits \<in> {224, 256, 384, 512}" using assms by auto
  show "fst (sha512_final (fold (\<lambda>xs h. sha512_update h xs) chunks (DEFINE_SHA512 bits h))) = sha512_hash bits (concat chunks)"
    if "sha512_context h" "\<forall>xs \<in> set chunks. piece_fits 128 xs" for h chunks
    using that sha512_chunks [OF b, of _ chunks] by (elim sha512_contextE) (simp add: fold_hashes sha512_hash_def split_beta)
  show "sha512_context (snd (sha512_final (fold (\<lambda>xs h. sha512_update h xs) chunks (DEFINE_SHA512 bits h))))"
    if "sha512_context h" "\<forall>xs \<in> set chunks. piece_fits 128 xs" for h chunks
    using that sha512_chunks [OF b, of _ chunks] by (elim sha512_contextE) (simp add: fold_hashes split_beta)
  show "length (sha512_hash bits m) = bits div 8" for m using assms by (auto simp: sha512_hash_def digest_lengths)
  show "piece_fits 128 xs" if "length xs \<le> 128" for xs using that by (simp add: piece_fits_short)
qed

interpretation hash_sha1: message_hash "DEFINE_SHA 160" sha_update sha_final sha_context "sha_hash 160" 20 "piece_fits 64"
  using sha_message_hash [of 160] by simp

interpretation hash_sha224: message_hash "DEFINE_SHA 224" sha_update sha_final sha_context "sha_hash 224" 28 "piece_fits 64"
  using sha_message_hash [of 224] by simp

interpretation hash_sha256: message_hash "DEFINE_SHA 256" sha_update sha_final sha_context "sha_hash 256" 32 "piece_fits 64"
  using sha_message_hash [of 256] by simp

interpretation hash_sha384: message_hash "DEFINE_SHA512 384" sha512_update sha512_final sha512_context "sha512_hash 384" 48 "piece_fits 128"
  using sha512_message_hash [of 384] by simp

interpretation hash_sha512: message_hash "DEFINE_SHA512 512" sha512_update sha512_final sha512_context "sha512_hash 512" 64 "piece_fits 128"
  using sha512_message_hash [of 512] by simp

subsection \<open>Property\<close>

text \<open>The hash function, its block and digest sizes for each type.\<close>

definition hash_of :: "AVHMACType \<Rightarrow> byte list \<Rightarrow> byte list" where
  "hash_of type = (case type of AV_HMAC_MD5 \<Rightarrow> md5_digest | AV_HMAC_SHA1 \<Rightarrow> sha_hash 160 | AV_HMAC_SHA224 \<Rightarrow> sha_hash 224
     | AV_HMAC_SHA256 \<Rightarrow> sha_hash 256 | AV_HMAC_SHA384 \<Rightarrow> sha512_hash 384 | AV_HMAC_SHA512 \<Rightarrow> sha512_hash 512)"

definition block_size :: "AVHMACType \<Rightarrow> nat" where
  "block_size type = (if type = AV_HMAC_SHA384 \<or> type = AV_HMAC_SHA512 then 128 else 64)"

definition hash_size :: "AVHMACType \<Rightarrow> nat" where
  "hash_size type = (case type of AV_HMAC_MD5 \<Rightarrow> 16 | AV_HMAC_SHA1 \<Rightarrow> 20 | AV_HMAC_SHA224 \<Rightarrow> 28
     | AV_HMAC_SHA256 \<Rightarrow> 32 | AV_HMAC_SHA384 \<Rightarrow> 48 | AV_HMAC_SHA512 \<Rightarrow> 64)"

text \<open>The longest key or piece: an \<open>int\<close> for MD5, and for the others what does not wrap the sums of the update functions.\<close>

definition longest_piece :: "AVHMACType \<Rightarrow> nat" where
  "longest_piece type = (if type = AV_HMAC_MD5 then 2 ^ 31 - 1 else 2 ^ 32 - block_size type)"

lemmas hmac_kinds = longest_piece_def piece_fits_def av_hmac_alloc_def uses_hash_def hash_of_def block_size_def hash_size_def

text \<open>C35. Each keyed hash is HMAC over its hash function, for keys (one longer than a block is hashed first) and
  messages in any pieces that the update function of the hash can take in one call: below \<open>2 ^ 31\<close> bytes for MD5,
  whose length is an \<open>int\<close>, at most \<open>2 ^ 32\<close> less a block for the others; an output buffer shorter than the digest is
  refused.\<close>

theorem av_hmac_correct:
  assumes "length key \<le> longest_piece type" "\<forall>xs \<in> set chunks. length xs \<le> longest_piece type"
  shows "case av_hmac_final (fold (\<lambda>xs c. av_hmac_update c xs) chunks (av_hmac_init (av_hmac_alloc type) key)) outlen of (ret, out, c) \<Rightarrow>
     (ret, out) = (if outlen < hash_size type then (- 22, [])
                   else (int (hash_size type), hmac_spec (hash_of type) (block_size type) key (concat chunks)))"
proof -
  have z: "md5_ok av_md5_alloc" "buffer_ok 64 av_sha_alloc" "buffer_ok 128 av_sha512_alloc"
    by (simp_all add: md5_ok_def buffer_ok_def av_md5_alloc_def av_sha_alloc_def av_sha512_alloc_def)
  have "\<exists>c'. av_hmac_final (fold (\<lambda>xs c. av_hmac_update c xs) chunks (av_hmac_init (av_hmac_alloc type) key)) outlen =
      (if outlen < hash_size type then (- 22, [], c')
       else (int (hash_size type), hmac_spec (hash_of type) (block_size type) key (concat chunks), c'))"
  proof (cases type)
    case AV_HMAC_MD5
    show ?thesis using hash_md5.hmac_value [of "av_hmac_alloc type" 64 key chunks outlen] z assms
      by (simp add: AV_HMAC_MD5 hmac_kinds split del: if_split cong: if_cong)
  next
    case AV_HMAC_SHA1
    show ?thesis using hash_sha1.hmac_value [of "av_hmac_alloc type" 64 key chunks outlen] z assms
      by (simp add: AV_HMAC_SHA1 hmac_kinds split del: if_split cong: if_cong)
  next
    case AV_HMAC_SHA224
    show ?thesis using hash_sha224.hmac_value [of "av_hmac_alloc type" 64 key chunks outlen] z assms
      by (simp add: AV_HMAC_SHA224 hmac_kinds split del: if_split cong: if_cong)
  next
    case AV_HMAC_SHA256
    show ?thesis using hash_sha256.hmac_value [of "av_hmac_alloc type" 64 key chunks outlen] z assms
      by (simp add: AV_HMAC_SHA256 hmac_kinds split del: if_split cong: if_cong)
  next
    case AV_HMAC_SHA384
    show ?thesis using hash_sha384.hmac_value [of "av_hmac_alloc type" 128 key chunks outlen] z assms
      by (simp add: AV_HMAC_SHA384 hmac_kinds split del: if_split cong: if_cong)
  next
    case AV_HMAC_SHA512
    show ?thesis using hash_sha512.hmac_value [of "av_hmac_alloc type" 128 key chunks outlen] z assms
      by (simp add: AV_HMAC_SHA512 hmac_kinds split del: if_split cong: if_cong)
  qed
  then show ?thesis by (cases "outlen < hash_size type") auto
qed

theorem av_hmac_correct_witness:
  "case av_hmac_final (av_hmac_update (av_hmac_update (av_hmac_init (av_hmac_alloc AV_HMAC_SHA256) [1, 2, 3]) [4]) [5, 6]) 32 of
     (ret, out, c) \<Rightarrow> ret = 32 \<and> out = hmac_spec (sha_hash 256) 64 [1, 2, 3] [4, 5, 6]"
  using av_hmac_correct [of "[1, 2, 3]" AV_HMAC_SHA256 "[[4], [5, 6]]" 32]
  by (simp add: longest_piece_def block_size_def hash_size_def hash_of_def split: prod.splits)

end
