(* ===== verification/Avstring.thy ===== *)
theory Avstring
  imports Clib "HOL-Library.Char_ord"
begin

section \<open>String functions: \<open>libavutil/avstring.c\<close> and \<open>avstring.h\<close>\<close>

text \<open>
  A C string is the list of its characters before the terminating zero.  Functions that return a
  pointer into their argument return the rest of the string from there on, \<open>None\<close> for a null
  pointer.  \<open>HAVE_DOS_PATHS\<close> is off.
\<close>

abbreviation NUL :: char where "NUL \<equiv> CHR 0x00"

definition deref :: "string \<Rightarrow> char" where
  "deref s = (case s of [] \<Rightarrow> NUL | c # _ \<Rightarrow> c)"

definition av_isdigit :: "char \<Rightarrow> bool" where
  "av_isdigit c \<longleftrightarrow> CHR ''0'' \<le> c \<and> c \<le> CHR ''9''"

definition av_isspace :: "char \<Rightarrow> bool" where
  "av_isspace c \<longleftrightarrow> c \<in> {CHR '' '', CHR 0x0C, CHR 0x0A, CHR 0x0D, CHR 0x09, CHR 0x0B}"

definition av_toupper :: "char \<Rightarrow> char" where
  "av_toupper c = (if CHR ''a'' \<le> c \<and> c \<le> CHR ''z'' then char_of ((of_char c :: nat) XOR 0x20) else c)"

definition av_tolower :: "char \<Rightarrow> char" where
  "av_tolower c = (if CHR ''A'' \<le> c \<and> c \<le> CHR ''Z'' then char_of ((of_char c :: nat) XOR 0x20) else c)"

subsection \<open>Prefixes and searching\<close>

fun av_strstart :: "string \<Rightarrow> string \<Rightarrow> string option" where
  "av_strstart str [] = Some str"
| "av_strstart [] (p # pfx) = None"
| "av_strstart (c # str) (p # pfx) = (if p = c then av_strstart str pfx else None)"

fun av_stristart :: "string \<Rightarrow> string \<Rightarrow> string option" where
  "av_stristart str [] = Some str"
| "av_stristart [] (p # pfx) = None"
| "av_stristart (c # str) (p # pfx) = (if av_toupper p = av_toupper c then av_stristart str pfx else None)"

fun av_stristr :: "string \<Rightarrow> string \<Rightarrow> string option" where
  "av_stristr s1 s2 =
     (if s2 = [] then Some s1
      else if av_stristart s1 s2 \<noteq> None then Some s1
      else case s1 of [] \<Rightarrow> None | _ # s1' \<Rightarrow> av_stristr s1' s2)"

declare av_stristr.simps [simp del]

fun strnstr_loop :: "string \<Rightarrow> string \<Rightarrow> nat \<Rightarrow> string option" where
  "strnstr_loop haystack needle 0 = None"
| "strnstr_loop haystack needle (Suc hay_length) =
     (if Suc hay_length \<ge> length needle
      then if take (length needle) haystack = needle then Some haystack
           else strnstr_loop (tl haystack) needle hay_length
      else None)"

definition av_strnstr :: "string \<Rightarrow> string \<Rightarrow> nat \<Rightarrow> string option" where
  "av_strnstr haystack needle hay_length =
     (if needle = [] then Some haystack else strnstr_loop haystack needle hay_length)"

subsection \<open>Bounded copies\<close>

text \<open>The copy loop: \<open>(len, copied, rest of src)\<close>.\<close>

fun strlcpy_loop :: "nat \<Rightarrow> nat \<Rightarrow> string \<Rightarrow> nat \<times> string \<times> string" where
  "strlcpy_loop len n [] = (len + 1, [], [])"
| "strlcpy_loop len n (c # src) =
     (if len + 1 < n
      then let (l, d, r) = strlcpy_loop (len + 1) n src in (l, c # d, r)
      else (len + 1, [], c # src))"

text \<open>The new content of \<open>dst\<close> and the return value; \<open>n\<close> is the size of the buffer.\<close>

definition av_strlcpy :: "string \<Rightarrow> string \<Rightarrow> nat \<Rightarrow> string \<times> nat" where
  "av_strlcpy dst src n =
     (let (len, d, rest) = strlcpy_loop 0 n src
      in (if len \<le> n then d else dst, len + length rest - 1))"

definition av_strlcat :: "string \<Rightarrow> string \<Rightarrow> nat \<Rightarrow> string \<times> nat" where
  "av_strlcat dst src n =
     (let len = length dst
      in if n \<le> len + 1 then (dst, len + length src)
         else let (d, r) = av_strlcpy [] src (n - len) in (dst @ d, len + r))"

subsection \<open>Comparison\<close>

definition char_diff :: "char \<Rightarrow> char \<Rightarrow> int" where
  "char_diff c1 c2 = of_char c1 - of_char c2"

fun av_strcasecmp :: "string \<Rightarrow> string \<Rightarrow> int" where
  "av_strcasecmp a b =
     (let c1 = av_tolower (deref a); c2 = av_tolower (deref b)
      in if a \<noteq> [] \<and> c1 \<noteq> NUL \<and> c1 = c2 then av_strcasecmp (tl a) (tl b) else char_diff c1 c2)"

declare av_strcasecmp.simps [simp del]

fun av_strncasecmp :: "string \<Rightarrow> string \<Rightarrow> nat \<Rightarrow> int" where
  "av_strncasecmp a b 0 = 0"
| "av_strncasecmp a b (Suc n) =
     (let c1 = av_tolower (deref a); c2 = av_tolower (deref b)
      in if n \<noteq> 0 \<and> c1 \<noteq> NUL \<and> c1 = c2 then av_strncasecmp (tl a) (tl b) n else char_diff c1 c2)"

subsection \<open>Tokens\<close>

text \<open>The token and where to go on; \<open>s\<close> or else \<open>saveptr\<close> is scanned.\<close>

definition av_strtok :: "string option \<Rightarrow> string \<Rightarrow> string option \<Rightarrow> string option \<times> string option" where
  "av_strtok s delim saveptr =
     (case (if s = None then saveptr else s) of
        None \<Rightarrow> (None, saveptr)
      | Some s \<Rightarrow>
          let s = dropWhile (\<lambda>c. c \<in> set delim) s
          in if s = [] then (None, None)
             else
               let tok = hd s # takeWhile (\<lambda>c. c \<notin> set delim) (tl s);
                   rest = dropWhile (\<lambda>c. c \<notin> set delim) (tl s)
               in (Some tok, if rest \<noteq> [] then Some (tl rest) else None))"

subsection \<open>Paths\<close>

text \<open>\<open>strrchr\<close> of the C library: the string from the last occurrence of a character on.\<close>

fun strrchr :: "string \<Rightarrow> char \<Rightarrow> string option" where
  "strrchr [] c = None"
| "strrchr (d # s) c = (case strrchr s c of Some r \<Rightarrow> Some r | None \<Rightarrow> if d = c then Some (d # s) else None)"

definition av_basename :: "string \<Rightarrow> string" where
  "av_basename path = (case strrchr path CHR ''/'' of None \<Rightarrow> path | Some p \<Rightarrow> tl p)"

definition av_dirname :: "string \<Rightarrow> string" where
  "av_dirname path =
     (case strrchr path CHR ''/'' of None \<Rightarrow> ''.'' | Some p \<Rightarrow> take (length path - length p) path)"

text \<open>Null pointers are \<open>None\<close>; the lengths are far below \<open>SIZE_MAX\<close> and the allocation succeeds.\<close>

definition av_append_path_component :: "string option \<Rightarrow> string option \<Rightarrow> string option" where
  "av_append_path_component path component =
     (case path of None \<Rightarrow> component
      | Some p \<Rightarrow>
          (case component of None \<Rightarrow> Some p
           | Some c \<Rightarrow>
               let full = (if p \<noteq> [] \<and> c \<noteq> []
                           then if p ! (length p - 1) \<noteq> CHR ''/'' \<and> c ! 0 \<noteq> CHR ''/'' then p @ ''/''
                                else if p ! (length p - 1) = CHR ''/'' \<and> c ! 0 = CHR ''/''
                                     then take (length p - 1) p
                                     else p
                           else p)
               in Some (full @ c)))"

subsection \<open>Their meaning\<close>

lemma av_strstart_iff: "av_strstart str pfx = Some r \<longleftrightarrow> str = pfx @ r"
  by (induction str pfx rule: av_strstart.induct) auto

lemma av_strstart_append [simp]: "av_strstart (pfx @ r) pfx = Some r"
  by (simp add: av_strstart_iff)

lemma av_strstart_None: "av_strstart str pfx = None \<longleftrightarrow> (\<forall>r. str \<noteq> pfx @ r)"
  using av_strstart_iff by (metis not_None_eq option.distinct(1))

lemma strlcpy_loop_value:
  "strlcpy_loop len n src = (len + 1 + length (take (n - len - 1) src), take (n - len - 1) src, drop (n - len - 1) src)"
proof (induction len n src rule: strlcpy_loop.induct)
  case (2 len n c src)
  show ?case
  proof (cases "len + 1 < n")
    case True
    define k where "k = n - (len + 1) - 1"
    have k: "n - len - 1 = Suc k" using True by (simp add: k_def)
    show ?thesis using 2 [OF True] True unfolding k k_def [symmetric] by simp
  next
    case False
    then have "n - len - 1 = 0" by simp
    then show ?thesis using False by simp
  qed
qed simp

lemma av_strlcpy_value:
  "0 < n \<Longrightarrow> av_strlcpy dst src n = (take (n - 1) src, length src)"
  by (auto simp: av_strlcpy_def strlcpy_loop_value min_def)

lemma av_strlcat_value:
  "length dst < n \<Longrightarrow> av_strlcat dst src n = (take (n - 1) (dst @ src), length dst + length src)"
  by (auto simp: av_strlcat_def av_strlcpy_value Let_def)

lemma last_split_unique:
  assumes "u @ c # v = u' @ c # v'" "c \<notin> set v" "c \<notin> set v'"
  shows "v = v'"
proof -
  have "rev (takeWhile (\<lambda>x. x \<noteq> c) (rev (x @ c # y))) = y" if "c \<notin> set y" for x y
    using that by (simp add: takeWhile_append)
  then show ?thesis using assms by metis
qed

lemma strrchr_sound: "strrchr s c = Some p \<Longrightarrow> \<exists>u v. s = u @ c # v \<and> p = c # v \<and> c \<notin> set v"
  and strrchr_none: "strrchr s c = None \<Longrightarrow> c \<notin> set s"
proof (induction s arbitrary: p)
  case (Cons d s)
  { case 1
    then show ?case
    proof (cases "strrchr s c")
      case None
      then show ?thesis using 1 Cons.IH(2) by (auto split: if_splits)
    next
      case (Some r)
      then obtain u v where "s = u @ c # v" "r = c # v" "c \<notin> set v" using Cons.IH(1) by blast
      then show ?thesis using Some 1 by (auto intro: exI [of _ "d # u"])
    qed
  next
    case 2
    then show ?case using Cons.IH(2) by (auto split: option.splits if_splits) }
qed simp_all

lemma strrchr_Some: "strrchr s c = Some p \<longleftrightarrow> (\<exists>u v. s = u @ c # v \<and> p = c # v \<and> c \<notin> set v)"
proof
  assume "\<exists>u v. s = u @ c # v \<and> p = c # v \<and> c \<notin> set v"
  then obtain u v where s: "s = u @ c # v" "p = c # v" "c \<notin> set v" by blast
  then obtain q where q: "strrchr s c = Some q" using strrchr_none [of s c] by auto
  then obtain u' v' where "s = u' @ c # v'" "q = c # v'" "c \<notin> set v'" using strrchr_sound by blast
  then show "strrchr s c = Some p" using s q last_split_unique by metis
qed (rule strrchr_sound)

lemma strrchr_None: "strrchr s c = None \<longleftrightarrow> c \<notin> set s"
  using strrchr_Some [of s c] by (metis not_None_eq option.distinct(1) split_list_last in_set_conv_decomp)

lemma av_basename_append: "CHR ''/'' \<notin> set f \<Longrightarrow> av_basename (d @ CHR ''/'' # f) = f"
proof -
  assume "CHR ''/'' \<notin> set f"
  then have "strrchr (d @ CHR ''/'' # f) CHR ''/'' = Some (CHR ''/'' # f)" by (auto simp: strrchr_Some)
  then show ?thesis by (simp add: av_basename_def)
qed

lemma av_basename_plain: "CHR ''/'' \<notin> set f \<Longrightarrow> av_basename f = f"
  using strrchr_None [of f "CHR ''/''"] by (simp add: av_basename_def)

lemma av_basename_suffix: "\<exists>d. path = d @ av_basename path \<and> (d = [] \<or> (\<exists>e. d = e @ ''/''))"
proof (cases "strrchr path CHR ''/''")
  case None
  then show ?thesis by (simp add: av_basename_def)
next
  case (Some p)
  then obtain u v where "path = u @ CHR ''/'' # v" "p = CHR ''/'' # v" by (auto simp: strrchr_Some)
  then show ?thesis using Some by (auto simp: av_basename_def intro!: exI [of _ "u @ ''/''"])
qed

lemma av_basename_no_slash: "CHR ''/'' \<notin> set (av_basename path)"
proof (cases "strrchr path CHR ''/''")
  case None
  then show ?thesis using strrchr_None [of path "CHR ''/''"] by (simp add: av_basename_def)
next
  case (Some p)
  then obtain v where "p = CHR ''/'' # v" "CHR ''/'' \<notin> set v" by (auto simp: strrchr_Some)
  then show ?thesis using Some by (simp add: av_basename_def)
qed

end
