(* ===== verification/HlsPlaylist.thy ===== *)
theory HlsPlaylist
  imports Avstring Intmath
begin

section \<open>Playlist text: \<open>libavformat/hlsplaylist.c\<close>\<close>

text \<open>
  Each function appends text to an output context: \<open>string option\<close>, \<open>None\<close> for a null pointer.
  Durations are C \<open>double\<close>s; what the code does with them (adding, comparing, rounding, printing) is
  collected in a record \<open>float_ops\<close> over an abstract type, so that nothing here depends on a
  particular rounding of floating point arithmetic.  The conversion of a time to the text of
  \<open>EXT-X-PROGRAM-DATE-TIME\<close> (\<open>localtime_r\<close>, \<open>strftime\<close>) is one of its fields.
\<close>

subsection \<open>Decimal numbers\<close>

definition digit :: "nat \<Rightarrow> char" where
  "digit d = ''0123456789'' ! d"

fun show_nat :: "nat \<Rightarrow> string" where
  "show_nat n = (if n < 10 then [digit n] else show_nat (n div 10) @ [digit (n mod 10)])"

declare show_nat.simps [simp del]

text \<open>\<open>%d\<close> and \<open>%"PRId64"\<close>.\<close>

definition show_int :: "int \<Rightarrow> string" where
  "show_int i = (if i < 0 then CHR ''-'' # show_nat (nat (- i)) else show_nat (nat i))"

definition digit_value :: "char \<Rightarrow> int" where
  "digit_value c = of_char c - 48"

fun read_digits :: "int \<Rightarrow> string \<Rightarrow> int" where
  "read_digits acc [] = acc"
| "read_digits acc (c # s) = (if av_isdigit c then read_digits (acc * 10 + digit_value c) s else acc)"

fun decimal_value :: "string \<Rightarrow> int" where
  "decimal_value [] = 0"
| "decimal_value (c # s) =
     (if av_isspace c then decimal_value s
      else if c = CHR ''-'' then - read_digits 0 s
      else if c = CHR ''+'' then read_digits 0 s
      else read_digits 0 (c # s))"

text \<open>\<open>strtoll(s, NULL, 10)\<close> of the C library, which saturates at the ends of the range.\<close>

definition strtoll10 :: "string \<Rightarrow> int" where
  "strtoll10 s = max INT64_MIN (min INT64_MAX (decimal_value s))"

lemma digit_table: "d < 10 \<Longrightarrow> av_isdigit (digit d) \<and> digit_value (digit d) = int d \<and> \<not> av_isspace (digit d) \<and>
    digit d \<noteq> CHR ''-'' \<and> digit d \<noteq> CHR ''+'' \<and> digit d \<noteq> CHR 0x0A"
proof -
  assume "d < 10"
  then have "d = 0 \<or> d = 1 \<or> d = 2 \<or> d = 3 \<or> d = 4 \<or> d = 5 \<or> d = 6 \<or> d = 7 \<or> d = 8 \<or> d = 9"
    by auto
  then show ?thesis by (elim disjE) (simp_all add: digit_def av_isdigit_def digit_value_def av_isspace_def less_eq_char_def)
qed

lemma read_show_nat: "read_digits a (show_nat n @ r) = read_digits (a * 10 ^ length (show_nat n) + int n) r"
proof (induction n arbitrary: a r rule: show_nat.induct)
  case (1 n)
  show ?case
  proof (cases "n < 10")
    case True
    then show ?thesis using digit_table [OF True] by (subst (1 2) show_nat.simps) simp
  next
    case False
    have d: "n mod 10 < 10" by simp
    have "read_digits a (show_nat n @ r) = read_digits a (show_nat (n div 10) @ digit (n mod 10) # r)"
      using False by (subst show_nat.simps) simp
    also have "\<dots> = read_digits ((a * 10 ^ length (show_nat (n div 10)) + int (n div 10)) * 10 + int (n mod 10)) r"
      using 1 [OF False] digit_table [OF d] by simp
    also have "(a * 10 ^ length (show_nat (n div 10)) + int (n div 10)) * 10 + int (n mod 10) =
        a * 10 ^ length (show_nat n) + int n"
    proof -
      have l: "length (show_nat n) = Suc (length (show_nat (n div 10)))"
        using False by (subst show_nat.simps) simp
      have "int n = int (n div 10) * 10 + int (n mod 10)" by (metis div_mult_mod_eq of_nat_add of_nat_mult of_nat_numeral)
      then show ?thesis unfolding l by (simp add: algebra_simps)
    qed
    finally show ?thesis .
  qed
qed

lemma show_nat_head: "\<exists>c s. show_nat n = c # s \<and> \<not> av_isspace c \<and> c \<noteq> CHR ''-'' \<and> c \<noteq> CHR ''+''"
proof (induction n rule: show_nat.induct)
  case (1 n)
  then show ?case using digit_table [of n] by (subst show_nat.simps) auto
qed

lemma decimal_value_show_int:
  assumes "r = [] \<or> \<not> av_isdigit (hd r)"
  shows "decimal_value (show_int i @ r) = i"
proof -
  have e: "read_digits x r = x" for x using assms by (cases r) auto
  have n: "read_digits 0 (show_nat n @ r) = int n" for n by (simp add: read_show_nat e)
  show ?thesis
  proof (cases "i < 0")
    case True
    then show ?thesis using n [of "nat (- i)"] by (simp add: show_int_def av_isspace_def)
  next
    case False
    obtain c s where "show_nat (nat i) = c # s" "\<not> av_isspace c" "c \<noteq> CHR ''-''" "c \<noteq> CHR ''+''"
      using show_nat_head by blast
    then show ?thesis using False n [of "nat i"] by (simp add: show_int_def)
  qed
qed

lemma strtoll10_show_int:
  "r = [] \<or> \<not> av_isdigit (hd r) \<Longrightarrow> int64 i \<Longrightarrow> strtoll10 (show_int i @ r) = i"
  by (simp add: strtoll10_def decimal_value_show_int int64_def)

lemma show_nat_digits: "c \<in> set (show_nat n) \<Longrightarrow> \<exists>d < 10. c = digit d"
proof (induction n rule: show_nat.induct)
  case (1 n)
  then show ?case by (subst (asm) (2) show_nat.simps) (force split: if_splits)
qed

lemma show_nat_length: "n < 10 ^ k \<Longrightarrow> 0 < k \<Longrightarrow> length (show_nat n) \<le> k"
proof (induction n arbitrary: k rule: show_nat.induct)
  case (1 n)
  show ?case
  proof (cases "n < 10")
    case True
    then show ?thesis using 1(3) by (subst show_nat.simps) simp
  next
    case False
    then obtain j where k: "k = Suc j" "0 < j" using 1(2,3) by (cases k; cases "k - 1") auto
    have "n div 10 < 10 ^ j" using 1(2) by (simp add: k less_mult_imp_div_less mult.commute)
    then show ?thesis using 1(1) [OF False, of j] False k by (subst show_nat.simps) simp
  qed
qed

text \<open>The characters and the length of a printed 64-bit number.\<close>

lemma show_int_chars: "c \<in> set (show_int i) \<Longrightarrow> c = CHR ''-'' \<or> (\<exists>d < 10. c = digit d)"
  by (auto simp: show_int_def dest: show_nat_digits split: if_splits)

lemma show_int_last: "show_int i \<noteq> [] \<and> (\<exists>d < 10. last (show_int i) = digit d)"
proof -
  have "\<exists>d < 10. last (show_nat n) = digit d \<and> show_nat n \<noteq> []" for n
    by (subst (1 2) show_nat.simps) (auto intro: exI [of _ n] exI [of _ "n mod 10"])
  then show ?thesis unfolding show_int_def by auto
qed

lemma show_int_length: "int64 i \<Longrightarrow> length (show_int i) \<le> 21"
proof -
  assume "int64 i"
  then have "nat i < 10 ^ 20" "nat (- i) < 10 ^ 20" by (auto simp: int64_def)
  then have "length (show_nat (nat i)) \<le> 20" "length (show_nat (nat (- i))) \<le> 20" by (intro show_nat_length; simp)+
  then show ?thesis by (simp add: show_int_def)
qed

subsection \<open>The functions\<close>

text \<open>Arithmetic on durations: \<open>'f\<close> stands for \<open>float\<close>, \<open>'d\<close> for \<open>double\<close>.\<close>

record ('f, 'd) float_ops =
  fl_zero :: 'f
  fl_add :: "'f \<Rightarrow> 'd \<Rightarrow> 'f"
  fl_sub :: "'f \<Rightarrow> 'd \<Rightarrow> 'f"
  fl_le_neg :: "'f \<Rightarrow> 'd \<Rightarrow> bool"
  db_add :: "'d \<Rightarrow> 'd \<Rightarrow> 'd"
  db_le :: "int \<Rightarrow> 'd \<Rightarrow> bool"
  db_lrint :: "'d \<Rightarrow> int"
  db_show :: "'d \<Rightarrow> string"
  db_atof :: "string \<Rightarrow> 'd"
  db_micro :: "'d \<Rightarrow> int"
  db_date :: "'d \<Rightarrow> string option"

type_synonym avio = "string option"

definition avio_print :: "avio \<Rightarrow> string \<Rightarrow> avio" where
  "avio_print out t = map_option (\<lambda>s. s @ t) out"

abbreviation LF :: string where "LF \<equiv> [CHR 0x0A]"
abbreviation QUOTE :: string where "QUOTE \<equiv> [CHR 0x22]"

definition ff_hls_write_playlist_version :: "avio \<Rightarrow> int \<Rightarrow> avio" where
  "ff_hls_write_playlist_version out version =
     (if out = None then out
      else avio_print (avio_print out (''#EXTM3U'' @ LF)) (''#EXT-X-VERSION:'' @ show_int version @ LF))"

definition ff_hls_write_audio_rendition ::
  "avio \<Rightarrow> string option \<Rightarrow> string option \<Rightarrow> string option \<Rightarrow> int \<Rightarrow> bool \<Rightarrow> avio" where
  "ff_hls_write_audio_rendition out agroup filename language name_id is_default =
     (case (out, agroup, filename) of
        (Some _, Some g, Some f) \<Rightarrow>
          let out = avio_print out (''#EXT-X-MEDIA:TYPE=AUDIO,GROUP-ID='' @ QUOTE @ ''group_'' @ g @ QUOTE);
              out = avio_print out ('',NAME='' @ QUOTE @ ''audio_'' @ show_int name_id @ QUOTE @ '',DEFAULT='' @
                      (if is_default then ''YES'' else ''NO'') @ '','');
              out = (case language of None \<Rightarrow> out
                     | Some l \<Rightarrow> avio_print out (''LANGUAGE='' @ QUOTE @ l @ QUOTE @ '',''))
          in avio_print out (''URI='' @ QUOTE @ f @ QUOTE @ LF)
      | _ \<Rightarrow> out)"

text \<open>\<open>st\<close> gives the width and height of the stream.\<close>

definition ff_hls_write_stream_info :: "(int \<times> int) option \<Rightarrow> avio \<Rightarrow> int \<Rightarrow> string option \<Rightarrow> string option \<Rightarrow>
    string option \<Rightarrow> string option \<Rightarrow> avio" where
  "ff_hls_write_stream_info st out bandwidth filename agroup codecs ccgroup =
     (case (out, filename) of
        (Some _, Some f) \<Rightarrow>
          if bandwidth = 0 then out
          else
            let attr = (\<lambda>out v name pre. case v of
                    None \<Rightarrow> out
                  | Some t \<Rightarrow> if length t > 0 then avio_print out ('','' @ name @ ''='' @ QUOTE @ pre @ t @ QUOTE) else out);
                out = avio_print out (''#EXT-X-STREAM-INF:BANDWIDTH='' @ show_int bandwidth);
                out = (case st of
                    Some (w, h) \<Rightarrow>
                      if w > 0 \<and> h > 0 then avio_print out ('',RESOLUTION='' @ show_int w @ ''x'' @ show_int h) else out
                  | None \<Rightarrow> out);
                out = attr out codecs ''CODECS'' '''';
                out = attr out agroup ''AUDIO'' ''group_'';
                out = attr out ccgroup ''CLOSED-CAPTIONS'' ''''
            in avio_print out (LF @ f @ LF @ LF)
      | _ \<Rightarrow> out)"

abbreviation (input) PLAYLIST_TYPE_NONE :: int where "PLAYLIST_TYPE_NONE \<equiv> 0"
abbreviation (input) PLAYLIST_TYPE_EVENT :: int where "PLAYLIST_TYPE_EVENT \<equiv> 1"
abbreviation (input) PLAYLIST_TYPE_VOD :: int where "PLAYLIST_TYPE_VOD \<equiv> 2"

definition ff_hls_write_playlist_header :: "avio \<Rightarrow> int \<Rightarrow> int \<Rightarrow> int \<Rightarrow> int \<Rightarrow> int \<Rightarrow> bool \<Rightarrow> avio" where
  "ff_hls_write_playlist_header out version allowcache target_duration sequence playlist_type iframe_mode =
     (if out = None then out
      else
        let out = ff_hls_write_playlist_version out version;
            out = (if allowcache = 0 \<or> allowcache = 1
                   then avio_print out (''#EXT-X-ALLOW-CACHE:'' @ (if allowcache = 0 then ''NO'' else ''YES'') @ LF)
                   else out);
            out = avio_print out (''#EXT-X-TARGETDURATION:'' @ show_int target_duration @ LF);
            out = avio_print out (''#EXT-X-MEDIA-SEQUENCE:'' @ show_int sequence @ LF);
            out = (if playlist_type = PLAYLIST_TYPE_EVENT then avio_print out (''#EXT-X-PLAYLIST-TYPE:EVENT'' @ LF)
                   else if playlist_type = PLAYLIST_TYPE_VOD then avio_print out (''#EXT-X-PLAYLIST-TYPE:VOD'' @ LF)
                   else out)
        in if iframe_mode then avio_print out (''#EXT-X-I-FRAMES-ONLY'' @ LF) else out)"

definition ff_hls_write_init_file :: "avio \<Rightarrow> string \<Rightarrow> bool \<Rightarrow> int \<Rightarrow> int \<Rightarrow> avio" where
  "ff_hls_write_init_file out filename byterange_mode sz pos =
     (let out = avio_print out (''#EXT-X-MAP:URI='' @ QUOTE @ filename @ QUOTE);
          out = (if byterange_mode
                 then avio_print out ('',BYTERANGE='' @ QUOTE @ show_int sz @ ''@'' @ show_int pos @ QUOTE) else out)
      in avio_print out LF)"

abbreviation (input) AVERROR_UNKNOWN :: int where "AVERROR_UNKNOWN \<equiv> - 1313558101"

text \<open>The result: return value, output and the program date and time, advanced by the duration.\<close>

definition ff_hls_write_file_entry :: "('f, 'd) float_ops \<Rightarrow> avio \<Rightarrow> bool \<Rightarrow> bool \<Rightarrow> 'd \<Rightarrow> bool \<Rightarrow> int \<Rightarrow> int \<Rightarrow>
    string option \<Rightarrow> string option \<Rightarrow> 'd option \<Rightarrow> int \<Rightarrow> int \<Rightarrow> bool \<Rightarrow> int \<times> avio \<times> 'd option" where
  "ff_hls_write_file_entry fl out insert_discont byterange_mode duration round_duration sz pos baseurl filename
      prog_date_time video_keyframe_size video_keyframe_pos iframe_mode =
     (case (out, filename) of
        (Some _, Some f) \<Rightarrow>
          let out = (if insert_discont then avio_print out (''#EXT-X-DISCONTINUITY'' @ LF) else out);
              out = (if round_duration then avio_print out (''#EXTINF:'' @ show_int (db_lrint fl duration) @ '','' @ LF)
                     else avio_print out (''#EXTINF:'' @ db_show fl duration @ '','' @ LF));
              out = (if byterange_mode
                     then avio_print out (''#EXT-X-BYTERANGE:'' @ show_int (if iframe_mode then video_keyframe_size else sz)
                            @ ''@'' @ show_int (if iframe_mode then video_keyframe_pos else pos) @ LF)
                     else out);
              finish = (\<lambda>out t.
                 let out = (case baseurl of None \<Rightarrow> out | Some b \<Rightarrow> avio_print out b)
                 in (0, avio_print out (f @ LF), t))
          in (case prog_date_time of
                None \<Rightarrow> finish out None
              | Some t \<Rightarrow>
                  (case db_date fl t of
                     None \<Rightarrow> (AVERROR_UNKNOWN, out, Some t)
                   | Some d \<Rightarrow>
                       finish (avio_print out (''#EXT-X-PROGRAM-DATE-TIME:'' @ d @ LF)) (Some (db_add fl t duration))))
      | _ \<Rightarrow> (- 22, out, prog_date_time))"

definition ff_hls_write_end_list :: "avio \<Rightarrow> avio" where
  "ff_hls_write_end_list out = (if out = None then out else avio_print out (''#EXT-X-ENDLIST'' @ LF))"

subsection \<open>Durations in microseconds\<close>

text \<open>An exact instance of the operations on durations: whole microseconds, printed as \<open>%f\<close> prints them,
  rounded to seconds with ties to even as \<open>lrint\<close> rounds.\<close>

definition pad6 :: "nat \<Rightarrow> string" where
  "pad6 n = (let s = show_nat n in replicate (6 - length s) CHR ''0'' @ s)"

definition micro_show :: "int \<Rightarrow> string" where
  "micro_show d =
     (if d < 0 then ''-'' else []) @ show_nat (nat \<bar>d\<bar> div 1000000) @ ''.'' @ pad6 (nat \<bar>d\<bar> mod 1000000)"

definition micro_atof :: "string \<Rightarrow> int" where
  "micro_atof s =
     decimal_value s * 1000000 +
     (let f = takeWhile av_isdigit (drop 1 (dropWhile (\<lambda>c. c \<noteq> CHR ''.'') s)); g = take 6 (f @ ''000000'')
      in (if s \<noteq> [] \<and> hd s = CHR ''-'' then - read_digits 0 g else read_digits 0 g))"

definition micro_lrint :: "int \<Rightarrow> int" where
  "micro_lrint d =
     (let q = d div 1000000; r = d mod 1000000
      in if r < 500000 \<or> r = 500000 \<and> even q then q else q + 1)"

definition micro_ops :: "(int, int) float_ops" where
  "micro_ops =
     \<lparr>fl_zero = 0, fl_add = (+), fl_sub = (-), fl_le_neg = (\<lambda>x d. x \<le> - d), db_add = (+),
      db_le = (\<lambda>n d. n * 1000000 \<le> d), db_lrint = micro_lrint, db_show = micro_show, db_atof = micro_atof,
      db_micro = (\<lambda>d. d), db_date = (\<lambda>_. None)\<rparr>"

end
