(* ===== verification/HlsEnc.thy ===== *)
theory HlsEnc
  imports HlsPlaylist
begin

section \<open>The HLS muxer's segment list: \<open>libavformat/hlsenc.c\<close>\<close>

text \<open>
  The segment window of a variant stream: appending a finished segment, sliding the window, deleting
  the files of segments that left it, writing the media playlist and reading one back.  The linked
  lists \<open>segments\<close> and \<open>old_segments\<close> are lists; \<open>last_segment\<close> is the last element of the former.
  File operations are a list of events; what opening a DELETE request returns is a function
  \<open>io_open\<close>, and \<open>is_http\<close> says whether the output URL has the protocol \<open>http\<close>.  Allocations succeed.
\<close>

abbreviation MAX_URL_SIZE :: nat where "MAX_URL_SIZE \<equiv> 4096"
abbreviation KEYSIZE :: nat where "KEYSIZE \<equiv> 16"
abbreviation LINE_BUFFER_SIZE :: nat where "LINE_BUFFER_SIZE \<equiv> MAX_URL_SIZE"
abbreviation AVERROR_INVALIDDATA :: int where "AVERROR_INVALIDDATA \<equiv> - 1094995529"

text \<open>The flags, by their bit number.\<close>

datatype HLSFlags = HLS_SINGLE_FILE | HLS_DELETE_SEGMENTS | HLS_ROUND_DURATIONS | HLS_DISCONT_START
  | HLS_OMIT_ENDLIST | HLS_SPLIT_BY_TIME | HLS_APPEND_LIST | HLS_PROGRAM_DATE_TIME
  | HLS_SECOND_LEVEL_SEGMENT_INDEX | HLS_SECOND_LEVEL_SEGMENT_DURATION | HLS_SECOND_LEVEL_SEGMENT_SIZE
  | HLS_TEMP_FILE | HLS_PERIODIC_REKEY | HLS_INDEPENDENT_SEGMENTS | HLS_I_FRAMES_ONLY

record 'd HLSSegment =
  filename :: string
  sub_filename :: string
  duration :: 'd
  discont :: bool
  pos :: int
  seg_size :: int
  keyframe_pos :: int
  keyframe_size :: int
  seg_var_stream_idx :: int
  seg_key_uri :: string
  seg_iv_string :: string

record 'd VariantStream =
  var_stream_idx :: int
  sequence :: int
  avf_url :: string
  vtt_url :: string
  has_video :: bool
  has_subtitle :: bool
  video_keyframe_pos :: int
  video_keyframe_size :: int
  last_duration :: 'd
  start_pos :: int
  last_size :: int
  nb_entries :: int
  discontinuity_set :: bool
  discontinuity :: bool
  segments :: "'d HLSSegment list"
  old_segments :: "'d HLSSegment list"
  init_range_length :: int
  initial_prog_date_time :: 'd
  current_segment_final_filename_fmt :: string
  fmp4_init_filename :: string
  m3u8_name :: string
  vtt_m3u8_name :: "string option"
  baseurl :: "string option"
  varname :: "string option"

record HLSContext =
  start_sequence :: int
  max_nb_segments :: int
  hls_delete_threshold :: int
  wrap :: int
  flags :: "HLSFlags set"
  pl_type :: int
  segment_filename :: "string option"
  segment_fmp4 :: bool
  use_localtime_mkdir :: bool
  allowcache :: int
  max_seg_size :: int
  encrypt :: bool
  key_info_file :: bool
  key_uri :: string
  iv_string :: string
  http_method :: "string option"
  version :: int
  ignore_io_errors :: bool

subsection \<open>File name templates\<close>

definition show_int_pad :: "nat \<Rightarrow> int \<Rightarrow> string" where
  "show_int_pad width i =
     (if i < 0 then CHR ''-'' # replicate (width - 1 - length (show_nat (nat (- i)))) CHR ''0'' @ show_nat (nat (- i))
      else replicate (width - length (show_nat (nat i))) CHR ''0'' @ show_nat (nat i))"

fun decimal :: "nat \<Rightarrow> string \<Rightarrow> nat" where
  "decimal nd [] = nd"
| "decimal nd (c # s) = decimal (nd * 10 + nat (digit_value c)) s"

text \<open>The new name and the number of replacements.\<close>

function replace_int_data_in_filename :: "string \<Rightarrow> char \<Rightarrow> int \<Rightarrow> string \<times> nat" where
  "replace_int_data_in_filename p placeholder number =
     (if p = [] then ([], 0)
      else if deref p = CHR ''%'' \<and> deref (tl p) = CHR ''%''
      then let (r, n) = replace_int_data_in_filename (drop 2 p) placeholder number in (take 2 p @ r, n)
      else if deref p = CHR ''%'' \<and> (av_isdigit (deref (tl p)) \<or> deref (tl p) = placeholder)
      then
        let ds = takeWhile av_isdigit (tl p);
            nd = decimal 0 ds;
            addchar_count = 1 + length ds
        in if deref (drop addchar_count p) = placeholder
           then let (r, n) = replace_int_data_in_filename (drop (addchar_count + 1) p) placeholder number
                in (show_int_pad nd number @ r, n + 1)
           else let (r, n) = replace_int_data_in_filename (drop addchar_count p) placeholder number
                in (take addchar_count p @ r, n)
      else let (r, n) = replace_int_data_in_filename (tl p) placeholder number in (deref p # r, n))"
  by pat_completeness auto
termination
  by (relation "measure (\<lambda>(p, _, _). length p)") auto

declare replace_int_data_in_filename.simps [simp del]

function replace_str_data_in_filename :: "string \<Rightarrow> char \<Rightarrow> string \<Rightarrow> string \<times> nat" where
  "replace_str_data_in_filename p placeholder datastring =
     (if p = [] then ([], 0)
      else if deref p = CHR ''%'' \<and> deref (tl p) = CHR ''%''
      then let (r, n) = replace_str_data_in_filename (drop 2 p) placeholder datastring in (take 2 p @ r, n)
      else if deref p = CHR ''%'' \<and> deref (tl p) = placeholder
      then let (r, n) = replace_str_data_in_filename (drop 2 p) placeholder datastring in (datastring @ r, n + 1)
      else let (r, n) = replace_str_data_in_filename (tl p) placeholder datastring in (deref p # r, n))"
  by pat_completeness auto
termination
  by (relation "measure (\<lambda>(p, _, _). length p)") auto

declare replace_str_data_in_filename.simps [simp del]

subsection \<open>Deleting old segments\<close>

datatype io_event = Unlink string | Delete string

text \<open>The part of \<open>old_segments\<close> that is kept, and the rest.\<close>

fun old_segments_cut :: "('f, 'd) float_ops \<Rightarrow> int \<Rightarrow> 'f \<Rightarrow> int \<Rightarrow> 'd HLSSegment list \<Rightarrow>
    'd HLSSegment list \<times> 'd HLSSegment list" where
  "old_segments_cut fl threshold playlist_duration segment_cnt [] = ([], [])"
| "old_segments_cut fl threshold playlist_duration segment_cnt (previous # rest) =
     (let playlist_duration = fl_sub fl playlist_duration (duration previous);
          segment_cnt = segment_cnt + 1
      in if fl_le_neg fl playlist_duration (duration previous) then ([previous], rest)
         else if segment_cnt \<ge> threshold then ([previous], rest)
         else let (keep, del) = old_segments_cut fl threshold playlist_duration segment_cnt rest
              in (previous # keep, del))"

definition dir_part :: "string \<Rightarrow> string" where
  "dir_part d = take (length d - length (av_basename d)) d"

text \<open>One file: \<open>(ret, stop, events)\<close>.\<close>

definition delete_file :: "(string \<Rightarrow> int) \<Rightarrow> bool \<Rightarrow> HLSContext \<Rightarrow> string \<Rightarrow> int \<Rightarrow> int \<times> bool \<times> io_event list" where
  "delete_file io_open is_http hls path ret =
     (if http_method hls \<noteq> None \<or> is_http
      then
        let ret = io_open path
        in if ret < 0 then (if ignore_io_errors hls then 0 else ret, True, [Delete path])
           else (ret, False, [Delete path])
      else (ret, False, [Unlink path]))"

fun delete_segments :: "(string \<Rightarrow> int) \<Rightarrow> bool \<Rightarrow> HLSContext \<Rightarrow> string \<Rightarrow> string \<Rightarrow> int \<Rightarrow>
    'd HLSSegment list \<Rightarrow> int \<times> io_event list" where
  "delete_segments io_open is_http hls dirname vtturl ret [] = (ret, [])"
| "delete_segments io_open is_http hls dirname vtturl ret (segment # rest) =
     (let path = (if use_localtime_mkdir hls then filename segment else dirname @ filename segment);
          (ret, stop, ev) = delete_file io_open is_http hls path ret
      in if stop then (ret, ev)
         else
           let (ret, stop, ev2) =
                 (if sub_filename segment \<noteq> []
                  then delete_file io_open is_http hls (dir_part vtturl @ sub_filename segment) ret
                  else (ret, False, []))
           in if stop then (ret, ev @ ev2)
              else let (ret, ev3) = delete_segments io_open is_http hls dirname vtturl ret rest
                   in (ret, ev @ ev2 @ ev3))"

text \<open>The directory of the segment files, with the number of substitutions made in it.\<close>

definition old_segment_dir :: "HLSContext \<Rightarrow> 'd VariantStream \<Rightarrow> int \<Rightarrow> string \<times> nat" where
  "old_segment_dir hls vs idx =
     (let dirname = dir_part (case segment_filename hls of Some f \<Rightarrow> f | None \<Rightarrow> avf_url vs)
      in if av_stristr dirname ''%v'' \<noteq> None
         then case varname vs of
                None \<Rightarrow> replace_int_data_in_filename dirname CHR ''v'' idx
              | Some v \<Rightarrow> replace_str_data_in_filename dirname CHR ''v'' v
         else (dirname, 1))"

definition hls_delete_old_segments :: "('f, 'd) float_ops \<Rightarrow> (string \<Rightarrow> int) \<Rightarrow> bool \<Rightarrow> HLSContext \<Rightarrow>
    'd VariantStream \<Rightarrow> int \<times> io_event list \<times> 'd VariantStream" where
  "hls_delete_old_segments fl io_open is_http hls vs =
     (let playlist_duration = fold (\<lambda>seg acc. fl_add fl acc (duration seg)) (segments vs) (fl_zero fl);
          (keep, del) = old_segments_cut fl (hls_delete_threshold hls) playlist_duration 0 (old_segments vs);
          vs = vs\<lparr>old_segments := keep\<rparr>
      in if del = [] then (0, [], vs)
         else if use_localtime_mkdir hls
         then let (ret, ev) = delete_segments io_open is_http hls [] (vtt_url vs) 0 del in (ret, ev, vs)
         else
           let (dirname, found) = old_segment_dir hls vs (seg_var_stream_idx (hd del))
           in if found < 1 then (- 22, [], vs)
              else let (ret, ev) = delete_segments io_open is_http hls dirname (vtt_url vs) 0 del in (ret, ev, vs))"

subsection \<open>Appending a segment\<close>

fun find_segment_by_filename :: "'d HLSSegment list \<Rightarrow> string \<Rightarrow> 'd HLSSegment option" where
  "find_segment_by_filename [] f = None"
| "find_segment_by_filename (segment # rest) f =
     (if av_strcasecmp (filename segment) f = 0 then Some segment else find_segment_by_filename rest f)"

definition sls_flags_filename_process :: "('f, 'd) float_ops \<Rightarrow> HLSContext \<Rightarrow> 'd VariantStream \<Rightarrow> 'd \<Rightarrow> int \<Rightarrow>
    int \<Rightarrow> int \<times> 'd VariantStream" where
  "sls_flags_filename_process fl hls vs dur p sz =
     (let by_size = HLS_SECOND_LEVEL_SEGMENT_SIZE \<in> flags hls;
          by_duration = HLS_SECOND_LEVEL_SEGMENT_DURATION \<in> flags hls
      in if (by_size \<or> by_duration) \<and> length (current_segment_final_filename_fmt vs) > 0
         then
           let vs = vs\<lparr>avf_url := current_segment_final_filename_fmt vs\<rparr>;
               (name, n) = (if by_size then replace_int_data_in_filename (avf_url vs) CHR ''s'' (p + sz) else (avf_url vs, 1))
           in if n < 1 then (- 22, vs)
              else
                let vs = vs\<lparr>avf_url := name\<rparr>;
                    (name, n) = (if by_duration
                                 then replace_int_data_in_filename (avf_url vs) CHR ''t'' (db_micro fl dur)
                                 else (avf_url vs, 1))
                in if n < 1 then (- 22, vs) else (0, vs\<lparr>avf_url := name\<rparr>)
         else (0, vs))"

definition byterange_mode :: "HLSContext \<Rightarrow> bool" where
  "byterange_mode hls \<longleftrightarrow> HLS_SINGLE_FILE \<in> flags hls \<or> max_seg_size hls > 0"

text \<open>The new list element.\<close>

definition new_segment :: "HLSContext \<Rightarrow> 'd VariantStream \<Rightarrow> 'd \<Rightarrow> int \<Rightarrow> int \<Rightarrow> 'd HLSSegment" where
  "new_segment hls vs dur p sz =
     (let fname = (if use_localtime_mkdir hls then avf_url vs else av_basename (avf_url vs))
      in \<lparr>filename = fst (av_strlcpy [] fname MAX_URL_SIZE),
          sub_filename = (if has_subtitle vs then fst (av_strlcpy [] (av_basename (vtt_url vs)) MAX_URL_SIZE) else []),
          duration = dur, discont = discontinuity vs, pos = p, seg_size = sz,
          keyframe_pos = video_keyframe_pos vs, keyframe_size = video_keyframe_size vs,
          seg_var_stream_idx = var_stream_idx vs,
          seg_key_uri = (if key_info_file hls \<or> encrypt hls then fst (av_strlcpy [] (key_uri hls) (LINE_BUFFER_SIZE + 1)) else []),
          seg_iv_string = (if key_info_file hls \<or> encrypt hls then fst (av_strlcpy [] (iv_string hls) (KEYSIZE * 2 + 1)) else [])\<rparr>)"

text \<open>The first segment leaves a full window.\<close>

definition slide_window :: "('f, 'd) float_ops \<Rightarrow> (string \<Rightarrow> int) \<Rightarrow> bool \<Rightarrow> HLSContext \<Rightarrow> 'd VariantStream \<Rightarrow>
    int \<times> 'd VariantStream \<times> io_event list" where
  "slide_window fl io_open is_http hls vs =
     (if max_nb_segments hls \<noteq> 0 \<and> nb_entries vs \<ge> max_nb_segments hls
      then
        let en = hd (segments vs);
            vs = vs\<lparr>initial_prog_date_time := db_add fl (initial_prog_date_time vs) (duration en)\<rparr>;
            vs = vs\<lparr>segments := tl (segments vs)\<rparr>
        in if HLS_DELETE_SEGMENTS \<in> flags hls \<and> \<not> (HLS_SINGLE_FILE \<in> flags hls \<or> wrap hls \<noteq> 0)
           then
             let vs = vs\<lparr>old_segments := en # old_segments vs\<rparr>;
                 (ret, ev, vs) = hls_delete_old_segments fl io_open is_http hls vs
             in (ret, vs, ev)
           else (0, vs, [])
      else (0, vs\<lparr>nb_entries := nb_entries vs + 1\<rparr>, []))"

text \<open>Result: the return value, the two contexts and the file operations.\<close>

definition hls_append_segment :: "('f, 'd) float_ops \<Rightarrow> (string \<Rightarrow> int) \<Rightarrow> bool \<Rightarrow> HLSContext \<Rightarrow> 'd VariantStream \<Rightarrow>
    'd \<Rightarrow> int \<Rightarrow> int \<Rightarrow> int \<times> HLSContext \<times> 'd VariantStream \<times> io_event list" where
  "hls_append_segment fl io_open is_http hls vs dur p sz =
     (let (ret, vs) = sls_flags_filename_process fl hls vs dur p sz
      in if ret < 0 then (ret, hls, vs, [])
         else
           let en = new_segment hls vs dur p sz;
               vs = vs\<lparr>discontinuity := False\<rparr>;
               vs = vs\<lparr>segments := segments vs @ [en]\<rparr>;
               hls = (if pl_type hls \<noteq> PLAYLIST_TYPE_NONE then hls\<lparr>max_nb_segments := 0\<rparr> else hls);
               (ret, vs, ev) = slide_window fl io_open is_http hls vs
           in if ret < 0 then (ret, hls, vs, ev)
              else if max_seg_size hls > 0 then (0, hls, vs, ev)
              else (0, hls, vs\<lparr>sequence := sequence vs + 1\<rparr>, ev))"

subsection \<open>Lemmas: eviction and deletion\<close>

lemma old_segments_cut_append:
  "old_segments_cut fl th pd c xs = (keep, del) \<Longrightarrow> keep @ del = xs"
  by (induction fl th pd c xs arbitrary: keep del rule: old_segments_cut.induct)
     (auto simp: Let_def split: if_splits prod.splits)

lemma old_segments_cut_length:
  "old_segments_cut fl th pd c xs = (keep, del) \<Longrightarrow> int (length keep) \<le> max 1 (th - c)"
  by (induction fl th pd c xs arbitrary: keep del rule: old_segments_cut.induct)
     (fastforce simp: Let_def split: if_splits prod.splits)+

text \<open>The path an event is about, and the paths of a segment's files.\<close>

fun event_path :: "io_event \<Rightarrow> string" where
  "event_path (Unlink p) = p"
| "event_path (Delete p) = p"

definition segment_paths :: "HLSContext \<Rightarrow> string \<Rightarrow> string \<Rightarrow> 'd HLSSegment \<Rightarrow> string list" where
  "segment_paths hls dirname vttdir en =
     (if use_localtime_mkdir hls then filename en else dirname @ filename en) #
     (if sub_filename en \<noteq> [] then [vttdir @ sub_filename en] else [])"

lemma delete_file_path: "set (snd (snd (delete_file io_open is_http hls path r))) \<subseteq> {Unlink path, Delete path}"
  by (auto simp: delete_file_def Let_def)

lemma delete_file_local:
  "http_method hls = None \<Longrightarrow> delete_file io_open False hls path r = (r, False, [Unlink path])"
  by (simp add: delete_file_def)

lemma delete_segments_paths:
  "delete_segments io_open is_http hls dirname vtturl r del = (r', ev) \<Longrightarrow>
    event_path ` set ev \<subseteq> (\<Union>en \<in> set del. set (segment_paths hls dirname (dir_part vtturl) en))"
proof (induction io_open is_http hls dirname vtturl r del arbitrary: r' ev rule: delete_segments.induct)
  case (1 io_open is_http hls dirname vtturl ret)
  then show ?case by simp
next
  case (2 io_open is_http hls dirname vtturl ret en rest)
  define path where "path = (if use_localtime_mkdir hls then filename en else dirname @ filename en)"
  obtain r1 stop ev1 where d1: "delete_file io_open is_http hls path ret = (r1, stop, ev1)" by (metis prod_cases3)
  obtain r2 stop2 ev2 where d2: "(if sub_filename en \<noteq> [] then delete_file io_open is_http hls (dir_part vtturl @ sub_filename en) r1
      else (r1, False, [])) = (r2, stop2, ev2)" by (metis prod_cases3)
  have e1: "event_path ` set ev1 \<subseteq> set (segment_paths hls dirname (dir_part vtturl) en)"
    using delete_file_path [of io_open is_http hls path ret] d1 by (auto simp: path_def segment_paths_def)
  have e2: "event_path ` set ev2 \<subseteq> set (segment_paths hls dirname (dir_part vtturl) en)"
    using delete_file_path [of io_open is_http hls "dir_part vtturl @ sub_filename en" r1] d2
    by (auto simp: segment_paths_def split: if_splits)
  obtain r3 ev3 where d3: "delete_segments io_open is_http hls dirname vtturl r2 rest = (r3, ev3)" by force
  have eq: "(r', ev) = (if stop then (r1, ev1) else if stop2 then (r2, ev1 @ ev2) else (r3, ev1 @ ev2 @ ev3))"
    using 2(2) by (simp only: delete_segments.simps Let_def path_def [symmetric] d1 d2 d3 prod.case)
  have "event_path ` set ev3 \<subseteq> (\<Union>en \<in> set rest. set (segment_paths hls dirname (dir_part vtturl) en))"
    if "\<not> stop" "\<not> stop2"
    using 2(1) [OF refl d1 [symmetric, unfolded path_def] refl refl that(1) d2 [symmetric] refl refl that(2) d3] .
  then show ?case using eq e1 e2 by (cases stop; cases stop2) auto
qed

lemma delete_segments_local:
  "http_method hls = None \<Longrightarrow>
   delete_segments io_open False hls dirname vtturl r del =
     (r, map Unlink (concat (map (segment_paths hls dirname (dir_part vtturl)) del)))"
  by (induction del) (simp_all add: delete_file_local segment_paths_def)

text \<open>Deleting on a local file system: exactly the files of the segments cut off are unlinked.\<close>

definition dir_ok :: "string \<Rightarrow> string \<Rightarrow> HLSContext \<Rightarrow> 'd VariantStream \<Rightarrow> bool" where
  "dir_ok d v hls vs \<longleftrightarrow> dir_part (vtt_url vs) = v \<and>
     (use_localtime_mkdir hls \<or>
      fst (old_segment_dir hls vs (var_stream_idx vs)) = d \<and> 1 \<le> snd (old_segment_dir hls vs (var_stream_idx vs)))"

lemma old_segment_dir_cong [simp]:
  "old_segment_dir hls (vs\<lparr>old_segments := x\<rparr>) idx = old_segment_dir hls vs idx"
  "old_segment_dir hls (vs\<lparr>segments := y\<rparr>) idx = old_segment_dir hls vs idx"
  "old_segment_dir hls (vs\<lparr>discontinuity := z\<rparr>) idx = old_segment_dir hls vs idx"
  "old_segment_dir hls (vs\<lparr>initial_prog_date_time := t\<rparr>) idx = old_segment_dir hls vs idx"
  "old_segment_dir (hls\<lparr>max_nb_segments := n\<rparr>) vs idx = old_segment_dir hls vs idx"
  by (simp_all add: old_segment_dir_def Let_def cong: option.case_cong)

lemma delete_old_local:
  assumes "http_method hls = None" "dir_ok d v hls vs"
    "\<And>en. en \<in> set (old_segments vs) \<Longrightarrow> seg_var_stream_idx en = var_stream_idx vs"
  obtains keep del where "old_segments vs = keep @ del" "int (length keep) \<le> max 1 (hls_delete_threshold hls)"
    "hls_delete_old_segments fl io_open False hls vs =
       (0, map Unlink (concat (map (segment_paths hls d v) del)), vs\<lparr>old_segments := keep\<rparr>)"
proof -
  from assms(2) have v: "dir_part (vtt_url vs) = v" and dir: "use_localtime_mkdir hls \<or>
      fst (old_segment_dir hls vs (var_stream_idx vs)) = d \<and> 1 \<le> snd (old_segment_dir hls vs (var_stream_idx vs))"
    by (auto simp: dir_ok_def)
  define pd where "pd = fold (\<lambda>seg acc. fl_add fl acc (duration seg)) (segments vs) (fl_zero fl)"
  obtain keep del where cut: "old_segments_cut fl (hls_delete_threshold hls) pd 0 (old_segments vs) = (keep, del)"
    by force
  have split: "old_segments vs = keep @ del" using old_segments_cut_append [OF cut] by simp
  have idx: "seg_var_stream_idx (hd del) = var_stream_idx vs" if "del \<noteq> []"
    using assms(3) [of "hd del"] that split by simp
  have mk: "use_localtime_mkdir hls \<Longrightarrow> map (segment_paths hls [] v) del = map (segment_paths hls d v) del"
    by (simp add: segment_paths_def)
  have mk2: "use_localtime_mkdir hls \<Longrightarrow> map Unlink (concat (map (segment_paths hls [] v) del)) =
      map Unlink (concat (map (segment_paths hls d v) del))"
    by (simp only: mk)
  have "hls_delete_old_segments fl io_open False hls vs =
       (0, map Unlink (concat (map (segment_paths hls d v) del)), vs\<lparr>old_segments := keep\<rparr>)"
    using dir idx
    by (cases "use_localtime_mkdir hls")
       (auto simp: hls_delete_old_segments_def Let_def pd_def [symmetric] cut delete_segments_local [OF assms(1)]
        v split_beta intro: mk2)
  moreover have "int (length keep) \<le> max 1 (hls_delete_threshold hls)" using old_segments_cut_length [OF cut] by simp
  ultimately show ?thesis using that split by blast
qed

subsection \<open>The window of listed segments\<close>

definition seg_limit :: "HLSContext \<Rightarrow> int" where
  "seg_limit hls = (if pl_type hls \<noteq> PLAYLIST_TYPE_NONE then 0 else max_nb_segments hls)"

definition deleting :: "HLSContext \<Rightarrow> bool" where
  "deleting hls \<longleftrightarrow> HLS_DELETE_SEGMENTS \<in> flags hls \<and> \<not> (HLS_SINGLE_FILE \<in> flags hls \<or> wrap hls \<noteq> 0)"

definition sls_off :: "HLSContext \<Rightarrow> bool" where
  "sls_off hls \<longleftrightarrow> HLS_SECOND_LEVEL_SEGMENT_SIZE \<notin> flags hls \<and> HLS_SECOND_LEVEL_SEGMENT_DURATION \<notin> flags hls"

text \<open>The ghost lists: \<open>log\<close> are all segments finished so far, \<open>gone\<close> those whose files were given up.\<close>

definition window_inv :: "HLSContext \<Rightarrow> int \<Rightarrow> 'd VariantStream \<Rightarrow> 'd HLSSegment list \<Rightarrow> 'd HLSSegment list \<Rightarrow> bool" where
  "window_inv hls start vs log gone \<longleftrightarrow>
     log = gone @ rev (old_segments vs) @ segments vs \<and>
     nb_entries vs = int (length (segments vs)) \<and>
     (\<forall>en \<in> set log. seg_var_stream_idx en = var_stream_idx vs) \<and>
     sequence vs = start + (if max_seg_size hls > 0 then 0 else int (length log)) \<and>
     int (length (segments vs)) = (if seg_limit hls = 0 then int (length log) else min (seg_limit hls) (int (length log))) \<and>
     int (length (old_segments vs)) \<le> max 1 (hls_delete_threshold hls) \<and>
     (\<not> deleting hls \<longrightarrow> old_segments vs = [])"

text \<open>One turn of the window on a local file system.\<close>

lemma slide_no_evict:
  "\<not> (max_nb_segments hls \<noteq> 0 \<and> nb_entries vs \<ge> max_nb_segments hls) \<Longrightarrow>
   slide_window fl io_open is_http hls vs = (0, vs\<lparr>nb_entries := nb_entries vs + 1\<rparr>, [])"
  unfolding slide_window_def by (simp only: if_False)

lemma slide_evict_keep:
  "max_nb_segments hls \<noteq> 0 \<and> nb_entries vs \<ge> max_nb_segments hls \<Longrightarrow> \<not> deleting hls \<Longrightarrow>
   slide_window fl io_open is_http hls vs =
     (0, vs\<lparr>initial_prog_date_time := db_add fl (initial_prog_date_time vs) (duration (hd (segments vs))),
            segments := tl (segments vs)\<rparr>, [])"
  unfolding slide_window_def deleting_def by (auto simp: Let_def)

lemma slide_evict_delete:
  assumes "max_nb_segments hls \<noteq> 0 \<and> nb_entries vs \<ge> max_nb_segments hls" "deleting hls"
    "http_method hls = None" "dir_ok d v hls vs" "segments vs = x # xs"
    "\<forall>en \<in> set (x # old_segments vs). seg_var_stream_idx en = var_stream_idx vs"
  obtains keep del where "x # old_segments vs = keep @ del" "int (length keep) \<le> max 1 (hls_delete_threshold hls)"
    "slide_window fl io_open False hls vs =
       (0, vs\<lparr>initial_prog_date_time := db_add fl (initial_prog_date_time vs) (duration x),
              segments := xs, old_segments := keep\<rparr>, map Unlink (concat (map (segment_paths hls d v) del)))"
proof -
  define vs1 where "vs1 = vs\<lparr>initial_prog_date_time := db_add fl (initial_prog_date_time vs) (duration x),
      segments := xs, old_segments := x # old_segments vs\<rparr>"
  have "dir_ok d v hls vs1" using assms(4) by (simp add: dir_ok_def vs1_def)
  moreover have "seg_var_stream_idx en = var_stream_idx vs1" if "en \<in> set (old_segments vs1)" for en
    using that assms(6) by (auto simp: vs1_def)
  ultimately obtain keep del where "old_segments vs1 = keep @ del" "int (length keep) \<le> max 1 (hls_delete_threshold hls)"
    and d: "hls_delete_old_segments fl io_open False hls vs1 =
       (0, map Unlink (concat (map (segment_paths hls d v) del)), vs1\<lparr>old_segments := keep\<rparr>)"
    by (rule delete_old_local [OF assms(3), of d v vs1 fl io_open])
  moreover have "slide_window fl io_open False hls vs =
       (0, vs1\<lparr>old_segments := keep\<rparr>, map Unlink (concat (map (segment_paths hls d v) del)))"
    unfolding slide_window_def using assms(1,2,5) d
    by (simp add: Let_def deleting_def vs1_def)
  ultimately show ?thesis using that [of keep del] by (simp add: vs1_def)
qed

text \<open>One append on a local file system, and the files it unlinks.\<close>

lemma append_unfold:
  assumes "sls_off hls"
  shows "hls_append_segment fl io_open is_http hls vs dur p sz =
    (let hls1 = (if pl_type hls \<noteq> PLAYLIST_TYPE_NONE then hls\<lparr>max_nb_segments := 0\<rparr> else hls);
         (ret, vs1, ev) = slide_window fl io_open is_http hls1
            (vs\<lparr>discontinuity := False, segments := segments vs @ [new_segment hls vs dur p sz]\<rparr>)
     in if ret < 0 then (ret, hls1, vs1, ev)
        else (0, hls1, if max_seg_size hls > 0 then vs1 else vs1\<lparr>sequence := sequence vs1 + 1\<rparr>, ev))"
proof -
  have nosls: "sls_flags_filename_process fl hls vs dur p sz = (0, vs)"
    using assms by (simp add: sls_flags_filename_process_def sls_off_def)
  define hls1 where "hls1 = (if pl_type hls \<noteq> PLAYLIST_TYPE_NONE then hls\<lparr>max_nb_segments := 0\<rparr> else hls)"
  have m: "max_seg_size hls1 = max_seg_size hls" by (simp add: hls1_def)
  obtain r vs2 ev where s: "slide_window fl io_open is_http hls1
      (vs\<lparr>discontinuity := False, segments := segments vs @ [new_segment hls vs dur p sz]\<rparr>) = (r, vs2, ev)"
    by (metis prod_cases3)
  show ?thesis
    unfolding hls_append_segment_def nosls prod.case Let_def hls1_def [symmetric]
    by (simp add: s m)
qed

text \<open>The invariant over one turn, on the lists and numbers alone.\<close>

lemma window_invD:
  assumes "window_inv hls start vs log gone"
  shows "log = gone @ rev (old_segments vs) @ segments vs" "nb_entries vs = int (length (segments vs))"
    "\<forall>en \<in> set log. seg_var_stream_idx en = var_stream_idx vs"
    "sequence vs = start + (if max_seg_size hls > 0 then 0 else int (length log))"
    "int (length (segments vs)) = (if seg_limit hls = 0 then int (length log) else min (seg_limit hls) (int (length log)))"
    "int (length (old_segments vs)) \<le> max 1 (hls_delete_threshold hls)" "\<not> deleting hls \<longrightarrow> old_segments vs = []"
  using assms unfolding window_inv_def atomize_conj conj_assoc by assumption

lemma window_inv_push:
  assumes inv: "window_inv hls start vs log gone" and idx: "seg_var_stream_idx en = var_stream_idx vs"
    and lim: "seg_limit hls = 0 \<or> nb_entries vs < seg_limit hls"
    and vs': "segments vs' = segments vs @ [en]" "nb_entries vs' = nb_entries vs + 1" "old_segments vs' = old_segments vs"
    "var_stream_idx vs' = var_stream_idx vs" "sequence vs' = sequence vs + (if max_seg_size hls > 0 then 0 else 1)"
  shows "window_inv hls start vs' (log @ [en]) gone"
proof -
  note I = window_invD [OF inv]
  have "int (length (segments vs')) =
      (if seg_limit hls = 0 then int (length (log @ [en])) else min (seg_limit hls) (int (length (log @ [en]))))"
    using lim I(2,5) unfolding vs' by (cases "seg_limit hls = 0") (simp_all add: min_def split: if_splits)
  moreover have "sequence vs' = start + (if max_seg_size hls > 0 then 0 else int (length (log @ [en])))"
    unfolding vs' I(4) by simp
  moreover have "log @ [en] = gone @ rev (old_segments vs') @ segments vs'"
    unfolding vs' by (subst I(1)) simp
  moreover have "\<forall>x \<in> set (log @ [en]). seg_var_stream_idx x = var_stream_idx vs'" using I(3) idx vs' by simp
  ultimately show ?thesis
    unfolding window_inv_def using I(2,6,7) vs' by (intro conjI) simp_all
qed

lemma window_inv_slide:
  assumes inv: "window_inv hls start vs log gone" and idx: "seg_var_stream_idx en = var_stream_idx vs"
    and lim: "seg_limit hls \<noteq> 0" "nb_entries vs \<ge> seg_limit hls" "0 \<le> seg_limit hls"
    and xs: "segments vs @ [en] = x # segments vs'" and nb: "nb_entries vs' = nb_entries vs"
    and old: "if deleting hls then x # old_segments vs = old_segments vs' @ del else old_segments vs' = [] \<and> del = [x]"
    and th: "int (length (old_segments vs')) \<le> max 1 (hls_delete_threshold hls)"
    and vs': "var_stream_idx vs' = var_stream_idx vs" "sequence vs' = sequence vs + (if max_seg_size hls > 0 then 0 else 1)"
  shows "window_inv hls start vs' (log @ [en]) (gone @ rev del)"
proof -
  note I = window_invD [OF inv]
  have o: "rev (old_segments vs) @ [x] = rev del @ rev (old_segments vs')"
  proof (cases "deleting hls")
    case True
    then have "rev (x # old_segments vs) = rev (old_segments vs' @ del)" using old by simp
    then show ?thesis by simp
  next
    case False
    then show ?thesis using old I(7) by simp
  qed
  have "log @ [en] = gone @ rev (old_segments vs) @ (segments vs @ [en])" by (subst I(1)) simp
  also have "\<dots> = gone @ (rev (old_segments vs) @ [x]) @ segments vs'" by (simp add: xs)
  finally have "log @ [en] = (gone @ rev del) @ rev (old_segments vs') @ segments vs'" by (simp add: o)
  moreover have len: "length (segments vs') = length (segments vs)" using arg_cong [OF xs, of length] by simp
  moreover have "\<forall>x \<in> set (log @ [en]). seg_var_stream_idx x = var_stream_idx vs'" using I(3) idx vs' by simp
  moreover have "sequence vs' = start + (if max_seg_size hls > 0 then 0 else int (length (log @ [en])))"
    unfolding vs' I(4) by simp
  moreover have "int (length (segments vs')) =
      (if seg_limit hls = 0 then int (length (log @ [en])) else min (seg_limit hls) (int (length (log @ [en]))))"
    using lim I(2,5) unfolding len by (simp add: min_def split: if_splits)
  moreover have "\<not> deleting hls \<longrightarrow> old_segments vs' = []" using old by simp
  ultimately show ?thesis
    unfolding window_inv_def using I(2) nb th by (intro conjI) simp_all
qed

lemma append_room:
  assumes "sls_off hls" "seg_limit hls = 0 \<or> nb_entries vs < seg_limit hls"
  obtains vs' where
    "hls_append_segment fl io_open is_http hls vs dur p sz =
       (0, if pl_type hls \<noteq> PLAYLIST_TYPE_NONE then hls\<lparr>max_nb_segments := 0\<rparr> else hls, vs', [])"
    "segments vs' = segments vs @ [new_segment hls vs dur p sz]" "nb_entries vs' = nb_entries vs + 1"
    "old_segments vs' = old_segments vs" "\<not> discontinuity vs'"
    "sequence vs' = sequence vs + (if max_seg_size hls > 0 then 0 else 1)"
proof -
  define hls1 where "hls1 = (if pl_type hls \<noteq> PLAYLIST_TYPE_NONE then hls\<lparr>max_nb_segments := 0\<rparr> else hls)"
  define vs1 where "vs1 = vs\<lparr>discontinuity := False, segments := segments vs @ [new_segment hls vs dur p sz]\<rparr>"
  define vs2 where "vs2 = vs1\<lparr>nb_entries := nb_entries vs1 + 1\<rparr>"
  have "\<not> (max_nb_segments hls1 \<noteq> 0 \<and> nb_entries vs1 \<ge> max_nb_segments hls1)"
    using assms(2) by (auto simp: hls1_def vs1_def seg_limit_def)
  then have "slide_window fl io_open is_http hls1 vs1 = (0, vs2, [])" unfolding vs2_def by (rule slide_no_evict)
  then have "hls_append_segment fl io_open is_http hls vs dur p sz =
      (0, hls1, if max_seg_size hls > 0 then vs2 else vs2\<lparr>sequence := sequence vs2 + 1\<rparr>, [])"
    unfolding append_unfold [OF assms(1)] Let_def vs1_def [symmetric] hls1_def [symmetric] by simp
  then show ?thesis
    unfolding hls1_def by (rule that) (simp_all add: vs2_def vs1_def)
qed

lemma append_step:
  assumes inv: "window_inv hls start vs log gone" and env: "http_method hls = None" "sls_off hls" "dir_ok d v hls vs"
    and lim: "0 \<le> max_nb_segments hls"
  obtains del vs' where
    "hls_append_segment fl io_open False hls vs dur p sz =
       (0, if pl_type hls \<noteq> PLAYLIST_TYPE_NONE then hls\<lparr>max_nb_segments := 0\<rparr> else hls, vs',
        if deleting hls then map Unlink (concat (map (segment_paths hls d v) del)) else [])"
    "window_inv hls start vs' (log @ [new_segment hls vs dur p sz]) (gone @ rev del)"
proof -
  note result = that
  note I = window_invD [OF inv]
  define en where "en = new_segment hls vs dur p sz"
  have idx: "seg_var_stream_idx en = var_stream_idx vs" by (simp add: en_def new_segment_def Let_def)
  define hls1 where "hls1 = (if pl_type hls \<noteq> PLAYLIST_TYPE_NONE then hls\<lparr>max_nb_segments := 0\<rparr> else hls)"
  define vs1 where "vs1 = vs\<lparr>discontinuity := False, segments := segments vs @ [en]\<rparr>"
  have m: "max_nb_segments hls1 = seg_limit hls" by (simp add: hls1_def seg_limit_def)
  have s: "segments vs1 = segments vs @ [en]" "nb_entries vs1 = nb_entries vs" "old_segments vs1 = old_segments vs"
    "var_stream_idx vs1 = var_stream_idx vs" "sequence vs1 = sequence vs"
    by (simp_all add: vs1_def)
  have app: "hls_append_segment fl io_open False hls vs dur p sz =
      (let (ret, vs2, ev) = slide_window fl io_open False hls1 vs1
       in if ret < 0 then (ret, hls1, vs2, ev)
          else (0, hls1, if max_seg_size hls > 0 then vs2 else vs2\<lparr>sequence := sequence vs2 + 1\<rparr>, ev))"
    unfolding append_unfold [OF env(2)] en_def [symmetric] vs1_def hls1_def by (simp only: Let_def)
  have fin: thesis if sl: "slide_window fl io_open False hls1 vs1 =
        (0, vs2, if deleting hls then map Unlink (concat (map (segment_paths hls d v) del)) else [])"
      and w: "\<And>vs'. segments vs' = segments vs2 \<Longrightarrow> nb_entries vs' = nb_entries vs2 \<Longrightarrow> old_segments vs' = old_segments vs2 \<Longrightarrow>
        var_stream_idx vs' = var_stream_idx vs2 \<Longrightarrow> sequence vs' = sequence vs2 + (if max_seg_size hls > 0 then 0 else 1) \<Longrightarrow>
        window_inv hls start vs' (log @ [en]) (gone @ rev del)" for vs2 del
  proof (rule result [of "if max_seg_size hls > 0 then vs2 else vs2\<lparr>sequence := sequence vs2 + 1\<rparr>" del])
    show "hls_append_segment fl io_open False hls vs dur p sz =
       (0, if pl_type hls \<noteq> PLAYLIST_TYPE_NONE then hls\<lparr>max_nb_segments := 0\<rparr> else hls,
        if max_seg_size hls > 0 then vs2 else vs2\<lparr>sequence := sequence vs2 + 1\<rparr>,
        if deleting hls then map Unlink (concat (map (segment_paths hls d v) del)) else [])"
      unfolding app sl hls1_def [symmetric] by simp
    show "window_inv hls start (if max_seg_size hls > 0 then vs2 else vs2\<lparr>sequence := sequence vs2 + 1\<rparr>)
        (log @ [new_segment hls vs dur p sz]) (gone @ rev del)"
      unfolding en_def [symmetric] by (rule w) simp_all
  qed
  have sl: "0 \<le> seg_limit hls" using lim by (simp add: seg_limit_def)
  show ?thesis
  proof (cases "seg_limit hls \<noteq> 0 \<and> nb_entries vs \<ge> seg_limit hls")
    case False
    have "slide_window fl io_open False hls1 vs1 = (0, vs1\<lparr>nb_entries := nb_entries vs1 + 1\<rparr>, [])"
      using False m by (intro slide_no_evict) (simp add: s)
    then show ?thesis
      using False by (intro fin [of "vs1\<lparr>nb_entries := nb_entries vs1 + 1\<rparr>" "[]"])
        (auto simp: s intro!: window_inv_push [OF inv idx])
  next
    case True
    obtain x xs where x: "segments vs @ [en] = x # xs" by (cases "segments vs @ [en]") auto
    have ev: "max_nb_segments hls1 \<noteq> 0 \<and> nb_entries vs1 \<ge> max_nb_segments hls1" using True m s by simp
    show ?thesis
    proof (cases "deleting hls")
      case False
      have d1: "\<not> deleting hls1" using False by (simp add: deleting_def hls1_def)
      show ?thesis
        using slide_evict_keep [OF ev d1, where fl = fl and io_open = io_open and is_http = False] False True sl I(7)
        by (intro fin [of _ "[x]"])
          (auto simp: s x intro!: window_inv_slide [OF inv idx, where x = x and del = "[x]", unfolded rev.simps append.simps])
    next
      case True': True
      have h1: "deleting hls1" "http_method hls1 = None" "hls_delete_threshold hls1 = hls_delete_threshold hls"
        using True' env(1) by (simp_all add: deleting_def hls1_def)
      have d1: "dir_ok d v hls1 vs1" using env(3) by (auto simp: dir_ok_def hls1_def vs1_def)
      have p1: "segment_paths hls1 d v = segment_paths hls d v" by (auto simp: segment_paths_def hls1_def fun_eq_iff)
      have "x \<in> set (segments vs @ [en])" by (simp add: x)
      then have i1: "\<forall>en \<in> set (x # old_segments vs1). seg_var_stream_idx en = var_stream_idx vs1"
        using I(3) idx by (auto simp: s I(1))
      obtain keep del where "x # old_segments vs1 = keep @ del" "int (length keep) \<le> max 1 (hls_delete_threshold hls1)"
        "slide_window fl io_open False hls1 vs1 =
          (0, vs1\<lparr>initial_prog_date_time := db_add fl (initial_prog_date_time vs1) (duration x),
              segments := xs, old_segments := keep\<rparr>, map Unlink (concat (map (segment_paths hls1 d v) del)))"
        by (rule slide_evict_delete [OF ev h1(1,2) d1 s(1) [unfolded x] i1])
      then show ?thesis
        using True True' sl h1(3) unfolding p1
        by (intro fin [of _ del]) (auto simp: s x intro!: window_inv_slide [OF inv idx, where x = x])
    qed
  qed
qed

subsection \<open>Runs of the muxer\<close>

text \<open>
  What the rest of the muxer does between two appends: it may change everything but the segment lists,
  their length and the sequence number.  \<open>log\<close> are the segments appended and \<open>ul\<close> the files unlinked so
  far; \<open>d\<close> and \<open>v\<close> are the directories of the segment and the subtitle files.
\<close>

definition same_lists :: "'d VariantStream \<Rightarrow> 'd VariantStream \<Rightarrow> bool" where
  "same_lists vs vs' \<longleftrightarrow> segments vs' = segments vs \<and> old_segments vs' = old_segments vs \<and>
     nb_entries vs' = nb_entries vs \<and> sequence vs' = sequence vs \<and> var_stream_idx vs' = var_stream_idx vs"

inductive hls_run :: "('f, 'd) float_ops \<Rightarrow> (string \<Rightarrow> int) \<Rightarrow> string \<Rightarrow> string \<Rightarrow> HLSContext \<Rightarrow> 'd VariantStream \<Rightarrow>
    'd HLSSegment list \<Rightarrow> string list \<Rightarrow> HLSContext \<Rightarrow> 'd VariantStream \<Rightarrow> bool"
  for fl io_open d v hls0 vs0 where
  start: "hls_run fl io_open d v hls0 vs0 [] [] hls0 vs0"
| other: "hls_run fl io_open d v hls0 vs0 log ul hls vs \<Longrightarrow> same_lists vs vs' \<Longrightarrow>
    hls_run fl io_open d v hls0 vs0 log ul hls vs'"
| append: "hls_run fl io_open d v hls0 vs0 log ul hls vs \<Longrightarrow> dir_ok d v hls vs \<Longrightarrow>
    hls_append_segment fl io_open False hls vs dur p sz = (ret, hls', vs', ev) \<Longrightarrow>
    hls_run fl io_open d v hls0 vs0 (log @ [new_segment hls vs dur p sz]) (ul @ map event_path ev) hls' vs'"

definition fresh_stream :: "'d VariantStream \<Rightarrow> bool" where
  "fresh_stream vs \<longleftrightarrow> segments vs = [] \<and> old_segments vs = [] \<and> nb_entries vs = 0"

lemma window_inv_cong:
  "same_lists vs vs' \<Longrightarrow> window_inv hls start vs' log gone \<longleftrightarrow> window_inv hls start vs log gone"
  by (simp add: same_lists_def window_inv_def)

lemma window_inv_fresh:
  "fresh_stream vs \<Longrightarrow> 0 \<le> max_nb_segments hls \<Longrightarrow> window_inv hls (sequence vs) vs [] []"
  by (simp add: fresh_stream_def window_inv_def seg_limit_def)

text \<open>The only field of the context an append changes.\<close>

definition same_context :: "HLSContext \<Rightarrow> HLSContext \<Rightarrow> bool" where
  "same_context hls0 hls \<longleftrightarrow> hls = hls0 \<or> pl_type hls0 \<noteq> PLAYLIST_TYPE_NONE \<and> hls = hls0\<lparr>max_nb_segments := 0\<rparr>"

lemma same_contextE:
  assumes "same_context hls0 hls"
  obtains "hls = hls0" | "pl_type hls0 \<noteq> PLAYLIST_TYPE_NONE" "hls = hls0\<lparr>max_nb_segments := 0\<rparr>"
  using assms unfolding same_context_def by blast

lemma same_context_http: "same_context hls0 hls \<Longrightarrow> http_method hls = http_method hls0"
  by (erule same_contextE) simp_all

lemma same_context_sls: "same_context hls0 hls \<Longrightarrow> sls_off hls = sls_off hls0"
  by (erule same_contextE) (simp_all add: sls_off_def)

lemma same_context_deleting: "same_context hls0 hls \<Longrightarrow> deleting hls = deleting hls0"
  by (erule same_contextE) (simp_all add: deleting_def)

lemma same_context_limit: "same_context hls0 hls \<Longrightarrow> 0 \<le> max_nb_segments hls0 \<Longrightarrow> 0 \<le> max_nb_segments hls"
  by (erule same_contextE) simp_all

lemma same_context_inv:
  assumes "same_context hls0 hls"
  shows "window_inv hls start vs log gone = window_inv hls0 start vs log gone"
proof -
  have "seg_limit hls = seg_limit hls0" "max_seg_size hls = max_seg_size hls0"
    "hls_delete_threshold hls = hls_delete_threshold hls0" "deleting hls = deleting hls0"
    using assms by (auto elim!: same_contextE simp: seg_limit_def deleting_def)
  then show ?thesis unfolding window_inv_def by (simp only:)
qed

lemma same_context_sizes:
  "same_context hls0 hls \<Longrightarrow> seg_limit hls = seg_limit hls0" "same_context hls0 hls \<Longrightarrow> max_seg_size hls = max_seg_size hls0"
  by (auto elim!: same_contextE simp: seg_limit_def)

lemmas same_context_env = same_context_http same_context_sls same_context_deleting same_context_limit

lemma same_context_paths: "same_context hls0 hls \<Longrightarrow> segment_paths hls d v en = segment_paths hls0 d v en"
  by (auto simp: same_context_def segment_paths_def)

lemma same_context_next:
  "same_context hls0 hls \<Longrightarrow>
   same_context hls0 (if pl_type hls \<noteq> PLAYLIST_TYPE_NONE then hls\<lparr>max_nb_segments := 0\<rparr> else hls)"
  by (auto simp: same_context_def)

lemma hls_run_window:
  assumes run: "hls_run fl io_open d v hls0 vs0 log ul hls vs" and fresh: "fresh_stream vs0"
    and env: "http_method hls0 = None" "sls_off hls0" "0 \<le> max_nb_segments hls0"
  shows "same_context hls0 hls \<and> (\<exists>gone. window_inv hls0 (sequence vs0) vs log gone \<and>
    set ul = (if deleting hls0 then \<Union>en \<in> set gone. set (segment_paths hls0 d v en) else {}))"
  using run
proof (induction rule: hls_run.induct)
  case start
  then show ?case using window_inv_fresh [OF fresh env(3)] by (auto simp: same_context_def intro!: exI [of _ "[]"])
next
  case (other log ul hls vs vs')
  then show ?case by (simp add: window_inv_cong)
next
  case (append log ul hls vs dur p sz ret hls' vs' ev)
  then obtain gone where same: "same_context hls0 hls" and inv: "window_inv hls0 (sequence vs0) vs log gone"
    and ul: "set ul = (if deleting hls0 then \<Union>en \<in> set gone. set (segment_paths hls0 d v en) else {})" by blast
  note S = same_context_env [OF same]
  have inv1: "window_inv hls (sequence vs0) vs log gone" using inv same by (simp add: same_context_inv)
  obtain del vs2 where step: "hls_append_segment fl io_open False hls vs dur p sz =
       (0, if pl_type hls \<noteq> PLAYLIST_TYPE_NONE then hls\<lparr>max_nb_segments := 0\<rparr> else hls, vs2,
        if deleting hls then map Unlink (concat (map (segment_paths hls d v) del)) else [])"
    and inv2: "window_inv hls (sequence vs0) vs2 (log @ [new_segment hls vs dur p sz]) (gone @ rev del)"
    by (rule append_step [of hls "sequence vs0" vs log gone d v fl io_open dur p sz]) (use inv1 env S append(2) in simp_all)
  have r: "hls' = (if pl_type hls \<noteq> PLAYLIST_TYPE_NONE then hls\<lparr>max_nb_segments := 0\<rparr> else hls)" "vs' = vs2"
    "ev = (if deleting hls then map Unlink (concat (map (segment_paths hls d v) del)) else [])"
    using step append(3) by (auto simp only: prod.inject)
  have "set (ul @ map event_path ev) =
      (if deleting hls0 then \<Union>en \<in> set (gone @ rev del). set (segment_paths hls0 d v en) else {})"
    unfolding r(3) S(3) by (simp add: ul same_context_paths [OF same] image_image UN_Un)
  moreover have "window_inv hls0 (sequence vs0) vs2 (log @ [new_segment hls vs dur p sz]) (gone @ rev del)"
    using inv2 same by (simp add: same_context_inv)
  ultimately show ?case using same_context_next [OF same] unfolding r(1,2) by blast
qed

subsection \<open>Properties of the window\<close>

text \<open>An executable run: one append for every entry \<open>(url, duration, position, size)\<close>.\<close>

fun run_appends :: "('f, 'd) float_ops \<Rightarrow> (string \<Rightarrow> int) \<Rightarrow> string \<Rightarrow> string \<Rightarrow> 'd HLSSegment list \<Rightarrow> string list \<Rightarrow>
    HLSContext \<Rightarrow> 'd VariantStream \<Rightarrow> (string \<times> 'd \<times> int \<times> int) list \<Rightarrow>
    ('d HLSSegment list \<times> string list \<times> HLSContext \<times> 'd VariantStream) option" where
  "run_appends fl io_open d v log ul hls vs [] = Some (log, ul, hls, vs)"
| "run_appends fl io_open d v log ul hls vs ((url, dur, p, sz) # xs) =
     (let vs = vs\<lparr>avf_url := url\<rparr>;
          (ret, hls', vs', ev) = hls_append_segment fl io_open False hls vs dur p sz
      in if dir_ok d v hls vs
         then run_appends fl io_open d v (log @ [new_segment hls vs dur p sz]) (ul @ map event_path ev) hls' vs' xs
         else None)"

lemma run_appends_run:
  "run_appends fl io_open d v log ul hls vs xs = Some (log', ul', hls', vs') \<Longrightarrow>
   hls_run fl io_open d v hls0 vs0 log ul hls vs \<Longrightarrow> hls_run fl io_open d v hls0 vs0 log' ul' hls' vs'"
proof (induction fl io_open d v log ul hls vs xs rule: run_appends.induct)
  case (1 fl io_open d v log ul hls vs)
  then show ?case by simp
next
  case (2 fl io_open d v log ul hls vs url dur p sz xs)
  define vs1 where "vs1 = vs\<lparr>avf_url := url\<rparr>"
  obtain ret hls2 vs2 ev where app: "hls_append_segment fl io_open False hls vs1 dur p sz = (ret, hls2, vs2, ev)"
    by (metis prod_cases4)
  have ok: "dir_ok d v hls vs1" and rest: "run_appends fl io_open d v (log @ [new_segment hls vs1 dur p sz])
      (ul @ map event_path ev) hls2 vs2 xs = Some (log', ul', hls', vs')"
    using 2(2) by (auto simp: vs1_def [symmetric] app Let_def split: if_splits)
  have "hls_run fl io_open d v hls0 vs0 log ul hls vs1"
    by (rule hls_run.other [OF 2(3)]) (simp add: same_lists_def vs1_def)
  from hls_run.append [OF this ok app] show ?case
    using 2(1) [OF vs1_def app [symmetric] refl refl refl ok rest] by blast
qed

text \<open>A context and a stream for concrete runs: one segment listed, one kept, deletion on.\<close>

definition demo_hls :: HLSContext where
  "demo_hls = \<lparr>start_sequence = 0, max_nb_segments = 1, hls_delete_threshold = 1, wrap = 0,
     flags = {HLS_DELETE_SEGMENTS}, pl_type = 0, segment_filename = Some ''out/s%d.ts'', segment_fmp4 = False,
     use_localtime_mkdir = False, allowcache = - 1, max_seg_size = 0, encrypt = False, key_info_file = False,
     key_uri = [], iv_string = [], http_method = None, version = 3, ignore_io_errors = False\<rparr>"

definition demo_vs :: "int VariantStream" where
  "demo_vs = \<lparr>var_stream_idx = 0, sequence = 0, avf_url = [], vtt_url = [], has_video = True, has_subtitle = False,
     video_keyframe_pos = 0, video_keyframe_size = 0, last_duration = 0, start_pos = 0, last_size = 0, nb_entries = 0,
     discontinuity_set = False, discontinuity = False, segments = [], old_segments = [], init_range_length = 0,
     initial_prog_date_time = 0, current_segment_final_filename_fmt = [], fmp4_init_filename = [],
     m3u8_name = ''out/o.m3u8'', vtt_m3u8_name = None, baseurl = None, varname = None\<rparr>"

lemma demo_fresh: "fresh_stream demo_vs" "http_method demo_hls = None" "sls_off demo_hls" "0 \<le> max_nb_segments demo_hls"
  by (simp_all add: fresh_stream_def demo_vs_def demo_hls_def sls_off_def)

lemma demo_dir: "segment_filename hls = Some ''out/s%d.ts'' \<Longrightarrow> old_segment_dir hls vs idx = (''out/'', 1)"
proof -
  have "dir_part ''out/s%d.ts'' = ''out/''" "av_stristr ''out/'' ''%v'' = None" by code_simp+
  then show "segment_filename hls = Some ''out/s%d.ts'' \<Longrightarrow> old_segment_dir hls vs idx = (''out/'', 1)"
    by (simp add: old_segment_dir_def Let_def)
qed

lemma demo_append:
  assumes run: "hls_run micro_ops (\<lambda>_. 0) ''out/'' [] demo_hls demo_vs log ul hls vs"
  obtains en ul' hls' vs' where "hls_run micro_ops (\<lambda>_. 0) ''out/'' [] demo_hls demo_vs (log @ [en]) ul' hls' vs'"
    "filename en = fst (av_strlcpy [] (av_basename u) MAX_URL_SIZE)" "sub_filename en = []"
proof -
  have hls: "hls = demo_hls"
    using hls_run_window [OF run demo_fresh] by (auto simp: same_context_def demo_hls_def)
  define vs1 where "vs1 = vs\<lparr>avf_url := u, vtt_url := [], has_subtitle := False\<rparr>"
  have "hls_run micro_ops (\<lambda>_. 0) ''out/'' [] demo_hls demo_vs log ul hls vs1"
    by (rule hls_run.other [OF run]) (simp add: same_lists_def vs1_def)
  moreover have "dir_ok ''out/'' [] hls vs1"
    unfolding hls dir_ok_def by (simp add: demo_dir demo_hls_def vs1_def dir_part_def)
  moreover obtain ret hls' vs' ev where "hls_append_segment micro_ops (\<lambda>_. 0) False hls vs1 2000000 0 9 = (ret, hls', vs', ev)"
    by (metis prod_cases4)
  ultimately have "hls_run micro_ops (\<lambda>_. 0) ''out/'' [] demo_hls demo_vs (log @ [new_segment hls vs1 2000000 0 9])
      (ul @ map event_path ev) hls' vs'" by (rule hls_run.append)
  then show ?thesis
    by (rule that) (simp_all add: hls new_segment_def Let_def demo_hls_def vs1_def)
qed

text \<open>Three segments finished.\<close>

lemma demo_run:
  obtains a b c ul hls vs where "hls_run micro_ops (\<lambda>_. 0) ''out/'' [] demo_hls demo_vs [a, b, c] ul hls vs"
    "filename a = ''s0.ts''" "filename b = ''s1.ts''" "filename c = ''s2.ts''"
    "sub_filename a = []" "sub_filename b = []" "sub_filename c = []"
proof -
  have names: "fst (av_strlcpy [] (av_basename ''out/s0.ts'') MAX_URL_SIZE) = ''s0.ts''"
    "fst (av_strlcpy [] (av_basename ''out/s1.ts'') MAX_URL_SIZE) = ''s1.ts''"
    "fst (av_strlcpy [] (av_basename ''out/s2.ts'') MAX_URL_SIZE) = ''s2.ts''"
    by (simp_all add: av_basename_def av_strlcpy_value)
  have "hls_run micro_ops (\<lambda>_. 0) ''out/'' [] demo_hls demo_vs [] [] demo_hls demo_vs" by (rule hls_run.start)
  then obtain a ul1 h1 v1 where 1: "hls_run micro_ops (\<lambda>_. 0) ''out/'' [] demo_hls demo_vs ([] @ [a]) ul1 h1 v1"
    "filename a = ''s0.ts''" "sub_filename a = []"
    by (rule demo_append [where u = "''out/s0.ts''"]) (simp add: names)
  from 1(1) obtain b ul2 h2 v2 where 2: "hls_run micro_ops (\<lambda>_. 0) ''out/'' [] demo_hls demo_vs (([] @ [a]) @ [b]) ul2 h2 v2"
    "filename b = ''s1.ts''" "sub_filename b = []"
    by (rule demo_append [where u = "''out/s1.ts''"]) (simp add: names)
  from 2(1) obtain c ul3 h3 v3 where "hls_run micro_ops (\<lambda>_. 0) ''out/'' [] demo_hls demo_vs ((([] @ [a]) @ [b]) @ [c]) ul3 h3 v3"
    "filename c = ''s2.ts''" "sub_filename c = []"
    by (rule demo_append [where u = "''out/s2.ts''"]) (simp add: names)
  then show ?thesis using that 1(2,3) 2(2,3) by simp
qed

text \<open>C1. After every run of appends on a local file system: the segments listed are the last ones
  finished, as many as the limit allows, followed backwards by the ones whose files are kept and those
  given up; the sequence number counts the finished segments, and exactly the files of the segments
  given up have been unlinked when deletion is on.\<close>

theorem hls_append_segment_window:
  assumes "hls_run fl io_open d v hls0 vs0 log ul hls vs" "fresh_stream vs0"
    "http_method hls0 = None" "sls_off hls0" "0 \<le> max_nb_segments hls0"
  shows "\<exists>gone. log = gone @ rev (old_segments vs) @ segments vs \<and>
    nb_entries vs = int (length (segments vs)) \<and>
    sequence vs = sequence vs0 + (if max_seg_size hls0 > 0 then 0 else int (length log)) \<and>
    int (length (segments vs)) = (if seg_limit hls0 = 0 then int (length log) else min (seg_limit hls0) (int (length log))) \<and>
    int (length (old_segments vs)) \<le> max 1 (hls_delete_threshold hls0) \<and>
    set ul = (if deleting hls0 then \<Union>en \<in> set gone. set (segment_paths hls0 d v en) else {})"
  using hls_run_window [OF assms] unfolding window_inv_def by metis

theorem hls_append_segment_window_witness:
  "\<exists>a b c ul hls vs. hls_run micro_ops (\<lambda>_. 0) ''out/'' [] demo_hls demo_vs [a, b, c] ul hls vs \<and>
     segments vs = [c] \<and> nb_entries vs = 1 \<and> sequence vs = 3 \<and> ''out/s0.ts'' \<in> set ul"
proof -
  obtain a b c ul hls vs where r: "hls_run micro_ops (\<lambda>_. 0) ''out/'' [] demo_hls demo_vs [a, b, c] ul hls vs"
    and n: "filename a = ''s0.ts''" by (rule demo_run)
  have d: "seg_limit demo_hls = 1" "max_seg_size demo_hls = 0" "hls_delete_threshold demo_hls = 1" "deleting demo_hls"
    "sequence demo_vs = 0" by (simp_all add: demo_hls_def demo_vs_def seg_limit_def deleting_def)
  obtain gone where g: "[a, b, c] = gone @ rev (old_segments vs) @ segments vs" "length (segments vs) = 1"
    "length (old_segments vs) \<le> 1" "nb_entries vs = 1" "sequence vs = 3"
    "set ul = (\<Union>en \<in> set gone. set (segment_paths demo_hls ''out/'' [] en))"
    using hls_append_segment_window [OF r demo_fresh] by (auto simp: d)
  obtain z where z: "segments vs = [z]" using g(2) by (cases "segments vs") auto
  have "[a, b] = gone @ rev (old_segments vs)" "z = c" using g(1) unfolding z by (simp_all add: append_eq_Cons_conv Cons_eq_append_conv) auto
  moreover from this have "length gone + length (old_segments vs) = 2" by (auto dest: arg_cong [of _ _ length])
  ultimately have "a \<in> set gone" using g(3) by (cases gone) auto
  then have "''out/s0.ts'' \<in> set ul" using n g(6) by (auto simp: segment_paths_def demo_hls_def intro!: bexI [of _ a])
  then show ?thesis using r g(4,5) z \<open>z = c\<close> by blast
qed

text \<open>C6. When no two segments have a file in common, no file of a segment that is listed, or kept after
  it left the list, is ever unlinked.\<close>

theorem hls_listed_files_kept:
  assumes "hls_run fl io_open d v hls0 vs0 log ul hls vs" "fresh_stream vs0"
    "http_method hls0 = None" "sls_off hls0" "0 \<le> max_nb_segments hls0"
    "distinct (concat (map (segment_paths hls0 d v) log))" "en \<in> set (old_segments vs) \<union> set (segments vs)"
  shows "set (segment_paths hls0 d v en) \<inter> set ul = {}"
proof -
  obtain gone where inv: "window_inv hls0 (sequence vs0) vs log gone"
    and ul: "set ul = (if deleting hls0 then \<Union>en \<in> set gone. set (segment_paths hls0 d v en) else {})"
    using hls_run_window [OF assms(1-5)] by blast
  have "distinct (concat (map (segment_paths hls0 d v) gone) @
      concat (map (segment_paths hls0 d v) (rev (old_segments vs) @ segments vs)))"
    using assms(6) unfolding window_invD(1) [OF inv] by simp
  then have "(\<Union>en \<in> set gone. set (segment_paths hls0 d v en)) \<inter>
      (\<Union>en \<in> set (rev (old_segments vs) @ segments vs). set (segment_paths hls0 d v en)) = {}"
    by (simp only: distinct_append set_concat set_map image_image)
  then show ?thesis using assms(7) unfolding ul by auto
qed

theorem hls_listed_files_kept_witness:
  "\<exists>a b c ul hls vs. hls_run micro_ops (\<lambda>_. 0) ''out/'' [] demo_hls demo_vs [a, b, c] ul hls vs \<and>
     (segments vs = [] \<or> set (segment_paths demo_hls ''out/'' [] (hd (segments vs))) \<inter> set ul = {})"
proof -
  obtain a b c ul hls vs where r: "hls_run micro_ops (\<lambda>_. 0) ''out/'' [] demo_hls demo_vs [a, b, c] ul hls vs"
    and n: "filename a = ''s0.ts''" "filename b = ''s1.ts''" "filename c = ''s2.ts''"
      "sub_filename a = []" "sub_filename b = []" "sub_filename c = []" by (rule demo_run)
  have d: "distinct (concat (map (segment_paths demo_hls ''out/'' []) [a, b, c]))"
    by (simp add: segment_paths_def demo_hls_def n)
  have "segments vs = [] \<or> set (segment_paths demo_hls ''out/'' [] (hd (segments vs))) \<inter> set ul = {}"
    using hls_listed_files_kept [OF r demo_fresh d, of "hd (segments vs)"] by (cases "segments vs") simp_all
  then show ?thesis using r by blast
qed

end
