(* ===== verification/HlsWindow.thy ===== *)
theory HlsWindow
  imports HlsEnc
begin

section \<open>Writing and reading the media playlist: \<open>libavformat/hlsenc.c\<close>\<close>

text \<open>
  \<open>hls_window\<close> writes the playlist of a variant stream and \<open>parse_playlist\<close> reads one back
  (\<open>append_list\<close>).  A file that is written is one event \<open>WriteFile name text\<close>; what opening a file
  returns is the function \<open>io_open\<close>, and \<open>find_protocol_name\<close> is the protocol of a URL.  The master
  playlist that the function writes at its end is not part of the model.
\<close>

datatype window_io = WriteFile string string | RenameFile "string option" string

definition playlist_target_duration :: "('f, 'd) float_ops \<Rightarrow> 'd HLSSegment list \<Rightarrow> int" where
  "playlist_target_duration fl segs =
     fold (\<lambda>en target. if db_le fl target (duration en) then s32 (db_lrint fl (duration en)) else target) segs 0"

text \<open>One turn of the loop over the segments; \<open>key\<close> is the last key line's URI and vector, \<open>pt\<close> the
  program date and time.\<close>

definition write_key_line :: "HLSContext \<Rightarrow> (string \<times> string) option \<Rightarrow> 'd HLSSegment \<Rightarrow> avio \<Rightarrow>
    avio \<times> (string \<times> string) option" where
  "write_key_line hls key en out =
     (if (encrypt hls \<or> key_info_file hls) \<and>
         (case key of None \<Rightarrow> True | Some (u, v) \<Rightarrow> seg_key_uri en \<noteq> u \<or> av_strcasecmp (seg_iv_string en) v \<noteq> 0)
      then
        let out = avio_print out (''#EXT-X-KEY:METHOD=AES-128,URI='' @ QUOTE @ seg_key_uri en @ QUOTE);
            out = (if seg_iv_string en \<noteq> [] then avio_print out ('',IV=0x'' @ seg_iv_string en) else out)
        in (avio_print out LF, Some (seg_key_uri en, seg_iv_string en))
      else (out, key))"

fun window_entries :: "('f, 'd) float_ops \<Rightarrow> HLSContext \<Rightarrow> 'd VariantStream \<Rightarrow> bool \<Rightarrow> (string \<times> string) option \<Rightarrow>
    'd option \<Rightarrow> int \<Rightarrow> avio \<Rightarrow> 'd HLSSegment list \<Rightarrow> int \<times> avio" where
  "window_entries fl hls vs is_first key pt ret out [] = (ret, out)"
| "window_entries fl hls vs is_first key pt ret out (en # rest) =
     (let (out, key) = write_key_line hls key en out;
          out = (if segment_fmp4 hls \<and> is_first
                 then ff_hls_write_init_file out
                        (if HLS_SINGLE_FILE \<in> flags hls then filename en else fmp4_init_filename vs)
                        (HLS_SINGLE_FILE \<in> flags hls) (init_range_length vs) 0
                 else out);
          (ret, out, pt) =
            ff_hls_write_file_entry fl out (discont en) (byterange_mode hls) (duration en)
              (HLS_ROUND_DURATIONS \<in> flags hls) (seg_size en) (pos en) (baseurl vs) (Some (filename en)) pt
              (keyframe_size en) (keyframe_pos en) (HLS_I_FRAMES_ONLY \<in> flags hls)
      in window_entries fl hls vs False key pt ret out rest)"

fun window_vtt_entries :: "('f, 'd) float_ops \<Rightarrow> HLSContext \<Rightarrow> 'd VariantStream \<Rightarrow> int \<Rightarrow> avio \<Rightarrow>
    'd HLSSegment list \<Rightarrow> int \<times> avio" where
  "window_vtt_entries fl hls vs ret out [] = (ret, out)"
| "window_vtt_entries fl hls vs ret out (en # rest) =
     (let (ret, out, pt) =
            ff_hls_write_file_entry fl out False (byterange_mode hls) (duration en) False (seg_size en) (pos en)
              (baseurl vs) (Some (sub_filename en)) None 0 0 False
      in window_vtt_entries fl hls vs ret out rest)"

definition window_sequence :: "HLSContext \<Rightarrow> 'd VariantStream \<Rightarrow> int" where
  "window_sequence hls vs =
     (if byterange_mode hls then 0 else max (start_sequence hls) (sequence vs - nb_entries vs))"

definition window_version :: "HLSContext \<Rightarrow> int" where
  "window_version hls =
     (if segment_fmp4 hls then 7
      else if HLS_INDEPENDENT_SEGMENTS \<in> flags hls then 6
      else if byterange_mode hls then 4
      else 3)"

text \<open>The text of the playlist, with the return value of the last entry and the new stream state.\<close>

definition window_text :: "('f, 'd) float_ops \<Rightarrow> HLSContext \<Rightarrow> 'd VariantStream \<Rightarrow> bool \<Rightarrow> int \<Rightarrow>
    int \<times> avio \<times> 'd VariantStream" where
  "window_text fl hls vs is_last ret =
     (let vs = vs\<lparr>discontinuity_set := False\<rparr>;
          out = ff_hls_write_playlist_header (Some []) (version hls) (allowcache hls)
                  (playlist_target_duration fl (segments vs)) (window_sequence hls vs) (pl_type hls)
                  (HLS_I_FRAMES_ONLY \<in> flags hls);
          (out, vs) = (if HLS_DISCONT_START \<in> flags hls \<and> window_sequence hls vs = start_sequence hls \<and> \<not> discontinuity_set vs
                       then (avio_print out (''#EXT-X-DISCONTINUITY'' @ LF), vs\<lparr>discontinuity_set := True\<rparr>)
                       else (out, vs));
          out = (if has_video vs \<and> HLS_INDEPENDENT_SEGMENTS \<in> flags hls
                 then avio_print out (''#EXT-X-INDEPENDENT-SEGMENTS'' @ LF) else out);
          pt = (if HLS_PROGRAM_DATE_TIME \<in> flags hls then Some (initial_prog_date_time vs) else None);
          (ret, out) = window_entries fl hls vs True None pt ret out (segments vs);
          out = (if is_last \<and> HLS_OMIT_ENDLIST \<notin> flags hls then ff_hls_write_end_list out else out)
      in (ret, out, vs))"

definition window_vtt_text :: "('f, 'd) float_ops \<Rightarrow> HLSContext \<Rightarrow> 'd VariantStream \<Rightarrow> bool \<Rightarrow> int \<Rightarrow> int \<times> avio" where
  "window_vtt_text fl hls vs is_last ret =
     (let out = ff_hls_write_playlist_header (Some []) (version hls) (allowcache hls)
                  (playlist_target_duration fl (segments vs)) (window_sequence hls vs) PLAYLIST_TYPE_NONE False;
          (ret, out) = window_vtt_entries fl hls vs ret out (segments vs)
      in (ret, if is_last then ff_hls_write_end_list out else out))"

text \<open>Result: the return value, the two contexts and the files written and renamed.\<close>

definition temp_name :: "bool \<Rightarrow> string \<Rightarrow> string" where
  "temp_name use_temp_file f = take (MAX_URL_SIZE - 1) (if use_temp_file then f @ ''.tmp'' else f)"

definition hls_window :: "('f, 'd) float_ops \<Rightarrow> (string \<Rightarrow> int) \<Rightarrow> (string \<Rightarrow> string option) \<Rightarrow> HLSContext \<Rightarrow>
    'd VariantStream \<Rightarrow> bool \<Rightarrow> int \<times> HLSContext \<times> 'd VariantStream \<times> window_io list" where
  "hls_window fl io_open find_protocol_name hls vs is_last =
     (let use_temp_file = (find_protocol_name (m3u8_name vs) = Some ''file'' \<and>
            (HLS_TEMP_FILE \<in> flags hls \<or> pl_type hls \<noteq> PLAYLIST_TYPE_VOD));
          hls = hls\<lparr>version := window_version hls\<rparr>;
          temp_filename = temp_name use_temp_file (m3u8_name vs);
          renames = (\<lambda>temp_vtt. if use_temp_file
              then RenameFile (Some temp_filename) (m3u8_name vs) #
                   (case vtt_m3u8_name vs of None \<Rightarrow> [] | Some v \<Rightarrow> [RenameFile temp_vtt v])
              else []);
          ret = io_open temp_filename
      in if ret < 0 then (if ignore_io_errors hls then 0 else ret, hls, vs, renames None)
         else
           let (ret, out, vs) = window_text fl hls vs is_last ret;
               w = (case out of None \<Rightarrow> [] | Some t \<Rightarrow> [WriteFile temp_filename t])
           in (case vtt_m3u8_name vs of
                 None \<Rightarrow> (ret, hls, vs, w @ renames None)
               | Some v \<Rightarrow>
                   let temp_vtt = temp_name use_temp_file v;
                       r = io_open temp_vtt
                   in if r < 0 then (if ignore_io_errors hls then 0 else r, hls, vs, w @ renames (Some temp_vtt))
                      else
                        let (ret, out) = window_vtt_text fl hls vs is_last r;
                            w2 = (case out of None \<Rightarrow> [] | Some t \<Rightarrow> [WriteFile temp_vtt t])
                        in (ret, hls, vs, w @ w2 @ renames (Some temp_vtt))))"

subsection \<open>Reading lines\<close>

text \<open>\<open>ff_get_line\<close> on the rest of the input: the characters before the line end, and what follows.
  A zero byte ends the line too, as the end of the input does.\<close>

definition line_end :: "char \<Rightarrow> bool" where
  "line_end c \<longleftrightarrow> c = CHR 0x0A \<or> c = CHR 0x0D \<or> c = CHR 0x00"

definition ff_get_line :: "string \<Rightarrow> nat \<Rightarrow> string \<times> string" where
  "ff_get_line s maxlen =
     (let body = takeWhile (\<lambda>c. \<not> line_end c) s;
          rest = drop (length body) s
      in case rest of
           [] \<Rightarrow> (take (maxlen - 1) body, [])
         | c # r \<Rightarrow>
             (take (maxlen - 1) (if c = CHR 0x00 then body else body @ [c]),
              if c = CHR 0x0D \<and> r \<noteq> [] \<and> hd r = CHR 0x0A then tl r else r))"

definition ff_get_chomp_line :: "string \<Rightarrow> nat \<Rightarrow> string \<times> string" where
  "ff_get_chomp_line s maxlen =
     (let (l, r) = ff_get_line s maxlen in (rev (dropWhile av_isspace (rev l)), r))"

lemma get_line_shorter: "s \<noteq> [] \<Longrightarrow> length (snd (ff_get_chomp_line s n)) < length s"
proof -
  assume s: "s \<noteq> []"
  define rest where "rest = drop (length (takeWhile (\<lambda>c. \<not> line_end c) s)) s"
  have "length rest \<le> length s" by (simp add: rest_def)
  then show ?thesis
    using s unfolding ff_get_chomp_line_def ff_get_line_def Let_def rest_def [symmetric]
    by (cases rest) auto
qed

text \<open>The lines until the end of the input.\<close>

function playlist_lines :: "string \<Rightarrow> string list" where
  "playlist_lines s =
     (if s = [] then []
      else fst (ff_get_chomp_line s LINE_BUFFER_SIZE) # playlist_lines (snd (ff_get_chomp_line s LINE_BUFFER_SIZE)))"
  by pat_completeness auto
termination
  by (relation "measure length") (auto simp: get_line_shorter)

declare playlist_lines.simps [simp del]

subsection \<open>Parsing\<close>

record 'd parse_state =
  ps_hls :: HLSContext
  ps_vs :: "'d VariantStream"
  is_segment :: bool
  ps_events :: "io_event list"

text \<open>A quoted attribute: \<open>av_strlcpy\<close> up to the comma, or to the end of the line.\<close>

definition copy_attribute :: "string \<Rightarrow> string \<Rightarrow> nat \<Rightarrow> string" where
  "copy_attribute dst p bufsize =
     (case av_stristr p '','' of
        Some e \<Rightarrow> fst (av_strlcpy dst p (length p - length e))
      | None \<Rightarrow> fst (av_strlcpy dst p bufsize))"

definition parse_key_line :: "HLSContext \<Rightarrow> string \<Rightarrow> HLSContext" where
  "parse_key_line hls line =
     (let hls = (case av_stristr line (''URI='' @ QUOTE) of
                   Some p \<Rightarrow> hls\<lparr>key_uri := copy_attribute (key_uri hls) (drop 5 p) (LINE_BUFFER_SIZE + 1)\<rparr>
                 | None \<Rightarrow> hls)
      in case av_stristr line ''IV=0x'' of
           Some p \<Rightarrow> hls\<lparr>iv_string := copy_attribute (iv_string hls) (drop 5 p) (KEYSIZE * 2 + 1)\<rparr>
         | None \<Rightarrow> hls)"

text \<open>One line; \<open>tell\<close> is the position of the muxer's output, which reading does not move.\<close>

definition parse_line :: "('f, 'd) float_ops \<Rightarrow> (string \<Rightarrow> int) \<Rightarrow> bool \<Rightarrow> int \<Rightarrow> string \<Rightarrow> 'd parse_state \<Rightarrow>
    int \<times> 'd parse_state" where
  "parse_line fl io_open is_http tell line st =
     (case av_strstart line ''#EXT-X-MEDIA-SEQUENCE:'' of
        Some p \<Rightarrow>
          (if strtoll10 p < sequence (ps_vs st) then (0, st)
           else (0, st\<lparr>ps_vs := (ps_vs st)\<lparr>sequence := strtoll10 p\<rparr>\<rparr>))
      | None \<Rightarrow>
     (case av_strstart line ''#EXT-X-DISCONTINUITY'' of
        Some p \<Rightarrow> (0, st\<lparr>is_segment := True, ps_vs := (ps_vs st)\<lparr>discontinuity := True\<rparr>\<rparr>)
      | None \<Rightarrow>
     (case av_strstart line ''#EXTINF:'' of
        Some p \<Rightarrow> (0, st\<lparr>is_segment := True, ps_vs := (ps_vs st)\<lparr>last_duration := db_atof fl p\<rparr>\<rparr>)
      | None \<Rightarrow>
        if av_stristart line ''#EXT-X-KEY:'' \<noteq> None then (0, st\<lparr>ps_hls := parse_key_line (ps_hls st) line\<rparr>)
        else if av_strstart line ''#'' \<noteq> None then (0, st)
        else if line \<noteq> [] \<and> is_segment st then
          let vs = (ps_vs st)\<lparr>avf_url := line\<rparr>;
              vs = vs\<lparr>last_size := tell - start_pos vs\<rparr>;
              (ret, hls, vs, ev) =
                hls_append_segment fl io_open is_http (ps_hls st) vs (last_duration vs) (start_pos vs) (last_size vs);
              st = st\<lparr>ps_hls := hls, is_segment := False, ps_events := ps_events st @ ev\<rparr>
          in if ret < 0 then (ret, st\<lparr>ps_vs := vs\<rparr>)
             else (ret, st\<lparr>ps_vs := vs\<lparr>start_pos := tell\<rparr>\<rparr>)
        else (0, st))))"

fun parse_lines :: "('f, 'd) float_ops \<Rightarrow> (string \<Rightarrow> int) \<Rightarrow> bool \<Rightarrow> int \<Rightarrow> string list \<Rightarrow> int \<Rightarrow> 'd parse_state \<Rightarrow>
    int \<times> 'd parse_state" where
  "parse_lines fl io_open is_http tell [] ret st = (ret, st)"
| "parse_lines fl io_open is_http tell (line # rest) ret st =
     (let (r, st) = parse_line fl io_open is_http tell line st
      in if r < 0 then (r, st) else parse_lines fl io_open is_http tell rest r st)"

text \<open>\<open>content\<close> is what opening the playlist gives: an error code or the text of the file.\<close>

definition parse_playlist :: "('f, 'd) float_ops \<Rightarrow> (string \<Rightarrow> int) \<Rightarrow> bool \<Rightarrow> int \<Rightarrow> int + string \<Rightarrow> HLSContext \<Rightarrow>
    'd VariantStream \<Rightarrow> int \<times> HLSContext \<times> 'd VariantStream \<times> io_event list" where
  "parse_playlist fl io_open is_http tell content hls vs =
     (case content of
        Inl err \<Rightarrow> (err, hls, vs, [])
      | Inr s \<Rightarrow>
          let (line, rest) = ff_get_chomp_line s LINE_BUFFER_SIZE
          in if line \<noteq> ''#EXTM3U'' then (AVERROR_INVALIDDATA, hls, vs, [])
             else
               let (ret, st) = parse_lines fl io_open is_http tell (playlist_lines rest) 0
                     \<lparr>ps_hls = hls, ps_vs = vs\<lparr>discontinuity := False\<rparr>, is_segment = False, ps_events = []\<rparr>
               in (ret, ps_hls st, ps_vs st, ps_events st))"

subsection \<open>Lemmas: the text as lines\<close>

definition unlines :: "string list \<Rightarrow> string" where
  "unlines ls = concat (map (\<lambda>l. l @ LF) ls)"

lemma unlines_simps [simp]:
  "unlines [] = []" "unlines (l # ls) = l @ LF @ unlines ls" "unlines (a @ b) = unlines a @ unlines b"
  by (simp_all add: unlines_def)

lemma avio_print_Some [simp]: "avio_print (Some s) t = Some (s @ t)"
  by (simp add: avio_print_def)

text \<open>A line that is read as it was written.\<close>

definition line_ok :: "string \<Rightarrow> bool" where
  "line_ok l \<longleftrightarrow> (\<forall>c \<in> set l. \<not> line_end c) \<and> length l < LINE_BUFFER_SIZE - 1 \<and> (l = [] \<or> \<not> av_isspace (last l))"

lemma get_line_ok:
  assumes "line_ok l"
  shows "ff_get_chomp_line (l @ LF @ s) LINE_BUFFER_SIZE = (l, s)"
proof -
  have nl: "line_end (CHR 0x0A)" "av_isspace (CHR 0x0A)" by (simp_all add: line_end_def av_isspace_def)
  have t: "takeWhile (\<lambda>c. \<not> line_end c) (l @ LF @ s) = l"
    using assms nl by (auto simp: line_ok_def takeWhile_append2)
  have "dropWhile av_isspace (rev l) = rev l"
    using assms by (cases l rule: rev_cases) (simp_all add: line_ok_def)
  then have "rev (dropWhile av_isspace (rev (l @ LF))) = l" using nl by simp
  moreover have "take (LINE_BUFFER_SIZE - 1) (l @ LF) = l @ LF" using assms by (auto simp: line_ok_def)
  moreover have "CHR 0x0A \<noteq> CHR 0x00 \<and> CHR 0x0A \<noteq> CHR 0x0D" by simp
  ultimately show ?thesis
    unfolding ff_get_chomp_line_def ff_get_line_def t Let_def by (simp del: take_append rev_append)
qed

lemma playlist_lines_unlines: "\<forall>l \<in> set ls. line_ok l \<Longrightarrow> playlist_lines (unlines ls) = ls"
proof (induction ls)
  case Nil
  then show ?case by (simp add: playlist_lines.simps)
next
  case (Cons l ls)
  have "l @ LF @ unlines ls \<noteq> []" by simp
  then show ?case
    using Cons get_line_ok [of l "unlines ls"] by (subst playlist_lines.simps) simp
qed

lemma parse_lines_append:
  "0 \<le> r \<Longrightarrow> parse_lines fl io_open h tp (a @ b) r st =
     (let (r', st') = parse_lines fl io_open h tp a r st in if r' < 0 then (r', st') else parse_lines fl io_open h tp b r' st')"
  by (induction a arbitrary: r st) (auto simp: Let_def split: prod.splits)

subsection \<open>Lemmas: what the writer writes\<close>

definition duration_text :: "('f, 'd) float_ops \<Rightarrow> HLSContext \<Rightarrow> 'd \<Rightarrow> string" where
  "duration_text fl hls d = (if HLS_ROUND_DURATIONS \<in> flags hls then show_int (db_lrint fl d) else db_show fl d)"

definition entry_lines :: "('f, 'd) float_ops \<Rightarrow> HLSContext \<Rightarrow> 'd HLSSegment \<Rightarrow> string list" where
  "entry_lines fl hls en =
     (if discont en then [''#EXT-X-DISCONTINUITY''] else []) @
     [''#EXTINF:'' @ duration_text fl hls (duration en) @ '','', filename en]"

definition header_lines :: "HLSContext \<Rightarrow> int \<Rightarrow> int \<Rightarrow> string list" where
  "header_lines hls target media_sequence =
     [''#EXT-X-VERSION:'' @ show_int (version hls)] @
     (if allowcache hls = 0 \<or> allowcache hls = 1
      then [''#EXT-X-ALLOW-CACHE:'' @ (if allowcache hls = 0 then ''NO'' else ''YES'')] else []) @
     [''#EXT-X-TARGETDURATION:'' @ show_int target, ''#EXT-X-MEDIA-SEQUENCE:'' @ show_int media_sequence] @
     (if pl_type hls = PLAYLIST_TYPE_EVENT then [''#EXT-X-PLAYLIST-TYPE:EVENT'']
      else if pl_type hls = PLAYLIST_TYPE_VOD then [''#EXT-X-PLAYLIST-TYPE:VOD''] else []) @
     (if HLS_I_FRAMES_ONLY \<in> flags hls then [''#EXT-X-I-FRAMES-ONLY''] else [])"

definition end_lines :: "HLSContext \<Rightarrow> bool \<Rightarrow> string list" where
  "end_lines hls is_last = (if is_last \<and> HLS_OMIT_ENDLIST \<notin> flags hls then [''#EXT-X-ENDLIST''] else [])"

text \<open>The plain case: no encryption, MPEG-TS segments in files of their own, no dates, no base URL.\<close>

definition plain_output :: "HLSContext \<Rightarrow> 'd VariantStream \<Rightarrow> bool" where
  "plain_output hls vs \<longleftrightarrow> \<not> encrypt hls \<and> \<not> key_info_file hls \<and> \<not> segment_fmp4 hls \<and> \<not> byterange_mode hls \<and>
     HLS_PROGRAM_DATE_TIME \<notin> flags hls \<and> HLS_DISCONT_START \<notin> flags hls \<and> baseurl vs = None"

lemma header_text:
  "ff_hls_write_playlist_header (Some []) (version hls) (allowcache hls) target media_sequence (pl_type hls)
     (HLS_I_FRAMES_ONLY \<in> flags hls) = Some (unlines (''#EXTM3U'' # header_lines hls target media_sequence))"
  by (simp add: ff_hls_write_playlist_header_def ff_hls_write_playlist_version_def header_lines_def Let_def)

lemma window_entries_text:
  "plain_output hls vs \<Longrightarrow>
   window_entries fl hls vs is_first None None 0 (Some s) segs = (0, Some (s @ unlines (concat (map (entry_lines fl hls) segs))))"
  by (induction segs arbitrary: s is_first)
     (simp_all add: plain_output_def write_key_line_def ff_hls_write_file_entry_def entry_lines_def duration_text_def Let_def)

lemma window_text_plain:
  assumes "plain_output hls vs"
  shows "window_text fl hls vs is_last 0 =
    (0, Some (unlines (''#EXTM3U'' #
          header_lines hls (playlist_target_duration fl (segments vs)) (window_sequence hls vs) @
          (if has_video vs \<and> HLS_INDEPENDENT_SEGMENTS \<in> flags hls then [''#EXT-X-INDEPENDENT-SEGMENTS''] else []) @
          concat (map (entry_lines fl hls) (segments vs)) @ end_lines hls is_last)),
     vs\<lparr>discontinuity_set := False\<rparr>)"
proof -
  have p: "plain_output hls (vs\<lparr>discontinuity_set := False\<rparr>)" and "HLS_PROGRAM_DATE_TIME \<notin> flags hls" "HLS_DISCONT_START \<notin> flags hls"
    using assms by (simp_all add: plain_output_def)
  moreover have "window_sequence hls (vs\<lparr>discontinuity_set := False\<rparr>) = window_sequence hls vs"
    by (simp add: window_sequence_def)
  ultimately show ?thesis
    unfolding window_text_def Let_def
    by (simp add: header_text window_entries_text [OF p] ff_hls_write_end_list_def end_lines_def)
qed

subsection \<open>Lemmas: what the parser makes of it\<close>

lemma parse_plain_comment:
  assumes "line = CHR ''#'' # r" "av_strstart line ''#EXT-X-MEDIA-SEQUENCE:'' = None"
    "av_strstart line ''#EXT-X-DISCONTINUITY'' = None" "av_strstart line ''#EXTINF:'' = None"
    "av_stristart line ''#EXT-X-KEY:'' = None"
  shows "parse_line fl io_open h tp line st = (0, st)"
  unfolding parse_line_def assms(2-5) by (simp add: assms(1))

lemma toupper_literals [simp]:
  "av_toupper CHR ''#'' = CHR ''#''" "av_toupper CHR ''E'' = CHR ''E''" "av_toupper CHR ''X'' = CHR ''X''"
  "av_toupper CHR ''T'' = CHR ''T''" "av_toupper CHR ''-'' = CHR ''-''" "av_toupper CHR ''K'' = CHR ''K''"
  "av_toupper CHR ''Y'' = CHR ''Y''" "av_toupper CHR '':'' = CHR '':''" "av_toupper CHR ''M'' = CHR ''M''"
  "av_toupper CHR ''H'' = CHR ''H''" "av_toupper CHR ''O'' = CHR ''O''" "av_toupper CHR ''D'' = CHR ''D''"
  "av_toupper CHR ''='' = CHR ''=''" "av_toupper CHR ''A'' = CHR ''A''" "av_toupper CHR ''S'' = CHR ''S''"
  "av_toupper CHR ''1'' = CHR ''1''" "av_toupper CHR ''2'' = CHR ''2''" "av_toupper CHR ''8'' = CHR ''8''"
  "av_toupper CHR '','' = CHR '',''" "av_toupper CHR ''U'' = CHR ''U''" "av_toupper CHR ''R'' = CHR ''R''"
  "av_toupper CHR ''I'' = CHR ''I''" "av_toupper CHR ''V'' = CHR ''V''" "av_toupper CHR ''0'' = CHR ''0''"
  "av_toupper CHR ''N'' = CHR ''N''" "av_toupper CHR ''x'' = CHR ''X''"
  "av_toupper (CHR 0x22) = CHR 0x22"
  by code_simp+

lemma parse_comments:
  assumes "l \<in> {''#EXT-X-VERSION:'' @ v, ''#EXT-X-ALLOW-CACHE:'' @ v, ''#EXT-X-TARGETDURATION:'' @ v, ''#EXT-X-PLAYLIST-TYPE:'' @ v,
     ''#EXT-X-I-FRAMES-ONLY'', ''#EXT-X-INDEPENDENT-SEGMENTS'', ''#EXT-X-ENDLIST''}"
  shows "parse_line fl io_open h tp l st = (0, st)"
  using assms by (auto intro!: parse_plain_comment)

text \<open>A file name that survives the round trip: one line, no comment, no directory part.\<close>

definition name_ok :: "string \<Rightarrow> bool" where
  "name_ok f \<longleftrightarrow> f \<noteq> [] \<and> hd f \<noteq> CHR ''#'' \<and> CHR ''/'' \<notin> set f \<and> line_ok f"

text \<open>Only letters change under \<open>av_toupper\<close>.\<close>

lemma toupper_low:
  assumes low: "of_char k < (64 :: nat)" and u: "av_toupper c = k"
  shows "c = k"
proof (rule ccontr)
  assume n: "c \<noteq> k"
  define m :: nat where "m = of_char c"
  have lo: "CHR ''a'' \<le> c" and e: "char_of (m XOR 0x20) = k"
    using u n by (auto simp: av_toupper_def m_def split: if_splits)
  have "take_bit 8 (m XOR 0x20) = m XOR 0x20"
    using nat_of_char_less_256 [of c] by (simp add: m_def take_bit_xor take_bit_nat_eq_self)
  moreover have "take_bit 8 (m XOR 0x20) = (of_char k :: nat)"
    using arg_cong [OF e, of "of_char :: char \<Rightarrow> nat"] by (simp add: take_bit_eq_mod of_char_of)
  ultimately have "(m XOR 0x20) XOR 0x20 = of_char k XOR (0x20 :: nat)" by simp
  then have "m = of_char k XOR (0x20 :: nat)" by (simp add: xor.assoc)
  moreover have "of_char k XOR (0x20 :: nat) = take_bit 6 (of_char k XOR 0x20)"
    using low by (simp add: take_bit_xor take_bit_nat_eq_self)
  moreover have "take_bit 6 (of_char k XOR 0x20) < (64 :: nat)" by (simp add: take_bit_eq_mod)
  ultimately have "m < 64" by linarith
  then show False using lo by (simp add: less_eq_char_def m_def)
qed

lemma name_not_comment:
  "name_ok f \<Longrightarrow> av_strstart f (CHR ''#'' # r) = None" "name_ok f \<Longrightarrow> av_stristart f ''#EXT-X-KEY:'' = None"
proof -
  assume "name_ok f"
  then obtain c s where f: "f = c # s" "c \<noteq> CHR ''#''" by (cases f) (simp_all add: name_ok_def)
  then show "av_strstart f (CHR ''#'' # r) = None" by simp
  show "av_stristart f ''#EXT-X-KEY:'' = None" using f toupper_low [of "CHR ''#''" c] by auto
qed

lemma new_segment_name:
  "name_ok f \<Longrightarrow> avf_url vs = f \<Longrightarrow> filename (new_segment hls vs dur p sz) = f"
  "discont (new_segment hls vs dur p sz) = discontinuity vs" "duration (new_segment hls vs dur p sz) = dur"
  by (auto simp: new_segment_def Let_def name_ok_def line_ok_def av_strlcpy_value av_basename_plain)

lemma parse_discontinuity:
  "parse_line fl io_open h tp ''#EXT-X-DISCONTINUITY'' st =
     (0, st\<lparr>is_segment := True, ps_vs := (ps_vs st)\<lparr>discontinuity := True\<rparr>\<rparr>)"
  by (simp add: parse_line_def)

lemma parse_extinf:
  "parse_line fl io_open h tp (''#EXTINF:'' @ x) st =
     (0, st\<lparr>is_segment := True, ps_vs := (ps_vs st)\<lparr>last_duration := db_atof fl x\<rparr>\<rparr>)"
  by (simp add: parse_line_def)

text \<open>What the segments read back have in common with those written.\<close>

definition seg_key :: "'d HLSSegment \<Rightarrow> string \<times> bool \<times> 'd" where
  "seg_key en = (filename en, discont en, duration en)"

definition read_key :: "('f, 'd) float_ops \<Rightarrow> HLSContext \<Rightarrow> 'd HLSSegment \<Rightarrow> string \<times> bool \<times> 'd" where
  "read_key fl hls en = (filename en, discont en, db_atof fl (duration_text fl hls (duration en) @ '',''))"

lemma parse_file_line:
  assumes "name_ok f" "is_segment st" "sls_off (ps_hls st)"
    "seg_limit (ps_hls st) = 0 \<or> nb_entries (ps_vs st) < seg_limit (ps_hls st)"
  obtains st' where "parse_line fl io_open h tp f st = (0, st')" "same_context (ps_hls st) (ps_hls st')" "\<not> is_segment st'"
    "map seg_key (segments (ps_vs st')) =
       map seg_key (segments (ps_vs st)) @ [(f, discontinuity (ps_vs st), last_duration (ps_vs st))]"
    "nb_entries (ps_vs st') = nb_entries (ps_vs st) + 1" "old_segments (ps_vs st') = old_segments (ps_vs st)"
    "\<not> discontinuity (ps_vs st')" "ps_events st' = ps_events st"
    "sequence (ps_vs st') = sequence (ps_vs st) + (if max_seg_size (ps_hls st) > 0 then 0 else 1)"
proof -
  define hls where "hls = ps_hls st"
  define vs where "vs = (ps_vs st)\<lparr>avf_url := f, last_size := tp - start_pos (ps_vs st)\<rparr>"
  define en where "en = new_segment hls vs (last_duration vs) (start_pos vs) (last_size vs)"
  have key: "seg_key en = (f, discontinuity (ps_vs st), last_duration (ps_vs st))"
    using new_segment_name(1) [OF assms(1), of vs hls] by (simp add: seg_key_def en_def new_segment_name(2,3)) (simp add: vs_def)
  have room: "seg_limit hls = 0 \<or> nb_entries vs < seg_limit hls" and sls: "sls_off hls"
    using assms(3,4) by (simp_all add: hls_def vs_def)
  obtain vs' where app: "hls_append_segment fl io_open h hls vs (last_duration vs) (start_pos vs) (last_size vs) =
       (0, if pl_type hls \<noteq> PLAYLIST_TYPE_NONE then hls\<lparr>max_nb_segments := 0\<rparr> else hls, vs', [])"
    and v: "segments vs' = segments vs @ [en]" "nb_entries vs' = nb_entries vs + 1"
    "old_segments vs' = old_segments vs" "\<not> discontinuity vs'"
    "sequence vs' = sequence vs + (if max_seg_size hls > 0 then 0 else 1)"
    unfolding en_def by (rule append_room [OF sls room])
  define st' where "st' = st\<lparr>ps_hls := (if pl_type hls \<noteq> PLAYLIST_TYPE_NONE then hls\<lparr>max_nb_segments := 0\<rparr> else hls),
      is_segment := False, ps_vs := vs'\<lparr>start_pos := tp\<rparr>\<rparr>"
  have "f \<noteq> []" using assms(1) by (simp add: name_ok_def)
  then have "parse_line fl io_open h tp f st = (0, st')"
    using assms(2) app
    unfolding parse_line_def by (simp add: name_not_comment [OF assms(1)] Let_def vs_def hls_def st'_def)
  moreover have "same_context (ps_hls st) (ps_hls st')" by (simp add: st'_def same_context_def hls_def)
  ultimately show ?thesis
    by (rule that) (use v key in \<open>simp_all add: st'_def vs_def hls_def\<close>)
qed

lemma parse_entry:
  assumes "name_ok (filename en)" "sls_off (ps_hls st)" "\<not> discontinuity (ps_vs st)"
    "seg_limit (ps_hls st) = 0 \<or> nb_entries (ps_vs st) < seg_limit (ps_hls st)"
  obtains st' where "parse_lines fl io_open h tp (entry_lines fl wh en) 0 st = (0, st')" "same_context (ps_hls st) (ps_hls st')"
    "map seg_key (segments (ps_vs st')) = map seg_key (segments (ps_vs st)) @ [read_key fl wh en]"
    "nb_entries (ps_vs st') = nb_entries (ps_vs st) + 1" "old_segments (ps_vs st') = old_segments (ps_vs st)"
    "\<not> discontinuity (ps_vs st')" "ps_events st' = ps_events st"
    "sequence (ps_vs st') = sequence (ps_vs st) + (if max_seg_size (ps_hls st) > 0 then 0 else 1)"
proof -
  define st1 where "st1 = st\<lparr>is_segment := True, ps_vs := (ps_vs st)\<lparr>discontinuity := discont en,
      last_duration := db_atof fl (duration_text fl wh (duration en) @ '','')\<rparr>\<rparr>"
  have s: "is_segment st1" "ps_hls st1 = ps_hls st" "segments (ps_vs st1) = segments (ps_vs st)"
    "nb_entries (ps_vs st1) = nb_entries (ps_vs st)" "old_segments (ps_vs st1) = old_segments (ps_vs st)"
    "ps_events st1 = ps_events st" "sequence (ps_vs st1) = sequence (ps_vs st)" "discontinuity (ps_vs st1) = discont en"
    "last_duration (ps_vs st1) = db_atof fl (duration_text fl wh (duration en) @ '','')"
    by (simp_all add: st1_def)
  obtain st' where st': "parse_line fl io_open h tp (filename en) st1 = (0, st')" "same_context (ps_hls st1) (ps_hls st')"
    "map seg_key (segments (ps_vs st')) = map seg_key (segments (ps_vs st1)) @ [(filename en, discontinuity (ps_vs st1), last_duration (ps_vs st1))]"
    "nb_entries (ps_vs st') = nb_entries (ps_vs st1) + 1" "old_segments (ps_vs st') = old_segments (ps_vs st1)"
    "\<not> discontinuity (ps_vs st')" "ps_events st' = ps_events st1"
    "sequence (ps_vs st') = sequence (ps_vs st1) + (if max_seg_size (ps_hls st1) > 0 then 0 else 1)"
    by (rule parse_file_line [OF assms(1) s(1)]) (use assms(2,4) s(2,4) in simp_all)
  have c: "st1 = st\<lparr>is_segment := True, ps_vs := (ps_vs st)\<lparr>last_duration :=
      db_atof fl (duration_text fl wh (duration en) @ '','')\<rparr>\<rparr>" if "\<not> discont en"
    using that assms(3) by (cases "ps_vs st") (simp add: st1_def)
  have "parse_lines fl io_open h tp (entry_lines fl wh en) 0 st = parse_lines fl io_open h tp [filename en] 0 st1"
  proof (cases "discont en")
    case True
    then show ?thesis
      by (simp add: entry_lines_def st1_def Let_def parse_extinf [simplified] parse_discontinuity)
  next
    case False
    then show ?thesis
      by (simp add: entry_lines_def c Let_def parse_extinf [simplified])
  qed
  then have "parse_lines fl io_open h tp (entry_lines fl wh en) 0 st = (0, st')" using st'(1) by simp
  then show ?thesis by (rule that) (use st' in \<open>simp_all add: s read_key_def\<close>)
qed

lemma parse_entries:
  assumes "\<forall>en \<in> set segs. name_ok (filename en)" "sls_off (ps_hls st)" "\<not> discontinuity (ps_vs st)"
    "seg_limit (ps_hls st) = 0 \<or> nb_entries (ps_vs st) + int (length segs) \<le> seg_limit (ps_hls st)"
  shows "\<exists>st'. parse_lines fl io_open h tp (concat (map (entry_lines fl wh) segs)) 0 st = (0, st') \<and>
    map seg_key (segments (ps_vs st')) = map seg_key (segments (ps_vs st)) @ map (read_key fl wh) segs \<and>
    nb_entries (ps_vs st') = nb_entries (ps_vs st) + int (length segs) \<and>
    old_segments (ps_vs st') = old_segments (ps_vs st) \<and> ps_events st' = ps_events st \<and>
    sequence (ps_vs st') = sequence (ps_vs st) + (if max_seg_size (ps_hls st) > 0 then 0 else int (length segs))"
  using assms
proof (induction segs arbitrary: st)
  case Nil
  then show ?case by simp
next
  case (Cons en segs)
  obtain st1 where st1: "parse_lines fl io_open h tp (entry_lines fl wh en) 0 st = (0, st1)" "same_context (ps_hls st) (ps_hls st1)"
    "map seg_key (segments (ps_vs st1)) = map seg_key (segments (ps_vs st)) @ [read_key fl wh en]"
    "nb_entries (ps_vs st1) = nb_entries (ps_vs st) + 1" "old_segments (ps_vs st1) = old_segments (ps_vs st)"
    "\<not> discontinuity (ps_vs st1)" "ps_events st1 = ps_events st"
    "sequence (ps_vs st1) = sequence (ps_vs st) + (if max_seg_size (ps_hls st) > 0 then 0 else 1)"
    by (rule parse_entry [of en st fl io_open h tp wh]) (use Cons.prems in auto)
  note S = same_context_sls [OF st1(2)] same_context_sizes [OF st1(2)]
  obtain st' where "parse_lines fl io_open h tp (concat (map (entry_lines fl wh) segs)) 0 st1 = (0, st')"
    "map seg_key (segments (ps_vs st')) = map seg_key (segments (ps_vs st1)) @ map (read_key fl wh) segs"
    "nb_entries (ps_vs st') = nb_entries (ps_vs st1) + int (length segs)"
    "old_segments (ps_vs st') = old_segments (ps_vs st1)" "ps_events st' = ps_events st1"
    "sequence (ps_vs st') = sequence (ps_vs st1) + (if max_seg_size (ps_hls st1) > 0 then 0 else int (length segs))"
    using Cons.IH [of st1] Cons.prems st1(4,6) S by auto
  then show ?case
    using st1 by (intro exI [of _ st']) (simp add: parse_lines_append S(3))
qed

lemma digit_plain: "d < 10 \<Longrightarrow> \<not> line_end (digit d) \<and> \<not> av_isspace (digit d)"
proof -
  assume "d < 10"
  then have "d = 0 \<or> d = 1 \<or> d = 2 \<or> d = 3 \<or> d = 4 \<or> d = 5 \<or> d = 6 \<or> d = 7 \<or> d = 8 \<or> d = 9" by auto
  then show ?thesis by (elim disjE) (simp_all add: digit_def line_end_def av_isspace_def)
qed

lemma line_ok_number:
  assumes "\<forall>c \<in> set p. \<not> line_end c" "length p \<le> 100" "int64 i"
  shows "line_ok (p @ show_int i)"
proof -
  have "\<not> line_end c" if "c \<in> set (show_int i)" for c
    using show_int_chars [OF that] digit_plain by (auto simp: line_end_def)
  moreover have "\<not> av_isspace (last (show_int i))" "show_int i \<noteq> []" using show_int_last [of i] digit_plain by auto
  ultimately show ?thesis
    using assms show_int_length [OF assms(3)] by (auto simp: line_ok_def)
qed

lemma line_ok_literals:
  "line_ok ''#EXTM3U''" "line_ok ''#EXT-X-DISCONTINUITY''" "line_ok ''#EXT-X-INDEPENDENT-SEGMENTS''" "line_ok ''#EXT-X-ENDLIST''"
  "line_ok ''#EXT-X-I-FRAMES-ONLY''" "line_ok ''#EXT-X-PLAYLIST-TYPE:EVENT''" "line_ok ''#EXT-X-PLAYLIST-TYPE:VOD''"
  "line_ok ''#EXT-X-ALLOW-CACHE:NO''" "line_ok ''#EXT-X-ALLOW-CACHE:YES''"
  by (simp_all add: line_ok_def line_end_def av_isspace_def)

lemma header_lines_ok:
  assumes "int64 (version hls)" "int64 target" "int64 s" "l \<in> set (header_lines hls target s)"
  shows "line_ok l"
proof -
  have n: "line_ok (''#EXT-X-VERSION:'' @ show_int (version hls))" "line_ok (''#EXT-X-TARGETDURATION:'' @ show_int target)"
    "line_ok (''#EXT-X-MEDIA-SEQUENCE:'' @ show_int s)"
    using assms(1-3) by (intro line_ok_number; simp add: line_end_def)+
  show ?thesis
    using assms(4) n line_ok_literals unfolding header_lines_def by (auto split: if_splits)
qed

lemma parse_only_comments:
  "\<forall>l \<in> set ls. \<forall>st. parse_line fl io_open h tp l st = (0, st) \<Longrightarrow> parse_lines fl io_open h tp ls 0 st = (0, st)"
  by (induction ls) simp_all

lemma parse_media_sequence:
  "int64 s \<Longrightarrow> sequence (ps_vs st) \<le> s \<Longrightarrow>
   parse_line fl io_open h tp (''#EXT-X-MEDIA-SEQUENCE:'' @ show_int s) st = (0, st\<lparr>ps_vs := (ps_vs st)\<lparr>sequence := s\<rparr>\<rparr>)"
  unfolding parse_line_def using strtoll10_show_int [of "[]" s] by simp

lemma parse_header:
  assumes "int64 s" "sequence (ps_vs st) \<le> s"
  shows "parse_lines fl io_open h tp (header_lines hls target s) 0 st = (0, st\<lparr>ps_vs := (ps_vs st)\<lparr>sequence := s\<rparr>\<rparr>)"
proof -
  define pre where "pre = [''#EXT-X-VERSION:'' @ show_int (version hls)] @
     (if allowcache hls = 0 \<or> allowcache hls = 1
      then [''#EXT-X-ALLOW-CACHE:'' @ (if allowcache hls = 0 then ''NO'' else ''YES'')] else []) @
     [''#EXT-X-TARGETDURATION:'' @ show_int target]"
  define post where "post =
     (if pl_type hls = PLAYLIST_TYPE_EVENT then [''#EXT-X-PLAYLIST-TYPE:EVENT'']
      else if pl_type hls = PLAYLIST_TYPE_VOD then [''#EXT-X-PLAYLIST-TYPE:VOD''] else []) @
     (if HLS_I_FRAMES_ONLY \<in> flags hls then [''#EXT-X-I-FRAMES-ONLY''] else [])"
  have h: "header_lines hls target s = pre @ [''#EXT-X-MEDIA-SEQUENCE:'' @ show_int s] @ post"
    by (simp add: header_lines_def pre_def post_def)
  have "\<forall>l \<in> set (pre @ post). \<forall>st. parse_line fl io_open h tp l st = (0, st)"
    by (auto simp: pre_def post_def intro!: parse_plain_comment)
  then have c: "parse_lines fl io_open h tp pre 0 st = (0, st)" "parse_lines fl io_open h tp post 0 st = (0, st)" for st
    by (auto intro!: parse_only_comments)
  have "parse_lines fl io_open h tp [''#EXT-X-MEDIA-SEQUENCE:'' @ show_int s] 0 st = (0, st\<lparr>ps_vs := (ps_vs st)\<lparr>sequence := s\<rparr>\<rparr>)"
    unfolding parse_lines.simps parse_media_sequence [OF assms] Let_def by simp
  then show ?thesis
    unfolding h by (simp only: parse_lines_append order_refl c Let_def prod.case less_irrefl if_False)
qed

lemma hls_window_written:
  assumes "hls_window fl io_open proto hls vs is_last = (ret, hls1, vs1, ev)" "WriteFile f t \<in> set ev" "vtt_m3u8_name vs = None"
  obtains vs' where "window_text fl (hls\<lparr>version := window_version hls\<rparr>) vs is_last (io_open f) = (ret, Some t, vs')" "vs' = vs1"
proof -
  define tf where "tf = (proto (m3u8_name vs) = Some ''file'' \<and> (HLS_TEMP_FILE \<in> flags hls \<or> pl_type hls \<noteq> PLAYLIST_TYPE_VOD))"
  define h1 where "h1 = hls\<lparr>version := window_version hls\<rparr>"
  define n where "n = temp_name tf (m3u8_name vs)"
  obtain r out vs' where w: "window_text fl h1 vs is_last (io_open n) = (r, out, vs')" by (metis prod_cases3)
  have win: "hls_window fl io_open proto hls vs is_last =
      (let renames = (if tf then [RenameFile (Some n) (m3u8_name vs)] else [])
       in if io_open n < 0 then (if ignore_io_errors hls then 0 else io_open n, h1, vs, renames)
          else (r, h1, vs', (case out of None \<Rightarrow> [] | Some t \<Rightarrow> [WriteFile n t]) @ renames))"
    unfolding hls_window_def Let_def tf_def [symmetric] h1_def [symmetric] n_def [symmetric] w prod.case
    using assms(3) by (simp add: h1_def window_text_def Let_def split_beta) (use w in \<open>auto simp: window_text_def Let_def split_beta h1_def split: if_splits\<close>)
  have "ret = r \<and> vs1 = vs' \<and> out = Some t \<and> n = f"
    using assms(1,2) unfolding win by (auto simp: Let_def split: if_splits option.splits)
  then show ?thesis using that w by (simp add: h1_def)
qed

text \<open>The lines of a plain playlist after the first, and what the parser does with them.\<close>

definition plain_lines :: "('f, 'd) float_ops \<Rightarrow> HLSContext \<Rightarrow> 'd VariantStream \<Rightarrow> bool \<Rightarrow> string list" where
  "plain_lines fl hls vs is_last =
     header_lines hls (playlist_target_duration fl (segments vs)) (window_sequence hls vs) @
     (if has_video vs \<and> HLS_INDEPENDENT_SEGMENTS \<in> flags hls then [''#EXT-X-INDEPENDENT-SEGMENTS''] else []) @
     concat (map (entry_lines fl hls) (segments vs)) @ end_lines hls is_last"

definition entry_ok :: "('f, 'd) float_ops \<Rightarrow> HLSContext \<Rightarrow> 'd HLSSegment \<Rightarrow> bool" where
  "entry_ok fl hls en \<longleftrightarrow> name_ok (filename en) \<and> line_ok (''#EXTINF:'' @ duration_text fl hls (duration en) @ '','')"

lemma plain_lines_ok:
  assumes "int64 (version hls)" "int64 (window_sequence hls vs)" "int64 (playlist_target_duration fl (segments vs))"
    "\<forall>en \<in> set (segments vs). entry_ok fl hls en" "l \<in> set (plain_lines fl hls vs is_last)"
  shows "line_ok l"
proof -
  have "\<forall>l \<in> set (header_lines hls (playlist_target_duration fl (segments vs)) (window_sequence hls vs)). line_ok l"
    using assms(1-3) header_lines_ok by blast
  moreover have "\<forall>l \<in> set (concat (map (entry_lines fl hls) (segments vs))). line_ok l"
    using assms(4) line_ok_literals by (auto simp: entry_lines_def entry_ok_def name_ok_def split: if_splits)
  ultimately show ?thesis
    using assms(5) line_ok_literals by (auto simp: plain_lines_def end_lines_def split: if_splits)
qed

lemma parse_plain_lines:
  assumes "int64 (window_sequence hls vs)" "\<forall>en \<in> set (segments vs). name_ok (filename en)" "sls_off (ps_hls st)"
    "\<not> discontinuity (ps_vs st)" "sequence (ps_vs st) \<le> window_sequence hls vs"
    "seg_limit (ps_hls st) = 0 \<or> nb_entries (ps_vs st) + int (length (segments vs)) \<le> seg_limit (ps_hls st)"
  shows "\<exists>st'. parse_lines fl io_open h tp (plain_lines fl hls vs is_last) 0 st = (0, st') \<and>
    map seg_key (segments (ps_vs st')) = map seg_key (segments (ps_vs st)) @ map (read_key fl hls) (segments vs) \<and>
    nb_entries (ps_vs st') = nb_entries (ps_vs st) + int (length (segments vs)) \<and>
    old_segments (ps_vs st') = old_segments (ps_vs st) \<and> ps_events st' = ps_events st \<and>
    sequence (ps_vs st') = window_sequence hls vs + (if max_seg_size (ps_hls st) > 0 then 0 else int (length (segments vs)))"
proof -
  define st1 where "st1 = st\<lparr>ps_vs := (ps_vs st)\<lparr>sequence := window_sequence hls vs\<rparr>\<rparr>"
  have comments: "parse_lines fl io_open h tp (if b then [''#EXT-X-INDEPENDENT-SEGMENTS''] else []) 0 s = (0, s)"
    "parse_lines fl io_open h tp (end_lines hls is_last) 0 s = (0, s)" for b s
    by (intro parse_only_comments; auto simp: end_lines_def intro!: parse_plain_comment split: if_splits)+
  obtain st2 where e: "parse_lines fl io_open h tp (concat (map (entry_lines fl hls) (segments vs))) 0 st1 = (0, st2)"
    and s2: "map seg_key (segments (ps_vs st2)) = map seg_key (segments (ps_vs st1)) @ map (read_key fl hls) (segments vs)"
      "nb_entries (ps_vs st2) = nb_entries (ps_vs st1) + int (length (segments vs))"
      "old_segments (ps_vs st2) = old_segments (ps_vs st1)" "ps_events st2 = ps_events st1"
      "sequence (ps_vs st2) = sequence (ps_vs st1) + (if max_seg_size (ps_hls st1) > 0 then 0 else int (length (segments vs)))"
    using parse_entries [of "segments vs" st1 fl io_open h tp hls] assms by (auto simp: st1_def)
  have "parse_lines fl io_open h tp (plain_lines fl hls vs is_last) 0 st = (0, st2)"
    unfolding plain_lines_def
    by (simp only: parse_lines_append order_refl parse_header [OF assms(1,5)] st1_def [symmetric] comments e Let_def
        prod.case less_irrefl if_False)
  then show ?thesis using s2 by (intro exI [of _ st2]) (simp add: st1_def)
qed

subsection \<open>Properties\<close>

text \<open>C5. Reading back a playlist that \<open>hls_window\<close> wrote restores the list: the file names, the
  discontinuity marks, the durations as printed, and the sequence number of the next segment.\<close>

theorem hls_playlist_roundtrip:
  assumes "hls_window fl io_open proto hls vs is_last = (ret, hls1, vs1, ev)" "WriteFile f content \<in> set ev"
    "plain_output hls vs" "vtt_m3u8_name vs = None" "io_open f = 0"
    "int64 (window_sequence hls vs)" "int64 (playlist_target_duration fl (segments vs))"
    "\<forall>en \<in> set (segments vs). entry_ok fl hls en"
    "fresh_stream vs0" "sequence vs0 \<le> window_sequence hls vs" "sls_off hls"
    "seg_limit hls = 0 \<or> int (length (segments vs)) \<le> seg_limit hls"
  shows "\<exists>hls2 vs2. parse_playlist fl io2 h tp (Inr content) hls vs0 = (0, hls2, vs2, []) \<and>
    map seg_key (segments vs2) = map (read_key fl hls) (segments vs) \<and>
    nb_entries vs2 = int (length (segments vs)) \<and> old_segments vs2 = [] \<and>
    sequence vs2 = window_sequence hls vs + int (length (segments vs))"
proof -
  define h1 where "h1 = hls\<lparr>version := window_version hls\<rparr>"
  define lines where "lines = plain_lines fl h1 vs is_last"
  define st0 where "st0 = \<lparr>ps_hls = hls, ps_vs = vs0\<lparr>discontinuity := False\<rparr>, is_segment = False, ps_events = []\<rparr>"
  have same: "plain_output h1 vs" "window_sequence h1 vs = window_sequence hls vs" "entry_ok fl h1 = entry_ok fl hls"
    "read_key fl h1 = read_key fl hls" and noseg: "max_seg_size hls \<le> 0"
    using assms(3) by (auto simp: h1_def plain_output_def window_sequence_def byterange_mode_def entry_ok_def read_key_def
        duration_text_def fun_eq_iff)
  obtain vs' where w: "window_text fl h1 vs is_last 0 = (ret, Some content, vs')"
    using hls_window_written [OF assms(1,2,4)] assms(5) unfolding h1_def by auto
  have content: "content = ''#EXTM3U'' @ LF @ unlines lines"
    using w unfolding window_text_plain [OF same(1)] lines_def plain_lines_def by simp
  have "int64 (version h1)" by (simp add: h1_def window_version_def int64_def)
  then have "\<forall>l \<in> set lines. line_ok l"
    using plain_lines_ok [of h1 vs fl] assms(6-8) by (auto simp: lines_def same)
  then have read: "ff_get_chomp_line content LINE_BUFFER_SIZE = (''#EXTM3U'', unlines lines)" "playlist_lines (unlines lines) = lines"
    using get_line_ok [OF line_ok_literals(1)] playlist_lines_unlines unfolding content by blast+
  obtain st2 where p: "parse_lines fl io2 h tp lines 0 st0 = (0, st2)"
    and s2: "map seg_key (segments (ps_vs st2)) = map (read_key fl hls) (segments vs)"
      "nb_entries (ps_vs st2) = int (length (segments vs))" "old_segments (ps_vs st2) = []" "ps_events st2 = []"
      "sequence (ps_vs st2) = window_sequence hls vs + int (length (segments vs))"
    using parse_plain_lines [of h1 vs st0 fl io2 h tp is_last] assms(6,8-12) noseg
    unfolding same lines_def by (auto simp: st0_def fresh_stream_def entry_ok_def)
  have "parse_playlist fl io2 h tp (Inr content) hls vs0 = (0, ps_hls st2, ps_vs st2, [])"
    using s2(4) p by (simp add: parse_playlist_def read st0_def)
  then show ?thesis using s2 by blast
qed

definition demo_seg :: "string \<Rightarrow> bool \<Rightarrow> int HLSSegment" where
  "demo_seg f disc = \<lparr>filename = f, sub_filename = [], duration = 2500000, discont = disc, pos = 0, seg_size = 9,
     keyframe_pos = 0, keyframe_size = 0, seg_var_stream_idx = 0, seg_key_uri = [], seg_iv_string = []\<rparr>"

definition demo_window :: "int VariantStream" where
  "demo_window = demo_vs\<lparr>sequence := 8, nb_entries := 1, segments := [demo_seg ''s7.ts'' True]\<rparr>"

theorem hls_playlist_roundtrip_witness:
  "\<exists>content hls2 vs2. hls_window micro_ops (\<lambda>_. 0) (\<lambda>_. Some ''file'') demo_hls demo_window True =
      (0, demo_hls, demo_window, [WriteFile ''out/o.m3u8.tmp'' content, RenameFile (Some ''out/o.m3u8.tmp'') ''out/o.m3u8'']) \<and>
    parse_playlist micro_ops (\<lambda>_. 0) False 0 (Inr content) demo_hls demo_vs = (0, hls2, vs2, []) \<and>
    map seg_key (segments vs2) = [(''s7.ts'', True, 2500000)] \<and> sequence vs2 = 8"
proof -
  have plain: "plain_output demo_hls demo_window"
    by (simp add: plain_output_def demo_hls_def demo_window_def demo_vs_def byterange_mode_def)
  define content where "content = unlines (''#EXTM3U'' # plain_lines micro_ops demo_hls demo_window True)"
  have v: "demo_hls\<lparr>version := window_version demo_hls\<rparr> = demo_hls" "demo_window\<lparr>discontinuity_set := False\<rparr> = demo_window"
    "m3u8_name demo_window = ''out/o.m3u8''" "pl_type demo_hls = 0" "vtt_m3u8_name demo_window = None"
    by (simp_all add: demo_hls_def demo_window_def demo_vs_def window_version_def byterange_mode_def)
  have win: "hls_window micro_ops (\<lambda>_. 0) (\<lambda>_. Some ''file'') demo_hls demo_window True =
      (0, demo_hls, demo_window, [WriteFile ''out/o.m3u8.tmp'' content, RenameFile (Some ''out/o.m3u8.tmp'') ''out/o.m3u8''])"
    by (simp add: hls_window_def Let_def v window_text_plain [OF plain] content_def plain_lines_def temp_name_def)
  have s: "window_sequence demo_hls demo_window = 7" "playlist_target_duration micro_ops (segments demo_window) = 2"
    by (simp_all add: window_sequence_def byterange_mode_def demo_hls_def demo_window_def demo_vs_def
        playlist_target_duration_def micro_ops_def micro_lrint_def demo_seg_def s32_def Let_def)
  have ms: "micro_show 2500000 = ''2.500000''" "micro_atof (''2.500000'' @ '','') = 2500000"
    by (simp_all add: micro_show_def pad6_def show_nat.simps digit_def micro_atof_def av_isdigit_def digit_value_def
        less_eq_char_def av_isspace_def Let_def)
  have ok: "\<forall>en \<in> set (segments demo_window). entry_ok micro_ops demo_hls en"
    by (simp add: demo_window_def demo_vs_def demo_seg_def entry_ok_def name_ok_def line_ok_def line_end_def av_isspace_def
        duration_text_def demo_hls_def micro_ops_def ms)
  have fresh: "fresh_stream demo_vs" "sequence demo_vs \<le> window_sequence demo_hls demo_window" "sls_off demo_hls"
    "seg_limit demo_hls = 0 \<or> int (length (segments demo_window)) \<le> seg_limit demo_hls"
    unfolding s by (simp_all add: fresh_stream_def demo_vs_def demo_window_def demo_hls_def sls_off_def seg_limit_def)
  obtain hls2 vs2 where "parse_playlist micro_ops (\<lambda>_. 0) False 0 (Inr content) demo_hls demo_vs = (0, hls2, vs2, [])"
    "map seg_key (segments vs2) = map (read_key micro_ops demo_hls) (segments demo_window)"
    "sequence vs2 = window_sequence demo_hls demo_window + int (length (segments demo_window))"
    using hls_playlist_roundtrip [OF win _ plain v(5) _ _ _ ok fresh, of "''out/o.m3u8.tmp''" content "\<lambda>_. 0" False 0]
    by (auto simp: s int64_def)
  moreover have "map (read_key micro_ops demo_hls) (segments demo_window) = [(''s7.ts'', True, 2500000)]"
    using ms by (simp add: demo_window_def demo_vs_def demo_seg_def read_key_def duration_text_def demo_hls_def micro_ops_def)
  moreover have "length (segments demo_window) = 1" by (simp add: demo_window_def)
  ultimately show ?thesis using win s(1) by auto
qed

text \<open>What \<open>lrint\<close> and the comparison of an \<open>int\<close> with a \<open>double\<close> guarantee.\<close>

definition rint_laws :: "('f, 'd) float_ops \<Rightarrow> bool" where
  "rint_laws fl \<longleftrightarrow> (\<forall>n d. if db_le fl n d then n \<le> db_lrint fl d else db_lrint fl d \<le> n)"

lemma target_duration_step:
  assumes "rint_laws fl" "\<forall>en \<in> set segs. int32 (db_lrint fl (duration en))"
  defines "step \<equiv> \<lambda>en target. if db_le fl target (duration en) then s32 (db_lrint fl (duration en)) else target"
  shows "fold step segs t = fold (\<lambda>en. max (db_lrint fl (duration en))) segs t"
  using assms(2)
proof (induction segs arbitrary: t)
  case Nil
  then show ?case by simp
next
  case (Cons en segs)
  have "if db_le fl t (duration en) then t \<le> db_lrint fl (duration en) else db_lrint fl (duration en) \<le> t"
    using assms(1) unfolding rint_laws_def by blast
  then have "step en t = max (db_lrint fl (duration en)) t"
    using Cons.prems s32_id [of "db_lrint fl (duration en)"]
    by (auto simp: step_def int32_def max_def split: if_splits)
  then show ?case using Cons by simp
qed

lemma fold_max_bounds:
  "t \<le> fold (\<lambda>x. max (g x)) xs (t :: int) \<and> (\<forall>x \<in> set xs. g x \<le> fold (\<lambda>x. max (g x)) xs t) \<and>
   (fold (\<lambda>x. max (g x)) xs t = t \<or> (\<exists>x \<in> set xs. fold (\<lambda>x. max (g x)) xs t = g x))"
proof (induction xs arbitrary: t)
  case Nil
  then show ?case by simp
next
  case (Cons x xs)
  show ?case using Cons [of "max (g x) t"] by (auto simp: max_def split: if_splits)
qed

text \<open>C7. The target duration of a playlist is the largest rounded duration of the listed segments (or zero),
  as the format asks: no listed duration rounds to more, and it is reached.\<close>

theorem hls_target_duration:
  assumes "rint_laws fl" "\<forall>en \<in> set (segments vs). int32 (db_lrint fl (duration en))"
  defines "target \<equiv> playlist_target_duration fl (segments vs)"
  shows "0 \<le> target \<and> (\<forall>en \<in> set (segments vs). db_lrint fl (duration en) \<le> target) \<and>
    (target = 0 \<or> (\<exists>en \<in> set (segments vs). target = db_lrint fl (duration en)))"
  using fold_max_bounds [of 0 "\<lambda>en. db_lrint fl (duration en)" "segments vs"]
  unfolding target_def playlist_target_duration_def target_duration_step [OF assms(1,2)] .

theorem hls_target_duration_witness:
  "2 \<le> playlist_target_duration micro_ops (segments demo_window) \<and> db_lrint micro_ops 2500000 = 2"
proof -
  have r: "rint_laws micro_ops"
  proof -
    have "if n * 1000000 \<le> d then n \<le> micro_lrint d else micro_lrint d \<le> n" for n d
    proof (cases "n * 1000000 \<le> d")
      case True
      then have "n \<le> d div 1000000" by (simp add: le_div_int)
      then show ?thesis using True by (auto simp: micro_lrint_def Let_def)
    next
      case False
      then have "d div 1000000 < n" by (simp add: div_less_int)
      then show ?thesis using False by (auto simp: micro_lrint_def Let_def)
    qed
    then show ?thesis by (simp add: rint_laws_def micro_ops_def)
  qed
  have l: "db_lrint micro_ops 2500000 = 2" by (simp add: micro_ops_def micro_lrint_def Let_def)
  have s: "segments demo_window = [demo_seg ''s7.ts'' True]" by (simp add: demo_window_def)
  have d: "duration (demo_seg ''s7.ts'' True) = 2500000" by (simp add: demo_seg_def)
  show ?thesis using hls_target_duration [OF r, of demo_window] by (simp add: s d l int32_def)
qed

subsection \<open>Key lines\<close>

lemma stristr_here: "av_stristart s p \<noteq> None \<Longrightarrow> av_stristr s p = Some s"
  by (subst av_stristr.simps) (simp split: if_splits)

lemma stristr_skip: "p \<noteq> [] \<Longrightarrow> av_stristart (c # s) p = None \<Longrightarrow> av_stristr (c # s) p = av_stristr s p"
  by (subst av_stristr.simps) simp

lemma stristr_comma: "CHR '','' \<notin> set u \<Longrightarrow> av_stristr (u @ r) '','' = av_stristr r '',''"
proof (induction u)
  case (Cons c u)
  have "av_toupper CHR '','' = CHR '',''" by code_simp
  then have "av_stristart (c # u @ r) '','' = None" using Cons toupper_low [of "CHR '',''" c] by auto
  then show ?case using Cons by (simp add: stristr_skip)
qed simp

lemma stristr_iv:
  "CHR ''='' \<notin> set u \<Longrightarrow> av_stristr (u @ QUOTE @ r) ''IV=0x'' = av_stristr r ''IV=0x''"
proof (induction u)
  case Nil
  have "av_toupper (CHR 0x22) \<noteq> av_toupper CHR ''I''" by code_simp
  then show ?case by (simp add: stristr_skip)
next
  case (Cons c u)
  have e: "av_toupper CHR ''='' = CHR ''=''" "av_toupper (CHR 0x22) = CHR 0x22" "av_toupper CHR ''V'' = CHR ''V''" by code_simp+
  have "\<forall>x \<in> set u. CHR ''='' \<noteq> av_toupper x"
  proof (intro ballI notI)
    fix x assume x: "x \<in> set u" "CHR ''='' = av_toupper x"
    have "x = CHR ''=''" by (rule toupper_low [OF _ x(2) [symmetric]]) simp
    then show False using x(1) Cons.prems by simp
  qed
  then have "av_stristart (c # u @ QUOTE @ r) ''IV=0x'' = None"
    by (cases u; cases "tl u") (auto simp: e split: if_splits)
  then show ?case using Cons by (simp add: stristr_skip)
qed

lemma stristr_key_prefix:
  "av_stristr (''#EXT-X-KEY:METHOD=AES-128,URI='' @ QUOTE @ s) (''URI='' @ QUOTE) = Some (''URI='' @ QUOTE @ s)"
  "av_stristr (''#EXT-X-KEY:METHOD=AES-128,URI='' @ QUOTE @ s) ''IV=0x'' = av_stristr s ''IV=0x''"
  by (simp_all add: stristr_skip stristr_here)

text \<open>C8. A key line as \<open>hls_window\<close> writes it is read back when it carries an initialisation vector;
  without one the closing quote becomes part of the key URI, because the URI is then copied to the end of the
  line, and the vector of the previous key is kept.\<close>

theorem parse_key_line_uri:
  assumes "CHR '','' \<notin> set uri" "CHR ''='' \<notin> set uri" "length uri < LINE_BUFFER_SIZE" "CHR '','' \<notin> set iv" "length iv \<le> KEYSIZE * 2"
  defines "line \<equiv> ''#EXT-X-KEY:METHOD=AES-128,URI='' @ QUOTE @ uri @ QUOTE"
  shows "parse_key_line hls (line @ '',IV=0x'' @ iv) = hls\<lparr>key_uri := uri, iv_string := iv\<rparr> \<and>
    parse_key_line hls line = hls\<lparr>key_uri := uri @ QUOTE\<rparr>"
proof -
  have c: "av_stristr (uri @ QUOTE @ '','' @ r) '','' = Some ('','' @ r)" "av_stristr (uri @ QUOTE) '','' = None"
    "av_stristr iv '','' = None" for r
    using stristr_comma [OF assms(1)] stristr_comma [OF assms(4), of "[]"]
    by (simp_all add: stristr_skip stristr_here) (simp_all add: av_stristr.simps)
  have v: "av_stristr (uri @ QUOTE @ '',IV=0x'' @ iv) ''IV=0x'' = Some (''IV=0x'' @ iv)" "av_stristr (uri @ QUOTE) ''IV=0x'' = None"
    using stristr_iv [OF assms(2)] stristr_iv [OF assms(2), of "[]"]
    by (simp_all add: stristr_skip stristr_here) (simp_all add: av_stristr.simps)
  have "parse_key_line hls (line @ '',IV=0x'' @ iv) = hls\<lparr>key_uri := uri, iv_string := iv\<rparr>"
    using c(1) [of "''IV=0x'' @ iv"] c(3) v(1) assms(3,5) stristr_key_prefix [of "uri @ QUOTE @ '',IV=0x'' @ iv"]
    by (simp add: parse_key_line_def line_def copy_attribute_def av_strlcpy_value)
  moreover have "parse_key_line hls line = hls\<lparr>key_uri := uri @ QUOTE\<rparr>"
    using c(2) v(2) assms(3) stristr_key_prefix [of "uri @ QUOTE"]
    by (simp add: parse_key_line_def line_def copy_attribute_def av_strlcpy_value)
  ultimately show ?thesis ..
qed

theorem parse_key_line_uri_witness:
  "key_uri (parse_key_line demo_hls (''#EXT-X-KEY:METHOD=AES-128,URI='' @ QUOTE @ ''http://h/k'' @ QUOTE)) = ''http://h/k'' @ QUOTE \<and>
   key_uri (parse_key_line demo_hls (''#EXT-X-KEY:METHOD=AES-128,URI='' @ QUOTE @ ''http://h/k'' @ QUOTE @ '',IV=0x'' @ ''0a'')) = ''http://h/k''"
  using parse_key_line_uri [of "''http://h/k''" "''0a''" demo_hls] by simp

end
