(* ===== verification/HlsStart.thy ===== *)
theory HlsStart
  imports HlsWindow Bytes
begin

section \<open>Starting a segment: \<open>libavformat/hlsenc.c\<close>\<close>

text \<open>
  \<open>hls_start\<close>, with the naming of the new segment file and the set-up of encryption.  The world outside is a
  record \<open>hls_env\<close>: what opening files for writing, making directories and reading files gives, the protocol
  of a URL, the expansion of a template by the local time and the random key.  Everything written, opened,
  closed and renamed is a list of events.  The fields of a variant stream that only the packet loop uses are
  in \<open>packet_vs\<close> around the record \<open>VariantStream\<close>, those of the muxer in \<open>hls_muxer\<close> around \<open>HLSContext\<close>.
\<close>

abbreviation AVERROR_EINVAL :: int where "AVERROR_EINVAL \<equiv> - 22"
abbreviation AVERROR_ENOMEM :: int where "AVERROR_ENOMEM \<equiv> - 12"
abbreviation AVERROR_PATCHWELCOME :: int where "AVERROR_PATCHWELCOME \<equiv> - 1163346256"

record 'd packet_vs =
  vst :: "'d VariantStream"
  streams :: "nat list"
  number :: int
  packets_written :: int
  new_start :: bool
  dpp :: 'd
  start_pts :: int
  end_pts :: int
  video_lastpos :: int
  reference_stream_index :: nat
  seg_template :: string
  vtt_template :: "string option"
  avf_pb :: bool
  vtt_pb :: bool
  out_open :: bool

record hls_muxer =
  hctx :: HLSContext
  s_url :: string
  recording_time :: int
  time_us :: int
  init_time_positive :: bool
  use_localtime :: bool
  http_persistent :: bool
  encrypt_started :: bool
  key_info_url :: string
  key_url :: "string option"
  enc_key :: "byte list option"
  enc_iv :: "byte list option"
  key_file :: string
  key_string :: string
  key_basename :: string

record hls_env =
  find_protocol :: "string \<Rightarrow> string option"
  url_is_http :: bool
  open_write :: "string \<Rightarrow> int"
  new_request :: "string \<Rightarrow> int"
  read_text :: "string \<Rightarrow> int \<times> string"
  read_bytes :: "string \<Rightarrow> int \<times> int \<times> byte list"
  mkdir_p :: "string \<Rightarrow> int"
  local_name :: "string \<Rightarrow> string option"
  random_key :: "int \<times> byte list"
  write_vtt_header :: int

datatype hls_event =
    Flush
  | OpenFile string
  | OpenCrypto string string string
  | CloseFile string
  | ShutdownRequest string
  | CloseOut
  | WriteKey string "byte list"
  | MakeDir string
  | Rename string string
  | ResendHeaders
  | WriteInit int
  | WriteStyp
  | WriteFragment int
  | SegmentIo io_event
  | WindowIo window_io
  | WriteFrame nat nat
  | WriteTrailer

subsection \<open>Opening and closing\<close>

definition ff_is_http_proto :: "hls_env \<Rightarrow> string \<Rightarrow> bool" where
  "ff_is_http_proto env f =
     (case find_protocol env f of None \<Rightarrow> False
      | Some proto \<Rightarrow> av_strcasecmp proto ''http'' = 0 \<or> av_strcasecmp proto ''https'' = 0)"

text \<open>The result, whether the file is open afterwards, and the events; \<open>pb\<close> says whether one is open before.\<close>

definition hlsenc_io_open :: "hls_env \<Rightarrow> hls_muxer \<Rightarrow> bool \<Rightarrow> string \<Rightarrow> int \<times> bool \<times> hls_event list" where
  "hlsenc_io_open env m pb f =
     (if \<not> pb \<or> \<not> ff_is_http_proto env f \<or> \<not> http_persistent m
      then let err = open_write env f in (err, err \<ge> 0, [OpenFile f])
      else let err = new_request env f in (err, err \<ge> 0, [OpenFile f]))"

definition hlsenc_io_close :: "hls_env \<Rightarrow> hls_muxer \<Rightarrow> bool \<Rightarrow> string \<Rightarrow> bool \<times> hls_event list" where
  "hlsenc_io_close env m pb f =
     (if \<not> pb then (False, [])
      else if \<not> ff_is_http_proto env f \<or> \<not> http_persistent m \<or> key_info_file (hctx m) \<or> encrypt (hctx m)
      then (False, [CloseFile f])
      else (True, [ShutdownRequest f]))"

text \<open>Is the file of this URL written under a temporary name?\<close>

definition temp_file :: "hls_env \<Rightarrow> hls_muxer \<Rightarrow> string \<Rightarrow> bool" where
  "temp_file env m f \<longleftrightarrow> find_protocol env f = Some ''file'' \<and> HLS_TEMP_FILE \<in> flags (hctx m)"

subsection \<open>Encryption\<close>

definition hex_table_uc :: string where "hex_table_uc = ''0123456789ABCDEF''"
definition hex_table_lc :: string where "hex_table_lc = ''0123456789abcdef''"

definition ff_data_to_hex :: "byte list \<Rightarrow> bool \<Rightarrow> string" where
  "ff_data_to_hex src lowercase =
     (let hex_table = (if lowercase then hex_table_lc else hex_table_uc)
      in concat (map (\<lambda>b. [hex_table ! unat (drop_bit 4 b), hex_table ! unat (b AND 0xF)]) src))"

text \<open>The first part of \<open>do_encrypt\<close> chooses the names and the initialisation vector, the second writes the key.\<close>

definition key_names :: "hls_muxer \<Rightarrow> 'd packet_vs \<Rightarrow> hls_muxer" where
  "key_names m v =
     (let base = s_url m @ ''.key'';
          name = fst (av_strlcpy [] (case key_url m of Some u \<Rightarrow> u | None \<Rightarrow> base) (LINE_BUFFER_SIZE + 1));
          iv = (case enc_iv m of None \<Rightarrow> replicate 8 0 @ AV_WB64 (word_of_int (sequence (vst v))) | Some iv \<Rightarrow> take 16 iv)
      in m\<lparr>key_basename := base, key_file := name,
           hctx := hctx m\<lparr>key_uri := name,
             iv_string := if iv_string (hctx m) = [] then ff_data_to_hex iv False else iv_string (hctx m)\<rparr>\<rparr>)"

definition write_key :: "hls_env \<Rightarrow> hls_muxer \<Rightarrow> int \<times> hls_muxer \<times> hls_event list" where
  "write_key env m =
     (let (ret, key) = (case enc_key m of None \<Rightarrow> random_key env | Some k \<Rightarrow> (0, take 16 k))
      in if ret < 0 then (ret, m, [])
         else
           let r = open_write env (key_file m)
           in if r < 0 then (r, m\<lparr>key_string := ff_data_to_hex key False\<rparr>, [OpenFile (key_file m)])
              else (0, m\<lparr>key_string := ff_data_to_hex key False\<rparr>,
                    [OpenFile (key_file m), WriteKey (key_file m) key, CloseFile (key_file m)]))"

definition do_encrypt :: "hls_env \<Rightarrow> hls_muxer \<Rightarrow> 'd packet_vs \<Rightarrow> int \<times> hls_muxer \<times> hls_event list" where
  "do_encrypt env m v =
     (let m = key_names m v
      in if key_uri (hctx m) = [] then (AVERROR_EINVAL, m, [])
         else if key_file m = [] then (AVERROR_EINVAL, m, [])
         else if key_string m = [] then write_key env m
         else (0, m, []))"

text \<open>A line of the key info file without its end.\<close>

definition info_line :: "string \<Rightarrow> nat \<Rightarrow> string \<times> string" where
  "info_line s sz =
     (let (l, r) = ff_get_line s sz in (takeWhile (\<lambda>c. c \<noteq> CHR 0x0D \<and> c \<noteq> CHR 0x0A) l, r))"

definition hls_encryption_start :: "hls_env \<Rightarrow> hls_muxer \<Rightarrow> int \<times> hls_muxer \<times> hls_event list" where
  "hls_encryption_start env m =
     (let (ret, txt1) = read_text env (key_info_url m)
      in if ret < 0 then (ret, m, [])
         else
           let (uri, r) = info_line txt1 (LINE_BUFFER_SIZE + 1);
               (file, r) = info_line r (LINE_BUFFER_SIZE + 1);
               (iv, r) = info_line r (KEYSIZE * 2 + 1);
               m = m\<lparr>key_file := file, hctx := hctx m\<lparr>key_uri := uri, iv_string := iv\<rparr>\<rparr>
           in if key_uri (hctx m) = [] then (AVERROR_EINVAL, m, [])
              else if key_file m = [] then (AVERROR_EINVAL, m, [])
              else
                let (ret, n, key) = read_bytes env (key_file m)
                in if ret < 0 then (ret, m, [])
                   else if n \<noteq> int KEYSIZE then (if n \<ge> 0 \<or> n = AVERROR_EOF then AVERROR_EINVAL else n, m, [])
                   else (0, m\<lparr>key_string := ff_data_to_hex key False\<rparr>, []))"

subsection \<open>Naming the segment\<close>

text \<open>The number that goes into a segment's name.\<close>

definition wrapped_sequence :: "hls_muxer \<Rightarrow> 'd packet_vs \<Rightarrow> int" where
  "wrapped_sequence m v =
     (if wrap (hctx m) \<noteq> 0 then sequence (vst v) smod wrap (hctx m) else sequence (vst v))"

abbreviation set_avf_url :: "string \<Rightarrow> 'd packet_vs \<Rightarrow> 'd packet_vs" where
  "set_avf_url u v \<equiv> v\<lparr>vst := vst v\<lparr>avf_url := u\<rparr>\<rparr>"

abbreviation set_vtt_url :: "string \<Rightarrow> 'd packet_vs \<Rightarrow> 'd packet_vs" where
  "set_vtt_url u v \<equiv> v\<lparr>vst := vst v\<lparr>vtt_url := u\<rparr>\<rparr>"

text \<open>One template: the number goes for the placeholder, or the template is refused.\<close>

definition fill_template :: "string \<Rightarrow> char \<Rightarrow> int \<Rightarrow> string option" where
  "fill_template template placeholder n =
     (let (name, found) = replace_int_data_in_filename template placeholder n
      in if found < 1 then None else Some name)"

definition sls_flag_use_localtime_filename :: "hls_muxer \<Rightarrow> 'd packet_vs \<Rightarrow> int \<times> 'd packet_vs" where
  "sls_flag_use_localtime_filename m v =
     (let fl = flags (hctx m);
          step = (\<lambda>flag c n (err, v). if err < 0 \<or> flag \<notin> fl then (err, v)
             else case fill_template (avf_url (vst v)) c n of None \<Rightarrow> (AVERROR_EINVAL, v) | Some u \<Rightarrow> (err, set_avf_url u v));
          (err, v) = step HLS_SECOND_LEVEL_SEGMENT_INDEX CHR ''d'' (wrapped_sequence m v) (0, v)
      in if err < 0 then (err, v)
         else if HLS_SECOND_LEVEL_SEGMENT_SIZE \<in> fl \<or> HLS_SECOND_LEVEL_SEGMENT_DURATION \<in> fl
         then
           let v = v\<lparr>vst := vst v\<lparr>current_segment_final_filename_fmt := fst (av_strlcpy [] (avf_url (vst v)) MAX_URL_SIZE)\<rparr>\<rparr>
           in step HLS_SECOND_LEVEL_SEGMENT_DURATION CHR ''t'' 0
                (step HLS_SECOND_LEVEL_SEGMENT_SIZE CHR ''s'' 0 (0, v))
         else (0, v))"

text \<open>The first part of \<open>hls_start\<close>: the names of the segment files.\<close>

definition segment_names :: "hls_env \<Rightarrow> hls_muxer \<Rightarrow> 'd packet_vs \<Rightarrow> int \<times> 'd packet_vs \<times> hls_event list" where
  "segment_names env m v =
     (let c = hctx m
      in if HLS_SINGLE_FILE \<in> flags c
         then (0, (case vtt_template v of None \<Rightarrow> set_avf_url (seg_template v) v
                   | Some t \<Rightarrow> set_vtt_url t (set_avf_url (seg_template v) v)), [])
         else if max_seg_size c > 0
         then (case fill_template (seg_template v) CHR ''d'' (wrapped_sequence m v) of
                 None \<Rightarrow> (AVERROR_EINVAL, v, []) | Some u \<Rightarrow> (0, set_avf_url u v, []))
         else
           let (err, v, ev) =
                 (if use_localtime m
                  then case local_name env (seg_template v) of
                         None \<Rightarrow> (AVERROR_EINVAL, set_avf_url [] v, [])
                       | Some u \<Rightarrow>
                           let (err, v) = sls_flag_use_localtime_filename m (set_avf_url u v)
                           in if err < 0 then (AVERROR_ENOMEM, v, [])
                              else if use_localtime_mkdir c
                              then let dir = av_dirname (avf_url (vst v)); r = mkdir_p env dir
                                   in (if r < 0 \<and> r \<noteq> - 17 then r else 0, v, [MakeDir dir])
                              else (0, v, [])
                  else case fill_template (seg_template v) CHR ''d'' (wrapped_sequence m v) of
                         None \<Rightarrow> (AVERROR_EINVAL, v, []) | Some u \<Rightarrow> (0, set_avf_url u v, []))
           in if err < 0 then (err, v, ev)
              else case vtt_template v of
                     None \<Rightarrow> (0, v, ev)
                   | Some t \<Rightarrow>
                       (case fill_template t CHR ''d'' (wrapped_sequence m v) of
                          None \<Rightarrow> (AVERROR_EINVAL, v, ev) | Some u \<Rightarrow> (0, set_vtt_url u v, ev)))"

subsection \<open>Opening it\<close>

text \<open>\<open>%032x\<close> of the sequence number as an unsigned 64-bit integer.\<close>

definition sequence_iv :: "int \<Rightarrow> string" where
  "sequence_iv n = ff_data_to_hex (replicate 8 0 @ AV_WB64 (word_of_int n)) True"

text \<open>The end of \<open>hls_start\<close>, after the segment file has been opened.\<close>

definition start_subtitles :: "hls_env \<Rightarrow> hls_muxer \<Rightarrow> 'd packet_vs \<Rightarrow> int \<times> 'd packet_vs \<times> hls_event list" where
  "start_subtitles env m v =
     (if vtt_template v = None
      then (0, v, if segment_fmp4 (hctx m) then [] else [ResendHeaders])
      else
        let (err, pb, ev) = hlsenc_io_open env m (vtt_pb v) (vtt_url (vst v));
            v = v\<lparr>vtt_pb := pb\<rparr>
        in if err < 0 then (if ignore_io_errors (hctx m) then 0 else err, v, ev)
           else
             let ev = (if segment_fmp4 (hctx m) then ev else ev @ [ResendHeaders])
             in if write_vtt_header env < 0 then (write_vtt_header env, v, ev) else (0, v, ev))"

definition start_encryption :: "hls_env \<Rightarrow> hls_muxer \<Rightarrow> 'd packet_vs \<Rightarrow> int \<times> hls_muxer \<times> hls_event list" where
  "start_encryption env m v =
     (if \<not> encrypt_started m \<or> HLS_PERIODIC_REKEY \<in> flags (hctx m)
      then
        let (err, m, ev) = (if key_info_file (hctx m) then hls_encryption_start env m else do_encrypt env m v)
        in if err < 0 then (err, m, ev) else (0, m\<lparr>encrypt_started := True\<rparr>, ev)
      else (0, m, []))"

text \<open>The middle of \<open>hls_start\<close>: encryption and opening.\<close>

definition open_segment :: "hls_env \<Rightarrow> hls_muxer \<Rightarrow> 'd packet_vs \<Rightarrow> int \<times> hls_muxer \<times> 'd packet_vs \<times> hls_event list" where
  "open_segment env m v =
     (if key_info_file (hctx m) \<or> encrypt (hctx m)
      then if segment_fmp4 (hctx m) then (AVERROR_PATCHWELCOME, m, v, [])
           else
             let (err, m, ev1) = start_encryption env m v
             in if err < 0 then (err, m, v, ev1)
                else
                  let iv = (if iv_string (hctx m) = [] then sequence_iv (sequence (vst v)) else iv_string (hctx m));
                      ev1 = ev1 @ [OpenCrypto (avf_url (vst v)) (key_string m) iv];
                      (err, pb, ev2) = hlsenc_io_open env m (avf_pb v) (''crypto:'' @ avf_url (vst v));
                      v = v\<lparr>avf_pb := pb\<rparr>
                  in if err < 0 then (err, m, v, ev1 @ ev2)
                     else let (err, v, ev3) = start_subtitles env m v in (err, m, v, ev1 @ ev2 @ ev3)
      else if \<not> segment_fmp4 (hctx m)
      then
        let (err, pb, ev1) = hlsenc_io_open env m (avf_pb v) (avf_url (vst v));
            v = v\<lparr>avf_pb := pb\<rparr>
        in if err < 0 then (if ignore_io_errors (hctx m) then 0 else err, m, v, ev1)
           else let (err, v, ev2) = start_subtitles env m v in (err, m, v, ev1 @ ev2)
      else let (err, v, ev1) = start_subtitles env m v in (err, m, v, ev1))"

definition hls_start :: "hls_env \<Rightarrow> hls_muxer \<Rightarrow> 'd packet_vs \<Rightarrow> int \<times> hls_muxer \<times> 'd packet_vs \<times> hls_event list" where
  "hls_start env m v =
     (let (err, v, ev) = segment_names env m v
      in if err < 0 then (err, m, v, ev)
         else
           let v = v\<lparr>number := u32 (number v + 1)\<rparr>;
               v = (if temp_file env m (avf_url (vst v)) then set_avf_url (avf_url (vst v) @ ''.tmp'') v else v);
               (err, m, v, ev1) = open_segment env m v
           in (err, m, v, ev @ ev1))"

end
