(* ===== verification/HlsPacket.thy ===== *)
theory HlsPacket
  imports HlsStart Mathematics
begin

section \<open>The packet loop: \<open>libavformat/hlsenc.c\<close>\<close>

text \<open>
  \<open>hls_write_packet\<close> and \<open>hls_write_trailer\<close>.  A packet goes to the variant stream that has its stream; it
  advances the duration of the running segment; at the first packet where a segment may begin and the time for
  it has come, the segment is finished (appended to the list, the playlist rewritten) and the next one is
  started.  What the inner muxer reports (positions in its output, sizes of its buffers, the result of writing)
  is a record \<open>packet_io\<close> that comes with each packet; durations are of the abstract type of \<open>float_ops\<close>, made
  from timestamps by a parameter record \<open>dur_ops\<close>.
\<close>

abbreviation AV_NOPTS :: int where "AV_NOPTS \<equiv> INT64_MIN"
abbreviation AV_TIME_BASE_Q :: AVRational where "AV_TIME_BASE_Q \<equiv> \<lparr>num = 1, den = 1000000\<rparr>"

datatype AVMediaType = AVMEDIA_TYPE_UNKNOWN | AVMEDIA_TYPE_VIDEO | AVMEDIA_TYPE_AUDIO | AVMEDIA_TYPE_DATA
  | AVMEDIA_TYPE_SUBTITLE | AVMEDIA_TYPE_ATTACHMENT | AVMEDIA_TYPE_NB

record AVStream =
  codec_type :: AVMediaType
  st_time_base :: AVRational

record AVPacket =
  stream_index :: nat
  pts :: int
  pkt_duration :: int
  key_frame :: bool

text \<open>\<open>(double)ticks * num / den\<close>, zero, and the lengths in microseconds computed from the float option
  \<open>init_time\<close> (of the first list, of a number of entries) and \<open>time\<close> (of a number of segments after it).\<close>

record 'd dur_ops =
  ticks :: "int \<Rightarrow> AVRational \<Rightarrow> 'd"
  zero_dur :: 'd
  init_list_dur :: "int \<Rightarrow> int"
  after_init_list_dur :: "int \<Rightarrow> int"

record packet_io =
  tell_flushed :: int
  init_len :: int
  dyn_open :: bool
  frag_ret :: int
  frag_len :: int
  write_ret :: int
  tell_written :: int

subsection \<open>Time\<close>

text \<open>When the running segment is due, in microseconds from the first packet.\<close>

definition segment_due :: "'d dur_ops \<Rightarrow> hls_muxer \<Rightarrow> 'd packet_vs \<Rightarrow> hls_muxer \<times> int" where
  "segment_due d m v =
     (if sequence (vst v) - nb_entries (vst v) > start_sequence (hctx m) \<and> init_time_positive m
      then (m\<lparr>recording_time := time_us m\<rparr>,
            s32 (init_list_dur d (nb_entries (vst v)) +
                 after_init_list_dur d (sequence (vst v) - start_sequence (hctx m) - nb_entries (vst v))))
      else (m, recording_time m * number v))"

abbreviation set_duration :: "'d \<Rightarrow> 'd packet_vs \<Rightarrow> 'd packet_vs" where
  "set_duration x v \<equiv> v\<lparr>vst := vst v\<lparr>last_duration := x\<rparr>\<rparr>"

text \<open>The start time, the duration so far, and whether a segment may begin with the packet.\<close>

definition note_packet :: "('f, 'd) float_ops \<Rightarrow> 'd dur_ops \<Rightarrow> hls_muxer \<Rightarrow> AVStream \<Rightarrow> AVPacket \<Rightarrow> 'd packet_vs \<Rightarrow>
    'd packet_vs \<times> bool" where
  "note_packet fl d m st pkt v =
     (let v = (if start_pts v = AV_NOPTS then v\<lparr>start_pts := pts pkt\<rparr> else v);
          video = (codec_type st = AVMEDIA_TYPE_VIDEO);
          can_split = (if has_video (vst v) then video \<and> (key_frame pkt \<or> HLS_SPLIT_BY_TIME \<in> flags (hctx m)) else True);
          is_ref_pkt = (if has_video (vst v) then video \<and> stream_index pkt = reference_stream_index v else True);
          (can_split, is_ref_pkt) = (if pts pkt = AV_NOPTS then (False, False) else (can_split, is_ref_pkt));
          v = (if is_ref_pkt
               then
                 let v = (if end_pts v = AV_NOPTS then v\<lparr>end_pts := pts pkt\<rparr> else v);
                     since_end = ticks d (pts pkt - end_pts v) (st_time_base st);
                     own = ticks d (pkt_duration pkt) (st_time_base st)
                 in if new_start v then (set_duration since_end v)\<lparr>new_start := False, dpp := own\<rparr>
                    else if pkt_duration pkt \<noteq> 0 then set_duration (db_add fl (last_duration (vst v)) own) v
                    else set_duration since_end v
               else v)
      in (v, can_split))"

subsection \<open>Finishing a segment\<close>

text \<open>The stream a packet is written to: the subtitle muxer for subtitles, the main one otherwise.\<close>

definition oc_url :: "bool \<Rightarrow> 'd packet_vs \<Rightarrow> string" where
  "oc_url sub v = (if sub then vtt_url (vst v) else avf_url (vst v))"

definition oc_pb :: "bool \<Rightarrow> 'd packet_vs \<Rightarrow> bool" where
  "oc_pb sub v = (if sub then vtt_pb v else avf_pb v)"

definition set_oc_pb :: "bool \<Rightarrow> bool \<Rightarrow> 'd packet_vs \<Rightarrow> 'd packet_vs" where
  "set_oc_pb sub pb v = (if sub then v\<lparr>vtt_pb := pb\<rparr> else v\<lparr>avf_pb := pb\<rparr>)"

definition hls_rename_temp_file :: "bool \<Rightarrow> 'd packet_vs \<Rightarrow> 'd packet_vs \<times> hls_event list" where
  "hls_rename_temp_file sub v =
     (let url = oc_url sub v; final = take (length url - 4) url
      in (if sub then set_vtt_url final v else set_avf_url final v, [Rename url final]))"

text \<open>The buffer of an fMP4 fragment is written out.\<close>

definition flush_dynbuf :: "packet_io \<Rightarrow> int \<times> int \<times> hls_event list" where
  "flush_dynbuf io =
     (if \<not> dyn_open io then (AVERROR_EINVAL, 0, []) else (frag_ret io, frag_len io, [Flush, WriteFragment (frag_len io)]))"

definition close_vtt :: "hls_env \<Rightarrow> hls_muxer \<Rightarrow> 'd packet_vs \<Rightarrow> 'd packet_vs \<times> hls_event list" where
  "close_vtt env m v =
     (if has_subtitle (vst v)
      then let (pb, ev) = hlsenc_io_close env m (vtt_pb v) (vtt_url (vst v)) in (v\<lparr>vtt_pb := pb\<rparr>, ev)
      else (v, []))"

text \<open>The initialisation section of an fMP4 stream is written once, before the first segment.\<close>

definition write_init_section :: "hls_muxer \<Rightarrow> packet_io \<Rightarrow> 'd packet_vs \<Rightarrow> 'd packet_vs \<times> hls_event list" where
  "write_init_section m io v =
     (if init_range_length (vst v) = 0
      then
        let v = v\<lparr>packets_written := 0,
                  vst := vst v\<lparr>init_range_length := init_len io, start_pos := init_len io\<rparr>\<rparr>
        in if byterange_mode (hctx m) then (v, [Flush, WriteInit (init_len io)])
           else (v\<lparr>out_open := False\<rparr>, [Flush, WriteInit (init_len io), CloseOut])
      else (v, []))"

text \<open>The output of the segment is completed: \<open>Inl\<close> is an early return.\<close>

type_synonym 'd hls_result = "int \<times> hls_muxer \<times> 'd packet_vs \<times> hls_event list"

definition complete_output :: "hls_env \<Rightarrow> hls_muxer \<Rightarrow> packet_io \<Rightarrow> bool \<Rightarrow> 'd packet_vs \<Rightarrow>
    'd hls_result + ('d packet_vs \<times> hls_event list)" where
  "complete_output env m io sub v =
     (let c = hctx m; fmp4 = segment_fmp4 c; byterange = byterange_mode c;
          new_start_pos = tell_flushed io;
          v = v\<lparr>vst := vst v\<lparr>last_size := if fmp4 then new_start_pos else new_start_pos - start_pos (vst v)\<rparr>\<rparr>;
          (v, ev1) = (if fmp4 then write_init_section m io v
                      else if byterange then (v, [])
                      else let (pb, ev) = hlsenc_io_close env m (oc_pb sub v) (oc_url sub v) in (set_oc_pb sub pb v, ev));
          (v, ev2) = (if byterange then (v, []) else close_vtt env m v);
          use_temp_file = (oc_url sub v \<noteq> [] \<and> temp_file env m (oc_url sub v));
          ev3 = (if use_temp_file \<and> (HLS_SINGLE_FILE \<notin> flags c \<or> max_seg_size c \<le> 0) \<and> \<not> fmp4 then [ResendHeaders] else []);
          ev = Flush # ev1 @ ev2 @ ev3;
          r = (if \<not> fmp4 then Inr (v, ev)
               else if HLS_SINGLE_FILE \<in> flags c
               then
                 let (ret, n, ev4) = flush_dynbuf io
                 in if ret < 0 then Inl (ret, m, v, ev @ ev4)
                    else Inr (v\<lparr>vst := vst v\<lparr>last_size := n\<rparr>\<rparr>, ev @ ev4)
               else
                 let (ret, pb, ev4) = hlsenc_io_open env m (out_open v) (avf_url (vst v));
                     v = v\<lparr>out_open := pb\<rparr>
                 in if ret < 0 then Inl (if ignore_io_errors c then 0 else ret, m, v, ev @ ev4)
                    else
                      let (ret, n, ev5) = flush_dynbuf io
                      in if ret < 0 then Inl (ret, m, v, ev @ ev4 @ [WriteStyp] @ ev5)
                         else Inr (v\<lparr>out_open := False\<rparr>, ev @ ev4 @ [WriteStyp] @ ev5 @ [CloseOut]))
      in case r of Inl e \<Rightarrow> Inl e
         | Inr (v, ev) \<Rightarrow>
             (if use_temp_file \<and> HLS_SINGLE_FILE \<notin> flags c
              then let (v, ev5) = hls_rename_temp_file sub v in Inr (v, ev @ ev5)
              else Inr (v, ev)))"

definition sls_flag_file_rename :: "hls_muxer \<Rightarrow> 'd packet_vs \<Rightarrow> string \<Rightarrow> hls_event list" where
  "sls_flag_file_rename m v old_filename =
     (if (HLS_SECOND_LEVEL_SEGMENT_SIZE \<in> flags (hctx m) \<or> HLS_SECOND_LEVEL_SEGMENT_DURATION \<in> flags (hctx m)) \<and>
         current_segment_final_filename_fmt (vst v) \<noteq> []
      then [Rename old_filename (avf_url (vst v))] else [])"

text \<open>The finished segment goes into the list with the duration \<open>dur\<close>.\<close>

definition append_segment :: "('f, 'd) float_ops \<Rightarrow> hls_env \<Rightarrow> hls_muxer \<Rightarrow> 'd \<Rightarrow> 'd packet_vs \<Rightarrow> 'd hls_result" where
  "append_segment fl env m dur v =
     (let (ret, c, vs, ev) = hls_append_segment fl (open_write env) (url_is_http env) (hctx m) (vst v) dur
            (start_pos (vst v)) (last_size (vst v))
      in (ret, m\<lparr>hctx := c\<rparr>, v\<lparr>vst := vs\<rparr>, map SegmentIo ev))"

text \<open>In the plain case the playlist is written through the file of the segment, which is closed by then; a connection
  stays open when it is persistent.  (For the playlists kept in files of their own, a request on a persistent
  connection is taken to succeed when opening the file does.)\<close>

definition write_window :: "('f, 'd) float_ops \<Rightarrow> hls_env \<Rightarrow> hls_muxer \<Rightarrow> bool \<Rightarrow> 'd packet_vs \<Rightarrow> 'd hls_result" where
  "write_window fl env m is_last v =
     (let (ret, c, vs, ev) = hls_window fl (open_write env) (find_protocol env) (hctx m) (vst v) is_last;
          f = temp_name False (m3u8_name (vst v));
          pb = (if byterange_mode (hctx m) \<or> segment_fmp4 (hctx m) then avf_pb v
                else open_write env f \<ge> 0 \<and> fst (hlsenc_io_close env m True f))
      in (ret, m\<lparr>hctx := c\<rparr>, v\<lparr>vst := vs, avf_pb := pb\<rparr>, map WindowIo ev))"

text \<open>The next segment: in one file, in the same file until it is full, or in a file of its own.\<close>

definition next_segment :: "hls_env \<Rightarrow> hls_muxer \<Rightarrow> string \<Rightarrow> 'd packet_vs \<Rightarrow> 'd hls_result" where
  "next_segment env m old_filename v =
     (if HLS_SINGLE_FILE \<in> flags (hctx m) then (0, m, v\<lparr>number := u32 (number v + 1)\<rparr>, [])
      else if max_seg_size (hctx m) > 0
      then
        if start_pos (vst v) \<ge> max_seg_size (hctx m)
        then
          let v = v\<lparr>vst := vst v\<lparr>sequence := sequence (vst v) + 1\<rparr>\<rparr>;
              ev = sls_flag_file_rename m v old_filename;
              (ret, m, v, ev2) = hls_start env m v;
              v = v\<lparr>vst := vst v\<lparr>start_pos := 0\<rparr>, number := u32 (number v - 1)\<rparr>
          in (ret, m, v\<lparr>number := u32 (number v + 1)\<rparr>, ev @ ev2)
        else (0, m, v\<lparr>number := u32 (number v + 1)\<rparr>, [])
      else
        let ev = sls_flag_file_rename m v old_filename;
            (ret, m, v, ev2) = hls_start env m v
        in (ret, m, v, ev @ ev2))"

text \<open>The body of the split: the segment before the packet is finished and the next one begun.\<close>

definition split_segment :: "('f, 'd) float_ops \<Rightarrow> 'd dur_ops \<Rightarrow> hls_env \<Rightarrow> hls_muxer \<Rightarrow> packet_io \<Rightarrow> bool \<Rightarrow> AVPacket \<Rightarrow>
    'd packet_vs \<Rightarrow> 'd hls_result + (hls_muxer \<times> 'd packet_vs \<times> hls_event list)" where
  "split_segment fl d env m io sub pkt v =
     (case complete_output env m io sub v of
        Inl r \<Rightarrow> Inl r
      | Inr (v, ev0) \<Rightarrow>
          let old_filename = avf_url (vst v);
              fmp4 = segment_fmp4 (hctx m);
              (ret, m, v, ev1) =
                (if start_pos (vst v) \<noteq> 0 \<or> \<not> fmp4
                 then
                   let (ret, m, v, ev) = append_segment fl env m (last_duration (vst v)) v
                   in (ret, m, set_duration (zero_dur d) (v\<lparr>end_pts := pts pkt\<rparr>), ev)
                 else (0, m, v, []))
          in if ret < 0 then Inl (ret, m, v, ev0 @ ev1)
             else
               let v = v\<lparr>vst := vst v\<lparr>start_pos := if fmp4 then start_pos (vst v) + last_size (vst v) else tell_flushed io\<rparr>\<rparr>;
                   (ret, m, v, ev2) = (if pl_type (hctx m) \<noteq> PLAYLIST_TYPE_VOD then write_window fl env m False v else (0, m, v, []))
               in if ret < 0 then Inl (ret, m, v, ev0 @ ev1 @ ev2)
                  else
                    let (ret, m, v, ev3) = next_segment env m old_filename v
                    in if ret < 0 then Inl (ret, m, v, ev0 @ ev1 @ ev2 @ ev3)
                       else Inr (m, v, ev0 @ ev1 @ ev2 @ ev3))"

subsection \<open>Writing a packet\<close>

text \<open>The end of \<open>hls_write_packet\<close>: the packet goes to the inner muxer.  The count of the packets is an \<open>int\<close>.\<close>

definition write_frame :: "hls_muxer \<Rightarrow> packet_io \<Rightarrow> AVStream \<Rightarrow> bool \<Rightarrow> nat \<Rightarrow> AVPacket \<Rightarrow> 'd packet_vs \<Rightarrow> 'd hls_result" where
  "write_frame m io st sub idx pkt v =
     (let v = v\<lparr>packets_written := s32 (packets_written v + 1)\<rparr>
      in if oc_pb sub v
         then
           let v = (if codec_type st = AVMEDIA_TYPE_VIDEO \<and> key_frame pkt
                    then v\<lparr>vst := vst v\<lparr>video_keyframe_size := tell_written io - video_lastpos v,
                                       video_keyframe_pos := start_pos (vst v)\<rparr>\<rparr>
                    else v\<lparr>video_lastpos := tell_written io\<rparr>)
           in (if ignore_io_errors (hctx m) then 0 else write_ret io, m, v, [WriteFrame idx (stream_index pkt)])
         else (0, m, v, []))"

definition write_to_variant :: "('f, 'd) float_ops \<Rightarrow> 'd dur_ops \<Rightarrow> hls_env \<Rightarrow> hls_muxer \<Rightarrow> packet_io \<Rightarrow> AVStream \<Rightarrow> nat \<Rightarrow>
    AVPacket \<Rightarrow> 'd packet_vs \<Rightarrow> 'd hls_result" where
  "write_to_variant fl d env m io st idx pkt v =
     (let sub = (codec_type st = AVMEDIA_TYPE_SUBTITLE);
          (m, due) = segment_due d m v;
          (v, can_split) = note_packet fl d m st pkt v;
          split = (packets_written v \<noteq> 0 \<and> can_split \<and>
                   av_compare_ts (pts pkt - start_pts v) (st_time_base st) due AV_TIME_BASE_Q \<ge> 0)
      in case (if split then split_segment fl d env m io sub pkt v else Inr (m, v, [])) of
           Inl r \<Rightarrow> r
         | Inr (m, v, ev) \<Rightarrow>
             let (ret, m, v, ev2) = write_frame m io st sub (if sub then 0 else idx) pkt v in (ret, m, v, ev @ ev2))"

text \<open>The variant that takes the stream, and the stream's index in it.\<close>

fun index_of :: "nat \<Rightarrow> nat list \<Rightarrow> nat option" where
  "index_of s [] = None"
| "index_of s (x # xs) = (if x = s then Some 0 else map_option Suc (index_of s xs))"

fun find_variant :: "AVStream \<Rightarrow> nat \<Rightarrow> 'd packet_vs list \<Rightarrow> (nat \<times> nat) option" where
  "find_variant st s [] = None"
| "find_variant st s (v # vs) =
     (case index_of s (streams v) of
        Some j \<Rightarrow>
          if codec_type st = AVMEDIA_TYPE_SUBTITLE \<and> \<not> has_subtitle (vst v)
          then map_option (\<lambda>(i, j). (Suc i, j)) (find_variant st s vs)
          else Some (0, j)
      | None \<Rightarrow> map_option (\<lambda>(i, j). (Suc i, j)) (find_variant st s vs))"

definition hls_write_packet :: "('f, 'd) float_ops \<Rightarrow> 'd dur_ops \<Rightarrow> hls_env \<Rightarrow> AVStream list \<Rightarrow> hls_muxer \<Rightarrow> packet_io \<Rightarrow>
    AVPacket \<Rightarrow> 'd packet_vs list \<Rightarrow> int \<times> hls_muxer \<times> 'd packet_vs list \<times> hls_event list" where
  "hls_write_packet fl d env sts m io pkt vs =
     (let st = sts ! stream_index pkt
      in case find_variant st (stream_index pkt) vs of
           None \<Rightarrow> (AVERROR_ENOMEM, m, vs, [])
         | Some (i, j) \<Rightarrow>
             let (ret, m, v, ev) = write_to_variant fl d env m io st j pkt (vs ! i)
             in (ret, m, vs[i := v], ev))"

subsection \<open>The trailer\<close>

text \<open>The last segment of a variant stream; the result of \<open>hls_write_trailer\<close> does not depend on it.\<close>

definition finish_fmp4 :: "hls_env \<Rightarrow> hls_muxer \<Rightarrow> packet_io \<Rightarrow> 'd packet_vs \<Rightarrow> 'd packet_vs \<times> hls_event list" where
  "finish_fmp4 env m io v =
     (let c = hctx m;
          (v, ev0) = (if init_range_length (vst v) = 0 then let (v, ev) = write_init_section m io v in (v, Flush # ev) else (v, []));
          (ret, v, ev1) = (if HLS_SINGLE_FILE \<in> flags c then (0, v, [])
                           else let (ret, pb, ev) = hlsenc_io_open env m (out_open v) (avf_url (vst v))
                                in (ret, v\<lparr>out_open := pb\<rparr>, if ret < 0 then ev else ev @ [WriteStyp]))
      in if ret < 0 then (v, ev0 @ ev1)
         else
           let (ret, n, ev2) = flush_dynbuf io
           in if ret < 0 then (v, ev0 @ ev1 @ ev2)
              else (v\<lparr>vst := vst v\<lparr>last_size := n\<rparr>, out_open := False\<rparr>, ev0 @ ev1 @ ev2 @ [CloseOut]))"

definition hls_write_trailer :: "('f, 'd) float_ops \<Rightarrow> hls_env \<Rightarrow> hls_muxer \<Rightarrow> packet_io \<Rightarrow> 'd packet_vs \<Rightarrow>
    hls_muxer \<times> 'd packet_vs \<times> hls_event list" where
  "hls_write_trailer fl env m io v =
     (let c = hctx m;
          old_filename = avf_url (vst v);
          (v, ev0) = (if segment_fmp4 c then finish_fmp4 env m io v else (v, []));
          use_temp_file = (avf_url (vst v) \<noteq> [] \<and> temp_file env m (avf_url (vst v)));
          (m, v, old_filename, ev1) =
            (if avf_pb v
             then
               let (v, ev) = (if segment_fmp4 c then (v, [])
                              else let v = v\<lparr>vst := vst v\<lparr>last_size := tell_flushed io - start_pos (vst v)\<rparr>\<rparr>;
                                       (pb, ev) = hlsenc_io_close env m (avf_pb v) (avf_url (vst v))
                                   in (v\<lparr>avf_pb := pb\<rparr>, ev));
                   (v, old_filename, ev2) =
                     (if use_temp_file \<and> HLS_SINGLE_FILE \<notin> flags c
                      then let (v, ev) = hls_rename_temp_file False v in (v, avf_url (vst v), ev)
                      else (v, old_filename, []));
                   (ret, m, v, ev3) = append_segment fl env m (db_add fl (last_duration (vst v)) (dpp v)) v
               in (m, v, old_filename, ev @ ev2 @ ev3)
             else (m, v, old_filename, []));
          ev2 = sls_flag_file_rename m v old_filename;
          (v, ev3) = (if has_subtitle (vst v)
                      then (v\<lparr>vst := vst v\<lparr>last_size := tell_written io - start_pos (vst v)\<rparr>, vtt_pb := False\<rparr>,
                            (if vtt_pb v then [WriteTrailer, CloseFile (vtt_url (vst v))] else []))
                      else (v, []));
          (ret, m, v, ev4) = write_window fl env m True v
      in (m, v, ev0 @ [WriteTrailer] @ ev1 @ ev2 @ ev3 @ ev4))"

end
