(* ===== verification/HlsSchedule.thy ===== *)
theory HlsSchedule
  imports HlsPacket
begin

section \<open>When segments are cut\<close>

text \<open>
  What the packet loop does over time, for a variant with video written to files of their own (MPEG-TS, no byte
  ranges, no separate length for the first list): at which packets segments end, and which duration each is
  listed with.  The step relation \<open>packet_run\<close> is a run of successful calls; its log has one entry per finished
  segment, the timestamp at which the next one begins and the listed duration.
\<close>

subsection \<open>What the operations leave alone\<close>

text \<open>The configuration, and the clock of a variant stream.\<close>

definition same_cfg :: "hls_muxer \<Rightarrow> hls_muxer \<Rightarrow> bool" where
  "same_cfg m m' \<longleftrightarrow> segment_fmp4 (hctx m') = segment_fmp4 (hctx m) \<and> flags (hctx m') = flags (hctx m) \<and>
     max_seg_size (hctx m') = max_seg_size (hctx m) \<and> recording_time m' = recording_time m \<and>
     init_time_positive m' = init_time_positive m"

definition same_clock :: "'d packet_vs \<Rightarrow> 'd packet_vs \<Rightarrow> bool" where
  "same_clock v v' \<longleftrightarrow> number v' = number v \<and> packets_written v' = packets_written v \<and> new_start v' = new_start v \<and>
     dpp v' = dpp v \<and> start_pts v' = start_pts v \<and> end_pts v' = end_pts v \<and>
     reference_stream_index v' = reference_stream_index v \<and> has_video (vst v') = has_video (vst v) \<and>
     last_duration (vst v') = last_duration (vst v)"

lemma same_cfg_refl [simp]: "same_cfg m m" by (simp add: same_cfg_def)
lemma same_clock_refl [simp]: "same_clock v v" by (simp add: same_clock_def)

lemma same_cfg_trans: "same_cfg m m1 \<Longrightarrow> same_cfg m1 m2 \<Longrightarrow> same_cfg m m2" by (simp add: same_cfg_def)
lemma same_clock_trans: "same_clock v v1 \<Longrightarrow> same_clock v1 v2 \<Longrightarrow> same_clock v v2" by (simp add: same_clock_def)

text \<open>The segment list.\<close>

lemma filename_process_frame:
  "sls_flags_filename_process fl hls vs dur p sz = (ret, vs') \<Longrightarrow> vs' = vs\<lparr>avf_url := avf_url vs'\<rparr>"
  by (auto simp: sls_flags_filename_process_def Let_def split: if_splits prod.splits)

lemma delete_old_frame:
  "hls_delete_old_segments fl io is_http hls vs = (ret, ev, vs') \<Longrightarrow> vs' = vs\<lparr>old_segments := old_segments vs'\<rparr>"
  by (auto simp: hls_delete_old_segments_def Let_def split: if_splits prod.splits)

lemma slide_window_frame:
  assumes "slide_window fl io is_http hls vs = (ret, vs', ev)"
  shows "\<exists>p s old n. vs' = vs\<lparr>initial_prog_date_time := p, segments := s, old_segments := old, nb_entries := n\<rparr> \<and>
    (s = segments vs \<and> n = nb_entries vs + 1 \<or>
     s = tl (segments vs) \<and> n = nb_entries vs \<and> max_nb_segments hls \<noteq> 0 \<and> max_nb_segments hls \<le> n)"
proof (cases "max_nb_segments hls \<noteq> 0 \<and> nb_entries vs \<ge> max_nb_segments hls")
  case False
  then have "vs' = vs\<lparr>initial_prog_date_time := initial_prog_date_time vs, segments := segments vs,
      old_segments := old_segments vs, nb_entries := nb_entries vs + 1\<rparr>"
    using assms unfolding slide_window_def if_not_P [OF False] by simp
  then show ?thesis by blast
next
  case True
  define en where "en = hd (segments vs)"
  define vs1 where "vs1 = vs\<lparr>initial_prog_date_time := db_add fl (initial_prog_date_time vs) (duration en), segments := tl (segments vs)\<rparr>"
  show ?thesis
  proof (cases "HLS_DELETE_SEGMENTS \<in> flags hls \<and> \<not> (HLS_SINGLE_FILE \<in> flags hls \<or> wrap hls \<noteq> 0)")
    case del: True
    obtain r ev1 vs2 where d: "hls_delete_old_segments fl io is_http hls (vs1\<lparr>old_segments := en # old_segments vs1\<rparr>) = (r, ev1, vs2)"
      by (metis prod_cases3)
    have "vs2 = vs1\<lparr>old_segments := old_segments vs2\<rparr>" using delete_old_frame [OF d] by simp
    then obtain old where e: "vs2 = vs1\<lparr>old_segments := old\<rparr>" by blast
    have "vs2 = vs\<lparr>initial_prog_date_time := initial_prog_date_time vs1, segments := tl (segments vs),
        old_segments := old_segments vs2, nb_entries := nb_entries vs\<rparr>"
      unfolding e vs1_def by (cases vs) simp
    moreover have "vs' = vs2" using assms True del d by (simp add: slide_window_def Let_def en_def [symmetric] vs1_def)
    ultimately have "vs' = vs\<lparr>initial_prog_date_time := initial_prog_date_time vs1, segments := tl (segments vs),
        old_segments := old_segments vs', nb_entries := nb_entries vs\<rparr>"
      by (simp only:)
    then show ?thesis using True by blast
  next
    case False
    have "vs' = vs1"
      using assms unfolding slide_window_def if_P [OF True] Let_def if_not_P [OF False] by (simp add: vs1_def en_def)
    then have "vs' = vs\<lparr>initial_prog_date_time := initial_prog_date_time vs1, segments := tl (segments vs),
        old_segments := old_segments vs, nb_entries := nb_entries vs\<rparr>"
      by (simp add: vs1_def)
    then show ?thesis using True by blast
  qed
qed

text \<open>The list after an append ends with the new segment, and its length is still what the stream says.\<close>

lemma append_segment_list:
  assumes a: "hls_append_segment fl io is_http hls vs dur p sz = (ret, hls', vs', ev)" and ret: "ret \<ge> 0"
    and nb: "nb_entries vs = int (length (segments vs))" "max_nb_segments hls \<ge> 0"
  shows "nb_entries vs' = int (length (segments vs'))" "segments vs' \<noteq> []" "duration (last (segments vs')) = dur"
    "last_duration vs' = last_duration vs" "has_video vs' = has_video vs" "start_pos vs' = start_pos vs" "last_size vs' = last_size vs"
    "init_range_length vs' = init_range_length vs"
    "sequence vs' = sequence vs + (if max_seg_size hls > 0 then 0 else 1)"
    "hls' = hls\<lparr>max_nb_segments := if pl_type hls \<noteq> PLAYLIST_TYPE_NONE then 0 else max_nb_segments hls\<rparr>"
proof -
  obtain r vs1 where f: "sls_flags_filename_process fl hls vs dur p sz = (r, vs1)" by force
  have r: "\<not> r < 0" using a ret f by (auto simp: hls_append_segment_def)
  have vs1: "vs1 = vs\<lparr>avf_url := avf_url vs1\<rparr>" by (rule filename_process_frame [OF f])
  define en where "en = new_segment hls vs1 dur p sz"
  define hls1 where "hls1 = (if pl_type hls \<noteq> PLAYLIST_TYPE_NONE then hls\<lparr>max_nb_segments := 0\<rparr> else hls)"
  define vs2 where "vs2 = vs1\<lparr>discontinuity := False, segments := segments vs1 @ [en]\<rparr>"
  obtain r2 vs3 ev2 where s: "slide_window fl io is_http hls1 vs2 = (r2, vs3, ev2)" by (metis prod_cases3)
  have m: "max_seg_size hls1 = max_seg_size hls" "max_nb_segments hls1 \<ge> 0" using nb(2) by (simp_all add: hls1_def)
  have u: "hls_append_segment fl io is_http hls vs dur p sz =
      (if r2 < 0 then (r2, hls1, vs3, ev2)
       else (0, hls1, if max_seg_size hls > 0 then vs3 else vs3\<lparr>sequence := sequence vs3 + 1\<rparr>, ev2))"
    using r unfolding hls_append_segment_def f prod.case Let_def en_def [symmetric] hls1_def [symmetric]
    by (simp add: vs2_def [symmetric] s m)
  then have v: "vs' = (if max_seg_size hls > 0 then vs3 else vs3\<lparr>sequence := sequence vs3 + 1\<rparr>)" "hls' = hls1"
    using a ret by (auto split: if_splits)
  obtain q l old n where vs3: "vs3 = vs2\<lparr>initial_prog_date_time := q, segments := l, old_segments := old, nb_entries := n\<rparr>"
    and l: "l = segments vs2 \<and> n = nb_entries vs2 + 1 \<or>
      l = tl (segments vs2) \<and> n = nb_entries vs2 \<and> max_nb_segments hls1 \<noteq> 0 \<and> max_nb_segments hls1 \<le> n"
    using slide_window_frame [OF s] by blast
  have i: "segments vs2 = segments vs @ [en]" "nb_entries vs2 = int (length (segments vs))" "last_duration vs2 = last_duration vs"
    "has_video vs2 = has_video vs" "start_pos vs2 = start_pos vs" "last_size vs2 = last_size vs" "sequence vs2 = sequence vs"
    "init_range_length vs2 = init_range_length vs"
    unfolding vs2_def by (subst vs1, simp add: nb(1))+
  have en: "duration en = dur" by (simp add: en_def new_segment_def Let_def)
  have "l \<noteq> [] \<and> last l = en \<and> n = int (length l)"
  proof (cases "l = segments vs2 \<and> n = nb_entries vs2 + 1")
    case True
    then show ?thesis using i by simp
  next
    case False
    then have l2: "l = tl (segments vs @ [en])" "n = int (length (segments vs))" "max_nb_segments hls1 \<noteq> 0" "max_nb_segments hls1 \<le> n"
      using l i by auto
    then have "segments vs \<noteq> []" using m(2) by auto
    then show ?thesis using l2 by (simp add: tl_append2)
  qed
  then show "nb_entries vs' = int (length (segments vs'))" "segments vs' \<noteq> []" "duration (last (segments vs')) = dur"
    "last_duration vs' = last_duration vs" "has_video vs' = has_video vs" "start_pos vs' = start_pos vs" "last_size vs' = last_size vs"
    "init_range_length vs' = init_range_length vs"
    "sequence vs' = sequence vs + (if max_seg_size hls > 0 then 0 else 1)"
    "hls' = hls\<lparr>max_nb_segments := if pl_type hls \<noteq> PLAYLIST_TYPE_NONE then 0 else max_nb_segments hls\<rparr>"
    using en i by (simp_all add: v vs3 hls1_def)
qed

text \<open>Starting a segment.\<close>

definition kept_list :: "'d packet_vs \<Rightarrow> 'd packet_vs \<Rightarrow> bool" where
  "kept_list v v' \<longleftrightarrow> segments (vst v') = segments (vst v) \<and> nb_entries (vst v') = nb_entries (vst v) \<and>
     sequence (vst v') = sequence (vst v)"

lemma kept_list_refl [simp]: "kept_list v v" by (simp add: kept_list_def)
lemma kept_list_trans: "kept_list v v1 \<Longrightarrow> kept_list v1 v2 \<Longrightarrow> kept_list v v2" by (simp add: kept_list_def)

lemma localtime_name_frame:
  "sls_flag_use_localtime_filename m v = (err, v') \<Longrightarrow> same_clock v v' \<and> kept_list v v'"
  by (auto simp: sls_flag_use_localtime_filename_def same_clock_def kept_list_def Let_def split: if_splits option.splits prod.splits)

lemma segment_names_frame:
  assumes "segment_names env m v = (err, v', ev)"
  shows "same_clock v v' \<and> kept_list v v'"
  using assms unfolding segment_names_def Let_def
  by (auto split: if_splits option.splits prod.splits dest!: localtime_name_frame simp: same_clock_def kept_list_def)

lemma start_subtitles_frame:
  assumes "start_subtitles env m v = (err, v', ev)"
  shows "same_clock v v' \<and> kept_list v v'"
proof (cases "vtt_template v = None")
  case True
  then show ?thesis using assms by (simp add: start_subtitles_def)
next
  case False
  obtain e pb ev1 where e: "hlsenc_io_open env m (vtt_pb v) (vtt_url (vst v)) = (e, pb, ev1)" by (metis prod_cases3)
  have "v' = v\<lparr>vtt_pb := pb\<rparr>"
    using assms unfolding start_subtitles_def if_not_P [OF False] e Let_def prod.case by (simp split: if_splits)
  then show ?thesis by (simp add: same_clock_def kept_list_def)
qed

definition same_options :: "hls_muxer \<Rightarrow> hls_muxer \<Rightarrow> bool" where
  "same_options m m' \<longleftrightarrow> same_cfg m m' \<and> max_nb_segments (hctx m') = max_nb_segments (hctx m)"

lemma do_encrypt_frame: "do_encrypt env m v = (err, m', ev) \<Longrightarrow> same_options m m'"
proof -
  have "same_options m (key_names m v)" by (simp add: same_options_def same_cfg_def key_names_def Let_def)
  moreover have "same_options m1 m2" if "write_key env m1 = (e, m2, ev2)" for m1 e m2 ev2
    using that by (auto simp: write_key_def same_options_def same_cfg_def Let_def split: if_splits prod.splits)
  ultimately show "do_encrypt env m v = (err, m', ev) \<Longrightarrow> same_options m m'"
    by (auto simp: do_encrypt_def Let_def same_options_def intro: same_cfg_trans split: if_splits)
qed

lemma encryption_start_frame: "hls_encryption_start env m = (err, m', ev) \<Longrightarrow> same_options m m'"
  by (auto simp: hls_encryption_start_def same_options_def same_cfg_def Let_def split: if_splits prod.splits)

lemma start_encryption_frame: "start_encryption env m v = (err, m', ev) \<Longrightarrow> same_options m m'"
  using do_encrypt_frame [of env m v] encryption_start_frame [of env m]
  by (auto simp: start_encryption_def same_options_def same_cfg_def split: if_splits prod.splits)

lemma open_segment_frame:
  assumes "open_segment env m v = (ret, m', v', ev)" "ret \<ge> 0"
  shows "same_cfg m m' \<and> max_nb_segments (hctx m') = max_nb_segments (hctx m) \<and> same_clock v v' \<and> kept_list v v'"
proof -
  have pb: "same_clock v (v\<lparr>avf_pb := pb\<rparr>)" "kept_list v (v\<lparr>avf_pb := pb\<rparr>)" for pb
    by (simp_all add: same_clock_def kept_list_def)
  have fin: "same_clock v v4 \<and> kept_list v v4" if "start_subtitles env m1 (v\<lparr>avf_pb := pb\<rparr>) = (e, v4, ev4)" for m1 pb e v4 ev4
    using start_subtitles_frame [OF that] pb by (blast intro: same_clock_trans kept_list_trans)
  show ?thesis
  proof (cases "key_info_file (hctx m) \<or> encrypt (hctx m)")
    case enc: True
    show ?thesis
    proof (cases "segment_fmp4 (hctx m)")
      case True
      have "ret = AVERROR_PATCHWELCOME"
        using assms(1) unfolding open_segment_def if_P [OF enc] if_P [OF True] by simp
      then show ?thesis using assms(2) by simp
    next
      case False
      obtain e1 m1 evs1 where e1: "start_encryption env m v = (e1, m1, evs1)" by (metis prod_cases3)
      obtain e2 pb2 evs2 where e2: "hlsenc_io_open env m1 (avf_pb v) (''crypto:'' @ avf_url (vst v)) = (e2, pb2, evs2)" by (metis prod_cases3)
      obtain e3 v4 evs3 where e3: "start_subtitles env m1 (v\<lparr>avf_pb := pb2\<rparr>) = (e3, v4, evs3)" by (metis prod_cases3)
      have c: "\<exists>ev. open_segment env m v = (if e1 < 0 then (e1, m1, v, evs1) else if e2 < 0 then (e2, m1, v\<lparr>avf_pb := pb2\<rparr>, ev)
          else (e3, m1, v4, ev))"
        unfolding open_segment_def if_P [OF enc] if_not_P [OF False] e1 e2 e3 prod.case Let_def by (cases "e1 < 0"; cases "e2 < 0"; simp)
      then have "\<not> e1 < 0" using assms by auto
      moreover from c this have "\<not> e2 < 0" using assms by auto
      ultimately have "m' = m1" "v' = v4" using c assms by auto
      then show ?thesis using start_encryption_frame [OF e1] fin [OF e3] by (simp add: same_options_def)
    qed
  next
    case plain: False
    show ?thesis
    proof (cases "segment_fmp4 (hctx m)")
      case True
      obtain e3 v4 evs3 where e3: "start_subtitles env m v = (e3, v4, evs3)" by (metis prod_cases3)
      have "m' = m" "v' = v4"
        using assms(1) True unfolding open_segment_def if_not_P [OF plain] by (simp_all add: e3)
      then show ?thesis using start_subtitles_frame [OF e3] by simp
    next
      case False
      obtain e2 pb2 evs2 where e2: "hlsenc_io_open env m (avf_pb v) (avf_url (vst v)) = (e2, pb2, evs2)" by (metis prod_cases3)
      obtain e3 v4 evs3 where e3: "start_subtitles env m (v\<lparr>avf_pb := pb2\<rparr>) = (e3, v4, evs3)" by (metis prod_cases3)
      have "m' = m" "v' = (if e2 < 0 then v\<lparr>avf_pb := pb2\<rparr> else v4)"
        using assms(1) False unfolding open_segment_def if_not_P [OF plain] by (simp_all add: e2 e3 Let_def split: if_splits)
      then show ?thesis using fin [OF e3] pb [of pb2] by simp
    qed
  qed
qed

lemma hls_start_frame:
  assumes "hls_start env m v = (ret, m', v', ev)" "ret \<ge> 0"
  shows "same_cfg m m' \<and> max_nb_segments (hctx m') = max_nb_segments (hctx m) \<and>
    same_clock (v\<lparr>number := u32 (number v + 1)\<rparr>) v' \<and> kept_list v v'"
proof -
  obtain err v1 ev1 where n: "segment_names env m v = (err, v1, ev1)" by (metis prod_cases3)
  note f = segment_names_frame [OF n]
  define v2 where "v2 = v1\<lparr>number := u32 (number v1 + 1)\<rparr>"
  define v3 where "v3 = (if temp_file env m (avf_url (vst v2)) then set_avf_url (avf_url (vst v2) @ ''.tmp'') v2 else v2)"
  obtain r m4 v4 ev4 where o4: "open_segment env m v3 = (r, m4, v4, ev4)" by (metis prod_cases4)
  have u: "hls_start env m v = (if err < 0 then (err, m, v1, ev1) else (r, m4, v4, ev1 @ ev4))"
    unfolding hls_start_def n prod.case by (simp add: Let_def v2_def [symmetric] v3_def [symmetric] o4)
  then have "\<not> err < 0" "r = ret" "m4 = m'" "v4 = v'" using assms by (auto split: if_splits)
  moreover have "same_clock (v\<lparr>number := u32 (number v + 1)\<rparr>) v3" "kept_list v v3"
    using f by (auto simp: v3_def v2_def same_clock_def kept_list_def)
  ultimately show ?thesis
    using open_segment_frame [OF o4] assms(2) by (blast intro: same_clock_trans kept_list_trans)
qed

text \<open>Closing the output of a segment, in the plain case.\<close>

definition plain :: "hls_muxer \<Rightarrow> bool" where
  "plain m \<longleftrightarrow> \<not> segment_fmp4 (hctx m) \<and> HLS_SINGLE_FILE \<notin> flags (hctx m) \<and> max_seg_size (hctx m) \<le> 0 \<and> \<not> init_time_positive m"

lemma plain_cong: "same_cfg m m' \<Longrightarrow> plain m' = plain m"
  by (simp add: same_cfg_def plain_def)

lemma close_vtt_frame: "close_vtt env m v = (v', ev) \<Longrightarrow> same_clock v v' \<and> kept_list v v'"
  by (auto simp: close_vtt_def same_clock_def kept_list_def split: if_splits prod.splits)

lemma set_oc_pb_frame: "same_clock v (set_oc_pb sub pb v)" "kept_list v (set_oc_pb sub pb v)"
  by (simp_all add: set_oc_pb_def same_clock_def kept_list_def)

lemma rename_temp_frame: "hls_rename_temp_file sub v = (v', ev) \<Longrightarrow> same_clock v v' \<and> kept_list v v'"
  by (auto simp: hls_rename_temp_file_def same_clock_def kept_list_def Let_def split: if_splits)

lemma complete_output_frame:
  assumes "plain m"
  shows "\<exists>v' ev. complete_output env m io sub v = Inr (v', ev) \<and> same_clock v v' \<and> kept_list v v'"
proof -
  have p: "\<not> segment_fmp4 (hctx m)" "\<not> byterange_mode (hctx m)" using assms by (auto simp: plain_def byterange_mode_def)
  define v1 where "v1 = v\<lparr>vst := vst v\<lparr>last_size := tell_flushed io - start_pos (vst v)\<rparr>\<rparr>"
  have v1: "same_clock v v1" "kept_list v v1" by (simp_all add: v1_def same_clock_def kept_list_def)
  obtain pb ev1 where c: "hlsenc_io_close env m (oc_pb sub v1) (oc_url sub v1) = (pb, ev1)" by force
  obtain v3 ev2 where t: "close_vtt env m (set_oc_pb sub pb v1) = (v3, ev2)" by force
  obtain v4 ev3 where r: "hls_rename_temp_file sub v3 = (v4, ev3)" by force
  have v3: "same_clock v v3 \<and> kept_list v v3"
    using v1 set_oc_pb_frame [where v = v1 and sub = sub and pb = pb] close_vtt_frame [OF t] by (blast intro: same_clock_trans kept_list_trans)
  have v4: "same_clock v v4 \<and> kept_list v v4" using v3 rename_temp_frame [OF r] by (blast intro: same_clock_trans kept_list_trans)
  show ?thesis
    unfolding complete_output_def Let_def using p v3 v4
    by (simp add: v1_def [symmetric] c t r)
qed

text \<open>Writing the playlist, and the next segment.\<close>

lemma window_text_frame: "window_text fl hls vs is_last r = (ret, out, vs') \<Longrightarrow> \<exists>b. vs' = vs\<lparr>discontinuity_set := b\<rparr>"
  by (auto simp: window_text_def Let_def split: if_splits prod.splits)

lemma hls_window_frame:
  assumes "hls_window fl io fp hls vs is_last = (ret, c, vs', ev)"
  shows "c = hls\<lparr>version := window_version hls\<rparr> \<and> (\<exists>b. vs' = vs\<lparr>discontinuity_set := b\<rparr>)"
proof -
  define f where "f = temp_name (fp (m3u8_name vs) = Some ''file'' \<and> (HLS_TEMP_FILE \<in> flags hls \<or> pl_type hls \<noteq> PLAYLIST_TYPE_VOD)) (m3u8_name vs)"
  obtain r out vs1 where w: "window_text fl (hls\<lparr>version := window_version hls\<rparr>) vs is_last (io f) = (r, out, vs1)" by (metis prod_cases3)
  have "c = hls\<lparr>version := window_version hls\<rparr>" "vs' = vs \<or> vs' = vs1"
    using assms unfolding hls_window_def f_def [symmetric] by (auto simp: f_def [symmetric] w Let_def split: if_splits option.splits prod.splits)
  moreover have "vs = vs\<lparr>discontinuity_set := discontinuity_set vs\<rparr>" by (cases vs) simp
  ultimately show ?thesis using window_text_frame [OF w] by metis
qed

lemma write_window_frame:
  assumes "write_window fl env m is_last v = (ret, m', v', ev)"
  shows "same_options m m' \<and> same_clock v v' \<and> kept_list v v'"
proof -
  obtain r c vs ev2 where w: "hls_window fl (open_write env) (find_protocol env) (hctx m) (vst v) is_last = (r, c, vs, ev2)" by (metis prod_cases4)
  have f: "c = hctx m\<lparr>version := window_version (hctx m)\<rparr>" "\<exists>b. vs = vst v\<lparr>discontinuity_set := b\<rparr>"
    using hls_window_frame [OF w] by auto
  have "m' = m\<lparr>hctx := c\<rparr>" "\<exists>pb. v' = v\<lparr>vst := vs, avf_pb := pb\<rparr>"
    using assms by (auto simp: write_window_def w Let_def)
  then show ?thesis using f by (auto simp: same_options_def same_cfg_def same_clock_def kept_list_def)
qed

lemma next_segment_plain:
  assumes "plain m" "next_segment env m f v = (ret, m', v', ev)" "ret \<ge> 0"
  shows "same_options m m' \<and> same_clock (v\<lparr>number := u32 (number v + 1)\<rparr>) v' \<and> kept_list v v'"
proof -
  obtain r m1 v1 ev1 where s: "hls_start env m v = (r, m1, v1, ev1)" by (metis prod_cases4)
  have "r = ret" "m1 = m'" "v1 = v'" using assms(1,2) by (simp_all add: plain_def next_segment_def s)
  then show ?thesis using hls_start_frame [OF s] assms(3) by (simp add: same_options_def)
qed

text \<open>The segment list is in order.\<close>

definition list_ok :: "hls_muxer \<Rightarrow> 'd packet_vs \<Rightarrow> bool" where
  "list_ok m v \<longleftrightarrow> nb_entries (vst v) = int (length (segments (vst v))) \<and> max_nb_segments (hctx m) \<ge> 0"

lemma append_segment_frame:
  assumes "append_segment fl env m dur v = (ret, m', v', ev)" "ret \<ge> 0" "list_ok m v"
  shows "same_cfg m m' \<and> list_ok m' v' \<and> same_clock v v' \<and> segments (vst v') \<noteq> [] \<and> duration (last (segments (vst v'))) = dur"
proof -
  obtain r c vs ev2 where a: "hls_append_segment fl (open_write env) (url_is_http env) (hctx m) (vst v) dur (start_pos (vst v)) (last_size (vst v)) =
      (r, c, vs, ev2)" by (metis prod_cases4)
  have e: "r = ret" "m' = m\<lparr>hctx := c\<rparr>" "v' = v\<lparr>vst := vs\<rparr>" using assms(1) by (simp_all add: append_segment_def a)
  have o: "nb_entries (vst v) = int (length (segments (vst v)))" "max_nb_segments (hctx m) \<ge> 0" using assms(3) by (simp_all add: list_ok_def)
  note l = append_segment_list [OF a _ o, unfolded e(1), OF assms(2)]
  show ?thesis using l o by (simp add: e same_cfg_def same_clock_def list_ok_def)
qed

lemma split_segment_plain:
  assumes "plain m" "list_ok m v" "split_segment fl d env m io sub pkt v = Inr (m', v', ev)"
  shows "same_cfg m m' \<and> list_ok m' v' \<and>
    same_clock ((set_duration (zero_dur d) v)\<lparr>end_pts := pts pkt, number := u32 (number v + 1)\<rparr>) v' \<and>
    segments (vst v') \<noteq> [] \<and> duration (last (segments (vst v'))) = last_duration (vst v)"
proof -
  obtain v1 ev1 where c: "complete_output env m io sub v = Inr (v1, ev1)" and c1: "same_clock v v1" "kept_list v v1"
    using complete_output_frame [OF assms(1), of env io sub v] by blast
  have fmp4: "\<not> segment_fmp4 (hctx m)" using assms(1) by (simp add: plain_def)
  have l1: "list_ok m v1" "last_duration (vst v1) = last_duration (vst v)"
    using assms(2) c1 by (simp_all add: list_ok_def kept_list_def same_clock_def)
  obtain r2 m2 v2 ev2 where a: "append_segment fl env m (last_duration (vst v1)) v1 = (r2, m2, v2, ev2)" by (metis prod_cases4)
  define v3 where "v3 = set_duration (zero_dur d) (v2\<lparr>end_pts := pts pkt\<rparr>)"
  define v4 where "v4 = v3\<lparr>vst := vst v3\<lparr>start_pos := tell_flushed io\<rparr>\<rparr>"
  obtain r5 m5 v5 ev5 where w: "(if pl_type (hctx m2) \<noteq> PLAYLIST_TYPE_VOD then write_window fl env m2 False v4 else (0, m2, v4, [])) = (r5, m5, v5, ev5)"
    by (metis prod_cases4)
  obtain r6 m6 v6 ev6 where n: "next_segment env m5 (avf_url (vst v1)) v5 = (r6, m6, v6, ev6)" by (metis prod_cases4)
  have u: "split_segment fl d env m io sub pkt v =
      (if r2 < 0 then Inl (r2, m2, v3, ev1 @ ev2) else if r5 < 0 then Inl (r5, m5, v5, ev1 @ ev2 @ ev5)
       else if r6 < 0 then Inl (r6, m6, v6, ev1 @ ev2 @ ev5 @ ev6) else Inr (m6, v6, ev1 @ ev2 @ ev5 @ ev6))"
    unfolding split_segment_def c sum.case prod.case
    by (simp only: fmp4 a Let_def prod.case simp_thms if_True if_False v3_def [symmetric] v4_def [symmetric] w n)
  then have r: "r2 \<ge> 0" "r6 \<ge> 0" "m' = m6" "v' = v6" using assms(3) by (auto split: if_splits)
  note f2 = append_segment_frame [OF a r(1) l1(1)]
  have f4: "same_clock ((set_duration (zero_dur d) v)\<lparr>end_pts := pts pkt\<rparr>) v4" "segments (vst v4) = segments (vst v2)" "list_ok m2 v4"
    using c1 f2 by (simp_all add: v4_def v3_def same_clock_def list_ok_def)
  have f5: "same_options m2 m5" "same_clock v4 v5" "kept_list v4 v5"
    using w write_window_frame [of fl env m2 False v4 r5 m5 v5 ev5] by (auto simp: same_options_def split: if_splits)
  have "plain m5" using assms(1) f2 f5(1) by (metis plain_cong same_options_def)
  note f6 = next_segment_plain [OF this n r(2)]
  have "same_cfg m m6" using f2 f5(1) f6 by (blast intro: same_cfg_trans dest: same_options_def [THEN iffD1])
  moreover have "list_ok m6 v6" "segments (vst v6) = segments (vst v2)"
    using f4 f5 f6 by (simp_all add: list_ok_def kept_list_def same_options_def)
  moreover have "same_clock ((set_duration (zero_dur d) v)\<lparr>end_pts := pts pkt, number := u32 (number v + 1)\<rparr>) v6"
    using f4(1) f5(2) f6 by (simp add: same_clock_def)
  ultimately show ?thesis using f2 l1(2) r(3,4) by simp
qed


lemma split_segment_error:
  assumes "plain m" "split_segment fl d env m io sub pkt v = Inl (ret, m', v', ev)"
  shows "ret < 0"
proof -
  obtain v1 ev1 where c: "complete_output env m io sub v = Inr (v1, ev1)"
    using complete_output_frame [OF assms(1), of env io sub v] by blast
  have fmp4: "\<not> segment_fmp4 (hctx m)" using assms(1) by (simp add: plain_def)
  show ?thesis
    using assms(2) unfolding split_segment_def c sum.case prod.case Let_def
    by (simp only: fmp4 simp_thms if_True if_False) (auto split: prod.splits if_splits)
qed

subsection \<open>One packet\<close>

text \<open>The duration of the running segment once a reference packet has been counted.\<close>

definition duration_with :: "('f, 'd) float_ops \<Rightarrow> 'd dur_ops \<Rightarrow> AVStream \<Rightarrow> AVPacket \<Rightarrow> 'd packet_vs \<Rightarrow> 'd" where
  "duration_with fl d st pkt v =
     (let since_end = ticks d (pts pkt - (if end_pts v = AV_NOPTS then pts pkt else end_pts v)) (st_time_base st)
      in if new_start v then since_end
         else if pkt_duration pkt \<noteq> 0 then db_add fl (last_duration (vst v)) (ticks d (pkt_duration pkt) (st_time_base st))
         else since_end)"

definition video_packet :: "AVStream \<Rightarrow> AVPacket \<Rightarrow> 'd packet_vs \<Rightarrow> bool" where
  "video_packet st pkt v \<longleftrightarrow> has_video (vst v) \<and> codec_type st = AVMEDIA_TYPE_VIDEO \<and>
     stream_index pkt = reference_stream_index v \<and> pts pkt \<noteq> AV_NOPTS"

lemma note_packet_value:
  assumes "video_packet st pkt v"
  shows "\<exists>v' p. note_packet fl d m st pkt v = (v', key_frame pkt \<or> HLS_SPLIT_BY_TIME \<in> flags (hctx m)) \<and> kept_list v v' \<and>
    same_clock ((set_duration (duration_with fl d st pkt v) v)
      \<lparr>start_pts := if start_pts v = AV_NOPTS then pts pkt else start_pts v,
       end_pts := if end_pts v = AV_NOPTS then pts pkt else end_pts v, new_start := False, dpp := p\<rparr>) v'"
proof -
  define v1 where "v1 = (if start_pts v = AV_NOPTS then v\<lparr>start_pts := pts pkt\<rparr> else v)"
  define v2 where "v2 = (if end_pts v1 = AV_NOPTS then v1\<lparr>end_pts := pts pkt\<rparr> else v1)"
  define v' where "v' = (if new_start v2
      then (set_duration (ticks d (pts pkt - end_pts v2) (st_time_base st)) v2)
        \<lparr>new_start := False, dpp := ticks d (pkt_duration pkt) (st_time_base st)\<rparr>
      else if pkt_duration pkt \<noteq> 0
      then set_duration (db_add fl (last_duration (vst v2)) (ticks d (pkt_duration pkt) (st_time_base st))) v2
      else set_duration (ticks d (pts pkt - end_pts v2) (st_time_base st)) v2)"
  have u: "note_packet fl d m st pkt v = (v', key_frame pkt \<or> HLS_SPLIT_BY_TIME \<in> flags (hctx m))"
    using assms unfolding note_packet_def video_packet_def
    by (cases "start_pts v = AV_NOPTS") (simp_all add: Let_def v1_def v2_def v'_def)
  have v2: "kept_list v v2" "same_clock (v\<lparr>start_pts := if start_pts v = AV_NOPTS then pts pkt else start_pts v,
      end_pts := if end_pts v = AV_NOPTS then pts pkt else end_pts v\<rparr>) v2"
    by (auto simp: v2_def v1_def kept_list_def same_clock_def)
  have "kept_list v v'" using v2(1) by (auto simp: v'_def kept_list_def)
  moreover have "same_clock ((set_duration (duration_with fl d st pkt v) v)
      \<lparr>start_pts := if start_pts v = AV_NOPTS then pts pkt else start_pts v,
       end_pts := if end_pts v = AV_NOPTS then pts pkt else end_pts v, new_start := False, dpp := dpp v'\<rparr>) v'"
    using v2(2) by (auto simp: v'_def same_clock_def duration_with_def Let_def)
  ultimately show ?thesis using u by blast
qed

lemma write_frame_frame:
  "write_frame m io st sub idx pkt v = (ret, m', v', ev) \<Longrightarrow>
   m' = m \<and> same_clock (v\<lparr>packets_written := s32 (packets_written v + 1)\<rparr>) v' \<and> kept_list v v'"
  by (auto simp: write_frame_def same_clock_def kept_list_def Let_def oc_pb_def split: if_splits)

text \<open>Does a segment end at the packet?\<close>

definition cut_at :: "hls_muxer \<Rightarrow> AVStream \<Rightarrow> AVPacket \<Rightarrow> 'd packet_vs \<Rightarrow> bool" where
  "cut_at m st pkt v \<longleftrightarrow> packets_written v \<noteq> 0 \<and> (key_frame pkt \<or> HLS_SPLIT_BY_TIME \<in> flags (hctx m)) \<and>
     av_compare_ts (pts pkt - (if start_pts v = AV_NOPTS then pts pkt else start_pts v)) (st_time_base st)
       (recording_time m * number v) AV_TIME_BASE_Q \<ge> 0"

text \<open>The clock after a packet.\<close>

definition clock_after :: "('f, 'd) float_ops \<Rightarrow> 'd dur_ops \<Rightarrow> hls_muxer \<Rightarrow> AVStream \<Rightarrow> AVPacket \<Rightarrow> 'd packet_vs \<Rightarrow> 'd \<Rightarrow>
    'd packet_vs" where
  "clock_after fl d m st pkt v p =
     (let cut = cut_at m st pkt v
      in (set_duration (if cut then zero_dur d else duration_with fl d st pkt v) v)
           \<lparr>start_pts := if start_pts v = AV_NOPTS then pts pkt else start_pts v,
            end_pts := if cut \<or> end_pts v = AV_NOPTS then pts pkt else end_pts v, new_start := False, dpp := p,
            number := if cut then u32 (number v + 1) else number v, packets_written := s32 (packets_written v + 1)\<rparr>)"

lemma write_to_variant_step:
  assumes "plain m" "list_ok m v" "video_packet st pkt v"
    and w: "write_to_variant fl d env m io st j pkt v = (ret, m', v', ev)" "ret \<ge> 0"
  shows "same_cfg m m' \<and> list_ok m' v' \<and> (\<exists>p. same_clock (clock_after fl d m st pkt v p) v') \<and>
    (if cut_at m st pkt v then segments (vst v') \<noteq> [] \<and> duration (last (segments (vst v'))) = duration_with fl d st pkt v
     else segments (vst v') = segments (vst v))"
proof -
  have due: "segment_due d m v = (m, recording_time m * number v)" using assms(1) by (simp add: segment_due_def plain_def)
  have sub: "(codec_type st = AVMEDIA_TYPE_SUBTITLE) = False" using assms(3) by (simp add: video_packet_def)
  obtain v1 p where n: "note_packet fl d m st pkt v = (v1, key_frame pkt \<or> HLS_SPLIT_BY_TIME \<in> flags (hctx m))" "kept_list v v1"
    and c1: "same_clock ((set_duration (duration_with fl d st pkt v) v)
      \<lparr>start_pts := if start_pts v = AV_NOPTS then pts pkt else start_pts v,
       end_pts := if end_pts v = AV_NOPTS then pts pkt else end_pts v, new_start := False, dpp := p\<rparr>) v1"
    using note_packet_value [OF assms(3), of fl d m] by blast
  have cut: "(packets_written v1 \<noteq> 0 \<and> (key_frame pkt \<or> HLS_SPLIT_BY_TIME \<in> flags (hctx m)) \<and>
      av_compare_ts (pts pkt - start_pts v1) (st_time_base st) (recording_time m * number v) AV_TIME_BASE_Q \<ge> 0) = cut_at m st pkt v"
    using c1 by (simp add: same_clock_def cut_at_def)
  define s where "s = (if cut_at m st pkt v then split_segment fl d env m io False pkt v1 else Inr (m, v1, []))"
  have u: "write_to_variant fl d env m io st j pkt v = (case s of Inl r \<Rightarrow> r
      | Inr (m, v, ev) \<Rightarrow> (case write_frame m io st False j pkt v of (ret, m, v, ev2) \<Rightarrow> (ret, m, v, ev @ ev2)))"
    unfolding write_to_variant_def due n(1) prod.case Let_def sub cut s_def by simp
  have ok1: "list_ok m v1" using assms(2) n(2) by (simp add: list_ok_def kept_list_def)
  show ?thesis
  proof (cases "cut_at m st pkt v")
    case False
    obtain r2 m2 v2 ev2 where f: "write_frame m io st False j pkt v1 = (r2, m2, v2, ev2)" by (metis prod_cases4)
    have "m' = m2" "v' = v2" using w(1) False by (simp_all add: u s_def f)
    moreover from this have "same_clock (clock_after fl d m st pkt v p) v'"
      using False write_frame_frame [OF f] c1 by (simp add: clock_after_def same_clock_def Let_def)
    ultimately show ?thesis using False write_frame_frame [OF f] ok1 n(2) by (auto simp: list_ok_def kept_list_def)
  next
    case True
    show ?thesis
    proof (cases s)
      case (Inl r)
      have "ret < 0"
        using split_segment_error [OF assms(1), of fl d env io False pkt v1] Inl True w(1) by (simp add: u s_def)
      then show ?thesis using w(2) by simp
    next
      case (Inr r)
      obtain m1 v2 ev1 where r: "r = (m1, v2, ev1)" by (cases r)
      have sp: "split_segment fl d env m io False pkt v1 = Inr (m1, v2, ev1)" using Inr True by (simp add: s_def r)
      note f1 = split_segment_plain [OF assms(1) ok1 sp]
      obtain r3 m3 v3 ev3 where f: "write_frame m1 io st False j pkt v2 = (r3, m3, v3, ev3)" by (metis prod_cases4)
      have "m' = m3" "v' = v3" using w(1) by (simp_all add: u Inr r f)
      moreover from this have "same_clock (clock_after fl d m st pkt v p) v'"
        using True write_frame_frame [OF f] f1 c1 by (simp add: clock_after_def same_clock_def Let_def)
      moreover have "m3 = m1" "kept_list v2 v3" using write_frame_frame [OF f] by simp_all
      moreover have "list_ok m1 v3" using f1 \<open>kept_list v2 v3\<close> by (simp add: list_ok_def kept_list_def)
      moreover have "segments (vst v3) \<noteq> []" "duration (last (segments (vst v3))) = duration_with fl d st pkt v"
        using f1 c1 \<open>kept_list v2 v3\<close> by (simp_all add: kept_list_def same_clock_def)
      ultimately show ?thesis using True f1 by auto
    qed
  qed
qed

end
