(* ===== verification/HlsClock.thy ===== *)
theory HlsClock
  imports HlsSchedule
begin

section \<open>Runs of the packet loop\<close>

text \<open>
  A run of successful calls of the packet loop on the video packets of one variant, and the reference it
  refines: \<open>segmenter\<close>, which cuts the packets by looking at timestamps and key frames only.  From the
  reference follow the bounds on when segments end and how many have been finished.
\<close>

subsection \<open>Runs and the reference\<close>

text \<open>What a call adds to the log of finished segments: where the next one begins and the duration listed.\<close>

definition finished :: "'d packet_vs \<Rightarrow> 'd packet_vs \<Rightarrow> (int \<times> 'd) list" where
  "finished v v' = (if number v' \<noteq> number v then [(end_pts v', duration (last (segments (vst v'))))] else [])"

inductive packet_run :: "('f, 'd) float_ops \<Rightarrow> 'd dur_ops \<Rightarrow> AVStream \<Rightarrow> nat \<Rightarrow> hls_muxer \<Rightarrow> 'd packet_vs \<Rightarrow>
    AVPacket list \<Rightarrow> (int \<times> 'd) list \<Rightarrow> hls_muxer \<Rightarrow> 'd packet_vs \<Rightarrow> bool"
  for fl d st j m0 v0 where
  run_start: "packet_run fl d st j m0 v0 [] [] m0 v0"
| run_packet: "packet_run fl d st j m0 v0 ps log m v \<Longrightarrow>
    write_to_variant fl d env m io st j pkt v = (ret, m', v', ev) \<Longrightarrow> ret \<ge> 0 \<Longrightarrow>
    packet_run fl d st j m0 v0 (ps @ [pkt]) (log @ finished v v') m' v'"

text \<open>The stream before its first packet.\<close>

definition fresh_clock :: "'d packet_vs \<Rightarrow> bool" where
  "fresh_clock v \<longleftrightarrow> number v = 1 \<and> packets_written v = 0 \<and> new_start v \<and> start_pts v = AV_NOPTS \<and> end_pts v = AV_NOPTS"

text \<open>Time since the first packet, in units of a microsecond over the denominator of the time base.\<close>

definition elapsed :: "AVRational \<Rightarrow> int \<Rightarrow> int \<Rightarrow> int" where
  "elapsed tb t0 t = (t - t0) * num tb * 1000000"

text \<open>A segment ends at the first packet that may begin one and is not before the due time; segment \<open>k\<close> (from 1) is
  due \<open>k\<close> recording times after the first packet.  The state: the number of the running segment, its duration so
  far, the finished segments.\<close>

definition seg_step :: "('f, 'd) float_ops \<Rightarrow> 'd dur_ops \<Rightarrow> AVRational \<Rightarrow> bool \<Rightarrow> int \<Rightarrow> int \<Rightarrow>
    int \<times> 'd \<times> (int \<times> 'd) list \<Rightarrow> AVPacket \<Rightarrow> int \<times> 'd \<times> (int \<times> 'd) list" where
  "seg_step fl d tb by_time R t0 = (\<lambda>(k, acc, log) p.
     let acc = db_add fl acc (ticks d (pkt_duration p) tb)
     in if (key_frame p \<or> by_time) \<and> k * R * den tb \<le> elapsed tb t0 (pts p)
        then (k + 1, zero_dur d, log @ [(pts p, acc)]) else (k, acc, log))"

definition segmenter :: "('f, 'd) float_ops \<Rightarrow> 'd dur_ops \<Rightarrow> AVRational \<Rightarrow> bool \<Rightarrow> int \<Rightarrow> AVPacket list \<Rightarrow>
    int \<times> 'd \<times> (int \<times> 'd) list" where
  "segmenter fl d tb by_time R ps =
     (case ps of [] \<Rightarrow> (1, ticks d 0 tb, [])
      | p # rest \<Rightarrow> foldl (seg_step fl d tb by_time R (pts p)) (1, ticks d 0 tb, []) rest)"

text \<open>No timestamp or due time of the run leaves the range of 64 bits.\<close>

definition times_fit :: "AVRational \<Rightarrow> int \<Rightarrow> AVPacket list \<Rightarrow> bool" where
  "times_fit tb R ps \<longleftrightarrow> time_base tb \<and> 0 \<le> R \<and> length ps < 2 ^ 32 \<and> R * int (length ps) \<le> INT64_MAX \<and>
     R * int (length ps) * den tb div (num tb * 1000000) \<le> INT64_MAX \<and>
     (\<forall>p \<in> set ps. pts (hd ps) \<le> pts p \<and> pts p - pts (hd ps) \<le> INT64_MAX \<and>
        elapsed tb (pts (hd ps)) (pts p) div den tb \<le> INT64_MAX)"

lemma compare_due:
  assumes "time_base tb" "0 \<le> t" "t \<le> INT64_MAX" "t * num tb * 1000000 div den tb \<le> INT64_MAX"
    and "0 \<le> due" "due \<le> INT64_MAX" "due * den tb div (num tb * 1000000) \<le> INT64_MAX"
  shows "av_compare_ts t tb due AV_TIME_BASE_Q \<ge> 0 \<longleftrightarrow> due * den tb \<le> t * num tb * 1000000"
proof -
  have tb: "0 < num tb" "0 < den tb" "time_base AV_TIME_BASE_Q" using assms(1) by (simp_all add: time_base_def)
  have "0 \<le> t * num tb * 1000000 div den tb" "0 \<le> due * den tb div (num tb * 1000000)"
    using assms tb by (simp_all add: pos_imp_zdiv_nonneg_iff)
  then have "av_compare_ts t tb due AV_TIME_BASE_Q = sgn (t * (num tb * 1000000) - due * den tb)"
    using av_compare_ts_value [OF assms(1) tb(3), of t due] assms by (simp add: mult.assoc)
  then show ?thesis by (simp add: sgn_if mult.assoc)
qed

text \<open>The due times the run compares with are in range.\<close>

lemma due_in_range:
  assumes "times_fit tb R ps" "0 \<le> k" "k \<le> int (length ps)"
  shows "0 \<le> R * k" "R * k \<le> INT64_MAX" "R * k * den tb div (num tb * 1000000) \<le> INT64_MAX"
proof -
  have tb: "0 < num tb" "0 < den tb" and R: "0 \<le> R" using assms(1) by (simp_all add: times_fit_def time_base_def)
  show "0 \<le> R * k" using R assms(2) by simp
  have le: "R * k \<le> R * int (length ps)" using R assms(3) by (simp add: mult_left_mono)
  then show "R * k \<le> INT64_MAX" using assms(1) by (simp add: times_fit_def)
  have "R * k * den tb div (num tb * 1000000) \<le> R * int (length ps) * den tb div (num tb * 1000000)"
    by (rule zdiv_mono1) (use le tb in \<open>simp_all add: mult_right_mono\<close>)
  then show "R * k * den tb div (num tb * 1000000) \<le> INT64_MAX" using assms(1) by (simp add: times_fit_def)
qed

lemma times_fit_prefix: "times_fit tb R (ps @ [p]) \<Longrightarrow> times_fit tb R ps"
proof -
  assume f: "times_fit tb R (ps @ [p])"
  have "0 \<le> int (length ps)" "int (length ps) \<le> int (length (ps @ [p]))" by simp_all
  note d = due_in_range [OF f this]
  show ?thesis using f d by (cases ps) (auto simp: times_fit_def)
qed

text \<open>Cuts add at most one to the number.\<close>

lemma segmenter_snoc:
  "ps \<noteq> [] \<Longrightarrow> segmenter fl d tb b R (ps @ [p]) = seg_step fl d tb b R (pts (hd ps)) (segmenter fl d tb b R ps) p"
  by (cases ps) (simp_all add: segmenter_def)

lemma segmenter_number:
  "ps \<noteq> [] \<Longrightarrow> segmenter fl d tb b R ps = (k, acc, log) \<Longrightarrow> k = int (length log) + 1 \<and> k \<le> int (length ps)"
proof (induction ps arbitrary: k acc log rule: rev_induct)
  case (snoc p ps)
  show ?case
  proof (cases "ps = []")
    case True
    then show ?thesis using snoc(3) by (simp add: segmenter_def)
  next
    case False
    obtain k1 acc1 log1 where s: "segmenter fl d tb b R ps = (k1, acc1, log1)" by (metis prod_cases3)
    show ?thesis using snoc(1) [OF False s] snoc(3) unfolding segmenter_snoc [OF False] s
      by (auto simp: seg_step_def Let_def split: if_splits)
  qed
qed simp

subsection \<open>The run refines the reference\<close>

definition good_packet :: "AVStream \<Rightarrow> 'd packet_vs \<Rightarrow> AVPacket \<Rightarrow> bool" where
  "good_packet st v0 p \<longleftrightarrow> stream_index p = reference_stream_index v0 \<and> pts p \<noteq> AV_NOPTS \<and> pkt_duration p \<noteq> 0"

definition video_stream :: "AVStream \<Rightarrow> 'd packet_vs \<Rightarrow> bool" where
  "video_stream st v0 \<longleftrightarrow> has_video (vst v0) \<and> codec_type st = AVMEDIA_TYPE_VIDEO"

text \<open>The state after the packets \<open>ps\<close>, in terms of the reference.\<close>

definition run_state :: "('f, 'd) float_ops \<Rightarrow> 'd dur_ops \<Rightarrow> AVStream \<Rightarrow> hls_muxer \<Rightarrow> 'd packet_vs \<Rightarrow> AVPacket list \<Rightarrow>
    (int \<times> 'd) list \<Rightarrow> hls_muxer \<Rightarrow> 'd packet_vs \<Rightarrow> bool" where
  "run_state fl d st m0 v0 ps log m v \<longleftrightarrow>
     same_cfg m0 m \<and> list_ok m v \<and> reference_stream_index v = reference_stream_index v0 \<and>
     has_video (vst v) = has_video (vst v0) \<and>
     (if ps = [] then log = [] \<and> fresh_clock v
      else start_pts v = pts (hd ps) \<and> end_pts v \<noteq> AV_NOPTS \<and> \<not> new_start v \<and> packets_written v = s32 (int (length ps)) \<and>
        segmenter fl d (st_time_base st) (HLS_SPLIT_BY_TIME \<in> flags (hctx m0)) (recording_time m0) ps =
          (number v, last_duration (vst v), log))"

lemma s32_count: "s32 (1 + s32 x) = s32 (1 + x)"
  by (simp add: s32_def mod_simps)

lemma s32_nonzero: "0 < x \<Longrightarrow> x < 2 ^ 32 \<Longrightarrow> s32 x \<noteq> 0"
proof
  assume x: "0 < x" "x < 2 ^ 32" "s32 x = 0"
  then have "(x + 2147483648) mod 4294967296 = 2147483648 mod 4294967296" by (simp add: s32_def)
  then have "4294967296 dvd (x + 2147483648) - 2147483648" by (simp only: mod_eq_dvd_iff)
  then have "4294967296 dvd x" by simp
  then show False using x by (auto dest: zdvd_imp_le)
qed

lemma run_state_step:
  assumes inv: "run_state fl d st m0 v0 ps log m v" and m0: "plain m0" and st: "video_stream st v0"
    and fit: "times_fit (st_time_base st) (recording_time m0) (ps @ [pkt])"
    and good: "good_packet st v0 pkt" "\<forall>p \<in> set ps. good_packet st v0 p"
    and w: "write_to_variant fl d env m io st j pkt v = (ret, m', v', ev)" "ret \<ge> 0"
  shows "run_state fl d st m0 v0 (ps @ [pkt]) (log @ finished v v') m' v'"
proof -
  let ?tb = "st_time_base st" and ?R = "recording_time m0" and ?b = "HLS_SPLIT_BY_TIME \<in> flags (hctx m0)"
  have cfg: "same_cfg m0 m" "list_ok m v" "reference_stream_index v = reference_stream_index v0" "has_video (vst v) = has_video (vst v0)"
    using inv by (simp_all add: run_state_def)
  have p: "plain m" using m0 plain_cong [OF cfg(1)] by simp
  have vp: "video_packet st pkt v" using st good(1) cfg by (simp add: video_packet_def video_stream_def good_packet_def)
  have R: "recording_time m = ?R" "HLS_SPLIT_BY_TIME \<in> flags (hctx m) \<longleftrightarrow> ?b" using cfg(1) by (simp_all add: same_cfg_def)
  note s = write_to_variant_step [OF p cfg(2) vp w]
  obtain q where c: "same_clock (clock_after fl d m st pkt v q) v'" using s by blast
  have frame: "same_cfg m0 m'" "list_ok m' v'" "reference_stream_index v' = reference_stream_index v0" "has_video (vst v') = has_video (vst v0)"
    using s c cfg by (auto simp: same_clock_def clock_after_def Let_def intro: same_cfg_trans)
  show ?thesis
  proof (cases "ps = []")
    case True
    then have f: "log = []" "fresh_clock v" using inv by (simp_all add: run_state_def)
    then have no: "\<not> cut_at m st pkt v" by (simp add: cut_at_def fresh_clock_def)
    have dur: "duration_with fl d st pkt v = ticks d 0 ?tb" using f(2) by (simp add: duration_with_def fresh_clock_def)
    have "number v' = 1" "start_pts v' = pts pkt" "end_pts v' = pts pkt" "\<not> new_start v'" "packets_written v' = s32 1"
      "last_duration (vst v') = ticks d 0 ?tb"
      using c no f(2) dur by (simp_all add: same_clock_def clock_after_def fresh_clock_def)
    then show ?thesis using True f frame good(1) by (simp add: run_state_def segmenter_def finished_def good_packet_def fresh_clock_def)
  next
    case False
    then have i: "start_pts v = pts (hd ps)" "end_pts v \<noteq> AV_NOPTS" "\<not> new_start v" "packets_written v = s32 (int (length ps))"
      "segmenter fl d ?tb ?b ?R ps = (number v, last_duration (vst v), log)"
      using inv by (simp_all add: run_state_def)
    note k = segmenter_number [OF False i(5)]
    have written: "packets_written v \<noteq> 0" unfolding i(4) by (rule s32_nonzero) (use False fit in \<open>auto simp: times_fit_def\<close>)
    have t0: "pts (hd ps) \<noteq> AV_NOPTS" using good(2) False by (simp add: good_packet_def)
    have dur: "duration_with fl d st pkt v = db_add fl (last_duration (vst v)) (ticks d (pkt_duration pkt) ?tb)"
      using good(1) i(3) by (simp add: duration_with_def good_packet_def)
    have hd: "hd (ps @ [pkt]) = hd ps" using False by simp
    have n: "0 \<le> number v" "number v \<le> int (length (ps @ [pkt]))" using k by simp_all
    note due = due_in_range [OF fit n]
    have t: "0 \<le> pts pkt - pts (hd ps)" "pts pkt - pts (hd ps) \<le> INT64_MAX"
      "(pts pkt - pts (hd ps)) * num ?tb * 1000000 div den ?tb \<le> INT64_MAX" "time_base ?tb"
      using fit hd by (auto simp: times_fit_def elapsed_def)
    have "cut_at m st pkt v \<longleftrightarrow> (key_frame pkt \<or> ?b) \<and> number v * ?R * den ?tb \<le> elapsed ?tb (pts (hd ps)) (pts pkt)"
      using compare_due [OF t(4) t(1,2,3) due] i(1) written t0 R by (simp add: cut_at_def elapsed_def mult.commute mult.left_commute)
    note cut = this
    have u: "u32 (number v + 1) = number v + 1"
      using fit k by (intro u32_id) (auto simp: times_fit_def)
    have e: "end_pts v' \<noteq> AV_NOPTS" "\<not> new_start v'" "packets_written v' = s32 (int (length (ps @ [pkt])))" "start_pts v' = pts (hd ps)"
      using c i t0 good(1) by (auto simp: same_clock_def clock_after_def Let_def good_packet_def s32_count add.commute)
    have "seg_step fl d ?tb ?b ?R (pts (hd ps)) (number v, last_duration (vst v), log) pkt =
        (number v', last_duration (vst v'), log @ finished v v')"
    proof (cases "cut_at m st pkt v")
      case True
      then have "number v' = number v + 1" "last_duration (vst v') = zero_dur d" "end_pts v' = pts pkt"
        using c u by (simp_all add: same_clock_def clock_after_def)
      then show ?thesis using True s dur cut by (simp add: seg_step_def finished_def)
    next
      case no: False
      then have "number v' = number v" "last_duration (vst v') = duration_with fl d st pkt v"
        using c by (simp_all add: same_clock_def clock_after_def)
      then show ?thesis unfolding seg_step_def prod.case Let_def if_not_P [OF no [unfolded cut]] by (simp add: finished_def dur)
    qed
    then show ?thesis
      using e frame unfolding run_state_def segmenter_snoc [OF False] i(5) hd by simp
  qed
qed

lemma packet_run_state:
  assumes "packet_run fl d st j m0 v0 ps log m v" "plain m0" "list_ok m0 v0" "fresh_clock v0" "video_stream st v0"
    "times_fit (st_time_base st) (recording_time m0) ps" "\<forall>p \<in> set ps. good_packet st v0 p"
  shows "run_state fl d st m0 v0 ps log m v"
  using assms
proof (induction rule: packet_run.induct)
  case run_start
  then show ?case by (simp add: run_state_def)
next
  case (run_packet ps log m v env io pkt ret m' v' ev)
  note good = run_packet.prems(6)
  have ps: "times_fit (st_time_base st) (recording_time m0) ps" by (rule times_fit_prefix [OF run_packet.prems(5)])
  have "\<forall>p \<in> set ps. good_packet st v0 p" "good_packet st v0 pkt" using good by simp_all
  then show ?case
    using run_state_step [OF run_packet.IH [OF run_packet.prems(1-4) ps] run_packet.prems(1,4,5)] run_packet.hyps(2,3) by blast
qed

lemma packet_run_segmenter:
  assumes "packet_run fl d st j m0 v0 ps log m v" "plain m0" "list_ok m0 v0" "fresh_clock v0" "video_stream st v0"
    "times_fit (st_time_base st) (recording_time m0) ps" "\<forall>p \<in> set ps. good_packet st v0 p" "ps \<noteq> []"
  shows "segmenter fl d (st_time_base st) (HLS_SPLIT_BY_TIME \<in> flags (hctx m0)) (recording_time m0) ps =
    (number v, last_duration (vst v), log)"
  using packet_run_state [OF assms(1-7)] assms(8) by (simp add: run_state_def)

subsection \<open>What the reference promises\<close>

text \<open>Every key frame comes at most \<open>G\<close> after the one before, and not before it; \<open>t\<close> is the time of the last key frame.\<close>

fun keys_within :: "AVRational \<Rightarrow> int \<Rightarrow> int \<Rightarrow> AVPacket list \<Rightarrow> bool" where
  "keys_within tb G t [] = True"
| "keys_within tb G t (p # ps) =
     (if key_frame p then 0 \<le> elapsed tb t (pts p) \<and> elapsed tb t (pts p) \<le> G \<and> keys_within tb G (pts p) ps
      else keys_within tb G t ps)"

fun last_key :: "int \<Rightarrow> AVPacket list \<Rightarrow> int" where
  "last_key t [] = t"
| "last_key t (p # ps) = last_key (if key_frame p then pts p else t) ps"

text \<open>The boundary of segment \<open>i\<close> (from 0) is due after \<open>i + 1\<close> recording times \<open>RD\<close>.\<close>

definition on_time :: "AVRational \<Rightarrow> int \<Rightarrow> int \<Rightarrow> int \<Rightarrow> (int \<times> 'd) list \<Rightarrow> bool" where
  "on_time tb RD G t0 log \<longleftrightarrow>
     (\<forall>i < length log. (int i + 1) * RD \<le> elapsed tb t0 (fst (log ! i)) \<and> elapsed tb t0 (fst (log ! i)) < (int i + 1) * RD + G)"

lemma on_time_snoc:
  "on_time tb RD G t0 log \<Longrightarrow> (int (length log) + 1) * RD \<le> elapsed tb t0 t \<Longrightarrow>
    elapsed tb t0 t < (int (length log) + 1) * RD + G \<Longrightarrow> on_time tb RD G t0 (log @ [(t, x)])"
  by (auto simp: on_time_def nth_append less_Suc_eq)

lemma elapsed_split: "elapsed tb t0 t = elapsed tb t0 t1 + elapsed tb t1 t"
  by (simp add: elapsed_def algebra_simps)

text \<open>The last key frame falls in the period of the running segment, and the boundaries are on time.\<close>

lemma segment_clock:
  assumes "0 < R * den tb" "G \<le> R * den tb"
  shows "foldl (seg_step fl d tb False R t0) (k, acc, log) ps = (k', acc', log') \<Longrightarrow> keys_within tb G t ps \<Longrightarrow>
      k = int (length log) + 1 \<Longrightarrow> on_time tb (R * den tb) G t0 log \<Longrightarrow>
      (k - 1) * (R * den tb) \<le> elapsed tb t0 t \<Longrightarrow> elapsed tb t0 t < k * (R * den tb) \<Longrightarrow>
      k' = int (length log') + 1 \<and> on_time tb (R * den tb) G t0 log' \<and>
      (k' - 1) * (R * den tb) \<le> elapsed tb t0 (last_key t ps) \<and> elapsed tb t0 (last_key t ps) < k' * (R * den tb)"
proof (induction ps arbitrary: k acc log t)
  case Nil
  have "k' = k" "log' = log" using Nil.prems(1) by simp_all
  then show ?case using Nil.prems(3-6) by (simp only: last_key.simps simp_thms)
next
  case (Cons p ps)
  let ?RD = "R * den tb" and ?acc = "db_add fl acc (ticks d (pkt_duration p) tb)"
  show ?case
  proof (cases "key_frame p")
    case False
    then have "seg_step fl d tb False R t0 (k, acc, log) p = (k, ?acc, log)" by (simp add: seg_step_def)
    then have "foldl (seg_step fl d tb False R t0) (k, ?acc, log) ps = (k', acc', log')" using Cons.prems(1) by simp
    from Cons.IH [OF this _ Cons.prems(3-6)] show ?thesis using Cons.prems(2) False by auto
  next
    case True
    have e: "elapsed tb t0 (pts p) = elapsed tb t0 t + elapsed tb t (pts p)" by (rule elapsed_split)
    have gap: "0 \<le> elapsed tb t (pts p)" "elapsed tb t (pts p) \<le> G" "keys_within tb G (pts p) ps"
      using Cons.prems(2) True by simp_all
    have grow: "(k + 1) * ?RD = k * ?RD + ?RD" by (simp add: algebra_simps)
    show ?thesis
    proof (cases "k * ?RD \<le> elapsed tb t0 (pts p)")
      case cut: True
      then have s: "seg_step fl d tb False R t0 (k, acc, log) p = (k + 1, zero_dur d, log @ [(pts p, ?acc)])"
        using True by (simp add: seg_step_def Let_def mult.assoc)
      have "elapsed tb t0 (pts p) < k * ?RD + G" using e gap Cons.prems(6) by linarith
      then have o: "on_time tb ?RD G t0 (log @ [(pts p, ?acc)])" and lt: "elapsed tb t0 (pts p) < (k + 1) * ?RD"
        using on_time_snoc [OF Cons.prems(4)] cut Cons.prems(3) assms(2) grow by simp_all
      have f: "foldl (seg_step fl d tb False R t0) (k + 1, zero_dur d, log @ [(pts p, ?acc)]) ps = (k', acc', log')"
        using Cons.prems(1) s by simp
      have k: "k + 1 = int (length (log @ [(pts p, ?acc)])) + 1" using Cons.prems(3) by simp
      have ge: "(k + 1 - 1) * ?RD \<le> elapsed tb t0 (pts p)" using cut by (simp only: add_diff_cancel_right')
      have "last_key t (p # ps) = last_key (pts p) ps" using True by simp
      then show ?thesis using Cons.IH [OF f gap(3) k o ge lt] by (rule ssubst)
    next
      case no: False
      then have s: "seg_step fl d tb False R t0 (k, acc, log) p = (k, ?acc, log)"
        by (simp add: seg_step_def Let_def mult.assoc)
      have "(k - 1) * ?RD \<le> elapsed tb t0 (pts p)" using e gap Cons.prems(5) by linarith
      moreover have "foldl (seg_step fl d tb False R t0) (k, ?acc, log) ps = (k', acc', log')" using Cons.prems(1) s by simp
      ultimately show ?thesis using Cons.IH [OF _ gap(3) Cons.prems(3,4)] True no by auto
    qed
  qed
qed

lemma segmenter_clock:
  assumes "segmenter fl d tb False R ps = (k, acc, log)" "ps \<noteq> []" "0 < R * den tb" "G \<le> R * den tb"
    and "keys_within tb G (pts (hd ps)) (tl ps)"
  shows "on_time tb (R * den tb) G (pts (hd ps)) log"
    and "int (length log) = elapsed tb (pts (hd ps)) (last_key (pts (hd ps)) (tl ps)) div (R * den tb)"
proof -
  let ?t0 = "pts (hd ps)" and ?RD = "R * den tb"
  have f: "foldl (seg_step fl d tb False R ?t0) (1, ticks d 0 tb, []) (tl ps) = (k, acc, log)"
    using assms(1,2) by (cases ps) (simp_all add: segmenter_def)
  have c: "k = int (length log) + 1 \<and> on_time tb ?RD G ?t0 log \<and> (k - 1) * ?RD \<le> elapsed tb ?t0 (last_key ?t0 (tl ps)) \<and>
      elapsed tb ?t0 (last_key ?t0 (tl ps)) < k * ?RD"
    by (rule segment_clock [OF assms(3,4) f assms(5)]) (use assms(3) in \<open>simp_all add: on_time_def elapsed_def\<close>)
  then show "on_time tb ?RD G ?t0 log" by simp
  let ?E = "elapsed tb ?t0 (last_key ?t0 (tl ps))"
  have "int (length log) * ?RD \<le> ?E" "?E < (int (length log) + 1) * ?RD" using c by auto
  then have "?E = ?RD * int (length log) + (?E - ?RD * int (length log))" "0 \<le> ?E - ?RD * int (length log)"
    "?E - ?RD * int (length log) < ?RD"
    by (simp_all add: algebra_simps)
  then have "?E div ?RD = int (length log)" by (rule int_div_pos_eq)
  then show "int (length log) = ?E div ?RD" by simp
qed

lemma split_at_keys: "HLS_SPLIT_BY_TIME \<notin> S \<Longrightarrow> (HLS_SPLIT_BY_TIME \<in> S) = False"
  by simp

subsection \<open>A small run\<close>

text \<open>Running the loop on given packets.\<close>

fun run_from :: "('f, 'd) float_ops \<Rightarrow> 'd dur_ops \<Rightarrow> hls_env \<Rightarrow> packet_io \<Rightarrow> AVStream \<Rightarrow> nat \<Rightarrow>
    (int \<times> 'd) list \<times> hls_muxer \<times> 'd packet_vs \<Rightarrow> AVPacket list \<Rightarrow> ((int \<times> 'd) list \<times> hls_muxer \<times> 'd packet_vs) option" where
  "run_from fl d env io st j s [] = Some s"
| "run_from fl d env io st j (log, m, v) (p # ps) =
     (case write_to_variant fl d env m io st j p v of (ret, m', v', ev) \<Rightarrow>
        if ret \<ge> 0 then run_from fl d env io st j (log @ finished v v', m', v') ps else None)"

lemma run_from_packet_run:
  "run_from fl d env io st j (log, m, v) ps = Some (log', m', v') \<Longrightarrow> packet_run fl d st j m0 v0 qs log m v \<Longrightarrow>
    packet_run fl d st j m0 v0 (qs @ ps) log' m' v'"
proof (induction ps arbitrary: log m v qs)
  case (Cons p ps)
  obtain ret m1 v1 ev where w: "write_to_variant fl d env m io st j p v = (ret, m1, v1, ev)" by (metis prod_cases4)
  have r: "ret \<ge> 0" using Cons.prems(1) w by (simp split: if_splits)
  have "run_from fl d env io st j (log @ finished v v1, m1, v1) ps = Some (log', m', v')" using Cons.prems(1) w r by simp
  from Cons.IH [OF this run_packet [OF Cons.prems(2) w r]] show ?case by simp
qed simp

definition demo_env :: hls_env where
  "demo_env = \<lparr>find_protocol = (\<lambda>_. Some ''file''), url_is_http = False, open_write = (\<lambda>_. 0), new_request = (\<lambda>_. 0),
     read_text = (\<lambda>_. (- 2, [])), read_bytes = (\<lambda>_. (- 2, 0, [])), mkdir_p = (\<lambda>_. 0), local_name = (\<lambda>_. None),
     random_key = (- 38, []), write_vtt_header = 0\<rparr>"

definition demo_io :: packet_io where
  "demo_io = \<lparr>tell_flushed = 1000, init_len = 0, dyn_open = True, frag_ret = 0, frag_len = 0, write_ret = 0, tell_written = 1000\<rparr>"

definition demo_dur :: "int dur_ops" where
  "demo_dur = \<lparr>ticks = (\<lambda>n tb. n * num tb * 1000000 div den tb), zero_dur = 0, init_list_dur = (\<lambda>n. n), after_init_list_dur = (\<lambda>n. n)\<rparr>"

definition demo_st :: AVStream where
  "demo_st = \<lparr>codec_type = AVMEDIA_TYPE_VIDEO, st_time_base = \<lparr>num = 1, den = 1\<rparr>\<rparr>"

definition demo_m :: hls_muxer where
  "demo_m = \<lparr>hctx = demo_hls\<lparr>pl_type := PLAYLIST_TYPE_VOD\<rparr>, s_url = ''out/p.m3u8'', recording_time = 2000000, time_us = 2000000, init_time_positive = False,
     use_localtime = False, http_persistent = False, encrypt_started = False, key_info_url = [], key_url = None,
     enc_key = None, enc_iv = None, key_file = [], key_string = [], key_basename = []\<rparr>"

definition demo_v :: "int packet_vs" where
  "demo_v = \<lparr>vst = demo_vs\<lparr>has_video := True\<rparr>, streams = [0], number = 1, packets_written = 0, new_start = True, dpp = 0, start_pts = AV_NOPTS,
     end_pts = AV_NOPTS, video_lastpos = 0, reference_stream_index = 0, seg_template = ''out/s%d.ts'', vtt_template = None,
     avf_pb = True, vtt_pb = False, out_open = False\<rparr>"

definition demo_packet :: "int \<Rightarrow> bool \<Rightarrow> AVPacket" where
  "demo_packet t key = \<lparr>stream_index = 0, pts = t, pkt_duration = 1, key_frame = key\<rparr>"


definition demo_packets :: "AVPacket list" where
  "demo_packets = [demo_packet 0 True, demo_packet 1 False, demo_packet 2 True]"

lemma demo_packet_run:
  obtains m v where "packet_run micro_ops demo_dur demo_st 0 demo_m demo_v demo_packets [(2, 2000000)] m v"
proof -
  have "map_option fst (run_from micro_ops demo_dur demo_env demo_io demo_st 0 ([], demo_m, demo_v) demo_packets) =
      Some [(2, 2000000)]"
    by code_simp
  then obtain m v where "run_from micro_ops demo_dur demo_env demo_io demo_st 0 ([], demo_m, demo_v) demo_packets =
      Some ([(2, 2000000)], m, v)"
    by (cases "run_from micro_ops demo_dur demo_env demo_io demo_st 0 ([], demo_m, demo_v) demo_packets") auto
  from run_from_packet_run [OF this run_start] show thesis using that by simp
qed

lemma demo_start: "plain demo_m" "list_ok demo_m demo_v" "fresh_clock demo_v" "video_stream demo_st demo_v"
  "times_fit (st_time_base demo_st) (recording_time demo_m) demo_packets" "\<forall>p \<in> set demo_packets. good_packet demo_st demo_v p"
  "demo_packets \<noteq> []"
  by (simp_all add: plain_def list_ok_def fresh_clock_def video_stream_def times_fit_def good_packet_def demo_m_def
      demo_v_def demo_st_def demo_packets_def demo_packet_def demo_hls_def demo_vs_def time_base_def elapsed_def)

lemma demo_clock: "HLS_SPLIT_BY_TIME \<notin> flags (hctx demo_m)" "recording_time demo_m = 2000000"
  "0 < 2000000 * den (st_time_base demo_st)" "2000000 \<le> 2000000 * den (st_time_base demo_st)"
  "keys_within (st_time_base demo_st) 2000000 (pts (hd demo_packets)) (tl demo_packets)"
  by (simp_all add: demo_m_def demo_hls_def demo_st_def demo_packets_def demo_packet_def elapsed_def)

subsection \<open>Properties\<close>

text \<open>C2. A run of successful calls of the packet loop on the video packets of a variant does what the reference
  \<open>segmenter\<close> does: a segment ends exactly at the first key frame (any packet, with \<open>split_by_time\<close>) that is not before the due
  time \<open>number\<close> times the recording time after the first packet, the number of the running segment is one more than the
  number of finished ones, and the list gets the durations summed up since the previous boundary - whatever the
  protocols answered on the way and whatever happened to the window, the files and the encryption.\<close>

theorem hls_packets_refine_segmenter:
  assumes "packet_run fl d st j m0 v0 ps log m v" "plain m0" "list_ok m0 v0" "fresh_clock v0" "video_stream st v0"
    "times_fit (st_time_base st) (recording_time m0) ps" "\<forall>p \<in> set ps. good_packet st v0 p" "ps \<noteq> []"
  shows "segmenter fl d (st_time_base st) (HLS_SPLIT_BY_TIME \<in> flags (hctx m0)) (recording_time m0) ps =
    (number v, last_duration (vst v), log)"
  using assms by (rule packet_run_segmenter)

theorem hls_packets_refine_segmenter_witness:
  "\<exists>v. segmenter micro_ops demo_dur (st_time_base demo_st) (HLS_SPLIT_BY_TIME \<in> flags (hctx demo_m)) (recording_time demo_m)
     demo_packets = (number (v :: int packet_vs), last_duration (vst v), [(2, 2000000)])"
proof -
  obtain m v where r: "packet_run micro_ops demo_dur demo_st 0 demo_m demo_v demo_packets [(2, 2000000)] m v" by (rule demo_packet_run)
  show ?thesis using hls_packets_refine_segmenter [OF r demo_start] by (rule exI [of _ v])
qed

text \<open>C3. With key frames at most \<open>G\<close> apart (\<open>G\<close> at most the recording time) and splitting at key frames only, the
  boundary of segment \<open>i\<close> comes at or after \<open>i + 1\<close> recording times from the first packet and less than \<open>G\<close> later:
  the boundaries follow the clock and the lateness does not add up over the stream.\<close>

theorem hls_boundaries_follow_clock:
  assumes "packet_run fl d st j m0 v0 ps log m v" "plain m0" "list_ok m0 v0" "fresh_clock v0" "video_stream st v0"
    "times_fit (st_time_base st) R ps" "\<forall>p \<in> set ps. good_packet st v0 p" "ps \<noteq> []"
    "HLS_SPLIT_BY_TIME \<notin> flags (hctx m0)" "R = recording_time m0" "0 < R * den (st_time_base st)"
    "G \<le> R * den (st_time_base st)" "keys_within (st_time_base st) G (pts (hd ps)) (tl ps)" "i < length log"
  shows "(int i + 1) * (R * den (st_time_base st)) \<le> elapsed (st_time_base st) (pts (hd ps)) (fst (log ! i)) \<and>
    elapsed (st_time_base st) (pts (hd ps)) (fst (log ! i)) < (int i + 1) * (R * den (st_time_base st)) + G"
  using segmenter_clock(1) [OF packet_run_segmenter [OF assms(1-5) assms(6) [unfolded assms(10)] assms(7,8),
      unfolded split_at_keys [OF assms(9)] assms(10) [symmetric]] assms(8,11,12,13)] assms(14)
  by (simp add: on_time_def)

theorem hls_boundaries_follow_clock_witness:
  "(int 0 + 1) * (2000000 * den (st_time_base demo_st)) \<le>
      elapsed (st_time_base demo_st) (pts (hd demo_packets)) (fst ([(2, 2000000 :: int)] ! 0)) \<and>
    elapsed (st_time_base demo_st) (pts (hd demo_packets)) (fst ([(2, 2000000 :: int)] ! 0)) <
      (int 0 + 1) * (2000000 * den (st_time_base demo_st)) + 2000000"
proof -
  obtain m v where r: "packet_run micro_ops demo_dur demo_st 0 demo_m demo_v demo_packets [(2, 2000000)] m v" by (rule demo_packet_run)
  show ?thesis
    by (rule hls_boundaries_follow_clock [OF r demo_start(1-4) demo_start(5) [unfolded demo_clock(2)] demo_start(6,7)
          demo_clock(1) demo_clock(2) [symmetric] demo_clock(3-5)]) simp
qed

text \<open>C4. Segments keep coming: under the same assumptions exactly as many segments have been finished as recording
  times have passed up to the last key frame.\<close>

theorem hls_segments_keep_coming:
  assumes "packet_run fl d st j m0 v0 ps log m v" "plain m0" "list_ok m0 v0" "fresh_clock v0" "video_stream st v0"
    "times_fit (st_time_base st) R ps" "\<forall>p \<in> set ps. good_packet st v0 p" "ps \<noteq> []"
    "HLS_SPLIT_BY_TIME \<notin> flags (hctx m0)" "R = recording_time m0" "0 < R * den (st_time_base st)"
    "G \<le> R * den (st_time_base st)" "keys_within (st_time_base st) G (pts (hd ps)) (tl ps)"
  shows "int (length log) =
    elapsed (st_time_base st) (pts (hd ps)) (last_key (pts (hd ps)) (tl ps)) div (R * den (st_time_base st))"
  by (rule segmenter_clock(2) [OF packet_run_segmenter [OF assms(1-5) assms(6) [unfolded assms(10)] assms(7,8),
      unfolded split_at_keys [OF assms(9)] assms(10) [symmetric]] assms(8,11,12,13)])

theorem hls_segments_keep_coming_witness:
  "int (length [(2 :: int, 2000000 :: int)]) = elapsed (st_time_base demo_st) (pts (hd demo_packets))
     (last_key (pts (hd demo_packets)) (tl demo_packets)) div (2000000 * den (st_time_base demo_st))"
proof -
  obtain m v where r: "packet_run micro_ops demo_dur demo_st 0 demo_m demo_v demo_packets [(2, 2000000)] m v" by (rule demo_packet_run)
  show ?thesis
    by (rule hls_segments_keep_coming [OF r demo_start(1-4) demo_start(5) [unfolded demo_clock(2)] demo_start(6,7)
          demo_clock(1) demo_clock(2) [symmetric] demo_clock(3-5)])
qed

end
