(* ===== verification/HlsDurations.thy ===== *)
theory HlsDurations
  imports HlsClock Complex_Main
begin

section \<open>The durations listed for segments\<close>

text \<open>
  The duration of a segment is a sum of doubles.  From the reference \<open>segmenter\<close> follows which durations the playlist lists
  when the operations on doubles round as IEEE 754 says: for a constant frame rate, the distance of the boundaries
  but for the rounding.
\<close>

subsection \<open>Rounding\<close>

text \<open>Durations are doubles.  \<open>val\<close> gives the number a double stands for (for an infinity or a NaN, one out of range).  Each
  operation rounds to 53 bits: the sum of two doubles is off by at most a part of \<open>2 ^ 53\<close>, and a number of ticks in
  seconds, three operations, by three times that and terms of higher order.\<close>

definition rounded :: real where "rounded = 1 + 1 / 2 ^ 53"

definition seconds :: "AVRational \<Rightarrow> int \<Rightarrow> real" where
  "seconds tb n = of_int n * of_int (num tb) / of_int (den tb)"

definition double_durations :: "('f, 'd) float_ops \<Rightarrow> 'd dur_ops \<Rightarrow> AVRational \<Rightarrow> ('d \<Rightarrow> real) \<Rightarrow> bool" where
  "double_durations fl d tb val \<longleftrightarrow>
     val (zero_dur d) = 0 \<and>
     (\<forall>a b. \<bar>val a\<bar> \<le> 2 ^ 100 \<and> \<bar>val b\<bar> \<le> 2 ^ 100 \<longrightarrow>
        \<bar>val (db_add fl a b) - (val a + val b)\<bar> \<le> (rounded - 1) * \<bar>val a + val b\<bar>) \<and>
     (\<forall>n. \<bar>n\<bar> \<le> INT64_MAX \<longrightarrow> \<bar>val (ticks d n tb) - seconds tb n\<bar> \<le> (rounded ^ 3 - 1) * \<bar>seconds tb n\<bar>)"

text \<open>Every packet lasts as long as it is away from the packet before.\<close>

fun steady :: "int \<Rightarrow> AVPacket list \<Rightarrow> bool" where
  "steady t [] = True"
| "steady t (p # ps) = (pkt_duration p = pts p - t \<and> steady (pts p) ps)"

text \<open>The durations listed when the segments begin at the given boundaries: the seconds between them, but for a part \<open>e\<close>.\<close>

fun listed_near :: "('d \<Rightarrow> real) \<Rightarrow> real \<Rightarrow> AVRational \<Rightarrow> int \<Rightarrow> (int \<times> 'd) list \<Rightarrow> bool" where
  "listed_near val e tb t [] = True"
| "listed_near val e tb t (b # bs) =
     (\<bar>val (snd b) - seconds tb (fst b - t)\<bar> \<le> e * seconds tb (fst b - t) \<and> listed_near val e tb (fst b) bs)"

abbreviation boundary :: "int \<Rightarrow> (int \<times> 'd) list \<Rightarrow> int" where
  "boundary t cuts \<equiv> (if cuts = [] then t else fst (last cuts))"

lemma listed_near_snoc:
  "listed_near val e tb t (cuts @ [(x, y)]) \<longleftrightarrow>
     listed_near val e tb t cuts \<and> \<bar>val y - seconds tb (x - boundary t cuts)\<bar> \<le> e * seconds tb (x - boundary t cuts)"
  by (induction cuts arbitrary: t) auto

text \<open>The error of a sum of \<open>k\<close> durations.\<close>

lemma rounded_ge: "1 \<le> rounded" "1 \<le> rounded ^ k" "j \<le> k \<Longrightarrow> rounded ^ j \<le> rounded ^ k"
proof -
  show one: "1 \<le> rounded" by (simp add: rounded_def)
  show "1 \<le> rounded ^ k" by (rule one_le_power [OF one])
  show "j \<le> k \<Longrightarrow> rounded ^ j \<le> rounded ^ k" by (rule power_increasing [OF _ one])
qed

lemma rounded_power:
  assumes "k \<le> 2 ^ 52"
  shows "rounded ^ k \<le> 1 + real k / 2 ^ 52"
  using assms
proof (induction k)
  case (Suc k)
  have k: "real k \<le> 2 ^ 52" using Suc.prems by (metis Suc_leD of_nat_le_iff of_nat_numeral of_nat_power)
  have "rounded ^ Suc k \<le> (1 + 1 / 2 ^ 53) * (1 + real k / 2 ^ 52)"
    using Suc by (simp add: rounded_def mult_left_mono)
  also have "\<dots> \<le> 1 + real (Suc k) / 2 ^ 52" using k by (simp add: field_simps)
  finally show ?case .
qed simp

lemma sum_error:
  fixes A T S s u E F :: real
  assumes "0 \<le> S" "0 \<le> s" "\<bar>A - S\<bar> \<le> (E - 1) * S" "\<bar>T - s\<bar> \<le> (F - 1) * s" "F \<le> E" "0 \<le> u"
    and "\<bar>B - (A + T)\<bar> \<le> u * \<bar>A + T\<bar>"
  shows "\<bar>B - (S + s)\<bar> \<le> ((1 + u) * E - 1) * (S + s)"
proof -
  have "(F - 1) * s \<le> (E - 1) * s" using assms by (simp add: mult_right_mono)
  then have e: "\<bar>(A + T) - (S + s)\<bar> \<le> (E - 1) * (S + s)" using assms(3,4) unfolding distrib_left by linarith
  moreover have "\<bar>S + s\<bar> = S + s" using assms(1,2) by simp
  moreover have "(E - 1) * (S + s) + (S + s) = E * (S + s)" by (simp add: algebra_simps)
  ultimately have "\<bar>A + T\<bar> \<le> E * (S + s)" by linarith
  then have "u * \<bar>A + T\<bar> \<le> u * (E * (S + s))" using assms(6) by (rule mult_left_mono)
  then have "\<bar>B - (S + s)\<bar> \<le> u * (E * (S + s)) + (E - 1) * (S + s)" using e assms(7) by linarith
  also have "\<dots> = ((1 + u) * E - 1) * (S + s)" by (simp add: algebra_simps)
  finally show ?thesis .
qed

lemma seconds_add: "seconds tb (m + n) = seconds tb m + seconds tb n"
  by (simp add: seconds_def add_divide_distrib algebra_simps)

lemma seconds_nonneg: "time_base tb \<Longrightarrow> 0 \<le> n \<Longrightarrow> 0 \<le> seconds tb n"
  by (simp add: seconds_def time_base_def)

lemma seconds_mono: "time_base tb \<Longrightarrow> m \<le> n \<Longrightarrow> seconds tb m \<le> seconds tb n"
  using seconds_nonneg [of tb "n - m"] seconds_add [of tb m "n - m"] by simp

lemma times_fit_seconds:
  assumes "times_fit tb R ps" "p \<in> set ps"
  shows "seconds tb (pts p - pts (hd ps)) \<le> 2 ^ 64" "0 \<le> pts p - pts (hd ps)" "pts p - pts (hd ps) \<le> INT64_MAX"
proof -
  let ?n = "(pts p - pts (hd ps)) * num tb"
  have f: "time_base tb" "0 \<le> pts p - pts (hd ps)" "pts p - pts (hd ps) \<le> INT64_MAX" "?n * 1000000 div den tb \<le> INT64_MAX"
    using assms by (auto simp: times_fit_def elapsed_def)
  then show "0 \<le> pts p - pts (hd ps)" "pts p - pts (hd ps) \<le> INT64_MAX" by simp_all
  have d: "0 < den tb" "0 \<le> ?n" using f(1,2) by (simp_all add: time_base_def)
  then have "?n \<le> ?n * 1000000" by linarith
  then have "?n div den tb \<le> INT64_MAX" using zdiv_mono1 [OF _ d(1), of ?n "?n * 1000000"] f(4) by linarith
  moreover have "?n = ?n div den tb * den tb + ?n mod den tb" "?n mod den tb < den tb" using d(1) by simp_all
  ultimately have "?n \<le> INT64_MAX * den tb + den tb" using mult_right_mono [of "?n div den tb" INT64_MAX "den tb"] d(1) by linarith
  then have "?n \<le> (INT64_MAX + 1) * den tb" by (simp add: algebra_simps)
  then have "real_of_int ?n \<le> real_of_int ((INT64_MAX + 1) * den tb)" unfolding of_int_le_iff .
  then show "seconds tb (pts p - pts (hd ps)) \<le> 2 ^ 64" using d(1) by (simp add: seconds_def field_simps)
qed

text \<open>The reference after \<open>j\<close> packets more than the first: what is listed is near, and so is the running sum.\<close>

definition near_sum :: "('d \<Rightarrow> real) \<Rightarrow> AVRational \<Rightarrow> nat \<Rightarrow> int \<Rightarrow> 'd \<Rightarrow> bool" where
  "near_sum val tb j n acc \<longleftrightarrow> 0 \<le> n \<and> \<bar>val acc - seconds tb n\<bar> \<le> (rounded ^ (j + 3) - 1) * seconds tb n"

lemma near_sum_add:
  assumes "double_durations fl d tb val" "time_base tb" "near_sum val tb j m acc" "0 \<le> n" "n \<le> INT64_MAX" "j + 3 \<le> 2 ^ 52"
    and "seconds tb (m + n) \<le> 2 ^ 64"
  shows "near_sum val tb (Suc j) (m + n) (db_add fl acc (ticks d n tb))"
proof -
  have S: "0 \<le> seconds tb m" "0 \<le> seconds tb n" "seconds tb m + seconds tb n \<le> 2 ^ 64"
    using assms(3,4,7) seconds_nonneg [OF assms(2)] by (simp_all add: near_sum_def seconds_add)
  have A: "\<bar>val acc - seconds tb m\<bar> \<le> (rounded ^ (j + 3) - 1) * seconds tb m" using assms(3) by (simp add: near_sum_def)
  have T: "\<bar>val (ticks d n tb) - seconds tb n\<bar> \<le> (rounded ^ 3 - 1) * seconds tb n"
  proof -
    have "\<bar>n\<bar> \<le> INT64_MAX" using assms(4,5) by linarith
    then have "\<bar>val (ticks d n tb) - seconds tb n\<bar> \<le> (rounded ^ 3 - 1) * \<bar>seconds tb n\<bar>"
      using assms(1) unfolding double_durations_def by blast
    then show ?thesis using S(2) by simp
  qed
  have two: "rounded ^ k - 1 \<le> 1" if "k \<le> 2 ^ 52" for k
  proof -
    have "real k \<le> 2 ^ 52" using that by (metis of_nat_le_iff of_nat_numeral of_nat_power)
    then show ?thesis using rounded_power [OF that] by simp
  qed
  have "(rounded ^ (j + 3) - 1) * seconds tb m \<le> 1 * seconds tb m" "(rounded ^ 3 - 1) * seconds tb n \<le> 1 * seconds tb n"
    using mult_right_mono [OF two [OF assms(6)] S(1)] mult_right_mono [OF _ S(2), of "rounded ^ 3 - 1" 1] two [of 3] by simp_all
  then have "\<bar>val acc\<bar> \<le> 2 ^ 100" "\<bar>val (ticks d n tb)\<bar> \<le> 2 ^ 100" using A T S by (auto simp: abs_le_iff)
  then have B: "\<bar>val (db_add fl acc (ticks d n tb)) - (val acc + val (ticks d n tb))\<bar> \<le> (rounded - 1) * \<bar>val acc + val (ticks d n tb)\<bar>"
    using assms(1) unfolding double_durations_def by blast
  have "\<bar>val (db_add fl acc (ticks d n tb)) - (seconds tb m + seconds tb n)\<bar> \<le>
      ((1 + (rounded - 1)) * rounded ^ (j + 3) - 1) * (seconds tb m + seconds tb n)"
    by (rule sum_error [OF S(1,2) A T rounded_ge(3) _ B]) (simp_all add: rounded_ge)
  moreover have "(1 + (rounded - 1)) * rounded ^ (j + 3) = rounded ^ (Suc j + 3)" by (simp only: add_Suc power_Suc) simp
  moreover have "0 \<le> m + n" using assms(3,4) by (simp add: near_sum_def)
  ultimately show ?thesis unfolding near_sum_def seconds_add by simp
qed

lemma segment_durations:
  assumes "double_durations fl d tb val" "time_base tb" "N + 3 \<le> 2 ^ 52" "rounded ^ (N + 3) - 1 \<le> e"
  shows "foldl (seg_step fl d tb b R t0) (k, acc, cuts) ps = (k', acc', cuts') \<Longrightarrow> steady t ps \<Longrightarrow>
      \<forall>p \<in> set ps. 0 \<le> pkt_duration p \<and> pts p - t0 \<le> INT64_MAX \<and> seconds tb (pts p - t0) \<le> 2 ^ 64 \<Longrightarrow> t0 \<le> boundary t0 cuts \<Longrightarrow>
      listed_near val e tb t0 cuts \<Longrightarrow> near_sum val tb j (t - boundary t0 cuts) acc \<Longrightarrow>
      j + length ps \<le> N \<Longrightarrow> listed_near val e tb t0 cuts'"
proof (induction ps arbitrary: k acc cuts t j)
  case (Cons p ps)
  define B where "B = boundary t0 cuts"
  define acc1 where "acc1 = db_add fl acc (ticks d (pkt_duration p) tb)"
  have p: "0 \<le> pkt_duration p" "pkt_duration p = pts p - t" "pts p - t0 \<le> INT64_MAX" "seconds tb (pts p - t0) \<le> 2 ^ 64"
    using Cons.prems(2,3) by simp_all
  have B: "t0 \<le> B" "0 \<le> t - B" "near_sum val tb j (t - B) acc" using Cons.prems(4,6) by (simp_all add: B_def near_sum_def del: if_split)
  have sec: "seconds tb ((t - B) + pkt_duration p) \<le> 2 ^ 64" using seconds_mono [OF assms(2), of "pts p - B" "pts p - t0"] B(1) p(2,4) by simp
  have near: "near_sum val tb (Suc j) (pts p - B) acc1"
    using near_sum_add [OF assms(1,2) B(3) p(1) _ _ sec] p B Cons.prems(7) assms(3) by (simp add: acc1_def)
  have st: "steady (pts p) ps" "\<forall>p \<in> set ps. 0 \<le> pkt_duration p \<and> pts p - t0 \<le> INT64_MAX \<and> seconds tb (pts p - t0) \<le> 2 ^ 64"
    "Suc j + length ps \<le> N" using Cons.prems(2,3,7) by simp_all
  have pos: "t0 \<le> pts p" using p(1,2) B(1,2) by linarith
  show ?case
  proof (cases "(key_frame p \<or> b) \<and> k * R * den tb \<le> elapsed tb t0 (pts p)")
    case True
    then have s: "seg_step fl d tb b R t0 (k, acc, cuts) p = (k + 1, zero_dur d, cuts @ [(pts p, acc1)])"
      by (simp add: seg_step_def acc1_def)
    have "rounded ^ (Suc j + 3) - 1 \<le> e" using rounded_ge(3) [of "Suc j + 3" "N + 3"] st(3) assms(4) by linarith
    then have "(rounded ^ (Suc j + 3) - 1) * seconds tb (pts p - B) \<le> e * seconds tb (pts p - B)"
      using near seconds_nonneg [OF assms(2)] by (intro mult_right_mono) (simp_all add: near_sum_def)
    then have "\<bar>val acc1 - seconds tb (pts p - B)\<bar> \<le> e * seconds tb (pts p - B)"
      using near unfolding near_sum_def by linarith
    then have l: "listed_near val e tb t0 (cuts @ [(pts p, acc1)])"
      using Cons.prems(5) unfolding listed_near_snoc B_def by blast
    have z: "near_sum val tb (Suc j) (pts p - boundary t0 (cuts @ [(pts p, acc1)])) (zero_dur d)"
      using assms(1) by (simp add: near_sum_def double_durations_def seconds_def)
    show ?thesis using Cons.IH [OF _ st(1,2) _ l z st(3)] Cons.prems(1) s pos by simp
  next
    case False
    have s: "seg_step fl d tb b R t0 (k, acc, cuts) p = (k, acc1, cuts)"
      unfolding seg_step_def prod.case Let_def if_not_P [OF False] acc1_def by (rule refl)
    show ?thesis using Cons.IH [OF _ st(1,2) Cons.prems(4,5) near [unfolded B_def] st(3)] Cons.prems(1) s by simp
  qed
qed simp

lemma segmenter_durations:
  assumes "segmenter fl d tb b R ps = (k, acc, cuts)" "double_durations fl d tb val" "times_fit tb R0 ps" "ps \<noteq> []"
    "steady (pts (hd ps)) (tl ps)" "\<forall>p \<in> set ps. 0 \<le> pkt_duration p"
  shows "listed_near val (real (length ps + 3) / 2 ^ 52) tb (pts (hd ps)) cuts"
proof -
  have tb: "time_base tb" "length ps < 2 ^ 32" using assms(3) by (simp_all add: times_fit_def)
  have run: "foldl (seg_step fl d tb b R (pts (hd ps))) (1, ticks d 0 tb, []) (tl ps) = (k, acc, cuts)"
    using assms(1,4) by (cases ps) (simp_all add: segmenter_def)
  have tl: "\<forall>p \<in> set (tl ps). 0 \<le> pkt_duration p \<and> pts p - pts (hd ps) \<le> INT64_MAX \<and> seconds tb (pts p - pts (hd ps)) \<le> 2 ^ 64"
    using assms(6) times_fit_seconds [OF assms(3)] assms(4) by (auto dest: list.set_sel(2))
  have z: "near_sum val tb 0 0 (ticks d 0 tb)"
  proof -
    have "\<forall>n. \<bar>n\<bar> \<le> INT64_MAX \<longrightarrow> \<bar>val (ticks d n tb) - seconds tb n\<bar> \<le> (rounded ^ 3 - 1) * \<bar>seconds tb n\<bar>"
      using assms(2) unfolding double_durations_def by blast
    from this [rule_format, of 0] show ?thesis by (simp add: near_sum_def seconds_def)
  qed
  have n: "length ps + 3 \<le> 2 ^ 52" using tb(2) by simp
  have e: "rounded ^ (length ps + 3) - 1 \<le> real (length ps + 3) / 2 ^ 52" using rounded_power [OF n] by linarith
  show ?thesis
    by (rule segment_durations [OF assms(2) tb(1) n e run assms(5) tl, where j = 0]) (use z in simp_all)
qed

subsection \<open>Arithmetic that rounds to 53 bits\<close>

text \<open>The numbers with 53 significant bits, and the nearest to a real: the laws hold for it, with every time base.\<close>

definition ulp :: "real \<Rightarrow> real" where
  "ulp x = 2 powr (of_int \<lfloor>log 2 \<bar>x\<bar>\<rfloor> - 52)"

definition nearest :: "real \<Rightarrow> real" where
  "nearest x = (if x = 0 then 0 else of_int (round (x / ulp x)) * ulp x)"

lemma nearest_error: "\<bar>nearest x - x\<bar> \<le> (rounded - 1) * \<bar>x\<bar>"
proof (cases "x = 0")
  case False
  have u: "0 < ulp x" by (simp add: ulp_def)
  have "2 powr of_int \<lfloor>log 2 \<bar>x\<bar>\<rfloor> \<le> 2 powr log 2 \<bar>x\<bar>" by (intro powr_mono) simp_all
  also have "\<dots> = \<bar>x\<bar>" using False by simp
  finally have "ulp x \<le> \<bar>x\<bar> / 2 powr 52" by (simp add: ulp_def powr_diff divide_right_mono)
  then have ux: "ulp x \<le> \<bar>x\<bar> / 2 ^ 52" by (simp add: powr_numeral)
  have "nearest x - x = (of_int (round (x / ulp x)) - x / ulp x) * ulp x" using u False by (simp add: nearest_def left_diff_distrib)
  then have "\<bar>nearest x - x\<bar> = \<bar>of_int (round (x / ulp x)) - x / ulp x\<bar> * ulp x" using u by (simp add: abs_mult)
  also have "\<dots> \<le> 1 / 2 * ulp x" using of_int_round_abs_le [of "x / ulp x"] u by (intro mult_right_mono) simp_all
  also have "\<dots> \<le> (rounded - 1) * \<bar>x\<bar>" using ux by (simp add: rounded_def)
  finally show ?thesis .
qed (simp add: nearest_def)

lemma nearest_twice:
  assumes "\<bar>y - x\<bar> \<le> (rounded ^ k - 1) * \<bar>x\<bar>"
  shows "\<bar>nearest y - x\<bar> \<le> (rounded ^ Suc k - 1) * \<bar>x\<bar>"
proof -
  have "\<bar>y\<bar> \<le> rounded ^ k * \<bar>x\<bar>" using assms by (simp add: left_diff_distrib)
  then have "(rounded - 1) * \<bar>y\<bar> \<le> (rounded - 1) * (rounded ^ k * \<bar>x\<bar>)" by (intro mult_left_mono) (simp_all add: rounded_ge)
  moreover have "(rounded ^ Suc k - 1) * \<bar>x\<bar> = (rounded - 1) * (rounded ^ k * \<bar>x\<bar>) + (rounded ^ k - 1) * \<bar>x\<bar>" by (simp add: algebra_simps)
  ultimately show ?thesis using nearest_error [of y] assms by linarith
qed

lemma nearest_seconds:
  "\<bar>nearest (nearest (nearest (of_int n) * of_int (num tb)) / of_int (den tb)) - seconds tb n\<bar> \<le> (rounded ^ 3 - 1) * \<bar>seconds tb n\<bar>"
proof -
  have scale: "\<bar>y * c - x * c\<bar> \<le> e * \<bar>x * c\<bar>" if "\<bar>y - x\<bar> \<le> e * \<bar>x\<bar>" for x y c e :: real
  proof -
    have "\<bar>y * c - x * c\<bar> = \<bar>y - x\<bar> * \<bar>c\<bar>" by (simp add: left_diff_distrib flip: abs_mult)
    then show ?thesis using mult_right_mono [OF that abs_ge_zero [of c]] by (simp add: abs_mult mult.assoc)
  qed
  have a: "\<bar>nearest (of_int n) - of_int n\<bar> \<le> (rounded ^ 1 - 1) * \<bar>of_int n\<bar>" using nearest_error [of "of_int n"] by simp
  have b: "\<bar>nearest (nearest (of_int n) * of_int (num tb)) - of_int n * of_int (num tb)\<bar> \<le> (rounded ^ Suc 1 - 1) * \<bar>of_int n * of_int (num tb)\<bar>"
    by (rule nearest_twice [OF scale [OF a]])
  show ?thesis
    using nearest_twice [OF scale [OF b, of "inverse (of_int (den tb))"]] by (simp add: seconds_def divide_inverse numeral_3_eq_3)
qed

text \<open>Sums of durations as expressions, and what they stand for when every operation rounds to the nearest.\<close>

datatype duration_sum = NoTime | Ticks int AVRational | Sum duration_sum duration_sum

fun nearest_value :: "duration_sum \<Rightarrow> real" where
  "nearest_value NoTime = 0"
| "nearest_value (Ticks n tb) = nearest (nearest (nearest (of_int n) * of_int (num tb)) / of_int (den tb))"
| "nearest_value (Sum a b) = nearest (nearest_value a + nearest_value b)"

definition sum_ops :: "(int, duration_sum) float_ops" where
  "sum_ops =
     \<lparr>fl_zero = 0, fl_add = (\<lambda>x _. x), fl_sub = (\<lambda>x _. x), fl_le_neg = (\<lambda>_ _. False), db_add = Sum,
      db_le = (\<lambda>_ _. False), db_lrint = (\<lambda>_. 0), db_show = (\<lambda>_. []), db_atof = (\<lambda>_. NoTime),
      db_micro = (\<lambda>_. 0), db_date = (\<lambda>_. None)\<rparr>"

definition sum_dur :: "duration_sum dur_ops" where
  "sum_dur = \<lparr>ticks = Ticks, zero_dur = NoTime, init_list_dur = (\<lambda>n. n), after_init_list_dur = (\<lambda>n. n)\<rparr>"

lemma nearest_durations: "double_durations sum_ops sum_dur tb nearest_value"
  by (simp add: double_durations_def sum_ops_def sum_dur_def nearest_error nearest_seconds)

subsection \<open>Property\<close>

text \<open>C16. With a constant frame rate (every packet lasts as long as it is away from the packet before) the duration listed for
  a segment is the distance between its two boundaries in seconds, up to the rounding of the additions: a part of at most
  the number of packets and three more, over \<open>2 ^ 52\<close>.\<close>

theorem hls_durations_near:
  assumes "packet_run fl d st j m0 v0 ps cuts m v" "plain m0" "list_ok m0 v0" "fresh_clock v0" "video_stream st v0"
    "times_fit (st_time_base st) (recording_time m0) ps" "\<forall>p \<in> set ps. good_packet st v0 p" "ps \<noteq> []"
    "double_durations fl d (st_time_base st) val" "steady (pts (hd ps)) (tl ps)" "\<forall>p \<in> set ps. 0 \<le> pkt_duration p"
  shows "listed_near val (real (length ps + 3) / 2 ^ 52) (st_time_base st) (pts (hd ps)) cuts"
  by (rule segmenter_durations [OF packet_run_segmenter [OF assms(1-8)] assms(9,6,8,10,11)])

text \<open>Four packets of two thirds of a second in the time base of MPEG transport streams.\<close>

definition ts_st :: AVStream where
  "ts_st = \<lparr>codec_type = AVMEDIA_TYPE_VIDEO, st_time_base = \<lparr>num = 1, den = 90000\<rparr>\<rparr>"

definition ts_packets :: "AVPacket list" where
  "ts_packets = map (\<lambda>i. \<lparr>stream_index = 0, pts = 60000 * i, pkt_duration = 60000, key_frame = (i \<in> {0, 3})\<rparr>) [0, 1, 2, 3]"

definition ts_v :: "duration_sum packet_vs" where
  "ts_v =
     \<lparr>vst =
        \<lparr>var_stream_idx = 0, sequence = 0, avf_url = [], vtt_url = [], has_video = True, has_subtitle = False,
         video_keyframe_pos = 0, video_keyframe_size = 0, last_duration = NoTime, start_pos = 0, last_size = 0, nb_entries = 0,
         discontinuity_set = False, discontinuity = False, segments = [], old_segments = [], init_range_length = 0,
         initial_prog_date_time = NoTime, current_segment_final_filename_fmt = [], fmp4_init_filename = [],
         m3u8_name = ''out/o.m3u8'', vtt_m3u8_name = None, baseurl = None, varname = None\<rparr>,
      streams = [0], number = 1, packets_written = 0, new_start = True, dpp = NoTime, start_pts = AV_NOPTS,
      end_pts = AV_NOPTS, video_lastpos = 0, reference_stream_index = 0, seg_template = ''out/s%d.ts'', vtt_template = None,
      avf_pb = True, vtt_pb = False, out_open = False\<rparr>"

text \<open>The sum for the segment: the first packet is not counted.\<close>

definition ts_sum :: duration_sum where
  "ts_sum = (let t = Ticks 60000 (st_time_base ts_st) in Sum (Sum (Sum (Ticks 0 (st_time_base ts_st)) t) t) t)"

lemma ts_packet_run:
  obtains m v where "packet_run sum_ops sum_dur ts_st 0 demo_m ts_v ts_packets [(180000, ts_sum)] m v"
proof -
  have "map_option fst (run_from sum_ops sum_dur demo_env demo_io ts_st 0 ([], demo_m, ts_v) ts_packets) = Some [(180000, ts_sum)]"
    by code_simp
  then obtain m v where "run_from sum_ops sum_dur demo_env demo_io ts_st 0 ([], demo_m, ts_v) ts_packets = Some ([(180000, ts_sum)], m, v)"
    by (cases "run_from sum_ops sum_dur demo_env demo_io ts_st 0 ([], demo_m, ts_v) ts_packets") auto
  from run_from_packet_run [OF this run_start] show thesis using that by simp
qed

lemma hls_durations_near_witness:
  "\<bar>nearest_value ts_sum - 2\<bar> \<le> 7 / 2 ^ 51"
proof -
  obtain m v where r: "packet_run sum_ops sum_dur ts_st 0 demo_m ts_v ts_packets [(180000, ts_sum)] m v" by (rule ts_packet_run)
  have start: "plain demo_m" "list_ok demo_m ts_v" "fresh_clock ts_v" "video_stream ts_st ts_v"
    "times_fit (st_time_base ts_st) (recording_time demo_m) ts_packets" "\<forall>p \<in> set ts_packets. good_packet ts_st ts_v p"
    "ts_packets \<noteq> []" "steady (pts (hd ts_packets)) (tl ts_packets)" "\<forall>p \<in> set ts_packets. 0 \<le> pkt_duration p" "length ts_packets = 4"
    "pts (hd ts_packets) = 0" "seconds (st_time_base ts_st) 180000 = 2"
    by (simp_all add: plain_def list_ok_def fresh_clock_def video_stream_def times_fit_def good_packet_def demo_m_def
        ts_v_def ts_st_def ts_packets_def demo_hls_def time_base_def elapsed_def seconds_def)
  show ?thesis
    using hls_durations_near [OF r start(1-7) nearest_durations start(8,9)] start(10-12) by simp
qed

end
