(* ===== verification/HlsVariants.thy ===== *)
theory HlsVariants
  imports HlsPacket
begin

section \<open>Variant streams of the muxer: the map strings of \<open>hlsenc.c\<close>\<close>

text \<open>
  Which elementary streams form a variant is given by the option \<open>var_stream_map\<close>: definitions separated by blanks, each
  with keys separated by commas, such as \<open>a:0,agroup:low v:0,agroup:low\<close>.  The streams of a variant are an array
  allocated before its keys are parsed; an entry is the number of an elementary stream, or null (\<open>None\<close>).
\<close>

definition atoi :: "string \<Rightarrow> int" where
  "atoi s = s32 (strtoll10 s)"

text \<open>\<open>while (tok = av_strtok(p, delim, &saveptr)) p = NULL\<close>: the tokens in turn.\<close>

lemma av_strtok_eq:
  assumes "t = dropWhile (\<lambda>c. c \<in> set delim) s"
  shows "av_strtok (Some s) delim save =
    (if t = [] then (None, None)
     else (Some (takeWhile (\<lambda>c. c \<notin> set delim) t), case dropWhile (\<lambda>c. c \<notin> set delim) t of [] \<Rightarrow> None | _ # r \<Rightarrow> Some r))"
proof (cases t)
  case Nil
  then show ?thesis using assms by (simp add: av_strtok_def Let_def)
next
  case (Cons c u)
  have "dropWhile (\<lambda>c. c \<in> set delim) s \<noteq> []" unfolding assms [symmetric] Cons by simp
  from hd_dropWhile [OF this] have "c \<notin> set delim" unfolding assms [symmetric] Cons by simp
  then have tw: "takeWhile (\<lambda>c. c \<notin> set delim) t = c # takeWhile (\<lambda>c. c \<notin> set delim) u"
    "dropWhile (\<lambda>c. c \<notin> set delim) t = dropWhile (\<lambda>c. c \<notin> set delim) u"
    by (simp_all add: Cons)
  have "av_strtok (Some s) delim save = (Some (c # takeWhile (\<lambda>c. c \<notin> set delim) u),
      if dropWhile (\<lambda>c. c \<notin> set delim) u \<noteq> [] then Some (tl (dropWhile (\<lambda>c. c \<notin> set delim) u)) else None)"
    unfolding av_strtok_def Let_def by (simp only: option.simps if_False assms [symmetric] Cons list.simps list.sel simp_thms)
  then show ?thesis unfolding tw using Cons by (cases "dropWhile (\<lambda>c. c \<notin> set delim) u") (simp_all only: list.simps list.sel simp_thms if_True if_False)
qed

lemma av_strtok_shorter:
  assumes "av_strtok (Some s) delim save = (Some tok, Some r)"
  shows "length r < length s"
proof -
  define t where "t = dropWhile (\<lambda>c. c \<in> set delim) s"
  obtain c where "dropWhile (\<lambda>c. c \<notin> set delim) t = c # r"
    using assms unfolding av_strtok_eq [OF t_def] by (auto split: if_splits list.splits)
  then have "length r < length (dropWhile (\<lambda>c. c \<notin> set delim) t)" by simp
  also have "\<dots> \<le> length t" by (rule length_dropWhile_le)
  also have "\<dots> \<le> length s" unfolding t_def by (rule length_dropWhile_le)
  finally show ?thesis .
qed

function strtok_all :: "string \<Rightarrow> string \<Rightarrow> string list" where
  "strtok_all delim s =
     (case av_strtok (Some s) delim None of
        (None, _) \<Rightarrow> []
      | (Some tok, None) \<Rightarrow> [tok]
      | (Some tok, Some r) \<Rightarrow> tok # strtok_all delim r)"
  by pat_completeness auto
termination by (relation "measure (\<lambda>(delim, s). length s)") (auto dest: av_strtok_shorter [OF sym])

declare strtok_all.simps [simp del]

subsection \<open>The map of the variants\<close>

record map_variant =
  v_idx :: nat
  v_streams :: "nat option list"
  v_language :: "string option"
  v_default :: bool
  v_name :: "string option"
  v_agroup :: "string option"
  v_ccgroup :: "string option"

record map_flags =
  has_default_key :: bool
  has_video_m3u8 :: bool

text \<open>The input streams are given by their types.\<close>

fun nth_codec_loop :: "AVMediaType list \<Rightarrow> AVMediaType \<Rightarrow> int \<Rightarrow> int \<Rightarrow> nat \<Rightarrow> int" where
  "nth_codec_loop [] t stream_id cnt i = - 1"
| "nth_codec_loop (t' # types) t stream_id cnt i =
     (if t' \<noteq> t then nth_codec_loop types t stream_id cnt (Suc i)
      else if cnt = stream_id then int i
      else nth_codec_loop types t stream_id (cnt + 1) (Suc i))"

definition get_nth_codec_stream_index :: "AVMediaType list \<Rightarrow> AVMediaType \<Rightarrow> int \<Rightarrow> int" where
  "get_nth_codec_stream_index types t stream_id =
     (if stream_id < 0 \<or> stream_id > u32 (int (length types) - 1) then - 1
      else nth_codec_loop types t stream_id 0 0)"

text \<open>How many streams the array has room for: every place in the definition where \<open>a:\<close>, \<open>v:\<close> or \<open>s:\<close> is read.\<close>

fun count_stream_keys :: "string \<Rightarrow> nat" where
  "count_stream_keys [] = 0"
| "count_stream_keys (c # q) =
     (if av_strncasecmp (c # q) ''a:'' 2 = 0 \<or> av_strncasecmp (c # q) ''v:'' 2 = 0 \<or> av_strncasecmp (c # q) ''s:'' 2 = 0
      then 1 else 0) + count_stream_keys q"

definition map_stream :: "AVMediaType list \<Rightarrow> map_variant list \<Rightarrow> AVMediaType \<Rightarrow> string \<Rightarrow> map_variant \<times> nat \<Rightarrow>
    int + map_variant \<times> nat" where
  "map_stream types earlier t val = (\<lambda>(vs, nb_streams).
     let i = (if av_isdigit (deref val) then get_nth_codec_stream_index types t (atoi val) else - 1)
     in if i \<ge> 0 \<and> nb_streams < length (v_streams vs) then
          if Some (nat i) \<in> set (take nb_streams (v_streams vs)) then Inl AVERROR_EINVAL
          else if \<exists>v \<in> set earlier. Some (nat i) \<in> set (v_streams v) then Inl AVERROR_EINVAL
          else Inr (vs\<lparr>v_streams := (v_streams vs)[nb_streams := Some (nat i)]\<rparr>, nb_streams + 1)
        else Inl AVERROR_EINVAL)"

text \<open>One key with its value.\<close>

datatype map_key = Language string | Default string | Name string | Agroup string | Ccgroup string
  | Stream AVMediaType string

definition read_map_key :: "string \<Rightarrow> map_key option" where
  "read_map_key keyval =
     (case av_strstart keyval ''language:'' of Some val \<Rightarrow> Some (Language val) | None \<Rightarrow>
      case av_strstart keyval ''default:'' of Some val \<Rightarrow> Some (Default val) | None \<Rightarrow>
      case av_strstart keyval ''name:'' of Some val \<Rightarrow> Some (Name val) | None \<Rightarrow>
      case av_strstart keyval ''agroup:'' of Some val \<Rightarrow> Some (Agroup val) | None \<Rightarrow>
      case av_strstart keyval ''ccgroup:'' of Some val \<Rightarrow> Some (Ccgroup val) | None \<Rightarrow>
      case av_strstart keyval ''v:'' of Some val \<Rightarrow> Some (Stream AVMEDIA_TYPE_VIDEO val) | None \<Rightarrow>
      case av_strstart keyval ''a:'' of Some val \<Rightarrow> Some (Stream AVMEDIA_TYPE_AUDIO val) | None \<Rightarrow>
      case av_strstart keyval ''s:'' of Some val \<Rightarrow> Some (Stream AVMEDIA_TYPE_SUBTITLE val) | None \<Rightarrow> None)"

type_synonym map_state = "map_flags \<times> map_variant \<times> nat"

fun apply_key :: "AVMediaType list \<Rightarrow> map_variant list \<Rightarrow> map_key \<Rightarrow> map_state \<Rightarrow> int + map_state" where
  "apply_key types earlier (Language val) (f, vs, n) = Inr (f, vs\<lparr>v_language := Some val\<rparr>, n)"
| "apply_key types earlier (Default val) (f, vs, n) =
     Inr (f\<lparr>has_default_key := True\<rparr>, vs\<lparr>v_default := av_strncasecmp val ''YES'' 3 = 0 \<or> av_strncasecmp val ''1'' 1 = 0\<rparr>, n)"
| "apply_key types earlier (Name val) (f, vs, n) = Inr (f, vs\<lparr>v_name := Some val\<rparr>, n)"
| "apply_key types earlier (Agroup val) (f, vs, n) = Inr (f, vs\<lparr>v_agroup := Some val\<rparr>, n)"
| "apply_key types earlier (Ccgroup val) (f, vs, n) = Inr (f, vs\<lparr>v_ccgroup := Some val\<rparr>, n)"
| "apply_key types earlier (Stream t val) (f, vs, n) =
     (case map_stream types earlier t val (vs, n) of
        Inl e \<Rightarrow> Inl e
      | Inr (vs, n) \<Rightarrow> Inr (if t = AVMEDIA_TYPE_VIDEO then f\<lparr>has_video_m3u8 := True\<rparr> else f, vs, n))"

fun parse_keys :: "AVMediaType list \<Rightarrow> map_variant list \<Rightarrow> string list \<Rightarrow> map_state \<Rightarrow> int + map_state" where
  "parse_keys types earlier [] st = Inr st"
| "parse_keys types earlier (keyval # keyvals) st =
     (case read_map_key keyval of
        None \<Rightarrow> Inl AVERROR_EINVAL
      | Some key \<Rightarrow>
          (case apply_key types earlier key st of Inl e \<Rightarrow> Inl e | Inr st \<Rightarrow> parse_keys types earlier keyvals st))"

definition new_variant :: "nat \<Rightarrow> string \<Rightarrow> map_variant" where
  "new_variant i varstr =
     \<lparr>v_idx = i, v_streams = replicate (count_stream_keys varstr) None, v_language = None, v_default = False, v_name = None,
      v_agroup = None, v_ccgroup = None\<rparr>"

fun parse_variants :: "AVMediaType list \<Rightarrow> nat \<Rightarrow> string list \<Rightarrow> map_flags \<Rightarrow> map_variant list \<Rightarrow> int + map_flags \<times> map_variant list" where
  "parse_variants types nb [] f earlier = Inr (f, earlier)"
| "parse_variants types nb (varstr # varstrs) f earlier =
     (if \<not> length earlier < nb then Inl AVERROR_EINVAL
      else case parse_keys types earlier (strtok_all '','' varstr) (f, new_variant (length earlier) varstr, 0) of
             Inl e \<Rightarrow> Inl e
           | Inr (f, vs, n) \<Rightarrow> parse_variants types nb varstrs f (earlier @ [vs]))"

abbreviation BLANKS :: string where "BLANKS \<equiv> [CHR '' '', CHR 0x09]"

definition parse_variant_stream_mapstring :: "AVMediaType list \<Rightarrow> string \<Rightarrow> map_flags \<Rightarrow> int + map_flags \<times> map_variant list" where
  "parse_variant_stream_mapstring types var_stream_map f =
     (let varstrs = strtok_all BLANKS var_stream_map
      in parse_variants types (length varstrs) varstrs f [])"

subsection \<open>Closed captions\<close>

record cc_stream =
  cc_group :: "string option"
  cc_instreamid :: "string option"
  cc_language :: "string option"

fun parse_cc_keys :: "string list \<Rightarrow> cc_stream \<Rightarrow> int + cc_stream" where
  "parse_cc_keys [] ccs = Inr ccs"
| "parse_cc_keys (keyval # keyvals) ccs =
     (case av_strstart keyval ''ccgroup:'' of Some val \<Rightarrow> parse_cc_keys keyvals (ccs\<lparr>cc_group := Some val\<rparr>) | None \<Rightarrow>
      case av_strstart keyval ''instreamid:'' of Some val \<Rightarrow> parse_cc_keys keyvals (ccs\<lparr>cc_instreamid := Some val\<rparr>) | None \<Rightarrow>
      case av_strstart keyval ''language:'' of Some val \<Rightarrow> parse_cc_keys keyvals (ccs\<lparr>cc_language := Some val\<rparr>) | None \<Rightarrow>
      Inl AVERROR_EINVAL)"

definition instreamid_ok :: "string \<Rightarrow> bool" where
  "instreamid_ok i =
     (case av_strstart i ''CC'' of Some val \<Rightarrow> \<not> (atoi val < 1 \<or> atoi val > 4) | None \<Rightarrow>
      case av_strstart i ''SERVICE'' of Some val \<Rightarrow> \<not> (atoi val < 1 \<or> atoi val > 63) | None \<Rightarrow> False)"

fun parse_ccs :: "nat \<Rightarrow> string list \<Rightarrow> cc_stream list \<Rightarrow> int + cc_stream list" where
  "parse_ccs nb [] earlier = Inr earlier"
| "parse_ccs nb (ccstr # ccstrs) earlier =
     (if \<not> length earlier < nb then Inl AVERROR_EINVAL
      else case parse_cc_keys (strtok_all '','' ccstr) \<lparr>cc_group = None, cc_instreamid = None, cc_language = None\<rparr> of
             Inl e \<Rightarrow> Inl e
           | Inr ccs \<Rightarrow>
               (case (cc_group ccs, cc_instreamid ccs) of
                  (Some g, Some i) \<Rightarrow> if instreamid_ok i then parse_ccs nb ccstrs (earlier @ [ccs]) else Inl AVERROR_EINVAL
                | _ \<Rightarrow> Inl AVERROR_EINVAL))"

definition parse_cc_stream_mapstring :: "string \<Rightarrow> int + cc_stream list" where
  "parse_cc_stream_mapstring cc_stream_map =
     (let ccstrs = strtok_all BLANKS cc_stream_map in parse_ccs (length ccstrs) ccstrs [])"

text \<open>Without a map there is one variant with all streams and the first caption group.\<close>

definition update_variant_stream_info ::
  "AVMediaType list \<Rightarrow> string option \<Rightarrow> string option \<Rightarrow> map_flags \<Rightarrow> int + cc_stream list \<times> map_flags \<times> map_variant list" where
  "update_variant_stream_info types cc_stream_map var_stream_map f =
     (case (case cc_stream_map of None \<Rightarrow> Inr [] | Some m \<Rightarrow> parse_cc_stream_mapstring m) of
        Inl e \<Rightarrow> Inl e
      | Inr ccs \<Rightarrow>
          (case var_stream_map of
             Some m \<Rightarrow> (case parse_variant_stream_mapstring types m f of Inl e \<Rightarrow> Inl e | Inr (f, vs) \<Rightarrow> Inr (ccs, f, vs))
           | None \<Rightarrow>
               Inr (ccs, f, [\<lparr>v_idx = 0, v_streams = map Some [0..<length types], v_language = None, v_default = False, v_name = None,
                  v_agroup = None, v_ccgroup = (case ccs of [] \<Rightarrow> None | cc # _ \<Rightarrow> cc_group cc)\<rparr>])))"

subsection \<open>No stream is mapped twice\<close>

definition mapped :: "map_variant \<Rightarrow> nat list" where
  "mapped v = map the (filter (\<lambda>x. x \<noteq> None) (v_streams v))"

lemma mem_mapped: "i \<in> set (mapped v) \<longleftrightarrow> Some i \<in> set (v_streams v)"
  by (force simp: mapped_def image_iff)

text \<open>A variant whose first \<open>n\<close> entries are filled, with streams the earlier ones do not have.\<close>

definition filling :: "nat \<Rightarrow> nat set \<Rightarrow> map_variant \<Rightarrow> nat \<Rightarrow> bool" where
  "filling m taken vs n \<longleftrightarrow>
     (\<exists>is k. v_streams vs = map Some is @ replicate k None \<and> length is = n \<and> distinct is \<and> set is \<inter> taken = {} \<and> (\<forall>i \<in> set is. i < m))"

lemma nth_codec_loop_range:
  "nth_codec_loop types t x cnt i = - 1 \<or>
   (\<exists>j < length types. nth_codec_loop types t x cnt i = int (i + j) \<and> types ! j = t)"
proof (induction types t x cnt i rule: nth_codec_loop.induct)
  case (2 t' types t x cnt i)
  show ?case
  proof (cases "t' = t \<and> cnt = x")
    case True
    then show ?thesis by force
  next
    case False
    then have "nth_codec_loop (t' # types) t x cnt i = nth_codec_loop types t x (if t' = t then cnt + 1 else cnt) (Suc i)" by auto
    then show ?thesis using 2 False by (cases "t' = t") force+
  qed
qed simp

lemma nth_codec_range:
  assumes "0 \<le> get_nth_codec_stream_index types t x"
  shows "nat (get_nth_codec_stream_index types t x) < length types" "types ! nat (get_nth_codec_stream_index types t x) = t"
  using assms nth_codec_loop_range [of types t x 0 0] by (auto simp: get_nth_codec_stream_index_def split: if_splits)

lemma map_stream_filling:
  assumes "map_stream types earlier t val (vs, n) = Inr (vs', n')" "filling (length types) taken vs n"
    and "\<forall>i \<in> taken. \<exists>v \<in> set earlier. Some i \<in> set (v_streams v)"
  shows "filling (length types) taken vs' n' \<and> v_idx vs' = v_idx vs"
proof -
  obtain "is" k where fl: "v_streams vs = map Some is @ replicate k None" "length is = n" "distinct is" "set is \<inter> taken = {}"
    "\<forall>i \<in> set is. i < length types"
    using assms(2) unfolding filling_def by (elim exE conjE) (rule that)
  define i where "i = (if av_isdigit (deref val) then get_nth_codec_stream_index types t (atoi val) else - 1)"
  have ok: "0 \<le> i" "n < length (v_streams vs)" "Some (nat i) \<notin> set (take n (v_streams vs))"
    "\<not> (\<exists>v \<in> set earlier. Some (nat i) \<in> set (v_streams v))" "vs' = vs\<lparr>v_streams := (v_streams vs)[n := Some (nat i)]\<rparr>" "n' = n + 1"
    using assms(1) by (auto simp: map_stream_def Let_def i_def [symmetric] split: if_splits)
  obtain k' where k: "k = Suc k'" using ok(2) fl(1,2) by (cases k) auto
  have "nat i < length types" using nth_codec_range(1) [of types t "atoi val"] ok(1) by (auto simp: i_def split: if_splits)
  moreover have "nat i \<notin> set is" using ok(3) fl(1,2) by auto
  moreover have "nat i \<notin> taken" using ok(4) assms(3) by blast
  moreover have "(v_streams vs)[n := Some (nat i)] = map Some (is @ [nat i]) @ replicate k' None"
    using fl(1,2) k by (simp add: list_update_append)
  ultimately have "filling (length types) taken vs' n'"
    unfolding filling_def using fl ok(5,6) by (intro exI [of _ "is @ [nat i]"] exI [of _ k']) auto
  then show ?thesis using ok(5) by simp
qed

lemma apply_key_filling:
  assumes "apply_key types earlier key (f, vs, n) = Inr (f', vs', n')" "filling (length types) taken vs n"
    and "\<forall>i \<in> taken. \<exists>v \<in> set earlier. Some i \<in> set (v_streams v)"
  shows "filling (length types) taken vs' n' \<and> v_idx vs' = v_idx vs"
proof (cases "\<exists>t val. key = Stream t val")
  case True
  then show ?thesis using assms map_stream_filling by (auto split: sum.splits prod.splits)
next
  case False
  then have "v_streams vs' = v_streams vs \<and> v_idx vs' = v_idx vs \<and> n' = n" using assms(1) by (cases key) auto
  then show ?thesis using assms(2) unfolding filling_def by simp
qed

lemma parse_keys_filling:
  assumes "\<forall>i \<in> taken. \<exists>v \<in> set earlier. Some i \<in> set (v_streams v)"
  shows "parse_keys types earlier keyvals (f, vs, n) = Inr (f', vs', n') \<Longrightarrow> filling (length types) taken vs n \<Longrightarrow>
    filling (length types) taken vs' n' \<and> v_idx vs' = v_idx vs"
proof (induction keyvals arbitrary: f vs n)
  case (Cons keyval keyvals)
  obtain key st where k: "read_map_key keyval = Some key" "apply_key types earlier key (f, vs, n) = Inr st"
    "parse_keys types earlier keyvals st = Inr (f', vs', n')"
    using Cons.prems(1) by (auto split: option.splits sum.splits)
  obtain f1 vs1 n1 where st: "st = (f1, vs1, n1)" by (metis prod_cases3)
  show ?case using apply_key_filling [OF k(2) [unfolded st] Cons.prems(2) assms] Cons.IH [OF k(3) [unfolded st]] by simp
qed simp

lemma new_variant_filling: "filling m taken (new_variant i varstr) 0"
  unfolding filling_def by (intro exI [of _ "[]"] exI [of _ "count_stream_keys varstr"]) (simp add: new_variant_def)

lemma filling_mapped: "filling m taken vs n \<Longrightarrow> distinct (mapped vs) \<and> set (mapped vs) \<inter> taken = {} \<and> (\<forall>i \<in> set (mapped vs). i < m) \<and>
    v_streams vs = map Some (mapped vs) @ replicate (length (v_streams vs) - length (mapped vs)) None"
  by (auto simp: filling_def mapped_def)

definition exclusive :: "AVMediaType list \<Rightarrow> map_variant list \<Rightarrow> bool" where
  "exclusive types vs \<longleftrightarrow> distinct (concat (map mapped vs)) \<and> (\<forall>i \<in> set (concat (map mapped vs)). i < length types) \<and>
     (\<forall>k < length vs. v_idx (vs ! k) = k \<and>
        v_streams (vs ! k) = map Some (mapped (vs ! k)) @ replicate (length (v_streams (vs ! k)) - length (mapped (vs ! k))) None)"

lemma parse_variants_exclusive:
  "parse_variants types nb varstrs f earlier = Inr (f', vs) \<Longrightarrow> exclusive types earlier \<Longrightarrow>
    exclusive types vs \<and> length vs = length earlier + length varstrs"
proof (induction varstrs arbitrary: f earlier)
  case (Cons varstr varstrs)
  let ?new = "new_variant (length earlier) varstr"
  obtain f1 v n where p: "parse_keys types earlier (strtok_all '','' varstr) (f, ?new, 0) = Inr (f1, v, n)"
    "parse_variants types nb varstrs f1 (earlier @ [v]) = Inr (f', vs)"
    using Cons.prems(1) by (auto split: if_splits sum.splits)
  have "\<forall>i \<in> set (concat (map mapped earlier)). \<exists>v \<in> set earlier. Some i \<in> set (v_streams v)" by (auto simp: mem_mapped)
  from parse_keys_filling [OF this p(1) new_variant_filling] have fl: "filling (length types) (set (concat (map mapped earlier))) v n"
    "v_idx v = length earlier"
    by (simp_all add: new_variant_def)
  have "exclusive types (earlier @ [v])"
    using Cons.prems(2) filling_mapped [OF fl(1)] fl(2) by (auto simp: exclusive_def nth_append less_Suc_eq)
  from Cons.IH [OF p(2) this] show ?case by simp
qed simp

text \<open>C9. If \<open>var_stream_map\<close> is accepted, there is a variant for each definition in it, numbered in order, and no elementary
  stream is used twice, in one variant or in two: the entries filled are different existing streams, and they come
  first in the array of each variant.\<close>

theorem hls_variant_streams_exclusive:
  assumes "parse_variant_stream_mapstring types var_stream_map f = Inr (f', vs)"
  shows "length vs = length (strtok_all BLANKS var_stream_map) \<and> distinct (concat (map mapped vs)) \<and>
    (\<forall>i \<in> set (concat (map mapped vs)). i < length types) \<and>
    (\<forall>k < length vs. v_idx (vs ! k) = k \<and>
       v_streams (vs ! k) = map Some (mapped (vs ! k)) @ replicate (length (v_streams (vs ! k)) - length (mapped (vs ! k))) None)"
proof -
  have "exclusive types []" by (simp add: exclusive_def)
  then show ?thesis
    using parse_variants_exclusive [of types _ _ f "[]" f' vs] assms by (simp add: parse_variant_stream_mapstring_def Let_def exclusive_def)
qed


lemma hls_variant_streams_exclusive_witness:
  "\<exists>f vs. parse_variant_stream_mapstring [AVMEDIA_TYPE_VIDEO, AVMEDIA_TYPE_AUDIO, AVMEDIA_TYPE_AUDIO] ''v:0,a:0 a:1''
      \<lparr>has_default_key = False, has_video_m3u8 = False\<rparr> = Inr (f, vs) \<and> length vs = 2 \<and> distinct (concat (map mapped vs))"
proof -
  let ?types = "[AVMEDIA_TYPE_VIDEO, AVMEDIA_TYPE_AUDIO, AVMEDIA_TYPE_AUDIO]"
  let ?vs = "[\<lparr>v_idx = 0, v_streams = [Some 0, Some 1], v_language = None, v_default = False, v_name = None, v_agroup = None,
      v_ccgroup = None\<rparr>,
    \<lparr>v_idx = 1, v_streams = [Some 2], v_language = None, v_default = False, v_name = None, v_agroup = None, v_ccgroup = None\<rparr>]"
  have p: "parse_variant_stream_mapstring ?types ''v:0,a:0 a:1'' \<lparr>has_default_key = False, has_video_m3u8 = False\<rparr> =
      Inr (\<lparr>has_default_key = False, has_video_m3u8 = True\<rparr>, ?vs)"
    by code_simp
  from hls_variant_streams_exclusive [OF p] show ?thesis using p by (intro exI [of _ "\<lparr>has_default_key = False, has_video_m3u8 = True\<rparr>"] exI [of _ ?vs]) simp
qed

subsection \<open>Entries that stay null\<close>

text \<open>The keys of a definition that name a stream.\<close>

definition names_stream :: "string \<Rightarrow> bool" where
  "names_stream keyval = (case read_map_key keyval of Some (Stream _ _) \<Rightarrow> True | _ \<Rightarrow> False)"

definition stream_keys :: "string \<Rightarrow> string list" where
  "stream_keys varstr = filter names_stream (strtok_all '','' varstr)"

lemma apply_key_count:
  assumes "read_map_key keyval = Some key" "apply_key types earlier key (f, vs, n) = Inr (f', vs', n')"
  shows "length (v_streams vs') = length (v_streams vs) \<and> n' = n + (if names_stream keyval then 1 else 0)"
proof (cases key)
  case (Stream t val)
  then obtain g where "map_stream types earlier t val (vs, n) = Inr (vs', n')" using assms(2) by (auto split: sum.splits prod.splits)
  then have "length (v_streams vs') = length (v_streams vs) \<and> n' = n + 1"
    by (auto simp: map_stream_def Let_def split: if_splits)
  then show ?thesis using assms(1) Stream by (simp add: names_stream_def)
qed (use assms in \<open>auto simp: names_stream_def\<close>)

lemma parse_keys_count:
  "parse_keys types earlier keyvals (f, vs, n) = Inr (f', vs', n') \<Longrightarrow>
    length (v_streams vs') = length (v_streams vs) \<and> n' = n + length (filter names_stream keyvals)"
proof (induction keyvals arbitrary: f vs n)
  case (Cons keyval keyvals)
  obtain key st where k: "read_map_key keyval = Some key" "apply_key types earlier key (f, vs, n) = Inr st"
    "parse_keys types earlier keyvals st = Inr (f', vs', n')"
    using Cons.prems(1) by (auto split: option.splits sum.splits)
  obtain f1 vs1 n1 where st: "st = (f1, vs1, n1)" by (metis prod_cases3)
  show ?case using apply_key_count [OF k(1) k(2) [unfolded st]] Cons.IH [OF k(3) [unfolded st]] by simp
qed simp

definition room_left :: "map_variant \<Rightarrow> string \<Rightarrow> bool" where
  "room_left v varstr \<longleftrightarrow> length (v_streams v) = count_stream_keys varstr \<and> length (mapped v) = length (stream_keys varstr)"

lemma parse_variants_room:
  "parse_variants types nb varstrs f earlier = Inr (f', vs) \<Longrightarrow>
    \<exists>new. vs = earlier @ new \<and> length new = length varstrs \<and> (\<forall>k < length varstrs. room_left (new ! k) (varstrs ! k))"
proof (induction varstrs arbitrary: f earlier)
  case (Cons varstr varstrs)
  let ?new = "new_variant (length earlier) varstr"
  obtain f1 v n where p: "parse_keys types earlier (strtok_all '','' varstr) (f, ?new, 0) = Inr (f1, v, n)"
    "parse_variants types nb varstrs f1 (earlier @ [v]) = Inr (f', vs)"
    using Cons.prems(1) by (auto split: if_splits sum.splits)
  obtain new where new: "vs = (earlier @ [v]) @ new" "length new = length varstrs" "\<forall>k < length varstrs. room_left (new ! k) (varstrs ! k)"
    using Cons.IH [OF p(2)] by blast
  have "filling (length types) {} v n" using parse_keys_filling [OF _ p(1) new_variant_filling] by blast
  then have "length (mapped v) = n" by (auto simp: filling_def mapped_def)
  then have "room_left v varstr"
    using parse_keys_count [OF p(1)] by (simp add: room_left_def stream_keys_def new_variant_def)
  then have "\<forall>k < length (varstr # varstrs). room_left ((v # new) ! k) ((varstr # varstrs) ! k)"
    using new(3) by (auto simp: less_Suc_eq_0_disj)
  then show ?case using new(1,2) by (intro exI [of _ "v # new"]) simp
qed simp

text \<open>The room for the streams of a variant is counted by looking for \<open>a:\<close>, \<open>v:\<close> and \<open>s:\<close> anywhere in the definition, in
  the values of the other keys too.  An accepted variant has its streams first, one for each key that names a stream, and
  after them as many null entries as there are more such places than keys, which \<open>hls_init\<close> dereferences.\<close>

lemma hls_variant_null_streams:
  assumes "parse_variant_stream_mapstring types var_stream_map f = Inr (f', vs)" "k < length vs"
  defines "varstr \<equiv> strtok_all BLANKS var_stream_map ! k"
  shows "v_streams (vs ! k) =
      map Some (mapped (vs ! k)) @ replicate (count_stream_keys varstr - length (stream_keys varstr)) None \<and>
    length (mapped (vs ! k)) = length (stream_keys varstr)"
proof -
  have p: "parse_variants types (length (strtok_all BLANKS var_stream_map)) (strtok_all BLANKS var_stream_map) f [] = Inr (f', vs)"
    using assms(1) by (simp only: parse_variant_stream_mapstring_def Let_def)
  have r: "room_left (vs ! k) varstr" using parse_variants_room [OF p] assms(2) by (auto simp: varstr_def)
  have "exclusive types vs" using parse_variants_exclusive [OF p] by (simp add: exclusive_def)
  then have "v_streams (vs ! k) = map Some (mapped (vs ! k)) @ replicate (length (v_streams (vs ! k)) - length (mapped (vs ! k))) None"
    using assms(2) unfolding exclusive_def by blast
  then show ?thesis using r by (simp add: room_left_def)
qed

lemma hls_variant_null_streams_witness:
  "\<exists>f' vs. parse_variant_stream_mapstring [AVMEDIA_TYPE_VIDEO] ''v:0,agroup:aa:x'' \<lparr>has_default_key = False, has_video_m3u8 = False\<rparr> =
       Inr (f', vs) \<and> (\<exists>i. v_streams (vs ! 0) = [Some i, None])"
proof -
  define r where "r = parse_variant_stream_mapstring [AVMEDIA_TYPE_VIDEO] ''v:0,agroup:aa:x'' \<lparr>has_default_key = False, has_video_m3u8 = False\<rparr>"
  have "case r of Inl _ \<Rightarrow> False | Inr (_, vs) \<Rightarrow> length vs = 1" unfolding r_def by code_simp
  then obtain f' vs where p: "r = Inr (f', vs)" "length vs = 1" by (auto split: sum.splits)
  have c: "count_stream_keys (strtok_all BLANKS ''v:0,agroup:aa:x'' ! 0) = 2" "length (stream_keys (strtok_all BLANKS ''v:0,agroup:aa:x'' ! 0)) = 1"
    by code_simp+
  have "v_streams (vs ! 0) = map Some (mapped (vs ! 0)) @ [None]" "length (mapped (vs ! 0)) = 1"
    using hls_variant_null_streams [OF p(1) [unfolded r_def], of 0] p(2) c by simp_all
  then obtain i where "v_streams (vs ! 0) = [Some i, None]" by (cases "mapped (vs ! 0)") auto
  then show ?thesis using p(1) unfolding r_def by blast
qed

end
