(* ===== verification/HlsInit.thy ===== *)
theory HlsInit
  imports HlsVariants
begin

section \<open>Initialisation of the muxer: the names of the variants\<close>

text \<open>
  \<open>hls_init\<close> of \<open>hlsenc.c\<close>: the checks of the options, the URL of the master playlist, and for every variant its counts of
  streams and its file names.  A step gives an error or a value, and the directories made so far; steps are put
  one after the other with \<open>seq\<close>.  The buffers of the names are written with \<open>av_strlcpy\<close> and \<open>av_strlcat\<close> within the sizes
  the source allocates.
\<close>

type_synonym 'a init = "(int + 'a) \<times> hls_event list"

definition seq :: "'a init \<Rightarrow> ('a \<Rightarrow> 'b init) \<Rightarrow> 'b init" where
  "seq x f =
     (case x of
        (Inl e, ev) \<Rightarrow> (Inl e, ev)
      | (Inr y, ev) \<Rightarrow> (case f y of (r, ev') \<Rightarrow> (r, ev @ ev')))"

text \<open>A return value below zero stops the initialisation.\<close>

definition checked :: "int \<Rightarrow> 'a \<Rightarrow> 'a init" where
  "checked ret y = (if ret < 0 then Inl ret else Inr y, [])"

subsection \<open>Names with \<open>%v\<close>\<close>

definition validate_name :: "nat \<Rightarrow> string option \<Rightarrow> int" where
  "validate_name nb_vs fn =
     (case fn of
        None \<Rightarrow> AVERROR_EINVAL
      | Some fn \<Rightarrow>
          let in_file = (av_stristr (av_basename fn) ''%v'' \<noteq> None);
              in_dir = (av_stristr (av_dirname fn) ''%v'' \<noteq> None)
          in if nb_vs > 1 \<and> \<not> in_file \<and> \<not> in_dir then AVERROR_EINVAL
             else if in_file \<and> in_dir then AVERROR_EINVAL
             else 0)"

text \<open>The return value, the name, and the directory made.\<close>

definition format_name :: "hls_env \<Rightarrow> string \<Rightarrow> nat \<Rightarrow> string option \<Rightarrow> int \<times> string \<times> hls_event list" where
  "format_name env buf idx name =
     (if av_stristr buf ''%v'' = None then (0, buf, [])
      else
        let (s, n) = (case name of
                        None \<Rightarrow> replace_int_data_in_filename buf CHR ''v'' (int idx)
                      | Some v \<Rightarrow> replace_str_data_in_filename buf CHR ''v'' v)
        in if n < 1 then (AVERROR_EINVAL, s, [])
           else if av_stristr (av_dirname buf) ''%v'' \<noteq> None \<and> find_protocol env buf = Some ''file''
           then let dir = av_dirname s; r = mkdir_p env dir
                in (if r < 0 \<and> r \<noteq> - 17 then r else 0, s, [MakeDir dir])
           else (0, s, []))"

definition get_default_pattern_localtime_fmt :: "bool \<Rightarrow> bool \<Rightarrow> string" where
  "get_default_pattern_localtime_fmt epoch_seconds fmp4 =
     (if fmp4 then (if \<not> epoch_seconds then ''-%Y%m%d%H%M%S.m4s'' else ''-%s.m4s'')
      else (if \<not> epoch_seconds then ''-%Y%m%d%H%M%S.ts'' else ''-%s.ts''))"

text \<open>\<open>p = strrchr(name, c); if (p) *p = 0\<close>\<close>

definition cut_at_last :: "char \<Rightarrow> string \<Rightarrow> string" where
  "cut_at_last c name = (case strrchr name c of None \<Rightarrow> name | Some p \<Rightarrow> take (length name - length p) name)"

abbreviation POSTFIX_PATTERN :: string where "POSTFIX_PATTERN \<equiv> ''_%d''"

definition append_postfix :: "string \<Rightarrow> nat \<Rightarrow> nat \<Rightarrow> string" where
  "append_postfix name name_buf_len i =
     (let extension = (case strrchr name CHR ''.'' of None \<Rightarrow> [] | Some p \<Rightarrow> fst (av_strlcpy [] p 10));
          name = cut_at_last CHR ''.'' name;
          name = name @ take (name_buf_len - length name - 1) (CHR ''_'' # show_int (int i))
      in if extension \<noteq> [] then fst (av_strlcat name extension name_buf_len) else name)"

text \<open>The URL of the master playlist.\<close>

definition update_master_pl_info :: "string \<Rightarrow> string \<Rightarrow> string option" where
  "update_master_pl_info url master_pl_name =
     (let dir = av_dirname url;
          dir = (if av_stristr (av_basename dir) ''%v'' \<noteq> None then av_dirname dir else dir)
      in if dir \<noteq> ''.'' then av_append_path_component (Some dir) (Some master_pl_name) else Some master_pl_name)"

subsection \<open>Options and variants\<close>

record hls_options = hls_muxer +
  fmp4_init_option :: string
  subtitle_option :: "string option"
  master_pl_option :: "string option"
  var_stream_map_option :: "string option"
  cc_stream_map_option :: "string option"
  epoch_seconds :: bool

record named_variant = map_variant +
  iv_has_video :: nat
  iv_has_subtitle :: nat
  iv_reference :: nat
  iv_m3u8_name :: string
  iv_basename :: string
  iv_fmp4_init_filename :: "string option"
  iv_base_output_dirname :: "string option"
  iv_vtt_basename :: "string option"
  iv_vtt_m3u8_name :: "string option"

text \<open>The streams of a variant counted: video, subtitles, and the first video stream, to which segments are cut.\<close>

fun count_media :: "AVMediaType list \<Rightarrow> nat list \<Rightarrow> nat \<times> nat \<times> nat \<Rightarrow> nat \<times> nat \<times> nat" where
  "count_media types [] (video, subtitle, reference) = (video, subtitle, reference)"
| "count_media types (i # is) (video, subtitle, reference) =
     (let is_video = (types ! i = AVMEDIA_TYPE_VIDEO);
          video = video + (if is_video then 1 else 0)
      in count_media types is
           (video, subtitle + (if types ! i = AVMEDIA_TYPE_SUBTITLE then 1 else 0),
            if video = 1 \<and> is_video then i else reference))"

definition segment_basename :: "hls_env \<Rightarrow> hls_options \<Rightarrow> nat \<Rightarrow> string option \<Rightarrow> string \<Rightarrow> string init" where
  "segment_basename env m i name m3u8 =
     (case segment_filename (hctx m) of
        Some f \<Rightarrow> (case format_name env f i name of (ret, s, ev) \<Rightarrow> (if ret < 0 then Inl ret else Inr s, ev))
      | None \<Rightarrow>
          let fmp4 = segment_fmp4 (hctx m);
              pattern = (if HLS_SINGLE_FILE \<in> flags (hctx m) then (if fmp4 then ''.m4s'' else ''.ts'')
                         else (if fmp4 then ''%d.m4s'' else ''%d.ts''));
              pattern = (if use_localtime m then get_default_pattern_localtime_fmt (epoch_seconds m) fmp4 else pattern);
              basename_size = length m3u8 + length pattern + 1;
              p = cut_at_last CHR ''.'' (fst (av_strlcpy [] m3u8 basename_size))
          in (Inr (fst (av_strlcat p pattern basename_size)), []))"

text \<open>The initialisation segment, its path, and the size of the buffer of the name, which is kept from one variant to the
  next.\<close>

definition output_dirname :: "string \<Rightarrow> string \<Rightarrow> nat \<Rightarrow> string" where
  "output_dirname m3u8 init sz =
     (let p = fst (av_strlcpy [] m3u8 sz)
      in case strrchr p CHR ''/'' of
           Some q \<Rightarrow> fst (av_strlcat (take (length p - length q + 1) p) init sz)
         | None \<Rightarrow> fst (av_strlcpy p init sz))"

definition init_segment_names :: "hls_env \<Rightarrow> hls_options \<Rightarrow> nat \<Rightarrow> nat \<Rightarrow> string option \<Rightarrow> string \<Rightarrow> string \<Rightarrow> nat \<Rightarrow>
    (string option \<times> string option \<times> nat) \<times> hls_event list" where
  "init_segment_names env m nb i name m3u8 basename sz =
     (if \<not> segment_fmp4 (hctx m) then ((None, None, sz), [])
      else
        let sz = (if nb > 1 then sz + length POSTFIX_PATTERN else sz)
        in if HLS_SINGLE_FILE \<in> flags (hctx m) then ((Some basename, None, sz), [])
           else
             let init = fst (av_strlcpy [] (fmp4_init_option m) sz);
                 (init, ev) = (if nb > 1
                    then if av_stristr init ''%v'' \<noteq> None
                         then (case format_name env (fmp4_init_option m) i name of (_, s, ev) \<Rightarrow> (s, ev))
                         else (append_postfix init sz i, [])
                    else (init, []));
                 sz = length m3u8 + length init + 1
             in ((Some init, Some (output_dirname m3u8 init sz), sz), ev))"

definition sls_flag_check_duration_size_index :: "HLSContext \<Rightarrow> int" where
  "sls_flag_check_duration_size_index hls =
     (let ret = 0;
          ret = (if HLS_SECOND_LEVEL_SEGMENT_DURATION \<in> flags hls then AVERROR_EINVAL else ret);
          ret = (if HLS_SECOND_LEVEL_SEGMENT_SIZE \<in> flags hls then AVERROR_EINVAL else ret)
      in if HLS_SECOND_LEVEL_SEGMENT_INDEX \<in> flags hls then AVERROR_EINVAL else ret)"

definition sls_flag_check_duration_size :: "hls_env \<Rightarrow> HLSContext \<Rightarrow> string \<Rightarrow> int" where
  "sls_flag_check_duration_size env hls basename =
     (let segment_renaming_ok = (find_protocol env basename = Some ''file'');
          ret = (if HLS_SECOND_LEVEL_SEGMENT_DURATION \<in> flags hls \<and> \<not> segment_renaming_ok then AVERROR_EINVAL else 0)
      in if HLS_SECOND_LEVEL_SEGMENT_SIZE \<in> flags hls \<and> \<not> segment_renaming_ok then AVERROR_EINVAL else ret)"

text \<open>The template of the subtitle segments and the subtitle playlist.\<close>

definition subtitle_names :: "hls_env \<Rightarrow> hls_options \<Rightarrow> nat \<Rightarrow> string option \<Rightarrow> string \<Rightarrow> (string \<times> string) init" where
  "subtitle_names env m i name m3u8 =
     (let vtt_pattern = (if HLS_SINGLE_FILE \<in> flags (hctx m) then ''.vtt'' else ''%d.vtt'');
          vtt_basename_size = length m3u8 + length vtt_pattern + 1;
          vtt_basename = cut_at_last CHR ''.'' (fst (av_strlcpy [] m3u8 vtt_basename_size))
      in seq (case subtitle_option m of
                Some f \<Rightarrow> (case format_name env f i name of (ret, s, ev) \<Rightarrow> (if ret < 0 then Inl ret else Inr s, ev))
              | None \<Rightarrow> (Inr (fst (av_strlcat vtt_basename ''_vtt.m3u8'' vtt_basename_size)), []))
           (\<lambda>playlist. (Inr (fst (av_strlcat vtt_basename vtt_pattern vtt_basename_size), playlist), [])))"

text \<open>The turn of one variant, up to \<open>hls_mux_init\<close>.\<close>

definition init_variant :: "hls_env \<Rightarrow> hls_options \<Rightarrow> AVMediaType list \<Rightarrow> nat \<Rightarrow> nat \<Rightarrow> map_variant \<Rightarrow> nat \<Rightarrow>
    (named_variant \<times> nat) init" where
  "init_variant env m types nb i vs sz =
     seq (case format_name env (s_url m) i (v_name vs) of (ret, s, ev) \<Rightarrow> (if ret < 0 then Inl ret else Inr s, ev)) (\<lambda>m3u8.
     seq (segment_basename env m i (v_name vs) m3u8) (\<lambda>basename.
     seq (case init_segment_names env m nb i (v_name vs) m3u8 basename sz of (r, ev) \<Rightarrow> (Inr r, ev)) (\<lambda>(init, dir, sz).
     seq (checked (if \<not> use_localtime m then sls_flag_check_duration_size_index (hctx m)
                   else sls_flag_check_duration_size env (hctx m) basename) ()) (\<lambda>_.
     case count_media types (map the (v_streams vs)) (0, 0, 0) of (video, subtitle, reference) \<Rightarrow>
     seq (if subtitle > 0
          then seq (subtitle_names env m i (v_name vs) m3u8) (\<lambda>(b, p). (Inr (Some b, Some p), []))
          else (Inr (None, None), [])) (\<lambda>(vtt_basename, vtt_m3u8_name).
     (Inr (map_variant.extend vs
        \<lparr>iv_has_video = video, iv_has_subtitle = subtitle, iv_reference = reference, iv_m3u8_name = m3u8, iv_basename = basename,
         iv_fmp4_init_filename = init, iv_base_output_dirname = dir, iv_vtt_basename = vtt_basename,
         iv_vtt_m3u8_name = vtt_m3u8_name\<rparr>, sz), []))))))"

fun init_variants :: "hls_env \<Rightarrow> hls_options \<Rightarrow> AVMediaType list \<Rightarrow> nat \<Rightarrow> nat \<Rightarrow> map_variant list \<Rightarrow> nat \<Rightarrow>
    (named_variant list) init" where
  "init_variants env m types nb i [] sz = (Inr [], [])"
| "init_variants env m types nb i (vs # rest) sz =
     seq (init_variant env m types nb i vs sz) (\<lambda>(v, sz).
     seq (init_variants env m types nb (Suc i) rest sz) (\<lambda>ivs. (Inr (v # ivs), [])))"

text \<open>The checks before.\<close>

definition validate_names :: "hls_options \<Rightarrow> nat \<Rightarrow> unit init" where
  "validate_names m nb =
     seq (checked (validate_name nb (Some (s_url m))) ()) (\<lambda>_.
     seq (if segment_filename (hctx m) \<noteq> None then checked (validate_name nb (segment_filename (hctx m))) () else checked 0 ()) (\<lambda>_.
     seq (if av_strcasecmp (fmp4_init_option m) ''init.mp4'' \<noteq> 0 then checked (validate_name nb (Some (fmp4_init_option m))) ()
          else checked 0 ()) (\<lambda>_.
     if subtitle_option m \<noteq> None then checked (validate_name nb (subtitle_option m)) () else checked 0 ())))"

record hls_initialised =
  in_ccs :: "cc_stream list"
  in_flags :: map_flags
  in_variants :: "named_variant list"
  in_master_url :: "string option"
  in_options :: hls_options

definition clear_independent :: "hls_options \<Rightarrow> hls_options" where
  "clear_independent m =
     (if HLS_SPLIT_BY_TIME \<in> flags (hctx m) \<and> HLS_INDEPENDENT_SEGMENTS \<in> flags (hctx m)
      then m\<lparr>hctx := (hctx m)\<lparr>flags := flags (hctx m) - {HLS_INDEPENDENT_SEGMENTS}\<rparr>\<rparr> else m)"

definition hls_init :: "hls_env \<Rightarrow> hls_options \<Rightarrow> AVMediaType list \<Rightarrow> hls_initialised init" where
  "hls_init env m types =
     seq (update_variant_stream_info types (cc_stream_map_option m) (var_stream_map_option m)
            \<lparr>has_default_key = False, has_video_m3u8 = False\<rparr>, []) (\<lambda>(ccs, f, vs).
     seq (checked (if length vs > 1 \<and> HLS_PERIODIC_REKEY \<in> flags (hctx m) then AVERROR_EINVAL else 0) ()) (\<lambda>_.
     seq (validate_names m (length vs)) (\<lambda>_.
     let master = (case master_pl_option m of None \<Rightarrow> None | Some name \<Rightarrow> update_master_pl_info (s_url m) name) in
     seq (init_variants env (clear_independent m) types (length vs) 0 vs (length (fmp4_init_option m) + 1)) (\<lambda>ivs.
     (Inr \<lparr>in_ccs = ccs, in_flags = f, in_variants = ivs, in_master_url = master,
        in_options = (if vs = [] then m else clear_independent m)\<rparr>, [])))))"


subsection \<open>Templates with different labels give different names\<close>

lemma show_nat_mono: "i \<le> j \<Longrightarrow> length (show_nat i) \<le> length (show_nat j)"
proof (induction j arbitrary: i rule: show_nat.induct)
  case (1 j)
  show ?case
  proof (cases "j < 10")
    case True
    then show ?thesis using 1 by (subst (1 2) show_nat.simps) simp
  next
    case False
    show ?thesis
    proof (cases "i < 10")
      case True
      then show ?thesis using False by (subst (1 2) show_nat.simps) simp
    next
      case i: False
      have "i div 10 \<le> j div 10" using 1(2) by (rule div_le_mono)
      then show ?thesis using 1(1) [OF False] False i by (subst (1 2) show_nat.simps) simp
    qed
  qed
qed

lemma show_pad_nat: "show_int_pad w (int i) = replicate (w - length (show_nat i)) CHR ''0'' @ show_nat i"
  by (simp add: show_int_pad_def)

lemma show_pad_length: "length (show_int_pad w (int i)) = max w (length (show_nat i))"
  by (simp add: show_pad_nat max_def)

lemma read_zeros: "read_digits 0 (replicate k CHR ''0'' @ r) = read_digits 0 r"
  by (induction k) (simp_all add: av_isdigit_def digit_value_def less_eq_char_def)

lemma show_pad_inj: "show_int_pad w (int i) = show_int_pad w (int j) \<Longrightarrow> i = j"
proof -
  have "read_digits 0 (show_int_pad w (int k)) = int k" for k
    using read_show_nat [of 0 k "[]"] by (simp add: show_pad_nat read_zeros)
  then show "show_int_pad w (int i) = show_int_pad w (int j) \<Longrightarrow> i = j" by (metis of_nat_eq_iff)
qed

text \<open>Two fillings of a template: as many places, the shorter label not longer, and equal only for equal labels.\<close>

definition fillings :: "nat \<Rightarrow> nat \<Rightarrow> string \<times> nat \<Rightarrow> string \<times> nat \<Rightarrow> bool" where
  "fillings i j x y \<longleftrightarrow> snd x = snd y \<and> length (fst x) \<le> length (fst y) \<and> (fst x = fst y \<longrightarrow> snd x = 0 \<or> i = j)"

lemma fillings_keep: "fillings i j (r, n) (r', n') \<Longrightarrow> fillings i j (c @ r, n) (c @ r', n')"
  by (auto simp: fillings_def)

lemma append_eq_shorter: "length a \<le> length b \<Longrightarrow> length r \<le> length r' \<Longrightarrow> a @ r = b @ r' \<Longrightarrow> a = b \<and> r = r'"
  by (metis append_eq_append_conv length_append add_le_imp_le_right le_antisym nat_add_left_cancel_le)

lemma fillings_label:
  "fillings i j (r, n) (r', n') \<Longrightarrow> length a \<le> length b \<Longrightarrow> (a = b \<Longrightarrow> i = j) \<Longrightarrow> fillings i j (a @ r, n + 1) (b @ r', n' + 1)"
  unfolding fillings_def using append_eq_shorter [of a b r r'] by auto

text \<open>One step of either replacement.\<close>

lemma fillings_pair:
  "fillings i j x y \<Longrightarrow> fillings i j (let (r, n) = x in (c @ r, n)) (let (r, n) = y in (c @ r, n))"
  by (cases x; cases y) (simp add: fillings_keep)

lemma fillings_pair_cons:
  "fillings i j x y \<Longrightarrow> fillings i j (let (r, n) = x in (c # r, n)) (let (r, n) = y in (c # r, n))"
  using fillings_pair [of i j x y "[c]"] by simp

lemma fillings_pair_label:
  "fillings i j x y \<Longrightarrow> length a \<le> length b \<Longrightarrow> (a = b \<Longrightarrow> i = j) \<Longrightarrow>
    fillings i j (let (r, n) = x in (a @ r, n + 1)) (let (r, n) = y in (b @ r, n + 1))"
  by (cases x; cases y) (simp only: Let_def prod.case, rule fillings_label, assumption+)

lemma replace_int_fillings:
  assumes "i \<le> j"
  shows "fillings i j (replace_int_data_in_filename p c (int i)) (replace_int_data_in_filename p c (int j))"
proof (induction p rule: measure_induct_rule [of length])
  case (less p)
  show ?case
  proof (cases "p = []")
    case True
    then show ?thesis by (subst (1 2) replace_int_data_in_filename.simps) (simp add: fillings_def)
  next
    case False
    then have IH: "fillings i j (replace_int_data_in_filename (drop (Suc k) p) c (int i)) (replace_int_data_in_filename (drop (Suc k) p) c (int j))"
      "fillings i j (replace_int_data_in_filename (tl p) c (int i)) (replace_int_data_in_filename (tl p) c (int j))" for k
      by (intro less; simp)+
    have two: "drop 2 p = drop (Suc 1) p" by (simp add: numeral_2_eq_2)
    have pad: "length (show_int_pad w (int i)) \<le> length (show_int_pad w (int j))" for w
      using show_nat_mono [OF assms] by (auto simp: show_pad_length)
    show ?thesis
      unfolding replace_int_data_in_filename.simps [of p c "int i"] replace_int_data_in_filename.simps [of p c "int j"] two
      using False IH pad show_pad_inj
      by (auto simp only: if_False if_True Let_def add.commute [of 1] Suc_eq_plus1 [symmetric] split: if_split
           intro!: fillings_pair [unfolded Let_def] fillings_pair_cons [unfolded Let_def] fillings_pair_label [unfolded Let_def Suc_eq_plus1 [symmetric]])
  qed
qed

lemma replace_str_fillings:
  assumes "length a \<le> length b" "a = b \<longleftrightarrow> i = j"
  shows "fillings i j (replace_str_data_in_filename p c a) (replace_str_data_in_filename p c b)"
proof (induction p rule: measure_induct_rule [of length])
  case (less p)
  show ?case
  proof (cases "p = []")
    case True
    then show ?thesis by (subst (1 2) replace_str_data_in_filename.simps) (simp add: fillings_def)
  next
    case False
    then have IH: "fillings i j (replace_str_data_in_filename (drop 2 p) c a) (replace_str_data_in_filename (drop 2 p) c b)"
      "fillings i j (replace_str_data_in_filename (tl p) c a) (replace_str_data_in_filename (tl p) c b)"
      by (intro less; simp)+
    show ?thesis
      unfolding replace_str_data_in_filename.simps [of p c a] replace_str_data_in_filename.simps [of p c b]
      using False IH assms
      by (auto simp only: if_False if_True split: if_split intro!: fillings_pair fillings_pair_cons fillings_pair_label)
  qed
qed


lemma stristart_append: "av_stristart w p \<noteq> None \<Longrightarrow> av_stristart (w @ z) p \<noteq> None"
  by (induction w p rule: av_stristart.induct) (auto split: if_splits)

lemma stristr_iff: "av_stristr s p \<noteq> None \<longleftrightarrow> (\<exists>u w. s = u @ w \<and> av_stristart w p \<noteq> None)"
proof (induction s)
  case Nil
  show ?case by (cases p) (simp_all add: av_stristr.simps)
next
  case (Cons c s)
  have step: "av_stristr (c # s) p \<noteq> None \<longleftrightarrow> av_stristart (c # s) p \<noteq> None \<or> av_stristr s p \<noteq> None"
    by (cases p) (simp_all add: av_stristr.simps [of "c # s"])
  show ?case unfolding step Cons.IH by (auto simp: Cons_eq_append_conv)
qed

lemma stristr_within: "av_stristr b p \<noteq> None \<Longrightarrow> av_stristr (a @ b @ c) p \<noteq> None"
  unfolding stristr_iff using stristart_append by (metis append.assoc)

lemma dirname_prefix: "av_dirname path = ''.'' \<or> (\<exists>r. path = av_dirname path @ r)"
  by (auto simp: av_dirname_def split: option.splits) (metis append_take_drop_id)

lemma validate_name_template:
  assumes "\<not> validate_name nb (Some fn) < 0" "1 < nb"
  shows "av_stristr fn ''%v'' \<noteq> None"
proof -
  have "av_stristr (av_basename fn) ''%v'' \<noteq> None \<or> av_stristr (av_dirname fn) ''%v'' \<noteq> None"
    using assms by (auto simp: validate_name_def Let_def split: if_splits)
  then show ?thesis
  proof
    assume *: "av_stristr (av_basename fn) ''%v'' \<noteq> None"
    obtain d where d: "fn = d @ av_basename fn" using av_basename_suffix by blast
    show ?thesis using stristr_within [OF *, of d "[]"] d by simp
  next
    assume *: "av_stristr (av_dirname fn) ''%v'' \<noteq> None"
    moreover have "av_stristr ''.'' ''%v'' = None" by code_simp
    ultimately obtain r where r: "fn = av_dirname fn @ r" using dirname_prefix [of fn] by auto
    show ?thesis using stristr_within [OF *, of "[]" r] r by simp
  qed
qed

definition labels_differ :: "'a map_variant_scheme \<Rightarrow> 'a map_variant_scheme \<Rightarrow> bool" where
  "labels_differ v w \<longleftrightarrow>
     (case (v_name v, v_name w) of (None, None) \<Rightarrow> True | (Some a, Some b) \<Rightarrow> a \<noteq> b | _ \<Rightarrow> False)"

lemma format_name_differ:
  assumes f: "format_name env buf i n = (ret, s, ev)" "format_name env buf j n' = (ret', s', ev')"
    and ok: "\<not> ret < 0" "\<not> ret' < 0" "av_stristr buf ''%v'' \<noteq> None" "i \<noteq> j"
    and labels: "(n = None \<and> n' = None) \<or> (\<exists>a b. n = Some a \<and> n' = Some b \<and> a \<noteq> b)"
  shows "s \<noteq> s'"
proof -
  define R where "R i n = (case n of None \<Rightarrow> replace_int_data_in_filename buf CHR ''v'' (int i)
                        | Some v \<Rightarrow> replace_str_data_in_filename buf CHR ''v'' v)" for i n
  have val: "s = fst (R i n) \<and> 0 < snd (R i n)" if "format_name env buf i n = (ret, s, ev)" "\<not> ret < 0" for i n ret s ev
    using that ok(3) by (cases "R i n") (auto simp: format_name_def R_def [symmetric] Let_def split: if_splits)
  have "\<exists>x y. x \<noteq> y \<and> (fillings x y (R i n) (R j n') \<or> fillings x y (R j n') (R i n))"
    using labels
  proof
    assume "n = None \<and> n' = None"
    then show ?thesis
      using replace_int_fillings [of i j buf "CHR ''v''"] replace_int_fillings [of j i buf "CHR ''v''"] ok(4)
      unfolding R_def by (metis (no_types) nat_le_linear option.simps(4))
  next
    assume "\<exists>a b. n = Some a \<and> n' = Some b \<and> a \<noteq> b"
    then obtain a b where ab: "n = Some a" "n' = Some b" "a \<noteq> b" by blast
    show ?thesis
    proof (cases "length a \<le> length b")
      case True
      from replace_str_fillings [OF this, of 0 1 buf "CHR ''v''"] ab show ?thesis by (intro exI [of _ 0] exI [of _ 1]) (simp add: R_def)
    next
      case False
      then have "length b \<le> length a" by simp
      from replace_str_fillings [OF this, of 0 1 buf "CHR ''v''"] ab show ?thesis by (intro exI [of _ 0] exI [of _ 1]) (simp add: R_def)
    qed
  qed
  then show ?thesis using val [OF f(1) ok(1)] val [OF f(2) ok(2)] unfolding fillings_def by fastforce
qed

subsection \<open>Where the names of a variant come from\<close>

lemma seq_Inr: "seq x f = (Inr z, ev) \<longleftrightarrow> (\<exists>y e1 e2. x = (Inr y, e1) \<and> f y = (Inr z, e2) \<and> ev = e1 @ e2)"
  by (cases x; cases "fst x") (auto simp: seq_def split: prod.splits)

lemma seqE:
  assumes "seq x f = (Inr z, ev)"
  obtains y e1 e2 where "x = (Inr y, e1)" "f y = (Inr z, e2)" "ev = e1 @ e2"
  using assms unfolding seq_Inr by blast

lemma checked_Inr: "checked ret y = (Inr z, ev) \<longleftrightarrow> \<not> ret < 0 \<and> z = y \<and> ev = []"
  by (auto simp: checked_def)

lemma case_format_Inr:
  "(case format_name env f i n of (ret, s, ev) \<Rightarrow> (if ret < 0 then Inl ret else Inr s, ev)) = (Inr z, ev) \<longleftrightarrow>
    (\<exists>ret. format_name env f i n = (ret, z, ev) \<and> \<not> ret < 0)"
  by (auto split: prod.splits if_splits)

lemma init_variant_names:
  assumes "init_variant env m types nb i vs sz = (Inr (v, sz'), ev)"
  shows "(\<exists>ret ev. format_name env (s_url m) i (v_name vs) = (ret, iv_m3u8_name v, ev) \<and> \<not> ret < 0) \<and>
    (\<exists>ev. segment_basename env m i (v_name vs) (iv_m3u8_name v) = (Inr (iv_basename v), ev)) \<and>
    map_variant.truncate v = vs"
proof -
  define rest where "rest = (\<lambda>m3u8 basename. seq (case init_segment_names env m nb i (v_name vs) m3u8 basename sz of (r, ev) \<Rightarrow> (Inr r, ev)) (\<lambda>(init, dir, sz).
     seq (checked (if \<not> use_localtime m then sls_flag_check_duration_size_index (hctx m)
                   else sls_flag_check_duration_size env (hctx m) basename) ()) (\<lambda>_.
     case count_media types (map the (v_streams vs)) (0, 0, 0) of (video, subtitle, reference) \<Rightarrow>
     seq (if subtitle > 0
          then seq (subtitle_names env m i (v_name vs) m3u8) (\<lambda>(b, p). (Inr (Some b, Some p), []))
          else (Inr (None, None), [])) (\<lambda>(vtt_basename, vtt_m3u8_name).
     (Inr (map_variant.extend vs
        \<lparr>iv_has_video = video, iv_has_subtitle = subtitle, iv_reference = reference, iv_m3u8_name = m3u8, iv_basename = basename,
         iv_fmp4_init_filename = init, iv_base_output_dirname = dir, iv_vtt_basename = vtt_basename,
         iv_vtt_m3u8_name = vtt_m3u8_name\<rparr>, sz), [])))))"
  have fields: "iv_m3u8_name v = a \<and> iv_basename v = b \<and> map_variant.truncate v = vs" if "rest a b = (Inr (v, sz'), e)" for a b e
    using that unfolding rest_def
    by (cases "count_media types (map the (v_streams vs)) (0, 0, 0)") (auto simp: seq_Inr map_variant.defs split: if_splits)
  let ?name = "case format_name env (s_url m) i (v_name vs) of (ret, s, ev) \<Rightarrow> (if ret < 0 then Inl ret else Inr s, ev)"
  have eq: "init_variant env m types nb i vs sz = seq ?name (\<lambda>m3u8. seq (segment_basename env m i (v_name vs) m3u8) (rest m3u8))"
    by (simp only: init_variant_def rest_def)
  obtain m3u8 e1 e2 where 1: "?name = (Inr m3u8, e1)"
    and "seq (segment_basename env m i (v_name vs) m3u8) (rest m3u8) = (Inr (v, sz'), e2)"
    using assms unfolding eq seq_Inr [of "?name"] by (elim exE conjE) (rule that)
  then obtain b e3 e4 where 2: "segment_basename env m i (v_name vs) m3u8 = (Inr b, e3)" "rest m3u8 b = (Inr (v, sz'), e4)"
    unfolding seq_Inr by (elim exE conjE) (rule that)
  from fields [OF 2(2)] 1 2(1) show ?thesis unfolding case_format_Inr by blast
qed

lemma init_variants_names:
  "init_variants env m types nb i vs sz = (Inr ivs, ev) \<Longrightarrow> length ivs = length vs \<and> (\<forall>k < length vs.
    (\<exists>ret ev. format_name env (s_url m) (i + k) (v_name (vs ! k)) = (ret, iv_m3u8_name (ivs ! k), ev) \<and> \<not> ret < 0) \<and>
    (\<exists>ev. segment_basename env m (i + k) (v_name (vs ! k)) (iv_m3u8_name (ivs ! k)) = (Inr (iv_basename (ivs ! k)), ev)) \<and>
    map_variant.truncate (ivs ! k) = vs ! k)"
proof (induction vs arbitrary: i sz ivs ev)
  case (Cons v vs)
  obtain iv sz' e1 rest e2 where h: "init_variant env m types nb i v sz = (Inr (iv, sz'), e1)"
    "init_variants env m types nb (Suc i) vs sz' = (Inr rest, e2)" "ivs = iv # rest"
    using Cons.prems by (auto simp: seq_Inr)
  show ?case using Cons.IH [OF h(2)] init_variant_names [OF h(1)] h(3)
    by (auto simp: nth_Cons split: nat.splits)
qed simp


lemma hls_init_variants:
  assumes "hls_init env m types = (Inr h, ev)"
  obtains ccs f vs sz e where
    "update_variant_stream_info types (cc_stream_map_option m) (var_stream_map_option m) \<lparr>has_default_key = False, has_video_m3u8 = False\<rparr>
       = Inr (ccs, f, vs)"
    "validate_names m (length vs) = (Inr (), [])"
    "init_variants env (clear_independent m) types (length vs) 0 vs sz = (Inr (in_variants h), e)"
    "in_master_url h = (case master_pl_option m of None \<Rightarrow> None | Some name \<Rightarrow> update_master_pl_info (s_url m) name)"
    "in_ccs h = ccs" "in_flags h = f"
proof -
  obtain y e1 e2 where 1: "(update_variant_stream_info types (cc_stream_map_option m) (var_stream_map_option m)
      \<lparr>has_default_key = False, has_video_m3u8 = False\<rparr>, [] :: hls_event list) = (Inr y, e1)"
    and 2: "(case y of (ccs, f, vs) \<Rightarrow>
     seq (checked (if length vs > 1 \<and> HLS_PERIODIC_REKEY \<in> flags (hctx m) then AVERROR_EINVAL else 0) ()) (\<lambda>_.
     seq (validate_names m (length vs)) (\<lambda>_.
     let master = (case master_pl_option m of None \<Rightarrow> None | Some name \<Rightarrow> update_master_pl_info (s_url m) name) in
     seq (init_variants env (clear_independent m) types (length vs) 0 vs (length (fmp4_init_option m) + 1)) (\<lambda>ivs.
     (Inr \<lparr>in_ccs = ccs, in_flags = f, in_variants = ivs, in_master_url = master,
        in_options = (if vs = [] then m else clear_independent m)\<rparr>, []))))) = (Inr h, e2)"
    using assms unfolding hls_init_def by (rule seqE) (rule that)
  obtain ccs f vs where y: "y = (ccs, f, vs)" by (metis prod_cases3)
  have valid: "e = []" if "validate_names m n = (Inr u, e)" for n u e
    using that unfolding validate_names_def by (auto simp: seq_Inr checked_Inr split: if_splits)
  from 1 have u: "update_variant_stream_info types (cc_stream_map_option m) (var_stream_map_option m)
      \<lparr>has_default_key = False, has_video_m3u8 = False\<rparr> = Inr (ccs, f, vs)" by (simp add: y)
  from 2 show ?thesis unfolding y prod.case Let_def
    by (auto simp: seq_Inr checked_Inr dest: valid intro!: that [OF u])
qed

lemma clear_independent_frame [simp]:
  "s_url (clear_independent m) = s_url m" "segment_filename (hctx (clear_independent m)) = segment_filename (hctx m)"
  by (simp_all add: clear_independent_def)

lemma validate_names_templates:
  assumes "validate_names m nb = (Inr u, e)" "1 < nb"
  shows "av_stristr (s_url m) ''%v'' \<noteq> None \<and> (\<forall>f. segment_filename (hctx m) = Some f \<longrightarrow> av_stristr f ''%v'' \<noteq> None)"
proof -
  have "\<not> validate_name nb (Some (s_url m)) < 0 \<and> (\<forall>f. segment_filename (hctx m) = Some f \<longrightarrow> \<not> validate_name nb (Some f) < 0)"
    using assms(1) unfolding validate_names_def seq_Inr by (elim exE conjE) (auto simp: seq_Inr checked_Inr split: if_splits)
  then show ?thesis using validate_name_template assms(2) by blast
qed

lemma v_name_truncate: "map_variant.truncate v = w \<Longrightarrow> v_name v = v_name w"
  by (auto simp: map_variant.defs)

text \<open>The playlist and the segment template of a variant are the templates with its name or number filled in.\<close>

lemma hls_init_names:
  assumes "hls_init env m types = (Inr h, ev)" "k < length (in_variants h)"
  shows "\<exists>ret e. format_name env (s_url m) k (v_name (in_variants h ! k)) = (ret, iv_m3u8_name (in_variants h ! k), e) \<and> \<not> ret < 0"
    and "\<exists>e. segment_basename env (clear_independent m) k (v_name (in_variants h ! k)) (iv_m3u8_name (in_variants h ! k)) =
       (Inr (iv_basename (in_variants h ! k)), e)"
proof -
  obtain vs sz e where h: "init_variants env (clear_independent m) types (length vs) 0 vs sz = (Inr (in_variants h), e)"
    using hls_init_variants [OF assms(1)] by metis
  have ivs: "length (in_variants h) = length vs"
    "\<And>k. k < length vs \<Longrightarrow> \<exists>ret ev. format_name env (s_url m) k (v_name (vs ! k)) = (ret, iv_m3u8_name (in_variants h ! k), ev) \<and> \<not> ret < 0"
    "\<And>k. k < length vs \<Longrightarrow> \<exists>ev. segment_basename env (clear_independent m) k (v_name (vs ! k)) (iv_m3u8_name (in_variants h ! k)) =
       (Inr (iv_basename (in_variants h ! k)), ev)"
    "\<And>k. k < length vs \<Longrightarrow> map_variant.truncate (in_variants h ! k) = vs ! k"
    using init_variants_names [OF h] by simp_all
  have k: "k < length vs" using assms(2) ivs(1) by simp
  have n: "v_name (in_variants h ! k) = v_name (vs ! k)" by (rule v_name_truncate [OF ivs(4) [OF k]])
  show "\<exists>ret e. format_name env (s_url m) k (v_name (in_variants h ! k)) = (ret, iv_m3u8_name (in_variants h ! k), e) \<and> \<not> ret < 0"
    "\<exists>e. segment_basename env (clear_independent m) k (v_name (in_variants h ! k)) (iv_m3u8_name (in_variants h ! k)) =
       (Inr (iv_basename (in_variants h ! k)), e)"
    unfolding n using ivs(2,3) [OF k] by simp_all
qed

lemma hls_init_templates:
  assumes "hls_init env m types = (Inr h, ev)" "1 < length (in_variants h)"
  shows "av_stristr (s_url m) ''%v'' \<noteq> None" "segment_filename (hctx m) = Some f \<Longrightarrow> av_stristr f ''%v'' \<noteq> None"
proof -
  obtain vs sz e where h: "validate_names m (length vs) = (Inr (), [])"
    "init_variants env (clear_independent m) types (length vs) 0 vs sz = (Inr (in_variants h), e)"
    using hls_init_variants [OF assms(1)] by metis
  have "length (in_variants h) = length vs" using init_variants_names [OF h(2)] by simp
  then show "av_stristr (s_url m) ''%v'' \<noteq> None" "segment_filename (hctx m) = Some f \<Longrightarrow> av_stristr f ''%v'' \<noteq> None"
    using validate_names_templates [OF h(1)] assms(2) by simp_all
qed

end
