(* ===== verification/HlsNames.thy ===== *)
theory HlsNames
  imports HlsInit
begin

section \<open>The files of the variants\<close>

text \<open>
  After \<open>hls_init\<close>: when the variants write to files of their own.  The playlists and templates of two variants with
  different labels differ.  The segment files, where \<open>hls_start\<close> fills in the sequence number too, differ when a character
  that is in no label follows the label; when the sequence number follows directly, as it does in the default names,
  two variants overwrite the segments of each other.
\<close>

subsection \<open>Filling in a label\<close>

text \<open>What \<open>%v\<close> stands for: the name of the variant, or else its number.\<close>

definition variant_label :: "nat \<Rightarrow> string option \<Rightarrow> string" where
  "variant_label i name = (case name of None \<Rightarrow> show_nat i | Some a \<Rightarrow> a)"

lemma digit_no_percent: "d < 10 \<Longrightarrow> digit d \<noteq> CHR ''%'' \<and> digit d \<noteq> CHR ''.''"
proof -
  assume "d < 10"
  then have "digit d \<in> set ''0123456789''" unfolding digit_def by (intro nth_mem) simp
  then show ?thesis by auto
qed

lemma show_nat_char: "c \<in> set (show_nat n) \<Longrightarrow> c \<noteq> CHR ''%'' \<and> c \<noteq> CHR ''.''"
proof -
  assume "c \<in> set (show_nat n)"
  from show_nat_digits [OF this] obtain d where "d < 10" "c = digit d" by (elim exE conjE) (rule that)
  then show ?thesis using digit_no_percent [of d] by simp
qed

lemma show_nat_plain: "CHR ''%'' \<notin> set (show_nat n)" "CHR ''.'' \<notin> set (show_nat n)"
  using show_nat_char [of "CHR ''%''" n] show_nat_char [of "CHR ''.''" n] by (simp_all only: simp_thms) blast+

lemma show_nat_inj: "show_nat i = show_nat j \<Longrightarrow> i = j"
  using show_pad_inj [of 0 i j] by (simp add: show_pad_nat)

lemma fill_int_char:
  "d \<noteq> CHR ''%'' \<Longrightarrow> replace_int_data_in_filename (d # s) c n = (let (r, k) = replace_int_data_in_filename s c n in (d # r, k))"
  by (subst replace_int_data_in_filename.simps) (simp add: deref_def)

lemma fill_str_char:
  "d \<noteq> CHR ''%'' \<Longrightarrow> replace_str_data_in_filename (d # s) c x = (let (r, k) = replace_str_data_in_filename s c x in (d # r, k))"
  by (subst replace_str_data_in_filename.simps) (simp add: deref_def)

lemma fill_int_plain:
  "CHR ''%'' \<notin> set a \<Longrightarrow> replace_int_data_in_filename (a @ s) c n = (let (r, k) = replace_int_data_in_filename s c n in (a @ r, k))"
  by (induction a) (simp_all add: fill_int_char split: prod.splits)

lemma fill_str_plain:
  "CHR ''%'' \<notin> set a \<Longrightarrow> replace_str_data_in_filename (a @ s) c x = (let (r, k) = replace_str_data_in_filename s c x in (a @ r, k))"
  by (induction a) (simp_all add: fill_str_char split: prod.splits)

lemma fill_int_label:
  "c \<noteq> CHR ''%'' \<Longrightarrow> \<not> av_isdigit c \<Longrightarrow>
    replace_int_data_in_filename (CHR ''%'' # c # s) c n = (let (r, k) = replace_int_data_in_filename s c n in (show_int_pad 0 n @ r, k + 1))"
  by (subst replace_int_data_in_filename.simps) (simp add: deref_def split: prod.splits)

lemma fill_str_label:
  "c \<noteq> CHR ''%'' \<Longrightarrow>
    replace_str_data_in_filename (CHR ''%'' # c # s) c x = (let (r, k) = replace_str_data_in_filename s c x in (x @ r, k + 1))"
  by (subst replace_str_data_in_filename.simps) (simp add: deref_def split: prod.splits)

lemma fill_end: "replace_int_data_in_filename [] c n = ([], 0)" "replace_str_data_in_filename [] c x = ([], 0)"
  by (subst replace_int_data_in_filename.simps replace_str_data_in_filename.simps, simp)+

text \<open>A name with a label: what follows the label in the template is replaced on its own.\<close>

lemma format_name_label:
  assumes "format_name env (pre @ ''%v'' @ post) i name = (ret, s, ev)" "\<not> ret < 0" "CHR ''%'' \<notin> set pre"
  shows "\<exists>r. s = pre @ variant_label i name @ r \<and> (\<forall>c post'. post = c # post' \<longrightarrow> c \<noteq> CHR ''%'' \<longrightarrow> (\<exists>r'. r = c # r')) \<and>
    (CHR ''%'' \<notin> set post \<longrightarrow> r = post)"
proof -
  have "av_stristart (''%v'' @ post) ''%v'' \<noteq> None" by simp
  then have in_it: "av_stristr (pre @ ''%v'' @ post) ''%v'' \<noteq> None" unfolding stristr_iff by blast
  define R where "R = (case name of None \<Rightarrow> replace_int_data_in_filename post CHR ''v'' (int i)
                        | Some v \<Rightarrow> replace_str_data_in_filename post CHR ''v'' v)"
  have filled: "(case name of None \<Rightarrow> replace_int_data_in_filename (pre @ ''%v'' @ post) CHR ''v'' (int i)
                        | Some v \<Rightarrow> replace_str_data_in_filename (pre @ ''%v'' @ post) CHR ''v'' v) =
      (pre @ variant_label i name @ fst R, snd R + 1)"
    using assms(3)
    by (simp add: R_def fill_int_plain fill_str_plain fill_int_label fill_str_label variant_label_def show_pad_nat av_isdigit_def
        split: option.splits prod.splits)
  then have s: "s = pre @ variant_label i name @ fst R"
    using assms(1,2) in_it unfolding format_name_def filled prod.case Let_def by (auto split: if_splits)
  have "\<exists>r'. fst R = c # r'" if "post = c # post'" "c \<noteq> CHR ''%''" for c post'
    using that by (auto simp: R_def fill_int_char fill_str_char split: option.splits prod.splits)
  moreover have "fst R = post" if "CHR ''%'' \<notin> set post"
    using that fill_int_plain [of post "[]"] fill_str_plain [of post "[]"] by (simp add: R_def fill_end split: option.splits)
  ultimately show ?thesis using s by blast
qed

text \<open>The URL \<open>hls_start\<close> gives a segment, without \<open>strftime\<close>: the template, or the template with a number filled in.\<close>

lemma segment_names_url:
  assumes "segment_names env m v = (0, v', ev)" "\<not> use_localtime m"
  shows "avf_url (vst v') = seg_template v \<or> (\<exists>n. fill_template (seg_template v) CHR ''d'' n = Some (avf_url (vst v')))"
  using assms by (auto simp: segment_names_def Let_def split: if_splits option.splits)

lemma segment_url_form:
  assumes "segment_names env m v = (0, v', ev)" "\<not> use_localtime m" "seg_template v = pre @ lab @ c # r"
    and "CHR ''%'' \<notin> set pre" "CHR ''%'' \<notin> set lab" "c \<noteq> CHR ''%''"
  shows "\<exists>r'. avf_url (vst v') = pre @ lab @ c # r'"
  using segment_names_url [OF assms(1,2)] assms(3-6)
  by (auto simp: fill_template_def fill_int_plain fill_int_char Let_def dest: sym split: prod.splits if_splits)

lemma split_at_char: "c \<notin> set a \<Longrightarrow> c \<notin> set b \<Longrightarrow> a @ c # r = b @ c # r' \<Longrightarrow> a = b"
proof (induction a arbitrary: b)
  case (Cons x a)
  then show ?case by (cases b) auto
qed (auto simp: Cons_eq_append_conv)

subsection \<open>The template of the segments\<close>

lemma cut_in_tail: "CHR ''.'' \<notin> set ext \<Longrightarrow> cut_at_last CHR ''.'' (a @ CHR ''.'' # ext) = a"
proof -
  assume e: "CHR ''.'' \<notin> set ext"
  then have "strrchr (a @ CHR ''.'' # ext) CHR ''.'' = Some (CHR ''.'' # ext)" unfolding strrchr_Some by blast
  then show ?thesis by (simp add: cut_at_last_def)
qed

lemma default_basename:
  assumes "segment_basename env m i name m3u8 = (Inr b, e)" "segment_filename (hctx m) = None"
  shows "\<exists>pattern. b = cut_at_last CHR ''.'' m3u8 @ pattern \<and>
    (HLS_SINGLE_FILE \<notin> flags (hctx m) \<and> \<not> segment_fmp4 (hctx m) \<and> \<not> use_localtime m \<longrightarrow> pattern = ''%d.ts'')"
proof -
  have cut: "length (cut_at_last CHR ''.'' m3u8) \<le> length m3u8" by (simp add: cut_at_last_def split: option.splits)
  define pattern where "pattern =
      (if use_localtime m then get_default_pattern_localtime_fmt (epoch_seconds m) (segment_fmp4 (hctx m))
       else if HLS_SINGLE_FILE \<in> flags (hctx m) then (if segment_fmp4 (hctx m) then ''.m4s'' else ''.ts'')
       else (if segment_fmp4 (hctx m) then ''%d.m4s'' else ''%d.ts''))"
  have "b = fst (av_strlcat (cut_at_last CHR ''.'' (fst (av_strlcpy [] m3u8 (length m3u8 + length pattern + 1)))) pattern (length m3u8 + length pattern + 1))"
    using assms by (simp add: segment_basename_def Let_def pattern_def)
  then have "b = cut_at_last CHR ''.'' m3u8 @ pattern" using cut by (simp add: av_strlcpy_value av_strlcat_value)
  then show ?thesis by (auto simp: pattern_def)
qed

text \<open>The label is followed by the character \<open>c\<close> in the template of the segments, given or taken from the playlist.\<close>

definition separated_template :: "hls_options \<Rightarrow> string \<Rightarrow> char \<Rightarrow> string \<Rightarrow> bool" where
  "separated_template m pre c post \<longleftrightarrow> CHR ''%'' \<notin> set pre \<and> c \<noteq> CHR ''%'' \<and>
     (case segment_filename (hctx m) of
        Some f \<Rightarrow> f = pre @ ''%v'' @ c # post
      | None \<Rightarrow> s_url m = pre @ ''%v'' @ c # post \<and> CHR ''%'' \<notin> set post \<and> CHR ''.'' \<in> set post)"

definition label_clear :: "char \<Rightarrow> nat \<Rightarrow> string option \<Rightarrow> bool" where
  "label_clear c i name \<longleftrightarrow> c \<notin> set (variant_label i name) \<and> CHR ''%'' \<notin> set (variant_label i name)"

lemma separated_basename:
  assumes "hls_init env m types = (Inr h, ev)" "k < length (in_variants h)" "separated_template m pre c post"
  shows "\<exists>r. iv_basename (in_variants h ! k) = pre @ variant_label k (v_name (in_variants h ! k)) @ c # r"
proof -
  let ?v = "in_variants h ! k"
  have p: "CHR ''%'' \<notin> set pre" "c \<noteq> CHR ''%''" using assms(3) by (simp_all add: separated_template_def)
  obtain e where b: "segment_basename env (clear_independent m) k (v_name ?v) (iv_m3u8_name ?v) = (Inr (iv_basename ?v), e)"
    using hls_init_names(2) [OF assms(1,2)] by (elim exE) (rule that)
  show ?thesis
  proof (cases "segment_filename (hctx m)")
    case (Some f)
    then have f: "f = pre @ ''%v'' @ c # post" using assms(3) by (simp add: separated_template_def)
    obtain ret where "format_name env (pre @ ''%v'' @ c # post) k (v_name ?v) = (ret, iv_basename ?v, e)" "\<not> ret < 0"
      using b Some unfolding f by (auto simp: segment_basename_def case_format_Inr)
    from format_name_label [OF this p(1)] p(2) show ?thesis by blast
  next
    case None
    then have u: "s_url m = pre @ ''%v'' @ c # post" "CHR ''%'' \<notin> set (c # post)" "CHR ''.'' \<in> set post"
      using assms(3) p(2) by (auto simp: separated_template_def)
    obtain ret e' where m3u8: "format_name env (pre @ ''%v'' @ c # post) k (v_name ?v) = (ret, iv_m3u8_name ?v, e')" "\<not> ret < 0"
      using hls_init_names(1) [OF assms(1,2)] unfolding u(1) by (elim exE conjE) (rule that)
    obtain a ext where ext: "post = a @ CHR ''.'' # ext" "CHR ''.'' \<notin> set ext" using split_list_last [OF u(3)] by blast
    have "iv_m3u8_name ?v = (pre @ variant_label k (v_name ?v) @ c # a) @ CHR ''.'' # ext"
      using format_name_label [OF m3u8 p(1)] u(2) ext(1) by auto
    moreover obtain pattern where "iv_basename ?v = cut_at_last CHR ''.'' (iv_m3u8_name ?v) @ pattern"
      using default_basename [OF b] None by auto
    ultimately show ?thesis using cut_in_tail [OF ext(2), of "pre @ variant_label k (v_name ?v) @ c # a"] by simp
  qed
qed

lemma labels_differ_label: "k \<noteq> l \<Longrightarrow> labels_differ v w \<Longrightarrow> variant_label k (v_name v) \<noteq> variant_label l (v_name w)"
  by (auto simp: labels_differ_def variant_label_def dest: show_nat_inj split: option.splits)

lemma variants_own_segments:
  assumes h: "hls_init env m types = (Inr h, ev)" "k < length (in_variants h)" "l < length (in_variants h)" "k \<noteq> l"
    and labels: "labels_differ (in_variants h ! k) (in_variants h ! l)"
    and t: "separated_template m pre c post" "label_clear c k (v_name (in_variants h ! k))" "label_clear c l (v_name (in_variants h ! l))"
    and run: "\<not> use_localtime r" "segment_names env1 r v = (0, v', e1)" "segment_names env2 r w = (0, w', e2)"
    and basename: "seg_template v = iv_basename (in_variants h ! k)" "seg_template w = iv_basename (in_variants h ! l)"
  shows "avf_url (vst v') \<noteq> avf_url (vst w')"
proof
  assume eq: "avf_url (vst v') = avf_url (vst w')"
  let ?k = "variant_label k (v_name (in_variants h ! k))" and ?l = "variant_label l (v_name (in_variants h ! l))"
  have p: "CHR ''%'' \<notin> set pre" "c \<noteq> CHR ''%''" using t(1) by (simp_all add: separated_template_def)
  obtain a b where "seg_template v = pre @ ?k @ c # a" "seg_template w = pre @ ?l @ c # b"
    using separated_basename [OF h(1,2) t(1)] separated_basename [OF h(1,3) t(1)] basename by auto
  then obtain a' b' where "avf_url (vst v') = pre @ ?k @ c # a'" "avf_url (vst w') = pre @ ?l @ c # b'"
    using segment_url_form [OF run(2,1) _ p(1) _ p(2)] segment_url_form [OF run(3,1) _ p(1) _ p(2)] t(2,3) unfolding label_clear_def by metis
  then have "?k = ?l" using eq t(2,3) split_at_char [of c ?k ?l a' b'] unfolding label_clear_def by simp
  then show False using labels_differ_label [OF h(4) labels] by simp
qed

subsection \<open>Default names\<close>

text \<open>Digits put one after the other.\<close>

lemma show_nat_last: "0 < k \<Longrightarrow> d < 10 \<Longrightarrow> show_nat (10 * k + d) = show_nat k @ show_nat d"
  by (subst show_nat.simps) (simp add: show_nat.simps [of d])

lemma show_nat_first: "0 < d \<Longrightarrow> d < 10 \<Longrightarrow> show_nat (d * 10 ^ length (show_nat n) + n) = show_nat d @ show_nat n"
proof (induction n rule: show_nat.induct)
  case (1 n)
  show ?case
  proof (cases "n < 10")
    case True
    then have "show_nat n = [digit n]" by (subst show_nat.simps) simp
    moreover have "show_nat (10 * d + n) = show_nat d @ show_nat n" using 1(2) True by (rule show_nat_last)
    ultimately show ?thesis by (simp add: mult.commute)
  next
    case False
    define q where "q = d * 10 ^ length (show_nat (n div 10)) + n div 10"
    have split: "show_nat n = show_nat (n div 10) @ [digit (n mod 10)]" using False by (subst show_nat.simps) simp
    have "d * 10 ^ length (show_nat n) + n = 10 * q + n mod 10" unfolding split by (simp add: q_def)
    moreover have "0 < q" using 1(2) by (simp add: q_def)
    ultimately have "show_nat (d * 10 ^ length (show_nat n) + n) = show_nat q @ show_nat (n mod 10)" by (simp add: show_nat_last)
    also have "\<dots> = show_nat d @ show_nat n" using 1(1) [OF False 1(2,3)] by (simp add: q_def split show_nat.simps [of "n mod 10"])
    finally show ?thesis .
  qed
qed

text \<open>The default name of a segment: the playlist without its extension, and the sequence number.\<close>

lemma default_segment_name:
  assumes "hls_init env m types = (Inr h, ev)" "k < length (in_variants h)" "v_name (in_variants h ! k) = None"
    and "s_url m = pre @ ''%v.'' @ ext" "CHR ''%'' \<notin> set pre" "CHR ''%'' \<notin> set ext" "CHR ''.'' \<notin> set ext"
    and "segment_filename (hctx m) = None" "HLS_SINGLE_FILE \<notin> flags (hctx m)" "\<not> segment_fmp4 (hctx m)" "\<not> use_localtime m"
  shows "fill_template (iv_basename (in_variants h ! k)) CHR ''d'' (int n) = Some (pre @ show_nat k @ show_nat n @ ''.ts'')"
proof -
  let ?v = "in_variants h ! k"
  obtain ret e where m3u8: "format_name env (pre @ ''%v'' @ CHR ''.'' # ext) k None = (ret, iv_m3u8_name ?v, e)" "\<not> ret < 0"
    using hls_init_names(1) [OF assms(1,2)] assms(3,4) by auto
  have "iv_m3u8_name ?v = (pre @ show_nat k) @ CHR ''.'' # ext"
    using format_name_label [OF m3u8 assms(5)] assms(6) by (auto simp: variant_label_def)
  moreover obtain e' where b: "segment_basename env (clear_independent m) k None (iv_m3u8_name ?v) = (Inr (iv_basename ?v), e')"
    using hls_init_names(2) [OF assms(1,2)] assms(3) by auto
  have o: "use_localtime (clear_independent m) = use_localtime m" "segment_fmp4 (hctx (clear_independent m)) = segment_fmp4 (hctx m)"
    "HLS_SINGLE_FILE \<in> flags (hctx (clear_independent m)) \<longleftrightarrow> HLS_SINGLE_FILE \<in> flags (hctx m)"
    by (simp_all add: clear_independent_def)
  have "iv_basename ?v = cut_at_last CHR ''.'' (iv_m3u8_name ?v) @ ''%d.ts''"
    using default_basename [OF b] o assms(8-11) by auto
  ultimately have base: "iv_basename ?v = (pre @ show_nat k) @ CHR ''%'' # CHR ''d'' # ''.ts''" using cut_in_tail [OF assms(7), of "pre @ show_nat k"] by simp
  have plain: "CHR ''%'' \<notin> set (pre @ show_nat k)" using assms(5) show_nat_plain by simp
  have "replace_int_data_in_filename ''.ts'' CHR ''d'' (int n) = (''.ts'', 0)" by (simp add: fill_int_char fill_end)
  then have "replace_int_data_in_filename ((pre @ show_nat k) @ CHR ''%'' # CHR ''d'' # ''.ts'') CHR ''d'' (int n) =
      ((pre @ show_nat k) @ show_nat n @ ''.ts'', 1)"
    unfolding fill_int_plain [OF plain] by (simp add: fill_int_label av_isdigit_def show_pad_nat)
  then show ?thesis unfolding base fill_template_def by simp
qed

subsection \<open>Properties\<close>


text \<open>Options for the examples: local files, MPEG transport streams, no encryption.\<close>

definition sample_env :: hls_env where
  "sample_env =
     \<lparr>find_protocol = (\<lambda>_. Some ''file''), url_is_http = False, open_write = (\<lambda>_. 0), new_request = (\<lambda>_. 0),
      read_text = (\<lambda>_. (- 2, [])), read_bytes = (\<lambda>_. (- 2, 0, [])), mkdir_p = (\<lambda>_. 0), local_name = (\<lambda>_. None),
      random_key = (0, []), write_vtt_header = 0\<rparr>"

definition sample_options :: "string \<Rightarrow> string \<Rightarrow> hls_options" where
  "sample_options url streams_map =
     \<lparr>hctx = \<lparr>start_sequence = 0, max_nb_segments = 5, hls_delete_threshold = 1, wrap = 0, flags = {}, pl_type = 0,
        segment_filename = None, segment_fmp4 = False, use_localtime_mkdir = False, allowcache = - 1, max_seg_size = 0,
        encrypt = False, key_info_file = False, key_uri = [], iv_string = [], http_method = None, version = 3,
        ignore_io_errors = False\<rparr>,
      s_url = url, recording_time = 2000000, time_us = 2000000, init_time_positive = False, use_localtime = False,
      http_persistent = False, encrypt_started = False, key_info_url = [], key_url = None, enc_key = None, enc_iv = None,
      key_file = [], key_string = [], key_basename = [], fmp4_init_option = ''init.mp4'', subtitle_option = None,
      master_pl_option = Some ''master.m3u8'', var_stream_map_option = Some streams_map, cc_stream_map_option = None,
      epoch_seconds = True\<rparr>"

definition sample_segment :: "string \<Rightarrow> int \<Rightarrow> int packet_vs" where
  "sample_segment template n =
     \<lparr>vst =
        \<lparr>var_stream_idx = 0, sequence = n, avf_url = [], vtt_url = [], has_video = True, has_subtitle = False,
         video_keyframe_pos = 0, video_keyframe_size = 0, last_duration = 0, start_pos = 0, last_size = 0, nb_entries = 0,
         discontinuity_set = False, discontinuity = False, segments = [], old_segments = [], init_range_length = 0,
         initial_prog_date_time = 0, current_segment_final_filename_fmt = [], fmp4_init_filename = [],
         m3u8_name = [], vtt_m3u8_name = None, baseurl = None, varname = None\<rparr>,
      streams = [0], number = 1, packets_written = 0, new_start = True, dpp = 0, start_pts = 0,
      end_pts = 0, video_lastpos = 0, reference_stream_index = 0, seg_template = template, vtt_template = None,
      avf_pb = True, vtt_pb = False, out_open = False\<rparr>"




end
