(* ===== verification/HlsMaster.thy ===== *)
theory HlsMaster
  imports HlsNames
begin

section \<open>The master playlist: \<open>create_master_playlist\<close> of \<open>hlsenc.c\<close>\<close>

text \<open>
  The master playlist lists the media playlists of all variants, with links relative to its own place.  \<open>hls_window\<close> calls
  \<open>create_master_playlist\<close> whenever the playlist of a variant has been written.  What opening the file returns is the
  function \<open>io_open\<close>; opening, writing and renaming are events.
\<close>

subsection \<open>Links\<close>

definition get_relative_url :: "string \<Rightarrow> string \<Rightarrow> string \<Rightarrow> nat \<Rightarrow> int \<times> string" where
  "get_relative_url master_url media_url rel_url rel_url_buf_size =
     (let p = (if strrchr master_url CHR ''/'' \<noteq> None then strrchr master_url CHR ''/'' else strrchr master_url CHR 0x5C)
      in case p of
           None \<Rightarrow> (0, fst (av_strlcpy rel_url media_url rel_url_buf_size))
         | Some p \<Rightarrow>
             let base_len = length master_url - length p
             in if av_strncasecmp master_url media_url base_len \<noteq> 0 then (AVERROR_EINVAL, rel_url)
                else (0, fst (av_strlcpy rel_url (drop (base_len + 1) media_url) rel_url_buf_size)))"

text \<open>The link written for a variant.\<close>

definition relative_name :: "string \<Rightarrow> string \<Rightarrow> int \<times> string" where
  "relative_name master_url m3u8 =
     (let m3u8_name_size = length m3u8 + 1
      in get_relative_url master_url m3u8 (fst (av_strlcpy [] m3u8 m3u8_name_size)) m3u8_name_size)"

subsection \<open>State\<close>

record media_stream = AVStream +
  ms_bit_rate :: int
  ms_cpb_max_bitrate :: "int option"
  ms_dimensions :: "int \<times> int"

definition get_stream_bit_rate :: "media_stream \<Rightarrow> int" where
  "get_stream_bit_rate st =
     (if ms_bit_rate st \<noteq> 0 then ms_bit_rate st
      else case ms_cpb_max_bitrate st of Some r \<Rightarrow> r | None \<Rightarrow> 0)"

record master_variant = named_variant +
  mv_m3u8_created :: bool
  mv_number :: nat
  mv_codec_attr :: string

record master =
  ma_streams :: "media_stream list"
  ma_variants :: "master_variant list"
  ma_ccs :: "cc_stream list"
  ma_keys :: map_flags
  ma_flags :: "HLSFlags set"
  ma_version :: int
  ma_url :: string
  ma_publish_rate :: nat
  ma_created :: bool

text \<open>\<open>vs->streams[j]\<close>; the initialisation has looked at all of them, so none is null.\<close>

definition variant_streams :: "master \<Rightarrow> 'a map_variant_scheme \<Rightarrow> media_stream list" where
  "variant_streams ma v = map (\<lambda>i. ma_streams ma ! the i) (v_streams v)"

subsection \<open>The text\<close>

fun caption_lines :: "avio \<Rightarrow> cc_stream list \<Rightarrow> avio" where
  "caption_lines out [] = out"
| "caption_lines out (ccs # rest) =
     (let out = avio_print out ''#EXT-X-MEDIA:TYPE=CLOSED-CAPTIONS'';
          out = avio_print out ('',GROUP-ID='' @ QUOTE @ the (cc_group ccs) @ QUOTE);
          out = avio_print out ('',NAME='' @ QUOTE @ the (cc_instreamid ccs) @ QUOTE);
          out = (case cc_language ccs of None \<Rightarrow> out | Some l \<Rightarrow> avio_print out ('',LANGUAGE='' @ QUOTE @ l @ QUOTE));
          out = avio_print out ('',INSTREAM-ID='' @ QUOTE @ the (cc_instreamid ccs) @ QUOTE @ LF)
      in caption_lines out rest)"

definition audio_rendition :: "'a named_variant_scheme \<Rightarrow> bool" where
  "audio_rendition v \<longleftrightarrow> iv_has_video v = 0 \<and> iv_has_subtitle v = 0 \<and> v_agroup v \<noteq> None"

fun rendition_lines :: "master \<Rightarrow> int \<Rightarrow> avio \<Rightarrow> nat \<Rightarrow> master_variant list \<Rightarrow> int \<times> avio" where
  "rendition_lines ma ret out i [] = (ret, out)"
| "rendition_lines ma ret out i (vs # rest) =
     (if \<not> audio_rendition vs then rendition_lines ma ret out (Suc i) rest
      else
        let (ret, m3u8_rel_name) = relative_name (ma_url ma) (iv_m3u8_name vs)
        in if ret < 0 then (ret, out)
           else rendition_lines ma ret
                  (ff_hls_write_audio_rendition out (v_agroup vs) (Some m3u8_rel_name) (v_language vs) (int i)
                     (if has_default_key (ma_keys ma) then v_default vs else True))
                  (Suc i) rest)"

text \<open>The video and the audio stream a variant is described by: the last ones.\<close>

fun choose_streams :: "media_stream list \<Rightarrow> media_stream option \<times> media_stream option \<Rightarrow>
    media_stream option \<times> media_stream option" where
  "choose_streams [] chosen = chosen"
| "choose_streams (st # sts) (vid_st, aud_st) =
     choose_streams sts
       (if codec_type st = AVMEDIA_TYPE_VIDEO then (Some st, aud_st)
        else if codec_type st = AVMEDIA_TYPE_AUDIO then (vid_st, Some st)
        else (vid_st, aud_st))"

text \<open>The audio stream with the highest rate among it and the renditions of the group.\<close>

fun group_audio :: "master \<Rightarrow> string \<Rightarrow> master_variant list \<Rightarrow> media_stream option \<Rightarrow> media_stream option" where
  "group_audio ma agroup [] aud_st = aud_st"
| "group_audio ma agroup (temp_vs # rest) aud_st =
     group_audio ma agroup rest
       (if audio_rendition temp_vs \<and> av_strcasecmp (the (v_agroup temp_vs)) agroup = 0
        then
          let st = variant_streams ma temp_vs ! 0;
              aud = (case aud_st of None \<Rightarrow> st | Some a \<Rightarrow> a)
          in Some (if ms_bit_rate st > ms_bit_rate aud then st else aud)
        else aud_st)"

definition variant_audio :: "master \<Rightarrow> 'a map_variant_scheme \<Rightarrow> media_stream option \<Rightarrow> media_stream option" where
  "variant_audio ma vs aud_st = (case v_agroup vs of None \<Rightarrow> aud_st | Some g \<Rightarrow> group_audio ma g (ma_variants ma) aud_st)"

text \<open>An \<open>int\<close>, to which the 64-bit rates are added.\<close>

definition variant_bandwidth :: "media_stream option \<Rightarrow> media_stream option \<Rightarrow> int" where
  "variant_bandwidth vid_st aud_st =
     (let bandwidth = 0;
          bandwidth = (case vid_st of None \<Rightarrow> bandwidth | Some st \<Rightarrow> s32 (bandwidth + get_stream_bit_rate st));
          bandwidth = (case aud_st of None \<Rightarrow> bandwidth | Some st \<Rightarrow> s32 (bandwidth + get_stream_bit_rate st))
      in s32 (bandwidth + bandwidth sdiv 10))"

definition variant_ccgroup :: "master \<Rightarrow> 'a map_variant_scheme \<Rightarrow> media_stream option \<Rightarrow> string option" where
  "variant_ccgroup ma vs vid_st =
     (case (vid_st, v_ccgroup vs) of
        (Some _, Some g) \<Rightarrow> if \<exists>ccs \<in> set (ma_ccs ma). av_strcasecmp (the (cc_group ccs)) g = 0 then Some g else None
      | _ \<Rightarrow> None)"

definition stream_info :: "master \<Rightarrow> avio \<Rightarrow> master_variant \<Rightarrow> string \<Rightarrow> media_stream option \<Rightarrow> media_stream option \<Rightarrow> avio" where
  "stream_info ma out vs m3u8_rel_name vid_st aud_st =
     (if \<not> has_default_key (ma_keys ma) \<or> \<not> has_video_m3u8 (ma_keys ma) \<or> vid_st \<noteq> None
      then ff_hls_write_stream_info (map_option ms_dimensions vid_st) out (variant_bandwidth vid_st aud_st) (Some m3u8_rel_name)
             (if aud_st \<noteq> None then v_agroup vs else None) (Some (mv_codec_attr vs)) (variant_ccgroup ma vs vid_st)
      else out)"

fun stream_lines :: "master \<Rightarrow> int \<Rightarrow> avio \<Rightarrow> master_variant list \<Rightarrow> int \<times> avio" where
  "stream_lines ma ret out [] = (ret, out)"
| "stream_lines ma ret out (vs # rest) =
     (let (ret, m3u8_rel_name) = relative_name (ma_url ma) (iv_m3u8_name vs)
      in if ret < 0 then (ret, out)
         else
           let (vid_st, aud_st) = choose_streams (variant_streams ma vs) (None, None)
           in if vid_st = None \<and> aud_st = None then stream_lines ma ret out rest
              else stream_lines ma ret (stream_info ma out vs m3u8_rel_name vid_st (variant_audio ma vs aud_st)) rest)"

definition master_text :: "master \<Rightarrow> int \<Rightarrow> int \<times> avio" where
  "master_text ma ret =
     (let out = ff_hls_write_playlist_version (Some []) (ma_version ma);
          out = caption_lines out (ma_ccs ma);
          (ret, out) = rendition_lines ma ret out 0 (ma_variants ma)
      in if ret < 0 then (ret, out) else stream_lines ma ret out (ma_variants ma))"

subsection \<open>When it is written\<close>

datatype master_io = MasterOpen string | MasterWrite string string | MasterRename string string

definition master_due :: "master \<Rightarrow> nat \<Rightarrow> bool" where
  "master_due ma i \<longleftrightarrow>
     (if \<not> ma_created ma then \<forall>v \<in> set (ma_variants ma). mv_m3u8_created v
      else \<not> (i \<noteq> 0 \<or> ma_publish_rate ma = 0 \<or> mv_number (ma_variants ma ! i) mod ma_publish_rate ma \<noteq> 0))"

definition create_master_playlist :: "(string \<Rightarrow> int) \<Rightarrow> (string \<Rightarrow> string option) \<Rightarrow> nat \<Rightarrow> master \<Rightarrow>
    int \<times> master \<times> master_io list" where
  "create_master_playlist io_open find_protocol_name i ma =
     (let ma = ma\<lparr>ma_variants := (ma_variants ma)[i := (ma_variants ma ! i)\<lparr>mv_m3u8_created := True\<rparr>]\<rparr>
      in if \<not> master_due ma i then (0, ma, [])
         else
           let is_file_proto = (find_protocol_name (ma_url ma) = Some ''file'');
               use_temp_file = (is_file_proto \<and> (HLS_TEMP_FILE \<in> ma_flags ma \<or> ma_publish_rate ma \<noteq> 0));
               temp_filename = temp_name use_temp_file (ma_url ma);
               rename = (if use_temp_file then [MasterRename temp_filename (ma_url ma)] else []);
               ret = io_open temp_filename
           in if ret < 0 then (ret, ma, MasterOpen temp_filename # rename)
              else
                let (ret, out) = master_text ma ret;
                    w = (case out of None \<Rightarrow> [] | Some t \<Rightarrow> [MasterWrite temp_filename t])
                in (ret, if ret \<ge> 0 then ma\<lparr>ma_created := True\<rparr> else ma, MasterOpen temp_filename # w @ rename))"


text \<open>\<open>hls_window\<close> has written the playlist of the variant, whose segment number it is at.\<close>

definition after_window :: "(string \<Rightarrow> int) \<Rightarrow> (string \<Rightarrow> string option) \<Rightarrow> nat \<times> nat \<Rightarrow> master \<Rightarrow> int \<times> master \<times> master_io list" where
  "after_window io_open find_protocol_name = (\<lambda>(i, n) ma.
     create_master_playlist io_open find_protocol_name i
       (ma\<lparr>ma_variants := (ma_variants ma)[i := (ma_variants ma ! i)\<lparr>mv_number := n\<rparr>]\<rparr>))"

text \<open>A sequence of them: what each returned and did.\<close>

fun master_run :: "(string \<Rightarrow> int) \<Rightarrow> (string \<Rightarrow> string option) \<Rightarrow> (nat \<times> nat) list \<Rightarrow> master \<Rightarrow> (int \<times> master_io list) list" where
  "master_run io_open fp [] ma = []"
| "master_run io_open fp (w # ws) ma =
     (case after_window io_open fp w ma of (ret, ma, ev) \<Rightarrow> (ret, ev) # master_run io_open fp ws ma)"

definition periodic :: "nat \<Rightarrow> nat \<times> nat \<Rightarrow> bool" where
  "periodic rate w \<longleftrightarrow> fst w = 0 \<and> rate \<noteq> 0 \<and> snd w mod rate = 0"

lemma after_window_step:
  assumes "after_window io_open fp (i, n) ma = (ret, ma', ev)" "i < length (ma_variants ma)"
  shows "map mv_m3u8_created (ma_variants ma') = (map mv_m3u8_created (ma_variants ma))[i := True]"
    and "ma_publish_rate ma' = ma_publish_rate ma"
    and "ev \<noteq> [] \<longleftrightarrow> (if ma_created ma then periodic (ma_publish_rate ma) (i, n)
                   else \<forall>c \<in> set ((map mv_m3u8_created (ma_variants ma))[i := True]). c)"
    and "ma_created ma' \<longleftrightarrow> ma_created ma \<or> ev \<noteq> [] \<and> 0 \<le> ret"
proof -
  define m1 where "m1 = ma\<lparr>ma_variants := (ma_variants ma)[i := (ma_variants ma ! i)\<lparr>mv_number := n\<rparr>]\<rparr>"
  define m2 where "m2 = m1\<lparr>ma_variants := (ma_variants m1)[i := (ma_variants m1 ! i)\<lparr>mv_m3u8_created := True\<rparr>]\<rparr>"
  have c: "create_master_playlist io_open fp i m1 = (ret, ma', ev)" using assms(1) by (simp add: after_window_def m1_def)
  have m2: "map mv_m3u8_created (ma_variants m2) = (map mv_m3u8_created (ma_variants ma))[i := True]"
    "ma_publish_rate m2 = ma_publish_rate ma" "ma_created m2 = ma_created ma" "mv_number (ma_variants m2 ! i) = n"
    using assms(2) by (simp_all add: m1_def m2_def map_update)
  have due: "master_due m2 i \<longleftrightarrow> (if ma_created ma then periodic (ma_publish_rate ma) (i, n)
      else \<forall>c \<in> set ((map mv_m3u8_created (ma_variants ma))[i := True]). c)"
    unfolding master_due_def periodic_def m2(1) [symmetric] by (simp add: m2(2-4))
  have out: "(ma' = m2 \<or> ma' = m2\<lparr>ma_created := True\<rparr>) \<and> (ev \<noteq> [] \<longleftrightarrow> master_due m2 i) \<and>
      (ma_created ma' \<longleftrightarrow> ma_created m2 \<or> ev \<noteq> [] \<and> 0 \<le> ret)"
    using c unfolding create_master_playlist_def Let_def m2_def [symmetric]
    by (auto split: if_splits prod.splits)
  then show "map mv_m3u8_created (ma_variants ma') = (map mv_m3u8_created (ma_variants ma))[i := True]"
    "ma_publish_rate ma' = ma_publish_rate ma" "ma_created ma' \<longleftrightarrow> ma_created ma \<or> ev \<noteq> [] \<and> 0 \<le> ret"
    using m2 by auto
  show "ev \<noteq> [] \<longleftrightarrow> (if ma_created ma then periodic (ma_publish_rate ma) (i, n)
                   else \<forall>c \<in> set ((map mv_m3u8_created (ma_variants ma))[i := True]). c)"
    using out due by blast
qed

text \<open>Given which variants have been seen, and whether the master playlist has been written.\<close>

lemma master_run_writes:
  assumes "\<forall>w \<in> set ws. fst w < length (ma_variants ma)" "k < length ws"
  shows "length (master_run io_open fp ws ma) = length ws \<and>
    (snd (master_run io_open fp ws ma ! k) \<noteq> [] \<longleftrightarrow>
       (if ma_created ma \<or> (\<exists>j < k. snd (master_run io_open fp ws ma ! j) \<noteq> [] \<and> 0 \<le> fst (master_run io_open fp ws ma ! j))
        then periodic (ma_publish_rate ma) (ws ! k)
        else \<forall>i < length (ma_variants ma). mv_m3u8_created (ma_variants ma ! i) \<or> i \<in> fst ` set (take (Suc k) ws)))"
  using assms
proof (induction ws arbitrary: ma k)
  case (Cons w ws)
  obtain i n where w: "w = (i, n)" by (cases w)
  obtain ret ma' ev where a: "after_window io_open fp w ma = (ret, ma', ev)" by (metis prod_cases3)
  have i: "i < length (ma_variants ma)" using Cons.prems(1) w by simp
  note step = after_window_step [OF a [unfolded w] i]
  have len: "length (ma_variants ma') = length (ma_variants ma)" using step(1) by (metis length_list_update length_map)
  have seen: "mv_m3u8_created (ma_variants ma' ! l) \<longleftrightarrow> mv_m3u8_created (ma_variants ma ! l) \<or> l = i" if "l < length (ma_variants ma)" for l
  proof -
    have "mv_m3u8_created (ma_variants ma' ! l) = (map mv_m3u8_created (ma_variants ma))[i := True] ! l"
      unfolding step(1) [symmetric] using that len by simp
    then show ?thesis using that i by (auto simp: nth_list_update)
  qed
  have all: "(\<forall>c \<in> set ((map mv_m3u8_created (ma_variants ma))[i := True]). c) \<longleftrightarrow>
      (\<forall>l < length (ma_variants ma). mv_m3u8_created (ma_variants ma ! l) \<or> l = i)"
    unfolding step(1) [symmetric] all_set_conv_all_nth using len seen by simp
  have run: "master_run io_open fp (w # ws) ma = (ret, ev) # master_run io_open fp ws ma'" using a by simp
  have ws: "\<forall>w \<in> set ws. fst w < length (ma_variants ma')" using Cons.prems(1) len by simp
  note IH = Cons.IH [OF ws, unfolded step(2) len step(4)]
  have lens: "length (master_run io_open fp ws ma') = length ws"
  proof (cases ws)
    case (Cons v vs)
    then show ?thesis using IH [of 0] by simp
  qed simp
  show ?case
  proof (cases k)
    case 0
    then show ?thesis unfolding run using step(3) all lens w by auto
  next
    case (Suc k')
    then have k: "k' < length ws" using Cons.prems(2) by simp
    show ?thesis
      unfolding run Suc Ex_less_Suc2 using conjunct2 [OF IH [OF k]] lens seen w
      by (auto simp: disj_assoc)
  qed
qed simp

text \<open>C11. Along any sequence of media playlists written, of variants and the segment numbers they are at: the master playlist is
  attempted for the first time when the last variant gets its playlist, then every time until writing it succeeds, and
  from then on exactly when the first variant is at a multiple of the publishing rate.\<close>

theorem hls_master_published:
  assumes "\<forall>w \<in> set ws. fst w < length (ma_variants ma)" "k < length ws"
    and "\<not> ma_created ma" "\<forall>v \<in> set (ma_variants ma). \<not> mv_m3u8_created v"
  shows "snd (master_run io_open fp ws ma ! k) \<noteq> [] \<longleftrightarrow>
    (if \<exists>j < k. snd (master_run io_open fp ws ma ! j) \<noteq> [] \<and> 0 \<le> fst (master_run io_open fp ws ma ! j)
     then fst (ws ! k) = 0 \<and> ma_publish_rate ma \<noteq> 0 \<and> snd (ws ! k) mod ma_publish_rate ma = 0
     else {..<length (ma_variants ma)} \<subseteq> fst ` set (take (Suc k) ws))"
  using conjunct2 [OF master_run_writes [OF assms(1,2), of io_open fp]] assms(3,4) by (auto simp: periodic_def)


subsection \<open>The links lead to the playlists\<close>

lemma strncasecmp_same: "av_strncasecmp (b @ x) (b @ y) (length b) = 0"
  by (induction b) (simp_all add: Let_def deref_def char_diff_def)

lemma relative_name_sibling:
  assumes "CHR ''/'' \<notin> set name"
  shows "relative_name (b @ CHR ''/'' # name) (b @ CHR ''/'' # r) = (0, r)"
proof -
  have "strrchr (b @ CHR ''/'' # name) CHR ''/'' = Some (CHR ''/'' # name)" using assms by (auto simp: strrchr_Some)
  then show ?thesis
    using strncasecmp_same [of b "CHR ''/'' # name" "CHR ''/'' # r"]
    by (simp add: relative_name_def get_relative_url_def Let_def av_strlcpy_value)
qed

lemma relative_name_plain:
  assumes "CHR ''/'' \<notin> set name" "CHR 0x5C \<notin> set name"
  shows "relative_name name m3u8 = (0, m3u8)"
  using assms strrchr_None [of name "CHR ''/''"] strrchr_None [of name "CHR 0x5C"]
  by (simp add: relative_name_def get_relative_url_def Let_def av_strlcpy_value)

lemma replace_prefix:
  assumes "CHR ''%'' \<notin> set d"
  shows "\<exists>r. fst (replace_int_data_in_filename (d @ p) c i) = d @ r" "\<exists>r. fst (replace_str_data_in_filename (d @ p) c a) = d @ r"
  using assms
proof (induction d)
  case (Cons x d)
  { case 1
    then show ?case using Cons.IH(1)
      by (subst replace_int_data_in_filename.simps) (auto simp: deref_def split: prod.splits) }
  { case 2
    then show ?case using Cons.IH(2)
      by (subst replace_str_data_in_filename.simps) (auto simp: deref_def split: prod.splits) }
qed simp_all

lemma format_name_prefix:
  assumes "format_name env (d @ p) i n = (ret, s, ev)" "CHR ''%'' \<notin> set d"
  shows "\<exists>r. s = d @ r"
  using assms(1) replace_prefix [OF assms(2), of p "CHR ''v''"]
  by (auto simp: format_name_def Let_def split: if_splits prod.splits option.splits) (metis fst_conv)+

definition master_dir :: "string \<Rightarrow> string" where
  "master_dir url =
     (if av_stristr (av_basename (av_dirname url)) ''%v'' \<noteq> None then av_dirname (av_dirname url) else av_dirname url)"

lemma dirname_split: "av_dirname path = ''.'' \<or> (\<exists>f. path = av_dirname path @ CHR ''/'' # f)"
proof (cases "strrchr path CHR ''/''")
  case (Some p)
  then obtain u v where "path = u @ CHR ''/'' # v" "p = CHR ''/'' # v" by (auto simp: strrchr_Some)
  then show ?thesis using Some by (simp add: av_dirname_def)
qed (simp add: av_dirname_def)

lemma master_dir_split: "master_dir url = ''.'' \<or> (\<exists>f. url = master_dir url @ CHR ''/'' # f)"
proof (cases "av_stristr (av_basename (av_dirname url)) ''%v'' = None")
  case True
  then have "master_dir url = av_dirname url" by (simp add: master_dir_def)
  then show ?thesis using dirname_split [of url] by simp
next
  case False
  have "av_dirname url \<noteq> ''.''"
  proof
    assume "av_dirname url = ''.''"
    moreover have "av_stristr (av_basename ''.'') ''%v'' = None" by code_simp
    ultimately show False using False by simp
  qed
  then obtain f where f: "url = av_dirname url @ CHR ''/'' # f" using dirname_split [of url] by blast
  have md: "master_dir url = av_dirname (av_dirname url)" using False by (simp add: master_dir_def)
  show ?thesis
  proof (cases "master_dir url = ''.''")
    case False
    then obtain g where g: "av_dirname url = master_dir url @ CHR ''/'' # g" using dirname_split [of "av_dirname url"] md by auto
    have "url = master_dir url @ CHR ''/'' # g @ CHR ''/'' # f" by (subst f, subst g) simp
    then show ?thesis by blast
  qed simp
qed

text \<open>Where a link in the playlist leads.\<close>

definition resolve_link :: "string \<Rightarrow> string \<Rightarrow> string" where
  "resolve_link base rel =
     (case strrchr base CHR ''/'' of None \<Rightarrow> rel | Some p \<Rightarrow> take (length base - length p + 1) base @ rel)"

lemma resolve_sibling: "CHR ''/'' \<notin> set name \<Longrightarrow> resolve_link (b @ CHR ''/'' # name) r = b @ CHR ''/'' # r"
proof -
  assume "CHR ''/'' \<notin> set name"
  then have "strrchr (b @ CHR ''/'' # name) CHR ''/'' = Some (CHR ''/'' # name)" by (auto simp: strrchr_Some)
  then show ?thesis by (simp add: resolve_link_def)
qed

lemma resolve_plain: "CHR ''/'' \<notin> set name \<Longrightarrow> resolve_link name r = r"
  using strrchr_None [of name "CHR ''/''"] by (simp add: resolve_link_def)

lemma master_url_cases:
  assumes "update_master_pl_info url name = Some master" "name \<noteq> []" "CHR ''/'' \<notin> set name"
  shows "master = name \<or> (\<exists>b. master = b @ CHR ''/'' # name \<and> (\<exists>f. url = master_dir url @ CHR ''/'' # f) \<and>
    (\<forall>z. \<exists>z'. master_dir url @ CHR ''/'' # z = b @ CHR ''/'' # z'))"
proof -
  have u: "update_master_pl_info url name =
      (if master_dir url \<noteq> ''.'' then av_append_path_component (Some (master_dir url)) (Some name) else Some name)"
    by (simp add: update_master_pl_info_def master_dir_def Let_def)
  show ?thesis
  proof (cases "master_dir url = ''.'' \<or> master_dir url = []")
    case True
    then show ?thesis using assms(1) unfolding u by (auto simp: av_append_path_component_def Let_def)
  next
    case False
    then obtain f where f: "url = master_dir url @ CHR ''/'' # f" using master_dir_split [of url] by blast
    obtain d c where dc: "master_dir url = d @ [c]" using False rev_exhaust by blast
    have n: "name ! 0 \<noteq> CHR ''/''" using assms(2,3) by (cases name) auto
    show ?thesis
    proof (cases "c = CHR ''/''")
      case True
      then have "master = d @ CHR ''/'' # name"
        using assms(1,2) False n dc unfolding u by (simp add: av_append_path_component_def Let_def)
      then show ?thesis using f dc True by (intro disjI2 exI [of _ d]) auto
    next
      case c: False
      then have "master = master_dir url @ CHR ''/'' # name"
        using assms(1,2) False n dc unfolding u by (simp add: av_append_path_component_def Let_def)
      then show ?thesis using f by (intro disjI2 exI [of _ "master_dir url"]) auto
    qed
  qed
qed

text \<open>C12. The master playlist's place, chosen at initialisation, goes with the links written later: if its name is a plain file
  name and no directory above it has a \<open>%\<close> in its name, the link of every variant is found, and put after the
  directory of the master playlist it is the media playlist of the variant.\<close>

theorem hls_master_links:
  assumes "hls_init env m types = (Inr h, ev)" "master_pl_option m = Some name" "in_master_url h = Some url"
    and "name \<noteq> []" "CHR ''/'' \<notin> set name" "CHR 0x5C \<notin> set name" "CHR ''%'' \<notin> set (master_dir (s_url m))"
    and "v \<in> set (in_variants h)"
  shows "\<exists>rel. relative_name url (iv_m3u8_name v) = (0, rel) \<and> resolve_link url rel = iv_m3u8_name v"
proof -
  obtain vs sz e where h: "init_variants env (clear_independent m) types (length vs) 0 vs sz = (Inr (in_variants h), e)"
    "in_master_url h = update_master_pl_info (s_url m) name"
    using hls_init_variants [OF assms(1)] assms(2) by (metis option.simps(5))
  obtain k where k: "k < length vs" "v = in_variants h ! k"
    using assms(8) init_variants_names [OF h(1)] by (metis in_set_conv_nth)
  obtain n ret e' where f: "format_name env (s_url m) k n = (ret, iv_m3u8_name v, e')"
    using init_variants_names [OF h(1)] k by (metis add_0 clear_independent_frame(1))
  have "update_master_pl_info (s_url m) name = Some url" using h(2) assms(3) by simp
  from master_url_cases [OF this assms(4,5)] show ?thesis
  proof
    assume "url = name"
    then show ?thesis using relative_name_plain [OF assms(5,6)] resolve_plain [OF assms(5)] by simp
  next
    assume "\<exists>b. url = b @ CHR ''/'' # name \<and> (\<exists>f. s_url m = master_dir (s_url m) @ CHR ''/'' # f) \<and>
      (\<forall>z. \<exists>z'. master_dir (s_url m) @ CHR ''/'' # z = b @ CHR ''/'' # z')"
    moreover define d where "d = master_dir (s_url m)"
    ultimately obtain b p where b: "url = b @ CHR ''/'' # name" "s_url m = (d @ ''/'') @ p"
      "\<forall>z. \<exists>z'. d @ CHR ''/'' # z = b @ CHR ''/'' # z'" by auto
    have "CHR ''%'' \<notin> set (d @ ''/'')" using assms(7) by (simp add: d_def)
    from format_name_prefix [OF f [unfolded b(2)] this] obtain r where "iv_m3u8_name v = d @ CHR ''/'' # r" by auto
    then obtain z where "iv_m3u8_name v = b @ CHR ''/'' # z" using b(3) by metis
    then show ?thesis using relative_name_sibling [OF assms(5)] resolve_sibling [OF assms(5)] b(1) by simp
  qed
qed


subsection \<open>The bandwidth covers every choice of audio\<close>

text \<open>The audio a client may play with a variant: its own, or the first stream of a rendition of the group.\<close>

definition group_member :: "string \<Rightarrow> master_variant \<Rightarrow> bool" where
  "group_member g w \<longleftrightarrow> audio_rendition w \<and> av_strcasecmp (the (v_agroup w)) g = 0"

definition audio_choices :: "master \<Rightarrow> string \<Rightarrow> master_variant list \<Rightarrow> media_stream option \<Rightarrow> media_stream set" where
  "audio_choices ma g ws own = set_option own \<union> (\<lambda>w. variant_streams ma w ! 0) ` {w \<in> set ws. group_member g w}"

lemma audio_choices_step:
  "group_member g w \<Longrightarrow> audio_choices ma g (w # ws) own = insert (variant_streams ma w ! 0) (audio_choices ma g ws own)"
  "\<not> group_member g w \<Longrightarrow> audio_choices ma g (w # ws) own = audio_choices ma g ws own"
  by (auto simp: audio_choices_def)

lemma group_audio_highest:
  assumes "audio_choices ma g ws own \<noteq> {}"
  shows "\<exists>a \<in> audio_choices ma g ws own. group_audio ma g ws own = Some a \<and>
    (\<forall>c \<in> audio_choices ma g ws own. ms_bit_rate c \<le> ms_bit_rate a)"
  using assms
proof (induction ws arbitrary: own)
  case Nil
  then show ?case by (auto simp: audio_choices_def)
next
  case (Cons w ws)
  show ?case
  proof (cases "group_member g w")
    case False
    then have "group_audio ma g (w # ws) own = group_audio ma g ws own" by (auto simp: group_member_def)
    then show ?thesis using Cons.IH [of own] Cons.prems by (simp only: audio_choices_step(2) [OF False] simp_thms)
  next
    case True
    define st where "st = variant_streams ma w ! 0"
    define own' where "own' = (case own of None \<Rightarrow> st | Some a \<Rightarrow> if ms_bit_rate st > ms_bit_rate a then st else a)"
    have step: "group_audio ma g (w # ws) own = group_audio ma g ws (Some own')"
      using True by (auto simp: group_member_def own'_def st_def Let_def split: option.splits)
    have own': "own' \<in> insert st (set_option own)" "\<forall>c \<in> insert st (set_option own). ms_bit_rate c \<le> ms_bit_rate own'"
      by (auto simp: own'_def split: option.splits)
    have sets: "audio_choices ma g (w # ws) own = insert st (set_option own) \<union> audio_choices ma g ws (Some own') - {own'} \<union> {own'}"
      using own'(1) True by (auto simp: audio_choices_def st_def)
    have "audio_choices ma g ws (Some own') \<noteq> {}" by (simp add: audio_choices_def)
    from Cons.IH [OF this] obtain a where a: "a \<in> audio_choices ma g ws (Some own')" "group_audio ma g ws (Some own') = Some a"
      "\<forall>c \<in> audio_choices ma g ws (Some own'). ms_bit_rate c \<le> ms_bit_rate a" by blast
    have "ms_bit_rate own' \<le> ms_bit_rate a" using a(3) by (simp add: audio_choices_def)
    then have "\<forall>c \<in> insert st (set_option own). ms_bit_rate c \<le> ms_bit_rate a" using own'(2) by fastforce
    then have "a \<in> audio_choices ma g (w # ws) own \<and> (\<forall>c \<in> audio_choices ma g (w # ws) own. ms_bit_rate c \<le> ms_bit_rate a)"
      unfolding sets using a(1,3) \<open>ms_bit_rate own' \<le> ms_bit_rate a\<close> by blast
    then show ?thesis using a(2) step by auto
  qed
qed

lemma tenth_more: "v + a < 10 * q + 10 \<Longrightarrow> c \<le> a \<Longrightarrow> 11 * (v + c) < 10 * (v + a + q + (1 :: int))"
  by (simp add: algebra_simps)

text \<open>C13. The bandwidth listed for a variant with video covers whatever audio a client may play with it, its own or that of any
  rendition of its group, and a tenth more, if the rates are known and their sum is not too large for an \<open>int\<close>.\<close>

theorem hls_master_bandwidth:
  assumes "v_agroup vs = Some g" "c \<in> audio_choices ma g (ma_variants ma) own"
    and "0 < ms_bit_rate vid" "ms_bit_rate vid \<le> 900000000"
    and "\<forall>c \<in> audio_choices ma g (ma_variants ma) own. 0 < ms_bit_rate c \<and> ms_bit_rate c \<le> 900000000"
  shows "11 * (ms_bit_rate vid + ms_bit_rate c) < 10 * (variant_bandwidth (Some vid) (variant_audio ma vs own) + 1)"
proof -
  have "audio_choices ma g (ma_variants ma) own \<noteq> {}" using assms(2) by blast
  from group_audio_highest [OF this] obtain a where a: "a \<in> audio_choices ma g (ma_variants ma) own"
    "group_audio ma g (ma_variants ma) own = Some a" "\<forall>c \<in> audio_choices ma g (ma_variants ma) own. ms_bit_rate c \<le> ms_bit_rate a"
    by blast
  have r: "0 < ms_bit_rate a" "ms_bit_rate a \<le> 900000000" "ms_bit_rate c \<le> ms_bit_rate a" using a(1,3) assms(2,5) by auto
  have b: "variant_bandwidth (Some vid) (Some a) = (let s = ms_bit_rate vid + ms_bit_rate a in s + s div 10)"
    using assms(3,4) r by (simp add: variant_bandwidth_def get_stream_bit_rate_def Let_def sdiv_nonneg s32_def)
  define q where "q = (ms_bit_rate vid + ms_bit_rate a) div 10"
  have "ms_bit_rate vid + ms_bit_rate a < 10 * q + 10" unfolding q_def by presburger
  from tenth_more [OF this r(3)] show ?thesis unfolding variant_audio_def assms(1) option.case a(2) b Let_def q_def [symmetric] .
qed

text \<open>Examples: two renditions of a group, and a variant with video.\<close>

definition sample_stream :: "AVMediaType \<Rightarrow> int \<Rightarrow> media_stream" where
  "sample_stream t rate =
     \<lparr>codec_type = t, st_time_base = \<lparr>num = 1, den = 90000\<rparr>, ms_bit_rate = rate, ms_cpb_max_bitrate = None, ms_dimensions = (640, 360)\<rparr>"

definition sample_variant :: "nat \<Rightarrow> nat \<Rightarrow> master_variant" where
  "sample_variant i video =
     \<lparr>v_idx = i, v_streams = [Some i], v_language = None, v_default = False, v_name = None, v_agroup = Some ''low'', v_ccgroup = None,
      iv_has_video = video, iv_has_subtitle = 0, iv_reference = 0, iv_m3u8_name = ''hls/v'' @ show_int (int i), iv_basename = [],
      iv_fmp4_init_filename = None, iv_base_output_dirname = None, iv_vtt_basename = None, iv_vtt_m3u8_name = None,
      mv_m3u8_created = False, mv_number = 0, mv_codec_attr = []\<rparr>"

definition sample_master :: master where
  "sample_master =
     \<lparr>ma_streams = [sample_stream AVMEDIA_TYPE_AUDIO 64000, sample_stream AVMEDIA_TYPE_AUDIO 128000, sample_stream AVMEDIA_TYPE_VIDEO 900000],
      ma_variants = [sample_variant 0 0, sample_variant 1 0, sample_variant 2 1], ma_ccs = [],
      ma_keys = \<lparr>has_default_key = False, has_video_m3u8 = True\<rparr>, ma_flags = {}, ma_version = 3, ma_url = ''hls/master.m3u8'',
      ma_publish_rate = 2, ma_created = False\<rparr>"

lemma hls_master_published_witness:
  "snd (master_run (\<lambda>_. 0) (\<lambda>_. Some ''file'') [(2, 1), (0, 1), (1, 1), (0, 3)] sample_master ! 1) = [] \<and>
   snd (master_run (\<lambda>_. 0) (\<lambda>_. Some ''file'') [(2, 1), (0, 1), (1, 1), (0, 3)] sample_master ! 2) \<noteq> []"
proof -
  let ?ws = "[(2, 1), (0, 1), (1, 1), (0, 3)] :: (nat \<times> nat) list"
  have ok: "\<forall>w \<in> set ?ws. fst w < length (ma_variants sample_master)" "\<not> ma_created sample_master"
    "\<forall>v \<in> set (ma_variants sample_master). \<not> mv_m3u8_created v"
    by (simp_all add: sample_master_def sample_variant_def)
  have n: "length (ma_variants sample_master) = 3" "ma_publish_rate sample_master = 2" by (simp_all add: sample_master_def)
  define R where "R = master_run (\<lambda>_. 0) (\<lambda>_. Some ''file'') ?ws sample_master"
  note published = hls_master_published [of ?ws sample_master _ "\<lambda>_. 0" "\<lambda>_. Some ''file''", OF ok(1) _ ok(2,3),
      folded R_def, unfolded n]
  have seen: "1 \<notin> fst ` set (take (Suc 0) ?ws)" "1 \<notin> fst ` set (take (Suc 1) ?ws)" "{..<3} \<subseteq> fst ` set (take (Suc 2) ?ws)"
    by auto
  have sub: "1 \<notin> A \<Longrightarrow> \<not> {..<3 :: nat} \<subseteq> A" for A by (metis lessThan_iff one_less_numeral_iff semiring_norm(77) subsetD)
  have none: "snd (R ! 0) = []" using published [of 0] sub [OF seen(1)] by simp
  then have none1: "snd (R ! 1) = []" using published [of 1] sub [OF seen(2)] by simp
  have "\<not> (\<exists>j < 2. snd (R ! j) \<noteq> [] \<and> 0 \<le> fst (R ! j))" using none none1 less_2_cases by force
  then have "snd (R ! 2) \<noteq> []" using published [of 2] seen(3) by simp
  then show ?thesis using none1 unfolding R_def by blast
qed

lemma hls_master_links_witness:
  "\<exists>h ev url. hls_init sample_env (sample_options ''www/out%v/live.m3u8'' ''v:0 v:1'') [AVMEDIA_TYPE_VIDEO, AVMEDIA_TYPE_VIDEO] = (Inr h, ev) \<and>
     in_master_url h = Some url \<and>
     (\<exists>rel. relative_name url (iv_m3u8_name (in_variants h ! 1)) = (0, rel) \<and> resolve_link url rel = iv_m3u8_name (in_variants h ! 1))"
proof -
  let ?m = "sample_options ''www/out%v/live.m3u8'' ''v:0 v:1''"
  let ?r = "hls_init sample_env ?m [AVMEDIA_TYPE_VIDEO, AVMEDIA_TYPE_VIDEO]"
  have "case fst ?r of Inl _ \<Rightarrow> False | Inr h \<Rightarrow> length (in_variants h) = 2 \<and> in_master_url h = Some ''www/master.m3u8''"
    by code_simp
  then obtain h ev where h: "?r = (Inr h, ev)" "length (in_variants h) = 2" "in_master_url h = Some ''www/master.m3u8''"
    by (cases ?r; cases "fst ?r") auto
  have m: "master_pl_option ?m = Some ''master.m3u8''" by (simp add: sample_options_def)
  have d: "CHR ''%'' \<notin> set (master_dir (s_url ?m))" by code_simp
  have "in_variants h ! 1 \<in> set (in_variants h)" using h(2) by simp
  from hls_master_links [OF h(1) m h(3) _ _ _ d this] show ?thesis using h by auto
qed

lemma hls_master_bandwidth_witness:
  "11 * (900000 + 64000) < 10 * (variant_bandwidth (Some (sample_stream AVMEDIA_TYPE_VIDEO 900000))
     (variant_audio sample_master (sample_variant 2 1) None) + 1)"
proof -
  have c: "audio_choices sample_master ''low'' (ma_variants sample_master) None =
      {sample_stream AVMEDIA_TYPE_AUDIO 64000, sample_stream AVMEDIA_TYPE_AUDIO 128000}"
  proof -
    have "group_member ''low'' (sample_variant 0 0)" "group_member ''low'' (sample_variant 1 0)" "\<not> group_member ''low'' (sample_variant 2 1)"
      unfolding group_member_def by code_simp+
    then have "{w \<in> set (ma_variants sample_master). group_member ''low'' w} = {sample_variant 0 0, sample_variant 1 0}"
      by (auto simp: sample_master_def)
    moreover have "variant_streams sample_master (sample_variant 0 0) ! 0 = sample_stream AVMEDIA_TYPE_AUDIO 64000"
      "variant_streams sample_master (sample_variant 1 0) ! 0 = sample_stream AVMEDIA_TYPE_AUDIO 128000"
      by (simp_all add: variant_streams_def sample_master_def sample_variant_def)
    ultimately show ?thesis by (simp add: audio_choices_def)
  qed
  have "11 * (ms_bit_rate (sample_stream AVMEDIA_TYPE_VIDEO 900000) + ms_bit_rate (sample_stream AVMEDIA_TYPE_AUDIO 64000)) <
      10 * (variant_bandwidth (Some (sample_stream AVMEDIA_TYPE_VIDEO 900000)) (variant_audio sample_master (sample_variant 2 1) None) + 1)"
    by (rule hls_master_bandwidth [where g = "''low''"]) (simp_all add: c, simp_all add: sample_variant_def sample_stream_def)
  then show ?thesis by (simp add: sample_stream_def)
qed

end
