(* ===== verification/Spec2Isabelle.thy ===== *)
theory Spec2Isabelle
  imports Clib Intmath Mathematics Rational Bytes Backptr Lzo AvTree Descriptor Avio Cache Aviobuf AvioWrite AvioRead Tea Blowfish Cast5 Camellia Twofish Fifo
    Hashbuf Md5 Sha Sha512 Ripemd Murmur3 Hmac Avstring HlsPlaylist HlsEnc HlsWindow HlsStart HlsPacket HlsSchedule HlsClock HlsDurations HlsVariants HlsInit
    HlsNames HlsMaster
begin

text \<open>
  \<^bold>\<open>hlsXcoder\<close> is a transcoder service built around a patched FFmpeg that produces HLS streams.  This
  development models parts of the C code under \<open>src/ffmpeg\<close>: the HLS muxer, which is what the program is
  for, and the routines of \<open>libavutil\<close> it and the rest of FFmpeg compute with.

  \<^bold>\<open>How the parts interact.\<close>  The muxer (\<open>libavformat/hlsenc.c\<close>) reads which streams form which variant and names their files (\<open>hls_init\<close>), gets packets (\<open>hls_write_packet\<close>), finds the
  variant stream of each and ends the running segment at the first packet that may begin one when it is due; the
  next one gets its name, key and file in \<open>hls_start\<close>, the last one ends in \<open>hls_write_trailer\<close>.  It keeps for
  every variant stream a list of finished segments.  A finished segment is appended (\<open>hls_append_segment\<close>), the list slides over a full
  window, the files of segments that left it are deleted (\<open>hls_delete_old_segments\<close>), and the media
  playlist is rewritten (\<open>hls_window\<close>) through the line writers of \<open>libavformat/hlsplaylist.c\<close>, followed by the master
  playlist when it is due (\<open>create_master_playlist\<close>); with
  \<open>append_list\<close> a restarted muxer reads the playlist back (\<open>parse_playlist\<close>) and appends what it finds.
  File names come from templates and the string functions of \<open>libavutil/avstring.c\<close>.  Timestamps are
  compared and converted by \<open>libavutil/mathematics.c\<close> and \<open>rational.c\<close>; packets and bytes queue in
  \<open>libavutil/fifo.c\<close>; content is encrypted with the ciphers and
  checked with the hashes of \<open>libavutil\<close>.

  \<^bold>\<open>The theories.\<close>
  \<^item> \<open>Clib\<close>: conversions to the C integer types, C division, facts about literal tables (the prelude);
    \<open>Bytes\<close>: the byte order macros of \<open>intreadwrite.h\<close> and the locale \<open>block_mode\<close> of a block cipher used on
    a buffer in ECB or CBC mode, interpreted for each cipher.
  \<^item> \<open>Intmath\<close>: \<open>intmath.h\<close>, \<open>log2_tab.c\<close>, \<open>common.h\<close>; \<open>Mathematics\<close>: \<open>mathematics.c\<close> (gcd, exact 64-bit
    rescaling through 128-bit intermediate values, comparison and conversion of timestamps);
    \<open>Rational\<close>: \<open>rational.c\<close> (best approximation by continued fractions, arithmetic, search, conversion to
    single precision).
  \<^item> \<open>Tea\<close> (\<open>tea.c\<close>, \<open>xtea.c\<close>, \<open>rc4.c\<close>), \<open>Blowfish\<close>, \<open>Cast5\<close>, \<open>Camellia\<close>, \<open>Twofish\<close>: the ciphers with their
    tables and key schedules; decryption undoes encryption for whole buffers, except for Twofish.
  \<^item> \<open>Hashbuf\<close>: hashing a stream of blocks, as a reference and as the update function the hashes share, and the
    locale \<open>block_hash\<close>; \<open>Md5\<close>, \<open>Sha\<close>, \<open>Sha512\<close>, \<open>Ripemd\<close>: the hashes, each an interpretation of it, with the
    unrolled and the looped rounds, for pieces whose length does not wrap the \<open>unsigned int\<close> sums of the update functions; \<open>Murmur3\<close>, which differs for some pieces; \<open>Hmac\<close>: keyed hashes over the
    locale \<open>message_hash\<close>.
  \<^item> \<open>Backptr\<close>: \<open>av_memcpy_backptr\<close> of \<open>mem.c\<close>, the copy whose source overlaps what it writes; \<open>Lzo\<close>: the LZO
    decoder \<open>lzo.c\<close> that uses it, with a reference for the format; \<open>AvTree\<close>: the balanced trees \<open>tree.c\<close>.
  \<^item> \<open>Descriptor\<close>: open files of the operating system, whose calls may fail or transfer less than asked;
    \<open>Avio\<close>: the transfers of \<open>libavformat/avio.c\<close> and the protocol \<open>file.c\<close>, with the locale
    \<open>url_protocol\<close>, the contract of a protocol, interpreted for local files and for \<open>ffurl_read\<close> over them;
    \<open>Cache\<close>: the protocol \<open>cache.c\<close> on top of both the trees and the contract: a reader sees the resource
    itself, up to one sequence of seeks for which it does not.
  \<^item> \<open>Aviobuf\<close>: the buffered contexts of \<open>aviobuf.c\<close>; \<open>AvioWrite\<close>: what is written through one arrives as if every byte had
    been written in place, over the locale \<open>output_sink\<close>, interpreted for buffers in memory and for local files;
    \<open>AvioRead\<close>: what is read through one are the bytes of the resource at the reader's place, over the locale
    \<open>stream_protocol\<close>, which extends \<open>url_protocol\<close> and is interpreted for local files.
  \<^item> \<open>Fifo\<close>: \<open>fifo.c\<close>; the ring buffer refines a byte queue, stated by the locale \<open>byte_queue\<close>.
  \<^item> \<open>Avstring\<close>: the string functions; \<open>HlsPlaylist\<close>: \<open>hlsplaylist.c\<close> and decimal numbers; \<open>HlsEnc\<close>: the
    segment list of \<open>hlsenc.c\<close>, with the runs \<open>hls_run\<close> of a muxer and the window invariant;
    \<open>HlsWindow\<close>: writing and parsing the media playlist.
  \<^item> \<open>HlsStart\<close>: naming, encrypting and opening a segment; \<open>HlsPacket\<close>: the packet loop and the trailer;
    \<open>HlsSchedule\<close>: what one packet does to the clock of a stream; \<open>HlsClock\<close>: runs of the packet loop, the
    reference \<open>segmenter\<close> they refine, and when segments end and how many do; \<open>HlsDurations\<close>: which durations are listed, with
    the roundings of IEEE doubles bounded for every time base.
  \<^item> \<open>HlsVariants\<close>: the maps that say which streams form a variant; \<open>HlsInit\<close>: the part of \<open>hls_init\<close> that checks the
    options and names the files of every variant; \<open>HlsNames\<close>: when variants have playlists and segment files of
    their own, and when they overwrite those of each other; \<open>HlsMaster\<close>: the master playlist, its links, bandwidths and when
    it is written.

  \<^bold>\<open>Conventions.\<close>  Signed C arithmetic is over \<open>int\<close> with the conversions \<open>s32\<close>, \<open>u64\<close> and so on written where
  the code converts; bit-level code is over \<open>'a word\<close>.  Buffers are lists of bytes, C strings are lists of
  characters without the terminating zero.  State is passed explicitly, in records with the fields the
  modelled operations use.  Errors are negative return values as in the source, or a sum type.  Allocation
  succeeds except where the allocator is a parameter.  Floating point values of the muxer are an abstract
  type with the operations of the record \<open>float_ops\<close>; what a theorem needs of \<open>lrint\<close> is its hypothesis
  \<open>rint_laws\<close>, and of the additions the hypothesis \<open>double_durations\<close>.  Where C leaves a signed overflow undefined and
  the text of a definition does not say otherwise, it wraps.  What the muxer calls of files, protocols and the inner muxers are parameters (\<open>io_open\<close>, the records \<open>hls_env\<close> and \<open>packet_io\<close>),
  and file operations are recorded as events.
  All loops are structural recursion, recursion with a measure, \<open>while\<close> with a termination proof, or
  \<open>partial_function (option)\<close> with a theorem that they return; no fuel is used.

  \<^bold>\<open>Not modelled.\<close>  The codecs, filters, scaling, resampling, devices and tools, which are signal
  processing code and tables; the demuxers, the muxers other than HLS and the protocols other than
  \<open>file:\<close> and \<open>cache:\<close>; in \<open>hlsenc.c\<close> the
  set-up of the inner muxers, the option table and the codec attributes; the service around FFmpeg, which is not C.
\<close>

end
